(* ===== verification/Prelude.thy ===== *)
theory Prelude
  imports Main "HOL-Library.Multiset"
begin

text \<open>
  Shared vocabulary of the development: the C++ idioms the components use (a counted
  \<open>for\<close> loop, \<open>std::vector::resize\<close>, an in-place increment) as HOL
  functions, and the generic facts on lists and folds that the component proofs rest on.
\<close>

section \<open>Rule collections\<close>

named_theorems vec_simps \<open>rewriting of the vector idioms\<close>

section \<open>Counted loops\<close>

text \<open>\<open>for (k = a; k < b; ++k) s = f(k, s)\<close>.\<close>

abbreviation for_range :: "nat \<Rightarrow> nat \<Rightarrow> (nat \<Rightarrow> 's \<Rightarrow> 's) \<Rightarrow> 's \<Rightarrow> 's" where
  "for_range a b f s \<equiv> fold f [a..<b] s"

lemma for_range_invariant:
  assumes "a \<le> b" and "P a s"
    and "\<And>k s. a \<le> k \<Longrightarrow> k < b \<Longrightarrow> P k s \<Longrightarrow> P (Suc k) (f k s)"
  shows "P b (for_range a b f s)"
  using assms
proof (induction "b - a" arbitrary: a s)
  case 0
  then show ?case by simp
next
  case (Suc d)
  then have lt: "a < b" by simp
  have "P b (for_range (Suc a) b f (f a s))"
    using Suc.hyps(2) lt Suc.prems
    by (intro Suc.hyps(1)) auto
  then show ?case using lt by (simp add: upt_conv_Cons)
qed

lemma fold_invariant:
  assumes "P s" and "\<And>x s. x \<in> set xs \<Longrightarrow> P s \<Longrightarrow> P (f x s)"
  shows "P (fold f xs s)"
  using assms by (induction xs arbitrary: s) auto

lemma fold_invariant_prefix:
  assumes "P [] s"
    and "\<And>ys x zs s. xs = ys @ x # zs \<Longrightarrow> P ys s \<Longrightarrow> P (ys @ [x]) (f x s)"
  shows "P xs (fold f xs s)"
proof -
  have "P (ys @ zs) (fold f zs s')" if "xs = ys @ zs" "P ys s'" for ys zs s'
    using that
  proof (induction zs arbitrary: ys s')
    case Nil
    then show ?case by simp
  next
    case (Cons z zs)
    have "P (ys @ [z]) (f z s')" using Cons.prems assms(2) by blast
    then show ?case using Cons.IH [of "ys @ [z]" "f z s'"] Cons.prems(1) by simp
  qed
  from this [of "[]" xs s] assms(1) show ?thesis by simp
qed

text \<open>Peeling the first index off a bounded quantifier.\<close>

lemma all_split_first:
  "i < m \<Longrightarrow> (\<forall>r. i \<le> r \<and> r < m \<longrightarrow> Q r) \<longleftrightarrow> Q i \<and> (\<forall>r. Suc i \<le> r \<and> r < m \<longrightarrow> Q r)"
  by (metis Suc_leD le_eq_less_or_eq Suc_leI order_refl)

text \<open>A loop body under a guard is the unguarded loop over the elements that pass it.\<close>

lemma fold_if: "fold (\<lambda>x s. if P x then f x s else s) xs s = fold f (filter P xs) s"
  by (induction xs arbitrary: s) auto

section \<open>Vectors\<close>

text \<open>\<open>std::vector::resize(k)\<close>: drop what is beyond \<open>k\<close>, value-initialise what is new.\<close>

definition vresize :: "nat \<Rightarrow> 'a \<Rightarrow> 'a list \<Rightarrow> 'a list" where
  "vresize k d xs = take k xs @ replicate (k - length xs) d"

lemma length_vresize [simp]: "length (vresize k d xs) = k"
  by (simp add: vresize_def)

lemma nth_vresize [simp]: "p < k \<Longrightarrow> vresize k d xs ! p = (if p < length xs then xs ! p else d)"
  by (auto simp: vresize_def nth_append)

lemma vresize_same [simp]: "length xs = k \<Longrightarrow> vresize k d xs = xs"
  by (simp add: vresize_def)

lemma take_vresize: "q \<le> length xs \<Longrightarrow> q \<le> k \<Longrightarrow> take q (vresize k d xs) = take q xs"
  by (rule nth_equalityI) auto

text \<open>A loop that assigns \<open>v[p] = f(p)\<close> on a range.\<close>

lemma fill_range:
  "a \<le> b \<Longrightarrow> b \<le> length v \<Longrightarrow>
   for_range a b (\<lambda>p v. v[p := f p]) v = map (\<lambda>p. if a \<le> p \<and> p < b then f p else v ! p) [0..<length v]"
proof (induction b)
  case (Suc b)
  show ?case
  proof (cases "a \<le> b")
    case True
    then show ?thesis
      using Suc by (auto intro!: nth_equalityI simp: nth_list_update)
  next
    case False
    then have "a = Suc b" using Suc.prems by simp
    then show ?thesis by (auto intro!: nth_equalityI)
  qed
qed (auto intro!: nth_equalityI)

text \<open>\<open>v[k]++\<close>.\<close>

definition vincr :: "nat \<Rightarrow> nat list \<Rightarrow> nat list" where
  "vincr k v = v[k := v ! k + 1]"

lemma length_vincr [simp]: "length (vincr k v) = length v"
  by (simp add: vincr_def)

lemma nth_vincr [vec_simps]:
  "k < length v \<Longrightarrow> vincr k v ! l = (if l = k then v ! k + 1 else v ! l)"
  by (auto simp: vincr_def)

lemma upt_append: "a \<le> b \<Longrightarrow> b \<le> c \<Longrightarrow> [a..<b] @ [b..<c] = [a..<c]"
  using upt_add_eq_append [of a b "c - b"] by simp

lemma sorted_map_const: "(\<And>x. x \<in> set xs \<Longrightarrow> f x = c) \<Longrightarrow> sorted (map f xs)"
  by (induction xs) auto

lemma sum_list_mset_cong:
  fixes f :: "'a \<Rightarrow> 'b::comm_monoid_add"
  shows "mset xs = mset ys \<Longrightarrow> sum_list (map f xs) = sum_list (map f ys)"
  by (metis mset_map sum_mset_sum_list)

lemma sum_list_filter_cond:
  fixes f :: "'a \<Rightarrow> 'b::comm_monoid_add"
  shows "sum_list (map f (filter P xs)) = sum_list (map (\<lambda>x. if P x then f x else 0) xs)"
  by (induction xs) auto

lemma sum_list_concat_map:
  fixes f :: "'a \<Rightarrow> 'b::comm_monoid_add"
  shows "sum_list (map f (concat xss)) = sum_list (map (\<lambda>xs. sum_list (map f xs)) xss)"
  by (induction xss) auto

lemma sum_list_map_upt:
  "sum_list (map f [0..<n]) = (\<Sum>j<n. f j)" for f :: "nat \<Rightarrow> 'b::comm_monoid_add"
  by (induction n) (auto simp: add.commute)

text \<open>A loop that scatters values to distinct positions.\<close>

lemma length_fold_update: "length (fold (\<lambda>k x. x[f k := g k]) ks x) = length x"
  by (induction ks arbitrary: x) auto

lemma nth_inverse_permute:
  assumes "distinct p" "\<forall>k \<in> set p. k < length x" "k < length p"
  shows "for_range 0 (length p) (\<lambda>k x. x[p ! k := g k]) x ! (p ! k) = g k"
proof -
  define P where "P m v = (length v = length x \<and> (\<forall>k<m. v ! (p ! k) = g k))" for m v
  have "P (length p) (for_range 0 (length p) (\<lambda>k x. x[p ! k := g k]) x)"
    by (rule for_range_invariant)
      (use assms in \<open>auto simp: P_def nth_list_update less_Suc_eq nth_eq_iff_index_eq\<close>)
  then show ?thesis using assms(3) by (simp add: P_def)
qed

lemma nth_fold_update_other:
  "p \<notin> f ` set ks \<Longrightarrow> fold (\<lambda>k x. x[f k := g k]) ks x ! p = x ! p"
  by (induction ks arbitrary: x) auto

end
