(* ===== verification/Bucket_Placement.thy ===== *)
theory Bucket_Placement
  imports Prelude
begin

text \<open>
  The counting-sort idiom that every format conversion of the sparse linear algebra uses:
  count the keys, take the running sum (\<open>cumulative_sum\<close> of
  \<open>cpp/src/linear_algebra/sparse_matrix.cpp\<close>) as the start of each bucket, and place
  each entry at \<open>workspace[key]++\<close>. The theorems say that bucket \<open>k\<close> of the result
  holds exactly the entries of key \<open>k\<close>, in their original order.
\<close>

section \<open>Counting and running sums\<close>

definition cumulative_sum :: "nat list \<Rightarrow> nat list \<Rightarrow> nat list \<times> nat list" where
  "cumulative_sum inout output =
     (let n = length inout;
          (inout, output, nz) =
            for_range 0 n
              (\<lambda>i (inout, output, nz).
                 let output = output[i := nz];
                     nz = nz + inout ! i;
                     inout = inout[i := output ! i]
                 in (inout, output, nz))
              (inout, output, 0)
      in (inout, output[n := nz]))"

text \<open>The loop \<open>for (...) workspace[key]++\<close> over a list of keys.\<close>

definition count_keys :: "nat list \<Rightarrow> nat list \<Rightarrow> nat list" where
  "count_keys keys workspace = fold vincr keys workspace"

lemma length_count_keys [simp]: "length (count_keys keys ws) = length ws"
  unfolding count_keys_def by (induction keys arbitrary: ws) auto

lemma nth_count_keys:
  "\<forall>k \<in> set keys. k < length ws \<Longrightarrow> l < length ws \<Longrightarrow>
   count_keys keys ws ! l = ws ! l + count_list keys l"
  unfolding count_keys_def
  by (induction keys arbitrary: ws) (auto simp: nth_vincr)

lemma count_keys_zero:
  "\<forall>k \<in> set keys. k < K \<Longrightarrow> count_keys keys (replicate K 0) = map (count_list keys) [0..<K]"
  by (rule nth_equalityI) (auto simp: nth_count_keys)

lemma cumulative_sum_eq:
  assumes "length output = length inout + 1"
  shows "cumulative_sum inout output =
           (map (\<lambda>i. sum_list (take i inout)) [0..<length inout],
            map (\<lambda>i. sum_list (take i inout)) [0..<length inout + 1])"
proof -
  let ?n = "length inout" and ?s = "\<lambda>i. sum_list (take i inout)"
  let ?body = "\<lambda>i (io, out, nz). let out = out[i := nz]; nz = nz + io ! i; io = io[i := out ! i]
                 in (io, out, nz :: nat)"
  define P where "P k = (\<lambda>(io, out, nz). length io = ?n \<and> length out = ?n + 1 \<and> nz = ?s k
    \<and> (\<forall>i<k. io ! i = ?s i \<and> out ! i = ?s i) \<and> (\<forall>i. k \<le> i \<longrightarrow> i < ?n \<longrightarrow> io ! i = inout ! i))"
    for k
  have "P ?n (for_range 0 ?n ?body (inout, output, 0))"
  proof (rule for_range_invariant)
    show "P 0 (inout, output, 0)" using assms by (simp add: P_def)
    show "P (Suc k) (?body k s)" if "k < ?n" "P k s" for k s
      using that by (auto simp: P_def Let_def less_Suc_eq take_Suc_conv_app_nth)
  qed simp
  moreover obtain io out nz where r: "for_range 0 ?n ?body (inout, output, 0) = (io, out, nz)"
    by (rule prod_cases3)
  ultimately have inv: "P ?n (io, out, nz)" by simp
  have "io = map ?s [0..<?n]"
    using inv by (auto simp: P_def intro!: nth_equalityI)
  moreover have "out[?n := nz] = map ?s [0..<?n + 1]"
    using inv by (intro nth_equalityI) (auto simp: P_def nth_list_update less_Suc_eq nth_append)
  ultimately show ?thesis
    using r unfolding cumulative_sum_def by (simp add: Let_def)
qed

section \<open>Placing the entries\<close>

text \<open>An entry is a key and the pair of values stored for it in the two parallel arrays.\<close>

type_synonym ('a, 'v) entry = "nat \<times> 'a \<times> 'v"

definition bucket_put ::
    "('a, 'v) entry \<Rightarrow> nat list \<times> 'a list \<times> 'v list \<Rightarrow> nat list \<times> 'a list \<times> 'v list" where
  "bucket_put = (\<lambda>(k, a, v) (workspace, ai, ax).
     let q = workspace ! k in (workspace[k := q + 1], ai[q := a], ax[q := v]))"

definition bucket_start :: "('a, 'v) entry list \<Rightarrow> nat \<Rightarrow> nat" where
  "bucket_start es k = length (filter (\<lambda>e. fst e < k) es)"

abbreviation bucket :: "('a, 'v) entry list \<Rightarrow> nat \<Rightarrow> ('a, 'v) entry list" where
  "bucket es k \<equiv> filter (\<lambda>e. fst e = k) es"

lemma bucket_start_Suc: "bucket_start es (Suc k) = bucket_start es k + length (bucket es k)"
  unfolding bucket_start_def by (induction es) (auto simp: less_Suc_eq)

lemma bucket_start_0 [simp]: "bucket_start es 0 = 0"
  by (simp add: bucket_start_def)

lemma bucket_start_mono: "k \<le> l \<Longrightarrow> bucket_start es k \<le> bucket_start es l"
  by (induction l rule: dec_induct) (auto simp: bucket_start_Suc)

lemma bucket_start_le: "bucket_start es k \<le> length es"
  by (simp add: bucket_start_def)

lemma bucket_start_all: "\<forall>e \<in> set es. fst e < K \<Longrightarrow> bucket_start es K = length es"
  by (simp add: bucket_start_def)

lemma sum_list_counts:
  "k \<le> K \<Longrightarrow> sum_list (take k (map (count_list (map fst es)) [0..<K])) = bucket_start es k"
proof (induction k)
  case (Suc k)
  moreover have "count_list (map fst es) k = length (bucket es k)"
    by (induction es) auto
  ultimately show ?case
    by (simp add: take_Suc_conv_app_nth bucket_start_Suc)
qed (simp add: bucket_start_def)

text \<open>Counting and summing gives the bucket starts, both as write cursors and as pointers.\<close>

lemma bucket_starts:
  assumes "\<forall>e \<in> set es. fst e < K" and "length output = K + 1"
  shows "cumulative_sum (count_keys (map fst es) (replicate K 0)) output =
           (map (bucket_start es) [0..<K], map (bucket_start es) [0..<K + 1])"
  using assms
  using sum_list_counts [of K K es]
  by (subst cumulative_sum_eq) (auto simp: count_keys_zero sum_list_counts)

lemma bucket_pos_unique:
  assumes "bucket_start es k + t = bucket_start es l + u"
    and "t < length (bucket es k)" and "u < length (bucket es l)"
  shows "k = l"
proof (rule ccontr)
  assume "k \<noteq> l"
  then consider "Suc k \<le> l" | "Suc l \<le> k" by linarith
  then show False
    using bucket_start_mono [of "Suc k" l es] bucket_start_mono [of "Suc l" k es] assms
    by cases (auto simp: bucket_start_Suc)
qed

text \<open>
  The invariant of the placement loop: cursor \<open>k\<close> has advanced by the number of entries
  of key \<open>k\<close> seen so far, and those entries stand at the front of bucket \<open>k\<close>.
\<close>

definition placed ::
    "nat \<Rightarrow> ('a, 'v) entry list \<Rightarrow> ('a, 'v) entry list \<Rightarrow> nat list \<times> 'a list \<times> 'v list \<Rightarrow> bool" where
  "placed K es ys = (\<lambda>(workspace, ai, ax).
     length workspace = K \<and> length es \<le> length ai \<and> length es \<le> length ax
     \<and> (\<forall>k<K. workspace ! k = bucket_start es k + length (bucket ys k))
     \<and> (\<forall>k<K. \<forall>t<length (bucket ys k).
          (ai ! (bucket_start es k + t), ax ! (bucket_start es k + t)) = snd (bucket ys k ! t)))"

lemma placed_step:
  assumes es: "es = ys @ e # zs" and keys: "\<forall>e \<in> set es. fst e < K" and p: "placed K es ys s"
  shows "placed K es (ys @ [e]) (bucket_put e s)"
proof -
  obtain k a v where e: "e = (k, a, v)" by (metis prod_cases3)
  obtain ws ai ax where s: "s = (ws, ai, ax)" by (metis prod_cases3)
  have k: "k < K" using keys es e by auto
  let ?q = "bucket_start es k + length (bucket ys k)"
  have lt: "length (bucket ys l) \<le> length (bucket es l)" for l
    by (simp add: es)
  have ltk: "length (bucket ys k) < length (bucket es k)"
    by (simp add: es e)
  have q: "?q < length es"
    using ltk bucket_start_Suc [of es k] bucket_start_le [of es "Suc k"] by linarith
  have ne: "?q \<noteq> bucket_start es l + t" if "t < length (bucket ys l)" for l t
  proof
    assume eq: "?q = bucket_start es l + t"
    have "k = l" using bucket_pos_unique [OF eq ltk] that lt [of l] by linarith
    then show False using that eq by simp
  qed
  have "(ai[?q := a] ! (bucket_start es l + t), ax[?q := v] ! (bucket_start es l + t))
      = snd (bucket (ys @ [e]) l ! t)"
    if l: "l < K" and t: "t < length (bucket (ys @ [e]) l)" for l t
  proof (cases "t < length (bucket ys l)")
    case True
    then show ?thesis using ne [OF True] p l by (simp add: placed_def s nth_append)
  next
    case False
    then have "l = k" and "t = length (bucket ys k)"
      using t by (auto simp: e split: if_splits)
    then show ?thesis using p q by (simp add: placed_def s e nth_append)
  qed
  then show ?thesis
    using p k unfolding placed_def s e bucket_put_def
    by (auto simp: Let_def nth_list_update)
qed

theorem bucket_place:
  assumes keys: "\<forall>e \<in> set es. fst e < K"
    and "length es \<le> length ai" and "length es \<le> length ax"
    and run: "fold bucket_put es (map (bucket_start es) [0..<K], ai, ax) = (ws', ai', ax')"
  shows "length ai' = length ai" and "length ax' = length ax"
    and "k < K \<Longrightarrow> map (\<lambda>p. (ai' ! p, ax' ! p)) [bucket_start es k..<bucket_start es (Suc k)]
                    = map snd (bucket es k)"
proof -
  let ?s = "(map (bucket_start es) [0..<K], ai, ax)"
  have len: "length (fst (snd (fold bucket_put es s))) = length (fst (snd s))
    \<and> length (snd (snd (fold bucket_put es s))) = length (snd (snd s))" for s :: "nat list \<times> 'a list \<times> 'b list"
    by (induction es arbitrary: s) (auto simp: bucket_put_def Let_def split: prod.splits)
  from len [of ?s] run show "length ai' = length ai" and "length ax' = length ax" by auto
  have "placed K es es (fold bucket_put es ?s)"
  proof (rule fold_invariant_prefix [where P = "placed K es"])
    show "placed K es [] ?s" using assms by (simp add: placed_def)
  qed (use placed_step keys in blast)
  then have at: "\<forall>t<length (bucket es k). (ai' ! (bucket_start es k + t), ax' ! (bucket_start es k + t))
      = snd (bucket es k ! t)" if "k < K" for k
    using that run by (auto simp: placed_def)
  show "map (\<lambda>p. (ai' ! p, ax' ! p)) [bucket_start es k..<bucket_start es (Suc k)]
      = map snd (bucket es k)" if "k < K"
    using at [OF that] by (intro nth_equalityI) (auto simp: bucket_start_Suc)
qed

end
