(* ===== verification/Sparse_Matrix.thy ===== *)
theory Sparse_Matrix
  imports Bucket_Placement
begin

text \<open>
  Compressed sparse matrices and the conversions between their formats,
  \<open>cpp/src/linear_algebra/sparse_matrix.hpp\<close> and \<open>sparse_matrix.cpp\<close>. Indices and
  pointers (\<open>i_t\<close>, a signed type whose values are never negative in a well-formed
  matrix) are natural numbers; coefficients (\<open>f_t\<close>) are of any type with the operations
  the code uses, so that moving them is modelled exactly and only the theorems on sums ask
  for the laws of arithmetic. Every conversion takes the destination object as the code
  does, and overwrites or resizes its vectors.
\<close>

section \<open>The data\<close>

text \<open>\<open>csc_matrix_t\<close> and \<open>csr_matrix_t\<close>.\<close>

record 'f csc_matrix =
  csc_m :: nat
  csc_n :: nat
  csc_nz_max :: nat
  col_start :: "nat list"
  csc_i :: "nat list"
  csc_x :: "'f list"

record 'f csr_matrix =
  csr_nz_max :: nat
  csr_m :: nat
  csr_n :: nat
  row_start :: "nat list"
  csr_j :: "nat list"
  csr_x :: "'f list"

definition csc_matrix_t :: "nat \<Rightarrow> nat \<Rightarrow> nat \<Rightarrow> 'f::zero csc_matrix" where
  "csc_matrix_t rows cols nz =
     \<lparr>csc_m = rows, csc_n = cols, csc_nz_max = nz, col_start = replicate (cols + 1) 0,
      csc_i = replicate nz 0, csc_x = replicate nz 0\<rparr>"

definition csr_matrix_t :: "nat \<Rightarrow> nat \<Rightarrow> nat \<Rightarrow> 'f::zero csr_matrix" where
  "csr_matrix_t rows cols nz =
     \<lparr>csr_nz_max = nz, csr_m = rows, csr_n = cols, row_start = replicate (rows + 1) 0,
      csr_j = replicate nz 0, csr_x = replicate nz 0\<rparr>"

definition csc_resize :: "nat \<Rightarrow> nat \<Rightarrow> nat \<Rightarrow> 'f::zero csc_matrix \<Rightarrow> 'f csc_matrix" where
  "csc_resize rows cols nz A =
     A\<lparr>csc_m := rows, csc_n := cols, csc_nz_max := nz,
       col_start := vresize (cols + 1) 0 (col_start A),
       csc_i := vresize nz 0 (csc_i A), csc_x := vresize nz 0 (csc_x A)\<rparr>"

definition reallocate :: "nat \<Rightarrow> 'f::zero csc_matrix \<Rightarrow> 'f csc_matrix" where
  "reallocate new_nz A =
     A\<lparr>csc_i := vresize new_nz 0 (csc_i A), csc_x := vresize new_nz 0 (csc_x A),
       csc_nz_max := new_nz\<rparr>"

definition nnz :: "'f csc_matrix \<Rightarrow> nat" where
  "nnz A = col_start A ! csc_n A"

definition col_length :: "'f csc_matrix \<Rightarrow> nat \<Rightarrow> nat" where
  "col_length A j = col_start A ! (j + 1) - col_start A ! j"

definition row_length :: "'f csr_matrix \<Rightarrow> nat \<Rightarrow> nat" where
  "row_length A i = row_start A ! (i + 1) - row_start A ! i"

definition get_constraint_range :: "'f csr_matrix \<Rightarrow> nat \<Rightarrow> nat \<times> nat" where
  "get_constraint_range A cstr_idx = (row_start A ! cstr_idx, row_start A ! (cstr_idx + 1))"

section \<open>Conversions\<close>

definition coo_to_csc ::
    "nat list \<Rightarrow> nat list \<Rightarrow> 'f::zero list \<Rightarrow> 'f csc_matrix \<Rightarrow> 'f csc_matrix" where
  "coo_to_csc Ai Aj Ax A =
     (let A = (if csc_nz_max A < length Ai then reallocate (length Ai) A else A);
          n = csc_n A;
          nz = length Aj;
          workspace = for_range 0 nz (\<lambda>k. vincr (Aj ! k)) (replicate n 0);
          (workspace, cs) = cumulative_sum workspace (col_start A);
          (workspace, i', x') =
            for_range 0 nz (\<lambda>k. bucket_put (Aj ! k, Ai ! k, Ax ! k))
              (workspace, csc_i A, csc_x A)
      in A\<lparr>col_start := cs, csc_i := i', csc_x := x'\<rparr>)"

definition to_compressed_row :: "'f::zero csc_matrix \<Rightarrow> 'f csr_matrix \<Rightarrow> 'f csr_matrix" where
  "to_compressed_row A Arow =
     (let m = csc_m A;
          n = csc_n A;
          nz = col_start A ! n;
          workspace = for_range 0 nz (\<lambda>p. vincr (csc_i A ! p)) (replicate m 0);
          (workspace, rs) = cumulative_sum workspace (vresize (m + 1) 0 (row_start Arow));
          (workspace, j', x') =
            for_range 0 n
              (\<lambda>j. for_range (col_start A ! j) (col_start A ! (j + 1))
                     (\<lambda>p. bucket_put (csc_i A ! p, j, csc_x A ! p)))
              (workspace, vresize nz 0 (csr_j Arow), vresize nz 0 (csr_x Arow))
      in Arow\<lparr>csr_m := m, csr_n := n, row_start := rs, csr_j := j', csr_x := x'\<rparr>)"

definition to_compressed_col :: "'f::zero csr_matrix \<Rightarrow> 'f csc_matrix \<Rightarrow> 'f csc_matrix" where
  "to_compressed_col A Acol =
     (let m = csr_m A;
          n = csr_n A;
          nz = row_start A ! m;
          workspace = for_range 0 nz (\<lambda>p. vincr (csr_j A ! p)) (replicate n 0);
          (workspace, cs) = cumulative_sum workspace (vresize (n + 1) 0 (col_start Acol));
          (workspace, i', x') =
            for_range 0 m
              (\<lambda>i. for_range (row_start A ! i) (row_start A ! (i + 1))
                     (\<lambda>p. bucket_put (csr_j A ! p, i, csr_x A ! p)))
              (workspace, vresize nz 0 (csc_i Acol), vresize nz 0 (csc_x Acol))
      in Acol\<lparr>csc_m := m, csc_n := n, col_start := cs, csc_i := i', csc_x := x'\<rparr>)"

definition transpose :: "'f::zero csc_matrix \<Rightarrow> 'f csc_matrix \<Rightarrow> 'f csc_matrix" where
  "transpose A AT =
     (let AT = AT\<lparr>csc_m := csc_n A, csc_n := csc_m A\<rparr>;
          nz = col_start A ! csc_n A;
          AT = reallocate nz (AT\<lparr>col_start := vresize (csc_n AT + 1) 0 (col_start AT)\<rparr>);
          workspace = for_range 0 nz (\<lambda>p. vincr (csc_i A ! p)) (replicate (csc_n AT) 0);
          (workspace, cs) = cumulative_sum workspace (col_start AT);
          (workspace, i', x') =
            for_range 0 (csc_n A)
              (\<lambda>j. for_range (col_start A ! j) (col_start A ! (j + 1))
                     (\<lambda>p. bucket_put (csc_i A ! p, j, csc_x A ! p)))
              (workspace, csc_i AT, csc_x AT)
      in AT\<lparr>col_start := cs, csc_i := i', csc_x := x'\<rparr>)"

section \<open>What a matrix denotes\<close>

text \<open>
  The entries of a column are the (row, value) pairs between its two pointers, in storage
  order. The element at (r, c) is the sum of the values stored for it, which is the
  convention of the readers of these structures (each adds what it finds).
\<close>

definition col_entries :: "'f csc_matrix \<Rightarrow> nat \<Rightarrow> (nat \<times> 'f) list" where
  "col_entries A j = map (\<lambda>p. (csc_i A ! p, csc_x A ! p)) [col_start A ! j..<col_start A ! Suc j]"

definition row_entries :: "'f csr_matrix \<Rightarrow> nat \<Rightarrow> (nat \<times> 'f) list" where
  "row_entries A i = map (\<lambda>p. (csr_j A ! p, csr_x A ! p)) [row_start A ! i..<row_start A ! Suc i]"

definition entry_sum :: "nat \<Rightarrow> (nat \<times> 'f::comm_monoid_add) list \<Rightarrow> 'f" where
  "entry_sum k es = sum_list (map snd (filter (\<lambda>e. fst e = k) es))"

definition csc_elem :: "'f::comm_monoid_add csc_matrix \<Rightarrow> nat \<Rightarrow> nat \<Rightarrow> 'f" where
  "csc_elem A r c = entry_sum r (col_entries A c)"

definition csr_elem :: "'f::comm_monoid_add csr_matrix \<Rightarrow> nat \<Rightarrow> nat \<Rightarrow> 'f" where
  "csr_elem A r c = entry_sum c (row_entries A r)"

text \<open>Well-formed pointers and indices, which every producer establishes.\<close>

definition compressed_ok :: "nat \<Rightarrow> nat \<Rightarrow> nat list \<Rightarrow> nat list \<Rightarrow> 'f list \<Rightarrow> bool" where
  "compressed_ok major minor starts idx xs \<longleftrightarrow>
     length starts = major + 1 \<and> starts ! 0 = 0 \<and> sorted starts
     \<and> starts ! major \<le> length idx \<and> starts ! major \<le> length xs
     \<and> (\<forall>p < starts ! major. idx ! p < minor)"

definition csc_wf :: "'f csc_matrix \<Rightarrow> bool" where
  "csc_wf A \<longleftrightarrow> compressed_ok (csc_n A) (csc_m A) (col_start A) (csc_i A) (csc_x A)"

definition csr_wf :: "'f csr_matrix \<Rightarrow> bool" where
  "csr_wf A \<longleftrightarrow> compressed_ok (csr_m A) (csr_n A) (row_start A) (csr_j A) (csr_x A)"

lemma entry_sum_Nil [simp]: "entry_sum k [] = 0"
  by (simp add: entry_sum_def)

lemma entry_sum_Cons [simp]: "entry_sum k (e # es) = (if fst e = k then snd e else 0) + entry_sum k es"
  by (simp add: entry_sum_def)

lemma entry_sum_append [simp]: "entry_sum k (es @ fs) = entry_sum k es + entry_sum k fs"
  by (simp add: entry_sum_def)

lemma entry_sum_concat: "entry_sum k (concat ess) = sum_list (map (entry_sum k) ess)"
  by (induction ess) auto

lemma entry_sum_mset: "mset es = mset fs \<Longrightarrow> entry_sum k es = entry_sum k fs"
  unfolding entry_sum_def sum_mset_sum_list [symmetric] mset_map mset_filter by simp

section \<open>The common layer of the two formats\<close>

text \<open>
  A compressed structure as its list of (minor, major, value) triples, major index first:
  the order in which the nested loops of the conversions visit it.
\<close>

definition triples :: "nat \<Rightarrow> nat list \<Rightarrow> nat list \<Rightarrow> 'f list \<Rightarrow> (nat \<times> nat \<times> 'f) list" where
  "triples major starts idx xs =
     concat (map (\<lambda>j. map (\<lambda>p. (idx ! p, j, xs ! p)) [starts ! j..<starts ! (j + 1)]) [0..<major])"

lemma fold_concat: "fold f (concat xss) s = fold (fold f) xss s"
  by (induction xss arbitrary: s) auto

lemma fold_triples:
  "for_range 0 major (\<lambda>j. for_range (starts ! j) (starts ! (j + 1)) (\<lambda>p. f (idx ! p, j, xs ! p))) s
   = fold f (triples major starts idx xs) s"
  unfolding triples_def by (simp add: fold_concat fold_map comp_def)

lemma starts_mono: "compressed_ok M N starts idx xs \<Longrightarrow> j \<le> k \<Longrightarrow> k \<le> M \<Longrightarrow> starts ! j \<le> starts ! k"
  by (simp add: compressed_ok_def sorted_iff_nth_mono)

lemma concat_upt:
  assumes "\<And>j. j < k \<Longrightarrow> s j \<le> s (Suc j)"
  shows "concat (map (\<lambda>j. [s j..<s (Suc j)]) [0..<k]) = [s 0..<s k] \<and> s 0 \<le> s k"
  using assms
proof (induction k)
  case (Suc k)
  then have "concat (map (\<lambda>j. [s j..<s (Suc j)]) [0..<k]) = [s 0..<s k]" and "s 0 \<le> s k"
    and "s k \<le> s (Suc k)" by auto
  then show ?case by (simp add: upt_append)
qed simp

lemma map_fst_triples:
  assumes "compressed_ok M N starts idx xs"
  shows "map fst (triples M starts idx xs) = map (nth idx) [0..<starts ! M]"
proof -
  have "map fst (triples M starts idx xs)
      = map (nth idx) (concat (map (\<lambda>j. [starts ! j..<starts ! Suc j]) [0..<M]))"
    by (simp add: triples_def map_concat comp_def)
  also have "concat (map (\<lambda>j. [starts ! j..<starts ! Suc j]) [0..<M]) = [starts ! 0..<starts ! M]"
    using concat_upt [of M "nth starts"] starts_mono [OF assms] by simp
  finally show ?thesis using assms by (simp add: compressed_ok_def)
qed

lemma length_triples: "compressed_ok M N starts idx xs \<Longrightarrow> length (triples M starts idx xs) = starts ! M"
  using map_fst_triples [of M N starts idx xs, THEN arg_cong [where f = length]] by simp

lemma triples_minor: "compressed_ok M N starts idx xs \<Longrightarrow> \<forall>e \<in> set (triples M starts idx xs). fst e < N"
proof -
  assume ok: "compressed_ok M N starts idx xs"
  then have "fst ` set (triples M starts idx xs) \<subseteq> {..<N}"
    using map_fst_triples [OF ok, THEN arg_cong [where f = set]]
    by (auto simp: compressed_ok_def)
  then show ?thesis by auto
qed

text \<open>The count, sum, place sequence on a compressed structure.\<close>

lemma convert_compressed:
  assumes ok: "compressed_ok M N starts idx xs"
    and out: "length output = N + 1" "starts ! M \<le> length ai" "starts ! M \<le> length ax"
    and cs: "cumulative_sum (for_range 0 (starts ! M) (\<lambda>p. vincr (idx ! p)) (replicate N 0)) output
             = (ws, cs)"
    and run: "for_range 0 M (\<lambda>j. for_range (starts ! j) (starts ! (j + 1))
                (\<lambda>p. bucket_put (idx ! p, j, xs ! p))) (ws, ai, ax) = (ws', ai', ax')"
  defines "es \<equiv> triples M starts idx xs"
  shows "cs = map (bucket_start es) [0..<N + 1]"
    and "length ai' = length ai" and "length ax' = length ax"
    and "\<And>k. k < N \<Longrightarrow> map (\<lambda>p. (ai' ! p, ax' ! p)) [cs ! k..<cs ! Suc k] = map snd (bucket es k)"
proof -
  have keys: "\<forall>e \<in> set es. fst e < N" unfolding es_def by (rule triples_minor [OF ok])
  have cnt: "for_range 0 (starts ! M) (\<lambda>p. vincr (idx ! p)) (replicate N 0)
      = count_keys (map fst es) (replicate N 0)"
    unfolding es_def map_fst_triples [OF ok] count_keys_def by (simp add: fold_map comp_def)
  from cs [unfolded cnt bucket_starts [OF keys out(1)]]
  have ws: "ws = map (bucket_start es) [0..<N]" and cs': "cs = map (bucket_start es) [0..<N + 1]"
    by auto
  show "cs = map (bucket_start es) [0..<N + 1]" by (rule cs')
  have len: "length es = starts ! M" unfolding es_def by (rule length_triples [OF ok])
  have run': "fold bucket_put es (map (bucket_start es) [0..<N], ai, ax) = (ws', ai', ax')"
    using run unfolding ws es_def fold_triples .
  note bp = bucket_place [OF keys _ _ run', unfolded len, OF out(2,3)]
  show "length ai' = length ai" and "length ax' = length ax" by (rule bp)+
  show "map (\<lambda>p. (ai' ! p, ax' ! p)) [cs ! k..<cs ! Suc k] = map snd (bucket es k)" if "k < N" for k
    using bp(3) [OF that] that unfolding cs' by (simp del: upt_Suc)
qed

lemma bucket_triples:
  "map snd (bucket (triples M starts idx xs) k) =
   concat (map (\<lambda>j. map (\<lambda>e. (j, snd e))
     (filter (\<lambda>e. fst e = k) (map (\<lambda>p. (idx ! p, xs ! p)) [starts ! j..<starts ! Suc j]))) [0..<M])"
  unfolding triples_def by (simp add: filter_concat map_concat filter_map comp_def)

section \<open>Correctness of the conversions\<close>

lemma sorted_bucket_starts: "sorted (map (bucket_start es) [0..<N + 1])"
  by (auto simp: sorted_iff_nth_mono bucket_start_mono simp del: upt_Suc)

lemma bucketed_ok:
  assumes cs: "cs = map (bucket_start es) [0..<N + 1]"
    and keys: "\<forall>e \<in> set es. fst e < N" and vals: "\<forall>e \<in> set es. fst (snd e) < M"
    and len: "length es \<le> length ai" "length es \<le> length ax"
    and at: "\<And>k. k < N \<Longrightarrow> map (\<lambda>p. (ai ! p, ax ! p)) [cs ! k..<cs ! Suc k] = map snd (bucket es k)"
  shows "compressed_ok N M cs ai ax" and "cs ! N = length es"
proof -
  show N: "cs ! N = length es"
    using bucket_start_all [OF keys] by (simp add: cs del: upt_Suc)
  have "ai ! p < M" if p: "p < length es" for p
  proof -
    have "concat (map (\<lambda>k. [cs ! k..<cs ! Suc k]) [0..<N]) = [0..<cs ! N]"
      using concat_upt [of N "nth cs"] by (simp add: cs bucket_start_mono del: upt_Suc)
    then have "p \<in> set (concat (map (\<lambda>k. [cs ! k..<cs ! Suc k]) [0..<N]))" using p N by simp
    then obtain k where k: "k < N" "p \<in> set [cs ! k..<cs ! Suc k]" by auto
    then have "(ai ! p, ax ! p) \<in> set (map snd (bucket es k))"
      unfolding at [OF k(1), symmetric] by (auto simp del: upt_Suc)
    then show ?thesis using vals by auto
  qed
  then show "compressed_ok N M cs ai ax"
    using N len sorted_bucket_starts [of es N]
    by (simp add: compressed_ok_def cs del: upt_Suc)
qed

lemma convert_correct:
  assumes ok: "compressed_ok M N starts idx xs"
    and out: "length output = N + 1" "length ai = starts ! M" "length ax = starts ! M"
    and cs: "cumulative_sum (for_range 0 (starts ! M) (\<lambda>p. vincr (idx ! p)) (replicate N 0)) output
             = (ws, cs)"
    and run: "for_range 0 M (\<lambda>j. for_range (starts ! j) (starts ! (j + 1))
                (\<lambda>p. bucket_put (idx ! p, j, xs ! p))) (ws, ai, ax) = (ws', ai', ax')"
  shows "compressed_ok N M cs ai' ax'" and "cs ! N = starts ! M"
    and "length ai' = starts ! M" and "length ax' = starts ! M"
    and "\<And>k. k < N \<Longrightarrow> map (\<lambda>p. (ai' ! p, ax' ! p)) [cs ! k..<cs ! Suc k] =
           concat (map (\<lambda>j. map (\<lambda>e. (j, snd e)) (filter (\<lambda>e. fst e = k)
             (map (\<lambda>p. (idx ! p, xs ! p)) [starts ! j..<starts ! Suc j]))) [0..<M])"
proof -
  let ?es = "triples M starts idx xs"
  have le: "starts ! M \<le> length ai" "starts ! M \<le> length ax" using out by auto
  note c = convert_compressed [OF ok out(1) le cs run]
  have "\<forall>e \<in> set ?es. fst (snd e) < M" by (auto simp: triples_def)
  note w = bucketed_ok [OF c(1) triples_minor [OF ok] this _ _ c(4), unfolded length_triples [OF ok]]
  show "compressed_ok N M cs ai' ax'" and "cs ! N = starts ! M"
    using w le c(2,3) by auto
  show "length ai' = starts ! M" and "length ax' = starts ! M" using c(2,3) out by auto
  show "map (\<lambda>p. (ai' ! p, ax' ! p)) [cs ! k..<cs ! Suc k] =
      concat (map (\<lambda>j. map (\<lambda>e. (j, snd e)) (filter (\<lambda>e. fst e = k)
        (map (\<lambda>p. (idx ! p, xs ! p)) [starts ! j..<starts ! Suc j]))) [0..<M])" if "k < N" for k
    using c(4) [OF that] by (simp add: bucket_triples)
qed

text \<open>
  The entries of a converted structure: those of minor index \<open>k\<close>, collected over the
  major indices in increasing order, each carrying its major index.
\<close>

definition regroup :: "nat \<Rightarrow> (nat \<Rightarrow> (nat \<times> 'f) list) \<Rightarrow> nat \<Rightarrow> (nat \<times> 'f) list" where
  "regroup M entries k =
     concat (map (\<lambda>j. map (\<lambda>e. (j, snd e)) (filter (\<lambda>e. fst e = k) (entries j))) [0..<M])"

lemma to_compressed_row_spec:
  fixes A :: "'f::zero csc_matrix" and R :: "'f csr_matrix"
  assumes "csc_wf A"
  defines "R' \<equiv> to_compressed_row A R"
  shows "csr_wf R'" and "csr_m R' = csc_m A" and "csr_n R' = csc_n A"
    and "row_start R' ! csc_m A = nnz A"
    and "length (csr_j R') = nnz A" and "length (csr_x R') = nnz A"
    and "\<And>r. r < csc_m A \<Longrightarrow> row_entries R' r = regroup (csc_n A) (col_entries A) r"
proof -
  let ?nz = "col_start A ! csc_n A"
  obtain ws cs where cs: "cumulative_sum (for_range 0 ?nz (\<lambda>p. vincr (csc_i A ! p)) (replicate (csc_m A) 0))
      (vresize (csc_m A + 1) 0 (row_start R)) = (ws, cs)" by (rule prod.exhaust)
  obtain ws' ai ax where run: "for_range 0 (csc_n A) (\<lambda>j. for_range (col_start A ! j) (col_start A ! (j + 1))
      (\<lambda>p. bucket_put (csc_i A ! p, j, csc_x A ! p))) (ws, vresize ?nz 0 (csr_j R), vresize ?nz 0 (csr_x R))
      = (ws', ai, ax)" by (rule prod_cases3)
  have eq: "R' = R\<lparr>csr_m := csc_m A, csr_n := csc_n A, row_start := cs, csr_j := ai, csr_x := ax\<rparr>"
    using cs run by (simp add: R'_def to_compressed_row_def Let_def)
  note c = convert_correct [OF assms(1) [unfolded csc_wf_def] _ _ _ cs run]
  show "csr_wf R'" "csr_m R' = csc_m A" "csr_n R' = csc_n A" "row_start R' ! csc_m A = nnz A"
    "length (csr_j R') = nnz A" "length (csr_x R') = nnz A"
    using c(1-4) by (simp_all add: eq csr_wf_def nnz_def)
  show "row_entries R' r = regroup (csc_n A) (col_entries A) r" if "r < csc_m A" for r
    using c(5) [OF _ _ _ that] by (simp add: row_entries_def col_entries_def regroup_def eq)
qed

lemma to_compressed_col_spec:
  fixes A :: "'f::zero csr_matrix" and C :: "'f csc_matrix"
  assumes "csr_wf A"
  defines "C' \<equiv> to_compressed_col A C"
  shows "csc_wf C'" and "csc_m C' = csr_m A" and "csc_n C' = csr_n A"
    and "nnz C' = row_start A ! csr_m A"
    and "\<And>c. c < csr_n A \<Longrightarrow> col_entries C' c = regroup (csr_m A) (row_entries A) c"
proof -
  let ?nz = "row_start A ! csr_m A"
  obtain ws cs where cs: "cumulative_sum (for_range 0 ?nz (\<lambda>p. vincr (csr_j A ! p)) (replicate (csr_n A) 0))
      (vresize (csr_n A + 1) 0 (col_start C)) = (ws, cs)" by (rule prod.exhaust)
  obtain ws' ai ax where run: "for_range 0 (csr_m A) (\<lambda>j. for_range (row_start A ! j) (row_start A ! (j + 1))
      (\<lambda>p. bucket_put (csr_j A ! p, j, csr_x A ! p))) (ws, vresize ?nz 0 (csc_i C), vresize ?nz 0 (csc_x C))
      = (ws', ai, ax)" by (rule prod_cases3)
  have eq: "C' = C\<lparr>csc_m := csr_m A, csc_n := csr_n A, col_start := cs, csc_i := ai, csc_x := ax\<rparr>"
    using cs run by (simp add: C'_def to_compressed_col_def Let_def)
  note c = convert_correct [OF assms(1) [unfolded csr_wf_def] _ _ _ cs run]
  show "csc_wf C'" "csc_m C' = csr_m A" "csc_n C' = csr_n A" "nnz C' = row_start A ! csr_m A"
    using c(1-4) by (simp_all add: eq csc_wf_def nnz_def)
  show "col_entries C' r = regroup (csr_m A) (row_entries A) r" if "r < csr_n A" for r
    using c(5) [OF _ _ _ that] by (simp add: row_entries_def col_entries_def regroup_def eq)
qed

lemma transpose_spec:
  fixes A AT :: "'f::zero csc_matrix"
  assumes "csc_wf A"
  defines "T \<equiv> transpose A AT"
  shows "csc_wf T" and "csc_m T = csc_n A" and "csc_n T = csc_m A"
    and "nnz T = nnz A" and "csc_nz_max T = nnz A"
    and "\<And>r. r < csc_m A \<Longrightarrow> col_entries T r = regroup (csc_n A) (col_entries A) r"
proof -
  let ?nz = "col_start A ! csc_n A"
  obtain ws cs where cs: "cumulative_sum (for_range 0 ?nz (\<lambda>p. vincr (csc_i A ! p)) (replicate (csc_m A) 0))
      (vresize (csc_m A + 1) 0 (col_start AT)) = (ws, cs)" by (rule prod.exhaust)
  obtain ws' ai ax where run: "for_range 0 (csc_n A) (\<lambda>j. for_range (col_start A ! j) (col_start A ! (j + 1))
      (\<lambda>p. bucket_put (csc_i A ! p, j, csc_x A ! p))) (ws, vresize ?nz 0 (csc_i AT), vresize ?nz 0 (csc_x AT))
      = (ws', ai, ax)" by (rule prod_cases3)
  have eq: "T = AT\<lparr>csc_m := csc_n A, csc_n := csc_m A, csc_nz_max := ?nz, col_start := cs, csc_i := ai, csc_x := ax\<rparr>"
    using cs run by (simp add: T_def transpose_def reallocate_def Let_def)
  note c = convert_correct [OF assms(1) [unfolded csc_wf_def] _ _ _ cs run]
  show "csc_wf T" "csc_m T = csc_n A" "csc_n T = csc_m A" "nnz T = nnz A" "csc_nz_max T = nnz A"
    using c(1-4) by (simp_all add: eq csc_wf_def nnz_def)
  show "col_entries T r = regroup (csc_n A) (col_entries A) r" if "r < csc_m A" for r
    using c(5) [OF _ _ _ that] by (simp add: col_entries_def regroup_def eq)
qed

section \<open>The contract of a format conversion\<close>

lemma entry_sum_regroup:
  fixes entries :: "nat \<Rightarrow> (nat \<times> 'f::comm_monoid_add) list"
  assumes "j < M"
  shows "entry_sum j (regroup M entries k) = entry_sum k (entries j)"
proof -
  have part: "entry_sum j (map (\<lambda>e. (l, snd e)) (filter (\<lambda>e. fst e = k) (entries l)))
      = (if l = j then entry_sum k (entries j) else 0)" for l
    by (simp add: entry_sum_def filter_map comp_def)
  show ?thesis
    unfolding regroup_def entry_sum_concat map_map comp_def part
    using assms by (simp add: sum_list_map_upt)
qed

lemma sorted_regroup: "sorted (map fst (regroup M entries k))"
  unfolding regroup_def
  by (induction M) (auto simp: sorted_append intro!: sorted_map_const)

lemma distinct_regroup:
  assumes "\<And>j. j < M \<Longrightarrow> distinct (map fst (entries j))"
  shows "distinct (map fst (regroup M entries k))"
  using assms
proof (induction M)
  case (Suc M)
  have "length (filter (\<lambda>e. fst e = k) es) \<le> 1" if "distinct (map fst es)" for es :: "(nat \<times> 'a) list"
    using that by (induction es) (auto simp: filter_empty_conv image_iff)
  from this [OF Suc.prems [of M]]
  have "distinct (map fst (map (\<lambda>e. (M, snd e)) (filter (\<lambda>e. fst e = k) (entries M))))"
    by (simp add: comp_def distinct_conv_nth)
  moreover have "\<forall>e \<in> set (regroup M entries k). fst e < M"
    by (auto simp: regroup_def)
  ultimately show ?case using Suc by (auto simp: regroup_def)
qed (simp add: regroup_def)

text \<open>
  Two regroupings in a row sort every original list by its index, stably: the entries of
  equal index keep their order.
\<close>

lemma concat_filter_sort_key:
  assumes "\<forall>e \<in> set es. fst e < N"
  shows "concat (map (\<lambda>r. filter (\<lambda>e. fst e = r) es) [0..<N]) = sort_key fst es"
proof (rule sym, rule properties_for_sort_key)
  let ?c = "\<lambda>N. concat (map (\<lambda>r. filter (\<lambda>e. fst e = r) es) [0..<N])"
  have fN: "filter (\<lambda>x. k = fst x) (?c N') = (if k < N' then filter (\<lambda>x. k = fst x) es else [])" for N' k
  proof (induction N')
    case (Suc N')
    moreover have "filter (\<lambda>x. k = fst x) (filter (\<lambda>e. fst e = N') es)
        = (if k = N' then filter (\<lambda>x. k = fst x) es else [])"
      by (auto simp: filter_empty_conv intro: filter_cong)
    ultimately show ?case by (auto simp: less_Suc_eq)
  qed simp
  have "mset (?c N) = mset (filter (\<lambda>e. fst e < N) es)"
    by (induction N) (auto simp: less_Suc_eq intro: multiset_eqI)
  then show "mset (?c N) = mset es" using assms by (simp add: filter_id_conv)
  show "filter (\<lambda>x. fst k = fst x) (?c N) = filter (\<lambda>x. fst k = fst x) es" if "k \<in> set (?c N)" for k
    using that fN [of "fst k" N] by auto
  show "sorted (map fst (?c N))"
    by (induction N) (auto simp: sorted_append intro!: sorted_map_const)
qed

lemma regroup_regroup:
  assumes "\<forall>e \<in> set (entries j). fst e < N" and "j < M"
  shows "regroup N (regroup M entries) j = sort_key fst (entries j)"
proof -
  have "filter (\<lambda>e. fst e = j) (regroup M entries r)
      = map (\<lambda>e. (j, snd e)) (filter (\<lambda>e. fst e = r) (entries j))" for r
  proof -
    have part: "filter (\<lambda>e. fst e = j) (map (\<lambda>e. (l, snd e)) xs) = (if l = j then map (\<lambda>e. (j, snd e)) xs else [])"
      for l and xs :: "(nat \<times> 'a) list"
      by (auto simp: filter_map comp_def)
    have "filter (\<lambda>e. fst e = j) (regroup M entries r)
        = concat (map (\<lambda>l. if l = j then map (\<lambda>e. (j, snd e)) (filter (\<lambda>e. fst e = r) (entries j)) else []) [0..<M])"
      unfolding regroup_def filter_concat map_map comp_def part by (rule arg_cong [where f = concat]) auto
    also have "\<dots> = map (\<lambda>e. (j, snd e)) (filter (\<lambda>e. fst e = r) (entries j))"
      using assms(2) by (induction M) (auto simp: less_Suc_eq intro!: concat_eq_Nil_conv [THEN iffD2])
    finally show ?thesis .
  qed
  then have "regroup N (regroup M entries) j
      = concat (map (\<lambda>r. map (\<lambda>e. (r, snd e)) (filter (\<lambda>e. fst e = r) (entries j))) [0..<N])"
    unfolding regroup_def [of N] by (simp add: comp_def)
  also have "\<dots> = concat (map (\<lambda>r. filter (\<lambda>e. fst e = r) (entries j)) [0..<N])"
    by (rule arg_cong [where f = concat], rule map_cong [OF refl]) (auto intro!: map_idI)
  finally show ?thesis using concat_filter_sort_key [OF assms(1)] by simp
qed

locale format_conversion =
  fixes conv :: "'a \<Rightarrow> 'b \<Rightarrow> 'b"
    and src_ok :: "'a \<Rightarrow> bool" and src_major src_minor :: "'a \<Rightarrow> nat"
    and src_entries :: "'a \<Rightarrow> nat \<Rightarrow> (nat \<times> 'f::comm_monoid_add) list"
    and dst_ok :: "'b \<Rightarrow> bool" and dst_major dst_minor :: "'b \<Rightarrow> nat"
    and dst_entries :: "'b \<Rightarrow> nat \<Rightarrow> (nat \<times> 'f) list"
  assumes src_bound: "src_ok A \<Longrightarrow> j < src_major A \<Longrightarrow> e \<in> set (src_entries A j) \<Longrightarrow> fst e < src_minor A"
    and conv_ok: "src_ok A \<Longrightarrow> dst_ok (conv A D)"
    and conv_major: "src_ok A \<Longrightarrow> dst_major (conv A D) = src_minor A"
    and conv_minor: "src_ok A \<Longrightarrow> dst_minor (conv A D) = src_major A"
    and conv_entries: "src_ok A \<Longrightarrow> k < src_minor A \<Longrightarrow>
           dst_entries (conv A D) k = regroup (src_major A) (src_entries A) k"
begin

lemma conv_elem:
  "src_ok A \<Longrightarrow> j < src_major A \<Longrightarrow> k < src_minor A \<Longrightarrow>
   entry_sum j (dst_entries (conv A D) k) = entry_sum k (src_entries A j)"
  by (simp add: conv_entries entry_sum_regroup)

lemma conv_sorted: "src_ok A \<Longrightarrow> k < src_minor A \<Longrightarrow> sorted (map fst (dst_entries (conv A D) k))"
  by (simp add: conv_entries sorted_regroup)

lemma conv_distinct:
  "src_ok A \<Longrightarrow> k < src_minor A \<Longrightarrow> (\<And>j. j < src_major A \<Longrightarrow> distinct (map fst (src_entries A j))) \<Longrightarrow>
   distinct (map fst (dst_entries (conv A D) k))"
  by (simp add: conv_entries distinct_regroup)

end

locale conversion_roundtrip =
  fwd: format_conversion conv src_ok src_major src_minor src_entries dst_ok dst_major dst_minor dst_entries +
  bwd: format_conversion conv' dst_ok dst_major dst_minor dst_entries src_ok src_major src_minor src_entries
  for conv :: "'a \<Rightarrow> 'b \<Rightarrow> 'b" and conv' :: "'b \<Rightarrow> 'a \<Rightarrow> 'a"
    and src_ok :: "'a \<Rightarrow> bool" and src_major src_minor :: "'a \<Rightarrow> nat"
    and src_entries :: "'a \<Rightarrow> nat \<Rightarrow> (nat \<times> 'f::comm_monoid_add) list"
    and dst_ok :: "'b \<Rightarrow> bool" and dst_major dst_minor :: "'b \<Rightarrow> nat"
    and dst_entries :: "'b \<Rightarrow> nat \<Rightarrow> (nat \<times> 'f) list"
begin

lemma roundtrip_entries:
  assumes ok: "src_ok A" and j: "j < src_major A"
  shows "src_entries (conv' (conv A D) E) j = sort_key fst (src_entries A j)"
proof -
  have dst: "dst_ok (conv A D)" by (rule fwd.conv_ok [OF ok])
  have "src_entries (conv' (conv A D) E) j
      = regroup (dst_major (conv A D)) (dst_entries (conv A D)) j"
    using j dst by (intro bwd.conv_entries) (simp_all add: fwd.conv_minor [OF ok])
  also have "\<dots> = regroup (src_minor A) (regroup (src_major A) (src_entries A)) j"
    unfolding fwd.conv_major [OF ok] regroup_def [of "src_minor A"]
    by (rule arg_cong [where f = concat], rule map_cong [OF refl]) (simp add: fwd.conv_entries [OF ok])
  also have "\<dots> = sort_key fst (src_entries A j)"
    using fwd.src_bound [OF ok j] j by (intro regroup_regroup) auto
  finally show ?thesis .
qed

lemma roundtrip_id:
  "src_ok A \<Longrightarrow> j < src_major A \<Longrightarrow> sorted (map fst (src_entries A j)) \<Longrightarrow>
   src_entries (conv' (conv A D) E) j = src_entries A j"
  by (simp add: roundtrip_entries sort_key_id_if_sorted)

end

lemma csc_wf_col_bound:
  "csc_wf A \<Longrightarrow> j < csc_n A \<Longrightarrow> e \<in> set (col_entries A j) \<Longrightarrow> fst e < csc_m A"
  using starts_mono [of "csc_n A" "csc_m A" "col_start A" "csc_i A" "csc_x A" "Suc j" "csc_n A"]
  by (auto simp: csc_wf_def col_entries_def compressed_ok_def)

lemma csr_wf_row_bound:
  "csr_wf A \<Longrightarrow> j < csr_m A \<Longrightarrow> e \<in> set (row_entries A j) \<Longrightarrow> fst e < csr_n A"
  using starts_mono [of "csr_m A" "csr_n A" "row_start A" "csr_j A" "csr_x A" "Suc j" "csr_m A"]
  by (auto simp: csr_wf_def row_entries_def compressed_ok_def)

interpretation to_row: format_conversion to_compressed_row csc_wf csc_n csc_m col_entries
    csr_wf csr_m csr_n row_entries
  by unfold_locales (auto simp: to_compressed_row_spec csc_wf_col_bound)

interpretation to_col: format_conversion to_compressed_col csr_wf csr_m csr_n row_entries
    csc_wf csc_n csc_m col_entries
  by unfold_locales (auto simp: to_compressed_col_spec csr_wf_row_bound)

interpretation tr: format_conversion transpose csc_wf csc_n csc_m col_entries
    csc_wf csc_n csc_m col_entries
  by unfold_locales (auto simp: transpose_spec csc_wf_col_bound)

interpretation row_col: conversion_roundtrip to_compressed_row to_compressed_col csc_wf csc_n csc_m col_entries
    csr_wf csr_m csr_n row_entries
  by unfold_locales

interpretation col_row: conversion_roundtrip to_compressed_col to_compressed_row csr_wf csr_m csr_n row_entries
    csc_wf csc_n csc_m col_entries
  by unfold_locales

interpretation tr_tr: conversion_roundtrip transpose transpose csc_wf csc_n csc_m col_entries
    csc_wf csc_n csc_m col_entries
  by unfold_locales

text \<open>
  Building from coordinates: the column \<open>c\<close> of the result is the list of the
  coordinates that name it, in input order.
\<close>

lemma coo_to_csc_spec:
  fixes A :: "'f::zero csc_matrix"
  assumes len: "length Aj = length Ai" "length Ax = length Ai"
    and rng: "\<forall>k < length Ai. Ai ! k < csc_m A \<and> Aj ! k < csc_n A"
    and A: "length (col_start A) = csc_n A + 1" "length (csc_i A) = csc_nz_max A" "length (csc_x A) = csc_nz_max A"
  defines "B \<equiv> coo_to_csc Ai Aj Ax A"
  shows "csc_wf B" and "csc_m B = csc_m A" and "csc_n B = csc_n A" and "nnz B = length Ai"
    and "\<And>c. c < csc_n A \<Longrightarrow> col_entries B c
           = map (\<lambda>k. (Ai ! k, Ax ! k)) (filter (\<lambda>k. Aj ! k = c) [0..<length Ai])"
proof -
  define A' where "A' = (if csc_nz_max A < length Ai then reallocate (length Ai) A else A)"
  define es where "es = map (\<lambda>k. (Aj ! k, Ai ! k, Ax ! k)) [0..<length Ai]"
  have A': "csc_m A' = csc_m A" "csc_n A' = csc_n A" "col_start A' = col_start A"
    "length es \<le> length (csc_i A')" "length es \<le> length (csc_x A')" "length es = length Ai"
    using A by (auto simp: A'_def reallocate_def es_def)
  have keys: "\<forall>e \<in> set es. fst e < csc_n A" and vals: "\<forall>e \<in> set es. fst (snd e) < csc_m A"
    using rng by (auto simp: es_def)
  have cnt: "for_range 0 (length Aj) (\<lambda>k. vincr (Aj ! k)) (replicate (csc_n A) 0)
      = count_keys (map fst es) (replicate (csc_n A) 0)"
    by (simp add: es_def count_keys_def fold_map comp_def len)
  have put: "for_range 0 (length Aj) (\<lambda>k. bucket_put (Aj ! k, Ai ! k, Ax ! k)) s = fold bucket_put es s" for s
    by (simp add: es_def fold_map comp_def len)
  obtain ws' ai ax where run: "fold bucket_put es (map (bucket_start es) [0..<csc_n A], csc_i A', csc_x A')
      = (ws', ai, ax)" by (rule prod_cases3)
  define cs where "cs = map (bucket_start es) [0..<csc_n A + 1]"
  have B: "B = A'\<lparr>col_start := cs, csc_i := ai, csc_x := ax\<rparr>"
    unfolding B_def coo_to_csc_def A'_def [symmetric]
    by (simp only: Let_def cnt put A' bucket_starts [OF keys A(1)] prod.case run cs_def)
  note bp = bucket_place [OF keys A'(4,5) run]
  have at: "map (\<lambda>p. (ai ! p, ax ! p)) [cs ! k..<cs ! Suc k] = map snd (bucket es k)" if "k < csc_n A" for k
    using bp(3) [OF that] that by (simp add: cs_def del: upt_Suc)
  note ok = bucketed_ok [OF cs_def keys vals _ _ at]
  show "csc_wf B" "csc_m B = csc_m A" "csc_n B = csc_n A" "nnz B = length Ai"
    using ok A' bp(1,2) by (auto simp: B csc_wf_def nnz_def)
  show "col_entries B c = map (\<lambda>k. (Ai ! k, Ax ! k)) (filter (\<lambda>k. Aj ! k = c) [0..<length Ai])"
    if "c < csc_n A" for c
    using at [OF that] by (simp add: B col_entries_def es_def filter_map comp_def)
qed

section \<open>Properties\<close>

text \<open>
  C26. Converting a well-formed compressed-column matrix to compressed rows gives a
  well-formed matrix of the same shape and the same elements, whatever the destination
  held before, and the column indices of every row come out in increasing order.
\<close>

theorem to_compressed_row_correct:
  fixes A :: "'f::comm_monoid_add csc_matrix"
  assumes "csc_wf A"
  shows "csr_wf (to_compressed_row A Arow) \<and>
         csr_m (to_compressed_row A Arow) = csc_m A \<and> csr_n (to_compressed_row A Arow) = csc_n A \<and>
         (\<forall>r c. r < csc_m A \<and> c < csc_n A \<longrightarrow>
            csr_elem (to_compressed_row A Arow) r c = csc_elem A r c) \<and>
         (\<forall>r. r < csc_m A \<longrightarrow> sorted (map fst (row_entries (to_compressed_row A Arow) r)))"
  using assms to_row.conv_elem [of A] to_row.conv_sorted [of A]
  by (simp add: to_compressed_row_spec csr_elem_def csc_elem_def)

theorem to_compressed_row_correct_witness:
  "let A = \<lparr>csc_m = 3, csc_n = 2, csc_nz_max = 3, col_start = [0, 2, 3], csc_i = [2, 0, 2], csc_x = [5, 1, 7]\<rparr>;
       R = to_compressed_row A (csr_matrix_t 1 1 0)
   in csc_wf A \<and> csr_wf R \<and> csr_elem R 2 0 = (5::int) \<and> row_entries R 2 = [(0, 5), (1, 7)]"
proof -
  let ?A = "\<lparr>csc_m = 3, csc_n = 2, csc_nz_max = 3, col_start = [0, 2, 3], csc_i = [2, 0, 2],
            csc_x = [5, 1, 7::int]\<rparr>"
  have wf: "csc_wf ?A" by code_simp
  have "row_entries (to_compressed_row ?A (csr_matrix_t 1 1 0)) 2 = [(0, 5), (1, 7)]" "csc_elem ?A 2 0 = 5"
    by code_simp+
  then show ?thesis
    using to_compressed_row_correct [OF wf, of "csr_matrix_t 1 1 0"] wf by (simp add: Let_def)
qed

text \<open>
  C27. \<open>transpose\<close> computes the transpose: the result is well formed with the
  dimensions exchanged, element (c, r) of the result is element (r, c) of the source, the
  number of stored entries is unchanged and the row indices of every column are increasing.
\<close>

theorem transpose_correct:
  fixes A AT :: "'f::comm_monoid_add csc_matrix"
  assumes "csc_wf A"
  shows "csc_wf (transpose A AT) \<and>
         csc_m (transpose A AT) = csc_n A \<and> csc_n (transpose A AT) = csc_m A \<and>
         nnz (transpose A AT) = nnz A \<and>
         (\<forall>r c. r < csc_m A \<and> c < csc_n A \<longrightarrow> csc_elem (transpose A AT) c r = csc_elem A r c) \<and>
         (\<forall>r. r < csc_m A \<longrightarrow> sorted (map fst (col_entries (transpose A AT) r)))"
  using assms tr.conv_elem [of A] tr.conv_sorted [of A]
  by (simp add: transpose_spec csc_elem_def)

theorem transpose_correct_witness:
  "let A = \<lparr>csc_m = 3, csc_n = 2, csc_nz_max = 3, col_start = [0, 2, 3], csc_i = [2, 0, 2], csc_x = [5, 1, 7]\<rparr>;
       T = transpose A (csc_matrix_t 0 0 0)
   in csc_wf T \<and> csc_elem T 1 2 = (7::int) \<and> col_start T = [0, 1, 1, 3]"
proof -
  let ?A = "\<lparr>csc_m = 3, csc_n = 2, csc_nz_max = 3, col_start = [0, 2, 3], csc_i = [2, 0, 2],
            csc_x = [5, 1, 7::int]\<rparr>"
  have wf: "csc_wf ?A" by code_simp
  have "col_start (transpose ?A (csc_matrix_t 0 0 0)) = [0, 1, 1, 3]" "csc_elem ?A 2 1 = 7"
    by code_simp+
  then show ?thesis
    using transpose_correct [OF wf, of "csc_matrix_t 0 0 0"] wf by (simp add: Let_def)
qed

text \<open>
  C28. Compressing to rows and back to columns is the identity up to the order inside a
  column: each column comes back stably sorted by row index, so a matrix whose columns are
  sorted comes back with exactly the same entries.
\<close>

theorem csc_csr_roundtrip:
  fixes A C :: "'f::comm_monoid_add csc_matrix"
  assumes "csc_wf A" and "j < csc_n A"
  shows "col_entries (to_compressed_col (to_compressed_row A R) C) j = sort_key fst (col_entries A j) \<and>
         (sorted (map fst (col_entries A j)) \<longrightarrow>
            col_entries (to_compressed_col (to_compressed_row A R) C) j = col_entries A j)"
  using assms by (simp add: row_col.roundtrip_entries sort_key_id_if_sorted)

theorem csc_csr_roundtrip_witness:
  "let A = \<lparr>csc_m = 3, csc_n = 2, csc_nz_max = 3, col_start = [0, 2, 3], csc_i = [2, 0, 2], csc_x = [5, 1, 7]\<rparr>
   in csc_wf A \<and> col_entries (to_compressed_col (to_compressed_row A (csr_matrix_t 0 0 0)) (csc_matrix_t 0 0 0)) 0
        = [(0, 1), (2, 5::int)]"
proof -
  let ?A = "\<lparr>csc_m = 3, csc_n = 2, csc_nz_max = 3, col_start = [0, 2, 3], csc_i = [2, 0, 2],
            csc_x = [5, 1, 7::int]\<rparr>"
  have wf: "csc_wf ?A" by code_simp
  have "sort_key fst (col_entries ?A 0) = [(0, 1), (2, 5)]" by code_simp
  then show ?thesis
    using csc_csr_roundtrip [OF wf, of 0 "csr_matrix_t 0 0 0" "csc_matrix_t 0 0 0"] wf by (simp add: Let_def)
qed

text \<open>
  C29. \<open>coo_to_csc\<close> sums coordinates: from coordinates in range, and a destination as its
  constructor leaves it, the result is well formed and the element (r, c) is the sum of the
  values given for (r, c).
\<close>

theorem coo_to_csc_correct:
  fixes A :: "'f::comm_monoid_add csc_matrix"
  assumes "length Aj = length Ai" "length Ax = length Ai"
    and "\<forall>k < length Ai. Ai ! k < m \<and> Aj ! k < n"
  shows "csc_wf (coo_to_csc Ai Aj Ax (csc_matrix_t m n nz)) \<and>
         nnz (coo_to_csc Ai Aj Ax (csc_matrix_t m n nz)) = length Ai \<and>
         (\<forall>r c. c < n \<longrightarrow> csc_elem (coo_to_csc Ai Aj Ax (csc_matrix_t m n nz)) r c
            = sum_list (map (nth Ax) (filter (\<lambda>k. Ai ! k = r \<and> Aj ! k = c) [0..<length Ai])))"
proof -
  note c = coo_to_csc_spec [of Aj Ai Ax "csc_matrix_t m n nz"]
  have "csc_wf (coo_to_csc Ai Aj Ax (csc_matrix_t m n nz))"
    "nnz (coo_to_csc Ai Aj Ax (csc_matrix_t m n nz)) = length Ai"
    "\<And>r l. l < n \<Longrightarrow> col_entries (coo_to_csc Ai Aj Ax (csc_matrix_t m n nz)) l
       = map (\<lambda>k. (Ai ! k, Ax ! k)) (filter (\<lambda>k. Aj ! k = l) [0..<length Ai])"
    using c assms by (simp_all add: csc_matrix_t_def del: replicate_Suc)
  then show ?thesis
    by (auto simp: csc_elem_def entry_sum_def filter_map comp_def conj_commute)
qed

theorem coo_to_csc_correct_witness:
  "csc_wf (coo_to_csc [1, 0, 1] [0, 1, 0] [3, 4, 5::int] (csc_matrix_t 2 2 1)) \<and>
   csc_elem (coo_to_csc [1, 0, 1] [0, 1, 0] [3, 4, 5::int] (csc_matrix_t 2 2 1)) 1 0 = 8"
proof -
  have "\<forall>k < length [1, 0, 1::nat]. [1, 0, 1] ! k < (2::nat) \<and> [0, 1, 0] ! k < (2::nat)" by code_simp
  from coo_to_csc_correct [OF _ _ this, of "[3, 4, 5::int]" 1]
  show ?thesis by (simp add: upt_rec)
qed

end
