(* ===== verification/Sparse_Matrix_Edit.thy ===== *)
theory Sparse_Matrix_Edit
  imports Sparse_Matrix
begin

text \<open>
  The structural edits of \<open>cpp/src/linear_algebra/sparse_matrix.cpp\<close>: appending,
  removing and permuting rows and columns, and the consistency check of a CSR matrix. The
  common layer is the sequential writer \<open>ai[q] = a; ax[q] = v; q++\<close> and its use to lay
  out one column after another.
\<close>

section \<open>Sequential writing\<close>

definition emit :: "nat \<times> 'f \<Rightarrow> nat list \<times> 'f list \<times> nat \<Rightarrow> nat list \<times> 'f list \<times> nat" where
  "emit = (\<lambda>(a, v) (ai, ax, q). (ai[q := a], ax[q := v], q + 1))"

lemma emit_simp [simp]: "emit (a, v) (ai, ax, q) = (ai[q := a], ax[q := v], Suc q)"
  by (simp add: emit_def)

lemma emit_all:
  "q + length es \<le> length ai \<Longrightarrow> q + length es \<le> length ax \<Longrightarrow>
   fold emit es (ai, ax, q) =
     (take q ai @ map fst es @ drop (q + length es) ai,
      take q ax @ map snd es @ drop (q + length es) ax, q + length es)"
proof (induction es arbitrary: ai ax q)
  case (Cons e es)
  have upd: "take (Suc q) (ys[q := y]) = take q ys @ [y]" if "q < length ys" for ys :: "'b list" and y
    using that by (simp add: take_Suc_conv_app_nth)
  show ?case
    using Cons.prems by (cases e) (simp add: Cons.IH upd)
qed simp

lemma emit_length: "fold emit es (ai, ax, q) = (ai', ax', q') \<Longrightarrow>
    length ai' = length ai \<and> length ax' = length ax \<and> q' = q + length es"
  by (induction es arbitrary: ai ax q) fastforce+

text \<open>Writing a column: its pointer first, then its entries.\<close>

definition emit_col ::
    "(nat \<times> 'f) list \<Rightarrow> nat list \<times> nat list \<times> 'f list \<times> nat \<times> nat
      \<Rightarrow> nat list \<times> nat list \<times> 'f list \<times> nat \<times> nat" where
  "emit_col es = (\<lambda>(cs, ai, ax, q, k).
     let cs = cs[k := q]; (ai, ax, q) = fold emit es (ai, ax, q) in (cs, ai, ax, q, k + 1))"

text \<open>The layout that writing the columns \<open>ess\<close> in turn produces.\<close>

definition laid_out :: "(nat \<times> 'f) list list \<Rightarrow> nat list \<Rightarrow> nat list \<Rightarrow> 'f list \<Rightarrow> bool" where
  "laid_out ess cs ai ax \<longleftrightarrow>
     length cs = length ess + 1
     \<and> (\<forall>k \<le> length ess. cs ! k = length (concat (take k ess)))
     \<and> length (concat ess) \<le> length ai \<and> length (concat ess) \<le> length ax
     \<and> take (length (concat ess)) (zip ai ax) = concat ess"

lemma laid_out_nth:
  assumes lo: "laid_out ess cs ai ax" and p: "p < length (concat ess)"
  shows "(ai ! p, ax ! p) = concat ess ! p"
proof -
  have "take (length (concat ess)) (zip ai ax) = concat ess"
    and len: "length (concat ess) \<le> length ai" "length (concat ess) \<le> length ax"
    using lo by (simp_all only: laid_out_def)
  then have "concat ess ! p = take (length (concat ess)) (zip ai ax) ! p" by (simp only:)
  also have "\<dots> = zip ai ax ! p" by (rule nth_take [OF p])
  also have "\<dots> = (ai ! p, ax ! p)" using p len by (intro nth_zip) linarith+
  finally show ?thesis by simp
qed

lemma laid_out_entries:
  assumes lo: "laid_out ess cs ai ax" and k: "k < length ess"
  shows "map (\<lambda>p. (ai ! p, ax ! p)) [cs ! k..<cs ! Suc k] = ess ! k"
proof -
  let ?c = "concat ess" and ?pre = "concat (take k ess)"
  have split: "?c = ?pre @ ess ! k @ concat (drop (Suc k) ess)"
    using k by (subst id_take_nth_drop [OF k]) (simp add: concat_append)
  have pos: "cs ! k = length ?pre" and "cs ! Suc k = length ?pre + length (ess ! k)"
    using lo k by (simp_all add: laid_out_def take_Suc_conv_app_nth)
  moreover have "(ai ! (length ?pre + t), ax ! (length ?pre + t)) = ess ! k ! t"
    if "t < length (ess ! k)" for t
  proof -
    have "length ?pre + length (ess ! k) \<le> length ?c" by (subst split) simp
    then have "(ai ! (length ?pre + t), ax ! (length ?pre + t)) = ?c ! (length ?pre + t)"
      using that by (intro laid_out_nth [OF lo]) linarith
    also have "\<dots> = ess ! k ! t" using that by (subst split) (simp add: nth_append)
    finally show ?thesis .
  qed
  ultimately show ?thesis by (intro nth_equalityI) auto
qed

lemma laid_out_ok:
  assumes lo: "laid_out ess cs ai ax" and b: "\<forall>es \<in> set ess. \<forall>e \<in> set es. fst e < N"
  shows "compressed_ok (length ess) N cs ai ax" and "cs ! length ess = length (concat ess)"
proof -
  show M: "cs ! length ess = length (concat ess)" using lo by (simp add: laid_out_def)
  have mono: "length (concat (take i ess)) \<le> length (concat (take j ess))" if "i \<le> j" for i j
    using that by (metis append_take_drop_id concat_append le_add1 length_append min.absorb1 take_take)
  have "ai ! p < N" if "p < length (concat ess)" for p
  proof -
    have "(ai ! p, ax ! p) \<in> set (concat ess)"
      unfolding laid_out_nth [OF lo that] using that by (rule nth_mem)
    then show ?thesis using b by fastforce
  qed
  then show "compressed_ok (length ess) N cs ai ax"
    using lo M mono by (auto simp: laid_out_def compressed_ok_def sorted_iff_nth_mono)
qed

lemma emit_cols_aux:
  "length cs = k + length ess + 1 \<Longrightarrow> q + length (concat ess) \<le> length ai \<Longrightarrow>
   q + length (concat ess) \<le> length ax \<Longrightarrow>
   fold emit_col ess (cs, ai, ax, q, k) = (cs', ai', ax', q', k') \<Longrightarrow>
   k' = k + length ess \<and> q' = q + length (concat ess)
   \<and> cs' = take k cs @ map (\<lambda>t. q + length (concat (take t ess))) [0..<length ess] @ [cs ! k']
   \<and> ai' = take q ai @ map fst (concat ess) @ drop q' ai
   \<and> ax' = take q ax @ map snd (concat ess) @ drop q' ax"
proof (induction ess arbitrary: cs ai ax q k)
  case Nil
  then have "take (Suc k) cs = cs" by simp
  then have "cs = take k cs @ [cs ! k]"
    using Nil.prems(1) by (metis take_Suc_conv_app_nth add_0_right list.size(3) less_add_one)
  then show ?case using Nil.prems by auto
next
  case (Cons es ess)
  let ?cs = "cs[k := q]"
  let ?ai = "take q ai @ map fst es @ drop (q + length es) ai"
  let ?ax = "take q ax @ map snd es @ drop (q + length es) ax"
  have step: "emit_col es (cs, ai, ax, q, k) = (?cs, ?ai, ?ax, q + length es, k + 1)"
    using Cons.prems by (simp add: emit_col_def emit_all)
  have "k' = k + 1 + length ess \<and> q' = q + length es + length (concat ess)
     \<and> cs' = take (k + 1) ?cs @ map (\<lambda>t. q + length es + length (concat (take t ess))) [0..<length ess] @ [?cs ! k']
     \<and> ai' = take (q + length es) ?ai @ map fst (concat ess) @ drop q' ?ai
     \<and> ax' = take (q + length es) ?ax @ map snd (concat ess) @ drop q' ?ax"
    using Cons.prems step by (intro Cons.IH) (auto simp: add.assoc)
  moreover have "take (k + 1) ?cs = take k cs @ [q]"
    using Cons.prems(1) by (simp add: take_Suc_conv_app_nth)
  moreover have "map (\<lambda>t. q + length (concat (take t (es # ess)))) [0..<length (es # ess)]
      = q # map (\<lambda>t. q + length es + length (concat (take t ess))) [0..<length ess]"
    by (intro nth_equalityI) (auto simp: nth_Cons' take_Cons' simp del: upt_Suc)
  ultimately show ?case using Cons.prems by (simp add: ac_simps del: upt_Suc)
qed

theorem emit_cols:
  assumes "length cs = length ess + 1"
    and "length (concat ess) \<le> length ai" and "length (concat ess) \<le> length ax"
    and run: "fold emit_col ess (cs, ai, ax, 0, 0) = (cs', ai', ax', q', k')"
  shows "laid_out ess (cs'[length ess := q']) ai' ax'"
    and "k' = length ess" and "q' = length (concat ess)"
    and "length ai' = length ai" and "length ax' = length ax"
proof -
  have a: "k' = length ess \<and> q' = length (concat ess)
     \<and> cs' = map (\<lambda>t. length (concat (take t ess))) [0..<length ess] @ [cs ! k']
     \<and> ai' = map fst (concat ess) @ drop q' ai
     \<and> ax' = map snd (concat ess) @ drop q' ax"
    using emit_cols_aux [OF _ _ _ run] assms by simp
  then show "k' = length ess" "q' = length (concat ess)" "length ai' = length ai" "length ax' = length ax"
    using assms(2,3) by auto
  have "cs'[length ess := q'] ! k = length (concat (take k ess))" if "k \<le> length ess" for k
    using a that by (auto simp: nth_append nth_list_update)
  moreover have "take (length (concat ess)) (zip ai' ax') = concat ess"
    using a assms(2,3) by (auto simp: take_zip zip_map_fst_snd)
  ultimately show "laid_out ess (cs'[length ess := q']) ai' ax'"
    using a assms(2,3) by (auto simp: laid_out_def)
qed

section \<open>The operations\<close>

definition load_a_column :: "'f csc_matrix \<Rightarrow> nat \<Rightarrow> 'f list \<Rightarrow> 'f list \<times> nat" where
  "load_a_column A j Aj =
     (let cs = col_start A ! j; ce = col_start A ! (j + 1);
          Aj = for_range cs ce (\<lambda>p Aj. Aj[csc_i A ! p := csc_x A ! p]) Aj
      in (Aj, ce - cs))"

text \<open>
  The three overloads of \<open>append_column\<close>: a dense column, a sparse column (the
  \<open>i\<close> and \<open>x\<close> of a \<open>sparse_vector_t\<close>), and a list of indices into a dense array.
\<close>

definition append_column_dense :: "'f::zero list \<Rightarrow> 'f csc_matrix \<Rightarrow> 'f csc_matrix" where
  "append_column_dense x A =
     (let xsz = length x;
          nz = col_start A ! csc_n A;
          (i', x', nz) =
            for_range 0 xsz (\<lambda>j s. if x ! j \<noteq> 0 then emit (j, x ! j) s else s) (csc_i A, csc_x A, nz)
      in A\<lparr>csc_i := i', csc_x := x', col_start := (col_start A)[csc_n A + 1 := nz], csc_n := csc_n A + 1\<rparr>)"

definition append_column_sparse :: "nat list \<Rightarrow> 'f::zero list \<Rightarrow> 'f csc_matrix \<Rightarrow> 'f csc_matrix" where
  "append_column_sparse xi xx A =
     (let nz = col_start A ! csc_n A;
          xnz = length xi;
          (i', x', nz) =
            for_range 0 xnz (\<lambda>k s. let i = xi ! k; x_val = xx ! k
                                  in if x_val \<noteq> 0 then emit (i, x_val) s else s) (csc_i A, csc_x A, nz)
      in A\<lparr>csc_i := i', csc_x := x', col_start := (col_start A)[csc_n A + 1 := nz], csc_n := csc_n A + 1\<rparr>)"

definition append_column_indexed ::
    "nat \<Rightarrow> nat list \<Rightarrow> 'f::zero list \<Rightarrow> 'f csc_matrix \<Rightarrow> 'f csc_matrix" where
  "append_column_indexed x_nz i x A =
     (let nz = col_start A ! csc_n A;
          (i', x', nz) =
            for_range 0 x_nz (\<lambda>k s. let i_val = i ! k; x_val = x ! i_val
                                   in if x_val \<noteq> 0 then emit (i_val, x_val) s else s) (csc_i A, csc_x A, nz)
      in A\<lparr>csc_i := i', csc_x := x', col_start := (col_start A)[csc_n A + 1 := nz], csc_n := csc_n A + 1\<rparr>)"

definition remove_columns :: "int list \<Rightarrow> 'f::zero csc_matrix \<Rightarrow> 'f csc_matrix" where
  "remove_columns cols_to_remove A =
     (let (nz, n) =
            for_range 0 (csc_n A)
              (\<lambda>j (nz, n). if cols_to_remove ! j = 0
                            then (nz + (col_start A ! (j + 1) - col_start A ! j), n + 1) else (nz, n))
              (0, 0);
          (new_col_start, new_i, new_x, q, new_j) =
            for_range 0 (csc_n A)
              (\<lambda>j (new_col_start, new_i, new_x, q, new_j).
                 if cols_to_remove ! j \<noteq> 0 then (new_col_start, new_i, new_x, q, new_j)
                 else let new_col_start = new_col_start[new_j := q];
                          (new_i, new_x, q) =
                            for_range (col_start A ! j) (col_start A ! (j + 1))
                              (\<lambda>p. emit (csc_i A ! p, csc_x A ! p)) (new_i, new_x, q)
                      in (new_col_start, new_i, new_x, q, new_j + 1))
              (replicate (n + 1) 0, replicate nz 0, replicate nz 0, 0, 0);
          new_col_start = new_col_start[n := q]
      in A\<lparr>col_start := new_col_start, csc_i := new_i, csc_x := new_x, csc_n := n\<rparr>)"

definition remove_rows :: "int list \<Rightarrow> 'f::zero csr_matrix \<Rightarrow> 'f csr_matrix \<Rightarrow> 'f csr_matrix" where
  "remove_rows row_marker A Aout =
     (let (num_rows_to_remove, num_nnz_to_remove) =
            for_range 0 (csr_m A)
              (\<lambda>i (r, z). if row_marker ! i \<noteq> 0
                          then (r + 1, z + (row_start A ! (i + 1) - row_start A ! i)) else (r, z))
              (0, 0);
          new_rows = csr_m A - num_rows_to_remove;
          new_nnz = row_start A ! csr_m A - num_nnz_to_remove;
          (rs, j', x', nz_count, row_count) =
            for_range 0 (csr_m A)
              (\<lambda>i (rs, j', x', nz_count, row_count).
                 if row_marker ! i = 0
                 then let rs = rs[row_count := nz_count];
                          (j', x', nz_count) =
                            for_range (row_start A ! i) (row_start A ! (i + 1))
                              (\<lambda>p. emit (csr_j A ! p, csr_x A ! p)) (j', x', nz_count)
                      in (rs, j', x', nz_count, row_count + 1)
                 else (rs, j', x', nz_count, row_count))
              (vresize (new_rows + 1) 0 (row_start Aout), vresize new_nnz 0 (csr_j Aout),
               vresize new_nnz 0 (csr_x Aout), 0, 0)
      in Aout\<lparr>csr_n := csr_n A, csr_m := new_rows, row_start := rs[new_rows := new_nnz],
              csr_j := j', csr_x := x'\<rparr>)"

definition permute_rows :: "nat list \<Rightarrow> 'f::zero csc_matrix \<Rightarrow> 'f csc_matrix \<Rightarrow> 'f csc_matrix" where
  "permute_rows pinv A C =
     (let n = csc_n A;
          Anz = col_start A ! n;
          C = reallocate Anz C;
          (cs, i', x', nz) =
            for_range 0 n
              (\<lambda>j (cs, i', x', nz).
                 let cs = cs[j := nz];
                     (i', x', nz) =
                       for_range (col_start A ! j) (col_start A ! (j + 1))
                         (\<lambda>p. emit (pinv ! (csc_i A ! p), csc_x A ! p)) (i', x', nz)
                 in (cs, i', x', nz))
              (col_start C, csc_i C, csc_x C, 0)
      in C\<lparr>col_start := cs[n := nz], csc_i := i', csc_x := x'\<rparr>)"

definition permute_rows_and_cols ::
    "nat list \<Rightarrow> nat list \<Rightarrow> 'f::zero csc_matrix \<Rightarrow> 'f csc_matrix \<Rightarrow> 'f csc_matrix" where
  "permute_rows_and_cols pinv q A C =
     (let n = csc_n A;
          Anz = col_start A ! n;
          C = reallocate Anz C;
          (cs, i', x', nz) =
            for_range 0 n
              (\<lambda>k (cs, i', x', nz).
                 let cs = cs[k := nz];
                     j = q ! k;
                     (i', x', nz) =
                       for_range (col_start A ! j) (col_start A ! (j + 1))
                         (\<lambda>p. emit (pinv ! (csc_i A ! p), csc_x A ! p)) (i', x', nz)
                 in (cs, i', x', nz))
              (col_start C, csc_i C, csc_x C, 0)
      in C\<lparr>col_start := cs[n := nz], csc_i := i', csc_x := x'\<rparr>)"

text \<open>\<open>append_rows\<close> returns -1 without touching the matrix when the columns do not fit.\<close>

definition append_rows :: "'f::zero csr_matrix \<Rightarrow> 'f csr_matrix \<Rightarrow> int \<times> 'f csr_matrix" where
  "append_rows C A =
     (let old_m = csr_m A;
          n = csr_n A;
          old_nz = row_start A ! old_m;
          C_row = csr_m C
      in if csr_n C > n then (-1, A)
         else let C_nz = row_start C ! C_row;
                  new_nz = old_nz + C_nz;
                  new_m = old_m + C_row;
                  (rs, nz) =
                    for_range old_m new_m
                      (\<lambda>i (rs, nz). let k = i - old_m; nz_row = row_start C ! (k + 1) - row_start C ! k
                                    in (rs[i := nz], nz + nz_row))
                      (vresize (new_m + 1) 0 (row_start A), old_nz);
                  rs = rs[new_m := nz];
                  j' = for_range old_nz new_nz (\<lambda>p j'. j'[p := csr_j C ! (p - old_nz)])
                         (vresize new_nz 0 (csr_j A));
                  x' = for_range old_nz new_nz (\<lambda>p x'. x'[p := csr_x C ! (p - old_nz)])
                         (vresize new_nz 0 (csr_x A))
              in (0, A\<lparr>row_start := rs, csr_j := j', csr_x := x', csr_m := new_m, csr_nz_max := new_nz\<rparr>))"

definition append_row :: "nat list \<Rightarrow> 'f::zero list \<Rightarrow> 'f csr_matrix \<Rightarrow> 'f csr_matrix" where
  "append_row ci cx A =
     (let old_m = csr_m A;
          old_nz = row_start A ! old_m;
          c_nz = length ci;
          new_nz = old_nz + c_nz;
          new_m = old_m + 1;
          (j', x', nz) =
            for_range 0 c_nz (\<lambda>k. emit (ci ! k, cx ! k))
              (vresize new_nz 0 (csr_j A), vresize new_nz 0 (csr_x A), old_nz)
      in A\<lparr>row_start := (vresize (new_m + 1) 0 (row_start A))[new_m := new_nz],
           csr_j := j', csr_x := x', csr_m := new_m, csr_nz_max := new_nz\<rparr>)"

section \<open>Correctness\<close>

lemma for_range_emit: "for_range a b (\<lambda>p. emit (h p)) s = fold emit (map h [a..<b]) s"
  by (simp add: fold_map comp_def)

text \<open>Laying out columns with the column number as the loop variable.\<close>

lemma emit_cols_numbered:
  "for_range 0 n (\<lambda>j (cs, ai, ax, q).
      let cs = cs[j := q]; (ai, ax, q) = fold emit (g j) (ai, ax, q) in (cs, ai, ax, q)) (cs, ai, ax, 0)
     = (cs', ai', ax', q') \<longleftrightarrow>
   fold emit_col (map g [0..<n]) (cs, ai, ax, 0, 0) = (cs', ai', ax', q', n)"
  by (induction n arbitrary: cs' ai' ax' q')
    (auto simp: emit_col_def Let_def split: prod.splits)

lemma length_concat_cols:
  assumes "compressed_ok M N starts idx xs"
  shows "length (concat (map (\<lambda>j. map f [starts ! j..<starts ! (j + 1)]) [0..<M])) = starts ! M"
  using length_triples [OF assms] by (simp add: triples_def length_concat comp_def)

lemma layout_numbered:
  assumes run: "for_range 0 n (\<lambda>j (cs, ai, ax, q).
      let cs = cs[j := q]; (ai, ax, q) = fold emit (g j) (ai, ax, q) in (cs, ai, ax, q)) (cs, ai, ax, 0)
     = (cs', ai', ax', q')"
    and "length cs = n + 1"
    and "length (concat (map g [0..<n])) \<le> length ai" "length (concat (map g [0..<n])) \<le> length ax"
    and b: "\<forall>j<n. \<forall>e \<in> set (g j). fst e < N"
  shows "compressed_ok n N (cs'[n := q']) ai' ax'" and "cs'[n := q'] ! n = q'" and "q' = length (concat (map g [0..<n]))"
    and "\<And>j. j < n \<Longrightarrow> map (\<lambda>p. (ai' ! p, ax' ! p)) [cs'[n := q'] ! j..<cs'[n := q'] ! Suc j] = g j"
proof -
  note lo = emit_cols [OF _ _ _ run [unfolded emit_cols_numbered]]
  have lo1: "laid_out (map g [0..<n]) (cs'[n := q']) ai' ax'" using lo(1) assms by simp
  show "compressed_ok n N (cs'[n := q']) ai' ax'" using laid_out_ok(1) [OF lo1, of N] b by simp
  show "cs'[n := q'] ! n = q'" using lo1 by (simp add: laid_out_def)
  show "q' = length (concat (map g [0..<n]))" using lo(3) assms by simp
  show "map (\<lambda>p. (ai' ! p, ax' ! p)) [cs'[n := q'] ! j..<cs'[n := q'] ! Suc j] = g j" if "j < n" for j
    using laid_out_entries [OF lo1, of j] that by simp
qed

lemma permute_rows_spec:
  fixes A C :: "'f::zero csc_matrix"
  assumes wf: "csc_wf A" and pinv: "\<forall>r < csc_m A. pinv ! r < csc_m A"
    and C: "csc_m C = csc_m A" "csc_n C = csc_n A" "length (col_start C) = csc_n A + 1"
  defines "P \<equiv> permute_rows pinv A C"
  shows "csc_wf P" and "csc_m P = csc_m A" and "csc_n P = csc_n A" and "nnz P = nnz A"
    and "\<And>j. j < csc_n A \<Longrightarrow> col_entries P j = map (\<lambda>e. (pinv ! fst e, snd e)) (col_entries A j)"
proof -
  let ?n = "csc_n A" and ?nz = "col_start A ! csc_n A"
  let ?g = "\<lambda>j. map (\<lambda>p. (pinv ! (csc_i A ! p), csc_x A ! p)) [col_start A ! j..<col_start A ! (j + 1)]"
  let ?C = "reallocate ?nz C"
  obtain cs i' x' nz where run: "for_range 0 ?n (\<lambda>j (cs, ai, ax, q).
      let cs = cs[j := q]; (ai, ax, q) = fold emit (?g j) (ai, ax, q) in (cs, ai, ax, q))
      (col_start ?C, csc_i ?C, csc_x ?C, 0) = (cs, i', x', nz)" by (rule prod_cases4)
  have eq: "P = ?C\<lparr>col_start := cs[?n := nz], csc_i := i', csc_x := x'\<rparr>"
    using run unfolding P_def permute_rows_def by (simp add: Let_def for_range_emit)
  have tot: "length (concat (map ?g [0..<?n])) = ?nz"
    by (rule length_concat_cols [OF wf [unfolded csc_wf_def]])
  have b: "\<forall>j<?n. \<forall>e \<in> set (?g j). fst e < csc_m A"
    using csc_wf_col_bound [OF wf] pinv by (fastforce simp: col_entries_def)
  note lo = layout_numbered [OF run _ _ _ b, unfolded tot]
  show "csc_wf P" "csc_m P = csc_m A" "csc_n P = csc_n A" "nnz P = nnz A"
    using lo(1-3) C by (simp_all add: csc_wf_def eq reallocate_def nnz_def)
  show "col_entries P j = map (\<lambda>e. (pinv ! fst e, snd e)) (col_entries A j)" if "j < ?n" for j
    using lo(4) [OF _ _ _ that] C by (simp add: col_entries_def eq reallocate_def comp_def)
qed

lemma permute_rows_and_cols_spec:
  fixes A C :: "'f::zero csc_matrix"
  assumes wf: "csc_wf A" and pinv: "\<forall>r < csc_m A. pinv ! r < csc_m A"
    and q: "length q = csc_n A" "set q = {..<csc_n A}"
    and C: "csc_m C = csc_m A" "csc_n C = csc_n A" "length (col_start C) = csc_n A + 1"
  defines "P \<equiv> permute_rows_and_cols pinv q A C"
  shows "csc_wf P" and "csc_m P = csc_m A" and "csc_n P = csc_n A" and "nnz P = nnz A"
    and "\<And>k. k < csc_n A \<Longrightarrow> col_entries P k = map (\<lambda>e. (pinv ! fst e, snd e)) (col_entries A (q ! k))"
proof -
  let ?n = "csc_n A" and ?nz = "col_start A ! csc_n A"
  let ?h = "\<lambda>j. map (\<lambda>p. (pinv ! (csc_i A ! p), csc_x A ! p)) [col_start A ! j..<col_start A ! (j + 1)]"
  let ?g = "\<lambda>k. ?h (q ! k)"
  let ?C = "reallocate ?nz C"
  obtain cs i' x' nz where run: "for_range 0 ?n (\<lambda>j (cs, ai, ax, q).
      let cs = cs[j := q]; (ai, ax, q) = fold emit (?g j) (ai, ax, q) in (cs, ai, ax, q))
      (col_start ?C, csc_i ?C, csc_x ?C, 0) = (cs, i', x', nz)" by (rule prod_cases4)
  have eq: "P = ?C\<lparr>col_start := cs[?n := nz], csc_i := i', csc_x := x'\<rparr>"
    using run unfolding P_def permute_rows_and_cols_def by (simp add: Let_def for_range_emit)
  have "mset q = mset [0..<?n]"
  proof (rule set_eq_iff_mset_eq_distinct [THEN iffD1])
    show "distinct q" using q by (intro card_distinct) simp
  qed (use q in \<open>simp_all add: atLeast0LessThan\<close>)
  have mp: "mset (map ?g [0..<?n]) = mset (map ?h [0..<?n])"
  proof -
    have "map ?g [0..<?n] = map ?h q" using q(1) by (intro nth_equalityI) auto
    then show ?thesis using \<open>mset q = mset [0..<?n]\<close> by (simp only: mset_map)
  qed
  have "length (concat (map ?g [0..<?n])) = length (concat (map ?h [0..<?n]))"
    unfolding length_concat by (rule sum_list_mset_cong [OF mp])
  also have "\<dots> = ?nz" by (rule length_concat_cols [OF wf [unfolded csc_wf_def]])
  finally have tot: "length (concat (map ?g [0..<?n])) = ?nz" .
  have qk: "q ! k < ?n" if "k < ?n" for k using q that by (metis lessThan_iff nth_mem)
  have b: "\<forall>k<?n. \<forall>e \<in> set (?g k). fst e < csc_m A"
    using csc_wf_col_bound [OF wf qk] pinv by (fastforce simp: col_entries_def)
  note lo = layout_numbered [OF run _ _ _ b, unfolded tot]
  show "csc_wf P" "csc_m P = csc_m A" "csc_n P = csc_n A" "nnz P = nnz A"
    using lo(1-3) C by (simp_all add: csc_wf_def eq reallocate_def nnz_def)
  show "col_entries P k = map (\<lambda>e. (pinv ! fst e, snd e)) (col_entries A (q ! k))" if "k < ?n" for k
    using lo(4) [OF _ _ _ that] C by (simp add: col_entries_def eq reallocate_def comp_def)
qed

text \<open>Renumbering the rows of a column by an injective map moves each coefficient with its row.\<close>

lemma entry_sum_renumber:
  assumes "inj_on f (insert r (fst ` set es))"
  shows "entry_sum (f r) (map (\<lambda>e. (f (fst e), snd e)) es) = entry_sum r es"
  using assms
proof (induction es)
  case (Cons e es)
  have "f (fst e) = f r \<longleftrightarrow> fst e = r" using Cons.prems by (auto simp: inj_on_def)
  moreover have "inj_on f (insert r (fst ` set es))"
    using Cons.prems by (rule inj_on_subset) auto
  ultimately show ?case using Cons.IH by simp
qed simp

subsection \<open>Removing marked columns and rows\<close>

lemma count_if:
  "fold (\<lambda>j (z, c). if P j then (z + f j, c + 1) else (z, c)) xs (a, b)
   = (a + sum_list (map f (filter P xs)), b + length (filter P xs))" for f :: "nat \<Rightarrow> nat"
  by (induction xs arbitrary: a b) auto

lemma count_if_swap:
  "fold (\<lambda>j (c, z). if P j then (c + 1, z + f j) else (c, z)) xs (b, a)
   = (b + length (filter P xs), a + sum_list (map f (filter P xs)))" for f :: "nat \<Rightarrow> nat"
  by (induction xs arbitrary: a b) auto

definition kept :: "int list \<Rightarrow> nat \<Rightarrow> nat list" where
  "kept flags n = filter (\<lambda>j. flags ! j = 0) [0..<n]"

lemma kept_less: "j \<in> set (kept flags n) \<Longrightarrow> j < n"
  by (simp add: kept_def)

lemma col_length_entries: "length (col_entries A j) = col_start A ! (j + 1) - col_start A ! j"
  by (simp add: col_entries_def)

lemma row_length_entries: "length (row_entries A j) = row_start A ! (j + 1) - row_start A ! j"
  by (simp add: row_entries_def)

lemma remove_columns_loop:
  "(\<lambda>j (new_col_start, new_i, new_x, q, new_j).
      if flags ! j \<noteq> 0 then (new_col_start, new_i, new_x, q, new_j)
      else let new_col_start = new_col_start[new_j := q];
               (new_i, new_x, q) =
                 for_range (col_start A ! j) (col_start A ! (j + 1))
                   (\<lambda>p. emit (csc_i A ! p, csc_x A ! p)) (new_i, new_x, q)
           in (new_col_start, new_i, new_x, q, new_j + 1))
   = (\<lambda>j s. if flags ! j = 0 then emit_col (col_entries A j) s else s)"
  by (intro ext) (simp add: emit_col_def col_entries_def for_range_emit split: prod.split)

lemma remove_columns_spec:
  fixes A :: "'f::zero csc_matrix" and flags :: "int list"
  assumes wf: "csc_wf A"
  defines "K \<equiv> kept flags (csc_n A)" and "B \<equiv> remove_columns flags A"
  shows "csc_wf B" and "csc_m B = csc_m A" and "csc_n B = length K"
    and "\<And>k. k < length K \<Longrightarrow> col_entries B k = col_entries A (K ! k)"
proof -
  let ?ess = "map (col_entries A) K"
  have cnt: "for_range 0 (csc_n A) (\<lambda>j (nz, n). if flags ! j = 0
        then (nz + (col_start A ! (j + 1) - col_start A ! j), n + 1) else (nz, n)) (0, 0)
      = (length (concat ?ess), length K)"
    unfolding count_if by (simp add: K_def kept_def length_concat comp_def col_length_entries)
  obtain cs i' x' q k where run: "fold emit_col ?ess
      (replicate (length K + 1) 0, replicate (length (concat ?ess)) 0, replicate (length (concat ?ess)) 0, 0, 0)
      = (cs, i', x', q, k)" by (rule prod_cases5)
  have "for_range 0 (csc_n A) (\<lambda>j s. if flags ! j = 0 then emit_col (col_entries A j) s else s) s
      = fold emit_col ?ess s" for s
    unfolding fold_if by (simp add: K_def kept_def fold_map comp_def)
  then have eq: "B = A\<lparr>col_start := cs[length K := q], csc_i := i', csc_x := x', csc_n := length K\<rparr>"
    using run unfolding B_def remove_columns_def cnt remove_columns_loop by (simp add: Let_def)
  have lo: "laid_out ?ess (cs[length K := q]) i' x'"
    using emit_cols(1) [OF _ _ _ run] by simp
  have "\<forall>es \<in> set ?ess. \<forall>e \<in> set es. fst e < csc_m A"
    using csc_wf_col_bound [OF wf] kept_less by (fastforce simp: K_def)
  from laid_out_ok(1) [OF lo this]
  show "csc_wf B" "csc_m B = csc_m A" "csc_n B = length K" by (simp_all add: eq csc_wf_def)
  show "col_entries B k = col_entries A (K ! k)" if "k < length K" for k
    using laid_out_entries [OF lo, of k] that by (simp add: col_entries_def eq)
qed

lemma remove_rows_loop:
  "(\<lambda>i (rs, j', x', nz_count, row_count).
      if marker ! i = 0
      then let rs = rs[row_count := nz_count];
               (j', x', nz_count) =
                 for_range (row_start A ! i) (row_start A ! (i + 1))
                   (\<lambda>p. emit (csr_j A ! p, csr_x A ! p)) (j', x', nz_count)
           in (rs, j', x', nz_count, row_count + 1)
      else (rs, j', x', nz_count, row_count))
   = (\<lambda>j s. if marker ! j = 0 then emit_col (row_entries A j) s else s)"
  by (intro ext) (simp add: emit_col_def row_entries_def for_range_emit split: prod.split)

lemma removed_complement:
  "length (filter P xs) + length (filter (\<lambda>x. \<not> P x) xs) = length xs"
  "sum_list (map f (filter P xs)) + sum_list (map f (filter (\<lambda>x. \<not> P x) xs)) = sum_list (map f xs)"
  for f :: "'a \<Rightarrow> nat"
  by (induction xs) auto

lemma remove_rows_spec:
  fixes A Aout :: "'f::zero csr_matrix" and marker :: "int list"
  assumes wf: "csr_wf A"
  defines "K \<equiv> kept marker (csr_m A)" and "B \<equiv> remove_rows marker A Aout"
  shows "csr_wf B" and "csr_n B = csr_n A" and "csr_m B = length K"
    and "\<And>k. k < length K \<Longrightarrow> row_entries B k = row_entries A (K ! k)"
proof -
  let ?ess = "map (row_entries A) K"
  let ?f = "\<lambda>j. row_start A ! (j + 1) - row_start A ! j"
  let ?R = "filter (\<lambda>i. marker ! i \<noteq> 0) [0..<csr_m A]"
  have cnt: "for_range 0 (csr_m A) (\<lambda>i (r, z). if marker ! i \<noteq> 0
        then (r + 1, z + (row_start A ! (i + 1) - row_start A ! i)) else (r, z)) (0, 0)
      = (length ?R, sum_list (map ?f ?R))"
    unfolding count_if_swap by simp
  have rows: "csr_m A - length ?R = length K"
    using removed_complement(1) [of "\<lambda>i. marker ! i = 0" "[0..<csr_m A]"] by (simp add: K_def kept_def)
  have "sum_list (map ?f [0..<csr_m A]) = row_start A ! csr_m A"
    using length_concat_cols [OF wf [unfolded csr_wf_def], of id] by (simp add: length_concat comp_def)
  then have nz: "row_start A ! csr_m A - sum_list (map ?f ?R) = length (concat ?ess)"
    using removed_complement(2) [of ?f "\<lambda>i. marker ! i = 0" "[0..<csr_m A]"]
    by (simp add: K_def kept_def length_concat comp_def row_length_entries)
  obtain cs i' x' q k where run: "fold emit_col ?ess
      (vresize (length K + 1) 0 (row_start Aout), vresize (length (concat ?ess)) 0 (csr_j Aout),
       vresize (length (concat ?ess)) 0 (csr_x Aout), 0, 0) = (cs, i', x', q, k)" by (rule prod_cases5)
  have "for_range 0 (csr_m A) (\<lambda>j s. if marker ! j = 0 then emit_col (row_entries A j) s else s) s
      = fold emit_col ?ess s" for s
    unfolding fold_if by (simp add: K_def kept_def fold_map comp_def)
  then have eq: "B = Aout\<lparr>csr_n := csr_n A, csr_m := length K,
      row_start := cs[length K := length (concat ?ess)], csr_j := i', csr_x := x'\<rparr>"
    using run unfolding B_def remove_rows_def cnt remove_rows_loop by (simp add: Let_def rows nz [folded Suc_eq_plus1] del: map_map)
  have lo: "laid_out ?ess (cs[length K := length (concat ?ess)]) i' x'"
    using emit_cols(1,3) [OF _ _ _ run] by simp
  have "\<forall>es \<in> set ?ess. \<forall>e \<in> set es. fst e < csr_n A"
    using csr_wf_row_bound [OF wf] kept_less by (fastforce simp: K_def)
  from laid_out_ok(1) [OF lo this]
  show "csr_wf B" "csr_n B = csr_n A" "csr_m B = length K" by (simp_all add: eq csr_wf_def)
  show "row_entries B k = row_entries A (K ! k)" if "k < length K" for k
    using laid_out_entries [OF lo, of k] that by (simp add: row_entries_def eq)
qed

end
