(* ===== verification/Sparse_Matrix_Inplace.thy ===== *)
theory Sparse_Matrix_Inplace
  imports Sparse_Matrix_Edit
begin

text \<open>
  The edits of \<open>cpp/src/linear_algebra/sparse_matrix.cpp\<close> that work in place:
  \<open>remove_row\<close> and \<open>remove_column\<close> compact the arrays they read from, and the
  \<open>append\<close> family writes behind the last entry. The lemma on compaction says that a write
  cursor that never overtakes the read cursor loses nothing.
\<close>

section \<open>Compaction in place\<close>

definition compact ::
    "(nat \<times> 'f \<Rightarrow> (nat \<times> 'f) option) \<Rightarrow> nat \<Rightarrow> nat list \<times> 'f list \<times> nat \<Rightarrow> nat list \<times> 'f list \<times> nat" where
  "compact f p = (\<lambda>(ai, ax, q). case f (ai ! p, ax ! p) of None \<Rightarrow> (ai, ax, q) | Some e \<Rightarrow> emit e (ai, ax, q))"

text \<open>
  \<open>compacted es b (ai, ax) (ai', ax', q)\<close>: the first \<open>q\<close> positions hold \<open>es\<close>, and
  nothing at or behind \<open>b\<close> has changed.
\<close>

definition compacted ::
    "(nat \<times> 'f) list \<Rightarrow> nat \<Rightarrow> nat list \<times> 'f list \<Rightarrow> nat list \<times> 'f list \<times> nat \<Rightarrow> bool" where
  "compacted es b = (\<lambda>(ai, ax) (ai', ax', q).
     q = length es \<and> q \<le> b \<and> length ai' = length ai \<and> length ax' = length ax
     \<and> take q (zip ai' ax') = es
     \<and> (\<forall>p \<ge> b. ai' ! p = ai ! p \<and> ax' ! p = ax ! p))"

lemma compacted_step:
  assumes c: "compacted es p (ai, ax) s" and p: "p < length ai" "p < length ax"
  shows "compacted (es @ List.map_filter f [(ai ! p, ax ! p)]) (Suc p) (ai, ax) (compact f p s)"
proof -
  obtain ai' ax' q where s: "s = (ai', ax', q)" by (rule prod_cases3)
  have rd: "ai' ! p = ai ! p" "ax' ! p = ax ! p" and q: "q \<le> p" "q = length es"
    and len: "length ai' = length ai" "length ax' = length ax" and t: "take q (zip ai' ax') = es"
    and fr: "\<forall>p' \<ge> p. ai' ! p' = ai ! p' \<and> ax' ! p' = ax ! p'"
    using c by (auto simp: compacted_def s)
  show ?thesis
  proof (cases "f (ai ! p, ax ! p)")
    case None
    then show ?thesis using rd q len t fr by (simp add: compacted_def compact_def s map_filter_simps)
  next
    case (Some e)
    have "take (Suc q) (zip (ai'[q := fst e]) (ax'[q := snd e])) = es @ [e]"
      using q p len t by (subst take_Suc_conv_app_nth) (auto simp: take_zip)
    then show ?thesis
      using Some rd q len fr by (cases e) (auto simp: compacted_def compact_def s map_filter_simps)
  qed
qed

lemma map_filter_append: "List.map_filter f (xs @ ys) = List.map_filter f xs @ List.map_filter f ys"
  by (simp add: List.map_filter_def)

lemma compact_range:
  assumes "compacted es a (ai, ax) s" and "a \<le> b" and "b \<le> length ai" "b \<le> length ax"
  shows "compacted (es @ List.map_filter f (map (\<lambda>p. (ai ! p, ax ! p)) [a..<b])) b (ai, ax)
           (for_range a b (compact f) s)"
proof (rule for_range_invariant [where P = "\<lambda>k. compacted (es @ List.map_filter f (map (\<lambda>p. (ai ! p, ax ! p)) [a..<k])) k (ai, ax)"])
  fix k s assume k: "a \<le> k" "k < b"
    and c: "compacted (es @ List.map_filter f (map (\<lambda>p. (ai ! p, ax ! p)) [a..<k])) k (ai, ax) s"
  then show "compacted (es @ List.map_filter f (map (\<lambda>p. (ai ! p, ax ! p)) [a..<Suc k])) (Suc k) (ai, ax) (compact f k s)"
    using compacted_step [OF c, of f] k assms(3,4) by (simp add: map_filter_append)
qed (use assms in \<open>simp_all add: map_filter_simps\<close>)

section \<open>Removing one row\<close>

definition remove_row :: "nat \<Rightarrow> 'f csc_matrix \<Rightarrow> 'f csc_matrix" where
  "remove_row row A =
     (let n = csc_n A;
          (new_col_start, i', x', q) =
            for_range 0 n
              (\<lambda>j (new_col_start, i', x', q).
                 let new_col_start = new_col_start[j := q];
                     (i', x', q) =
                       for_range (col_start A ! j) (col_start A ! (j + 1))
                         (\<lambda>p (i', x', q).
                            let i = i' ! p
                            in if i = row then (i', x', q)
                               else if i > row then (i'[q := i - 1], x'[q := x' ! p], q + 1)
                               else (i'[q := i], x'[q := x' ! p], q + 1)) (i', x', q)
                 in (new_col_start, i', x', q))
              (replicate (n + 1) 0, csc_i A, csc_x A, 0)
      in A\<lparr>csc_i := i', csc_x := x', col_start := new_col_start[n := q]\<rparr>)"

definition drop_row :: "nat \<Rightarrow> nat \<times> 'f \<Rightarrow> (nat \<times> 'f) option" where
  "drop_row row e = (if fst e = row then None else if fst e > row then Some (fst e - 1, snd e) else Some e)"

lemma remove_row_body:
  "(\<lambda>p (i', x', q). let i = i' ! p in if i = row then (i', x', q)
       else if i > row then (i'[q := i - 1], x'[q := x' ! p], q + 1)
       else (i'[q := i], x'[q := x' ! p], q + 1)) = compact (drop_row row)"
  by (intro ext) (auto simp: compact_def drop_row_def Let_def)

lemma compact_cols:
  assumes ok: "compressed_ok M N starts idx xs" and k: "k \<le> M" and cs0: "length cs0 = M + 1"
    and run: "for_range 0 k (\<lambda>j (cs, ai, ax, q).
      let cs = cs[j := q];
          (ai, ax, q) = for_range (starts ! j) (starts ! (j + 1)) (compact f) (ai, ax, q)
      in (cs, ai, ax, q)) (cs0, idx, xs, 0) = (cs', ai', ax', q')"
  defines "g \<equiv> \<lambda>j. List.map_filter f (map (\<lambda>p. (idx ! p, xs ! p)) [starts ! j..<starts ! Suc j])"
  shows "compacted (concat (map g [0..<k])) (starts ! k) (idx, xs) (ai', ax', q')
         \<and> length cs' = M + 1 \<and> (\<forall>j<k. cs' ! j = length (concat (map g [0..<j])))"
  using k run
proof (induction k arbitrary: cs' ai' ax' q')
  case 0
  then show ?case using ok cs0 by (auto simp: compacted_def compressed_ok_def)
next
  case (Suc k)
  obtain cs1 ai1 ax1 q1 where prev: "for_range 0 k (\<lambda>j (cs, ai, ax, q).
      let cs = cs[j := q];
          (ai, ax, q) = for_range (starts ! j) (starts ! (j + 1)) (compact f) (ai, ax, q)
      in (cs, ai, ax, q)) (cs0, idx, xs, 0) = (cs1, ai1, ax1, q1)" by (rule prod_cases4)
  have IH: "compacted (concat (map g [0..<k])) (starts ! k) (idx, xs) (ai1, ax1, q1)"
    "length cs1 = M + 1" "\<forall>j<k. cs1 ! j = length (concat (map g [0..<j]))"
    using Suc.IH [OF _ prev] Suc.prems by auto
  have le: "starts ! k \<le> starts ! Suc k" "starts ! Suc k \<le> starts ! M"
    using starts_mono [OF ok] Suc.prems by auto
  have bnd: "starts ! Suc k \<le> length idx" "starts ! Suc k \<le> length xs"
    using le ok by (auto simp: compressed_ok_def)
  have q1: "q1 = length (concat (map g [0..<k]))" using IH(1) by (simp add: compacted_def)
  have step: "for_range (starts ! k) (starts ! Suc k) (compact f) (ai1, ax1, q1) = (ai', ax', q')"
    and cs': "cs' = cs1[k := q1]"
    using Suc.prems(2) prev by (auto simp: Let_def split: prod.splits)
  have "compacted (concat (map g [0..<Suc k])) (starts ! Suc k) (idx, xs) (ai', ax', q')"
    using compact_range [OF IH(1) le(1) bnd, of f] by (simp add: step g_def)
  then show ?case using IH(2,3) q1 Suc.prems(1) by (auto simp: cs' nth_list_update less_Suc_eq)
qed

lemma compact_cols_laid_out:
  assumes ok: "compressed_ok M N starts idx xs" and cs0: "length cs0 = M + 1"
    and run: "for_range 0 M (\<lambda>j (cs, ai, ax, q).
      let cs = cs[j := q];
          (ai, ax, q) = for_range (starts ! j) (starts ! (j + 1)) (compact f) (ai, ax, q)
      in (cs, ai, ax, q)) (cs0, idx, xs, 0) = (cs', ai', ax', q')"
  defines "g \<equiv> \<lambda>j. List.map_filter f (map (\<lambda>p. (idx ! p, xs ! p)) [starts ! j..<starts ! Suc j])"
  shows "laid_out (map g [0..<M]) (cs'[M := q']) ai' ax'"
proof -
  have c: "compacted (concat (map g [0..<M])) (starts ! M) (idx, xs) (ai', ax', q')"
    "length cs' = M + 1" "\<forall>j<M. cs' ! j = length (concat (map g [0..<j]))"
    using compact_cols [OF ok order_refl cs0 run] unfolding g_def by auto
  then have "cs'[M := q'] ! k = length (concat (map g [0..<k]))" if "k \<le> M" for k
    using that by (cases "k = M") (auto simp: compacted_def)
  then show ?thesis
    using c ok by (auto simp: laid_out_def compacted_def take_map compressed_ok_def)
qed

lemma remove_row_spec:
  fixes A :: "'f csc_matrix"
  assumes wf: "csc_wf A" and row: "row < csc_m A"
  defines "B \<equiv> remove_row row A"
  shows "csc_wf (B\<lparr>csc_m := csc_m A - 1\<rparr>)" and "csc_m B = csc_m A" and "csc_n B = csc_n A"
    and "\<And>j. j < csc_n A \<Longrightarrow> col_entries B j = List.map_filter (drop_row row) (col_entries A j)"
proof -
  let ?g = "\<lambda>j. List.map_filter (drop_row row) (map (\<lambda>p. (csc_i A ! p, csc_x A ! p)) [col_start A ! j..<col_start A ! Suc j])"
  obtain cs i' x' q where run: "for_range 0 (csc_n A) (\<lambda>j (cs, ai, ax, q).
      let cs = cs[j := q];
          (ai, ax, q) = for_range (col_start A ! j) (col_start A ! (j + 1)) (compact (drop_row row)) (ai, ax, q)
      in (cs, ai, ax, q)) (replicate (csc_n A + 1) 0, csc_i A, csc_x A, 0) = (cs, i', x', q)"
    by (rule prod_cases4)
  then have eq: "B = A\<lparr>csc_i := i', csc_x := x', col_start := cs[csc_n A := q]\<rparr>"
    unfolding B_def remove_row_def remove_row_body by (simp add: Let_def)
  have lo: "laid_out (map ?g [0..<csc_n A]) (cs[csc_n A := q]) i' x'"
    by (rule compact_cols_laid_out [OF wf [unfolded csc_wf_def] _ run]) simp
  have "\<forall>es \<in> set (map ?g [0..<csc_n A]). \<forall>e \<in> set es. fst e < csc_m A - 1"
    using csc_wf_col_bound [OF wf] row
    by (fastforce simp: col_entries_def List.map_filter_def drop_row_def split: if_splits)
  from laid_out_ok(1) [OF lo this]
  show "csc_wf (B\<lparr>csc_m := csc_m A - 1\<rparr>)" "csc_m B = csc_m A" "csc_n B = csc_n A"
    by (simp_all add: eq csc_wf_def)
  show "col_entries B j = List.map_filter (drop_row row) (col_entries A j)" if "j < csc_n A" for j
    using laid_out_entries [OF lo, of j] that by (simp add: col_entries_def eq)
qed

text \<open>The coefficient above or below the removed row, at its new row number.\<close>

lemma entry_sum_drop_row:
  "entry_sum r (List.map_filter (drop_row row) es) = entry_sum (if r < row then r else r + 1) es"
  by (induction es) (auto simp: map_filter_simps drop_row_def split: option.splits)

section \<open>Removing one column\<close>

definition remove_column :: "nat \<Rightarrow> 'f csc_matrix \<Rightarrow> 'f csc_matrix" where
  "remove_column col A =
     (let n = csc_n A;
          q = col_start A ! col;
          (cs, i', x', q) =
            for_range (col + 1) n
              (\<lambda>k (cs, i', x', q).
                 let cs = cs[k - 1 := q];
                     start = cs ! k;
                     end = cs ! (k + 1);
                     (i', x', q) =
                       for_range start end
                         (\<lambda>p (i', x', q). (i'[q := i' ! p], x'[q := x' ! p], q + 1)) (i', x', q)
                 in (cs, i', x', q))
              (col_start A, csc_i A, csc_x A, q)
      in A\<lparr>col_start := cs[n - 1 := q], csc_i := i', csc_x := x'\<rparr>)"

lemma remove_column_body:
  "(\<lambda>p (i', x', q). (i'[q := i' ! p], x'[q := x' ! p], q + 1)) = compact Some"
  by (intro ext) (auto simp: compact_def)

lemma map_filter_Some: "List.map_filter Some xs = xs"
  by (simp add: List.map_filter_def)

text \<open>The columns that are left, in order: those before \<open>col\<close> and those after it.\<close>

definition other_col :: "nat \<Rightarrow> nat \<Rightarrow> nat" where
  "other_col col k = (if k < col then k else Suc k)"

lemma concat_col_entries:
  assumes "csc_wf A" and "k \<le> csc_n A"
  shows "concat (map (col_entries A) [0..<k]) = take (col_start A ! k) (zip (csc_i A) (csc_x A))"
proof -
  let ?f = "\<lambda>p. (csc_i A ! p, csc_x A ! p)"
  have ok: "compressed_ok (csc_n A) (csc_m A) (col_start A) (csc_i A) (csc_x A)"
    using assms by (simp add: csc_wf_def)
  have "concat (map (\<lambda>j. [col_start A ! j..<col_start A ! Suc j]) [0..<k]) = [0..<col_start A ! k]"
    using concat_upt [of k "nth (col_start A)"] starts_mono [OF ok] assms(2) ok
    by (simp add: compressed_ok_def)
  from arg_cong [OF this, of "map ?f"]
  have "concat (map (col_entries A) [0..<k]) = map ?f [0..<col_start A ! k]"
    by (simp add: map_concat comp_def col_entries_def [abs_def])
  also have "\<dots> = take (col_start A ! k) (zip (csc_i A) (csc_x A))"
    using starts_mono [OF ok assms(2)] ok by (intro nth_equalityI) (auto simp: compressed_ok_def)
  finally show ?thesis .
qed

lemma length_concat_col_entries:
  "csc_wf A \<Longrightarrow> k \<le> csc_n A \<Longrightarrow> length (concat (map (col_entries A) [0..<k])) = col_start A ! k"
  using starts_mono [of "csc_n A" "csc_m A" "col_start A" "csc_i A" "csc_x A" k "csc_n A"]
  by (auto simp: concat_col_entries csc_wf_def compressed_ok_def simp del: length_concat)

text \<open>
  The invariant of the shifting loop before column \<open>k\<close> is moved: the pointers up to
  \<open>k - 2\<close> are those of the shifted columns, the pointers from \<open>k\<close> on are untouched.
\<close>

definition shifted :: "'f csc_matrix \<Rightarrow> nat \<Rightarrow> nat \<Rightarrow> nat list \<times> nat list \<times> 'f list \<times> nat \<Rightarrow> bool" where
  "shifted A col k = (\<lambda>(cs, ai, ax, q).
     compacted (concat (map (\<lambda>j. col_entries A (other_col col j)) [0..<k - 1])) (col_start A ! k)
       (csc_i A, csc_x A) (ai, ax, q)
     \<and> length cs = csc_n A + 1
     \<and> (\<forall>j<k - 1. cs ! j = length (concat (map (\<lambda>j. col_entries A (other_col col j)) [0..<j])))
     \<and> (\<forall>j\<ge>k. cs ! j = col_start A ! j))"

lemma shifted_start:
  assumes wf: "csc_wf A" and col: "col < csc_n A"
  shows "shifted A col (col + 1) (col_start A, csc_i A, csc_x A, col_start A ! col)"
proof -
  have ok: "compressed_ok (csc_n A) (csc_m A) (col_start A) (csc_i A) (csc_x A)"
    using wf by (simp add: csc_wf_def)
  have g: "map (\<lambda>j. col_entries A (other_col col j)) [0..<j] = map (col_entries A) [0..<j]" if "j \<le> col" for j
    using that by (simp add: other_col_def)
  have len: "length (concat (map (\<lambda>j. col_entries A (other_col col j)) [0..<j])) = col_start A ! j"
    if "j \<le> col" for j
    unfolding g [OF that] using length_concat_col_entries [OF wf, of j] col that by simp
  have "col_start A ! col \<le> col_start A ! Suc col" using starts_mono [OF ok] col by simp
  moreover have "take (col_start A ! col) (zip (csc_i A) (csc_x A))
      = concat (map (\<lambda>j. col_entries A (other_col col j)) [0..<col])"
    unfolding g [OF order_refl] using concat_col_entries [OF wf, of col] col by simp
  ultimately show ?thesis
    using len ok by (simp add: shifted_def compacted_def compressed_ok_def del: length_concat)
qed

lemma shifted_step:
  assumes wf: "csc_wf A" and k: "col + 1 \<le> k" "k < csc_n A" and s: "shifted A col k s"
  shows "shifted A col (Suc k)
           ((\<lambda>(cs, i', x', q).
              let cs = cs[k - 1 := q]; start = cs ! k; end = cs ! (k + 1);
                  (i', x', q) = for_range start end (compact Some) (i', x', q)
              in (cs, i', x', q)) s)"
proof -
  let ?g = "\<lambda>j. col_entries A (other_col col j)"
  obtain cs ai ax q where s': "s = (cs, ai, ax, q)" by (rule prod_cases4)
  obtain ai' ax' q' where run: "for_range (col_start A ! k) (col_start A ! Suc k) (compact Some) (ai, ax, q) = (ai', ax', q')"
    by (rule prod_cases3)
  obtain k' where k': "k = Suc k'" using k by (cases k) auto
  have ok: "compressed_ok (csc_n A) (csc_m A) (col_start A) (csc_i A) (csc_x A)"
    using wf by (simp add: csc_wf_def)
  have le: "col_start A ! k \<le> col_start A ! Suc k" "col_start A ! Suc k \<le> col_start A ! csc_n A"
    using starts_mono [OF ok] k(2) by auto
  have bnd: "col_start A ! Suc k \<le> length (csc_i A)" "col_start A ! Suc k \<le> length (csc_x A)"
    using le ok by (auto simp: compressed_ok_def)
  have c: "compacted (concat (map ?g [0..<k'])) (col_start A ! k) (csc_i A, csc_x A) (ai, ax, q)"
    using s by (simp add: shifted_def s' k')
  have "?g k' = map (\<lambda>p. (csc_i A ! p, csc_x A ! p)) [col_start A ! k..<col_start A ! Suc k]"
    using k k' by (simp add: other_col_def col_entries_def)
  then have "compacted (concat (map ?g [0..<k])) (col_start A ! Suc k) (csc_i A, csc_x A) (ai', ax', q')"
    using compact_range [OF c le(1) bnd, of Some] k' run by (simp add: map_filter_Some)
  moreover have "q = length (concat (map ?g [0..<k']))" using c by (simp add: compacted_def)
  ultimately show ?thesis
    using s k k' run by (auto simp: shifted_def s' Let_def nth_list_update less_Suc_eq)
qed

lemma remove_column_spec:
  fixes A :: "'f csc_matrix" and col :: nat
  assumes wf: "csc_wf A" and col: "col < csc_n A"
  defines "B \<equiv> (remove_column col A)\<lparr>csc_n := csc_n A - 1, col_start := take (csc_n A) (col_start (remove_column col A))\<rparr>"
  shows "csc_wf B" and "csc_m B = csc_m A" and "csc_n B = csc_n A - 1"
    and "\<And>k. k < csc_n B \<Longrightarrow> col_entries B k = col_entries A (other_col col k)"
    and "csc_n (remove_column col A) = csc_n A"
proof -
  let ?g = "\<lambda>j. col_entries A (other_col col j)" and ?n = "csc_n A"
  obtain cs i' x' q where run: "for_range (col + 1) ?n (\<lambda>k (cs, i', x', q).
      let cs = cs[k - 1 := q]; start = cs ! k; end = cs ! (k + 1);
          (i', x', q) = for_range start end (compact Some) (i', x', q)
      in (cs, i', x', q)) (col_start A, csc_i A, csc_x A, col_start A ! col) = (cs, i', x', q)"
    by (rule prod_cases4)
  have "shifted A col ?n (cs, i', x', q)"
    unfolding run [symmetric]
    by (rule for_range_invariant [where P = "shifted A col"])
      (use col shifted_start [OF wf col] shifted_step [OF wf] in auto)
  then have c: "compacted (concat (map ?g [0..<?n - 1])) (col_start A ! ?n) (csc_i A, csc_x A) (i', x', q)"
    and cs: "length cs = ?n + 1" "\<forall>j<?n - 1. cs ! j = length (concat (map ?g [0..<j]))"
    by (auto simp: shifted_def)
  have eq: "remove_column col A = A\<lparr>col_start := cs[?n - 1 := q], csc_i := i', csc_x := x'\<rparr>"
    using run unfolding remove_column_def remove_column_body by (simp add: Let_def)
  have ok: "compressed_ok ?n (csc_m A) (col_start A) (csc_i A) (csc_x A)"
    using wf by (simp add: csc_wf_def)
  have "cs[?n - 1 := q] ! k = length (concat (map ?g [0..<k]))" if "k \<le> ?n - 1" for k
    using that cs c by (cases "k = ?n - 1") (auto simp: compacted_def)
  then have lo: "laid_out (map ?g [0..<?n - 1]) (take ?n (cs[?n - 1 := q])) i' x'"
    using c cs col ok by (auto simp: laid_out_def compacted_def take_map compressed_ok_def)
  have oc: "other_col col j < ?n" if "j < ?n - 1" for j using that by (auto simp: other_col_def)
  have "\<forall>es \<in> set (map ?g [0..<?n - 1]). \<forall>e \<in> set es. fst e < csc_m A"
  proof (intro ballI)
    fix es e assume "es \<in> set (map ?g [0..<?n - 1])" and e: "e \<in> set es"
    then obtain j where "j < ?n - 1" "es = ?g j" by auto
    then show "fst e < csc_m A" using csc_wf_col_bound [OF wf oc] e by blast
  qed
  from laid_out_ok(1) [OF lo this]
  show "csc_wf B" "csc_m B = csc_m A" "csc_n B = ?n - 1" "csc_n (remove_column col A) = ?n"
    by (simp_all add: B_def eq csc_wf_def)
  show "col_entries B k = ?g k" if "k < csc_n B" for k
    using laid_out_entries [OF lo, of k] that by (simp add: B_def eq col_entries_def)
qed

section \<open>Appending columns and rows\<close>

text \<open>
  Columns are appended to a matrix whose vectors were resized beforehand: the pointer
  vector is longer than the current number of columns asks for.
\<close>

definition csc_room :: "'f csc_matrix \<Rightarrow> bool" where
  "csc_room A \<longleftrightarrow> csc_n A < length (col_start A)
     \<and> compressed_ok (csc_n A) (csc_m A) (take (csc_n A + 1) (col_start A)) (csc_i A) (csc_x A)"

lemma csc_room_le: "csc_room A \<Longrightarrow> j \<le> k \<Longrightarrow> k \<le> csc_n A \<Longrightarrow> col_start A ! j \<le> col_start A ! k"
  using starts_mono [of "csc_n A" "csc_m A" "take (csc_n A + 1) (col_start A)" "csc_i A" "csc_x A" j k]
  by (simp add: csc_room_def)

lemma append_emitted:
  fixes A :: "'f csc_matrix"
  assumes room: "csc_room A" "csc_n A + 1 < length (col_start A)"
    and cap: "nnz A + length es \<le> length (csc_i A)" "nnz A + length es \<le> length (csc_x A)"
    and es: "\<forall>e \<in> set es. fst e < csc_m A"
    and run: "fold emit es (csc_i A, csc_x A, nnz A) = (i', x', nz)"
  defines "B \<equiv> A\<lparr>csc_i := i', csc_x := x', col_start := (col_start A)[csc_n A + 1 := nz], csc_n := csc_n A + 1\<rparr>"
  shows "csc_room B" and "col_entries B (csc_n A) = es"
    and "\<And>j. j < csc_n A \<Longrightarrow> col_entries B j = col_entries A j"
proof -
  let ?n = "csc_n A" and ?z = "nnz A" and ?cs = "(col_start A)[csc_n A + 1 := nz]"
  have r: "i' = take ?z (csc_i A) @ map fst es @ drop (?z + length es) (csc_i A)"
    "x' = take ?z (csc_x A) @ map snd es @ drop (?z + length es) (csc_x A)" "nz = ?z + length es"
    using run emit_all [OF cap] by auto
  have old: "i' ! p = csc_i A ! p" "x' ! p = csc_x A ! p" if "p < ?z" for p
    using that cap by (auto simp: r nth_append)
  have new: "(i' ! (?z + t), x' ! (?z + t)) = es ! t" if "t < length es" for t
    using that cap by (auto simp: r nth_append)
  have ok: "compressed_ok ?n (csc_m A) (take (?n + 1) (col_start A)) (csc_i A) (csc_x A)"
    using room by (simp add: csc_room_def)
  have "?cs ! i \<le> ?cs ! j" if "i \<le> j" "j < ?n + 2" for i j
  proof (cases "j = ?n + 1")
    case True
    then show ?thesis
      using that room r(3) csc_room_le [OF room(1), of i ?n] by (cases "i = j") (auto simp: nnz_def)
  qed (use that room csc_room_le [OF room(1), of i j] in auto)
  then have "sorted (take (?n + 2) ?cs)" by (simp add: sorted_iff_nth_mono)
  moreover have "i' ! p < csc_m A" if "p < nz" for p
  proof (cases "p < ?z")
    case True
    then show ?thesis using ok old by (simp add: compressed_ok_def nnz_def)
  next
    case False
    then obtain t where t: "p = ?z + t" by (metis le_iff_add not_less)
    then have "(i' ! p, x' ! p) \<in> set es" using new [of t] that r(3) by (metis add_less_cancel_left nth_mem)
    then show ?thesis using es by force
  qed
  ultimately show "csc_room B"
    using room cap ok r by (simp add: B_def csc_room_def compressed_ok_def numeral_2_eq_2)
  show "col_entries B ?n = es"
    using new room by (intro nth_equalityI) (auto simp: B_def col_entries_def r(3) nnz_def)
  show "col_entries B j = col_entries A j" if "j < ?n" for j
    using that old room csc_room_le [OF room(1), of "Suc j" ?n]
    by (auto simp: B_def col_entries_def nnz_def)
qed

lemma append_column_dense_spec:
  fixes A :: "'f::zero csc_matrix"
  assumes "csc_room A" "csc_n A + 1 < length (col_start A)" and x: "length x = csc_m A"
    and "nnz A + length x \<le> length (csc_i A)" "nnz A + length x \<le> length (csc_x A)"
  defines "es \<equiv> filter (\<lambda>e. snd e \<noteq> 0) (zip [0..<length x] x)" and "B \<equiv> append_column_dense x A"
  shows "csc_room B" and "csc_n B = csc_n A + 1" and "col_entries B (csc_n A) = es"
    and "\<And>j. j < csc_n A \<Longrightarrow> col_entries B j = col_entries A j"
proof -
  have es: "es = map (\<lambda>j. (j, x ! j)) (filter (\<lambda>j. x ! j \<noteq> 0) [0..<length x])"
    unfolding es_def by (subst zip_map_fst_snd [symmetric], subst map_nth [symmetric, of x])
      (simp add: filter_map comp_def zip_map2 zip_same_conv_map)
  have len: "length es \<le> length x" by (simp add: es_def le_trans [OF length_filter_le])
  obtain i' x' nz where run: "fold emit es (csc_i A, csc_x A, nnz A) = (i', x', nz)" by (rule prod_cases3)
  have B: "B = A\<lparr>csc_i := i', csc_x := x', col_start := (col_start A)[csc_n A + 1 := nz], csc_n := csc_n A + 1\<rparr>"
    using run unfolding B_def append_column_dense_def fold_if
    by (simp add: es fold_map comp_def nnz_def Let_def)
  have "\<forall>e \<in> set es. fst e < csc_m A" using x by (auto simp: es)
  note ae = append_emitted [OF assms(1,2) _ _ this run, folded B]
  show "csc_room B" "csc_n B = csc_n A + 1" "col_entries B (csc_n A) = es"
    "\<And>j. j < csc_n A \<Longrightarrow> col_entries B j = col_entries A j"
    using ae len assms(4,5) by (auto simp: B)
qed

lemma append_column_sparse_spec:
  fixes A :: "'f::zero csc_matrix"
  assumes "csc_room A" "csc_n A + 1 < length (col_start A)"
    and x: "length xx = length xi" "\<forall>r \<in> set xi. r < csc_m A"
    and "nnz A + length xi \<le> length (csc_i A)" "nnz A + length xi \<le> length (csc_x A)"
  defines "es \<equiv> filter (\<lambda>e. snd e \<noteq> 0) (zip xi xx)" and "B \<equiv> append_column_sparse xi xx A"
  shows "csc_room B" and "csc_n B = csc_n A + 1" and "col_entries B (csc_n A) = es"
    and "\<And>j. j < csc_n A \<Longrightarrow> col_entries B j = col_entries A j"
proof -
  have "zip xi xx = map (\<lambda>k. (xi ! k, xx ! k)) [0..<length xi]"
    using x(1) by (intro nth_equalityI) auto
  then have es: "es = map (\<lambda>k. (xi ! k, xx ! k)) (filter (\<lambda>k. xx ! k \<noteq> 0) [0..<length xi])"
    by (simp add: es_def filter_map comp_def)
  have len: "length es \<le> length xi" using x(1) by (simp add: es_def le_trans [OF length_filter_le])
  obtain i' x' nz where run: "fold emit es (csc_i A, csc_x A, nnz A) = (i', x', nz)" by (rule prod_cases3)
  have B: "B = A\<lparr>csc_i := i', csc_x := x', col_start := (col_start A)[csc_n A + 1 := nz], csc_n := csc_n A + 1\<rparr>"
    using run unfolding B_def append_column_sparse_def Let_def fold_if
    by (simp add: es fold_map comp_def nnz_def)
  have "\<forall>e \<in> set es. fst e < csc_m A" using x by (auto simp: es)
  note ae = append_emitted [OF assms(1,2) _ _ this run, folded B]
  show "csc_room B" "csc_n B = csc_n A + 1" "col_entries B (csc_n A) = es"
    "\<And>j. j < csc_n A \<Longrightarrow> col_entries B j = col_entries A j"
    using ae len assms(5,6) by (auto simp: B)
qed

lemma append_column_indexed_spec:
  fixes A :: "'f::zero csc_matrix" and x :: "'f list"
  assumes "csc_room A" "csc_n A + 1 < length (col_start A)"
    and x: "x_nz \<le> length i" "\<forall>k < x_nz. i ! k < csc_m A"
    and "nnz A + x_nz \<le> length (csc_i A)" "nnz A + x_nz \<le> length (csc_x A)"
  defines "es \<equiv> filter (\<lambda>e. snd e \<noteq> 0) (map (\<lambda>r. (r, x ! r)) (take x_nz i))"
    and "B \<equiv> append_column_indexed x_nz i x A"
  shows "csc_room B" and "csc_n B = csc_n A + 1" and "col_entries B (csc_n A) = es"
    and "\<And>j. j < csc_n A \<Longrightarrow> col_entries B j = col_entries A j"
proof -
  have "take x_nz i = map (nth i) [0..<x_nz]" using x(1) by (intro nth_equalityI) auto
  then have es: "es = map (\<lambda>k. (i ! k, x ! (i ! k))) (filter (\<lambda>k. x ! (i ! k) \<noteq> 0) [0..<x_nz])"
    by (simp add: es_def filter_map comp_def)
  have len: "length es \<le> x_nz" using x(1) by (simp add: es_def le_trans [OF length_filter_le])
  obtain i' x' nz where run: "fold emit es (csc_i A, csc_x A, nnz A) = (i', x', nz)" by (rule prod_cases3)
  have B: "B = A\<lparr>csc_i := i', csc_x := x', col_start := (col_start A)[csc_n A + 1 := nz], csc_n := csc_n A + 1\<rparr>"
    using run unfolding B_def append_column_indexed_def Let_def fold_if
    by (simp add: es fold_map comp_def nnz_def)
  have "\<forall>e \<in> set es. fst e < csc_m A" using x by (auto simp: es)
  note ae = append_emitted [OF assms(1,2) _ _ this run, folded B]
  show "csc_room B" "csc_n B = csc_n A + 1" "col_entries B (csc_n A) = es"
    "\<And>j. j < csc_n A \<Longrightarrow> col_entries B j = col_entries A j"
    using ae len assms(5,6) by (auto simp: B)
qed

subsection \<open>Rows\<close>

lemma append_rows_pointers:
  assumes okA: "compressed_ok M N rsA jA xA" and okC: "compressed_ok R N' rsC jC xC"
  defines "z \<equiv> rsA ! M"
  shows "for_range M (M + R) (\<lambda>i (rs, nz). let k = i - M; nz_row = rsC ! (k + 1) - rsC ! k
             in (rs[i := nz], nz + nz_row)) (vresize (M + R + 1) 0 rsA, z)
         = (map (\<lambda>i. if i < M then rsA ! i else if i < M + R then z + rsC ! (i - M) else
               vresize (M + R + 1) 0 rsA ! i) [0..<M + R + 1], z + rsC ! R)"
proof -
  let ?f = "\<lambda>i (rs, nz). let k = i - M; nz_row = rsC ! (k + 1) - rsC ! k in (rs[i := nz], nz + nz_row)"
  let ?v = "vresize (M + R + 1) 0 rsA"
  define P where "P k = (\<lambda>(rs, nz). nz = z + rsC ! (k - M) \<and>
      rs = map (\<lambda>i. if M \<le> i \<and> i < k then z + rsC ! (i - M) else ?v ! i) [0..<M + R + 1])" for k
  have "P (M + R) (for_range M (M + R) ?f (?v, z))"
  proof (rule for_range_invariant)
    show "P M (?v, z)" using okC by (auto simp: P_def compressed_ok_def intro!: nth_equalityI simp del: upt_Suc)
    show "P (Suc k) (?f k s)" if k: "M \<le> k" "k < M + R" and p: "P k s" for k s
    proof -
      have "rsC ! (k - M) \<le> rsC ! (Suc k - M)"
        using k by (intro starts_mono [OF okC]) auto
      then show ?thesis
        using p k by (auto simp: P_def Let_def Suc_diff_le nth_list_update intro!: nth_equalityI simp del: upt_Suc)
    qed
  qed simp
  moreover have "?v ! i = rsA ! i" if "i < M" for i using that okA by (simp add: compressed_ok_def)
  ultimately show ?thesis
    by (auto simp: P_def split: prod.splits intro!: nth_equalityI simp del: upt_Suc)
qed

lemma append_rows_spec:
  fixes A C :: "'f::zero csr_matrix"
  assumes A: "csr_wf A" and C: "csr_wf C" and le: "csr_n C \<le> csr_n A"
  obtains B where "append_rows C A = (0, B)" and "csr_wf B" and "csr_m B = csr_m A + csr_m C"
    and "csr_n B = csr_n A"
    and "\<And>i. i < csr_m A \<Longrightarrow> row_entries B i = row_entries A i"
    and "\<And>i. i < csr_m C \<Longrightarrow> row_entries B (csr_m A + i) = row_entries C i"
proof -
  let ?M = "csr_m A" and ?R = "csr_m C" and ?z = "row_start A ! csr_m A" and ?zc = "row_start C ! csr_m C"
  note okA = A [unfolded csr_wf_def] and okC = C [unfolded csr_wf_def]
  define rs where "rs = map (\<lambda>i. if i < ?M then row_start A ! i else ?z + row_start C ! (i - ?M)) [0..<?M + ?R + 1]"
  define j' where "j' = map (\<lambda>p. if ?z \<le> p then csr_j C ! (p - ?z) else csr_j A ! p) [0..<?z + ?zc]"
  define x' where "x' = map (\<lambda>p. if ?z \<le> p then csr_x C ! (p - ?z) else csr_x A ! p) [0..<?z + ?zc]"
  let ?B = "A\<lparr>row_start := rs, csr_j := j', csr_x := x', csr_m := ?M + ?R, csr_nz_max := ?z + ?zc\<rparr>"
  have jx: "for_range ?z (?z + ?zc) (\<lambda>p j'. j'[p := csr_j C ! (p - ?z)]) (vresize (?z + ?zc) 0 (csr_j A)) = j'"
    "for_range ?z (?z + ?zc) (\<lambda>p x'. x'[p := csr_x C ! (p - ?z)]) (vresize (?z + ?zc) 0 (csr_x A)) = x'"
    using okA by (auto simp: fill_range j'_def x'_def compressed_ok_def intro!: nth_equalityI)
  have rs': "(map (\<lambda>i. if i < ?M then row_start A ! i else if i < ?M + ?R then ?z + row_start C ! (i - ?M)
      else vresize (?M + ?R + 1) 0 (row_start A) ! i) [0..<?M + ?R + 1])[?M + ?R := ?z + ?zc] = rs"
    by (intro nth_equalityI) (auto simp: rs_def nth_list_update simp del: upt_Suc)
  have "append_rows C A = (0, ?B)"
    using le unfolding append_rows_def Let_def append_rows_pointers [OF okA okC, unfolded Let_def] prod.case jx rs'
    by simp
  moreover have rsA: "rs ! i = row_start A ! i" if "i \<le> ?M" for i
    using that okC by (cases "i = ?M") (auto simp: rs_def compressed_ok_def simp del: upt_Suc)
  moreover have rsC: "rs ! (?M + i) = ?z + row_start C ! i" if "i \<le> ?R" for i
    using that by (auto simp: rs_def simp del: upt_Suc)
  moreover have "row_entries ?B i = row_entries A i" if "i < ?M" for i
    using that rsA starts_mono [OF okA, of "Suc i" ?M] by (auto simp: row_entries_def j'_def x'_def)
  moreover have "row_entries ?B (?M + i) = row_entries C i" if "i < ?R" for i
    using that rsC [of i] rsC [of "Suc i"] starts_mono [OF okC, of "Suc i" ?R]
    by (auto simp: row_entries_def j'_def x'_def intro!: nth_equalityI)
  moreover have "csr_wf ?B"
  proof -
    have "rs ! i \<le> rs ! k" if "i \<le> k" "k \<le> ?M + ?R" for i k
      using that starts_mono [OF okA] starts_mono [OF okC]
      by (auto simp: rs_def intro: trans_le_add1 simp del: upt_Suc)
    moreover have "j' ! p < csr_n A" if "p < ?z + ?zc" for p
    proof (cases "?z \<le> p")
      case True
      then have "csr_j C ! (p - ?z) < csr_n C" using that okC by (auto simp: compressed_ok_def)
      then show ?thesis using that True le by (simp add: j'_def)
    next
      case False
      then show ?thesis using that okA by (auto simp: j'_def compressed_ok_def)
    qed
    ultimately show ?thesis
      using rsA [of 0] rsC [of ?R] okA
      by (auto simp: csr_wf_def compressed_ok_def sorted_iff_nth_mono rs_def j'_def x'_def simp del: upt_Suc)
  qed
  ultimately show thesis by (intro that [of ?B]) auto
qed

section \<open>Properties\<close>

text \<open>
  C32. Appending the rows of C to A: when C has no more columns than A the call returns 0 and
  the result is well formed, holds the rows of A unchanged and then the rows of C; when C is
  wider it returns -1 and leaves A as it was.
\<close>

theorem append_rows_correct:
  fixes A C :: "'f::zero csr_matrix"
  assumes "csr_wf A" "csr_wf C"
  shows "(csr_n C \<le> csr_n A \<longrightarrow> (\<exists>B. append_rows C A = (0, B) \<and> csr_wf B \<and> csr_m B = csr_m A + csr_m C \<and>
            csr_n B = csr_n A \<and> (\<forall>i < csr_m A. row_entries B i = row_entries A i) \<and>
            (\<forall>i < csr_m C. row_entries B (csr_m A + i) = row_entries C i))) \<and>
         (csr_n A < csr_n C \<longrightarrow> append_rows C A = (-1, A))"
proof (intro conjI impI)
  assume "csr_n C \<le> csr_n A"
  from append_rows_spec [OF assms this] show "\<exists>B. append_rows C A = (0, B) \<and> csr_wf B \<and> csr_m B = csr_m A + csr_m C \<and>
            csr_n B = csr_n A \<and> (\<forall>i < csr_m A. row_entries B i = row_entries A i) \<and>
            (\<forall>i < csr_m C. row_entries B (csr_m A + i) = row_entries C i)" by metis
qed (simp add: append_rows_def Let_def)

theorem append_rows_correct_witness:
  "let A = \<lparr>csr_nz_max = 2, csr_m = 1, csr_n = 3, row_start = [0, 2], csr_j = [2, 0], csr_x = [4, 5]\<rparr>;
       C = \<lparr>csr_nz_max = 1, csr_m = 1, csr_n = 2, row_start = [0, 1], csr_j = [1], csr_x = [6::int]\<rparr>
   in csr_wf A \<and> csr_wf C \<and> (\<exists>B. append_rows C A = (0, B) \<and> row_entries B 1 = [(1, 6)]) \<and>
      append_rows A C = (-1, C)"
proof -
  let ?A = "\<lparr>csr_nz_max = 2, csr_m = 1, csr_n = 3, row_start = [0, 2], csr_j = [2, 0], csr_x = [4, 5::int]\<rparr>"
  let ?C = "\<lparr>csr_nz_max = 1, csr_m = 1, csr_n = 2, row_start = [0, 1], csr_j = [1], csr_x = [6::int]\<rparr>"
  have wf: "csr_wf ?A" "csr_wf ?C" by code_simp+
  have "row_entries ?C 0 = [(1, 6)]" by code_simp
  then show ?thesis
    using append_rows_correct [OF wf] append_rows_correct [OF wf(2,1)] wf by (auto simp: Let_def)
qed

text \<open>
  C33. Deleting one row or one column in place: after \<open>remove_row\<close> (and the caller's
  decrement of the row count) the element (r, j) is that of the matrix with the row left out;
  after \<open>remove_column\<close> (and the caller's decrement of the column count) the columns are
  the other columns in order, with all entries; both results are well formed.
\<close>

theorem remove_in_place_correct:
  fixes A :: "'f::comm_monoid_add csc_matrix"
  assumes "csc_wf A" "row < csc_m A" "col < csc_n A"
  shows "csc_wf ((remove_row row A)\<lparr>csc_m := csc_m A - 1\<rparr>) \<and>
         (\<forall>r j. r < csc_m A - 1 \<and> j < csc_n A \<longrightarrow>
            csc_elem (remove_row row A) r j = csc_elem A (if r < row then r else r + 1) j) \<and>
         csc_wf ((remove_column col A)\<lparr>csc_n := csc_n A - 1, col_start := take (csc_n A) (col_start (remove_column col A))\<rparr>) \<and>
         (\<forall>k < csc_n A - 1. col_entries (remove_column col A) k = col_entries A (if k < col then k else k + 1))"
proof -
  note rr = remove_row_spec [OF assms(1,2)] and rc = remove_column_spec [OF assms(1,3)]
  have "csc_elem (remove_row row A) r j = csc_elem A (if r < row then r else r + 1) j" if "j < csc_n A" for r j
    using that by (simp add: csc_elem_def rr(4) entry_sum_drop_row)
  moreover have "col_entries (remove_column col A) k = col_entries A (if k < col then k else k + 1)"
    if k: "k < csc_n A - 1" for k
  proof -
    have "k < csc_n A" "Suc k < csc_n A" using k by auto
    then have "col_entries ((remove_column col A)\<lparr>csc_n := csc_n A - 1,
         col_start := take (csc_n A) (col_start (remove_column col A))\<rparr>) k = col_entries (remove_column col A) k"
      by (simp add: col_entries_def)
    then show ?thesis using rc(4) [of k] k by (simp add: other_col_def)
  qed
  ultimately show ?thesis using rr(1) rc(1) by blast
qed

theorem remove_in_place_correct_witness:
  "let A = \<lparr>csc_m = 3, csc_n = 2, csc_nz_max = 3, col_start = [0, 2, 3], csc_i = [2, 0, 2], csc_x = [5, 1, 7]\<rparr>
   in csc_wf A \<and> csc_elem (remove_row 1 A) 1 0 = (5::int) \<and> col_entries (remove_column 0 A) 0 = [(2, 7)]"
proof -
  let ?A = "\<lparr>csc_m = 3, csc_n = 2, csc_nz_max = 3, col_start = [0, 2, 3], csc_i = [2, 0, 2], csc_x = [5, 1, 7::int]\<rparr>"
  have wf: "csc_wf ?A" by code_simp
  have e: "csc_elem ?A 2 0 = 5" "col_entries ?A 1 = [(2, 7)]" by code_simp+
  have "csc_elem (remove_row 1 ?A) 1 0 = csc_elem ?A 2 0" "col_entries (remove_column 0 ?A) 0 = col_entries ?A 1"
    using remove_in_place_correct [OF wf, of 1 0] by (auto simp: numeral_2_eq_2)
  then show ?thesis using wf e by (simp add: Let_def)
qed

text \<open>
  C34. Deleting marked columns (\<open>remove_columns\<close>) and marked rows (\<open>remove_rows\<close>):
  the results are well formed and consist of exactly the unmarked columns, respectively rows,
  in their order and with their entries.
\<close>

theorem remove_marked_correct:
  fixes A :: "'f::zero csc_matrix" and R Aout :: "'f csr_matrix"
  assumes "csc_wf A" "csr_wf R"
  shows "csc_wf (remove_columns cflags A) \<and> csc_m (remove_columns cflags A) = csc_m A \<and>
         map (col_entries (remove_columns cflags A)) [0..<csc_n (remove_columns cflags A)]
           = map (col_entries A) (filter (\<lambda>j. cflags ! j = 0) [0..<csc_n A]) \<and>
         csr_wf (remove_rows marker R Aout) \<and> csr_n (remove_rows marker R Aout) = csr_n R \<and>
         map (row_entries (remove_rows marker R Aout)) [0..<csr_m (remove_rows marker R Aout)]
           = map (row_entries R) (filter (\<lambda>i. marker ! i = 0) [0..<csr_m R])"
  using remove_columns_spec [OF assms(1), where flags = cflags] remove_rows_spec [OF assms(2), where marker = marker and Aout = Aout]
  by (auto simp: kept_def intro!: nth_equalityI)

theorem remove_marked_correct_witness:
  "let A = \<lparr>csc_m = 3, csc_n = 2, csc_nz_max = 3, col_start = [0, 2, 3], csc_i = [2, 0, 2], csc_x = [5, 1, 7]\<rparr>;
       R = to_compressed_row A (csr_matrix_t 0 0 0)
   in map (col_entries (remove_columns [1, 0] A)) [0..<csc_n (remove_columns [1, 0] A)] = [[(2, 7::int)]] \<and>
      csr_wf (remove_rows [0, 1, 0] R (csr_matrix_t 0 0 0))"
proof -
  let ?A = "\<lparr>csc_m = 3, csc_n = 2, csc_nz_max = 3, col_start = [0, 2, 3], csc_i = [2, 0, 2], csc_x = [5, 1, 7::int]\<rparr>"
  have wf: "csc_wf ?A" "csr_wf (to_compressed_row ?A (csr_matrix_t 0 0 0))" by code_simp+
  have "map (col_entries ?A) (filter (\<lambda>j. [1, 0::int] ! j = 0) [0..<csc_n ?A]) = [[(2, 7)]]" by code_simp
  then show ?thesis
    using remove_marked_correct [OF wf, of "[1, 0]" "[0, 1, 0]" "csr_matrix_t 0 0 0"] by (simp add: Let_def)
qed

text \<open>
  Permuting: with \<open>pinv\<close> injective on the rows, row r of A becomes row pinv(r) of
  \<open>permute_rows\<close>, and with a column order q element (pinv(r), k) of
  \<open>permute_rows_and_cols\<close> is element (r, q(k)) of A; both results are well formed.
\<close>

theorem permute_correct:
  fixes A C :: "'f::comm_monoid_add csc_matrix"
  assumes "csc_wf A" "\<forall>r < csc_m A. pinv ! r < csc_m A" "inj_on (nth pinv) {..<csc_m A}"
    and "distinct q" "length q = csc_n A" "\<forall>k < csc_n A. q ! k < csc_n A"
    and "csc_m C = csc_m A" "csc_n C = csc_n A" "length (col_start C) = csc_n A + 1"
  shows "csc_wf (permute_rows pinv A C) \<and> csc_wf (permute_rows_and_cols pinv q A C) \<and>
         (\<forall>r k. r < csc_m A \<and> k < csc_n A \<longrightarrow>
            csc_elem (permute_rows pinv A C) (pinv ! r) k = csc_elem A r k \<and>
            csc_elem (permute_rows_and_cols pinv q A C) (pinv ! r) k = csc_elem A r (q ! k))"
proof -
  note pr = permute_rows_spec [OF assms(1,2,7-9)]
  have "set q \<subseteq> {..<csc_n A}" using assms(5,6) by (auto simp: in_set_conv_nth)
  moreover have "card (set q) = csc_n A" using assms(4,5) by (simp add: distinct_card)
  ultimately have "set q = {..<csc_n A}" by (intro card_subset_eq) auto
  note pc = permute_rows_and_cols_spec [OF assms(1,2,5) this assms(7-9)]
  have inj: "inj_on (nth pinv) (insert r (fst ` set (col_entries A j)))" if "r < csc_m A" "j < csc_n A" for r j
    using csc_wf_col_bound [OF assms(1) that(2)] that(1) by (intro inj_on_subset [OF assms(3)]) auto
  note ren = entry_sum_renumber [OF inj]
  show ?thesis
    using pr(1) pc(1) assms(6) by (simp add: csc_elem_def pr(5) pc(5) ren)
qed

theorem permute_correct_witness:
  "let A = \<lparr>csc_m = 3, csc_n = 2, csc_nz_max = 3, col_start = [0, 2, 3], csc_i = [2, 0, 2], csc_x = [5, 1, 7]\<rparr>
   in csc_elem (permute_rows [1, 2, 0] A (csc_matrix_t 3 2 0)) 0 1 = (7::int) \<and>
      csc_elem (permute_rows_and_cols [1, 2, 0] [1, 0] A (csc_matrix_t 3 2 0)) 0 1 = 5"
proof -
  let ?A = "\<lparr>csc_m = 3, csc_n = 2, csc_nz_max = 3, col_start = [0, 2, 3], csc_i = [2, 0, 2], csc_x = [5, 1, 7::int]\<rparr>"
  have wf: "csc_wf ?A" by code_simp
  have p: "\<forall>r < csc_m ?A. [1, 2, 0] ! r < csc_m ?A" "\<forall>k < csc_n ?A. [1, 0] ! k < csc_n ?A" by code_simp+
  have "distinct (map (nth [1, 2, 0::nat]) [0..<3])" by code_simp
  then have inj: "inj_on (nth [1, 2, 0::nat]) {..<csc_m ?A}"
    by (simp add: distinct_map atLeast0LessThan del: upt_Suc)
  have e: "csc_elem ?A 2 1 = 7" "csc_elem ?A 2 0 = 5" by code_simp+
  show ?thesis
    using permute_correct [OF wf p(1) inj _ _ p(2), of "csc_matrix_t 3 2 0"] e
    by (auto simp: Let_def csc_matrix_t_def dest: spec [of _ 2])
qed

end
