(* ===== verification/Sparse_Arith.thy ===== *)
theory Sparse_Arith
  imports Sparse_Matrix_Edit
begin

text \<open>
  The arithmetic of \<open>cpp/src/linear_algebra/sparse_matrix.cpp\<close> and
  \<open>sparse_matrix.hpp\<close>: matrix-vector products, the scatter kernels, and the sparse
  sum and product of two matrices with their growing destination. Coefficients are of a type
  with the operations the code uses; the correctness theorems take them in a commutative
  ring, that is with exact arithmetic instead of floating-point rounding.
\<close>

section \<open>Operations\<close>

text \<open>\<open>y <- beta * y\<close>, skipped when beta is one.\<close>

definition scale_vector :: "'f::{one,times} \<Rightarrow> nat \<Rightarrow> 'f list \<Rightarrow> 'f list" where
  "scale_vector beta k y = (if beta \<noteq> 1 then for_range 0 k (\<lambda>i y. y[i := y ! i * beta]) y else y)"

definition matrix_transpose_vector_multiply ::
    "'f::{zero,one,plus,times} csc_matrix \<Rightarrow> 'f \<Rightarrow> 'f list \<Rightarrow> 'f \<Rightarrow> 'f list \<Rightarrow> 'f list" where
  "matrix_transpose_vector_multiply A alpha x beta y =
     (let n = csc_n A;
          y = scale_vector beta n y
      in for_range 0 n
           (\<lambda>j y. let dot = for_range (col_start A ! j) (col_start A ! (j + 1))
                              (\<lambda>p dot. dot + csc_x A ! p * x ! (csc_i A ! p)) 0
                  in y[j := y ! j + alpha * dot]) y)"

definition matrix_vector_multiply_csc ::
    "'f::{one,plus,times} csc_matrix \<Rightarrow> 'f \<Rightarrow> 'f list \<Rightarrow> 'f \<Rightarrow> 'f list \<Rightarrow> 'f list" where
  "matrix_vector_multiply_csc A alpha x beta y =
     (let m = csc_m A;
          n = csc_n A;
          y = scale_vector beta m y
      in for_range 0 n
           (\<lambda>j. for_range (col_start A ! j) (col_start A ! (j + 1))
                  (\<lambda>p y. let i = csc_i A ! p in y[i := y ! i + alpha * csc_x A ! p * x ! j])) y)"

definition matrix_vector_multiply_csr ::
    "'f::{zero,one,plus,times} csr_matrix \<Rightarrow> 'f \<Rightarrow> 'f list \<Rightarrow> 'f \<Rightarrow> 'f list \<Rightarrow> 'f list" where
  "matrix_vector_multiply_csr A alpha x beta y =
     (let m = csr_m A;
          y = scale_vector beta m y
      in for_range 0 m
           (\<lambda>i y. let dot = for_range (row_start A ! i) (row_start A ! (i + 1))
                              (\<lambda>p dot. dot + csr_x A ! p * x ! (csr_j A ! p)) 0
                  in y[i := y ! i + alpha * dot]) y)"

text \<open>\<open>x <- x + alpha * A(:, j)\<close>, without and with the record of the new indices.\<close>

definition scatter_dense :: "'f::{plus,times} csc_matrix \<Rightarrow> nat \<Rightarrow> 'f \<Rightarrow> 'f list \<Rightarrow> 'f list" where
  "scatter_dense A j alpha x =
     for_range (col_start A ! j) (col_start A ! (j + 1))
       (\<lambda>p x. let i = csc_i A ! p; ax = csc_x A ! p in x[i := x ! i + alpha * ax]) x"

definition scatter_dense_marked ::
    "'f::{plus,times} csc_matrix \<Rightarrow> nat \<Rightarrow> 'f \<Rightarrow> 'f list \<times> nat list \<times> nat list
      \<Rightarrow> 'f list \<times> nat list \<times> nat list" where
  "scatter_dense_marked A j alpha =
     for_range (col_start A ! j) (col_start A ! (j + 1))
       (\<lambda>p (x, mark, indices).
          let i = csc_i A ! p;
              ax = csc_x A ! p;
              x = x[i := x ! i + alpha * ax]
          in if mark ! i = 0 then (x, mark[i := 1], indices @ [i]) else (x, mark, indices))"

text \<open>
  One column into the workspace of the column being built. The destination matrix receives
  the pattern; the values stay in the dense vector \<open>x\<close>.
\<close>

type_synonym 'f scatter_state = "nat list \<times> 'f list \<times> 'f csc_matrix \<times> nat"

definition scatter ::
    "'f::{plus,times} csc_matrix \<Rightarrow> nat \<Rightarrow> 'f \<Rightarrow> nat \<Rightarrow> 'f scatter_state \<Rightarrow> 'f scatter_state" where
  "scatter A j beta mark =
     for_range (col_start A ! j) (col_start A ! (j + 1))
       (\<lambda>p (workspace, x, C, nz).
          let i = csc_i A ! p
          in if workspace ! i < mark
             then (workspace[i := mark], x[i := beta * csc_x A ! p], C\<lparr>csc_i := (csc_i C)[nz := i]\<rparr>, nz + 1)
             else (workspace, x[i := x ! i + beta * csc_x A ! p], C, nz))"

definition multiply ::
    "'f::{zero,plus,times} csc_matrix \<Rightarrow> 'f csc_matrix \<Rightarrow> 'f csc_matrix \<Rightarrow> 'f csc_matrix" where
  "multiply A B C =
     (let m = csc_m A;
          n = csc_n B;
          C = reallocate (csc_nz_max A + csc_nz_max B) C;
          (workspace, x, C, nz) =
            for_range 0 n
              (\<lambda>j (workspace, x, C, nz).
                 let C = (if nz + m > csc_nz_max C then reallocate (2 * csc_nz_max C + m) C else C);
                     C = C\<lparr>col_start := (col_start C)[j := nz]\<rparr>;
                     (workspace, x, C, nz) =
                       for_range (col_start B ! j) (col_start B ! (j + 1))
                         (\<lambda>p. scatter A (csc_i B ! p) (csc_x B ! p) (j + 1)) (workspace, x, C, nz);
                     C = C\<lparr>csc_x := for_range (col_start C ! j) nz (\<lambda>p cx. cx[p := x ! (csc_i C ! p)]) (csc_x C)\<rparr>
                 in (workspace, x, C, nz))
              (replicate m 0, replicate m 0, C, 0);
          C = C\<lparr>col_start := (col_start C)[n := nz]\<rparr>
      in reallocate nz C)"

definition add ::
    "'f::{zero,plus,times} csc_matrix \<Rightarrow> 'f csc_matrix \<Rightarrow> 'f \<Rightarrow> 'f \<Rightarrow> 'f csc_matrix \<Rightarrow> 'f csc_matrix" where
  "add A B alpha beta C =
     (let m = csc_m A;
          n = csc_n B;
          Anz = col_start A ! n;
          Bnz = col_start B ! n;
          C = reallocate (Anz + Bnz) C;
          (workspace, x, C, nz) =
            for_range 0 n
              (\<lambda>j (workspace, x, C, nz).
                 let C = C\<lparr>col_start := (col_start C)[j := nz]\<rparr>;
                     (workspace, x, C, nz) = scatter A j alpha (j + 1) (workspace, x, C, nz);
                     (workspace, x, C, nz) = scatter B j beta (j + 1) (workspace, x, C, nz);
                     C = C\<lparr>csc_x := for_range (col_start C ! j) nz (\<lambda>p cx. cx[p := x ! (csc_i C ! p)]) (csc_x C)\<rparr>
                 in (workspace, x, C, nz))
              (replicate m 0, replicate m 0, C, 0);
          C = C\<lparr>col_start := (col_start C)[n := nz]\<rparr>
      in reallocate nz C)"

text \<open>\<open>norm1\<close>: the largest column sum of absolute values.\<close>

definition norm1 :: "'f::{zero,plus,abs,ord} csc_matrix \<Rightarrow> 'f" where
  "norm1 A =
     for_range 0 (csc_n A)
       (\<lambda>j norm. let sum = for_range (col_start A ! j) (col_start A ! (j + 1)) (\<lambda>p sum. sum + \<bar>csc_x A ! p\<bar>) 0
                 in max sum norm) 0"

fun csc_diagonal_from :: "'f csc_matrix \<Rightarrow> nat list \<Rightarrow> bool" where
  "csc_diagonal_from A [] = True"
| "csc_diagonal_from A (j # js) =
     (if \<exists>p \<in> set [col_start A ! j..<col_start A ! (j + 1)]. csc_i A ! p \<noteq> j then False
      else csc_diagonal_from A js)"

definition csc_is_diagonal :: "'f csc_matrix \<Rightarrow> bool" where
  "csc_is_diagonal A = csc_diagonal_from A [0..<csc_n A]"

text \<open>
  The consistency check of a CSR matrix. Its input is the raw index vector, whose entries
  may be negative; the result is -1 at the first fault, 0 otherwise.
\<close>

fun check_row :: "int \<Rightarrow> int list \<Rightarrow> nat \<Rightarrow> nat list \<Rightarrow> int list \<Rightarrow> int list option" where
  "check_row n j i [] col_marker = Some col_marker"
| "check_row n j i (p # ps) col_marker =
     (let jp = j ! p
      in if jp < 0 \<or> jp \<ge> n then None
         else if col_marker ! nat jp = int i then None
         else check_row n j i ps (col_marker[nat jp := int i]))"

fun check_rows :: "int \<Rightarrow> nat list \<Rightarrow> int list \<Rightarrow> nat list \<Rightarrow> int list \<Rightarrow> int" where
  "check_rows n rs j [] col_marker = 0"
| "check_rows n rs j (i # is) col_marker =
     (case check_row n j i [rs ! i..<rs ! (i + 1)] col_marker of
        None \<Rightarrow> -1
      | Some col_marker \<Rightarrow> check_rows n rs j is col_marker)"

definition csr_check_matrix :: "nat \<Rightarrow> nat \<Rightarrow> nat list \<Rightarrow> int list \<Rightarrow> int" where
  "csr_check_matrix m n rs j = check_rows (int n) rs j [0..<m] (replicate n (-1))"

section \<open>Accumulation\<close>

lemma fold_plus: "fold (\<lambda>x a. a + f x) xs a = a + sum_list (map f xs)" for a :: "'f::comm_monoid_add"
  by (induction xs arbitrary: a) (auto simp: add.assoc)

text \<open>\<open>y[i] += v\<close> over a list of updates.\<close>

definition vadd :: "nat \<times> 'f::plus \<Rightarrow> 'f list \<Rightarrow> 'f list" where
  "vadd e y = y[fst e := y ! fst e + snd e]"

lemma length_fold_vadd [simp]: "length (fold vadd es y) = length y"
  by (induction es arbitrary: y) (auto simp: vadd_def)

lemma nth_fold_vadd:
  "r < length y \<Longrightarrow> fold vadd es y ! r = y ! r + entry_sum r es" for y :: "'f::comm_monoid_add list"
proof (induction es arbitrary: y)
  case (Cons e es)
  then show ?case by (cases "fst e = r") (auto simp: vadd_def add.assoc)
qed simp

lemma entry_sum_scale:
  "entry_sum r (map (\<lambda>e. (fst e, c * snd e)) es) = c * entry_sum r es" for c :: "'f::comm_ring_1"
  by (induction es) (auto simp: distrib_left)

lemma entry_sum_none: "r \<notin> fst ` set es \<Longrightarrow> entry_sum r es = 0"
  by (induction es) auto

text \<open>A sum over stored entries is the sum over indices of the elements.\<close>

lemma sum_entries:
  fixes f :: "nat \<Rightarrow> 'f::comm_ring_1"
  assumes "\<forall>e \<in> set es. fst e < m"
  shows "sum_list (map (\<lambda>e. snd e * f (fst e)) es) = (\<Sum>i<m. entry_sum i es * f i)"
  using assms
proof (induction es)
  case (Cons e es)
  have "(\<Sum>i<m. (if fst e = i then snd e else 0) * f i) = (\<Sum>i<m. if i = fst e then snd e * f (fst e) else 0)"
    by (rule sum.cong) auto
  then have "(\<Sum>i<m. (if fst e = i then snd e else 0) * f i) = snd e * f (fst e)"
    using Cons.prems by (simp add: sum.delta)
  then show ?case using Cons by (simp add: sum.distrib distrib_right)
qed simp

lemma scale_vector_eq:
  "length y = k \<Longrightarrow> scale_vector beta k y = map (\<lambda>v. v * beta) y" for y :: "'f::monoid_mult list"
proof -
  assume len: "length y = k"
  define P where "P j v = (length v = k \<and> (\<forall>i<k. v ! i = (if i < j then y ! i * beta else y ! i)))" for j v
  have "P k (for_range 0 k (\<lambda>i y. y[i := y ! i * beta]) y)"
    by (rule for_range_invariant) (use len in \<open>auto simp: P_def nth_list_update less_Suc_eq\<close>)
  then show ?thesis using len by (auto simp: scale_vector_def P_def intro!: nth_equalityI)
qed

section \<open>Matrix-vector products\<close>

lemma accumulate_rows:
  fixes f :: "nat \<Rightarrow> 'f::comm_monoid_add"
  assumes "k \<le> length y"
  shows "for_range 0 k (\<lambda>i y. y[i := y ! i + f i]) y
         = map (\<lambda>i. if i < k then y ! i + f i else y ! i) [0..<length y]"
proof -
  define P where "P j v = (v = map (\<lambda>i. if i < j then y ! i + f i else y ! i) [0..<length y])" for j v
  have "P k (for_range 0 k (\<lambda>i y. y[i := y ! i + f i]) y)"
    by (rule for_range_invariant)
      (use assms in \<open>auto simp: P_def nth_list_update less_Suc_eq intro!: nth_equalityI\<close>)
  then show ?thesis by (simp add: P_def)
qed

lemma mtv_nth:
  fixes A :: "'f::comm_ring_1 csc_matrix"
  assumes wf: "csc_wf A" and y: "length y = csc_n A" and j: "j < csc_n A"
  shows "matrix_transpose_vector_multiply A alpha x beta y ! j
         = alpha * (\<Sum>i<csc_m A. csc_elem A i j * x ! i) + beta * y ! j"
proof -
  have dot: "for_range (col_start A ! j) (col_start A ! (j + 1)) (\<lambda>p dot. dot + csc_x A ! p * x ! (csc_i A ! p)) 0
      = sum_list (map (\<lambda>e. snd e * x ! fst e) (col_entries A j))" for j
    by (simp add: col_entries_def fold_plus comp_def)
  have "\<forall>e \<in> set (col_entries A j). fst e < csc_m A" using csc_wf_col_bound [OF wf j] by blast
  note s = sum_entries [OF this, of "nth x"]
  show ?thesis
    unfolding matrix_transpose_vector_multiply_def Let_def scale_vector_eq [OF y] dot
    using y j by (simp add: accumulate_rows s csc_elem_def mult.commute add.commute)
qed

lemma length_mtv: "length y = csc_n A \<Longrightarrow> length (matrix_transpose_vector_multiply A alpha x beta y) = csc_n A"
  for A :: "'f::comm_ring_1 csc_matrix"
  by (simp add: matrix_transpose_vector_multiply_def Let_def scale_vector_eq accumulate_rows)

lemma mvr_nth:
  fixes A :: "'f::comm_ring_1 csr_matrix"
  assumes wf: "csr_wf A" and y: "length y = csr_m A" and i: "i < csr_m A"
  shows "matrix_vector_multiply_csr A alpha x beta y ! i
         = alpha * (\<Sum>j<csr_n A. csr_elem A i j * x ! j) + beta * y ! i"
proof -
  have dot: "for_range (row_start A ! i) (row_start A ! (i + 1)) (\<lambda>p dot. dot + csr_x A ! p * x ! (csr_j A ! p)) 0
      = sum_list (map (\<lambda>e. snd e * x ! fst e) (row_entries A i))" for i
    by (simp add: row_entries_def fold_plus comp_def)
  have "\<forall>e \<in> set (row_entries A i). fst e < csr_n A" using csr_wf_row_bound [OF wf i] by blast
  note s = sum_entries [OF this, of "nth x"]
  show ?thesis
    unfolding matrix_vector_multiply_csr_def Let_def scale_vector_eq [OF y] dot
    using y i by (simp add: accumulate_rows s csr_elem_def mult.commute add.commute)
qed

lemma length_mvr: "length y = csr_m A \<Longrightarrow> length (matrix_vector_multiply_csr A alpha x beta y) = csr_m A"
  for A :: "'f::comm_ring_1 csr_matrix"
  by (simp add: matrix_vector_multiply_csr_def Let_def scale_vector_eq accumulate_rows)

lemma mv_eq:
  fixes A :: "'f::comm_ring_1 csc_matrix"
  assumes "length y = csc_m A"
  shows "matrix_vector_multiply_csc A alpha x beta y
         = fold vadd (concat (map (\<lambda>j. map (\<lambda>e. (fst e, alpha * x ! j * snd e)) (col_entries A j)) [0..<csc_n A]))
             (map (\<lambda>v. v * beta) y)"
proof -
  have "for_range (col_start A ! j) (col_start A ! (j + 1))
        (\<lambda>p y. let i = csc_i A ! p in y[i := y ! i + alpha * csc_x A ! p * x ! j])
      = fold vadd (map (\<lambda>e. (fst e, alpha * x ! j * snd e)) (col_entries A j))" for j
    by (simp add: col_entries_def Let_def fold_map comp_def vadd_def [abs_def] ac_simps)
  then show ?thesis
    unfolding matrix_vector_multiply_csc_def Let_def scale_vector_eq [OF assms]
    by (simp add: fold_concat fold_map comp_def Let_def)
qed

lemma mv_nth:
  fixes A :: "'f::comm_ring_1 csc_matrix"
  assumes y: "length y = csc_m A" and i: "i < csc_m A"
  shows "matrix_vector_multiply_csc A alpha x beta y ! i
         = alpha * (\<Sum>j<csc_n A. csc_elem A i j * x ! j) + beta * y ! i"
proof -
  have "matrix_vector_multiply_csc A alpha x beta y ! i
      = y ! i * beta + (\<Sum>j<csc_n A. alpha * x ! j * entry_sum i (col_entries A j))"
    using assms by (simp add: mv_eq nth_fold_vadd entry_sum_concat comp_def entry_sum_scale sum_list_map_upt)
  then show ?thesis by (simp add: csc_elem_def sum_distrib_left ac_simps)
qed

lemma length_mv: "length y = csc_m A \<Longrightarrow> length (matrix_vector_multiply_csc A alpha x beta y) = csc_m A"
  for A :: "'f::comm_ring_1 csc_matrix"
  by (simp add: mv_eq)

lemma scatter_dense_eq:
  "scatter_dense A j alpha x = fold vadd (map (\<lambda>e. (fst e, alpha * snd e)) (col_entries A j)) x"
  by (simp add: scatter_dense_def col_entries_def Let_def fold_map comp_def vadd_def [abs_def])

section \<open>Building a column by scattering\<close>

text \<open>The distinct keys of a list in the order in which they first occur.\<close>

definition firsts :: "'a list \<Rightarrow> 'a list" where
  "firsts xs = rev (remdups (rev xs))"

lemma firsts_Nil [simp]: "firsts [] = []"
  by (simp add: firsts_def)

lemma firsts_snoc [simp]: "firsts (xs @ [x]) = (if x \<in> set xs then firsts xs else firsts xs @ [x])"
  by (simp add: firsts_def)

lemma set_firsts [simp]: "set (firsts xs) = set xs"
  by (simp add: firsts_def)

lemma distinct_firsts [simp]: "distinct (firsts xs)"
  by (simp add: firsts_def)

lemma length_firsts: "\<forall>x \<in> set xs. x < m \<Longrightarrow> length (firsts xs) \<le> m"
proof -
  assume "\<forall>x \<in> set xs. x < m"
  then have "set (firsts xs) \<subseteq> {..<m}" by auto
  then have "card (set (firsts xs)) \<le> card {..<m}" by (intro card_mono) auto
  then show ?thesis unfolding distinct_card [OF distinct_firsts] by simp
qed

text \<open>A list of entries with equal indices combined, at the place of the first.\<close>

definition combine :: "(nat \<times> 'f::comm_monoid_add) list \<Rightarrow> (nat \<times> 'f) list" where
  "combine es = map (\<lambda>i. (i, entry_sum i es)) (firsts (map fst es))"

lemma combine_fst: "map fst (combine es) = firsts (map fst es)"
  by (simp add: combine_def comp_def)

lemma entry_sum_combine: "entry_sum r (combine es) = entry_sum r es"
proof -
  have *: "entry_sum r (map (\<lambda>i. (i, f i)) ks) = (if r \<in> set ks then f r else 0)"
    if "distinct ks" for ks :: "nat list" and f :: "nat \<Rightarrow> 'a"
    using that by (induction ks) auto
  show ?thesis unfolding combine_def by (subst *) (auto simp: entry_sum_none)
qed

definition scatter_step :: "nat \<Rightarrow> nat \<times> 'f::plus \<Rightarrow> 'f scatter_state \<Rightarrow> 'f scatter_state" where
  "scatter_step mark e = (\<lambda>(workspace, x, C, nz).
     if workspace ! fst e < mark
     then (workspace[fst e := mark], x[fst e := snd e], C\<lparr>csc_i := (csc_i C)[nz := fst e]\<rparr>, nz + 1)
     else (workspace, x[fst e := x ! fst e + snd e], C, nz))"

lemma scatter_eq:
  "scatter A j beta mark = fold (scatter_step mark) (map (\<lambda>e. (fst e, beta * snd e)) (col_entries A j))"
  by (simp add: scatter_def col_entries_def fold_map comp_def scatter_step_def [abs_def] Let_def cong: if_cong)

definition scattered ::
    "nat \<Rightarrow> nat \<Rightarrow> 'f::comm_monoid_add csc_matrix \<Rightarrow> nat \<Rightarrow> (nat \<times> 'f) list \<Rightarrow> 'f scatter_state \<Rightarrow> bool" where
  "scattered m mark C0 nz0 ys = (\<lambda>(workspace, x, C, nz).
     length workspace = m \<and> length x = m
     \<and> (\<forall>i<m. if i \<in> fst ` set ys then workspace ! i = mark \<and> x ! i = entry_sum i ys else workspace ! i < mark)
     \<and> nz = nz0 + length (firsts (map fst ys))
     \<and> take nz (csc_i C) = take nz0 (csc_i C0) @ firsts (map fst ys)
     \<and> C = C0\<lparr>csc_i := csc_i C\<rparr> \<and> length (csc_i C) = length (csc_i C0))"

lemma scattered_step:
  assumes s: "scattered m mark C0 nz0 ys st" and e: "fst e < m"
    and room: "nz0 + length (firsts (map fst (ys @ [e]))) \<le> length (csc_i C0)"
  shows "scattered m mark C0 nz0 (ys @ [e]) (scatter_step mark e st)"
proof -
  obtain ws x C nz where st: "st = (ws, x, C, nz)" by (rule prod_cases4)
  obtain i v where ei: "e = (i, v)" by (rule prod.exhaust)
  have "C = C0\<lparr>csc_i := csc_i C\<rparr>" using s by (simp add: st scattered_def)
  then obtain ci where C: "C = C0\<lparr>csc_i := ci\<rparr>" by blast
  note s' = s [unfolded st C scattered_def prod.case]
  show ?thesis
  proof (cases "i \<in> fst ` set ys")
    case True
    then have "ws ! i = mark" "x ! i = entry_sum i ys" using s' e ei by auto
    then show ?thesis using s' True e
      by (auto simp: st C ei scattered_def scatter_step_def nth_list_update entry_sum_none)
  next
    case False
    then have "ws ! i < mark" using s' e ei by auto
    moreover have "nz < length ci" using s' room False by (auto simp: ei)
    then have "take (Suc nz) (ci[nz := i]) = take nz ci @ [i]"
      by (simp add: take_Suc_conv_app_nth)
    ultimately show ?thesis using s' False e
      by (auto simp: st C ei scattered_def scatter_step_def nth_list_update entry_sum_none)
  qed
qed

lemma scattered_all:
  assumes "scattered m mark C0 nz0 [] st" and keys: "\<forall>e \<in> set es. fst e < m"
    and room: "nz0 + length (firsts (map fst es)) \<le> length (csc_i C0)"
  shows "scattered m mark C0 nz0 es (fold (scatter_step mark) es st)"
proof (rule fold_invariant_prefix [where P = "scattered m mark C0 nz0"])
  fix ys e zs st assume es: "es = ys @ e # zs" and s: "scattered m mark C0 nz0 ys st"
  have "length (firsts (map fst (ys @ [e]))) \<le> length (firsts (map fst es))"
    unfolding distinct_card [OF distinct_firsts, symmetric] set_firsts by (intro card_mono) (auto simp: es)
  then show "scattered m mark C0 nz0 (ys @ [e]) (scatter_step mark e st)"
    using room keys es by (intro scattered_step [OF s]) auto
qed (rule assms(1))

text \<open>Copying the dense values into the column just built.\<close>

lemma copy_values:
  assumes "q \<le> nz" "nz \<le> length ax" "nz \<le> length ai"
  shows "take nz (for_range q nz (\<lambda>p cx. cx[p := x ! (ai ! p)]) ax)
         = take q ax @ map (nth x) (drop q (take nz ai))"
  using assms by (subst fill_range) (auto intro!: nth_equalityI simp: nth_append)

text \<open>The columns written so far.\<close>

definition built :: "nat \<Rightarrow> nat \<Rightarrow> (nat \<Rightarrow> (nat \<times> 'f) list) \<Rightarrow> 'f csc_matrix \<Rightarrow> nat \<Rightarrow> 'f scatter_state \<Rightarrow> bool" where
  "built m n cols C0 j = (\<lambda>(workspace, x, C, nz).
     length workspace = m \<and> length x = m \<and> (\<forall>i<m. workspace ! i \<le> j)
     \<and> csc_m C = csc_m C0 \<and> csc_n C = csc_n C0 \<and> length (col_start C) = n + 1
     \<and> length (csc_i C) = csc_nz_max C \<and> length (csc_x C) = csc_nz_max C \<and> nz \<le> csc_nz_max C
     \<and> nz = length (concat (map cols [0..<j]))
     \<and> (\<forall>k<j. col_start C ! k = length (concat (map cols [0..<k])))
     \<and> take nz (csc_i C) = map fst (concat (map cols [0..<j]))
     \<and> take nz (csc_x C) = map snd (concat (map cols [0..<j])))"

lemma built_step:
  fixes es :: "(nat \<times> 'f::comm_monoid_add) list"
  assumes b: "built m n cols C0 j (ws, x, C, nz)" and j: "j < n"
    and cols: "cols j = combine es" and keys: "\<forall>e \<in> set es. fst e < m"
    and room: "nz + length (combine es) \<le> csc_nz_max C"
    and run: "fold (scatter_step (j + 1)) es (ws, x, C\<lparr>col_start := (col_start C)[j := nz]\<rparr>, nz) = (ws', x', C', nz')"
  shows "built m n cols C0 (Suc j) (ws', x', C'\<lparr>csc_x := for_range (col_start C' ! j) nz'
           (\<lambda>p cx. cx[p := x' ! (csc_i C' ! p)]) (csc_x C')\<rparr>, nz')"
proof -
  let ?C = "C\<lparr>col_start := (col_start C)[j := nz]\<rparr>" and ?ks = "firsts (map fst es)"
  note b' = b [unfolded built_def prod.case]
  have lenc: "length (combine es) = length ?ks" by (simp add: combine_def)
  have "scattered m (j + 1) ?C nz [] (ws, x, ?C, nz)"
    using b' by (auto simp: scattered_def le_imp_less_Suc)
  then have s: "scattered m (j + 1) ?C nz es (ws', x', C', nz')"
    unfolding run [symmetric] using keys room b' lenc by (intro scattered_all) auto
  note s' = s [unfolded scattered_def prod.case]
  have C': "C' = ?C\<lparr>csc_i := csc_i C'\<rparr>" and len': "length (csc_i C') = length (csc_i C)"
    and nz': "nz' = nz + length ?ks" and ti: "take nz' (csc_i C') = take nz (csc_i C) @ ?ks" using s' by auto
  have f: "csc_m C' = csc_m C" "csc_n C' = csc_n C" "csc_nz_max C' = csc_nz_max C"
    "col_start C' = (col_start C)[j := nz]" "csc_x C' = csc_x C"
    by (subst C', simp)+
  have "map (nth x') ?ks = map snd (combine es)"
    using s' keys by (auto simp: combine_def)
  moreover have "drop nz (take nz' (csc_i C')) = ?ks" using ti b' by simp
  ultimately have tx: "take nz' (for_range (col_start C' ! j) nz' (\<lambda>p cx. cx[p := x' ! (csc_i C' ! p)]) (csc_x C'))
      = take nz (csc_x C) @ map snd (combine es)"
    using b' room lenc nz' j len' f by (simp add: copy_values)
  have lx: "length (for_range (col_start C' ! j) nz' (\<lambda>p cx. cx[p := x' ! (csc_i C' ! p)]) (csc_x C')) = csc_nz_max C"
    by (rule fold_invariant [where P = "\<lambda>v. length v = csc_nz_max C"]) (use b' f in simp_all)
  have workspace_le: "ws' ! i \<le> Suc j" if "i < m" for i
    using s' that by (cases "i \<in> fst ` set es") auto
  have all: "concat (map cols [0..<Suc j]) = concat (map cols [0..<j]) @ combine es" by (simp add: cols)
  have nzj: "nz = length (concat (map cols [0..<j]))" and
    tkj: "take nz (csc_i C) = map fst (concat (map cols [0..<j]))"
      "take nz (csc_x C) = map snd (concat (map cols [0..<j]))" using b' by blast+
  have starts: "(col_start C)[j := nz] ! k = length (concat (map cols [0..<k]))" if "k < Suc j" for k
    using that b' j nzj by (cases "k = j") (auto simp del: length_concat)
  have "take nz' (csc_i C') = map fst (concat (map cols [0..<Suc j]))"
    unfolding all ti tkj by (simp add: combine_fst)
  moreover have "take nz (csc_x C) @ map snd (combine es) = map snd (concat (map cols [0..<Suc j]))"
    unfolding all tkj by simp
  moreover have "nz' = length (concat (map cols [0..<Suc j]))"
    unfolding all nz' length_append lenc nzj ..
  moreover have "nz' \<le> csc_nz_max C" using room lenc nz' by simp
  moreover have "length ws' = m" "length x' = m" using s' by auto
  moreover have "csc_m C = csc_m C0" "csc_n C = csc_n C0" "length (col_start C) = n + 1"
    "length (csc_i C) = csc_nz_max C" using b' by auto
  ultimately show ?thesis
    unfolding built_def prod.case
    using f len' lx tx workspace_le starts by (simp del: length_concat upt_Suc)
qed

lemma built_finish:
  fixes cols :: "nat \<Rightarrow> (nat \<times> 'f::comm_monoid_add) list"
  assumes b: "built m n cols C0 n (ws, x, C, nz)" and C0: "csc_m C0 = m" "csc_n C0 = n"
    and keys: "\<And>j. j < n \<Longrightarrow> \<forall>e \<in> set (cols j). fst e < m"
  defines "D \<equiv> reallocate nz (C\<lparr>col_start := (col_start C)[n := nz]\<rparr>)"
  shows "csc_wf D" and "csc_m D = m" and "csc_n D = n" and "csc_nz_max D = nnz D"
    and "\<And>j. j < n \<Longrightarrow> col_entries D j = cols j"
proof -
  let ?ess = "map cols [0..<n]"
  note b' = b [unfolded built_def prod.case]
  have tk: "take nz (csc_i C) = map fst (concat ?ess)" "take nz (csc_x C) = map snd (concat ?ess)"
    and le: "nz \<le> length (csc_i C)" "nz \<le> length (csc_x C)" using b' by auto
  have D: "D = C\<lparr>col_start := (col_start C)[n := nz], csc_i := map fst (concat ?ess),
      csc_x := map snd (concat ?ess), csc_nz_max := nz\<rparr>"
    unfolding D_def reallocate_def vresize_def using tk le by simp
  have "length (concat ?ess) = nz" using b' by simp
  then have lo: "laid_out ?ess (col_start D) (csc_i D) (csc_x D)"
    using b' by (auto simp: D laid_out_def nth_list_update take_map min_def zip_map_fst_snd
        le_less simp del: length_concat)
  have "\<forall>es \<in> set ?ess. \<forall>e \<in> set es. fst e < m" using keys by auto
  note ok = laid_out_ok [OF lo this]
  show "csc_wf D" "csc_m D = m" "csc_n D = n" using ok b' C0 by (auto simp: csc_wf_def D)
  show "csc_nz_max D = nnz D" using b' C0 by (simp add: D nnz_def)
  show "col_entries D j = cols j" if "j < n" for j
    using laid_out_entries [OF lo, of j] that by (simp add: col_entries_def)
qed

section \<open>Products and sums of matrices\<close>

definition product_column :: "'f::{plus,times} csc_matrix \<Rightarrow> 'f csc_matrix \<Rightarrow> nat \<Rightarrow> (nat \<times> 'f) list" where
  "product_column A B j =
     concat (map (\<lambda>b. map (\<lambda>a. (fst a, snd b * snd a)) (col_entries A (fst b))) (col_entries B j))"

lemma scatter_columns:
  "for_range (col_start B ! j) (col_start B ! (j + 1)) (\<lambda>p. scatter A (csc_i B ! p) (csc_x B ! p) mark)
   = fold (scatter_step mark) (product_column A B j)"
  unfolding product_column_def scatter_eq
  by (rule ext) (simp add: fold_concat fold_map comp_def col_entries_def [of B])

lemma product_column_bound:
  assumes "csc_wf A" "csc_wf B" "csc_n A = csc_m B" "j < csc_n B"
  shows "\<forall>e \<in> set (product_column A B j). fst e < csc_m A"
  using csc_wf_col_bound [OF assms(2,4)] csc_wf_col_bound [OF assms(1)] assms(3)
  by (fastforce simp: product_column_def)

lemma entry_sum_product:
  fixes A B :: "'f::comm_ring_1 csc_matrix"
  assumes "csc_wf B" "csc_n A = csc_m B" "j < csc_n B"
  shows "entry_sum r (product_column A B j) = (\<Sum>k<csc_n A. csc_elem A r k * csc_elem B k j)"
proof -
  have "\<forall>e \<in> set (col_entries B j). fst e < csc_n A"
    using csc_wf_col_bound [OF assms(1,3)] assms(2) by auto
  note s = sum_entries [OF this, of "csc_elem A r"]
  have "entry_sum r (product_column A B j) = sum_list (map (\<lambda>b. snd b * csc_elem A r (fst b)) (col_entries B j))"
    by (simp add: product_column_def entry_sum_concat comp_def entry_sum_scale csc_elem_def)
  then show ?thesis unfolding s by (simp add: csc_elem_def [of B] mult.commute)
qed

lemma multiply_spec:
  fixes A B C :: "'f::comm_ring_1 csc_matrix"
  assumes A: "csc_wf A" and B: "csc_wf B" and dim: "csc_n A = csc_m B"
    and C: "csc_m C = csc_m A" "csc_n C = csc_n B" "length (col_start C) = csc_n B + 1"
  defines "D \<equiv> multiply A B C"
  shows "csc_wf D" and "csc_m D = csc_m A" and "csc_n D = csc_n B" and "csc_nz_max D = nnz D"
    and "\<And>j. j < csc_n B \<Longrightarrow> col_entries D j = combine (product_column A B j)"
proof -
  let ?m = "csc_m A" and ?n = "csc_n B" and ?cols = "\<lambda>j. combine (product_column A B j)"
  define f where "f = (\<lambda>j (workspace, x, C, nz).
     let C = (if nz + ?m > csc_nz_max C then reallocate (2 * csc_nz_max C + ?m) C else C);
         C = C\<lparr>col_start := (col_start C)[j := nz]\<rparr>;
         (workspace, x, C, nz) = fold (scatter_step (j + 1)) (product_column A B j) (workspace, x, C, nz);
         C = C\<lparr>csc_x := for_range (col_start C ! j) nz (\<lambda>p cx. cx[p := x ! (csc_i C ! p)]) (csc_x C)\<rparr>
     in (workspace, x, C, nz) :: 'f scatter_state)"
  let ?s = "(replicate ?m 0, replicate ?m 0, reallocate (csc_nz_max A + csc_nz_max B) C, 0)"
  have b: "built ?m ?n ?cols C ?n (for_range 0 ?n f ?s)"
  proof (rule for_range_invariant [where P = "built ?m ?n ?cols C"])
    show "built ?m ?n ?cols C 0 ?s" using C by (simp add: built_def reallocate_def)
    fix j st assume j: "j < ?n" and inv: "built ?m ?n ?cols C j st"
    obtain ws x E nz where st: "st = (ws, x, E, nz)" by (rule prod_cases4)
    define E' where "E' = (if nz + ?m > csc_nz_max E then reallocate (2 * csc_nz_max E + ?m) E else E)"
    obtain ws' x' F nz' where run: "fold (scatter_step (j + 1)) (product_column A B j)
        (ws, x, E'\<lparr>col_start := (col_start E')[j := nz]\<rparr>, nz) = (ws', x', F, nz')" by (rule prod_cases4)
    have inv': "built ?m ?n ?cols C j (ws, x, E', nz)"
      using inv by (auto simp: built_def st E'_def reallocate_def take_vresize simp del: length_concat)
    have keys: "\<forall>e \<in> set (product_column A B j). fst e < ?m" by (rule product_column_bound [OF A B dim j])
    then have "length (combine (product_column A B j)) \<le> ?m"
      using length_firsts [of "map fst (product_column A B j)" ?m] by (simp add: combine_def)
    moreover have "nz + ?m \<le> csc_nz_max E'" using inv by (auto simp: built_def st E'_def reallocate_def)
    ultimately have "nz + length (combine (product_column A B j)) \<le> csc_nz_max E'" by linarith
    from built_step [OF inv' j refl keys this run]
    show "built ?m ?n ?cols C (Suc j) (f j st)"
      unfolding f_def st prod.case Let_def E'_def [symmetric] run by simp
  qed simp
  obtain ws x E nz where fin: "for_range 0 ?n f ?s = (ws, x, E, nz)" by (rule prod_cases4)
  have D: "D = reallocate nz (E\<lparr>col_start := (col_start E)[?n := nz]\<rparr>)"
    unfolding D_def multiply_def scatter_columns
    unfolding Let_def using fin [unfolded f_def Let_def] by (simp only: prod.case)
  note fs = built_finish [OF b [unfolded fin] C(1,2), folded D]
  have "\<forall>e \<in> set (?cols j). fst e < ?m" if "j < ?n" for j
    using product_column_bound [OF A B dim that] by (auto simp: combine_def)
  then show "csc_wf D" "csc_m D = ?m" "csc_n D = ?n" "csc_nz_max D = nnz D"
    "\<And>j. j < ?n \<Longrightarrow> col_entries D j = ?cols j" using fs by auto
qed

definition sum_column ::
    "'f::{plus,times} csc_matrix \<Rightarrow> 'f csc_matrix \<Rightarrow> 'f \<Rightarrow> 'f \<Rightarrow> nat \<Rightarrow> (nat \<times> 'f) list" where
  "sum_column A B alpha beta j =
     map (\<lambda>e. (fst e, alpha * snd e)) (col_entries A j) @ map (\<lambda>e. (fst e, beta * snd e)) (col_entries B j)"

lemma sum_columns_fit:
  assumes A: "csc_wf A" and B: "csc_wf B" and dim: "csc_n A = csc_n B" and j: "j \<le> csc_n B"
  shows "length (concat (map (\<lambda>j. combine (sum_column A B alpha beta j)) [0..<j])) \<le> col_start A ! j + col_start B ! j"
  using j
proof (induction j)
  case (Suc j)
  have "length (combine (sum_column A B alpha beta j)) \<le> length (sum_column A B alpha beta j)"
    by (simp add: combine_def firsts_def length_remdups_leq [THEN le_trans])
  also have "\<dots> = (col_start A ! Suc j - col_start A ! j) + (col_start B ! Suc j - col_start B ! j)"
    by (simp add: sum_column_def col_entries_def)
  finally show ?case
    using Suc starts_mono [OF A [unfolded csc_wf_def], of j "Suc j"] starts_mono [OF B [unfolded csc_wf_def], of j "Suc j"] dim
    by simp
qed simp

lemma add_spec:
  fixes A B C :: "'f::comm_ring_1 csc_matrix" and alpha beta :: 'f
  assumes A: "csc_wf A" and B: "csc_wf B" and dim: "csc_n A = csc_n B" "csc_m A = csc_m B"
    and C: "csc_m C = csc_m A" "csc_n C = csc_n B" "length (col_start C) = csc_n B + 1"
  defines "D \<equiv> add A B alpha beta C"
  shows "csc_wf D" and "csc_m D = csc_m A" and "csc_n D = csc_n B" and "csc_nz_max D = nnz D"
    and "\<And>j. j < csc_n B \<Longrightarrow> col_entries D j = combine (sum_column A B alpha beta j)"
proof -
  let ?m = "csc_m A" and ?n = "csc_n B" and ?cols = "\<lambda>j. combine (sum_column A B alpha beta j)"
  let ?N = "col_start A ! ?n + col_start B ! ?n"
  define f where "f = (\<lambda>j (workspace, x, C, nz).
     let C = C\<lparr>col_start := (col_start C)[j := nz]\<rparr>;
         (workspace, x, C, nz) = fold (scatter_step (j + 1)) (sum_column A B alpha beta j) (workspace, x, C, nz);
         C = C\<lparr>csc_x := for_range (col_start C ! j) nz (\<lambda>p cx. cx[p := x ! (csc_i C ! p)]) (csc_x C)\<rparr>
     in (workspace, x, C, nz) :: 'f scatter_state)"
  have two: "(let (workspace, x, C, nz) = scatter A j alpha mark s;
                  (workspace, x, C, nz) = scatter B j beta mark (workspace, x, C, nz) in g workspace x C nz)
      = (let (workspace, x, C, nz) = fold (scatter_step mark) (sum_column A B alpha beta j) s in g workspace x C nz)"
    for j mark s and g :: "nat list \<Rightarrow> 'f list \<Rightarrow> 'f csc_matrix \<Rightarrow> nat \<Rightarrow> 'f scatter_state"
    by (simp add: scatter_eq sum_column_def Let_def split: prod.splits)
  let ?s = "(replicate ?m 0, replicate ?m 0, reallocate ?N C, 0)"
  have keys: "\<forall>e \<in> set (sum_column A B alpha beta j). fst e < ?m" if "j < ?n" for j
    using csc_wf_col_bound [OF A, of j] csc_wf_col_bound [OF B that] dim that by (auto simp: sum_column_def)
  define P where "P j st = (built ?m ?n ?cols C j st \<and> csc_nz_max (fst (snd (snd st))) = ?N)" for j st
  have b: "P ?n (for_range 0 ?n f ?s)"
  proof (rule for_range_invariant [where P = P])
    show "P 0 ?s" using C by (simp add: P_def built_def reallocate_def)
    fix j st assume j: "j < ?n" and inv: "P j st"
    obtain ws x E nz where st: "st = (ws, x, E, nz)" by (rule prod_cases4)
    obtain ws' x' F nz' where run: "fold (scatter_step (j + 1)) (sum_column A B alpha beta j)
        (ws, x, E\<lparr>col_start := (col_start E)[j := nz]\<rparr>, nz) = (ws', x', F, nz')" by (rule prod_cases4)
    have inv': "built ?m ?n ?cols C j (ws, x, E, nz)" and N: "csc_nz_max E = ?N" using inv by (auto simp: P_def st)
    have "nz + length (?cols j) = length (concat (map ?cols [0..<Suc j]))" using inv' by (simp add: built_def)
    also have "\<dots> \<le> col_start A ! Suc j + col_start B ! Suc j" using j by (intro sum_columns_fit [OF A B dim(1)]) simp
    also have "\<dots> \<le> ?N"
      using starts_mono [OF A [unfolded csc_wf_def], of "Suc j" ?n] starts_mono [OF B [unfolded csc_wf_def], of "Suc j" ?n] dim j
      by (intro add_mono) auto
    finally have "nz + length (?cols j) \<le> csc_nz_max E" using N by simp
    note bs = built_step [OF inv' j refl keys [OF j] this run]
    have "csc_nz_max (fst (snd (snd (fold (scatter_step mark) es (ws, x, D, nz))))) = csc_nz_max D"
      for es mark ws x nz and D :: "'f csc_matrix"
      by (induction es arbitrary: ws x D nz) (auto simp: scatter_step_def)
    from this [of "j + 1" "sum_column A B alpha beta j" ws x "E\<lparr>col_start := (col_start E)[j := nz]\<rparr>" nz]
    have "csc_nz_max F = ?N" using N run by simp
    then show "P (Suc j) (f j st)"
      using bs unfolding P_def f_def st prod.case Let_def run by simp
  qed simp
  obtain ws x E nz where fin: "for_range 0 ?n f ?s = (ws, x, E, nz)" by (rule prod_cases4)
  have D: "D = reallocate nz (E\<lparr>col_start := (col_start E)[?n := nz]\<rparr>)"
    unfolding D_def add_def two
    unfolding Let_def using fin [unfolded f_def Let_def] by (simp only: prod.case)
  have "built ?m ?n ?cols C ?n (ws, x, E, nz)" using b by (simp add: P_def fin)
  note fs = built_finish [OF this C(1,2), folded D]
  have "\<forall>e \<in> set (?cols j). fst e < ?m" if "j < ?n" for j
    using keys [OF that] by (auto simp: combine_def)
  then show "csc_wf D" "csc_m D = ?m" "csc_n D = ?n" "csc_nz_max D = nnz D"
    "\<And>j. j < ?n \<Longrightarrow> col_entries D j = ?cols j" using fs by auto
qed

section \<open>Checks\<close>

lemma check_row_spec:
  fixes n :: int
  assumes "\<forall>p \<in> set ps. 0 \<le> j ! p \<and> j ! p < n \<longrightarrow> nat (j ! p) < length mk"
  shows "check_row n j i ps mk \<noteq> None \<longleftrightarrow>
           (\<forall>p \<in> set ps. 0 \<le> j ! p \<and> j ! p < n \<and> mk ! nat (j ! p) \<noteq> int i) \<and> distinct (map (nth j) ps)"
    and "check_row n j i ps mk = Some mk' \<Longrightarrow> length mk' = length mk \<and> (\<forall>k < length mk. mk' ! k = mk ! k \<or> mk' ! k = int i)"
  using assms
proof (induction n j i ps mk rule: check_row.induct)
  case (2 n j i p ps mk)
  let ?k = "nat (j ! p)"
  {
    case 1
    show ?case
    proof (cases "0 \<le> j ! p \<and> j ! p < n \<and> mk ! ?k \<noteq> int i")
      case ok: True
      have iff: "mk[?k := int i] ! nat (j ! q) \<noteq> int i \<longleftrightarrow> mk ! nat (j ! q) \<noteq> int i \<and> j ! q \<noteq> j ! p"
        if "0 \<le> j ! q" for q
        using that ok 1 by (auto simp: nth_list_update)
      have "check_row n j i ps (mk[?k := int i]) \<noteq> None \<longleftrightarrow>
           (\<forall>q \<in> set ps. 0 \<le> j ! q \<and> j ! q < n \<and> mk[?k := int i] ! nat (j ! q) \<noteq> int i) \<and> distinct (map (nth j) ps)"
        using ok 1 by (intro "2.IH"(1)) auto
      also have "(\<forall>q \<in> set ps. 0 \<le> j ! q \<and> j ! q < n \<and> mk[?k := int i] ! nat (j ! q) \<noteq> int i) \<longleftrightarrow>
           (\<forall>q \<in> set ps. 0 \<le> j ! q \<and> j ! q < n \<and> mk ! nat (j ! q) \<noteq> int i) \<and> j ! p \<notin> nth j ` set ps"
        using iff by (metis (no_types, lifting) image_iff)
      finally show ?thesis using ok by (auto simp: Let_def)
    qed (auto simp: Let_def)
  next
    case 2
    then show ?case
      using "2.IH"(2) [OF refl] by (auto simp: Let_def nth_list_update split: if_splits)
  }
qed auto

lemma check_rows_spec:
  assumes "length mk = n" "\<forall>k<n. mk ! k < int i"
  shows "check_rows (int n) rs j [i..<m] mk = 0 \<longleftrightarrow>
     (\<forall>r. i \<le> r \<and> r < m \<longrightarrow> (\<forall>p \<in> {rs ! r..<rs ! (r + 1)}. 0 \<le> j ! p \<and> j ! p < int n)
          \<and> distinct (map (nth j) [rs ! r..<rs ! (r + 1)]))"
  using assms
proof (induction "m - i" arbitrary: i mk)
  case (Suc d)
  let ?ps = "[rs ! i..<rs ! (i + 1)]"
  have i: "i < m" and upt: "[i..<m] = i # [Suc i..<m]" using Suc.hyps(2) by (auto simp: upt_conv_Cons)
  have pre: "\<forall>p \<in> set ?ps. 0 \<le> j ! p \<and> j ! p < int n \<longrightarrow> nat (j ! p) < length mk" using Suc.prems by auto
  have fresh: "mk ! nat (j ! p) \<noteq> int i" if "0 \<le> j ! p" "j ! p < int n" for p
    using that Suc.prems by (metis less_irrefl nat_less_iff of_nat_less_iff)
  have all: "(\<forall>r. i \<le> r \<and> r < m \<longrightarrow> Q r) \<longleftrightarrow> Q i \<and> (\<forall>r. Suc i \<le> r \<and> r < m \<longrightarrow> Q r)" for Q
    by (rule all_split_first [OF i])
  show ?case
  proof (cases "check_row (int n) j i ?ps mk")
    case None
    then have "\<not> ((\<forall>p \<in> {rs ! i..<rs ! (i + 1)}. 0 \<le> j ! p \<and> j ! p < int n) \<and> distinct (map (nth j) ?ps))"
      using check_row_spec(1) [OF pre, of i] fresh by auto
    then show ?thesis unfolding upt all using None by auto
  next
    case (Some mk')
    then have ok: "(\<forall>p \<in> {rs ! i..<rs ! (i + 1)}. 0 \<le> j ! p \<and> j ! p < int n) \<and> distinct (map (nth j) ?ps)"
      using check_row_spec(1) [OF pre, of i] by auto
    have "length mk' = n" "\<forall>k<n. mk' ! k < int (Suc i)"
      using check_row_spec(2) [OF pre Some] Suc.prems by force+
    then show ?thesis
      unfolding upt all using Some ok Suc.hyps(1) [of "Suc i" mk'] Suc.hyps(2) by auto
  qed
qed auto

lemma csc_diagonal_from_iff:
  "csc_diagonal_from A js \<longleftrightarrow> (\<forall>j \<in> set js. \<forall>e \<in> set (col_entries A j). fst e = j)"
  by (induction js) (auto simp: col_entries_def)

lemma fold_max: "fold (\<lambda>j s. max (f j) s) js s = Max (set (map f js) \<union> {s})" for s :: "'f::linorder"
proof (induction js arbitrary: s)
  case (Cons j js)
  have "Max (f ` set js \<union> {max (f j) s}) = Max (f ` set (j # js) \<union> {s})"
    by (cases "js = []") (auto simp: Max_insert2 max.assoc max.commute max.left_commute Max_insert)
  then show ?case using Cons by simp
qed simp

lemma norm1_eq: "norm1 A = Max (insert 0 ((\<lambda>j. sum_list (map (\<lambda>e. \<bar>snd e\<bar>) (col_entries A j))) ` {..<csc_n A}))"
  for A :: "'f::linordered_idom csc_matrix"
proof -
  have "for_range (col_start A ! j) (col_start A ! (j + 1)) (\<lambda>p sum. sum + \<bar>csc_x A ! p\<bar>) 0
      = sum_list (map (\<lambda>e. \<bar>snd e\<bar>) (col_entries A j))" for j
    by (simp add: fold_plus col_entries_def comp_def)
  then show ?thesis unfolding norm1_def Let_def by (simp add: fold_max atLeast0LessThan)
qed

section \<open>Properties\<close>

text \<open>
  C30. The sparse product is the matrix product: for well-formed factors of matching
  dimensions and a destination of the product's shape, \<open>multiply\<close> gives a well-formed
  matrix with no repeated row index in a column, no spare storage, and element (i, j) equal to
  the sum over k of A(i, k) * B(k, j), however often the destination had to grow on the way.
\<close>

theorem multiply_correct:
  fixes A B C :: "'f::comm_ring_1 csc_matrix"
  assumes "csc_wf A" "csc_wf B" "csc_n A = csc_m B"
    and "csc_m C = csc_m A" "csc_n C = csc_n B" "length (col_start C) = csc_n B + 1"
  shows "csc_wf (multiply A B C) \<and> csc_nz_max (multiply A B C) = nnz (multiply A B C) \<and>
         (\<forall>j < csc_n B. distinct (map fst (col_entries (multiply A B C) j))) \<and>
         (\<forall>i j. j < csc_n B \<longrightarrow>
            csc_elem (multiply A B C) i j = (\<Sum>k<csc_n A. csc_elem A i k * csc_elem B k j))"
proof -
  note s = multiply_spec [OF assms]
  have "csc_elem (multiply A B C) i j = (\<Sum>k<csc_n A. csc_elem A i k * csc_elem B k j)" if "j < csc_n B" for i j
    using that entry_sum_product [OF assms(2,3) that, of i]
    by (simp add: csc_elem_def s(5) entry_sum_combine)
  then show ?thesis using s by (simp add: combine_fst)
qed

theorem multiply_correct_witness:
  "let A = \<lparr>csc_m = 2, csc_n = 2, csc_nz_max = 3, col_start = [0, 2, 3], csc_i = [0, 1, 1], csc_x = [1, 2, 3]\<rparr>;
       B = \<lparr>csc_m = 2, csc_n = 1, csc_nz_max = 2, col_start = [0, 2], csc_i = [1, 0], csc_x = [5, -7]\<rparr>;
       D = multiply A B (csc_matrix_t 2 1 0)
   in csc_wf D \<and> csc_elem D 1 0 = (1::int) \<and> col_entries D 0 = [(1, 1), (0, -7)]"
proof -
  let ?A = "\<lparr>csc_m = 2, csc_n = 2, csc_nz_max = 3, col_start = [0, 2, 3], csc_i = [0, 1, 1], csc_x = [1, 2, 3::int]\<rparr>"
  let ?B = "\<lparr>csc_m = 2, csc_n = 1, csc_nz_max = 2, col_start = [0, 2], csc_i = [1, 0], csc_x = [5, -7::int]\<rparr>"
  have wf: "csc_wf ?A" "csc_wf ?B" by code_simp+
  have "col_entries (multiply ?A ?B (csc_matrix_t 2 1 0)) 0 = [(1, 1), (0, -7)]" by code_simp
  moreover have "(\<Sum>k<csc_n ?A. csc_elem ?A 1 k * csc_elem ?B k 0) = 1" by code_simp
  ultimately show ?thesis
    using multiply_correct [OF wf, of "csc_matrix_t 2 1 0"] by (simp add: Let_def csc_matrix_t_def)
qed

text \<open>
  C31. \<open>add\<close> computes alpha * A + beta * B, without repeated row indices in a column
  of the result, and the storage it reserves once (the sum of the two entry counts) is enough.
\<close>

theorem add_correct:
  fixes A B C :: "'f::comm_ring_1 csc_matrix"
  assumes "csc_wf A" "csc_wf B" "csc_n A = csc_n B" "csc_m A = csc_m B"
    and "csc_m C = csc_m A" "csc_n C = csc_n B" "length (col_start C) = csc_n B + 1"
  shows "csc_wf (add A B alpha beta C) \<and> nnz (add A B alpha beta C) \<le> nnz A + nnz B \<and>
         (\<forall>j < csc_n B. distinct (map fst (col_entries (add A B alpha beta C) j))) \<and>
         (\<forall>i j. j < csc_n B \<longrightarrow>
            csc_elem (add A B alpha beta C) i j = alpha * csc_elem A i j + beta * csc_elem B i j)"
proof -
  note s = add_spec [OF assms, where alpha = alpha and beta = beta]
  have cols: "length (concat (map (col_entries D) [0..<csc_n D])) = nnz D" if "csc_wf D" for D :: "'f csc_matrix"
    using length_concat_cols [OF that [unfolded csc_wf_def], where f = "\<lambda>p. (csc_i D ! p, csc_x D ! p)"]
    by (simp add: col_entries_def nnz_def length_concat comp_def)
  have eq: "map (col_entries (add A B alpha beta C)) [0..<csc_n B] = map (\<lambda>j. combine (sum_column A B alpha beta j)) [0..<csc_n B]"
    using s(5) by simp
  have "nnz (add A B alpha beta C) \<le> nnz A + nnz B"
    using cols [OF s(1)] sum_columns_fit [OF assms(1,2,3) order_refl, of alpha beta]
    unfolding s(3) eq nnz_def assms(3) by linarith
  moreover have "csc_elem (add A B alpha beta C) i j = alpha * csc_elem A i j + beta * csc_elem B i j"
    if "j < csc_n B" for i j
    using that by (simp add: csc_elem_def s(5) entry_sum_combine sum_column_def entry_sum_scale)
  ultimately show ?thesis using s by (simp add: combine_fst)
qed

theorem add_correct_witness:
  "let A = \<lparr>csc_m = 2, csc_n = 1, csc_nz_max = 2, col_start = [0, 2], csc_i = [0, 1], csc_x = [1, 2]\<rparr>;
       B = \<lparr>csc_m = 2, csc_n = 1, csc_nz_max = 1, col_start = [0, 1], csc_i = [1], csc_x = [5]\<rparr>;
       D = add A B 10 (-1) (csc_matrix_t 2 1 0)
   in csc_wf D \<and> csc_elem D 1 0 = (15::int) \<and> nnz D = 2"
proof -
  let ?A = "\<lparr>csc_m = 2, csc_n = 1, csc_nz_max = 2, col_start = [0, 2], csc_i = [0, 1], csc_x = [1, 2::int]\<rparr>"
  let ?B = "\<lparr>csc_m = 2, csc_n = 1, csc_nz_max = 1, col_start = [0, 1], csc_i = [1], csc_x = [5::int]\<rparr>"
  have wf: "csc_wf ?A" "csc_wf ?B" by code_simp+
  have "nnz (add ?A ?B 10 (-1) (csc_matrix_t 2 1 0)) = 2" "csc_elem ?A 1 0 = 2" "csc_elem ?B 1 0 = 5" by code_simp+
  then show ?thesis
    using add_correct [OF wf, of "csc_matrix_t 2 1 0" 10 "-1"] by (simp add: Let_def csc_matrix_t_def)
qed

text \<open>
  The three matrix-vector kernels compute y <- alpha * A * x + beta * y (and, for the
  transposed one, alpha * A' * x + beta * y) from the elements of the matrix, for every beta,
  the value 1 that skips the scaling loop included.
\<close>

theorem matrix_vector_products_correct:
  fixes A :: "'f::comm_ring_1 csc_matrix" and R :: "'f csr_matrix"
  assumes "csc_wf A" "csr_wf R"
  shows "(length y = csc_m A \<longrightarrow> matrix_vector_multiply_csc A alpha x beta y
            = map (\<lambda>i. alpha * (\<Sum>j<csc_n A. csc_elem A i j * x ! j) + beta * y ! i) [0..<csc_m A]) \<and>
         (length y = csr_m R \<longrightarrow> matrix_vector_multiply_csr R alpha x beta y
            = map (\<lambda>i. alpha * (\<Sum>j<csr_n R. csr_elem R i j * x ! j) + beta * y ! i) [0..<csr_m R]) \<and>
         (length y = csc_n A \<longrightarrow> matrix_transpose_vector_multiply A alpha x beta y
            = map (\<lambda>j. alpha * (\<Sum>i<csc_m A. csc_elem A i j * x ! i) + beta * y ! j) [0..<csc_n A])"
  using assms by (auto intro!: nth_equalityI simp: mv_nth length_mv mvr_nth length_mvr mtv_nth length_mtv)

theorem matrix_vector_products_correct_witness:
  "let A = \<lparr>csc_m = 2, csc_n = 2, csc_nz_max = 3, col_start = [0, 2, 3], csc_i = [0, 1, 1], csc_x = [1, 2, 3]\<rparr>;
       R = to_compressed_row A (csr_matrix_t 0 0 0)
   in matrix_vector_multiply_csc A 2 [10, 100] (-1) [5, 7] = [15, 633::int] \<and>
      matrix_vector_multiply_csr R 2 [10, 100] (-1) [5, 7] = [15, 633] \<and>
      matrix_transpose_vector_multiply A 1 [10, 100] 1 [5, 7] = [215, 307]"
proof -
  let ?A = "\<lparr>csc_m = 2, csc_n = 2, csc_nz_max = 3, col_start = [0, 2, 3], csc_i = [0, 1, 1], csc_x = [1, 2, 3::int]\<rparr>"
  let ?R = "to_compressed_row ?A (csr_matrix_t 0 0 0)"
  have wf: "csc_wf ?A" "csr_wf ?R" by code_simp+
  have m: "csc_m ?A = 2" "csc_n ?A = 2" "csr_m ?R = 2" by code_simp+
  have e: "map (\<lambda>i. 2 * (\<Sum>j<csc_n ?A. csc_elem ?A i j * [10, 100] ! j) + -1 * [5, 7] ! i) [0..<csc_m ?A] = [15, 633]"
    "map (\<lambda>i. 2 * (\<Sum>j<csr_n ?R. csr_elem ?R i j * [10, 100] ! j) + -1 * [5, 7] ! i) [0..<csr_m ?R] = [15, 633]"
    "map (\<lambda>j. 1 * (\<Sum>i<csc_m ?A. csc_elem ?A i j * [10, 100] ! i) + 1 * [5, 7] ! j) [0..<csc_n ?A] = [215, 307]"
    by code_simp+
  show ?thesis
    unfolding Let_def
    using matrix_vector_products_correct [OF wf, of "[5, 7]" 2 "[10, 100]" "-1", unfolded e]
      matrix_vector_products_correct [OF wf, of "[5, 7]" 1 "[10, 100]" 1, unfolded e] m
    by simp
qed

text \<open>
  The consistency check of a CSR matrix returns 0 exactly when every column index of
  every row lies in [0, n) and no row repeats one; one marker vector, never cleared between
  rows, is enough for it.
\<close>

theorem csr_check_matrix_correct:
  "csr_check_matrix m n rs j = 0 \<longleftrightarrow>
     (\<forall>r < m. (\<forall>p \<in> {rs ! r..<rs ! (r + 1)}. 0 \<le> j ! p \<and> j ! p < int n)
          \<and> distinct (map (nth j) [rs ! r..<rs ! (r + 1)]))"
  using check_rows_spec [of "replicate n (-1)" n 0 rs j m] by (simp add: csr_check_matrix_def)

theorem csr_check_matrix_correct_witness:
  "csr_check_matrix 2 3 [0, 2, 3] [0, 2, 2] = 0 \<and> csr_check_matrix 2 3 [0, 2, 3] [2, 2, 0] = -1 \<and>
   distinct (map (nth [0, 2, 2::int]) [[0, 2, 3] ! 0..<[0, 2, 3] ! (0 + 1)])"
proof -
  have "csr_check_matrix 2 3 [0, 2, 3] [0, 2, 2] = 0" "csr_check_matrix 2 3 [0, 2, 3] [2, 2, 0] = -1" by code_simp+
  then show ?thesis
    using csr_check_matrix_correct [of 2 3 "[0, 2, 3]" "[0, 2, 2]", THEN iffD1, rule_format, of 0] by simp
qed

end
