(* ===== verification/Sparse_Vector.thy ===== *)
theory Sparse_Vector
  imports Sparse_Arith
begin

text \<open>
  Sparse vectors, \<open>cpp/src/linear_algebra/sparse_vector.hpp\<close> and
  \<open>sparse_vector.cpp\<close>, the dense kernels of \<open>vector_math.cpp\<close> they are used
  with, and the merge loop that every \<open>sparse_dot\<close> of the code base repeats. The
  comparison \<open>i.size() > 0.3 * n\<close> is taken in exact arithmetic; the quiet NaN that
  reports a missing coefficient is the value \<open>None\<close>.
\<close>

section \<open>Data and operations\<close>

record 'f sparse_vector =
  sv_n :: nat
  sv_i :: "nat list"
  sv_x :: "'f list"

definition sv_of_column :: "'f csc_matrix \<Rightarrow> nat \<Rightarrow> 'f sparse_vector" where
  "sv_of_column A col =
     (let (i, x) = for_range (col_start A ! col) (col_start A ! (col + 1))
                     (\<lambda>k (i, x). (i @ [csc_i A ! k], x @ [csc_x A ! k])) ([], [])
      in \<lparr>sv_n = csc_m A, sv_i = i, sv_x = x\<rparr>)"

definition from_csc_column :: "'f csc_matrix \<Rightarrow> nat \<Rightarrow> 'f sparse_vector \<Rightarrow> 'f sparse_vector" where
  "from_csc_column A col v =
     (let (i, x) = for_range (col_start A ! col) (col_start A ! (col + 1))
                     (\<lambda>k (i, x). (i @ [csc_i A ! k], x @ [csc_x A ! k])) ([], [])
      in v\<lparr>sv_n := csc_m A, sv_i := i, sv_x := x\<rparr>)"

definition sv_of_row :: "'f csr_matrix \<Rightarrow> nat \<Rightarrow> 'f sparse_vector" where
  "sv_of_row A row =
     (let (i, x) = for_range (row_start A ! row) (row_start A ! (row + 1))
                     (\<lambda>k (i, x). (i @ [csr_j A ! k], x @ [csr_x A ! k])) ([], [])
      in \<lparr>sv_n = csr_n A, sv_i = i, sv_x = x\<rparr>)"

definition from_dense :: "'f::zero list \<Rightarrow> 'f sparse_vector \<Rightarrow> 'f sparse_vector" where
  "from_dense ins v =
     (let n = length ins;
          (i, x) = for_range 0 n
                     (\<lambda>k (i, x). if ins ! k \<noteq> 0 then (i @ [k], x @ [ins ! k]) else (i, x)) ([], [])
      in v\<lparr>sv_n := n, sv_i := i, sv_x := x\<rparr>)"

definition to_csc :: "'f sparse_vector \<Rightarrow> 'f csc_matrix \<Rightarrow> 'f csc_matrix" where
  "to_csc v A =
     A\<lparr>csc_m := sv_n v, csc_n := 1, csc_nz_max := length (sv_i v),
       col_start := (vresize 2 0 (col_start A))[0 := 0, 1 := length (sv_i v)],
       csc_i := sv_i v, csc_x := sv_x v\<rparr>"

definition to_dense :: "'f::zero sparse_vector \<Rightarrow> 'f list" where
  "to_dense v = for_range 0 (length (sv_i v)) (\<lambda>k d. d[sv_i v ! k := sv_x v ! k]) (replicate (sv_n v) 0)"

definition sv_scatter :: "'f::plus sparse_vector \<Rightarrow> 'f list \<Rightarrow> 'f list" where
  "sv_scatter v x_dense =
     for_range 0 (length (sv_i v)) (\<lambda>k d. d[sv_i v ! k := d ! (sv_i v ! k) + sv_x v ! k]) x_dense"

definition sv_inverse_permute :: "nat list \<Rightarrow> 'f sparse_vector \<Rightarrow> 'f sparse_vector" where
  "sv_inverse_permute p v =
     (let nz = length (sv_i v)
      in v\<lparr>sv_i := for_range 0 nz (\<lambda>k i_perm. i_perm[k := p ! (sv_i v ! k)]) (replicate nz 0)\<rparr>)"

definition sv_inverse_permute_into :: "nat list \<Rightarrow> 'f sparse_vector \<Rightarrow> 'f sparse_vector \<Rightarrow> 'f sparse_vector" where
  "sv_inverse_permute_into p v y =
     (let nz = length (sv_i v)
      in y\<lparr>sv_n := sv_n v, sv_x := sv_x v,
           sv_i := for_range 0 nz (\<lambda>k i_perm. i_perm[k := p ! (sv_i v ! k)]) (replicate nz 0)\<rparr>)"

definition sv_dot :: "'f::{zero,plus,times} sparse_vector \<Rightarrow> 'f list \<Rightarrow> 'f" where
  "sv_dot v x_dense = for_range 0 (length (sv_i v)) (\<lambda>k dot. dot + sv_x v ! k * x_dense ! (sv_i v ! k)) 0"

text \<open>
  The merge of two index sequences, read at positions \<open>i\<close> and \<open>j\<close>; a common index
  contributes, otherwise the smaller side advances.
\<close>

function sparse_dot_loop ::
    "(nat \<Rightarrow> nat) \<Rightarrow> (nat \<Rightarrow> nat) \<Rightarrow> (nat \<Rightarrow> nat \<Rightarrow> 'f::plus) \<Rightarrow> nat \<Rightarrow> nat \<Rightarrow> nat \<Rightarrow> nat \<Rightarrow> 'f \<Rightarrow> 'f" where
  "sparse_dot_loop xi yi contrib i nx j ny dot =
     (if i < nx \<and> j < ny
      then let p = xi i; q = yi j
           in if p = q then sparse_dot_loop xi yi contrib (i + 1) nx (j + 1) ny (dot + contrib i j)
              else if p < q then sparse_dot_loop xi yi contrib (i + 1) nx j ny dot
              else sparse_dot_loop xi yi contrib i nx (j + 1) ny dot
      else dot)"
  by pat_completeness auto
termination
  by (relation "measure (\<lambda>(xi, yi, contrib, i, nx, j, ny, dot). (nx - i) + (ny - j))") auto

declare sparse_dot_loop.simps [simp del]

definition sparse_dot :: "nat list \<Rightarrow> 'f::{zero,plus,times} list \<Rightarrow> nat list \<Rightarrow> 'f list \<Rightarrow> 'f" where
  "sparse_dot xind xval yind yval =
     sparse_dot_loop (nth xind) (nth yind) (\<lambda>i j. xval ! i * yval ! j) 0 (length xind) 0 (length yind) 0"

definition sparse_dot_scattered ::
    "nat list \<Rightarrow> 'f::{zero,plus,times} list \<Rightarrow> nat \<Rightarrow> nat list \<Rightarrow> nat \<Rightarrow> 'f list \<Rightarrow> 'f" where
  "sparse_dot_scattered xind xval nx yind ny y_scatter_val =
     sparse_dot_loop (nth xind) (nth yind) (\<lambda>i j. xval ! i * y_scatter_val ! (yind ! j)) 0 nx 0 ny 0"

definition sparse_dot_column ::
    "nat list \<Rightarrow> 'f::{zero,plus,times} list \<Rightarrow> 'f csc_matrix \<Rightarrow> nat \<Rightarrow> 'f" where
  "sparse_dot_column xind xval Y y_col =
     sparse_dot_loop (nth xind) (nth (csc_i Y)) (\<lambda>i k. csc_x Y ! k * xval ! i)
       0 (length xind) (col_start Y ! y_col) (col_start Y ! (y_col + 1)) 0"

definition sv_sparse_dot :: "'f::{zero,plus,times} sparse_vector \<Rightarrow> 'f csc_matrix \<Rightarrow> nat \<Rightarrow> 'f" where
  "sv_sparse_dot v Y y_col =
     sparse_dot_loop (nth (sv_i v)) (nth (csc_i Y)) (\<lambda>h k. csc_x Y ! k * sv_x v ! h)
       0 (length (sv_i v)) (col_start Y ! y_col) (col_start Y ! (y_col + 1)) 0"

text \<open>
  \<open>sort\<close>: a bucket pass over a dense vector when more than three tenths of the indices
  are stored, a comparison sort of positions otherwise.
\<close>

definition sv_sort :: "'f::zero sparse_vector \<Rightarrow> 'f sparse_vector" where
  "sv_sort v =
     (if length (sv_i v) = 1 then v
      else if 10 * length (sv_i v) > 3 * sv_n v
      then let bucket = for_range 0 (length (sv_i v)) (\<lambda>k b. b[sv_i v ! k := sv_x v ! k]) (replicate (sv_n v) 0);
               (i, x) = for_range 0 (sv_n v)
                          (\<lambda>k (i, x). if bucket ! k \<noteq> 0 then (i @ [k], x @ [bucket ! k]) else (i, x)) ([], [])
           in v\<lparr>sv_i := i, sv_x := x\<rparr>
      else let perm = sort_key (nth (sv_i v)) [0..<length (sv_i v)]
           in v\<lparr>sv_i := map (nth (sv_i v)) perm, sv_x := map (nth (sv_x v)) perm\<rparr>)"

definition sv_norm2_squared :: "'f::{zero,plus,times} sparse_vector \<Rightarrow> 'f" where
  "sv_norm2_squared v = for_range 0 (length (sv_i v)) (\<lambda>k dot. dot + sv_x v ! k * sv_x v ! k) 0"

definition sv_negate :: "'f::{one,uminus,times} sparse_vector \<Rightarrow> 'f sparse_vector" where
  "sv_negate v = v\<lparr>sv_x := for_range 0 (length (sv_x v)) (\<lambda>k x. x[k := x ! k * (- 1)]) (sv_x v)\<rparr>"

definition sv_scale :: "'f::times \<Rightarrow> 'f sparse_vector \<Rightarrow> 'f sparse_vector" where
  "sv_scale factor v = v\<lparr>sv_x := for_range 0 (length (sv_x v)) (\<lambda>k x. x[k := x ! k * factor]) (sv_x v)\<rparr>"

fun find_coefficient_from :: "'f sparse_vector \<Rightarrow> nat \<Rightarrow> nat list \<Rightarrow> 'f option" where
  "find_coefficient_from v index [] = None"
| "find_coefficient_from v index (k # ks) =
     (if sv_i v ! k = index then Some (sv_x v ! k) else find_coefficient_from v index ks)"

definition find_coefficient :: "'f sparse_vector \<Rightarrow> nat \<Rightarrow> 'f option" where
  "find_coefficient v index = find_coefficient_from v index [0..<length (sv_i v)]"

definition squeeze :: "'f::zero sparse_vector \<Rightarrow> 'f sparse_vector \<Rightarrow> 'f sparse_vector" where
  "squeeze v y =
     (let (i, x) = for_range 0 (length (sv_x v))
                     (\<lambda>k (i, x). if sv_x v ! k \<noteq> 0 then (i @ [sv_i v ! k], x @ [sv_x v ! k]) else (i, x)) ([], [])
      in y\<lparr>sv_n := sv_n v, sv_i := i, sv_x := x\<rparr>)"

text \<open>Dense kernels of \<open>vector_math.cpp\<close>.\<close>

definition vector_norm2_squared :: "'f::{zero,plus,times} list \<Rightarrow> 'f" where
  "vector_norm2_squared x = for_range 0 (length x) (\<lambda>j sum. sum + x ! j * x ! j) 0"

definition vector_norm1 :: "'f::{zero,plus,abs} list \<Rightarrow> 'f" where
  "vector_norm1 x = for_range 0 (length x) (\<lambda>j sum. sum + \<bar>x ! j\<bar>) 0"

definition dot :: "'f::{zero,plus,times} list \<Rightarrow> 'f list \<Rightarrow> 'f" where
  "dot x y = for_range 0 (length x) (\<lambda>k d. d + x ! k * y ! k) 0"

definition permute_vector :: "nat list \<Rightarrow> 'f list \<Rightarrow> 'f list \<Rightarrow> 'f list" where
  "permute_vector p b x = for_range 0 (length p) (\<lambda>k x. x[k := b ! (p ! k)]) x"

definition inverse_permute_vector :: "nat list \<Rightarrow> 'f list \<Rightarrow> 'f list \<Rightarrow> 'f list" where
  "inverse_permute_vector p b x = for_range 0 (length p) (\<lambda>k x. x[p ! k := b ! k]) x"

definition inverse_permutation :: "nat list \<Rightarrow> nat list \<Rightarrow> nat list" where
  "inverse_permutation p pinv =
     for_range 0 (length p) (\<lambda>k pinv. pinv[p ! k := k])
       (if length pinv \<noteq> length p then vresize (length p) 0 pinv else pinv)"

section \<open>Lemmas\<close>

definition sv_elem :: "'f::comm_monoid_add sparse_vector \<Rightarrow> nat \<Rightarrow> 'f" where
  "sv_elem v k = entry_sum k (zip (sv_i v) (sv_x v))"

definition sv_wf :: "'f sparse_vector \<Rightarrow> bool" where
  "sv_wf v \<longleftrightarrow> length (sv_i v) = length (sv_x v) \<and> (\<forall>k \<in> set (sv_i v). k < sv_n v) \<and> distinct (sv_i v)"

lemma collect_pairs:
  "fold (\<lambda>k (i, x). if P k then (i @ [f k], x @ [g k]) else (i, x)) ks (i0, x0)
   = (i0 @ map f (filter P ks), x0 @ map g (filter P ks))"
  by (induction ks arbitrary: i0 x0) auto

lemma collect_all_pairs:
  "fold (\<lambda>k (i, x). (i @ [f k], x @ [g k])) ks (i0, x0) = (i0 @ map f ks, x0 @ map g ks)"
  by (induction ks arbitrary: i0 x0) auto

text \<open>The element at \<open>k\<close> of a list of distinct indices.\<close>

lemma entry_sum_distinct:
  "distinct (map fst es) \<Longrightarrow> e \<in> set es \<Longrightarrow> entry_sum (fst e) es = snd e"
  by (induction es) (auto simp: entry_sum_none image_iff)

lemma nth_dense:
  assumes "length i = length x" "distinct i" "\<forall>k \<in> set i. k < n"
  shows "for_range 0 (length i) (\<lambda>k d. d[i ! k := x ! k]) (replicate n 0)
         = map (\<lambda>k. entry_sum k (zip i x)) [0..<n]" (is "?d = _")
proof -
  let ?f = "\<lambda>e d. d[fst e := snd e]"
  have "zip i x = map (\<lambda>k. (i ! k, x ! k)) [0..<length i]"
    using assms(1) by (intro nth_equalityI) auto
  then have eq: "?d = fold ?f (zip i x) (replicate n 0)" by (simp add: fold_map comp_def)
  have "fold ?f es d ! k = (if k \<in> fst ` set es then entry_sum k es else d ! k) \<and> length (fold ?f es d) = length d"
    if "distinct (map fst es)" "k < length d" for es :: "(nat \<times> 'a) list" and d k
    using that
  proof (induction es arbitrary: d)
    case (Cons e es)
    then show ?case by (cases "fst e = k") (auto simp: entry_sum_none)
  qed simp
  from this [of "zip i x" _ "replicate n 0"] show ?thesis
    unfolding eq using assms entry_sum_none [of _ "zip i x"]
    by (cases "n = 0") (auto intro!: nth_equalityI simp: map_fst_zip)
qed

lemma to_dense_eq: "sv_wf v \<Longrightarrow> to_dense v = map (sv_elem v) [0..<sv_n v]"
  unfolding to_dense_def sv_elem_def [abs_def] by (rule nth_dense) (auto simp: sv_wf_def)

lemma from_dense_eq:
  "from_dense ins v = v\<lparr>sv_n := length ins, sv_i := filter (\<lambda>k. ins ! k \<noteq> 0) [0..<length ins],
      sv_x := map (nth ins) (filter (\<lambda>k. ins ! k \<noteq> 0) [0..<length ins])\<rparr>"
  by (simp add: from_dense_def collect_pairs Let_def)

lemma zip_map_self: "zip ks (map f ks) = map (\<lambda>k. (k, f k)) ks"
  by (induction ks) auto

lemma entry_sum_graph: "distinct ks \<Longrightarrow> entry_sum r (map (\<lambda>k. (k, f k)) ks) = (if r \<in> set ks then f r else 0)"
  by (induction ks) auto

text \<open>The merge loop.\<close>

lemma sparse_dot_loop_spec:
  fixes contrib :: "nat \<Rightarrow> nat \<Rightarrow> 'f::comm_monoid_add"
  assumes "strict_mono_on {i..<nx} xi" "strict_mono_on {j..<ny} yi"
  shows "sparse_dot_loop xi yi contrib i nx j ny d
         = d + (\<Sum>i'\<in>{i..<nx}. \<Sum>j'\<in>{j..<ny}. if xi i' = yi j' then contrib i' j' else 0)"
  using assms
proof (induction xi yi contrib i nx j ny d rule: sparse_dot_loop.induct)
  case (1 xi yi contrib i nx j ny d)
  let ?S = "\<lambda>i j. \<Sum>i'\<in>{i..<nx}. \<Sum>j'\<in>{j..<ny}. if xi i' = yi j' then contrib i' j' else 0"
  show ?case
  proof (cases "i < nx \<and> j < ny")
    case False
    then show ?thesis by (subst sparse_dot_loop.simps) auto
  next
    case lt: True
    have si: "{i..<nx} = insert i {Suc i..<nx}" and sj: "{j..<ny} = insert j {Suc j..<ny}" using lt by auto
    have mi: "strict_mono_on {Suc i..<nx} xi" and mj: "strict_mono_on {Suc j..<ny} yi"
      using "1.prems" by (auto simp: strict_mono_on_def)
    have gi: "xi i < xi i'" if "i' \<in> {Suc i..<nx}" for i'
      using that "1.prems"(1) lt by (auto simp: strict_mono_on_def)
    have gj: "yi j < yi j'" if "j' \<in> {Suc j..<ny}" for j'
      using that "1.prems"(2) lt by (auto simp: strict_mono_on_def)
    have row: "?S i j = (\<Sum>j'\<in>{j..<ny}. if xi i = yi j' then contrib i j' else 0) + ?S (Suc i) j" for j
      by (subst si) simp
    have col: "?S i j = (\<Sum>i'\<in>{i..<nx}. if xi i' = yi j then contrib i' j else 0) + ?S i (Suc j)" for i
      by (subst sj) (simp add: sum.distrib)
    have no_row: "(\<Sum>j'\<in>{j'..<ny}. if xi i = yi j' then contrib i j' else 0) = 0"
      if "\<And>k. k \<in> {j'..<ny} \<Longrightarrow> xi i < yi k" for j'
      by (intro sum.neutral ballI) (metis that less_irrefl)
    have no_col: "(\<Sum>i'\<in>{i'..<nx}. if xi i' = yi j then contrib i' j else 0) = 0"
      if "\<And>k. k \<in> {i'..<nx} \<Longrightarrow> yi j < xi k" for i'
      by (intro sum.neutral ballI) (metis that less_irrefl)
    consider "xi i = yi j" | "xi i < yi j" | "yi j < xi i" by linarith
    then show ?thesis
    proof cases
      case 1
      have "?S i j = contrib i j + ?S (Suc i) (Suc j)"
        unfolding row col [of "Suc i"] using no_row [of "Suc j"] no_col [of "Suc i"] gi gj 1 by (simp add: sj)
      then show ?thesis
        using "1.IH"(1) [OF lt refl refl 1] mi mj lt 1
        by (subst sparse_dot_loop.simps) (simp add: add.assoc)
    next
      case 2
      then have "?S i j = ?S (Suc i) j"
        unfolding row using no_row [of j] gj by (force simp: sj)
      then show ?thesis
        using "1.IH"(2) [OF lt refl refl] mi "1.prems"(2) lt 2
        by (subst sparse_dot_loop.simps) simp
    next
      case 3
      then have "?S i j = ?S i (Suc j)"
        unfolding col [of i] using no_col [of i] gi by (force simp: si)
      then show ?thesis
        using "1.IH"(3) [OF lt refl refl] mj "1.prems"(1) lt 3
        by (subst sparse_dot_loop.simps) simp
    qed
  qed
qed

text \<open>Sums over positions as sums over indices.\<close>

lemma sum_positions:
  fixes f :: "nat \<Rightarrow> 'f::comm_ring_1"
  assumes "length i = length x" "\<forall>k \<in> set i. k < n"
  shows "(\<Sum>p < length i. x ! p * f (i ! p)) = (\<Sum>k<n. entry_sum k (zip i x) * f k)"
proof -
  have z: "zip i x = map (\<lambda>p. (i ! p, x ! p)) [0..<length i]"
    using assms(1) by (intro nth_equalityI) auto
  have "\<forall>e \<in> set (zip i x). fst e < n" using assms(2) by (auto dest: set_zip_leftD)
  from sum_entries [OF this, of f] show ?thesis
    unfolding z by (simp add: comp_def sum_list_map_upt)
qed

lemma sparse_dot_spec:
  fixes xval yval :: "'f::comm_ring_1 list"
  assumes x: "sorted xind" "distinct xind" "length xval = length xind"
    and y: "sorted yind" "distinct yind" "length yval = length yind"
    and n: "\<forall>k \<in> set xind. k < n"
  shows "sparse_dot xind xval yind yval = (\<Sum>k<n. entry_sum k (zip xind xval) * entry_sum k (zip yind yval))"
proof -
  have sm: "strict_mono_on {0..<length zs} (nth zs)" if "sorted zs" "distinct zs" for zs :: "nat list"
    using that sorted_wrt_nth_less [of "(<)" zs] by (auto simp: strict_mono_on_def strict_sorted_iff)
  let ?g = "\<lambda>k. \<Sum>j<length yind. if k = yind ! j then yval ! j else 0"
  have g: "?g k = entry_sum k (zip yind yval)" for k
  proof -
    have z: "zip yind yval = map (\<lambda>p. (yind ! p, yval ! p)) [0..<length yind]"
      using y(3) by (intro nth_equalityI) auto
    show ?thesis unfolding z entry_sum_def
      by (auto simp: filter_map comp_def sum_list_filter_cond sum_list_map_upt intro!: sum.cong)
  qed
  have "sparse_dot xind xval yind yval
      = (\<Sum>i<length xind. \<Sum>j<length yind. if xind ! i = yind ! j then xval ! i * yval ! j else 0)"
    unfolding sparse_dot_def
    using sparse_dot_loop_spec [OF sm sm, of xind yind "\<lambda>i j. xval ! i * yval ! j" 0] x y by (simp add: atLeast0LessThan)
  also have "\<dots> = (\<Sum>i<length xind. xval ! i * ?g (xind ! i))"
    by (rule sum.cong [OF refl]) (simp add: sum_distrib_left if_distrib cong: if_cong)
  also have "\<dots> = (\<Sum>k<n. entry_sum k (zip xind xval) * ?g k)"
    using x(3) n by (intro sum_positions) auto
  finally show ?thesis unfolding g .
qed

lemma sv_sort_entries:
  fixes v :: "'f::comm_monoid_add sparse_vector"
  assumes wf: "sv_wf v"
  shows "sv_wf (sv_sort v)" and "sorted (sv_i (sv_sort v))" and "sv_n (sv_sort v) = sv_n v"
    and "sv_elem (sv_sort v) k = sv_elem v k"
proof -
  note w = wf [unfolded sv_wf_def]
  consider (one) "length (sv_i v) = 1" | (dense) "length (sv_i v) \<noteq> 1" "10 * length (sv_i v) > 3 * sv_n v"
    | (cmp) "length (sv_i v) \<noteq> 1" "\<not> 10 * length (sv_i v) > 3 * sv_n v" by blast
  then have "sv_wf (sv_sort v) \<and> sorted (sv_i (sv_sort v)) \<and> sv_n (sv_sort v) = sv_n v
      \<and> sv_elem (sv_sort v) k = sv_elem v k"
  proof cases
    case one
    then obtain a where "sv_i v = [a]" by (auto simp: length_Suc_conv)
    then show ?thesis using one wf by (simp add: sv_sort_def)
  next
    case dense
    let ?ks = "filter (\<lambda>k. sv_elem v k \<noteq> 0) [0..<sv_n v]"
    have b: "for_range 0 (length (sv_i v)) (\<lambda>k b. b[sv_i v ! k := sv_x v ! k]) (replicate (sv_n v) 0)
        = map (sv_elem v) [0..<sv_n v]"
      unfolding sv_elem_def [abs_def] using w by (intro nth_dense) auto
    have f: "filter (\<lambda>k. map (sv_elem v) [0..<sv_n v] ! k \<noteq> 0) [0..<sv_n v] = ?ks"
      by (rule filter_cong) auto
    have "map (\<lambda>k. map (sv_elem v) [0..<sv_n v] ! k) ?ks = map (sv_elem v) ?ks" by auto
    then have eq: "sv_sort v = v\<lparr>sv_i := ?ks, sv_x := map (sv_elem v) ?ks\<rparr>"
      using dense by (simp add: sv_sort_def Let_def b collect_pairs f)
    have "sv_elem v k = 0" if "\<not> k < sv_n v"
      using that w unfolding sv_elem_def by (intro entry_sum_none) (auto dest: set_zip_leftD)
    then show ?thesis
      unfolding eq by (auto simp: sv_wf_def sv_elem_def [of "_\<lparr>sv_x := _\<rparr>"] zip_map_self entry_sum_graph
          intro!: sorted_wrt_filter)
  next
    case cmp
    let ?perm = "sort_key (nth (sv_i v)) [0..<length (sv_i v)]"
    have eq: "sv_sort v = v\<lparr>sv_i := map (nth (sv_i v)) ?perm, sv_x := map (nth (sv_x v)) ?perm\<rparr>"
      using cmp by (simp add: sv_sort_def Let_def)
    have mi: "mset (map (nth (sv_i v)) ?perm) = mset (sv_i v)"
      by (simp only: mset_map mset_sort) (simp only: mset_map [symmetric] map_nth)
    have "zip (sv_i v) (sv_x v) = map (\<lambda>p. (sv_i v ! p, sv_x v ! p)) [0..<length (sv_i v)]"
      using w by (intro nth_equalityI) auto
    moreover have "zip (map (nth (sv_i v)) ?perm) (map (nth (sv_x v)) ?perm) = map (\<lambda>p. (sv_i v ! p, sv_x v ! p)) ?perm"
      by (simp add: zip_map_map zip_same_conv_map comp_def)
    ultimately have "mset (zip (sv_i (sv_sort v)) (sv_x (sv_sort v))) = mset (zip (sv_i v) (sv_x v))"
      by (simp add: eq)
    then have "sv_elem (sv_sort v) k = sv_elem v k"
      unfolding sv_elem_def by (rule entry_sum_mset)
    moreover have "sv_wf (sv_sort v)"
      using w mset_eq_setD [OF mi] mset_eq_imp_distinct_iff [OF mi] by (simp add: sv_wf_def eq)
    ultimately show ?thesis by (simp add: eq)
  qed
  then show "sv_wf (sv_sort v)" "sorted (sv_i (sv_sort v))" "sv_n (sv_sort v) = sv_n v"
    "sv_elem (sv_sort v) k = sv_elem v k" by auto
qed

text \<open>Permutations.\<close>

lemma perm_surj:
  assumes "distinct p" "\<forall>k \<in> set p. k < length p"
  shows "set p = {..<length p}"
  using assms by (intro card_subset_eq) (auto simp: distinct_card)

lemma permute_vector_eq: "length x = length p \<Longrightarrow> permute_vector p b x = map (\<lambda>k. b ! (p ! k)) [0..<length p]"
  by (auto simp: permute_vector_def fill_range intro!: nth_equalityI)

section \<open>Properties\<close>

text \<open>
  The merge loop of \<open>sparse_dot\<close> terminates and computes the inner product: for
  strictly increasing index vectors the result is the sum over all indices of the product of
  the two stored elements.
\<close>

theorem sparse_dot_correct:
  fixes xval yval :: "'f::comm_ring_1 list"
  assumes "sorted xind" "distinct xind" "length xval = length xind"
    and "sorted yind" "distinct yind" "length yval = length yind"
    and "\<forall>k \<in> set xind. k < n"
  shows "sparse_dot xind xval yind yval
         = (\<Sum>k<n. entry_sum k (zip xind xval) * entry_sum k (zip yind yval))"
  by (rule sparse_dot_spec [OF assms])

theorem sparse_dot_correct_witness:
  "sparse_dot [0, 2, 5] [1, 2, 3] [2, 3, 5] [10, 20, 30::int] = 110"
proof -
  have "(\<Sum>k<6. entry_sum k (zip [0, 2, 5] [1, 2, 3]) * entry_sum k (zip [2, 3, 5] [10, 20, 30])) = (110::int)"
    by code_simp
  then show ?thesis using sparse_dot_correct [of "[0, 2, 5]" "[1, 2, 3]" "[2, 3, 5]" "[10, 20, 30::int]" 6] by simp
qed

text \<open>
  C35. \<open>sort\<close> keeps the vector: on distinct indices in range both of its branches
  return increasing indices, a well-formed vector of the same length and the same element at
  every index (explicit zeros may be dropped).
\<close>

theorem sv_sort_correct:
  fixes v :: "'f::comm_monoid_add sparse_vector"
  assumes "sv_wf v"
  shows "sv_wf (sv_sort v) \<and> sorted (sv_i (sv_sort v)) \<and> sv_n (sv_sort v) = sv_n v \<and>
         (\<forall>k. sv_elem (sv_sort v) k = sv_elem v k)"
  using sv_sort_entries [OF assms] by blast

theorem sv_sort_correct_witness:
  "let v = \<lparr>sv_n = 20, sv_i = [7, 3, 11], sv_x = [1, 0, 3::int]\<rparr>;
       w = \<lparr>sv_n = 4, sv_i = [3, 0, 1], sv_x = [1, 0, 3::int]\<rparr>
   in sorted (sv_i (sv_sort v)) \<and> sorted (sv_i (sv_sort w)) \<and> sv_i (sv_sort v) = [3, 7, 11] \<and> sv_i (sv_sort w) = [1, 3]"
proof -
  let ?v = "\<lparr>sv_n = 20, sv_i = [7, 3, 11], sv_x = [1, 0, 3::int]\<rparr>"
  let ?w = "\<lparr>sv_n = 4, sv_i = [3, 0, 1], sv_x = [1, 0, 3::int]\<rparr>"
  have "sv_wf ?v" "sv_wf ?w" "sv_i (sv_sort ?v) = [3, 7, 11]" "sv_i (sv_sort ?w) = [1, 3]" by code_simp+
  then show ?thesis using sv_sort_correct [of ?v] sv_sort_correct [of ?w] by (simp add: Let_def)
qed

text \<open>
  Dense and sparse forms round trip: \<open>to_dense\<close> after \<open>from_dense\<close> is the
  identity, and \<open>from_dense\<close> stores no zero and increasing indices.
\<close>

lemma dense_sparse_roundtrip:
  fixes d :: "'f::comm_monoid_add list"
  shows "to_dense (from_dense d v) = d \<and> sv_wf (from_dense d v) \<and> sorted (sv_i (from_dense d v)) \<and>
         0 \<notin> set (sv_x (from_dense d v))"
proof -
  have wf: "sv_wf (from_dense d v)" by (auto simp: from_dense_eq sv_wf_def)
  then show ?thesis
    by (auto simp: to_dense_eq from_dense_eq sv_elem_def zip_map_self entry_sum_graph
        intro!: nth_equalityI sorted_wrt_filter)
qed

text \<open>
  \<open>permute_vector\<close> and \<open>inverse_permute_vector\<close> are inverse to each other for
  a permutation p, and \<open>inverse_permutation\<close> computes the permutation that makes one
  the other.
\<close>

theorem permutations_inverse:
  fixes b :: "'f list"
  assumes "distinct p" "\<forall>k \<in> set p. k < length p" "length b = length p" "length x = length p" "length y = length p"
  shows "permute_vector p (inverse_permute_vector p b x) y = b \<and>
         inverse_permute_vector p (permute_vector p b y) x = b \<and>
         (\<forall>k < length p. inverse_permutation p pinv ! (p ! k) = k \<and> p ! (inverse_permutation p pinv ! k) = k)"
proof -
  let ?inv = "inverse_permutation p pinv" and ?v = "if length pinv \<noteq> length p then vresize (length p) 0 pinv else pinv"
  have fwd: "inverse_permute_vector p c x ! (p ! k) = c ! k" if "k < length p" for k and c :: "'f list"
    unfolding inverse_permute_vector_def using that assms by (intro nth_inverse_permute) auto
  have inv: "?inv ! (p ! k) = k" if "k < length p" for k
    unfolding inverse_permutation_def using that assms by (intro nth_inverse_permute) auto
  have onto: "\<exists>l < length p. k = p ! l" if "k < length p" for k
    using that perm_surj [OF assms(1,2)] by (auto simp: set_conv_nth)
  have "permute_vector p (inverse_permute_vector p b x) y = b"
    using assms fwd by (auto simp: permute_vector_eq intro!: nth_equalityI)
  moreover have "inverse_permute_vector p (permute_vector p b y) x = b"
  proof (rule nth_equalityI)
    show "length (inverse_permute_vector p (permute_vector p b y) x) = length b"
      using assms by (simp add: inverse_permute_vector_def length_fold_update)
    fix k assume "k < length (inverse_permute_vector p (permute_vector p b y) x)"
    then obtain l where l: "l < length p" "k = p ! l"
      using onto assms by (auto simp: inverse_permute_vector_def length_fold_update)
    then show "inverse_permute_vector p (permute_vector p b y) x ! k = b ! k"
      using assms(5) by (simp add: fwd permute_vector_eq)
  qed
  moreover have "p ! (?inv ! k) = k" if "k < length p" for k
    using onto [OF that] inv by auto
  ultimately show ?thesis using inv by blast
qed

theorem permutations_inverse_witness:
  "permute_vector [2, 0, 1] (inverse_permute_vector [2, 0, 1] ''abc'' ''...'') ''...'' = ''abc'' \<and>
   inverse_permutation [2, 0, 1] [] = [1, 2, 0]"
proof -
  have "inverse_permutation [2, 0, 1] [] = [1, 2, 0]" by code_simp
  then show ?thesis using permutations_inverse [of "[2, 0, 1]" "''abc''" "''...''" "''...''" "[]"] by simp
qed

end
