(* ===== verification/Triangle_Solve.thy ===== *)
theory Triangle_Solve
  imports Sparse_Vector Complex_Main
begin

text \<open>
  The dense triangular solves of \<open>cpp/src/dual_simplex/triangle_solve.hpp\<close>. A lower
  triangular factor stores the diagonal first in each column, an upper triangular one stores
  it last. The right-hand side is overwritten by the solution; the second component of the
  state is the running work estimate.
\<close>

section \<open>The solves\<close>

definition lower_triangular_solve :: "'f::field csc_matrix \<Rightarrow> 'f list \<times> 'f \<Rightarrow> 'f list \<times> 'f" where
  "lower_triangular_solve L = (\<lambda>(x, work_estimate).
     let n = csc_n L;
         x = for_range 0 n
               (\<lambda>j x. let cstart = col_start L ! j; cend = col_start L ! (j + 1)
                      in if x ! j \<noteq> 0
                         then let x = x[j := x ! j / csc_x L ! cstart];
                                  x_j = x ! j
                              in for_range (cstart + 1) cend
                                   (\<lambda>p x. x[csc_i L ! p := x ! (csc_i L ! p) - csc_x L ! p * x_j]) x
                         else x) x
     in (x, work_estimate + of_nat (3 * n + 3 * col_start L ! n)))"

definition lower_triangular_transpose_solve :: "'f::field csc_matrix \<Rightarrow> 'f list \<times> 'f \<Rightarrow> 'f list \<times> 'f" where
  "lower_triangular_transpose_solve L = (\<lambda>(x, work_estimate).
     let n = csc_n L;
         x = fold
               (\<lambda>j x. let cstart = col_start L ! j + 1; cend = col_start L ! (j + 1);
                          x = for_range cstart cend (\<lambda>p x. x[j := x ! j - csc_x L ! p * x ! (csc_i L ! p)]) x
                      in x[j := x ! j / csc_x L ! (col_start L ! j)])
               (rev [0..<n]) x
     in (x, work_estimate + of_nat (6 * n + 4 * col_start L ! n)))"

definition upper_triangular_solve :: "'f::field csc_matrix \<Rightarrow> 'f list \<times> 'f \<Rightarrow> 'f list \<times> 'f" where
  "upper_triangular_solve U = (\<lambda>(x, work_estimate).
     let n = csc_n U;
         (x, work_estimate) =
           fold
             (\<lambda>j (x, work_estimate).
                let cstart = col_start U ! j; cend = col_start U ! (j + 1) - 1
                in if x ! j \<noteq> 0
                   then let x = x[j := x ! j / csc_x U ! cend];
                            x_j = x ! j;
                            x = for_range cstart cend
                                  (\<lambda>p x. x[csc_i U ! p := x ! (csc_i U ! p) - csc_x U ! p * x_j]) x
                        in (x, work_estimate + of_nat (3 * (cend - cstart) + 3))
                   else (x, work_estimate))
             (rev [0..<n]) (x, work_estimate)
     in (x, work_estimate + of_nat (3 * n)))"

definition upper_triangular_transpose_solve :: "'f::field csc_matrix \<Rightarrow> 'f list \<times> 'f \<Rightarrow> 'f list \<times> 'f" where
  "upper_triangular_transpose_solve U = (\<lambda>(x, work_estimate).
     let n = csc_n U;
         x = for_range 0 n
               (\<lambda>j x. let cstart = col_start U ! j; cend = col_start U ! (j + 1) - 1;
                          x = for_range cstart cend (\<lambda>p x. x[j := x ! j - csc_x U ! p * x ! (csc_i U ! p)]) x
                      in x[j := x ! j / csc_x U ! cend]) x
     in (x, work_estimate + of_nat (4 * n + 4 * col_start U ! n)))"

section \<open>Elimination along an order of the columns\<close>

text \<open>
  The four loops are two: eliminate the unknowns in an order such that a column meets only
  later unknowns, or substitute in an order such that it meets only earlier ones. A column is
  its diagonal and the list of the other entries.
\<close>

definition subtract :: "'f::ring \<Rightarrow> nat \<times> 'f \<Rightarrow> 'f list \<Rightarrow> 'f list" where
  "subtract xj e x = x[fst e := x ! fst e - snd e * xj]"

definition eliminate :: "(nat \<Rightarrow> 'f::field) \<Rightarrow> (nat \<Rightarrow> (nat \<times> 'f) list) \<Rightarrow> nat \<Rightarrow> 'f list \<Rightarrow> 'f list" where
  "eliminate d off j x =
     (if x ! j \<noteq> 0 then fold (subtract (x ! j / d j)) (off j) (x[j := x ! j / d j]) else x)"

definition substitute :: "(nat \<Rightarrow> 'f::field) \<Rightarrow> (nat \<Rightarrow> (nat \<times> 'f) list) \<Rightarrow> nat \<Rightarrow> 'f list \<Rightarrow> 'f list" where
  "substitute d off j x =
     (let x = fold (\<lambda>e x. x[j := x ! j - snd e * x ! fst e]) (off j) x in x[j := x ! j / d j])"

lemma length_fold_subtract [simp]: "length (fold (subtract c) es x) = length x"
  by (induction es arbitrary: x) (auto simp: subtract_def)

lemma nth_fold_subtract: "r < length x \<Longrightarrow> fold (subtract c) es x ! r = x ! r - entry_sum r es * c"
proof (induction es arbitrary: x)
  case (Cons e es)
  then show ?case by (cases "fst e = r") (auto simp: subtract_def algebra_simps)
qed simp

lemma length_eliminate [simp]: "length (eliminate d off j x) = length x"
  by (simp add: eliminate_def)

lemma nth_eliminate:
  assumes "r < length x" "j < length x" "j \<notin> fst ` set (off j)"
  shows "eliminate d off j x ! r
         = (if r = j then x ! j / d j else x ! r - entry_sum r (off j) * (x ! j / d j))"
  using assms by (auto simp: eliminate_def nth_fold_subtract entry_sum_none)

lemma fold_own:
  fixes x :: "'f::field list"
  assumes "j < length x" "\<forall>e \<in> set es. fst e \<noteq> j"
  shows "fold (\<lambda>e x. x[j := x ! j - snd e * x ! fst e]) es x
         = x[j := x ! j - sum_list (map (\<lambda>e. snd e * x ! fst e) es)]"
  using assms
proof (induction es arbitrary: x)
  case (Cons e es)
  have "sum_list (map (\<lambda>e. snd e * x[j := c] ! fst e) es) = sum_list (map (\<lambda>e. snd e * x ! fst e) es)" for c
    using Cons.prems by (intro arg_cong [where f = sum_list] map_cong refl) (metis list.set_intros(2) nth_list_update_neq)
  then show ?case using Cons by (simp add: diff_diff_eq)
qed simp

lemma substitute_eq:
  "j < length x \<Longrightarrow> \<forall>e \<in> set (off j). fst e \<noteq> j \<Longrightarrow>
   substitute d off j x = x[j := (x ! j - sum_list (map (\<lambda>e. snd e * x ! fst e) (off j))) / d j]"
  by (simp add: substitute_def fold_own)

text \<open>The coefficient that a column stores for an unknown.\<close>

definition coeff :: "(nat \<Rightarrow> 'f::field) \<Rightarrow> (nat \<Rightarrow> (nat \<times> 'f) list) \<Rightarrow> nat \<Rightarrow> nat \<Rightarrow> 'f" where
  "coeff d off i j = (if i = j then d j else 0) + entry_sum i (off j)"

lemma eliminate_some:
  assumes ord: "distinct js" "set js \<subseteq> {..<n}" and d: "\<forall>j \<in> set js. d j \<noteq> 0"
    and after: "\<forall>ys j zs. js = ys @ j # zs \<longrightarrow> (\<forall>e \<in> set (off j). fst e \<in> set zs)"
    and x: "length x = n"
  defines "x' \<equiv> fold (eliminate d off) js x"
  shows "length x' = n"
    and "i < n \<Longrightarrow> x ! i = (\<Sum>c\<in>set js. coeff d off i c * x' ! c) + (if i \<in> set js then 0 else x' ! i)"
proof -
  have off: "fst e \<in> set zs" if "js = ys @ j # zs" "e \<in> set (off j)" for ys j zs e using after that by blast
  define P where "P ys v = (length v = n \<and>
    (\<forall>i<n. x ! i = (\<Sum>c\<in>set ys. coeff d off i c * v ! c) + (if i \<in> set ys then 0 else v ! i)))" for ys v
  have "P js x'"
    unfolding x'_def
  proof (rule fold_invariant_prefix [where P = P])
    show "P [] x" using x by (simp add: P_def)
    fix ys j zs v assume js: "js = ys @ j # zs" and p: "P ys v"
    have jn: "j < n" "j \<notin> set ys" "\<forall>c \<in> set ys. c < n" "j \<in> set js" using js ord by auto
    have notin: "c \<notin> fst ` set (off j)" if "c \<in> set ys \<or> c = j" for c
      using off [OF js] ord(1) that js by auto
    let ?v = "eliminate d off j v"
    have len: "length v = n" using p by (simp add: P_def)
    have v: "?v ! r = (if r = j then v ! j / d j else v ! r - entry_sum r (off j) * (v ! j / d j))" if "r < n" for r
      using that jn len notin by (intro nth_eliminate) auto
    have old: "?v ! c = v ! c" if "c \<in> set ys" for c
      using v [of c] that jn notin [of c] by (auto simp: entry_sum_none)
    have "x ! i = (\<Sum>c\<in>set (ys @ [j]). coeff d off i c * ?v ! c) + (if i \<in> set (ys @ [j]) then 0 else ?v ! i)"
      if i: "i < n" for i
    proof -
      have dj: "d j \<noteq> 0" using d jn by blast
      have "(\<Sum>c\<in>set (ys @ [j]). coeff d off i c * ?v ! c) = (\<Sum>c\<in>set ys. coeff d off i c * v ! c) + coeff d off i j * (v ! j / d j)"
        using jn old v [OF jn(1)] by (simp add: add.commute)
      moreover have "x ! i = (\<Sum>c\<in>set ys. coeff d off i c * v ! c) + (if i \<in> set ys then 0 else v ! i)"
        using p i by (simp add: P_def)
      ultimately show ?thesis
        using v [OF i] jn notin [of i] dj by (auto simp: coeff_def entry_sum_none)
    qed
    then show "P (ys @ [j]) ?v" by (simp add: P_def len)
  qed
  then show "length x' = n" "i < n \<Longrightarrow> x ! i = (\<Sum>c\<in>set js. coeff d off i c * x' ! c) + (if i \<in> set js then 0 else x' ! i)"
    unfolding P_def by blast+
qed

lemma eliminate_all:
  assumes ord: "distinct js" "set js = {..<n}" and d: "\<forall>j<n. d j \<noteq> 0"
    and after: "\<forall>ys j zs. js = ys @ j # zs \<longrightarrow> (\<forall>e \<in> set (off j). fst e \<in> set zs)"
    and x: "length x = n" and i: "i < n"
  defines "x' \<equiv> fold (eliminate d off) js x"
  shows "length x' = n" and "(\<Sum>c<n. coeff d off i c * x' ! c) = x ! i"
proof -
  have s: "set js \<subseteq> {..<n}" "\<forall>j \<in> set js. d j \<noteq> 0" using ord d by auto
  note e = eliminate_some [OF ord(1) s after x]
  show "length x' = n" "(\<Sum>c<n. coeff d off i c * x' ! c) = x ! i"
    unfolding x'_def using e(1) e(2) [OF i] i ord(2) by simp_all
qed

lemma substitute_all:
  assumes ord: "distinct js" "set js = {..<n}" and d: "\<forall>j<n. d j \<noteq> 0"
    and before: "\<forall>ys j zs. js = ys @ j # zs \<longrightarrow> (\<forall>e \<in> set (off j). fst e \<in> set ys)"
    and x: "length x = n" and j: "j < n"
  defines "x' \<equiv> fold (substitute d off) js x"
  shows "length x' = n" and "(\<Sum>i<n. coeff d off i j * x' ! i) = x ! j"
proof -
  have off: "fst e \<in> set ys" if "js = ys @ j # zs" "e \<in> set (off j)" for ys j zs e using before that by blast
  define eqn where "eqn v j = d j * v ! j + sum_list (map (\<lambda>e. snd e * v ! fst e) (off j))" for v j
  define P where "P ys v = (length v = n \<and> (\<forall>j<n. if j \<in> set ys then eqn v j = x ! j else v ! j = x ! j))" for ys v
  have "P js x'"
    unfolding x'_def
  proof (rule fold_invariant_prefix [where P = P])
    show "P [] x" using x by (simp add: P_def)
    fix ys j zs v assume js: "js = ys @ j # zs" and p: "P ys v"
    have jn: "j < n" "j \<notin> set ys" "d j \<noteq> 0" "length v = n" using js ord d p by (auto simp: P_def)
    have offj: "\<forall>e \<in> set (off j). fst e \<noteq> j" using off [OF js] jn by auto
    let ?v = "substitute d off j v"
    let ?c = "(v ! j - sum_list (map (\<lambda>e. snd e * v ! fst e) (off j))) / d j"
    have v: "?v = v[j := ?c]" using jn offj by (intro substitute_eq) auto
    have keep: "sum_list (map (\<lambda>e. snd e * v[j := ?c] ! fst e) (off k)) = sum_list (map (\<lambda>e. snd e * v ! fst e) (off k))"
      if k: "k \<in> set ys \<or> k = j" for k
    proof -
      have "fst e \<noteq> j" if e: "e \<in> set (off k)" for e
      proof (cases "k = j")
        case True then show ?thesis using offj e by auto
      next
        case False
        then obtain us vs where "ys = us @ k # vs" using k by (auto dest: split_list)
        then have "fst e \<in> set ys" using off [of us k "vs @ j # zs" e] js e by auto
        then show ?thesis using jn by auto
      qed
      then show ?thesis by (intro arg_cong [where f = sum_list] map_cong refl) (metis nth_list_update_neq)
    qed
    have "v ! j = x ! j" using p jn by (simp add: P_def)
    then have "eqn ?v j = x ! j" unfolding eqn_def v keep [of j, simplified] using jn by simp
    moreover have "eqn ?v k = eqn v k" if "k \<in> set ys" for k
      using keep [of k] that jn by (auto simp: eqn_def v nth_list_update)
    ultimately show "P (ys @ [j]) ?v" using p jn by (auto simp: P_def v)
  qed
  then have len: "length x' = n" and e: "eqn x' j = x ! j" using j ord by (auto simp: P_def)
  show "length x' = n" by (rule len)
  obtain ys zs where js: "js = ys @ j # zs" using j ord by (metis lessThan_iff split_list)
  have "\<forall>e \<in> set (off j). fst e < n" using off [OF js] ord js by auto
  from sum_entries [OF this, of "nth x'"]
  have "eqn x' j = (\<Sum>i<n. coeff d off i j * x' ! i)"
    using j by (simp add: eqn_def coeff_def distrib_right sum.distrib if_distrib [of "\<lambda>a. a * _"] cong: if_cong)
  then show "(\<Sum>i<n. coeff d off i j * x' ! i) = x ! j" using e by simp
qed

section \<open>Triangular factors\<close>

definition lower_tri :: "'f::zero csc_matrix \<Rightarrow> bool" where
  "lower_tri L \<longleftrightarrow> csc_wf L \<and> csc_m L = csc_n L \<and>
     (\<forall>j < csc_n L. case col_entries L j of [] \<Rightarrow> False
        | e # es \<Rightarrow> fst e = j \<and> snd e \<noteq> 0 \<and> (\<forall>e \<in> set es. j < fst e))"

definition upper_tri :: "'f::zero csc_matrix \<Rightarrow> bool" where
  "upper_tri U \<longleftrightarrow> csc_wf U \<and> csc_m U = csc_n U \<and>
     (\<forall>j < csc_n U. case rev (col_entries U j) of [] \<Rightarrow> False
        | e # es \<Rightarrow> fst e = j \<and> snd e \<noteq> 0 \<and> (\<forall>e \<in> set es. fst e < j))"

definition l_diag :: "'f csc_matrix \<Rightarrow> nat \<Rightarrow> 'f" where
  "l_diag L j = csc_x L ! (col_start L ! j)"

definition l_off :: "'f csc_matrix \<Rightarrow> nat \<Rightarrow> (nat \<times> 'f) list" where
  "l_off L j = map (\<lambda>p. (csc_i L ! p, csc_x L ! p)) [col_start L ! j + 1..<col_start L ! (j + 1)]"

definition u_diag :: "'f csc_matrix \<Rightarrow> nat \<Rightarrow> 'f" where
  "u_diag U j = csc_x U ! (col_start U ! (j + 1) - 1)"

definition u_off :: "'f csc_matrix \<Rightarrow> nat \<Rightarrow> (nat \<times> 'f) list" where
  "u_off U j = map (\<lambda>p. (csc_i U ! p, csc_x U ! p)) [col_start U ! j..<col_start U ! (j + 1) - 1]"

lemma lower_tri_col:
  assumes "lower_tri L" "j < csc_n L"
  shows "col_entries L j = (j, l_diag L j) # l_off L j" and "l_diag L j \<noteq> 0" and "\<forall>e \<in> set (l_off L j). j < fst e"
proof -
  from assms have ne: "col_entries L j \<noteq> []" by (auto simp: lower_tri_def split: list.splits)
  then have "col_start L ! j < col_start L ! Suc j" by (simp add: col_entries_def)
  then have eq: "col_entries L j = (csc_i L ! (col_start L ! j), l_diag L j) # l_off L j"
    by (simp add: col_entries_def l_diag_def l_off_def upt_conv_Cons)
  have "case col_entries L j of [] \<Rightarrow> False
        | e # es \<Rightarrow> fst e = j \<and> snd e \<noteq> 0 \<and> (\<forall>e \<in> set es. j < fst e)" using assms by (simp add: lower_tri_def)
  then show "col_entries L j = (j, l_diag L j) # l_off L j" "l_diag L j \<noteq> 0" "\<forall>e \<in> set (l_off L j). j < fst e"
    unfolding eq by auto
qed

lemma upper_tri_col:
  assumes "upper_tri U" "j < csc_n U"
  shows "col_entries U j = u_off U j @ [(j, u_diag U j)]" and "u_diag U j \<noteq> 0" and "\<forall>e \<in> set (u_off U j). fst e < j"
proof -
  let ?e = "col_start U ! Suc j"
  from assms have ne: "col_entries U j \<noteq> []" by (auto simp: upper_tri_def split: list.splits)
  then have lt: "col_start U ! j < ?e" by (simp add: col_entries_def)
  then have "[col_start U ! j..<?e] = [col_start U ! j..<?e - 1] @ [?e - 1]"
    using upt_Suc_append [of "col_start U ! j" "?e - 1"] by simp
  then have eq: "col_entries U j = u_off U j @ [(csc_i U ! (?e - 1), u_diag U j)]"
    by (simp add: col_entries_def u_diag_def u_off_def)
  have "case rev (col_entries U j) of [] \<Rightarrow> False
        | e # es \<Rightarrow> fst e = j \<and> snd e \<noteq> 0 \<and> (\<forall>e \<in> set es. fst e < j)" using assms by (simp add: upper_tri_def)
  then show "col_entries U j = u_off U j @ [(j, u_diag U j)]" "u_diag U j \<noteq> 0" "\<forall>e \<in> set (u_off U j). fst e < j"
    unfolding eq by auto
qed

lemma coeff_lower: "lower_tri L \<Longrightarrow> j < csc_n L \<Longrightarrow> coeff (l_diag L) (l_off L) i j = csc_elem L i j"
  by (simp add: coeff_def csc_elem_def lower_tri_col(1) eq_commute)

lemma coeff_upper: "upper_tri U \<Longrightarrow> j < csc_n U \<Longrightarrow> coeff (u_diag U) (u_off U) i j = csc_elem U i j"
  by (simp add: coeff_def csc_elem_def upper_tri_col(1) eq_commute add.commute)

lemma upt_split: "[0..<n] = ys @ j # zs \<Longrightarrow> ys = [0..<j] \<and> zs = [Suc j..<n] \<and> j < n"
proof -
  assume a: "[0..<n] = ys @ j # zs"
  have len: "length ys + Suc (length zs) = n" using arg_cong [OF a, of length] by simp
  then have j: "j = length ys" using arg_cong [OF a, of "\<lambda>l. l ! length ys"] by (simp add: nth_append)
  have "[0..<n] = [0..<j] @ j # [Suc j..<n]" using len j upt_append [of 0 j n] by (simp add: upt_conv_Cons)
  then show ?thesis using a j len by simp
qed

lemma rev_upt_split: "rev [0..<n] = ys @ j # zs \<Longrightarrow> ys = rev [Suc j..<n] \<and> zs = rev [0..<j] \<and> j < n"
  using upt_split [of n "rev zs" j "rev ys"] by (auto simp: rev_swap)

lemma lower_solve_eq:
  "fst (lower_triangular_solve L (x, w)) = fold (eliminate (l_diag L) (l_off L)) [0..<csc_n L] x"
  if "lower_tri L" "length x = csc_n L"
proof -
  let ?f = "\<lambda>j x. let cstart = col_start L ! j; cend = col_start L ! (j + 1)
      in if x ! j \<noteq> 0
         then let x = x[j := x ! j / csc_x L ! cstart]; x_j = x ! j
              in for_range (cstart + 1) cend (\<lambda>p x. x[csc_i L ! p := x ! (csc_i L ! p) - csc_x L ! p * x_j]) x
         else x"
  have "?f j x = eliminate (l_diag L) (l_off L) j x" if "j < length x" for j x
    using that by (simp add: Let_def eliminate_def l_diag_def l_off_def fold_map comp_def subtract_def [abs_def])
  moreover have "length (fold (eliminate (l_diag L) (l_off L)) js x) = length x" for js x
    by (induction js arbitrary: x) auto
  ultimately have "fold ?f js x = fold (eliminate (l_diag L) (l_off L)) js x" if "\<forall>j \<in> set js. j < length x" for js x
    using that by (induction js arbitrary: x) auto
  then show ?thesis using \<open>length x = csc_n L\<close> by (simp add: lower_triangular_solve_def Let_def)
qed

lemma upper_solve_eq:
  "fst (upper_triangular_solve U (x, w)) = fold (eliminate (u_diag U) (u_off U)) (rev [0..<csc_n U]) x"
  if "length x = csc_n U"
proof -
  let ?f = "\<lambda>j (x, work_estimate).
      let cstart = col_start U ! j; cend = col_start U ! (j + 1) - 1
      in if x ! j \<noteq> 0
         then let x = x[j := x ! j / csc_x U ! cend]; x_j = x ! j;
                  x = for_range cstart cend (\<lambda>p x. x[csc_i U ! p := x ! (csc_i U ! p) - csc_x U ! p * x_j]) x
              in (x, work_estimate + of_nat (3 * (cend - cstart) + 3))
         else (x, work_estimate)"
  have one: "fst (?f j (x, w)) = eliminate (u_diag U) (u_off U) j x" if "j < length x" for j x w
    using that by (simp add: Let_def eliminate_def u_diag_def u_off_def fold_map comp_def subtract_def [abs_def])
  have "fst (fold ?f js (x, w)) = fold (eliminate (u_diag U) (u_off U)) js x" if "\<forall>j \<in> set js. j < length x" for js x w
    using that
  proof (induction js arbitrary: x w)
    case (Cons j js)
    obtain x' w' where st: "?f j (x, w) = (x', w')" by (rule prod.exhaust)
    have x': "x' = eliminate (u_diag U) (u_off U) j x" using one [of j x w] Cons.prems st by simp
    have "fst (fold ?f js (x', w')) = fold (eliminate (u_diag U) (u_off U)) js x'"
      using Cons.prems by (intro Cons.IH) (auto simp: x')
    then show ?case unfolding fold_simps comp_apply st x' .
  qed simp
  from this [of "rev [0..<csc_n U]" x w] show ?thesis
    using that by (simp add: upper_triangular_solve_def Let_def split_beta)
qed

lemma lower_transpose_eq:
  "fst (lower_triangular_transpose_solve L (x, w)) = fold (substitute (l_diag L) (l_off L)) (rev [0..<csc_n L]) x"
  by (simp add: lower_triangular_transpose_solve_def Let_def substitute_def [abs_def] l_diag_def l_off_def
      fold_map comp_def)

lemma upper_transpose_eq:
  "fst (upper_triangular_transpose_solve U (x, w)) = fold (substitute (u_diag U) (u_off U)) [0..<csc_n U] x"
  by (simp add: upper_triangular_transpose_solve_def Let_def substitute_def [abs_def] u_diag_def u_off_def
      fold_map comp_def)

section \<open>Properties\<close>

text \<open>
  C36. The solves with a lower triangular factor: overwriting a right-hand side b of the right
  length, \<open>lower_triangular_solve\<close> leaves an x with L * x = b (columns whose unknown is zero
  are skipped without loss) and \<open>lower_triangular_transpose_solve\<close> one with L' * x = b.
\<close>

theorem lower_triangular_solves_correct:
  fixes L :: "'f::field csc_matrix"
  assumes "lower_tri L" "length b = csc_n L"
  shows "length (fst (lower_triangular_solve L (b, w))) = csc_n L \<and>
         (\<forall>i < csc_n L. (\<Sum>c<csc_n L. csc_elem L i c * fst (lower_triangular_solve L (b, w)) ! c) = b ! i) \<and>
         length (fst (lower_triangular_transpose_solve L (b, w))) = csc_n L \<and>
         (\<forall>j < csc_n L. (\<Sum>i<csc_n L. csc_elem L i j * fst (lower_triangular_transpose_solve L (b, w)) ! i) = b ! j)"
proof (cases "csc_n L = 0")
  case True
  then show ?thesis using assms
    by (simp add: lower_triangular_solve_def lower_triangular_transpose_solve_def Let_def)
next
  case False
  note col = lower_tri_col [OF assms(1)]
  have wf: "csc_wf L" "csc_m L = csc_n L" using assms(1) by (auto simp: lower_tri_def)
  have bound: "e \<in> set (l_off L j) \<Longrightarrow> j < csc_n L \<Longrightarrow> j < fst e \<and> fst e < csc_n L" for e j
    using col [of j] csc_wf_col_bound [OF wf(1), of j e] wf(2) by auto
  have d: "\<forall>j < csc_n L. l_diag L j \<noteq> 0" using col(2) by blast
  have fw: "\<forall>ys j zs. [0..<csc_n L] = ys @ j # zs \<longrightarrow> (\<forall>e \<in> set (l_off L j). fst e \<in> set zs)"
    using upt_split bound by fastforce
  have bw: "\<forall>ys j zs. rev [0..<csc_n L] = ys @ j # zs \<longrightarrow> (\<forall>e \<in> set (l_off L j). fst e \<in> set ys)"
    using rev_upt_split bound by fastforce
  note el = eliminate_all [where js = "[0..<csc_n L]", OF _ _ d fw assms(2)]
    and su = substitute_all [where js = "rev [0..<csc_n L]", OF _ _ d bw assms(2)]
  show ?thesis
    using el su False coeff_lower [OF assms(1)]
    by (simp add: lower_solve_eq [OF assms] lower_transpose_eq atLeast0LessThan)
qed

theorem lower_triangular_solves_correct_witness:
  "let L = \<lparr>csc_m = 2, csc_n = 2, csc_nz_max = 3, col_start = [0, 2, 3], csc_i = [0, 1, 1], csc_x = [2, 3, 4::rat]\<rparr>
   in lower_tri L \<and> (\<Sum>c<2. csc_elem L 1 c * fst (lower_triangular_solve L ([2, 11], 0)) ! c) = 11 \<and>
      fst (lower_triangular_solve L ([2, 11], 0)) = [1, 2]"
proof -
  let ?L = "\<lparr>csc_m = 2, csc_n = 2, csc_nz_max = 3, col_start = [0, 2, 3], csc_i = [0, 1, 1], csc_x = [2, 3, 4::rat]\<rparr>"
  have l: "lower_tri ?L" by code_simp
  have "fst (lower_triangular_solve ?L ([2, 11], 0)) = [1, 2]" by code_simp
  then show ?thesis
    using lower_triangular_solves_correct [OF l, of "[2, 11]" 0] l by (auto simp: Let_def dest: spec [of _ 1])
qed

text \<open>
  C37. The solves with an upper triangular factor: \<open>upper_triangular_solve\<close> leaves an x
  with U * x = b and \<open>upper_triangular_transpose_solve\<close> one with U' * x = b.
\<close>

theorem upper_triangular_solves_correct:
  fixes U :: "'f::field csc_matrix"
  assumes "upper_tri U" "length b = csc_n U"
  shows "length (fst (upper_triangular_solve U (b, w))) = csc_n U \<and>
         (\<forall>i < csc_n U. (\<Sum>c<csc_n U. csc_elem U i c * fst (upper_triangular_solve U (b, w)) ! c) = b ! i) \<and>
         length (fst (upper_triangular_transpose_solve U (b, w))) = csc_n U \<and>
         (\<forall>j < csc_n U. (\<Sum>i<csc_n U. csc_elem U i j * fst (upper_triangular_transpose_solve U (b, w)) ! i) = b ! j)"
proof (cases "csc_n U = 0")
  case True
  then show ?thesis using assms
    by (simp add: upper_triangular_solve_def upper_triangular_transpose_solve_def Let_def)
next
  case False
  note col = upper_tri_col [OF assms(1)]
  have d: "\<forall>j < csc_n U. u_diag U j \<noteq> 0" using col(2) by blast
  have fw: "\<forall>ys j zs. rev [0..<csc_n U] = ys @ j # zs \<longrightarrow> (\<forall>e \<in> set (u_off U j). fst e \<in> set zs)"
    by (auto dest!: rev_upt_split col(3))
  have bw: "\<forall>ys j zs. [0..<csc_n U] = ys @ j # zs \<longrightarrow> (\<forall>e \<in> set (u_off U j). fst e \<in> set ys)"
    by (auto dest!: upt_split col(3))
  note el = eliminate_all [where js = "rev [0..<csc_n U]", OF _ _ d fw assms(2)]
    and su = substitute_all [where js = "[0..<csc_n U]", OF _ _ d bw assms(2)]
  show ?thesis
    using el su False coeff_upper [OF assms(1)]
    by (simp add: upper_solve_eq [OF assms(2)] upper_transpose_eq atLeast0LessThan)
qed

theorem upper_triangular_solves_correct_witness:
  "let U = \<lparr>csc_m = 2, csc_n = 2, csc_nz_max = 3, col_start = [0, 1, 3], csc_i = [0, 0, 1], csc_x = [2, 3, 4::rat]\<rparr>
   in upper_tri U \<and> (\<Sum>i<2. csc_elem U i 1 * fst (upper_triangular_transpose_solve U ([2, 11], 0)) ! i) = 11 \<and>
      fst (upper_triangular_solve U ([8, 8], 0)) = [1, 2]"
proof -
  let ?U = "\<lparr>csc_m = 2, csc_n = 2, csc_nz_max = 3, col_start = [0, 1, 3], csc_i = [0, 0, 1], csc_x = [2, 3, 4::rat]\<rparr>"
  have u: "upper_tri ?U" by code_simp
  have "fst (upper_triangular_solve ?U ([8, 8], 0)) = [1, 2]" by code_simp
  then show ?thesis
    using upper_triangular_solves_correct [OF u, of "[2, 11]" 0] u by (auto simp: Let_def dest: spec [of _ 1])
qed

end
