(* ===== verification/Sparse_Reach.thy ===== *)
theory Sparse_Reach
  imports Triangle_Solve
begin

text \<open>
  Reachability in the graph of a triangular factor, \<open>reach\<close> and \<open>depth_first_search\<close> of
  \<open>dual_simplex/triangle_solve.cpp\<close>. A node is marked by flipping its column pointer below zero, and
  one array \<open>xi\<close> of \<open>2 m\<close> entries holds the recursion stack from the left, the output from
  position \<open>m\<close> downwards, and the paused positions of the stack in its second half. The loops are
  partial; that they return is part of what is shown.
\<close>

section \<open>Operations\<close>

definition FLIP :: "int \<Rightarrow> int" where "FLIP i = - i - 2"
definition UNFLIP :: "int \<Rightarrow> int" where "UNFLIP i = (if i < 0 then FLIP i else i)"
definition MARKED :: "int list \<Rightarrow> nat \<Rightarrow> bool" where "MARKED w j \<longleftrightarrow> w ! j < 0"
definition MARK :: "int list \<Rightarrow> nat \<Rightarrow> int list" where "MARK w j = w[j := FLIP (w ! j)]"

text \<open>The state of the search: marked column pointers, the array, the ends of the two stacks, the work counter.\<close>

record search =
  pointers :: "int list"
  xi :: "nat list"
  head :: int
  top :: nat
  work_count :: nat

definition column_of :: "int list option \<Rightarrow> nat \<Rightarrow> int" where
  "column_of pinv j = (case pinv of None \<Rightarrow> int j | Some perm \<Rightarrow> perm ! j)"

definition search_step :: "int list option \<Rightarrow> 'f csc_matrix \<Rightarrow> search \<Rightarrow> search" where
  "search_step pinv G s =
     (let m = csc_m G; h = nat (head s);
          j = xi s ! h;
          jnew = column_of pinv j;
          s = (if \<not> MARKED (pointers s) j
               then let w = MARK (pointers s) j
                    in s\<lparr>pointers := w, xi := (xi s)[m + h := (if jnew < 0 then 0 else nat (UNFLIP (w ! nat jnew)))]\<rparr>
               else s);
          p2 = (if jnew < 0 then 0 else nat (UNFLIP (pointers s ! nat (jnew + 1))));
          psav = xi s ! (m + h)
      in case find (\<lambda>p. \<not> MARKED (pointers s) (csc_i G ! p)) [psav..<p2] of
           Some p \<Rightarrow>
             s\<lparr>xi := (xi s)[m + h := p, h + 1 := csc_i G ! p], head := head s + 1, work_count := work_count s + 3 * (p - psav) + 10\<rparr>
         | None \<Rightarrow>
             s\<lparr>xi := (xi s)[m + h := 0, h := 0, top s - 1 := j], head := head s - 1, top := top s - 1,
               work_count := work_count s + 3 * (p2 - psav) + 10\<rparr>)"

partial_function (option) search_loop :: "int list option \<Rightarrow> 'f csc_matrix \<Rightarrow> search \<Rightarrow> search option" where
  "search_loop pinv G s = (if head s \<ge> 0 then search_loop pinv G (search_step pinv G s) else Some s)"

declare search_loop.simps [code]

definition depth_first_search :: "nat \<Rightarrow> int list option \<Rightarrow> 'f csc_matrix \<Rightarrow> search \<Rightarrow> search option" where
  "depth_first_search j pinv G s = search_loop pinv G (s\<lparr>head := 0, xi := (xi s)[0 := j]\<rparr>)"

fun reach_roots :: "int list option \<Rightarrow> 'f csc_matrix \<Rightarrow> nat list \<Rightarrow> search \<Rightarrow> search option" where
  "reach_roots pinv G [] s = Some s"
| "reach_roots pinv G (i # is) s =
     (if \<not> MARKED (pointers s) i
      then Option.bind (depth_first_search i pinv G s) (reach_roots pinv G is)
      else reach_roots pinv G is s)"

definition reach :: "nat list \<Rightarrow> int list option \<Rightarrow> 'f csc_matrix \<Rightarrow> nat list \<Rightarrow> nat \<Rightarrow> search option" where
  "reach bi pinv G xi0 work0 =
     map_option
       (\<lambda>s. s\<lparr>pointers := for_range (top s) (csc_m G) (\<lambda>p w. MARK w (xi s ! p)) (pointers s),
              work_count := work_count s + 4 * length bi + 3 * (csc_m G - top s)\<rparr>)
       (reach_roots pinv G bi \<lparr>pointers = map int (col_start G), xi = xi0, head = - 1, top = csc_m G, work_count = work0\<rparr>)"

section \<open>Marks\<close>

lemma FLIP_FLIP [simp]: "FLIP (FLIP i) = i" by (simp add: FLIP_def)
lemma FLIP_neg: "0 \<le> i \<Longrightarrow> FLIP i < 0" by (simp add: FLIP_def)

text \<open>The column pointers with the nodes of a set marked.\<close>

definition marked :: "nat list \<Rightarrow> nat set \<Rightarrow> int list" where
  "marked c M = map (\<lambda>j. if j \<in> M then FLIP (int (c ! j)) else int (c ! j)) [0..<length c]"

lemma marked_simps:
  "length (marked c M) = length c" "j < length c \<Longrightarrow> MARKED (marked c M) j \<longleftrightarrow> j \<in> M" "j < length c \<Longrightarrow> UNFLIP (marked c M ! j) = int (c ! j)"
  "j < length c \<Longrightarrow> j \<notin> M \<Longrightarrow> MARK (marked c M) j = marked c (insert j M)" "j < length c \<Longrightarrow> j \<in> M \<Longrightarrow> MARK (marked c M) j = marked c (M - {j})"
  "marked c {} = map int c"
proof -
  show "length (marked c M) = length c" by (simp add: marked_def)
  show "MARKED (marked c M) j \<longleftrightarrow> j \<in> M" "UNFLIP (marked c M ! j) = int (c ! j)" if "j < length c"
    using that FLIP_neg [of "int (c ! j)"] by (auto simp: marked_def MARKED_def UNFLIP_def)
  show "MARK (marked c M) j = marked c (insert j M)" if "j < length c" "j \<notin> M"
    using that by (auto intro!: nth_equalityI simp: MARK_def marked_def nth_list_update)
  show "MARK (marked c M) j = marked c (M - {j})" if "j < length c" "j \<in> M"
    using that by (auto intro!: nth_equalityI simp: MARK_def marked_def nth_list_update)
  show "marked c {} = map int c" by (auto intro!: nth_equalityI simp: marked_def)
qed

section \<open>The graph\<close>

definition first_edge :: "int list option \<Rightarrow> 'f csc_matrix \<Rightarrow> nat \<Rightarrow> nat" where
  "first_edge pinv G j = (if column_of pinv j < 0 then 0 else col_start G ! nat (column_of pinv j))"

definition last_edge :: "int list option \<Rightarrow> 'f csc_matrix \<Rightarrow> nat \<Rightarrow> nat" where
  "last_edge pinv G j = (if column_of pinv j < 0 then 0 else col_start G ! nat (column_of pinv j + 1))"

definition successors :: "int list option \<Rightarrow> 'f csc_matrix \<Rightarrow> nat \<Rightarrow> nat set" where
  "successors pinv G j = (\<lambda>p. csc_i G ! p) ` {first_edge pinv G j..<last_edge pinv G j}"

text \<open>A square matrix whose columns are in range, with a rank that grows along the edges that are no loops.\<close>

definition acyclic_graph :: "(nat \<Rightarrow> nat) \<Rightarrow> int list option \<Rightarrow> 'f csc_matrix \<Rightarrow> bool" where
  "acyclic_graph rank pinv G \<longleftrightarrow> csc_wf G \<and> csc_m G = csc_n G
     \<and> (\<forall>j < csc_m G. column_of pinv j < int (csc_n G))
     \<and> (\<forall>j < csc_m G. \<forall>i \<in> successors pinv G j. i \<noteq> j \<longrightarrow> rank j < rank i)"

inductive_set reachable_from :: "int list option \<Rightarrow> 'f csc_matrix \<Rightarrow> nat set \<Rightarrow> nat set" for pinv G R where
  root: "i \<in> R \<Longrightarrow> i \<in> reachable_from pinv G R"
| edge: "j \<in> reachable_from pinv G R \<Longrightarrow> i \<in> successors pinv G j \<Longrightarrow> i \<in> reachable_from pinv G R"

lemma graph_edges:
  assumes "acyclic_graph rank pinv G" "j < csc_m G"
  shows "length (col_start G) = Suc (csc_m G)" "column_of pinv j < int (csc_m G)"
    "p < last_edge pinv G j \<Longrightarrow> csc_i G ! p < csc_m G" "i \<in> successors pinv G j \<Longrightarrow> i < csc_m G"
proof -
  have wf: "compressed_ok (csc_m G) (csc_m G) (col_start G) (csc_i G) (csc_x G)" "column_of pinv j < int (csc_m G)"
    using assms by (auto simp: acyclic_graph_def csc_wf_def)
  then show "length (col_start G) = Suc (csc_m G)" "column_of pinv j < int (csc_m G)" by (auto simp: compressed_ok_def)
  have "last_edge pinv G j \<le> col_start G ! csc_m G"
    using wf by (auto simp: last_edge_def compressed_ok_def intro!: sorted_nth_mono)
  then show r: "csc_i G ! p < csc_m G" if "p < last_edge pinv G j" for p using wf that by (auto simp: compressed_ok_def)
  show "i < csc_m G" if "i \<in> successors pinv G j" for i using that r by (auto simp: successors_def)
qed

section \<open>The arrays of the search\<close>

text \<open>\<open>st\<close> is the stack from the bottom, \<open>ps\<close> its paused positions, \<open>out\<close> the output, \<open>M\<close> the marked nodes.\<close>

definition holds :: "'f csc_matrix \<Rightarrow> nat list \<Rightarrow> nat list \<Rightarrow> nat list \<Rightarrow> nat set \<Rightarrow> search \<Rightarrow> bool" where
  "holds G st ps out M s \<longleftrightarrow> length (xi s) = 2 * csc_m G \<and> head s = int (length st) - 1 \<and> length ps = length st
     \<and> (\<forall>k < length st. xi s ! k = st ! k \<and> xi s ! (csc_m G + k) = ps ! k)
     \<and> top s + length out = csc_m G \<and> (\<forall>k < length out. xi s ! (top s + k) = out ! k)
     \<and> pointers s = marked (col_start G) M \<and> length st + length out \<le> csc_m G"

lemma find_cong2: "(\<And>x. x \<in> set xs \<Longrightarrow> P x = Q x) \<Longrightarrow> find P xs = find Q xs"
  by (induction xs) auto

lemma search_step_holds:
  assumes g: "acyclic_graph rank pinv G" and h: "holds G (st @ [j]) (ps @ [q]) out M s" and j: "j < csc_m G"
  defines "M' \<equiv> insert j M" and "q' \<equiv> if j \<in> M then q else first_edge pinv G j"
  shows "case find (\<lambda>p. csc_i G ! p \<notin> M') [q'..<last_edge pinv G j] of
      Some p \<Rightarrow> Suc (length st + length out) < csc_m G \<longrightarrow>
        (\<exists>r. holds G (st @ [j, csc_i G ! p]) (ps @ [p, r]) out M' (search_step pinv G s))
    | None \<Rightarrow> holds G st ps (j # out) M' (search_step pinv G s)"
proof -
  let ?m = "csc_m G" and ?h = "length st" and ?c = "col_start G"
  note e = graph_edges [OF g j]
  have l: "length (xi s) = 2 * ?m" "head s = int ?h" "length ps = ?h" "top s + length out = ?m" "pointers s = marked ?c M"
    "Suc (?h + length out) \<le> ?m" using h by (auto simp: holds_def)
  have at: "xi s ! ?h = j" "xi s ! (?m + ?h) = q" using h by (auto simp: holds_def nth_append)
  have old: "xi s ! k = st ! k \<and> xi s ! (?m + k) = ps ! k" if "k < ?h" for k
  proof -
    have "k < length (st @ [j])" using that by simp
    then have "xi s ! k = (st @ [j]) ! k \<and> xi s ! (?m + k) = (ps @ [q]) ! k" using h unfolding holds_def by blast
    then show ?thesis using that l(3) by (simp add: nth_append)
  qed
  have out: "xi s ! (top s + k) = out ! k" if "k < length out" for k using h that by (auto simp: holds_def)
  define t where "t = s\<lparr>pointers := marked ?c M', xi := (xi s)[?m + ?h := q']\<rparr>"
  have mark: "MARKED (marked ?c M) j \<longleftrightarrow> j \<in> M" "j \<notin> M \<Longrightarrow> MARK (marked ?c M) j = marked ?c M'"
    using j e(1) by (simp_all add: marked_simps M'_def)
  have col: "nat (UNFLIP (marked ?c N ! nat (column_of pinv j))) = ?c ! nat (column_of pinv j)"
    "nat (UNFLIP (marked ?c N ! nat (column_of pinv j + 1))) = ?c ! nat (column_of pinv j + 1)" if "\<not> column_of pinv j < 0" for N
    using that e(1,2) by (simp_all add: marked_simps nat_less_iff)
  have inr: "csc_i G ! p < length ?c" if "p < last_edge pinv G j" for p using e(1) e(3) [OF that] by simp
  have eq: "find (\<lambda>p. \<not> MARKED (marked ?c M') (csc_i G ! p)) [q'..<last_edge pinv G j] = find (\<lambda>p. csc_i G ! p \<notin> M') [q'..<last_edge pinv G j]"
    by (rule find_cong2) (simp add: marked_simps(2) inr)
  have same: "M' = M" "(xi s)[?m + ?h := q] = xi s" if "j \<in> M" using that at by (auto simp: M'_def)
  have step: "search_step pinv G s = (case find (\<lambda>p. csc_i G ! p \<notin> M') [q'..<last_edge pinv G j] of
      Some p \<Rightarrow> t\<lparr>xi := (xi t)[?m + ?h := p, ?h + 1 := csc_i G ! p], head := head s + 1, work_count := work_count s + 3 * (p - q') + 10\<rparr>
    | None \<Rightarrow> t\<lparr>xi := (xi t)[?m + ?h := 0, ?h := 0, top s - 1 := j], head := head s - 1, top := top s - 1,
               work_count := work_count s + 3 * (last_edge pinv G j - q') + 10\<rparr>)"
    unfolding eq [symmetric] search_step_def
    using l at mark col same by (auto simp: Let_def t_def q'_def first_edge_def last_edge_def split: option.splits)
  show ?thesis
  proof (cases "find (\<lambda>p. csc_i G ! p \<notin> M') [q'..<last_edge pinv G j]")
    case None
    let ?x = "(xi s)[?m + ?h := q', ?m + ?h := 0, ?h := 0, top s - 1 := j]"
    have "?x ! k = st ! k \<and> ?x ! (?m + k) = ps ! k" if "k < ?h" for k using that old [OF that] l by auto
    moreover have "?x ! (top s - 1 + k) = (j # out) ! k" if "k < Suc (length out)" for k
      using that out [of "k - 1"] l by (cases k) auto
    ultimately show ?thesis using None step l by (auto simp: holds_def t_def)
  next
    case (Some p)
    let ?x = "(xi s)[?m + ?h := q', ?m + ?h := p, ?h + 1 := csc_i G ! p]"
    have "holds G (st @ [j, csc_i G ! p]) (ps @ [p, ?x ! (?m + ?h + 1)]) out M' (search_step pinv G s)"
      if room: "Suc (?h + length out) < ?m"
    proof -
      have "?x ! k = (st @ [j, csc_i G ! p]) ! k \<and> ?x ! (?m + k) = (ps @ [p, ?x ! (?m + ?h + 1)]) ! k" if kh: "k < ?h + 2" for k
      proof -
        consider "k < ?h" | "k = ?h" | "k = ?h + 1" using kh by linarith
        then show ?thesis using old [of k] l at room by cases (auto simp: nth_append)
      qed
      moreover have "?x ! (top s + k) = out ! k" if "k < length out" for k using that out [OF that] l room by auto
      ultimately show ?thesis using Some step l room by (auto simp: holds_def t_def)
    qed
    then show ?thesis using Some by auto
  qed
qed

section \<open>The search\<close>

text \<open>Every node of a list is followed by its successors.\<close>

fun topological :: "int list option \<Rightarrow> 'f csc_matrix \<Rightarrow> nat list \<Rightarrow> bool" where
  "topological pinv G [] \<longleftrightarrow> True"
| "topological pinv G (j # out) \<longleftrightarrow> successors pinv G j \<subseteq> insert j (set out) \<and> topological pinv G out"

lemma topological_split: "topological pinv G (ys @ j # zs) \<Longrightarrow> successors pinv G j \<subseteq> insert j (set zs)"
  by (induction ys) auto

definition search_inv :: "int list option \<Rightarrow> 'f csc_matrix \<Rightarrow> nat set \<Rightarrow> nat list \<Rightarrow> nat list \<Rightarrow> nat list \<Rightarrow> nat set \<Rightarrow> bool" where
  "search_inv pinv G R st ps out M \<longleftrightarrow> distinct (st @ out) \<and> set (st @ out) \<subseteq> {..<csc_m G} \<and> length ps = length st
     \<and> M \<subseteq> set (st @ out) \<and> set out \<union> set (butlast st) \<subseteq> M
     \<and> (\<forall>k < length st. st ! k \<in> M \<longrightarrow> (\<forall>p < ps ! k. first_edge pinv G (st ! k) \<le> p \<longrightarrow> p < last_edge pinv G (st ! k) \<longrightarrow> csc_i G ! p \<in> M))
     \<and> (\<forall>k. Suc k < length st \<longrightarrow> st ! Suc k \<in> successors pinv G (st ! k))
     \<and> topological pinv G out \<and> set (st @ out) \<subseteq> reachable_from pinv G R
     \<and> (\<forall>k < length st. st ! k \<in> M \<longrightarrow> first_edge pinv G (st ! k) \<le> ps ! k)"

lemma stack_ranks:
  assumes g: "acyclic_graph rank pinv G" and st: "distinct st" "set st \<subseteq> {..<csc_m G}"
    and e: "\<forall>k. Suc k < length st \<longrightarrow> st ! Suc k \<in> successors pinv G (st ! k)" and k: "k < length st"
  shows "rank (st ! k) \<le> rank (st ! (length st - 1))"
proof -
  have up: "rank (st ! i) \<le> rank (st ! Suc i)" if "Suc i < length st" for i
  proof -
    have "st ! Suc i \<noteq> st ! i" using st(1) that by (simp add: nth_eq_iff_index_eq)
    then show ?thesis using g e that st(2) nth_mem [of i st] unfolding acyclic_graph_def by (meson Suc_lessD lessThan_iff less_imp_le subsetD)
  qed
  have "k + d < length st \<Longrightarrow> rank (st ! k) \<le> rank (st ! (k + d))" for d
    by (induction d) (use up order_trans in \<open>fastforce+\<close>)
  from this [of "length st - 1 - k"] show ?thesis using k by simp
qed

lemma search_invD:
  assumes "search_inv pinv G R st ps out M"
  shows "distinct (st @ out)" "set (st @ out) \<subseteq> {..<csc_m G}" "length ps = length st" "M \<subseteq> set (st @ out)" "set out \<union> set (butlast st) \<subseteq> M"
    "k < length st \<Longrightarrow> st ! k \<in> M \<Longrightarrow> p < ps ! k \<Longrightarrow> first_edge pinv G (st ! k) \<le> p \<Longrightarrow> p < last_edge pinv G (st ! k) \<Longrightarrow> csc_i G ! p \<in> M"
    "Suc k < length st \<Longrightarrow> st ! Suc k \<in> successors pinv G (st ! k)"
    "topological pinv G out" "set (st @ out) \<subseteq> reachable_from pinv G R"
    "k < length st \<Longrightarrow> st ! k \<in> M \<Longrightarrow> first_edge pinv G (st ! k) \<le> ps ! k"
  using assms unfolding search_inv_def by blast+

text \<open>The examined successors of the node on top of the stack, before position \<open>p\<close>, are marked.\<close>

lemma examined:
  assumes i: "search_inv pinv G R (st @ [j]) (ps @ [q]) out M"
    and new: "\<And>p'. (if j \<in> M then q else first_edge pinv G j) \<le> p' \<Longrightarrow> p' < p \<Longrightarrow> p' < last_edge pinv G j \<Longrightarrow> csc_i G ! p' \<in> insert j M"
    and p': "first_edge pinv G j \<le> p'" "p' < p" "p' < last_edge pinv G j"
  shows "csc_i G ! p' \<in> insert j M"
proof (cases "j \<in> M \<and> p' < q")
  case True
  have "length ps = length st" using search_invD(3) [OF i] by simp
  then show ?thesis using search_invD(6) [OF i, of "length st" p'] True p' by (simp add: nth_append)
next
  case False
  then have "(if j \<in> M then q else first_edge pinv G j) \<le> p'" using p'(1) by auto
  then show ?thesis using new p' by blast
qed

lemma examined_below:
  assumes i: "search_inv pinv G R (st @ [j]) (ps @ [q]) out M" and k: "k < length st" and p: "p < ps ! k" "first_edge pinv G (st ! k) \<le> p" "p < last_edge pinv G (st ! k)"
  shows "csc_i G ! p \<in> insert j M"
proof -
  have len: "length ps = length st" using search_invD(3) [OF i] by simp
  have "st ! k \<in> M" using search_invD(5) [OF i] k by auto
  then show ?thesis using search_invD(6) [OF i, of k p] k p len by (simp add: nth_append)
qed

lemma examined_starts:
  assumes i: "search_inv pinv G R (st @ [j]) (ps @ [q]) out M" and k: "k < length st"
  shows "first_edge pinv G (st ! k) \<le> ps ! k"
proof -
  have "length ps = length st" "st ! k \<in> M" using search_invD(3,5) [OF i] k nth_mem [OF k] by auto
  then show ?thesis using search_invD(10) [OF i, of k] k by (simp add: nth_append)
qed

text \<open>A node without an unmarked successor leaves the stack: all its successors are in the output.\<close>

lemma finished_node:
  assumes g: "acyclic_graph rank pinv G" and i: "search_inv pinv G R (st @ [j]) (ps @ [q]) out M"
    and none: "find (\<lambda>p. csc_i G ! p \<notin> insert j M) [(if j \<in> M then q else first_edge pinv G j)..<last_edge pinv G j] = None"
  shows "search_inv pinv G R st ps (j # out) (insert j M)"
proof -
  note d = search_invD [OF i]
  have j: "j < csc_m G" using d(2) by simp
  have succ: "i' \<in> insert j (set out)" if i': "i' \<in> successors pinv G j" for i'
  proof (rule ccontr)
    assume n: "i' \<notin> insert j (set out)"
    obtain p where p: "first_edge pinv G j \<le> p" "p < last_edge pinv G j" "i' = csc_i G ! p" using i' by (auto simp: successors_def)
    have "i' \<in> insert j M" unfolding p(3)
      by (rule examined [OF i _ p(1) _ p(2), where p = "Suc p"]) (use none in \<open>auto simp: find_None_iff\<close>)
    then have "i' \<in> set st" using n d(4) by auto
    then obtain k where k: "k < length st" "st ! k = i'" by (auto simp: in_set_conv_nth)
    have "rank ((st @ [j]) ! k) \<le> rank ((st @ [j]) ! (length (st @ [j]) - 1))"
      by (rule stack_ranks [OF g]) (use d k in auto)
    then have "rank i' \<le> rank j" using k by (simp add: nth_append)
    moreover have "rank j < rank i'" using g j i' n unfolding acyclic_graph_def by blast
    ultimately show False by simp
  qed
  have "st ! Suc k \<in> successors pinv G (st ! k)" if "Suc k < length st" for k using d(7) [of k] that by (simp add: nth_append)
  moreover have "csc_i G ! p \<in> insert j M" if "k < length st" "p < ps ! k" "first_edge pinv G (st ! k) \<le> p" "p < last_edge pinv G (st ! k)" for k p
    by (rule examined_below [OF i that])
  moreover have "topological pinv G (j # out)" using succ d(8) by auto
  moreover have "first_edge pinv G (st ! k) \<le> ps ! k" if "k < length st" for k
    using examined_starts [OF i that] .
  ultimately show ?thesis
    using d(1-5,9) unfolding search_inv_def by (auto dest: in_set_butlastD)
qed

text \<open>An unmarked successor is pushed.\<close>

lemma pushed_node:
  assumes g: "acyclic_graph rank pinv G" and i: "search_inv pinv G R (st @ [j]) (ps @ [q]) out M"
    and some: "find (\<lambda>p. csc_i G ! p \<notin> insert j M) [(if j \<in> M then q else first_edge pinv G j)..<last_edge pinv G j] = Some p"
  shows "search_inv pinv G R (st @ [j, csc_i G ! p]) (ps @ [p, r]) out (insert j M)" and "Suc (length st + length out) < csc_m G"
proof -
  let ?i = "csc_i G ! p" and ?q = "if j \<in> M then q else first_edge pinv G j"
  note d = search_invD [OF i]
  have j: "j < csc_m G" using d(2) by simp
  have len: "length ps = length st" using d(3) by simp
  obtain n where n: "n < length [?q..<last_edge pinv G j]" "?i \<notin> insert j M" "p = [?q..<last_edge pinv G j] ! n"
    "\<forall>n' < n. csc_i G ! ([?q..<last_edge pinv G j] ! n') \<in> insert j M"
    using some by (auto simp: find_Some_iff)
  have p: "?q \<le> p" "p < last_edge pinv G j" using n(1,3) by auto
  have new: "csc_i G ! p' \<in> insert j M" if "?q \<le> p'" "p' < p" for p'
    using n(4) [rule_format, of "p' - ?q"] n(1,3) that by auto
  have start: "first_edge pinv G j \<le> p"
    using p(1) d(10) [of "length st"] len by (auto simp: nth_append split: if_splits)
  have succ: "?i \<in> successors pinv G j" using start p(2) by (auto simp: successors_def)
  have im: "?i < csc_m G" using graph_edges(4) [OF g j succ] .
  have fresh: "?i \<notin> set ((st @ [j]) @ out)" using n(2) d(5) by auto
  have dist: "distinct ((st @ [j, ?i]) @ out)" "set ((st @ [j, ?i]) @ out) \<subseteq> {..<csc_m G}" using d(1,2) fresh im by auto
  have "length ((st @ [j, ?i]) @ out) \<le> csc_m G"
    using card_mono [OF _ dist(2)] distinct_card [OF dist(1)] by simp
  then show "Suc (length st + length out) < csc_m G" by simp
  have ex: "csc_i G ! p' \<in> insert j M"
    if k: "k < length (st @ [j, ?i])" "(st @ [j, ?i]) ! k \<in> insert j M" and p': "p' < (ps @ [p, r]) ! k"
      "first_edge pinv G ((st @ [j, ?i]) ! k) \<le> p'" "p' < last_edge pinv G ((st @ [j, ?i]) ! k)" for k p'
  proof -
    consider "k < length st" | "k = length st" | "k = Suc (length st)" using k(1) by force
    then show ?thesis
    proof cases
      case 1
      then show ?thesis using examined_below [OF i 1, of p'] p' len by (simp add: nth_append)
    next
      case 2
      show ?thesis by (rule examined [OF i, of p]) (use new 2 p' len in \<open>auto simp: nth_append\<close>)
    next
      case 3
      then show ?thesis using k(2) n(2) by (simp add: nth_append)
    qed
  qed
  have edges: "(st @ [j, ?i]) ! Suc k \<in> successors pinv G ((st @ [j, ?i]) ! k)" if "Suc k < length (st @ [j, ?i])" for k
  proof (cases "Suc k < length (st @ [j])")
    case True
    then show ?thesis using d(7) [OF True] by (auto simp: nth_append nth_Cons' split: if_splits)
  next
    case False
    then have "k = length st" using that by simp
    then show ?thesis using succ by (simp add: nth_append)
  qed
  have starts: "first_edge pinv G ((st @ [j, ?i]) ! k) \<le> (ps @ [p, r]) ! k"
    if k: "k < length (st @ [j, ?i])" "(st @ [j, ?i]) ! k \<in> insert j M" for k
  proof -
    consider "k < length st" | "k = length st" | "k = Suc (length st)" using k(1) by force
    then show ?thesis
      using examined_starts [OF i, of k] start n(2) k(2) len by cases (auto simp: nth_append)
  qed
  have "?i \<in> reachable_from pinv G R" using d(9) succ by (auto intro: reachable_from.edge [of j])
  then show "search_inv pinv G R (st @ [j, ?i]) (ps @ [p, r]) out (insert j M)"
    using dist ex edges starts d(4,5,8,9) len unfolding search_inv_def by (auto simp: butlast_append)
qed

text \<open>The loop ends with an empty stack; the nodes of the stack have joined the output.\<close>

lemma search_loop_returns:
  assumes g: "acyclic_graph rank pinv G" and "holds G st ps out M s" and "search_inv pinv G R st ps out M"
  shows "\<exists>s' out'. search_loop pinv G s = Some s' \<and> holds G [] [] out' (set out') s' \<and> search_inv pinv G R [] [] out' (set out')
     \<and> set (st @ out) \<subseteq> set out'"
  using assms(2,3)
proof (induction "2 * (csc_m G - (length st + length out)) + length st" arbitrary: st ps out M s rule: less_induct)
  case less
  note d = search_invD [OF less.prems(2)]
  show ?case
  proof (cases st rule: rev_cases)
    case Nil
    then have "M = set out" "ps = []" "head s < 0" using d(3-5) less.prems(1) by (auto simp: holds_def)
    then show ?thesis using less.prems Nil by (subst search_loop.simps) auto
  next
    case (snoc st0 j)
    then obtain ps0 q where ps: "ps = ps0 @ [q]" using d(3) by (cases ps rule: rev_cases) auto
    have j: "j < csc_m G" using d(2) snoc by auto
    have h: "holds G (st0 @ [j]) (ps0 @ [q]) out M s" and i: "search_inv pinv G R (st0 @ [j]) (ps0 @ [q]) out M"
      using less.prems snoc ps by simp_all
    have room: "length st + length out \<le> csc_m G" "0 \<le> head s" using less.prems(1) snoc by (auto simp: holds_def)
    then have loop: "search_loop pinv G s = search_loop pinv G (search_step pinv G s)" by (subst search_loop.simps) simp
    note step = search_step_holds [OF g h j]
    show ?thesis
    proof (cases "find (\<lambda>p. csc_i G ! p \<notin> insert j M) [(if j \<in> M then q else first_edge pinv G j)..<last_edge pinv G j]")
      case None
      have "\<exists>s' out'. search_loop pinv G (search_step pinv G s) = Some s' \<and> holds G [] [] out' (set out') s'
          \<and> search_inv pinv G R [] [] out' (set out') \<and> set (st0 @ j # out) \<subseteq> set out'"
        by (rule less.hyps [where M = "insert j M" and ps = ps0]) (use step None finished_node [OF g i None] snoc in auto)
      then show ?thesis unfolding loop snoc by auto
    next
      case (Some p)
      note push = pushed_node [OF g i Some]
      obtain r where r: "holds G (st0 @ [j, csc_i G ! p]) (ps0 @ [p, r]) out (insert j M) (search_step pinv G s)"
        using step Some push(2) by auto
      have "\<exists>s' out'. search_loop pinv G (search_step pinv G s) = Some s' \<and> holds G [] [] out' (set out') s'
          \<and> search_inv pinv G R [] [] out' (set out') \<and> set ((st0 @ [j, csc_i G ! p]) @ out) \<subseteq> set out'"
        by (rule less.hyps [OF _ r push(1)]) (use snoc push(2) in auto)
      then show ?thesis unfolding loop snoc by auto
    qed
  qed
qed

lemma depth_first_search_returns:
  assumes g: "acyclic_graph rank pinv G" and h: "holds G [] [] out (set out) s" and i: "search_inv pinv G R [] [] out (set out)"
    and j: "j < csc_m G" "j \<notin> set out" "j \<in> R"
  shows "\<exists>s' out'. depth_first_search j pinv G s = Some s' \<and> holds G [] [] out' (set out') s' \<and> search_inv pinv G R [] [] out' (set out')
     \<and> set (j # out) \<subseteq> set out'"
proof -
  note d = search_invD [OF i]
  have "length (j # out) \<le> csc_m G" using card_mono [of "{..<csc_m G}" "set (j # out)"] d(1,2) j distinct_card [of "j # out"] by auto
  then have "holds G [j] [xi s ! csc_m G] out (set out) (s\<lparr>head := 0, xi := (xi s)[0 := j]\<rparr>)"
    using h j(1) by (auto simp: holds_def)
  moreover have "search_inv pinv G R [j] [xi s ! csc_m G] out (set out)"
    using d j by (auto simp: search_inv_def intro: reachable_from.root)
  ultimately show ?thesis using search_loop_returns [OF g] unfolding depth_first_search_def by fastforce
qed

lemma reach_roots_returns:
  assumes g: "acyclic_graph rank pinv G" and "set is \<subseteq> {..<csc_m G}" "set is \<subseteq> R"
    and "holds G [] [] out (set out) s" "search_inv pinv G R [] [] out (set out)"
  shows "\<exists>s' out'. reach_roots pinv G is s = Some s' \<and> holds G [] [] out' (set out') s' \<and> search_inv pinv G R [] [] out' (set out')
     \<and> set (is @ out) \<subseteq> set out'"
  using assms(2-)
proof (induction "is" arbitrary: s out)
  case (Cons i "is")
  have i: "i < csc_m G" "i \<in> R" using Cons.prems by auto
  have m: "MARKED (pointers s) i \<longleftrightarrow> i \<in> set out"
    using Cons.prems(3) graph_edges(1) [OF g i(1)] i by (simp add: holds_def marked_simps)
  show ?case
  proof (cases "i \<in> set out")
    case True
    then show ?thesis using Cons.IH [OF _ _ Cons.prems(3,4)] Cons.prems(1,2) m by fastforce
  next
    case False
    obtain s1 out1 where s1: "depth_first_search i pinv G s = Some s1" "holds G [] [] out1 (set out1) s1"
      "search_inv pinv G R [] [] out1 (set out1)" "set (i # out) \<subseteq> set out1"
      using depth_first_search_returns [OF g Cons.prems(3,4) i(1) False i(2)] by blast
    then show ?thesis using Cons.IH [OF _ _ s1(2,3)] Cons.prems(1,2) m False by fastforce
  qed
qed auto

lemma unmark_all:
  assumes "distinct out" "set out \<subseteq> M" "\<forall>j \<in> set out. j < length c"
  shows "fold (\<lambda>j w. MARK w j) out (marked c M) = marked c (M - set out)"
  using assms
proof (induction out arbitrary: M)
  case (Cons j out)
  then have "fold (\<lambda>j w. MARK w j) out (marked c (M - {j})) = marked c (M - {j} - set out)" by (intro Cons.IH) auto
  then show ?case using Cons.prems by (simp add: marked_simps Diff_insert2 [symmetric])
qed simp

text \<open>The output as the code reads it.\<close>

definition pattern :: "'f csc_matrix \<Rightarrow> search \<Rightarrow> nat list" where
  "pattern G s = map (\<lambda>p. xi s ! p) [top s..<csc_m G]"

lemma reach_returns:
  assumes g: "acyclic_graph rank pinv G" and b: "set bi \<subseteq> {..<csc_m G}" and x: "length xi0 = 2 * csc_m G"
  shows "\<exists>s. reach bi pinv G xi0 work0 = Some s \<and> top s \<le> csc_m G \<and> pointers s = map int (col_start G)
     \<and> distinct (pattern G s) \<and> set (pattern G s) = reachable_from pinv G (set bi) \<and> topological pinv G (pattern G s) \<and> set (pattern G s) \<subseteq> {..<csc_m G}"
proof -
  let ?s0 = "\<lparr>pointers = map int (col_start G), xi = xi0, head = - 1, top = csc_m G, work_count = work0\<rparr>"
  have "holds G [] [] [] (set []) ?s0" "search_inv pinv G (set bi) [] [] [] (set [])"
    using x by (simp_all add: holds_def marked_simps search_inv_def)
  from reach_roots_returns [OF g b subset_refl this] obtain s out where s: "reach_roots pinv G bi ?s0 = Some s"
    "holds G [] [] out (set out) s" "search_inv pinv G (set bi) [] [] out (set out)" "set bi \<subseteq> set out" by auto
  note d = search_invD [OF s(3)]
  have top: "top s + length out = csc_m G" using s(2) by (simp add: holds_def)
  have out: "map (\<lambda>p. xi s ! p) [top s..<csc_m G] = out"
    using s(2) top by (auto intro!: nth_equalityI simp: holds_def)
  let ?s = "s\<lparr>pointers := for_range (top s) (csc_m G) (\<lambda>p w. MARK w (xi s ! p)) (pointers s),
      work_count := work_count s + 4 * length bi + 3 * (csc_m G - top s)\<rparr>"
  have r: "reach bi pinv G xi0 work0 = Some ?s" using s(1) by (simp add: reach_def)
  have "for_range (top s) (csc_m G) (\<lambda>p w. MARK w (xi s ! p)) (pointers s) = fold (\<lambda>j w. MARK w j) out (marked (col_start G) (set out))"
    using s(2) unfolding out [symmetric] fold_map comp_def by (simp add: holds_def)
  also have "\<dots> = map int (col_start G)"
    using unmark_all [of out "set out" "col_start G"] d(1,2) graph_edges(1) [OF g] by (force simp: marked_simps)
  finally have p: "pointers ?s = map int (col_start G)" by simp
  have "i \<in> set out" if "i \<in> reachable_from pinv G (set bi)" for i
    using that
  proof induction
    case (edge j i)
    obtain ys zs where "out = ys @ j # zs" using edge.IH by (meson split_list)
    then show ?case using topological_split [of pinv G ys j zs] d(8) edge by auto
  qed (use s(4) in blast)
  then have set: "set out = reachable_from pinv G (set bi)" using d(9) by auto
  have pat: "pattern G ?s = out" using out by (simp add: pattern_def)
  have "top ?s \<le> csc_m G" using top by simp
  then show ?thesis using r p pat set d(1,2,8) by (intro exI [of _ ?s]) simp
qed

end
