(* ===== verification/Sparse_Triangle.thy ===== *)
theory Sparse_Triangle
  imports Sparse_Reach
begin

text \<open>
  The triangular solve with a sparse right-hand side, \<open>sparse_triangle_solve\<close> of
  \<open>dual_simplex/triangle_solve.cpp\<close>: the pattern of the solution by reachability, then elimination in
  the order of the pattern. Column \<open>j\<close> of the system is column \<open>pinv[j]\<close> of the factor, and the
  identity column where \<open>pinv[j]\<close> is negative.
\<close>

section \<open>Operations\<close>

definition solve_column :: "bool \<Rightarrow> int list option \<Rightarrow> 'f::field csc_matrix \<Rightarrow> int list \<Rightarrow> nat \<Rightarrow> 'f list \<times> nat \<Rightarrow> 'f list \<times> nat" where
  "solve_column lo pinv G w j = (\<lambda>(x, work).
     let J = column_of pinv j
     in if J < 0 then (x, work)
        else let cstart = nat (w ! nat J); cend = nat (w ! nat (J + 1));
                 (Gjj, p, pend) = (if lo then (csc_x G ! cstart, cstart + 1, cend) else (csc_x G ! (cend - 1), cstart, cend - 1));
                 x = x[j := x ! j / Gjj]
             in (for_range p pend (\<lambda>p x. x[csc_i G ! p := x ! (csc_i G ! p) - csc_x G ! p * x ! j]) x, work + 4 * (pend - p) + 7))"

definition sparse_triangle_solve ::
    "bool \<Rightarrow> 'f::field sparse_vector \<Rightarrow> int list option \<Rightarrow> nat list \<Rightarrow> 'f csc_matrix \<Rightarrow> 'f list \<Rightarrow> nat \<Rightarrow> (search \<times> 'f list) option" where
  "sparse_triangle_solve lo b pinv xi0 G x0 work0 =
     map_option
       (\<lambda>s. let m = csc_m G;
                x = for_range (top s) m (\<lambda>p x. x[xi s ! p := 0]) x0;
                x = for_range 0 (length (sv_i b)) (\<lambda>p x. x[sv_i b ! p := sv_x b ! p]) x;
                work = work_count s + 2 * (m - top s) + 3 * length (sv_i b);
                (x, work) = for_range (top s) m (\<lambda>px. solve_column lo pinv G (pointers s) (xi s ! px)) (x, work)
            in (s\<lparr>work_count := work\<rparr>, x))
       (reach (sv_i b) pinv G xi0 work0)"

section \<open>Triangular systems\<close>

text \<open>
  The diagonal entry of a column is the first one of a lower and the last one of an upper factor,
  and the other entries are in rows of greater rank.
\<close>

definition triangular_ok :: "bool \<Rightarrow> (nat \<Rightarrow> nat) \<Rightarrow> int list option \<Rightarrow> 'f::zero csc_matrix \<Rightarrow> bool" where
  "triangular_ok lo rank pinv G \<longleftrightarrow> csc_wf G \<and> csc_m G = csc_n G
     \<and> (\<forall>j < csc_m G. column_of pinv j < int (csc_n G)
          \<and> (0 \<le> column_of pinv j \<longrightarrow>
               (case (if lo then col_entries G (nat (column_of pinv j)) else rev (col_entries G (nat (column_of pinv j)))) of
                  [] \<Rightarrow> False
                | e # es \<Rightarrow> fst e = j \<and> snd e \<noteq> 0 \<and> (\<forall>e \<in> set es. rank j < rank (fst e)))))"

definition diagonal :: "bool \<Rightarrow> int list option \<Rightarrow> 'f::one csc_matrix \<Rightarrow> nat \<Rightarrow> 'f" where
  "diagonal lo pinv G j =
     (let J = nat (column_of pinv j) in if column_of pinv j < 0 then 1 else if lo then l_diag G J else u_diag G J)"

definition others :: "bool \<Rightarrow> int list option \<Rightarrow> 'f csc_matrix \<Rightarrow> nat \<Rightarrow> (nat \<times> 'f) list" where
  "others lo pinv G j =
     (let J = nat (column_of pinv j) in if column_of pinv j < 0 then [] else if lo then l_off G J else u_off G J)"

text \<open>The matrix of the system.\<close>

definition system :: "int list option \<Rightarrow> 'f::comm_semiring_1 csc_matrix \<Rightarrow> nat \<Rightarrow> nat \<Rightarrow> 'f" where
  "system pinv G i j = (if column_of pinv j < 0 then if i = j then 1 else 0 else csc_elem G i (nat (column_of pinv j)))"

lemma lower_first: "col_start L ! j < col_start L ! Suc j \<Longrightarrow> col_entries L j = (csc_i L ! (col_start L ! j), l_diag L j) # l_off L j"
  by (simp add: col_entries_def l_diag_def l_off_def upt_conv_Cons)

lemma upper_last: "col_start U ! j < col_start U ! Suc j \<Longrightarrow> col_entries U j = u_off U j @ [(csc_i U ! (col_start U ! Suc j - 1), u_diag U j)]"
  using upt_Suc_append [of "col_start U ! j" "col_start U ! Suc j - 1"] by (simp add: col_entries_def u_diag_def u_off_def)

lemma column_parts:
  fixes G :: "'f::field csc_matrix"
  assumes t: "triangular_ok lo rank pinv G" and j: "j < csc_m G" and J: "0 \<le> column_of pinv j"
  shows "col_entries G (nat (column_of pinv j)) =
      (if lo then (j, diagonal lo pinv G j) # others lo pinv G j else others lo pinv G j @ [(j, diagonal lo pinv G j)])"
    and "diagonal lo pinv G j \<noteq> 0" and "\<forall>e \<in> set (others lo pinv G j). rank j < rank (fst e)"
proof -
  let ?J = "nat (column_of pinv j)"
  have c: "case (if lo then col_entries G ?J else rev (col_entries G ?J)) of [] \<Rightarrow> False
      | e # es \<Rightarrow> fst e = j \<and> snd e \<noteq> 0 \<and> (\<forall>e \<in> set es. rank j < rank (fst e))"
    using t j J by (simp add: triangular_ok_def)
  then have "col_entries G ?J \<noteq> []" by (auto split: if_splits)
  then have lt: "col_start G ! ?J < col_start G ! Suc ?J" by (simp add: col_entries_def)
  show "col_entries G ?J = (if lo then (j, diagonal lo pinv G j) # others lo pinv G j else others lo pinv G j @ [(j, diagonal lo pinv G j)])"
    "diagonal lo pinv G j \<noteq> 0" "\<forall>e \<in> set (others lo pinv G j). rank j < rank (fst e)"
  proof (atomize (full), cases lo)
    case True
    then show "col_entries G ?J = (if lo then (j, diagonal lo pinv G j) # others lo pinv G j else others lo pinv G j @ [(j, diagonal lo pinv G j)])
      \<and> diagonal lo pinv G j \<noteq> 0 \<and> (\<forall>e \<in> set (others lo pinv G j). rank j < rank (fst e))"
      using c J by (simp add: lower_first [OF lt] diagonal_def others_def)
  next
    case False
    then show "col_entries G ?J = (if lo then (j, diagonal lo pinv G j) # others lo pinv G j else others lo pinv G j @ [(j, diagonal lo pinv G j)])
      \<and> diagonal lo pinv G j \<noteq> 0 \<and> (\<forall>e \<in> set (others lo pinv G j). rank j < rank (fst e))"
      using c J by (simp add: upper_last [OF lt] diagonal_def others_def)
  qed
qed

lemma successors_columns:
  fixes G :: "'f::field csc_matrix"
  assumes t: "triangular_ok lo rank pinv G" and j: "j < csc_m G"
  shows "successors pinv G j = (if column_of pinv j < 0 then {} else insert j (fst ` set (others lo pinv G j)))"
proof (cases "column_of pinv j < 0")
  case False
  then have J: "0 \<le> column_of pinv j" by simp
  have "successors pinv G j = fst ` set (col_entries G (nat (column_of pinv j)))"
    using J by (force simp: successors_def first_edge_def last_edge_def col_entries_def nat_add_distrib)
  also have "\<dots> = insert j (fst ` set (others lo pinv G j))" unfolding column_parts(1) [OF t j J] by auto
  finally show ?thesis using False by simp
qed (simp add: successors_def first_edge_def last_edge_def)

lemma triangular_acyclic:
  fixes G :: "'f::field csc_matrix"
  assumes "triangular_ok lo rank pinv G"
  shows "acyclic_graph rank pinv G"
  using assms successors_columns [OF assms] column_parts(3) [OF assms]
  by (fastforce simp: acyclic_graph_def triangular_ok_def split: if_splits)

lemma coeff_system:
  fixes G :: "'f::field csc_matrix"
  assumes t: "triangular_ok lo rank pinv G" and j: "j < csc_m G"
  shows "coeff (diagonal lo pinv G) (others lo pinv G) i j = system pinv G i j"
proof (cases "column_of pinv j < 0")
  case False
  then show ?thesis using column_parts(1) [OF t j] by (auto simp: coeff_def system_def csc_elem_def)
qed (simp add: coeff_def system_def diagonal_def others_def)

section \<open>The solve\<close>

lemma subtract_own:
  assumes "\<forall>e \<in> set es. fst e \<noteq> j"
  shows "fold (\<lambda>e x. x[fst e := x ! fst e - snd e * x ! j]) es x = fold (subtract (x ! j)) es x"
  using assms
proof (induction es arbitrary: x)
  case (Cons e es)
  have "subtract (x ! j) e x ! j = x ! j" using Cons.prems by (simp add: subtract_def)
  then show ?case using Cons by (simp add: subtract_def)
qed simp

lemma subtract_zero: "fold (subtract (0 :: 'f :: ring)) es x = x"
  by (induction es arbitrary: x) (simp_all add: subtract_def)

lemma solve_column_eliminate:
  fixes G :: "'f::field csc_matrix"
  assumes t: "triangular_ok lo rank pinv G" and j: "j < csc_m G" and len: "length x = csc_m G"
  shows "fst (solve_column lo pinv G (map int (col_start G)) j (x, work)) = eliminate (diagonal lo pinv G) (others lo pinv G) j x"
proof (cases "column_of pinv j < 0")
  case True
  then show ?thesis by (simp add: solve_column_def eliminate_def diagonal_def others_def)
next
  case False
  let ?J = "nat (column_of pinv j)" and ?d = "diagonal lo pinv G j" and ?es = "others lo pinv G j"
  have l: "length (col_start G) = Suc (csc_m G)" "?J < csc_m G" "nat (column_of pinv j + 1) = Suc ?J"
    using graph_edges(1,2) [OF triangular_acyclic [OF t] j] False by (auto simp: nat_less_iff nat_add_distrib)
  have ne: "\<forall>e \<in> set ?es. fst e \<noteq> j" using column_parts(3) [OF t j] False by fastforce
  have "fst (solve_column lo pinv G (map int (col_start G)) j (x, work)) =
      fold (\<lambda>e x. x[fst e := x ! fst e - snd e * x ! j]) ?es (x[j := x ! j / ?d])"
    using False l by (simp add: solve_column_def Let_def others_def diagonal_def l_off_def u_off_def l_diag_def u_diag_def fold_map comp_def)
  also have "\<dots> = fold (subtract (x ! j / ?d)) ?es (x[j := x ! j / ?d])"
    using subtract_own [OF ne, of "x[j := x ! j / ?d]"] j len by simp
  moreover have "x[j := 0] = x" if "x ! j = 0" using that by (metis list_update_id)
  ultimately show ?thesis using subtract_zero [of ?es] by (auto simp: eliminate_def)
qed

lemma solve_columns:
  fixes G :: "'f::field csc_matrix"
  assumes t: "triangular_ok lo rank pinv G" and "set js \<subseteq> {..<csc_m G}" "length x = csc_m G"
  shows "fst (fold (solve_column lo pinv G (map int (col_start G))) js (x, work)) = fold (eliminate (diagonal lo pinv G) (others lo pinv G)) js x"
  using assms(2,3)
proof (induction js arbitrary: x work)
  case (Cons j js)
  obtain x' work' where s: "solve_column lo pinv G (map int (col_start G)) j (x, work) = (x', work')" by fastforce
  then have "x' = eliminate (diagonal lo pinv G) (others lo pinv G) j x"
    using solve_column_eliminate [OF t _ Cons.prems(2), of j work] Cons.prems(1) by simp
  then show ?case using Cons.IH [of x' work'] Cons.prems s by simp
qed simp

lemma clear_nth: "i < length x \<Longrightarrow> fold (\<lambda>j x. x[j := 0]) js x ! i = (if i \<in> set js then 0 else x ! i)"
  "length (fold (\<lambda>j x. x[j := c]) js x) = length x"
  by (induction js arbitrary: x) (auto simp: nth_list_update)

lemma scatter_nth:
  fixes x :: "'f :: comm_monoid_add list"
  assumes "distinct (map fst es)" "i < length x"
  shows "fold (\<lambda>e x. x[fst e := snd e]) es x ! i = (if i \<in> fst ` set es then entry_sum i es else x ! i)"
  using assms
proof (induction es arbitrary: x)
  case (Cons e es)
  then show ?case by (cases "fst e = i") (auto simp: nth_list_update entry_sum_none)
qed simp


text \<open>The value of the right-hand side in a row, and the solution that the pattern and the array give.\<close>

definition rhs :: "'f::comm_monoid_add sparse_vector \<Rightarrow> nat \<Rightarrow> 'f" where
  "rhs b i = entry_sum i (zip (sv_i b) (sv_x b))"

definition rhs_ok :: "nat \<Rightarrow> 'f sparse_vector \<Rightarrow> bool" where
  "rhs_ok m b \<longleftrightarrow> distinct (sv_i b) \<and> length (sv_x b) = length (sv_i b) \<and> (\<forall>i \<in> set (sv_i b). i < m)"

lemma prepared:
  fixes b :: "'f::field sparse_vector"
  assumes b: "rhs_ok m b" and x: "length x0 = m" and sub: "set (sv_i b) \<subseteq> set js"
  defines "x1 \<equiv> for_range 0 (length (sv_i b)) (\<lambda>p x. x[sv_i b ! p := sv_x b ! p]) (fold (\<lambda>j x. x[j := 0]) js x0)"
  shows "length x1 = m" and "i < m \<Longrightarrow> x1 ! i = (if i \<in> set js then rhs b i else x0 ! i)"
proof -
  let ?es = "zip (sv_i b) (sv_x b)" and ?z = "fold (\<lambda>j x. x[j := 0]) js x0"
  have l: "length (sv_x b) = length (sv_i b)" "distinct (sv_i b)" using b by (auto simp: rhs_ok_def)
  have z: "?es = map (\<lambda>p. (sv_i b ! p, sv_x b ! p)) [0..<length (sv_i b)]" using l by (auto intro!: nth_equalityI)
  have eq: "x1 = fold (\<lambda>e x. x[fst e := snd e]) ?es ?z" unfolding x1_def z by (simp add: fold_map comp_def)
  have len: "length (fold (\<lambda>e x. x[fst e := snd e]) es v) = length v" for es and v :: "'f list"
    by (induction es arbitrary: v) auto
  show "length x1 = m" unfolding eq len using x by (simp add: clear_nth)
  have d: "distinct (map fst ?es)" and f: "fst ` set ?es = set (sv_i b)" using l by (simp_all add: set_zip_leftD flip: set_map)
  show "x1 ! i = (if i \<in> set js then rhs b i else x0 ! i)" if "i < m"
  proof -
    have "entry_sum i ?es = 0" if "i \<notin> set (sv_i b)" by (rule entry_sum_none) (use that f in blast)
    then show ?thesis using scatter_nth [OF d, of i ?z] \<open>i < m\<close> x sub unfolding eq rhs_def f by (auto simp: clear_nth)
  qed
qed


text \<open>
  C17. The solve with a sparse right-hand side. For a lower or upper triangular factor, with or
  without a permutation of its columns, and distinct right-hand side indices in range, the call
  returns: the depth-first searches end. The column pointers are restored, the indices from
  \<open>top\<close> on are exactly the nodes reachable from the right-hand side, without repetition, and the
  array holds at these the solution of the system, which is zero elsewhere; entries of the array
  outside the pattern are not touched.
\<close>

theorem sparse_triangle_solve_correct:
  fixes G :: "'f::field csc_matrix"
  assumes t: "triangular_ok lo rank pinv G" and b: "rhs_ok (csc_m G) b" and len: "length xi0 = 2 * csc_m G" "length x0 = csc_m G"
  shows "\<exists>s x. sparse_triangle_solve lo b pinv xi0 G x0 work0 = Some (s, x) \<and> pointers s = map int (col_start G)
     \<and> distinct (pattern G s) \<and> set (pattern G s) = reachable_from pinv G (set (sv_i b))
     \<and> (\<forall>i < csc_m G. (\<Sum>c < csc_m G. system pinv G i c * (if c \<in> set (pattern G s) then x ! c else 0)) = rhs b i)
     \<and> (\<forall>i < csc_m G. i \<notin> set (pattern G s) \<longrightarrow> x ! i = x0 ! i)"
proof -
  let ?m = "csc_m G" and ?d = "diagonal lo pinv G" and ?off = "others lo pinv G"
  note g = triangular_acyclic [OF t]
  have bi: "set (sv_i b) \<subseteq> {..<?m}" using b by (auto simp: rhs_ok_def)
  obtain s where r: "reach (sv_i b) pinv G xi0 work0 = Some s" "pointers s = map int (col_start G)" "distinct (pattern G s)"
    "set (pattern G s) = reachable_from pinv G (set (sv_i b))" "topological pinv G (pattern G s)" "set (pattern G s) \<subseteq> {..<?m}"
    using reach_returns [OF g bi len(1), of work0] by blast
  let ?js = "pattern G s"
  have sub: "set (sv_i b) \<subseteq> set ?js" unfolding r(4) by (auto intro: reachable_from.root)
  define x1 where "x1 = for_range 0 (length (sv_i b)) (\<lambda>p x. x[sv_i b ! p := sv_x b ! p]) (fold (\<lambda>j x. x[j := 0]) ?js x0)"
  note p = prepared [OF b len(2) sub, folded x1_def]
  define w where "w = work_count s + 2 * (?m - top s) + 3 * length (sv_i b)"
  obtain x work where xw: "fold (solve_column lo pinv G (map int (col_start G))) ?js (x1, w) = (x, work)" by fastforce
  have x: "x = fold (eliminate ?d ?off) ?js x1" using solve_columns [OF t r(6) p(1), of w] xw by simp
  have run: "sparse_triangle_solve lo b pinv xi0 G x0 work0 = Some (s\<lparr>work_count := work\<rparr>, x)"
    using r(1,2) xw by (simp add: sparse_triangle_solve_def x1_def w_def pattern_def fold_map comp_def Let_def)
  have after: "fst e \<in> set zs" if js: "?js = ys @ j # zs" and e: "e \<in> set (?off j)" for ys j zs e
  proof -
    have j: "j < ?m" using r(6) js by auto
    have J: "\<not> column_of pinv j < 0" using e by (auto simp: others_def)
    have "fst e \<in> successors pinv G j" using successors_columns [OF t j] J e by auto
    moreover have "fst e \<noteq> j" using column_parts(3) [OF t j] J e by fastforce
    ultimately show ?thesis using topological_split [of pinv G ys j zs] r(5) js by auto
  qed
  have "?d j \<noteq> 0" if "j < ?m" for j
    using column_parts(2) [OF t that] by (cases "column_of pinv j < 0") (simp_all add: diagonal_def)
  then have dj: "\<forall>j \<in> set ?js. ?d j \<noteq> 0" using r(6) by auto
  have after': "\<forall>ys j zs. ?js = ys @ j # zs \<longrightarrow> (\<forall>e \<in> set (?off j). fst e \<in> set zs)" using after by blast
  note e = eliminate_some [OF r(3,6) dj after' p(1), folded x]
  have zero: "coeff ?d ?off i c = 0" if i: "i \<notin> set ?js" and c: "c \<in> set ?js" for i c
  proof -
    obtain ys zs where "?js = ys @ c # zs" using c by (meson split_list)
    then have "i \<notin> fst ` set (?off c)" using after i by auto
    then show ?thesis using i c by (auto simp: coeff_def entry_sum_none)
  qed
  have sum: "(\<Sum>c < ?m. system pinv G i c * (if c \<in> set ?js then x ! c else 0)) = (\<Sum>c \<in> set ?js. coeff ?d ?off i c * x ! c)" for i
  proof -
    have "(\<Sum>c \<in> set ?js. coeff ?d ?off i c * x ! c) = (\<Sum>c \<in> set ?js. system pinv G i c * (if c \<in> set ?js then x ! c else 0))"
      using coeff_system [OF t] r(6) by (intro sum.cong) auto
    also have "\<dots> = (\<Sum>c < ?m. system pinv G i c * (if c \<in> set ?js then x ! c else 0))"
      using r(6) by (intro sum.mono_neutral_left) auto
    finally show ?thesis ..
  qed
  have out: "rhs b i = 0" if "i \<notin> set ?js" for i
    using that sub unfolding rhs_def by (intro entry_sum_none) (auto dest: set_zip_leftD)
  have "(\<Sum>c < ?m. system pinv G i c * (if c \<in> set ?js then x ! c else 0)) = rhs b i" if "i < ?m" for i
    using e(2) [OF that] p(2) [OF that] zero [of i] out [of i] unfolding sum by (cases "i \<in> set ?js") auto
  moreover have "x ! i = x0 ! i" if "i < ?m" "i \<notin> set ?js" for i
    using e(2) [OF that(1)] p(2) [OF that(1)] zero [OF that(2)] that(2) by simp
  moreover have "pattern G (s\<lparr>work_count := work\<rparr>) = ?js" by (simp add: pattern_def)
  ultimately show ?thesis using run r(2-4) by (intro exI [of _ "s\<lparr>work_count := work\<rparr>"] exI [of _ x]) simp
qed

text \<open>A lower triangular matrix of three columns, right-hand side in the middle row.\<close>

definition small_lower :: "rat csc_matrix" where
  "small_lower = \<lparr>csc_m = 3, csc_n = 3, csc_nz_max = 5, col_start = [0, 2, 4, 5], csc_i = [0, 1, 1, 2, 2], csc_x = [2, 1, 4, 3, 5]\<rparr>"

theorem sparse_triangle_solve_correct_witness:
  "\<exists>s x. sparse_triangle_solve True \<lparr>sv_n = 3, sv_i = [1], sv_x = [8]\<rparr> None [0, 0, 0, 0, 0, 0] small_lower [7, 7, 7] 0 = Some (s, x)
     \<and> x = [7, 2, - 6 / 5] \<and> pattern small_lower s = [1, 2] \<and> set (pattern small_lower s) = reachable_from None small_lower {1}"
proof -
  let ?b = "\<lparr>sv_n = 3, sv_i = [1], sv_x = [8 :: rat]\<rparr>"
  have t: "triangular_ok True id None small_lower" by code_simp
  have b: "rhs_ok (csc_m small_lower) ?b" by code_simp
  have r: "map_option (\<lambda>(s, x). (pattern small_lower s, x)) (sparse_triangle_solve True ?b None [0, 0, 0, 0, 0, 0] small_lower [7, 7, 7] 0)
      = Some ([1, 2], [7, 2, - 6 / 5])" by code_simp
  have "length [0, 0, 0, 0, 0, 0 :: nat] = 2 * csc_m small_lower" "length [7, 7, 7 :: rat] = csc_m small_lower" by (simp_all add: small_lower_def)
  from sparse_triangle_solve_correct [OF t b this, of 0] r show ?thesis by fastforce
qed

end
