(* ===== verification/Waypoint_Matrix.thy ===== *)
theory Waypoint_Matrix
  imports Prelude "HOL-Library.Word" "HOL-Library.While_Combinator" "HOL-Library.Product_Lexorder"
begin

text \<open>
  The routing distance engine, \<open>cpp/src/routing/distance_engine/waypoint_matrix.cpp\<close>:
  input validation, the single-source shortest path search with its predecessor rows, the
  cost matrix, and the reconstruction of way-point sequences and secondary costs from the
  predecessors.

  A null pointer is \<open>None\<close>; a call of \<open>cuopt_expects\<close> that fails is the left
  injection of its message. Distances are in a linearly ordered integral domain (exact, not
  rounded). Loops whose end the code does not show are \<open>while_option\<close>, so that not
  returning is the value \<open>None\<close> and has to be excluded by a proof. The rows of the
  predecessor matrix are 16- or 32-bit words with -1 as the mark of \<^emph>\<open>no predecessor\<close>. The
  parallel loops write disjoint rows and are folded in index order; copies between host and
  device are the identity.
\<close>

section \<open>State\<close>

record 'f waypoint_matrix =
  wm_offsets :: "nat list"
  wm_n_vertices :: nat
  wm_indices :: "nat list"
  wm_weights :: "'f list"
  predecessor_matrix16 :: "16 word list list"
  predecessor_matrix32 :: "32 word list list"
  is_int16 :: bool

section \<open>Validation\<close>

text \<open>\<open>cuopt_expects(c, ValidationError, msg)\<close> followed by the rest.\<close>

definition expects :: "bool \<Rightarrow> string \<Rightarrow> (string + 'a) \<Rightarrow> string + 'a" where
  "expects c msg rest = (if c then rest else Inl msg)"

fun check_offsets_from :: "int list \<Rightarrow> int \<Rightarrow> int \<Rightarrow> nat list \<Rightarrow> string + unit" where
  "check_offsets_from offsets nb_edges prev [] = Inr ()"
| "check_offsets_from offsets nb_edges prev (i # is) =
     (let curr = offsets ! i
      in expects (curr \<ge> 0) ''Offsets values must be positive.''
          (expects (curr \<le> nb_edges) ''Offsets values must be lower than the number of edges.''
            (expects (curr \<ge> prev) ''Offsets values must in an increasing order.''
              (check_offsets_from offsets nb_edges curr is))))"

definition check_offsets :: "int list \<Rightarrow> int \<Rightarrow> string + unit" where
  "check_offsets offsets n_vertices =
     (let nb_edges = offsets ! nat n_vertices;
          prev = offsets ! 0
      in expects (prev \<ge> 0) ''Offsets values must be positive''
          (expects (prev \<le> nb_edges) ''Offsets values must be lower than the number of edges''
            (check_offsets_from offsets nb_edges prev [1..<nat n_vertices])))"

fun check_indices_from :: "int list \<Rightarrow> int \<Rightarrow> nat list \<Rightarrow> string + unit" where
  "check_indices_from indices n_vertices [] = Inr ()"
| "check_indices_from indices n_vertices (i # is) =
     (let curr = indices ! i
      in expects (curr \<ge> 0) ''Indices values must be positive.''
          (expects (curr < n_vertices) ''Indices values must be lower than the number of vertices.''
            (check_indices_from indices n_vertices is)))"

definition check_indices :: "int list \<Rightarrow> int \<Rightarrow> int \<Rightarrow> string + unit" where
  "check_indices indices n_vertices n_edges = check_indices_from indices n_vertices [0..<nat n_edges]"

definition check_weights :: "'f::{zero,ord} list \<Rightarrow> int \<Rightarrow> string + unit" where
  "check_weights weights n_edges =
     (if list_ex (\<lambda>val. val < 0) (take (nat n_edges) weights)
      then Inl ''Weights values must be positive.'' else Inr ())"

fun bind_check :: "string + unit \<Rightarrow> (string + 'a) \<Rightarrow> string + 'a" where
  "bind_check (Inl msg) rest = Inl msg"
| "bind_check (Inr u) rest = rest"

definition waypoint_matrix_t ::
    "int list option \<Rightarrow> int \<Rightarrow> int list option \<Rightarrow> 'f::{zero,ord} list option \<Rightarrow> string + 'f waypoint_matrix" where
  "waypoint_matrix_t offsets n_vertices indices weights =
     (case offsets of None \<Rightarrow> Inl ''Offsets input cannot be null.''
      | Some offsets \<Rightarrow>
        expects (n_vertices > 0) ''Number of indices should be positive.''
          (case indices of None \<Rightarrow> Inl ''Indices input cannot be null.''
           | Some indices \<Rightarrow>
             (case weights of None \<Rightarrow> Inl ''Weights input cannot be null.''
              | Some weights \<Rightarrow>
                bind_check (check_offsets offsets n_vertices)
                  (bind_check (check_indices indices n_vertices (offsets ! nat n_vertices))
                    (bind_check (check_weights weights (offsets ! nat n_vertices))
                      (Inr \<lparr>wm_offsets = map nat offsets, wm_n_vertices = nat n_vertices,
                            wm_indices = map nat indices, wm_weights = weights,
                            predecessor_matrix16 = [], predecessor_matrix32 = [], is_int16 = False\<rparr>))))))"

fun check_target_locations_from :: "int list \<Rightarrow> nat \<Rightarrow> nat list \<Rightarrow> string + unit" where
  "check_target_locations_from targets n_vertices [] = Inr ()"
| "check_target_locations_from targets n_vertices (i # is) =
     (let val = targets ! i
      in expects (val \<ge> 0) ''Target locations values must be positive.''
          (expects (val < int n_vertices) ''Target locations values must be lower than the number of vertices.''
            (check_target_locations_from targets n_vertices is)))"

definition check_target_locations :: "int list \<Rightarrow> int \<Rightarrow> nat \<Rightarrow> string + unit" where
  "check_target_locations targets n_targets n_vertices =
     check_target_locations_from targets n_vertices [0..<nat n_targets]"

definition check_locations :: "int list \<Rightarrow> int \<Rightarrow> int \<Rightarrow> string + unit" where
  "check_locations locations n_locations n_target_locations =
     (if list_ex (\<lambda>index. index \<ge> n_target_locations) (take (nat n_locations) locations)
      then Inl ''Locations values must be lower than the number of target locations.'' else Inr ())"

section \<open>Shortest paths from one vertex\<close>

text \<open>
  The loop state: the priority queue (increasing list of distance and vertex, its first
  element is the top), the distances and the predecessor row of this source.
\<close>

type_synonym ('f, 'p) dijkstra_state = "('f \<times> nat) list \<times> 'f list \<times> 'p word list"

definition unset_val :: "'f::linordered_idom" where
  "unset_val = 10 ^ 30"

definition relax ::
    "'f::linordered_idom waypoint_matrix \<Rightarrow> 'f \<Rightarrow> nat \<Rightarrow> nat \<Rightarrow> ('f, 'p::len) dijkstra_state \<Rightarrow> ('f, 'p) dijkstra_state" where
  "relax g distance u nbr_offset = (\<lambda>(min_q, dist, pred).
     let v = wm_indices g ! nbr_offset;
         new_distance = distance + wm_weights g ! nbr_offset
     in if new_distance < dist ! v
        then (insort (new_distance, v) min_q, dist[v := new_distance], pred[v := word_of_nat u])
        else (min_q, dist, pred))"

definition dijkstra_step ::
    "'f::linordered_idom waypoint_matrix \<Rightarrow> ('f, 'p::len) dijkstra_state \<Rightarrow> ('f, 'p) dijkstra_state" where
  "dijkstra_step g = (\<lambda>(min_q, dist, pred).
     let (distance, u) = hd min_q;
         min_q = tl min_q
     in if distance > dist ! u then (min_q, dist, pred)
        else for_range (wm_offsets g ! u) (wm_offsets g ! (u + 1)) (relax g distance u) (min_q, dist, pred))"

definition dijkstra_run ::
    "'f::linordered_idom waypoint_matrix \<Rightarrow> 'p::len word list \<Rightarrow> nat \<Rightarrow> ('f, 'p) dijkstra_state option" where
  "dijkstra_run g pred src =
     while_option (\<lambda>(min_q, dist, pred). min_q \<noteq> []) (dijkstra_step g)
       ([(0, src)], (replicate (wm_n_vertices g) unset_val)[src := 0], pred)"

definition write_cost_matrix :: "'f list \<Rightarrow> nat \<Rightarrow> 'f list \<Rightarrow> nat list \<Rightarrow> 'f list" where
  "write_cost_matrix cost_matrix id_src dist target_locations =
     (let n_target_locations = length target_locations
      in for_range 0 n_target_locations
           (\<lambda>i c. c[id_src * n_target_locations + i := dist ! (target_locations ! i)]) cost_matrix)"

definition dijkstra ::
    "'f::linordered_idom waypoint_matrix \<Rightarrow> nat \<Rightarrow> nat list \<Rightarrow> nat
      \<Rightarrow> 'p::len word list list \<times> 'f list \<Rightarrow> ('p word list list \<times> 'f list) option" where
  "dijkstra g src target_locations id_src = (\<lambda>(predecessor_matrix, cost_matrix).
     map_option
       (\<lambda>(min_q, dist, pred).
          (predecessor_matrix[id_src := pred], write_cost_matrix cost_matrix id_src dist target_locations))
       (dijkstra_run g (predecessor_matrix ! id_src) src))"

section \<open>The cost matrix\<close>

fun all_sources ::
    "'f::linordered_idom waypoint_matrix \<Rightarrow> nat list \<Rightarrow> nat list
      \<Rightarrow> 'p::len word list list \<times> 'f list \<Rightarrow> ('p word list list \<times> 'f list) option" where
  "all_sources g target_locations [] s = Some s"
| "all_sources g target_locations (i # is) s =
     Option.bind (dijkstra g (target_locations ! i) target_locations i s) (all_sources g target_locations is)"

definition mpsp ::
    "nat list \<Rightarrow> 'f::linordered_idom waypoint_matrix \<Rightarrow> ('f list \<times> 'f waypoint_matrix) option" where
  "mpsp target_locations g =
     (let nt = length target_locations;
          cost_matrix = replicate (nt * nt) 0
      in if wm_n_vertices g < 65535
         then map_option (\<lambda>(pm, c). (c, g\<lparr>predecessor_matrix16 := pm, is_int16 := True\<rparr>))
                (all_sources g target_locations [0..<nt]
                  (replicate nt (replicate (wm_n_vertices g) (-1)), cost_matrix))
         else map_option (\<lambda>(pm, c). (c, g\<lparr>predecessor_matrix32 := pm\<rparr>))
                (all_sources g target_locations [0..<nt]
                  (replicate nt (replicate (wm_n_vertices g) (-1)), cost_matrix)))"

text \<open>The result: an error, or the (possible) end of the search.\<close>

definition compute_cost_matrix ::
    "bool \<Rightarrow> int list option \<Rightarrow> int \<Rightarrow> 'f::linordered_idom waypoint_matrix
      \<Rightarrow> string + ('f list \<times> 'f waypoint_matrix) option" where
  "compute_cost_matrix cost_matrix_given target_locations n_target_locations g =
     expects cost_matrix_given ''Cost matrix input cannot be null.''
       (case target_locations of None \<Rightarrow> Inl ''Target locations cannot be null.''
        | Some targets \<Rightarrow>
          expects (n_target_locations > 0) ''Number of target locations should be positive.''
            (bind_check (check_target_locations targets n_target_locations (wm_n_vertices g))
              (Inr (mpsp (map nat (take (nat n_target_locations) targets)) g))))"

section \<open>Way-point sequences\<close>

text \<open>One path, climbed from the destination; the stack's top is the head of the list.\<close>

definition climb :: "'p::len word list \<Rightarrow> nat list \<times> 'p word \<Rightarrow> nat list \<times> 'p word" where
  "climb row = (\<lambda>(s, dst). (unat dst # s, row ! unat dst))"

definition add_path_nodes :: "'p::len word list \<Rightarrow> 'p word \<Rightarrow> nat list option" where
  "add_path_nodes row dst =
     map_option fst (while_option (\<lambda>(s, dst). dst \<noteq> -1) (climb row) (climb row ([], dst)))"

definition add_path ::
    "'p::len word list list \<Rightarrow> nat \<Rightarrow> nat \<Rightarrow> nat \<Rightarrow> nat list \<times> nat list \<Rightarrow> (nat list \<times> nat list) option" where
  "add_path predecessor_matrix src_matrix_id dst_graph_id i = (\<lambda>(paths_list, paths_offsets).
     map_option (\<lambda>s. (paths_list @ s, paths_offsets[i := length s + paths_offsets ! (i - 1)]))
       (add_path_nodes (predecessor_matrix ! src_matrix_id) (word_of_nat dst_graph_id)))"

text \<open>A negative location is read outside the arrays: no defined result.\<close>

fun add_paths ::
    "'p::len word list list \<Rightarrow> nat list \<Rightarrow> int list \<Rightarrow> nat list \<Rightarrow> nat list \<times> nat list \<Rightarrow> (nat list \<times> nat list) option" where
  "add_paths pm target_locations locations [] s = Some s"
| "add_paths pm target_locations locations (i # is) s =
     (let src_matrix_id = locations ! (i - 1);
          dst = locations ! i
      in if src_matrix_id < 0 \<or> dst < 0 then None
         else Option.bind (add_path pm (nat src_matrix_id) (target_locations ! nat dst) i s)
                (add_paths pm target_locations locations is))"

definition compute_waypoint_sequence ::
    "int list option \<Rightarrow> int \<Rightarrow> int list option \<Rightarrow> int \<Rightarrow> 'f waypoint_matrix \<Rightarrow> string + (nat list \<times> nat list) option" where
  "compute_waypoint_sequence target_locations n_target_locations locations n_locations g =
     (case target_locations of None \<Rightarrow> Inl ''Offset input cannot be null.''
      | Some targets \<Rightarrow>
        expects (n_target_locations > 0) ''Number of target locations should be positive.''
          (case locations of None \<Rightarrow> Inl ''Location input cannot be null.''
           | Some locs \<Rightarrow>
             expects (n_locations > 0) ''Number of locations should be positive.''
               (expects (if is_int16 g then length (predecessor_matrix16 g) > 0 else length (predecessor_matrix32 g) > 0)
                  ''compute_waypoint_sequence cannot be called before compute_cost_matrix.''
                  (bind_check (check_target_locations targets n_target_locations (wm_n_vertices g))
                    (bind_check (check_locations locs n_locations n_target_locations)
                      (let ts = map nat targets;
                           ls = take (nat n_locations) locs;
                           s = ([], replicate (nat n_locations) 0)
                       in Inr (if is_int16 g
                               then add_paths (predecessor_matrix16 g) ts ls [1..<nat n_locations] s
                               else add_paths (predecessor_matrix32 g) ts ls [1..<nat n_locations] s)))))))"

section \<open>Secondary costs along the stored paths\<close>

text \<open>
  The first neighbour equal to \<open>dst\<close> in the adjacency list of \<open>previous\<close> pays; reading
  the adjacency list of \<^emph>\<open>no predecessor\<close> is outside the arrays, and is \<open>None\<close>.
\<close>

fun neighbour_cost :: "'f waypoint_matrix \<Rightarrow> 'f::{zero,plus} list \<Rightarrow> nat \<Rightarrow> nat list \<Rightarrow> 'f \<Rightarrow> 'f" where
  "neighbour_cost g weights dst [] cost = cost"
| "neighbour_cost g weights dst (p # ps) cost =
     (if wm_indices g ! p = dst then cost + weights ! p else neighbour_cost g weights dst ps cost)"

definition climb_cost ::
    "'f waypoint_matrix \<Rightarrow> 'f::{zero,plus} list \<Rightarrow> 'p::len word list \<Rightarrow> 'f \<times> nat \<times> 'p word \<Rightarrow> 'f \<times> nat \<times> 'p word" where
  "climb_cost g weights row = (\<lambda>(cost, dst, previous).
     (neighbour_cost g weights dst [wm_offsets g ! unat previous..<wm_offsets g ! (unat previous + 1)] cost,
      unat previous, row ! unat previous))"

definition compute_secondary_cost ::
    "'f waypoint_matrix \<Rightarrow> 'p::len word list list \<Rightarrow> nat \<Rightarrow> nat \<Rightarrow> 'f::{zero,plus} list \<Rightarrow> 'f option" where
  "compute_secondary_cost g predecessor_matrix src_matrix_id dst_graph_id weights =
     (let row = predecessor_matrix ! src_matrix_id;
          previous = row ! dst_graph_id
      in if previous = -1 then None
         else map_option fst
                (while_option (\<lambda>(cost, dst, previous). previous \<noteq> -1) (climb_cost g weights row)
                  (climb_cost g weights row (0, dst_graph_id, previous))))"

fun secondary_costs ::
    "'f waypoint_matrix \<Rightarrow> 'p::len word list list \<Rightarrow> nat list \<Rightarrow> 'f::{zero,plus} list \<Rightarrow> nat list \<Rightarrow> 'f list \<Rightarrow> 'f list option" where
  "secondary_costs g pm target_locations weights [] m = Some m"
| "secondary_costs g pm target_locations weights (i # is) m =
     (let nt = length target_locations;
          src = i div nt;
          dst = i mod nt
      in if src = dst then secondary_costs g pm target_locations weights is (m[i := 0])
         else Option.bind (compute_secondary_cost g pm src (target_locations ! dst) weights)
                (\<lambda>c. secondary_costs g pm target_locations weights is (m[i := c])))"

definition shortest_path_costs ::
    "nat list \<Rightarrow> 'f::{zero,plus} list \<Rightarrow> 'f waypoint_matrix \<Rightarrow> 'f list option" where
  "shortest_path_costs target_locations weights g =
     (let nt = length target_locations; m = replicate (nt * nt) 0
      in if is_int16 g
         then secondary_costs g (predecessor_matrix16 g) target_locations weights [0..<nt * nt] m
         else secondary_costs g (predecessor_matrix32 g) target_locations weights [0..<nt * nt] m)"

definition compute_shortest_path_costs ::
    "bool \<Rightarrow> int list option \<Rightarrow> int \<Rightarrow> 'f::{zero,plus} list option \<Rightarrow> 'f waypoint_matrix \<Rightarrow> string + 'f list option" where
  "compute_shortest_path_costs custom_matrix_given target_locations n_target_locations weights g =
     expects custom_matrix_given ''Custom matrix input cannot be null.''
       (case target_locations of None \<Rightarrow> Inl ''Target locations input cannot be null.''
        | Some targets \<Rightarrow>
          expects (n_target_locations > 0) ''Number of target locations should be positive.''
            (case weights of None \<Rightarrow> Inl ''Weights input cannot be null.''
             | Some weights \<Rightarrow>
               bind_check (check_target_locations targets n_target_locations (wm_n_vertices g))
                 (Inr (shortest_path_costs (map nat (take (nat n_target_locations) targets)) weights g))))"

end
