(* ===== verification/Shortest_Paths.thy ===== *)
theory Shortest_Paths
  imports Waypoint_Matrix
begin

text \<open>
  Correctness of the shortest path search of the distance engine: it returns, its
  distances are the minimum of the walk lengths cut off at \<open>unset_val\<close>, and its
  predecessor rows lead from every reached vertex back to the source along edges of a
  shortest walk.
\<close>

section \<open>Graphs and walks\<close>

definition edges :: "'f waypoint_matrix \<Rightarrow> nat \<Rightarrow> (nat \<times> 'f) list" where
  "edges g u = map (\<lambda>p. (wm_indices g ! p, wm_weights g ! p)) [wm_offsets g ! u..<wm_offsets g ! (u + 1)]"

definition graph_ok :: "'f::{zero,ord} waypoint_matrix \<Rightarrow> bool" where
  "graph_ok g \<longleftrightarrow> (\<forall>u < wm_n_vertices g. \<forall>e \<in> set (edges g u). fst e < wm_n_vertices g \<and> 0 \<le> snd e)"

inductive walk :: "'f::linordered_idom waypoint_matrix \<Rightarrow> nat \<Rightarrow> nat list \<Rightarrow> nat \<Rightarrow> 'f \<Rightarrow> bool"
  for g s where
  walk_start: "walk g s [s] s 0"
| walk_edge: "walk g s p u c \<Longrightarrow> u < wm_n_vertices g \<Longrightarrow> (v, w) \<in> set (edges g u) \<Longrightarrow> walk g s (p @ [v]) v (c + w)"

lemma walk_nonneg: "walk g s p v c \<Longrightarrow> graph_ok g \<Longrightarrow> 0 \<le> c"
  by (induction rule: walk.induct) (fastforce simp: graph_ok_def)+

lemma unset_pos: "0 < (unset_val :: 'f::linordered_idom)"
  by (simp add: unset_val_def)

lemma enc_dec: "u < 2 ^ LENGTH('p) - 1 \<Longrightarrow> unat (word_of_nat u :: 'p::len word) = u \<and> (word_of_nat u :: 'p word) \<noteq> -1"
proof -
  assume u: "u < 2 ^ LENGTH('p) - 1"
  then have eq: "unat (word_of_nat u :: 'p word) = u" by (simp add: unsigned_of_nat take_bit_nat_eq_self)
  moreover have "unat (-1 :: 'p word) = 2 ^ LENGTH('p) - 1"
    by (simp add: unsigned_minus_1_eq_mask mask_eq_exp_minus_1)
  ultimately show ?thesis using u by auto
qed

section \<open>The invariant of the search\<close>

text \<open>
  \<open>order\<close> lists the settled vertices in the order in which they were taken from the queue,
  \<open>R\<close> holds the edges already relaxed.
\<close>

definition parent_of ::
    "'f::linordered_idom waypoint_matrix \<Rightarrow> nat list \<Rightarrow> 'f list \<Rightarrow> 'p::len word list \<Rightarrow> nat \<Rightarrow> nat \<Rightarrow> 'f \<Rightarrow> bool" where
  "parent_of g order dist pred v u w \<longleftrightarrow>
     u \<in> set order \<and> (v, w) \<in> set (edges g u) \<and> pred ! v = word_of_nat u \<and> dist ! v = dist ! u + w
     \<and> (\<forall>xs ys. order = xs @ v # ys \<longrightarrow> u \<in> set xs)"

definition search_inv ::
    "'f::linordered_idom waypoint_matrix \<Rightarrow> nat \<Rightarrow> nat list \<Rightarrow> (nat \<times> nat \<times> 'f) set \<Rightarrow> ('f, 'p::len) dijkstra_state \<Rightarrow> bool" where
  "search_inv g s order R = (\<lambda>(q, dist, pred).
     length dist = wm_n_vertices g \<and> length pred = wm_n_vertices g
     \<and> sorted q \<and> distinct q
     \<and> (\<forall>d v. (d, v) \<in> set q \<longrightarrow> v < wm_n_vertices g \<and> dist ! v \<le> d \<and> d < unset_val)
     \<and> distinct order
     \<and> (\<forall>v < wm_n_vertices g. v \<in> set order \<longleftrightarrow> dist ! v < unset_val \<and> (dist ! v, v) \<notin> set q)
     \<and> (\<forall>v \<in> set order. v < wm_n_vertices g)
     \<and> (\<forall>u \<in> set order. \<forall>d v. (d, v) \<in> set q \<longrightarrow> dist ! u \<le> d)
     \<and> (\<forall>v < wm_n_vertices g. dist ! v \<le> unset_val)
     \<and> (\<forall>v < wm_n_vertices g. dist ! v < unset_val \<longrightarrow> (\<exists>p. walk g s p v (dist ! v)))
     \<and> dist ! s = 0 \<and> pred ! s = -1
     \<and> (\<forall>u v w. (u, v, w) \<in> R \<longrightarrow> u \<in> set order \<and> (dist ! v \<le> dist ! u + w \<or> unset_val \<le> dist ! u + w))
     \<and> (\<forall>v < wm_n_vertices g. v \<noteq> s \<longrightarrow> dist ! v < unset_val \<longrightarrow> (\<exists>u w. parent_of g order dist pred v u w))
     \<and> (\<forall>v < wm_n_vertices g. v \<noteq> s \<longrightarrow> \<not> dist ! v < unset_val \<longrightarrow> pred ! v = -1))"

lemma search_inv_parts:
  assumes "search_inv g s order R (q, dist, pred)"
  shows "length dist = wm_n_vertices g" "length pred = wm_n_vertices g" "sorted q" "distinct q"
    and "\<forall>d v. (d, v) \<in> set q \<longrightarrow> v < wm_n_vertices g \<and> dist ! v \<le> d \<and> d < unset_val"
    and "distinct order"
    and "\<forall>v < wm_n_vertices g. v \<in> set order \<longleftrightarrow> dist ! v < unset_val \<and> (dist ! v, v) \<notin> set q"
    and "\<forall>v \<in> set order. v < wm_n_vertices g"
    and "\<forall>u \<in> set order. \<forall>d v. (d, v) \<in> set q \<longrightarrow> dist ! u \<le> d"
    and "\<forall>v < wm_n_vertices g. dist ! v \<le> unset_val"
    and "\<forall>v < wm_n_vertices g. dist ! v < unset_val \<longrightarrow> (\<exists>p. walk g s p v (dist ! v))"
    and "dist ! s = 0" "pred ! s = -1"
    and "\<forall>u v w. (u, v, w) \<in> R \<longrightarrow> u \<in> set order \<and> (dist ! v \<le> dist ! u + w \<or> unset_val \<le> dist ! u + w)"
    and "\<forall>v < wm_n_vertices g. v \<noteq> s \<longrightarrow> dist ! v < unset_val \<longrightarrow> (\<exists>u w. parent_of g order dist pred v u w)"
    and "\<forall>v < wm_n_vertices g. v \<noteq> s \<longrightarrow> \<not> dist ! v < unset_val \<longrightarrow> pred ! v = -1"
  by (insert assms [unfolded search_inv_def prod.case]) (elim conjE, assumption)+

lemmas search_invD = search_inv_parts [rule_format]

lemma relax_inv:
  fixes pred :: "'p::len word list" and dist :: "'f::linordered_idom list"
  assumes g: "graph_ok g" and inv: "search_inv g s order R (q, dist, pred)"
    and u: "u \<in> set order" and max: "\<forall>x \<in> set order. dist ! x \<le> dist ! u"
    and e: "(v, w) \<in> set (edges g u)" and lt: "dist ! u + w < dist ! v"
  defines "st' \<equiv> (insort (dist ! u + w, v) q, dist[v := dist ! u + w], pred[v := word_of_nat u :: 'p word])"
  shows "search_inv g s order (insert (u, v, w) R) st'" and "v \<notin> set order"
proof -
  let ?n = "wm_n_vertices g" and ?d = "dist ! u + w"
  note i = search_invD [OF inv]
  have un: "u < ?n" using i(8) u by blast
  have vn: "v < ?n" and w: "0 \<le> w" using g un e by (fastforce simp: graph_ok_def)+
  have "dist ! v \<le> dist ! u" if "v \<in> set order" using that max by blast
  then show vo: "v \<notin> set order" using lt w by force
  have unset: "?d < unset_val" using lt i(10) [OF vn] by simp
  obtain p where p: "walk g s p u (dist ! u)" using i(7,11) un u by blast
  have du: "0 \<le> dist ! u" by (rule walk_nonneg [OF p g])
  have vs: "v \<noteq> s" using i(12) lt du w by auto
  have fresh: "(?d, v) \<notin> set q" using i(5) [of ?d v] lt by auto
  have keep: "dist[v := ?d] ! x = dist ! x" if "x \<in> set order" for x using that vo by (metis nth_list_update_neq)
  have at: "dist[v := ?d] ! x = (if x = v then ?d else dist ! x)" for x
    using i(1) vn by (simp add: nth_list_update)
  have atp: "pred[v := word_of_nat u] ! x = (if x = v then word_of_nat u else pred ! x)" for x
    using i(2) vn by (simp add: nth_list_update)
  have wk: "\<exists>p. walk g s p v ?d" using walk_edge [OF p un e] by blast
  have par: "\<exists>a c. parent_of g order (dist[v := ?d]) (pred[v := word_of_nat u]) x a c"
    if x: "x < ?n" "x \<noteq> s" "dist[v := ?d] ! x < unset_val" for x
  proof (cases "x = v")
    case True
    then have "parent_of g order (dist[v := ?d]) (pred[v := word_of_nat u]) x u w"
      using vo u e keep [OF u] by (auto simp: parent_of_def at atp)
    then show ?thesis by blast
  next
    case False
    then have "dist ! x < unset_val" using x by (simp add: at)
    then obtain a c where a: "parent_of g order dist pred x a c" using i(15) [OF x(1,2)] by blast
    then have "parent_of g order (dist[v := ?d]) (pred[v := word_of_nat u]) x a c"
      using False keep [of a] by (simp add: parent_of_def at [of x] atp)
    then show ?thesis by blast
  qed
  show "search_inv g s order (insert (u, v, w) R) st'"
    unfolding st'_def search_inv_def prod.case
  proof (intro conjI)
    show "\<forall>d' x. (d', x) \<in> set (insort (?d, v) q) \<longrightarrow> x < ?n \<and> dist[v := ?d] ! x \<le> d' \<and> d' < unset_val"
      using i(5) vn unset lt by (auto simp: at set_insort_key intro: order_trans [OF less_imp_le])
    show "\<forall>x<?n. x \<in> set order \<longleftrightarrow> dist[v := ?d] ! x < unset_val \<and> (dist[v := ?d] ! x, x) \<notin> set (insort (?d, v) q)"
      using i(7) vo by (auto simp: at set_insort_key)
    show "\<forall>x \<in> set order. \<forall>d' y. (d', y) \<in> set (insort (?d, v) q) \<longrightarrow> dist[v := ?d] ! x \<le> d'"
      using i(9) keep max w by (auto simp: set_insort_key add_increasing2)
    show "\<forall>x<?n. dist[v := ?d] ! x \<le> unset_val" using i(10) unset by (simp add: at)
    show "\<forall>x<?n. dist[v := ?d] ! x < unset_val \<longrightarrow> (\<exists>p. walk g s p x (dist[v := ?d] ! x))"
      using i(11) wk by (simp add: at)
    show "\<forall>a b c. (a, b, c) \<in> insert (u, v, w) R \<longrightarrow> a \<in> set order \<and>
        (dist[v := ?d] ! b \<le> dist[v := ?d] ! a + c \<or> unset_val \<le> dist[v := ?d] ! a + c)"
    proof (intro allI impI)
      fix a b c assume "(a, b, c) \<in> insert (u, v, w) R"
      then consider "a = u" "b = v" "c = w" | "(a, b, c) \<in> R" by auto
      then show "a \<in> set order \<and> (dist[v := ?d] ! b \<le> dist[v := ?d] ! a + c \<or> unset_val \<le> dist[v := ?d] ! a + c)"
      proof cases
        case 1 then show ?thesis using u keep [OF u] by (simp add: at)
      next
        case 2
        then show ?thesis using i(14) [of a b c] keep [of a] lt by (auto simp: at [of b])
      qed
    qed
    show "\<forall>x<?n. x \<noteq> s \<longrightarrow> dist[v := ?d] ! x < unset_val \<longrightarrow>
        (\<exists>a c. parent_of g order (dist[v := ?d]) (pred[v := word_of_nat u]) x a c)" using par by blast
    show "\<forall>x<?n. x \<noteq> s \<longrightarrow> \<not> dist[v := ?d] ! x < unset_val \<longrightarrow> pred[v := word_of_nat u] ! x = -1"
      using i(16) unset by (auto simp: at atp)
    show "distinct (insort (?d, v) q)" using i(4) fresh by (simp add: distinct_insort)
    show "distinct order" "\<forall>x \<in> set order. x < ?n" using i(6,8) by auto
  qed (use i(1-3,12,13) vs in \<open>simp_all add: sorted_insort at atp\<close>)
qed

lemma search_inv_insert:
  assumes inv: "search_inv g s order R (q, dist, pred)" and "u \<in> set order" and "dist ! v \<le> dist ! u + w"
  shows "search_inv g s order (insert (u, v, w) R) (q, dist, pred)"
proof -
  have "\<forall>a b c. (a, b, c) \<in> insert (u, v, w) R \<longrightarrow> a \<in> set order \<and> (dist ! b \<le> dist ! a + c \<or> unset_val \<le> dist ! a + c)"
    using search_invD(14) [OF inv] assms(2,3) by auto
  then show ?thesis using assms(1) unfolding search_inv_def prod.case by (elim conjE) (intro conjI)
qed

text \<open>Relaxing all edges of the vertex just settled.\<close>

definition relax_edge :: "'f::linordered_idom \<Rightarrow> nat \<Rightarrow> nat \<times> 'f \<Rightarrow> ('f, 'p::len) dijkstra_state \<Rightarrow> ('f, 'p) dijkstra_state" where
  "relax_edge distance u e = (\<lambda>(q, dist, pred).
     if distance + snd e < dist ! fst e
     then (insort (distance + snd e, fst e) q, dist[fst e := distance + snd e], pred[fst e := word_of_nat u])
     else (q, dist, pred))"

lemma relax_all: "for_range (wm_offsets g ! u) (wm_offsets g ! (u + 1)) (relax g d u) = fold (relax_edge d u) (edges g u)"
  by (simp add: edges_def fold_map comp_def relax_def [abs_def] relax_edge_def [abs_def] Let_def cong: if_cong)

definition queue_of :: "('f, 'p::len) dijkstra_state \<Rightarrow> ('f \<times> nat) list" where
  "queue_of st = fst st"

lemma relax_edges_inv:
  fixes st :: "('f::linordered_idom, 'p::len) dijkstra_state"
  assumes g: "graph_ok g" and u: "u \<in> set order"
    and es: "set es \<subseteq> set (edges g u)"
    and inv: "search_inv g s order R st"
    and d: "fst (snd st) ! u = d" and max: "\<forall>x \<in> set order. fst (snd st) ! x \<le> d"
  shows "search_inv g s order (R \<union> (\<lambda>e. (u, e)) ` set es) (fold (relax_edge d u) es st)
         \<and> length (queue_of (fold (relax_edge d u) es st)) \<le> length (queue_of st) + length es"
  using es inv d max
proof (induction es arbitrary: st R)
  case (Cons e es)
  obtain q dist pred where st: "st = (q, dist, pred)" by (rule prod_cases3)
  obtain v w where e: "e = (v, w)" by (rule prod.exhaust)
  let ?st = "relax_edge d u e st"
  have dist: "dist ! u = d" "\<forall>x \<in> set order. dist ! x \<le> dist ! u" using Cons.prems by (auto simp: st)
  have ev: "(v, w) \<in> set (edges g u)" using Cons.prems e by auto
  have "search_inv g s order (insert (u, v, w) R) ?st \<and> fst (snd ?st) ! u = d \<and> (\<forall>x \<in> set order. fst (snd ?st) ! x \<le> d)
      \<and> length (queue_of ?st) \<le> Suc (length (queue_of st))"
  proof (cases "d + w < dist ! v")
    case True
    note r = relax_inv [OF g Cons.prems(2) [unfolded st] u dist(2) ev]
    have "?st = (insort (dist ! u + w, v) q, dist[v := dist ! u + w], pred[v := word_of_nat u])"
      using True dist by (simp add: relax_edge_def st e)
    moreover have "dist[v := c] ! x = dist ! x" if "x \<in> set order" for x c
      using r(2) True dist that by (metis nth_list_update_neq)
    ultimately show ?thesis using r(1) True dist u by (simp add: queue_of_def st)
  next
    case False
    have "search_inv g s order (insert (u, v, w) R) st"
      using Cons.prems(2) unfolding st by (rule search_inv_insert) (use False dist u in auto)
    then show ?thesis using False dist by (simp add: relax_edge_def st e queue_of_def)
  qed
  then show ?case using Cons.IH [of "insert (u, v, w) R" ?st] Cons.prems(1) by (fastforce simp: e)
qed (simp add: queue_of_def)

text \<open>Taking one element from the queue.\<close>

lemma pop_stale:
  assumes inv: "search_inv g s order R ((d, u) # q, dist, pred)" and "dist ! u < d"
  shows "search_inv g s order R (q, dist, pred)"
proof -
  let ?n = "wm_n_vertices g"
  note i = search_inv_parts [OF inv]
  have same: "(dist ! v, v) \<in> set ((d, u) # q) \<longleftrightarrow> (dist ! v, v) \<in> set q" for v using assms(2) by auto
  show ?thesis
    unfolding search_inv_def prod.case
  proof (intro conjI)
    show "\<forall>v<?n. v \<in> set order \<longleftrightarrow> dist ! v < unset_val \<and> (dist ! v, v) \<notin> set q" using i(7) unfolding same .
    show "\<forall>d v. (d, v) \<in> set q \<longrightarrow> v < ?n \<and> dist ! v \<le> d \<and> d < unset_val" using i(5) by simp
    show "\<forall>u \<in> set order. \<forall>d v. (d, v) \<in> set q \<longrightarrow> dist ! u \<le> d" using i(9) by auto
    show "sorted q" "distinct q" using i(3,4) by auto
  qed (rule i)+
qed

lemma pop_settle:
  assumes inv: "search_inv g s order R ((d, u) # q, dist, pred)" and "\<not> dist ! u < d"
  shows "search_inv g s (order @ [u]) R (q, dist, pred)" and "u < wm_n_vertices g" and "u \<notin> set order"
    and "dist ! u = d" and "\<forall>x \<in> set (order @ [u]). dist ! x \<le> d"
proof -
  let ?n = "wm_n_vertices g"
  note i = search_invD [OF inv]
  show un: "u < ?n" and du: "dist ! u = d" using i(5) [of d u] assms(2) by auto
  show uo: "u \<notin> set order" using i(7) [OF un] du by auto
  show m: "\<forall>x \<in> set (order @ [u]). dist ! x \<le> d" using i(9) [of _ d u] du by auto
  have dq: "(d, u) \<notin> set q" using i(4) by auto
  have sq: "d \<le> d'" if "(d', v) \<in> set q" for d' v using i(3) that by (auto simp: less_eq_prod_def)
  have du': "d < unset_val" using i(5) [of d u] by auto
  have par: "parent_of g (order @ [u]) dist pred v a w" if a: "parent_of g order dist pred v a w" for v a w
  proof -
    have "a \<in> set xs" if "order @ [u] = xs @ v # ys" for xs ys
      using a that by (cases ys rule: rev_cases) (auto simp: parent_of_def)
    then show ?thesis using a by (auto simp: parent_of_def)
  qed
  show "search_inv g s (order @ [u]) R (q, dist, pred)"
    unfolding search_inv_def prod.case
  proof (intro conjI)
    show "\<forall>v<?n. v \<in> set (order @ [u]) \<longleftrightarrow> dist ! v < unset_val \<and> (dist ! v, v) \<notin> set q"
      using i(7) dq du du' un by auto
    show "\<forall>x \<in> set (order @ [u]). \<forall>d' v. (d', v) \<in> set q \<longrightarrow> dist ! x \<le> d'" using i(9) sq du by auto
    show "\<forall>v<?n. v \<noteq> s \<longrightarrow> dist ! v < unset_val \<longrightarrow> (\<exists>a w. parent_of g (order @ [u]) dist pred v a w)"
      using i(15) par by blast
    show "\<forall>d' v. (d', v) \<in> set q \<longrightarrow> v < ?n \<and> dist ! v \<le> d' \<and> d' < unset_val" using i(5) by auto
    show "\<forall>a b c. (a, b, c) \<in> R \<longrightarrow> a \<in> set (order @ [u]) \<and> (dist ! b \<le> dist ! a + c \<or> unset_val \<le> dist ! a + c)"
      using i(14) by fastforce
    show "sorted q" "distinct q" "distinct (order @ [u])" "\<forall>v \<in> set (order @ [u]). v < ?n"
      using i(3,4,6,8) uo un by auto
  qed (rule search_inv_parts [OF inv])+
qed

section \<open>The loop\<close>

text \<open>The edges relaxed when the vertices of \<open>order\<close> are settled, and what is left to do.\<close>

abbreviation relaxed_of :: "'f waypoint_matrix \<Rightarrow> nat list \<Rightarrow> (nat \<times> nat \<times> 'f) set" where
  "relaxed_of g order \<equiv> \<Union>u \<in> set order. (\<lambda>e. (u, e)) ` set (edges g u)"

definition work_left :: "'f waypoint_matrix \<Rightarrow> nat list \<Rightarrow> ('f, 'p::len) dijkstra_state \<Rightarrow> nat" where
  "work_left g order st = length (queue_of st) + (\<Sum>u \<in> {..<wm_n_vertices g} - set order. length (edges g u))"

lemma dijkstra_step_inv:
  fixes st :: "('f::linordered_idom, 'p::len) dijkstra_state"
  assumes g: "graph_ok g" and inv: "search_inv g s order (relaxed_of g order) st" and ne: "queue_of st \<noteq> []"
  shows "\<exists>order'. search_inv g s order' (relaxed_of g order') (dijkstra_step g st)
           \<and> work_left g order' (dijkstra_step g st) < work_left g order st"
proof -
  obtain d u q dist pred where st: "st = ((d, u) # q, dist, pred)"
    using ne by (cases st; cases "fst st") (auto simp: queue_of_def)
  show ?thesis
  proof (cases "dist ! u < d")
    case True
    then have "dijkstra_step g st = (q, dist, pred)" by (simp add: dijkstra_step_def st)
    then show ?thesis
      using pop_stale [OF inv [unfolded st] True] by (auto simp: work_left_def queue_of_def st intro!: exI [of _ order])
  next
    case False
    note ps = pop_settle [OF inv [unfolded st] False]
    let ?st = "fold (relax_edge d u) (edges g u) (q, dist, pred)"
    have eq: "dijkstra_step g st = ?st" using False by (simp add: dijkstra_step_def st relax_all [simplified])
    have "search_inv g s (order @ [u]) (relaxed_of g order \<union> (\<lambda>e. (u, e)) ` set (edges g u)) ?st
        \<and> length (queue_of ?st) \<le> length (queue_of (q, dist, pred)) + length (edges g u)"
      using ps by (intro relax_edges_inv [OF g]) auto
    then have inv': "search_inv g s (order @ [u]) (relaxed_of g (order @ [u])) ?st"
      and len: "length (queue_of ?st) \<le> length q + length (edges g u)" by (simp_all add: Un_commute queue_of_def)
    define X where "X = {..<wm_n_vertices g} - set (order @ [u])"
    have X: "{..<wm_n_vertices g} - set order = insert u X" "u \<notin> X" "finite X"
      using ps(2,3) by (auto simp: X_def)
    have "work_left g order st = Suc (length q) + (length (edges g u) + (\<Sum>x \<in> X. length (edges g x)))"
      unfolding work_left_def X(1) using X by (simp add: queue_of_def st)
    moreover have "work_left g (order @ [u]) ?st = length (queue_of ?st) + (\<Sum>x \<in> X. length (edges g x))"
      unfolding work_left_def X_def ..
    ultimately have "work_left g (order @ [u]) ?st < work_left g order st" using len by linarith
    then show ?thesis using inv' unfolding eq by blast
  qed
qed

lemma order_determined:
  assumes "search_inv g s order R st" "search_inv g s order' R' st"
  shows "set order = set order'"
proof -
  obtain q dist pred where st: "st = (q, dist, pred)" by (rule prod_cases3)
  show ?thesis
    using search_invD(7,8) [OF assms(1) [unfolded st]] search_invD(7,8) [OF assms(2) [unfolded st]] by blast
qed

lemma dijkstra_init:
  fixes g :: "'f::linordered_idom waypoint_matrix"
  assumes "s < wm_n_vertices g"
  shows "search_inv g s [] {} ([(0, s)], (replicate (wm_n_vertices g) unset_val)[s := 0],
           replicate (wm_n_vertices g) (-1 :: 'p::len word))"
proof -
  have at: "(replicate (wm_n_vertices g) unset_val)[s := 0] ! v = (if v = s then 0 else unset_val)"
    if "v < wm_n_vertices g" for v using that by (simp add: nth_list_update)
  show ?thesis
    using assms unset_pos [where 'f = 'f] walk_start [of g s]
    unfolding search_inv_def prod.case by (auto simp: at)
qed

theorem dijkstra_run_inv:
  fixes g :: "'f::linordered_idom waypoint_matrix"
  assumes g: "graph_ok g" and s: "s < wm_n_vertices g"
  obtains dist and pred :: "'p::len word list" and order
  where "dijkstra_run g (replicate (wm_n_vertices g) (-1)) s = Some ([], dist, pred)"
    and "search_inv g s order (relaxed_of g order) ([], dist, pred)"
proof -
  let ?b = "\<lambda>(min_q :: ('f \<times> nat) list, dist :: 'f list, pred :: 'p word list). min_q \<noteq> []"
  let ?s = "([(0, s)], (replicate (wm_n_vertices g) unset_val)[s := 0], replicate (wm_n_vertices g) (-1 :: 'p word))"
  define P where "P st = (\<exists>order. search_inv g s order (relaxed_of g order) st)" for st :: "('f, 'p) dijkstra_state"
  define f where "f st = work_left g (SOME order. search_inv g s order (relaxed_of g order) st) st"
    for st :: "('f, 'p) dijkstra_state"
  have f: "f st = work_left g order st" if "search_inv g s order (relaxed_of g order) st" for order st
  proof -
    have "search_inv g s (SOME order. search_inv g s order (relaxed_of g order) st)
        (relaxed_of g (SOME order. search_inv g s order (relaxed_of g order) st)) st"
      using that by (rule someI)
    from order_determined [OF this that] show ?thesis unfolding f_def work_left_def by simp
  qed
  have init: "P ?s" unfolding P_def using dijkstra_init [OF s] by (intro exI [of _ "[]"]) simp
  have step: "P (dijkstra_step g st) \<and> f (dijkstra_step g st) < f st" if pst: "P st" and bst: "?b st" for st
  proof -
    obtain order where o: "search_inv g s order (relaxed_of g order) st" using pst unfolding P_def by blast
    have "queue_of st \<noteq> []" using bst by (cases st) (simp add: queue_of_def)
    from dijkstra_step_inv [OF g o this] obtain order' where
      o': "search_inv g s order' (relaxed_of g order') (dijkstra_step g st)"
      and "work_left g order' (dijkstra_step g st) < work_left g order st" by blast
    then show ?thesis using f [OF o] f [OF o'] by (auto simp: P_def)
  qed
  obtain t where t: "while_option ?b (dijkstra_step g) ?s = Some t"
    using measure_while_option_Some [of P ?b "dijkstra_step g" f ?s, OF step init] by blast
  have "P t" by (rule while_option_rule [where P = P, OF _ t init]) (use step in blast)
  moreover have "\<not> ?b t" by (rule while_option_stop [OF t])
  ultimately show thesis using t that by (cases t) (auto simp: P_def dijkstra_run_def)
qed

text \<open>What the final state says: exact distances up to the cut-off, and predecessor chains.\<close>

lemma final_distance:
  assumes g: "graph_ok g" and inv: "search_inv g s order (relaxed_of g order) ([], dist, pred)"
    and wk: "walk g s p v c" and c: "c < unset_val" and v: "v < wm_n_vertices g"
  shows "dist ! v \<le> c"
  using wk c v
proof (induction rule: walk.induct)
  case walk_start
  then show ?case using search_invD(12) [OF inv] by simp
next
  case (walk_edge p u c v w)
  have w: "0 \<le> w" using g walk_edge.hyps by (fastforce simp: graph_ok_def)
  then have du: "dist ! u \<le> c" using walk_edge by simp
  then have "u \<in> set order" using search_invD(7) [OF inv walk_edge.hyps(2)] w walk_edge.prems(1) by simp
  then have "dist ! v \<le> dist ! u + w \<or> unset_val \<le> dist ! u + w"
    using search_invD(14) [OF inv, of u v w] walk_edge.hyps(3) by auto
  then show ?case using du walk_edge.prems(1) by linarith
qed

lemma climb_path:
  fixes pred :: "'p::len word list"
  assumes g: "graph_ok g" and inv: "search_inv g s order (relaxed_of g order) ([], dist, pred)"
    and fit: "wm_n_vertices g \<le> 2 ^ LENGTH('p) - 1" and v: "v < wm_n_vertices g" "dist ! v < unset_val"
  shows "\<exists>path. walk g s path v (dist ! v) \<and>
           while_option (\<lambda>(s, dst). dst \<noteq> -1) (climb pred) (climb pred (acc, word_of_nat v)) = Some (path @ acc, -1)"
proof -
  note i = search_invD [OF inv]
  have dec: "unat (word_of_nat x :: 'p word) = x" "(word_of_nat x :: 'p word) \<noteq> -1" if "x < wm_n_vertices g" for x
    using enc_dec [of x, where 'p = 'p] that fit by auto
  have "v \<in> set order" using i(7) [OF v(1)] v(2) by simp
  then obtain xs ys where "order = xs @ v # ys" by (auto dest: split_list)
  then show ?thesis using v
  proof (induction "length xs" arbitrary: v xs ys acc rule: less_induct)
    case less
    note v = less.prems(2,3)
    show ?case
    proof (cases "v = s")
      case True
      then have "while_option (\<lambda>(s, dst). dst \<noteq> -1) (climb pred) (climb pred (acc, word_of_nat v)) = Some ([s] @ acc, -1)"
        using dec [OF v(1)] i(13) by (subst while_option_unfold) (simp add: climb_def)
      moreover have "walk g s [s] v (dist ! v)" using True i(12) walk_start by simp
      ultimately show ?thesis by blast
    next
      case False
      obtain u w where "parent_of g order dist pred v u w" using i(15) [OF v(1) False v(2)] by blast
      then have u: "u \<in> set xs" "(v, w) \<in> set (edges g u)" "pred ! v = word_of_nat u" "dist ! v = dist ! u + w" "u \<in> set order"
        using less.prems(1) by (auto simp: parent_of_def)
      have un: "u < wm_n_vertices g" using i(8) u by blast
      have du: "dist ! u < unset_val" using i(7) [OF un] u by simp
      obtain xs1 xs2 where "xs = xs1 @ u # xs2" using u(1) by (auto dest: split_list)
      then have "length xs1 < length xs" "order = xs1 @ u # (xs2 @ v # ys)" using less.prems(1) by auto
      from less.hyps [OF this un du, of "v # acc"] obtain path where
        p: "walk g s path u (dist ! u)" and
        r: "while_option (\<lambda>(s, dst). dst \<noteq> -1) (climb pred) (climb pred (v # acc, word_of_nat u)) = Some (path @ v # acc, -1)"
        by blast
      have "climb pred (acc, word_of_nat v) = (v # acc, word_of_nat u)" using dec [OF v(1)] u by (simp add: climb_def)
      then have "while_option (\<lambda>(s, dst). dst \<noteq> -1) (climb pred) (climb pred (acc, word_of_nat v)) = Some ((path @ [v]) @ acc, -1)"
        using r dec(2) [OF un] by (subst while_option_unfold) simp
      moreover have "walk g s (path @ [v]) v (dist ! v)" using walk_edge [OF p un u(2)] u(4) by simp
      ultimately show ?thesis by blast
    qed
  qed
qed

section \<open>Validation\<close>

lemma expects_Inr [simp]: "expects c msg r = Inr x \<longleftrightarrow> c \<and> r = Inr x"
  by (simp add: expects_def)

lemma bind_check_Inr [simp]: "bind_check a r = Inr x \<longleftrightarrow> a = Inr () \<and> r = Inr x"
  by (cases a) auto

lemma check_offsets_from_Inr:
  "check_offsets_from offs E prev [i..<n] = Inr () \<longleftrightarrow>
     (\<forall>k. i \<le> k \<and> k < n \<longrightarrow> 0 \<le> offs ! k \<and> offs ! k \<le> E \<and> (if k = i then prev else offs ! (k - 1)) \<le> offs ! k)"
proof (induction "n - i" arbitrary: i prev)
  case (Suc d)
  then have i: "i < n" and upt: "[i..<n] = i # [Suc i..<n]" by (auto simp: upt_conv_Cons)
  have "check_offsets_from offs E (offs ! i) [Suc i..<n] = Inr () \<longleftrightarrow>
     (\<forall>k. Suc i \<le> k \<and> k < n \<longrightarrow> 0 \<le> offs ! k \<and> offs ! k \<le> E \<and> (if k = Suc i then offs ! i else offs ! (k - 1)) \<le> offs ! k)"
    using Suc.hyps by (intro Suc.hyps(1)) simp
  moreover have "(if k = Suc i then offs ! i else offs ! (k - 1)) = offs ! (k - 1)" for k by simp
  ultimately have rest: "check_offsets_from offs E (offs ! i) [Suc i..<n] = Inr () \<longleftrightarrow>
     (\<forall>k. Suc i \<le> k \<and> k < n \<longrightarrow> 0 \<le> offs ! k \<and> offs ! k \<le> E \<and> offs ! (k - 1) \<le> offs ! k)" by (simp only:)
  have later: "(Suc i \<le> k \<and> k < n \<longrightarrow> 0 \<le> offs ! k \<and> offs ! k \<le> E \<and> (if k = i then prev else offs ! (k - 1)) \<le> offs ! k)
      \<longleftrightarrow> (Suc i \<le> k \<and> k < n \<longrightarrow> 0 \<le> offs ! k \<and> offs ! k \<le> E \<and> offs ! (k - 1) \<le> offs ! k)" for k
    by (cases "k = i") simp_all
  show ?case unfolding upt all_split_first [OF i] later rest [symmetric] by (auto simp: Let_def)
qed auto

lemma check_indices_from_Inr:
  "check_indices_from inds n ps = Inr () \<longleftrightarrow> (\<forall>p \<in> set ps. 0 \<le> inds ! p \<and> inds ! p < n)"
  by (induction ps) (auto simp: Let_def)

lemma check_target_locations_from_Inr:
  "check_target_locations_from ts n is = Inr () \<longleftrightarrow> (\<forall>i \<in> set is. 0 \<le> ts ! i \<and> ts ! i < int n)"
  by (induction "is") (auto simp: Let_def)

lemma constructor_graph_ok:
  fixes ws :: "'f::linordered_idom list"
  assumes ok: "waypoint_matrix_t (Some offs) n (Some inds) (Some ws) = Inr g"
    and len: "length offs = nat n + 1" "length inds = nat (offs ! nat n)" "length ws = nat (offs ! nat n)"
  shows "graph_ok g" and "wm_n_vertices g = nat n" and "0 < wm_n_vertices g"
    and "wm_offsets g = map nat offs" and "wm_indices g = map nat inds" and "wm_weights g = ws"
proof -
  let ?E = "offs ! nat n"
  from ok have n: "0 < n" and co: "check_offsets offs n = Inr ()" and ci: "check_indices inds n ?E = Inr ()"
    and cw: "check_weights ws ?E = Inr ()"
    and g: "g = \<lparr>wm_offsets = map nat offs, wm_n_vertices = nat n, wm_indices = map nat inds, wm_weights = ws,
        predecessor_matrix16 = [], predecessor_matrix32 = [], is_int16 = False\<rparr>"
    by (auto simp: waypoint_matrix_t_def)
  show "wm_n_vertices g = nat n" "0 < wm_n_vertices g" "wm_offsets g = map nat offs" "wm_indices g = map nat inds"
    "wm_weights g = ws" using n by (auto simp: g)
  have le: "offs ! k \<le> ?E" if "k \<le> nat n" for k
    using co that by (cases "k = 0"; cases "k = nat n") (auto simp: check_offsets_def Let_def check_offsets_from_Inr)
  have ind: "0 \<le> inds ! p \<and> inds ! p < n" if "p < nat ?E" for p
    using ci that by (simp add: check_indices_def check_indices_from_Inr)
  have w: "0 \<le> ws ! p" if "p < nat ?E" for p
    using cw that len(3) by (simp add: check_weights_def list_ex_iff not_less split: if_splits)
  have "fst e < nat n \<and> 0 \<le> snd e" if u: "u < nat n" and e: "e \<in> set (edges g u)" for u e
  proof -
    from e obtain p where p: "e = (map nat inds ! p, ws ! p)" "p < map nat offs ! (u + 1)"
      by (auto simp: edges_def g)
    have "p < nat ?E" using p(2) le [of "u + 1"] u len(1) by simp
    then show ?thesis using ind [of p] w [of p] len p(1) by simp
  qed
  then show "graph_ok g" by (simp add: graph_ok_def g)
qed

section \<open>Rows of the cost matrix\<close>

lemma write_cost_matrix_eq:
  assumes "length c = nt * nt" "id_src < nt" "nt = length ts"
  shows "write_cost_matrix c id_src dist ts
         = map (\<lambda>k. if k div nt = id_src then dist ! (ts ! (k mod nt)) else c ! k) [0..<nt * nt]"
proof -
  have pos: "id_src * nt + i < nt * nt" if "i < nt" for i
  proof -
    have "id_src * nt + i < Suc id_src * nt" using that by simp
    also have "\<dots> \<le> nt * nt" using assms(2) by (intro mult_le_mono1) simp
    finally show ?thesis .
  qed
  define P where "P m v = (v = map (\<lambda>k. if k div nt = id_src \<and> k mod nt < m then dist ! (ts ! (k mod nt)) else c ! k) [0..<nt * nt])"
    for m v
  have idx: "k div nt = id_src \<and> k mod nt = i \<longleftrightarrow> k = id_src * nt + i" if "i < nt" for k i
    using that by (metis add.commute div_mult_self3 div_less add.left_neutral mod_mult_self1 mod_less div_mult_mod_eq gr_implies_not0)
  have "P nt (for_range 0 nt (\<lambda>i c. c[id_src * nt + i := dist ! (ts ! i)]) c)"
  proof (rule for_range_invariant)
    show "P 0 c" using assms(1) by (auto simp: P_def intro!: nth_equalityI)
    show "P (Suc i) (v[id_src * nt + i := dist ! (ts ! i)])" if i: "i < nt" and p: "P i v" for i v
      using p pos [OF i] idx [OF i] i
      by (auto simp: P_def nth_list_update less_Suc_eq intro!: nth_equalityI) metis+
  qed simp
  moreover have "k mod nt < nt" for k using assms(2) by (intro mod_less_divisor) linarith
  ultimately show ?thesis using assms(3) by (simp add: write_cost_matrix_def P_def Let_def)
qed

text \<open>The distances from one target, as the search leaves them.\<close>

definition distances :: "'p::len itself \<Rightarrow> 'f::linordered_idom waypoint_matrix \<Rightarrow> nat \<Rightarrow> 'f list" where
  "distances _ g s =
     (case dijkstra_run g (replicate (wm_n_vertices g) (-1 :: 'p word)) s of
        Some (q, dist, pred) \<Rightarrow> dist | None \<Rightarrow> [])"

definition preds :: "'f::linordered_idom waypoint_matrix \<Rightarrow> nat \<Rightarrow> 'p::len word list" where
  "preds g s =
     (case dijkstra_run g (replicate (wm_n_vertices g) (-1 :: 'p word)) s of
        Some (q, dist, pred) \<Rightarrow> pred | None \<Rightarrow> [])"

lemma all_sources_eq:
  fixes g :: "'f::linordered_idom waypoint_matrix" and pm :: "'p::len word list list"
  assumes g: "graph_ok g" and ts: "\<forall>t \<in> set ts. t < wm_n_vertices g" and nt: "nt = length ts"
    and m: "m \<le> nt" and c: "length c = nt * nt" and pm: "length pm = nt"
      "\<forall>i < nt. m \<le> i \<longrightarrow> pm ! i = replicate (wm_n_vertices g) (-1)"
  shows "all_sources g ts [m..<nt] (pm, c) =
     Some (map (\<lambda>i. if m \<le> i then preds g (ts ! i) else pm ! i) [0..<nt],
           map (\<lambda>k. if m \<le> k div nt then distances TYPE('p) g (ts ! (k div nt)) ! (ts ! (k mod nt)) else c ! k) [0..<nt * nt])"
  using m c pm
proof (induction "nt - m" arbitrary: m pm c)
  case 0
  then have "\<not> nt \<le> k div nt" if "k < nt * nt" for k using that by (simp add: less_mult_imp_div_less not_le)
  then show ?case using 0 by (auto intro!: nth_equalityI)
next
  case (Suc d)
  then have m: "m < nt" and upt: "[m..<nt] = m # [Suc m..<nt]" by (auto simp: upt_conv_Cons)
  have "ts ! m < wm_n_vertices g" using ts m nt by auto
  then obtain dist and pred :: "'p word list" and order where
    run: "dijkstra_run g (replicate (wm_n_vertices g) (-1)) (ts ! m) = Some ([], dist, pred)"
    using dijkstra_run_inv [OF g] by metis
  have row: "pm ! m = replicate (wm_n_vertices g) (-1)" using Suc.prems m by simp
  have dd: "dist = distances TYPE('p) g (ts ! m)" "pred = preds g (ts ! m)" using run by (auto simp: distances_def preds_def)
  let ?c = "write_cost_matrix c m dist ts" and ?pm = "pm[m := pred]"
  have wc: "?c = map (\<lambda>k. if k div nt = m then dist ! (ts ! (k mod nt)) else c ! k) [0..<nt * nt]"
    using Suc.prems m nt by (intro write_cost_matrix_eq) auto
  have "all_sources g ts [Suc m..<nt] (?pm, ?c) = Some
     (map (\<lambda>i. if Suc m \<le> i then preds g (ts ! i) else ?pm ! i) [0..<nt],
      map (\<lambda>k. if Suc m \<le> k div nt then distances TYPE('p) g (ts ! (k div nt)) ! (ts ! (k mod nt)) else ?c ! k) [0..<nt * nt])"
    using Suc.prems Suc.hyps(2) m wc by (intro Suc.hyps(1)) auto
  then show ?case
    unfolding upt using run row dd Suc.prems(3) m wc
    by (auto simp: dijkstra_def nth_list_update not_less_eq_eq intro!: nth_equalityI)
qed

text \<open>The length of a shortest walk, or \<open>unset_val\<close> when every walk is at least that long.\<close>

definition cut_distance :: "'f::linordered_idom waypoint_matrix \<Rightarrow> nat \<Rightarrow> nat \<Rightarrow> 'f \<Rightarrow> bool" where
  "cut_distance g s v d \<longleftrightarrow> d \<le> unset_val \<and> (d < unset_val \<longrightarrow> (\<exists>p. walk g s p v d)) \<and>
     (\<forall>p c. walk g s p v c \<longrightarrow> d \<le> c \<or> unset_val \<le> c)"

lemma distances_spec:
  fixes g :: "'f::linordered_idom waypoint_matrix"
  assumes g: "graph_ok g" and s: "s < wm_n_vertices g"
  shows "dijkstra_run g (replicate (wm_n_vertices g) (-1 :: 'p::len word)) s
           = Some ([], distances TYPE('p) g s, preds g s)"
    and "length (distances TYPE('p) g s) = wm_n_vertices g"
    and "v < wm_n_vertices g \<Longrightarrow> cut_distance g s v (distances TYPE('p) g s ! v)"
    and "wm_n_vertices g \<le> 2 ^ LENGTH('p) - 1 \<Longrightarrow> v < wm_n_vertices g \<Longrightarrow> distances TYPE('p) g s ! v < unset_val \<Longrightarrow>
           \<exists>path. walk g s path v (distances TYPE('p) g s ! v) \<and>
             add_path_nodes (preds g s :: 'p word list) (word_of_nat v) = Some path"
proof -
  obtain dist and pred :: "'p word list" and order where
    run: "dijkstra_run g (replicate (wm_n_vertices g) (-1)) s = Some ([], dist, pred)"
    and inv: "search_inv g s order (relaxed_of g order) ([], dist, pred)"
    by (rule dijkstra_run_inv [OF g s])
  have d: "distances TYPE('p) g s = dist" "preds g s = pred" using run by (auto simp: distances_def preds_def)
  note i = search_invD [OF inv]
  show "dijkstra_run g (replicate (wm_n_vertices g) (-1 :: 'p word)) s = Some ([], distances TYPE('p) g s, preds g s)"
    using run d by simp
  show "length (distances TYPE('p) g s) = wm_n_vertices g" using i(1) d by simp
  show "cut_distance g s v (distances TYPE('p) g s ! v)" if v: "v < wm_n_vertices g"
    unfolding cut_distance_def d using i(10,11) [OF v] final_distance [OF g inv _ _ v] by (meson not_le)
  show "\<exists>path. walk g s path v (distances TYPE('p) g s ! v) \<and> add_path_nodes (preds g s :: 'p word list) (word_of_nat v) = Some path"
    if "wm_n_vertices g \<le> 2 ^ LENGTH('p) - 1" "v < wm_n_vertices g" "distances TYPE('p) g s ! v < unset_val"
    using climb_path [OF g inv that(1,2), of "[]"] that(3) unfolding d add_path_nodes_def by auto
qed

lemma all_sources_distances:
  fixes g :: "'f::linordered_idom waypoint_matrix"
  assumes g: "graph_ok g" and ts: "\<forall>t \<in> set ts. t < wm_n_vertices g"
  defines "nt \<equiv> length ts" and "c \<equiv> map (\<lambda>k. distances TYPE('q::len) g (ts ! (k div length ts)) ! (ts ! (k mod length ts)))
      [0..<length ts * length ts]"
  shows "all_sources g ts [0..<nt] (replicate nt (replicate (wm_n_vertices g) (-1)), replicate (nt * nt) 0)
           = Some (map (\<lambda>i. preds g (ts ! i) :: 'q word list) [0..<nt], c)"
    and "i < nt \<Longrightarrow> j < nt \<Longrightarrow> cut_distance g (ts ! i) (ts ! j) (c ! (i * nt + j))"
proof -
  show "all_sources g ts [0..<nt] (replicate nt (replicate (wm_n_vertices g) (-1)), replicate (nt * nt) 0)
           = Some (map (\<lambda>i. preds g (ts ! i) :: 'q word list) [0..<nt], c)"
    using all_sources_eq [OF g ts, of nt 0 "replicate (nt * nt) 0" "replicate nt (replicate (wm_n_vertices g) (-1 :: 'q word))"]
    by (simp add: nt_def c_def)
  show "cut_distance g (ts ! i) (ts ! j) (c ! (i * nt + j))" if ij: "i < nt" "j < nt"
  proof -
    have "i * nt + j < Suc i * nt" using ij by simp
    also have "\<dots> \<le> nt * nt" using ij by (intro mult_le_mono1) simp
    finally have "i * nt + j < nt * nt" .
    moreover have "(i * nt + j) div nt = i" using ij by (subst div_mult_self3) auto
    ultimately show ?thesis
      using ij ts distances_spec(3) [OF g, of "ts ! i" "ts ! j", where 'p = 'q] by (simp add: c_def nt_def)
  qed
qed

section \<open>Properties\<close>







end
