(* ===== verification/Sat_Literals.thy ===== *)
theory Sat_Literals
  imports Prelude
begin

text \<open>
  Literals and clauses of the Boolean feasibility search,
  \<open>cpp/src/mip_heuristics/feasibility_jump/sat/cdcl_sat_utils.hpp\<close>: a literal is
  (variable << 1) | polarity, where the polarity is the value that satisfies it. They are
  never negative and are natural numbers here.
\<close>

section \<open>Operations\<close>

definition LIT :: "nat \<Rightarrow> bool \<Rightarrow> nat" where
  "LIT var polarity = 2 * var + of_bool polarity"

definition LIT_VAR :: "nat \<Rightarrow> nat" where
  "LIT_VAR l = l div 2"

definition LIT_POLARITY :: "nat \<Rightarrow> bool" where
  "LIT_POLARITY l = odd l"

definition LIT_NEG :: "nat \<Rightarrow> nat" where
  "LIT_NEG l = (if even l then l + 1 else l - 1)"

datatype sat_result = declined | infeasible | stopped | successful

section \<open>Meaning\<close>

type_synonym clause = "nat list"

definition sat_lit :: "(nat \<Rightarrow> bool) \<Rightarrow> nat \<Rightarrow> bool" where
  "sat_lit \<alpha> l \<longleftrightarrow> \<alpha> (LIT_VAR l) = LIT_POLARITY l"

definition sat_clause :: "(nat \<Rightarrow> bool) \<Rightarrow> clause \<Rightarrow> bool" where
  "sat_clause \<alpha> C \<longleftrightarrow> (\<exists>l \<in> set C. sat_lit \<alpha> l)"

definition sat_cnf :: "(nat \<Rightarrow> bool) \<Rightarrow> clause list \<Rightarrow> bool" where
  "sat_cnf \<alpha> cnf \<longleftrightarrow> (\<forall>C \<in> set cnf. sat_clause \<alpha> C)"

definition vars_below :: "nat \<Rightarrow> clause list \<Rightarrow> bool" where
  "vars_below n cnf \<longleftrightarrow> (\<forall>C \<in> set cnf. \<forall>l \<in> set C. LIT_VAR l < n)"

named_theorems lit_simps \<open>rewriting of literals\<close>

lemma LIT_VAR_LIT [simp, lit_simps]: "LIT_VAR (LIT v b) = v"
  by (simp add: LIT_VAR_def LIT_def)

lemma LIT_POLARITY_LIT [simp, lit_simps]: "LIT_POLARITY (LIT v b) = b"
  by (simp add: LIT_POLARITY_def LIT_def)

lemma LIT_collapse: "LIT (LIT_VAR l) (LIT_POLARITY l) = l"
  unfolding LIT_def LIT_VAR_def LIT_POLARITY_def by (cases "even l") simp_all

lemma LIT_cases [case_names LIT]: obtains v b where "l = LIT v b"
  using LIT_collapse [of l] by metis

lemma LIT_inject [simp]: "LIT v b = LIT w c \<longleftrightarrow> v = w \<and> b = c"
proof
  assume "LIT v b = LIT w c"
  then have "LIT_VAR (LIT v b) = LIT_VAR (LIT w c)" "LIT_POLARITY (LIT v b) = LIT_POLARITY (LIT w c)" by simp_all
  then show "v = w \<and> b = c" by simp
qed simp

lemma LIT_NEG_LIT [simp, lit_simps]: "LIT_NEG (LIT v b) = LIT v (\<not> b)"
  by (simp add: LIT_NEG_def LIT_def)

lemma LIT_VAR_NEG [simp, lit_simps]: "LIT_VAR (LIT_NEG l) = LIT_VAR l"
  by (cases l rule: LIT_cases) simp

lemma LIT_POLARITY_NEG [simp, lit_simps]: "LIT_POLARITY (LIT_NEG l) = (\<not> LIT_POLARITY l)"
  by (cases l rule: LIT_cases) simp

lemma LIT_NEG_NEG [simp, lit_simps]: "LIT_NEG (LIT_NEG l) = l"
  by (cases l rule: LIT_cases) simp

lemma lit_eqI: "LIT_VAR l = LIT_VAR k \<Longrightarrow> LIT_POLARITY l = LIT_POLARITY k \<Longrightarrow> l = k"
  by (cases l rule: LIT_cases; cases k rule: LIT_cases) simp

lemma same_var: "LIT_VAR l = LIT_VAR k \<Longrightarrow> l = k \<or> l = LIT_NEG k"
  by (cases l rule: LIT_cases; cases k rule: LIT_cases) auto

lemma sat_lit_LIT [simp, lit_simps]: "sat_lit \<alpha> (LIT v b) \<longleftrightarrow> \<alpha> v = b"
  by (simp add: sat_lit_def)

lemma sat_lit_NEG [simp, lit_simps]: "sat_lit \<alpha> (LIT_NEG l) \<longleftrightarrow> \<not> sat_lit \<alpha> l"
  by (auto simp: sat_lit_def)

lemma sat_lit_cong: "\<alpha> (LIT_VAR l) = \<beta> (LIT_VAR l) \<Longrightarrow> sat_lit \<alpha> l = sat_lit \<beta> l"
  by (simp add: sat_lit_def)

lemma sat_cnf_Nil [simp]: "sat_cnf \<alpha> []"
  by (simp add: sat_cnf_def)

lemma sat_cnf_append [simp]: "sat_cnf \<alpha> (cnf @ new) \<longleftrightarrow> sat_cnf \<alpha> cnf \<and> sat_cnf \<alpha> new"
  by (auto simp: sat_cnf_def)

lemma sat_cnf_Cons [simp]: "sat_cnf \<alpha> (C # cnf) \<longleftrightarrow> sat_clause \<alpha> C \<and> sat_cnf \<alpha> cnf"
  by (simp add: sat_cnf_def)

lemma sat_clause_Cons [simp]: "sat_clause \<alpha> (l # C) \<longleftrightarrow> sat_lit \<alpha> l \<or> sat_clause \<alpha> C"
  by (auto simp: sat_clause_def)

lemma sat_clause_Nil [simp]: "\<not> sat_clause \<alpha> []"
  by (simp add: sat_clause_def)

lemma vars_below_append [simp]: "vars_below n (cnf @ new) \<longleftrightarrow> vars_below n cnf \<and> vars_below n new"
  by (auto simp: vars_below_def)

lemma vars_below_mono: "vars_below n cnf \<Longrightarrow> n \<le> m \<Longrightarrow> vars_below m cnf"
  by (force simp: vars_below_def)

lemma sat_cnf_cong:
  assumes "vars_below n cnf" "\<forall>v<n. \<alpha> v = \<beta> v"
  shows "sat_cnf \<alpha> cnf = sat_cnf \<beta> cnf"
proof -
  have "sat_lit \<alpha> l = sat_lit \<beta> l" if "C \<in> set cnf" "l \<in> set C" for C l
    using assms that by (intro sat_lit_cong) (auto simp: vars_below_def)
  then show ?thesis by (simp add: sat_cnf_def sat_clause_def)
qed

end
