(* ===== verification/Pb_Encoding.thy ===== *)
theory Pb_Encoding
  imports Sat_Literals
begin

text \<open>
  The encoding of pseudo-Boolean rows into clauses,
  \<open>cdcl_sat_utils.hpp\<close>: minimal forbidden subsets for short rows
  (\<open>try_encode_pb_row_direct\<close>), a monotone decision diagram for the others
  (\<open>encode_pb_row_bdd\<close>), and the loop over the rows of the model
  (\<open>encode_pb_model\<close>). Coefficients are integers: the 16-bit coefficients of a row add
  up without overflow in the 64-bit sums of the code. The call \<open>stop()\<close> before row r is
  the value of a parameter at r.
\<close>

section \<open>Data\<close>

type_synonym pb_term = "nat \<times> int"

record fj_bin_problem =
  n_variables :: nat
  n_constraints :: nat
  pb_offsets :: "nat list"
  pb_variables :: "nat list"
  pb_coefficients :: "int list"
  pb_bound :: "int list"

datatype bdd_ref = bdd_false_terminal | bdd_true_terminal | bdd_literal nat

definition direct_encoding_term_limit :: nat where "direct_encoding_term_limit = 12"
definition direct_encoding_clause_limit :: nat where "direct_encoding_clause_limit = 32"
definition bdd_state_limit :: nat where "bdd_state_limit = 20000"
definition sat_variable_limit :: nat where "sat_variable_limit = 1000000"
definition bdd_term_limit :: nat where "bdd_term_limit = 256"
definition sat_clause_limit :: nat where "sat_clause_limit = 2000000"
definition encoding_stop_poll_period :: nat where "encoding_stop_poll_period = 128"

section \<open>Direct encoding\<close>

text \<open>\<open>std::countr_zero\<close> of a positive number, and clearing its lowest bit.\<close>

function countr_zero :: "nat \<Rightarrow> nat" where
  "countr_zero m = (if m = 0 \<or> odd m then 0 else Suc (countr_zero (m div 2)))"
  by pat_completeness auto
termination by (relation "measure id") auto

declare countr_zero.simps [simp del]

abbreviation clear_lowest :: "nat \<Rightarrow> nat" where
  "clear_lowest m \<equiv> and m (m - 1)"

fun direct_masks ::
    "pb_term list \<Rightarrow> int \<Rightarrow> nat \<Rightarrow> nat list \<Rightarrow> int list \<Rightarrow> clause list \<Rightarrow> bool \<times> clause list" where
  "direct_masks terms rhs row_begin [] subset_weight cnf = (True, cnf)"
| "direct_masks terms rhs row_begin (m # masks) subset_weight cnf =
     (let subset_weight = subset_weight[m := subset_weight ! clear_lowest m + \<bar>snd (terms ! countr_zero m)\<bar>]
      in if subset_weight ! m \<le> rhs then direct_masks terms rhs row_begin masks subset_weight cnf
         else let minimal = list_all (\<lambda>k. \<not> (bit m k \<and> subset_weight ! m - \<bar>snd (terms ! k)\<bar> > rhs)) [0..<length terms]
              in if \<not> minimal then direct_masks terms rhs row_begin masks subset_weight cnf
                 else let clause = map (\<lambda>k. LIT (fst (terms ! k)) (snd (terms ! k) < 0)) (filter (bit m) [0..<length terms]);
                          cnf = cnf @ [clause]
                      in if length cnf - row_begin > direct_encoding_clause_limit then (False, take row_begin cnf)
                         else direct_masks terms rhs row_begin masks subset_weight cnf)"

definition try_encode_pb_row_direct :: "pb_term list \<Rightarrow> int \<Rightarrow> clause list \<Rightarrow> bool \<times> clause list" where
  "try_encode_pb_row_direct terms rhs cnf =
     (if length terms > direct_encoding_term_limit then (False, cnf)
      else let count = 2 ^ length terms
           in direct_masks terms rhs (length cnf) [1..<count] (replicate count 0) cnf)"

section \<open>Decision diagram encoding\<close>

text \<open>The state threaded through the recursion: memo table, next variable, clauses, overflow flag.\<close>

record bdd_state =
  memo :: "((nat \<times> int) \<times> bdd_ref) list"
  next_variable :: nat
  bdd_cnf :: "clause list"
  overflow :: bool

definition memo_emplace :: "nat \<times> int \<Rightarrow> bdd_ref \<Rightarrow> bdd_state \<Rightarrow> bdd_state" where
  "memo_emplace key ref s = (if map_of (memo s) key = None then s\<lparr>memo := (key, ref) # memo s\<rparr> else s)"

definition low_clause :: "nat \<Rightarrow> bdd_ref \<Rightarrow> clause list" where
  "low_clause q low =
     (case low of bdd_true_terminal \<Rightarrow> [] | bdd_false_terminal \<Rightarrow> [[LIT_NEG q]] | bdd_literal l \<Rightarrow> [[LIT_NEG q, l]])"

definition high_clause :: "nat \<Rightarrow> nat \<Rightarrow> bdd_ref \<Rightarrow> clause list" where
  "high_clause q z high =
     (case high of bdd_true_terminal \<Rightarrow> [] | bdd_false_terminal \<Rightarrow> [[LIT_NEG q, LIT_NEG z]]
      | bdd_literal l \<Rightarrow> [[LIT_NEG q, LIT_NEG z, l]])"

text \<open>
  The recursion takes the terms from position \<open>i\<close> on; past the last term the suffix sum is
  zero, so one of the first two cases applies there.
\<close>

fun encode_pb_row_bdd_node ::
    "nat \<Rightarrow> int list \<Rightarrow> pb_term list \<Rightarrow> nat \<Rightarrow> int \<Rightarrow> bdd_state \<Rightarrow> bdd_ref \<times> bdd_state" where
  "encode_pb_row_bdd_node n_terms suffix [] i remaining s =
     (if remaining < 0 then (bdd_false_terminal, s) else (bdd_true_terminal, s))"
| "encode_pb_row_bdd_node n_terms suffix (t # ts) i remaining s =
     (if remaining < 0 then (bdd_false_terminal, s)
      else if suffix ! i \<le> remaining then (bdd_true_terminal, s)
      else case map_of (memo s) (i, remaining) of
        Some found \<Rightarrow> (found, s)
      | None \<Rightarrow>
        (if length (memo s) > bdd_state_limit \<or> next_variable s \<ge> sat_variable_limit \<or> n_terms > bdd_term_limit
         then (bdd_false_terminal, s\<lparr>overflow := True\<rparr>)
         else let (low, s) = encode_pb_row_bdd_node n_terms suffix ts (i + 1) remaining s;
                  (high, s) = encode_pb_row_bdd_node n_terms suffix ts (i + 1) (remaining - \<bar>snd t\<bar>) s
              in if overflow s then (bdd_false_terminal, s)
                 else if low = high then (low, memo_emplace (i, remaining) low s)
                 else let q = LIT (next_variable s) True;
                          z = LIT (fst t) (snd t > 0);
                          s = s\<lparr>next_variable := next_variable s + 1,
                                bdd_cnf := bdd_cnf s @ low_clause q low @ high_clause q z high\<rparr>
                      in (bdd_literal q, memo_emplace (i, remaining) (bdd_literal q) s)))"

definition suffix_sums :: "pb_term list \<Rightarrow> int list" where
  "suffix_sums terms =
     fold (\<lambda>k suffix. suffix[k := suffix ! (k + 1) + \<bar>snd (terms ! k)\<bar>]) (rev [0..<length terms])
       (replicate (length terms + 1) 0)"

definition encode_pb_row_bdd :: "pb_term list \<Rightarrow> int \<Rightarrow> nat \<Rightarrow> clause list \<Rightarrow> sat_result \<times> nat \<times> clause list" where
  "encode_pb_row_bdd terms rhs variables cnf =
     (let suffix = suffix_sums terms;
          (root, s) = encode_pb_row_bdd_node (length terms) suffix terms 0 rhs
             \<lparr>memo = [], next_variable = variables, bdd_cnf = cnf, overflow = False\<rparr>
      in if overflow s then (declined, next_variable s, bdd_cnf s)
         else case root of
           bdd_false_terminal \<Rightarrow> (infeasible, next_variable s, bdd_cnf s)
         | bdd_true_terminal \<Rightarrow> (successful, next_variable s, bdd_cnf s)
         | bdd_literal l \<Rightarrow> (successful, next_variable s, bdd_cnf s @ [[l]]))"

section \<open>The model\<close>

definition row_terms :: "fj_bin_problem \<Rightarrow> nat \<Rightarrow> pb_term list" where
  "row_terms pb r = map (\<lambda>p. (pb_variables pb ! p, pb_coefficients pb ! p)) [pb_offsets pb ! r..<pb_offsets pb ! (r + 1)]"

definition normalize_row :: "pb_term list \<Rightarrow> int \<Rightarrow> int \<times> int" where
  "normalize_row terms bound =
     fold (\<lambda>(v, coefficient) (rhs, max_activity). (rhs - min 0 coefficient, max_activity + \<bar>coefficient\<bar>)) terms (bound, 0)"

fun encode_rows ::
    "fj_bin_problem \<Rightarrow> (nat \<Rightarrow> bool) \<Rightarrow> nat list \<Rightarrow> nat \<Rightarrow> clause list \<Rightarrow> sat_result \<times> nat \<times> clause list" where
  "encode_rows pb stop [] variables cnf = (successful, variables, cnf)"
| "encode_rows pb stop (r # rs) variables cnf =
     (if r mod encoding_stop_poll_period = 0 \<and> stop r then (stopped, variables, cnf)
      else let terms = row_terms pb r;
               (rhs, max_activity) = normalize_row terms (pb_bound pb ! r)
           in if rhs < 0 then (infeasible, variables, cnf)
              else if max_activity \<le> rhs then encode_rows pb stop rs variables cnf
              else let (done, cnf') = try_encode_pb_row_direct terms rhs cnf;
                       (encoding, variables, cnf) =
                         (if done then (successful, variables, cnf') else encode_pb_row_bdd terms rhs variables cnf')
                   in if encoding \<noteq> successful then (encoding, variables, cnf)
                      else if length cnf > sat_clause_limit then (declined, variables, cnf)
                      else encode_rows pb stop rs variables cnf)"

definition encode_pb_model :: "fj_bin_problem \<Rightarrow> (nat \<Rightarrow> bool) \<Rightarrow> sat_result \<times> nat \<times> clause list" where
  "encode_pb_model pb stop = encode_rows pb stop [0..<n_constraints pb] (n_variables pb) []"

section \<open>Meaning of a row\<close>

text \<open>\<open>z\<close>: the literal that makes a term count after normalisation.\<close>

definition z_true :: "(nat \<Rightarrow> bool) \<Rightarrow> pb_term \<Rightarrow> bool" where
  "z_true \<alpha> t \<longleftrightarrow> (if snd t > 0 then \<alpha> (fst t) else \<not> \<alpha> (fst t))"

definition activity :: "(nat \<Rightarrow> bool) \<Rightarrow> pb_term list \<Rightarrow> int" where
  "activity \<alpha> terms = (\<Sum>t \<leftarrow> terms. if z_true \<alpha> t then \<bar>snd t\<bar> else 0)"

definition row_holds :: "(nat \<Rightarrow> bool) \<Rightarrow> pb_term list \<Rightarrow> int \<Rightarrow> bool" where
  "row_holds \<alpha> terms bound \<longleftrightarrow> (\<Sum>t \<leftarrow> terms. snd t * of_bool (\<alpha> (fst t))) \<le> bound"

lemma activity_simps [simp]:
  "activity \<alpha> [] = 0"
  "activity \<alpha> (t # ts) = (if z_true \<alpha> t then \<bar>snd t\<bar> else 0) + activity \<alpha> ts"
  by (simp_all add: activity_def)

lemma activity_nonneg: "0 \<le> activity \<alpha> terms"
  by (induction terms) auto

lemma activity_cong: "(\<And>t. t \<in> set terms \<Longrightarrow> \<alpha> (fst t) = \<beta> (fst t)) \<Longrightarrow> activity \<alpha> terms = activity \<beta> terms"
  by (induction terms) (auto simp: z_true_def)

lemma normalize_row_eq:
  "normalize_row terms b = (b - (\<Sum>t \<leftarrow> terms. min 0 (snd t)), \<Sum>t \<leftarrow> terms. \<bar>snd t\<bar>)"
proof -
  have "fold (\<lambda>(v, c) (rhs, m). (rhs - min 0 c, m + \<bar>c\<bar>)) terms (b, a)
      = (b - (\<Sum>t \<leftarrow> terms. min 0 (snd t)), a + (\<Sum>t \<leftarrow> terms. \<bar>snd t\<bar>))" for a
    by (induction terms arbitrary: a b) auto
  then show ?thesis by (simp add: normalize_row_def)
qed

lemma row_holds_normalized:
  "row_holds \<alpha> terms b \<longleftrightarrow> activity \<alpha> terms \<le> b - (\<Sum>t \<leftarrow> terms. min 0 (snd t))"
proof -
  have "(\<Sum>t \<leftarrow> terms. snd t * of_bool (\<alpha> (fst t))) = activity \<alpha> terms + (\<Sum>t \<leftarrow> terms. min 0 (snd t))"
    by (induction terms) (auto simp: z_true_def)
  then show ?thesis by (auto simp: row_holds_def)
qed

lemma activity_le_max: "activity \<alpha> terms \<le> (\<Sum>t \<leftarrow> terms. \<bar>snd t\<bar>)"
  by (induction terms) auto

section \<open>The direct encoding\<close>

lemma bit_clear_lowest: "0 < m \<Longrightarrow> bit (clear_lowest m) k \<longleftrightarrow> bit m k \<and> k \<noteq> countr_zero m"
proof (induction m arbitrary: k rule: countr_zero.induct)
  case (1 m)
  show ?case
  proof (cases "odd m")
    case True
    then have "countr_zero m = 0" by (subst countr_zero.simps) simp
    moreover have "bit (m - 1) k \<longleftrightarrow> k \<noteq> 0 \<and> bit m k"
      using True by (cases k) (auto simp: bit_0 bit_Suc elim!: oddE)
    ultimately show ?thesis by (auto simp: bit_and_iff)
  next
    case even: False
    have pos: "0 < m div 2" using 1 even by (metis dvd_div_eq_0_iff neq0_conv not_gr_zero dvd_imp_le)
    have ctz: "countr_zero m = Suc (countr_zero (m div 2))" using even 1 by (subst countr_zero.simps) simp
    have half: "(m - 1) div 2 = m div 2 - 1" using even pos by (auto elim!: evenE)
    show ?thesis
    proof (cases k)
      case 0
      then show ?thesis using even by (simp add: bit_0 even_and_iff)
    next
      case (Suc l)
      have "bit (clear_lowest m) k \<longleftrightarrow> bit (clear_lowest (m div 2)) l"
        unfolding Suc bit_and_iff unfolding bit_Suc half ..
      also have "\<dots> \<longleftrightarrow> bit (m div 2) l \<and> l \<noteq> countr_zero (m div 2)"
        using even pos 1 by (intro "1.IH") auto
      finally show ?thesis using Suc ctz by (simp add: bit_Suc)
    qed
  qed
qed

lemma bit_countr_zero: "0 < m \<Longrightarrow> bit m (countr_zero m)"
proof (induction m rule: countr_zero.induct)
  case (1 m)
  show ?case
  proof (cases "odd m")
    case True
    then show ?thesis by (subst countr_zero.simps) (simp add: bit_0)
  next
    case even: False
    then have "0 < m div 2" using 1 by (metis dvd_div_eq_0_iff neq0_conv not_gr_zero dvd_imp_le)
    then show ?thesis using 1 even by (subst countr_zero.simps) (simp add: bit_Suc)
  qed
qed

lemma clear_lowest_less: "0 < m \<Longrightarrow> clear_lowest m < m"
proof -
  assume "0 < m"
  moreover have "int (clear_lowest m) \<le> int (m - 1)" unfolding of_nat_and_eq by (rule AND_upper2) simp
  ultimately show ?thesis by linarith
qed

text \<open>The weight of a set of terms given by its bits.\<close>

definition weight :: "pb_term list \<Rightarrow> nat \<Rightarrow> int" where
  "weight terms m = (\<Sum>k | k < length terms \<and> bit m k. \<bar>snd (terms ! k)\<bar>)"

definition forbidden :: "pb_term list \<Rightarrow> int \<Rightarrow> nat \<Rightarrow> bool" where
  "forbidden terms rhs m \<longleftrightarrow> weight terms m > rhs \<and>
     (\<forall>k < length terms. bit m k \<longrightarrow> weight terms m - \<bar>snd (terms ! k)\<bar> \<le> rhs)"

definition clause_of :: "pb_term list \<Rightarrow> nat \<Rightarrow> clause" where
  "clause_of terms m = map (\<lambda>k. LIT (fst (terms ! k)) (snd (terms ! k) < 0)) (filter (bit m) [0..<length terms])"

lemma bit_less_length: "bit m k \<Longrightarrow> m < 2 ^ n \<Longrightarrow> k < n" for m :: nat
  by (metis bit_take_bit_iff take_bit_nat_eq_self)

lemma weight_step:
  assumes "0 < m" "m < 2 ^ length terms"
  shows "weight terms m = weight terms (clear_lowest m) + \<bar>snd (terms ! countr_zero m)\<bar>"
proof -
  let ?c = "countr_zero m"
  have c: "?c < length terms" using bit_less_length [OF bit_countr_zero] assms by blast
  have "{k. k < length terms \<and> bit m k} = insert ?c {k. k < length terms \<and> bit (clear_lowest m) k}"
    using c bit_clear_lowest [OF assms(1)] bit_countr_zero [OF assms(1)] by auto
  moreover have "?c \<notin> {k. k < length terms \<and> bit (clear_lowest m) k}"
    using bit_clear_lowest [OF assms(1)] by auto
  ultimately show ?thesis by (simp add: weight_def)
qed

lemma direct_masks_spec:
  assumes "direct_masks terms rhs rb [j..<cnt] sw cnf = (ok, cnf')" and "cnt = 2 ^ length terms" "0 < j"
    and "length sw = cnt" "\<forall>m<min j cnt. sw ! m = weight terms m" "rb \<le> length cnf"
  shows "if ok then cnf' = cnf @ map (clause_of terms) (filter (forbidden terms rhs) [j..<cnt]) else cnf' = take rb cnf"
  using assms
proof (induction "cnt - j" arbitrary: j sw cnf)
  case (Suc d)
  then have j: "j < cnt" and upt: "[j..<cnt] = j # [Suc j..<cnt]" by (auto simp: upt_conv_Cons)
  let ?sw = "sw[j := sw ! clear_lowest j + \<bar>snd (terms ! countr_zero j)\<bar>]"
  have "sw ! clear_lowest j = weight terms (clear_lowest j)"
    using Suc.prems j clear_lowest_less [of j] by auto
  then have w: "?sw ! j = weight terms j" and swj: "sw ! clear_lowest j + \<bar>snd (terms ! countr_zero j)\<bar> = weight terms j"
    using weight_step [of j terms] Suc.prems j by auto
  have sw: "length ?sw = cnt" "\<forall>m<min (Suc j) cnt. ?sw ! m = weight terms m"
    using Suc.prems w by (auto simp: nth_list_update less_Suc_eq)
  have IH: "if ok then cnf' = cnf1 @ map (clause_of terms) (filter (forbidden terms rhs) [Suc j..<cnt]) else cnf' = take rb cnf1"
    if "direct_masks terms rhs rb [Suc j..<cnt] ?sw cnf1 = (ok, cnf')" "rb \<le> length cnf1" for cnf1
    using Suc.hyps(2) Suc.prems(2,3) sw that by (intro Suc.hyps(1)) auto
  have forb: "forbidden terms rhs j \<longleftrightarrow> \<not> ?sw ! j \<le> rhs \<and>
      list_all (\<lambda>k. \<not> (bit j k \<and> ?sw ! j - \<bar>snd (terms ! k)\<bar> > rhs)) [0..<length terms]"
    unfolding w forbidden_def by (auto simp: list_all_iff not_less)
  note run = Suc.prems(1) [unfolded upt direct_masks.simps Let_def, folded forb]
  show ?case
  proof (cases "forbidden terms rhs j")
    case False
    then have "direct_masks terms rhs rb [Suc j..<cnt] ?sw cnf = (ok, cnf')"
      using run forb by (auto split: if_splits)
    then show ?thesis using IH [of cnf] Suc.prems(6) False by (simp add: upt)
  next
    case True
    let ?cnf = "cnf @ [clause_of terms j]"
    show ?thesis
    proof (cases "length ?cnf - rb > direct_encoding_clause_limit")
      case over: True
      then have "(ok, cnf') = (False, take rb ?cnf)" using run forb True by (simp add: clause_of_def)
      then show ?thesis using Suc.prems(6) by simp
    next
      case False
      then have "direct_masks terms rhs rb [Suc j..<cnt] ?sw ?cnf = (ok, cnf')"
        using run forb True by (simp add: clause_of_def)
      then show ?thesis using IH [of ?cnf] Suc.prems(6) True by (auto simp: upt)
    qed
  qed
qed auto

text \<open>Among the true literals of a violated row there is a minimal violating set.\<close>

lemma exists_forbidden:
  assumes viol: "activity \<alpha> terms > rhs" and rhs: "0 \<le> rhs"
  shows "\<exists>m < 2 ^ length terms. forbidden terms rhs m \<and> (\<forall>k. bit m k \<longrightarrow> z_true \<alpha> (terms ! k))"
proof -
  let ?n = "length terms"
  define ok where "ok m \<longleftrightarrow> m < 2 ^ ?n \<and> weight terms m > rhs \<and> (\<forall>k. bit m k \<longrightarrow> z_true \<alpha> (terms ! k))" for m
  define m0 where "m0 = (horner_sum of_bool 2 (map (\<lambda>k. z_true \<alpha> (terms ! k)) [0..<?n]) :: nat)"
  have bit0: "bit m0 k \<longleftrightarrow> k < ?n \<and> z_true \<alpha> (terms ! k)" for k
    unfolding m0_def bit_horner_sum_bit_iff by auto
  have below: "x < 2 ^ ?n" if "\<And>k. bit x k \<Longrightarrow> k < ?n" for x :: nat
    using that by (auto simp: bit_take_bit_iff bit_eq_iff simp flip: take_bit_nat_eq_self_iff)
  have lt0: "m0 < 2 ^ ?n" using bit0 by (intro below) simp
  have "activity \<alpha> terms = (\<Sum>k<?n. if z_true \<alpha> (terms ! k) then \<bar>snd (terms ! k)\<bar> else 0)"
    unfolding activity_def by (subst map_nth [symmetric, of terms]) (simp add: comp_def sum_list_map_upt)
  also have "\<dots> = weight terms m0"
    unfolding weight_def bit0 by (subst sum.inter_filter [symmetric]) (auto intro!: sum.cong)
  finally have "ok m0" using viol lt0 bit0 by (simp add: ok_def)
  let ?card = "\<lambda>m :: nat. card {j. j < ?n \<and> bit m j}"
  from \<open>ok m0\<close> obtain m where m: "ok m" and least: "\<And>m'. ok m' \<Longrightarrow> ?card m \<le> ?card m'"
    using ex_has_least_nat [of ok m0 ?card] by blast
  have "weight terms m - \<bar>snd (terms ! k)\<bar> \<le> rhs" if k: "k < ?n" "bit m k" for k
  proof (rule ccontr)
    assume big: "\<not> weight terms m - \<bar>snd (terms ! k)\<bar> \<le> rhs"
    let ?m = "unset_bit k m"
    have "{j. j < ?n \<and> bit m j} = insert k {j. j < ?n \<and> bit ?m j}" using k by (auto simp: bit_unset_bit_iff)
    moreover have "k \<notin> {j. j < ?n \<and> bit ?m j}" by (simp add: bit_unset_bit_iff)
    ultimately have "weight terms m = \<bar>snd (terms ! k)\<bar> + weight terms ?m" by (simp add: weight_def)
    moreover have "?card ?m < ?card m" using k by (intro psubset_card_mono) (auto simp: bit_unset_bit_iff)
    moreover have "?m < 2 ^ ?n"
      using m bit_less_length [of m _ ?n] by (intro below) (auto simp: ok_def bit_unset_bit_iff)
    ultimately have "ok ?m" and "?card ?m < ?card m" using m big by (auto simp: ok_def bit_unset_bit_iff)
    then show False using least [of ?m] by simp
  qed
  then show ?thesis using m by (auto simp: ok_def forbidden_def)
qed

lemma try_encode_pb_row_direct_spec:
  assumes run: "try_encode_pb_row_direct terms rhs cnf = (ok, cnf')" and rhs: "0 \<le> rhs"
  shows "\<not> ok \<Longrightarrow> cnf' = cnf"
    and "ok \<Longrightarrow> \<exists>new. cnf' = cnf @ new \<and> (\<forall>\<alpha>. sat_cnf \<alpha> new \<longleftrightarrow> activity \<alpha> terms \<le> rhs)
           \<and> (\<forall>C \<in> set new. \<forall>l \<in> set C. LIT_VAR l \<in> fst ` set terms)"
proof -
  let ?n = "length terms" and ?new = "map (clause_of terms) (filter (forbidden terms rhs) [1..<2 ^ length terms])"
  have spec: "if ok then cnf' = cnf @ ?new else cnf' = cnf"
  proof (cases "?n > direct_encoding_term_limit")
    case False
    then have "direct_masks terms rhs (length cnf) [1..<2 ^ ?n] (replicate (2 ^ ?n) 0) cnf = (ok, cnf')"
      using run by (simp add: try_encode_pb_row_direct_def Let_def)
    from direct_masks_spec [OF this refl] show ?thesis by (simp add: weight_def)
  qed (use run in \<open>auto simp: try_encode_pb_row_direct_def\<close>)
  then show "\<not> ok \<Longrightarrow> cnf' = cnf" by simp
  have lit: "\<not> sat_lit \<alpha> (LIT (fst t) (snd t < 0)) \<longleftrightarrow> z_true \<alpha> t" if "snd t \<noteq> 0" for \<alpha> and t :: pb_term
    using that by (auto simp: z_true_def)
  have nz: "snd (terms ! k) \<noteq> 0" if "forbidden terms rhs m" "k < ?n" "bit m k" for m k
    using that by (auto simp: forbidden_def)
  have falsified: "\<not> sat_clause \<alpha> (clause_of terms m) \<longleftrightarrow> (\<forall>k < ?n. bit m k \<longrightarrow> z_true \<alpha> (terms ! k))"
    if "forbidden terms rhs m" for \<alpha> m
    using lit nz [OF that] by (auto simp: sat_clause_def clause_of_def)
  have "sat_cnf \<alpha> ?new \<longleftrightarrow> activity \<alpha> terms \<le> rhs" for \<alpha>
  proof (rule iffI; rule ccontr)
    assume sat: "sat_cnf \<alpha> ?new" and "\<not> activity \<alpha> terms \<le> rhs"
    then obtain m where m: "m < 2 ^ ?n" "forbidden terms rhs m" "\<forall>k. bit m k \<longrightarrow> z_true \<alpha> (terms ! k)"
      using exists_forbidden [of rhs \<alpha> terms] rhs by auto
    have "m \<noteq> 0" using m(2) rhs by (cases "m = 0") (auto simp: forbidden_def weight_def)
    then have "sat_clause \<alpha> (clause_of terms m)" using sat m by (auto simp: sat_cnf_def)
    then show False using falsified [OF m(2)] m(3) by blast
  next
    assume le: "activity \<alpha> terms \<le> rhs" and "\<not> sat_cnf \<alpha> ?new"
    then obtain m where m: "forbidden terms rhs m" "\<not> sat_clause \<alpha> (clause_of terms m)" by (auto simp: sat_cnf_def)
    have "weight terms m \<le> (\<Sum>k<?n. if z_true \<alpha> (terms ! k) then \<bar>snd (terms ! k)\<bar> else 0)"
      unfolding weight_def using falsified [OF m(1)] m(2)
      by (subst sum.inter_filter [symmetric]) (auto intro!: sum_mono2)
    also have "\<dots> = activity \<alpha> terms"
      unfolding activity_def by (subst map_nth [symmetric, of terms]) (simp add: comp_def sum_list_map_upt)
    finally show False using m(1) le by (simp add: forbidden_def)
  qed
  moreover have "\<forall>C \<in> set ?new. \<forall>l \<in> set C. LIT_VAR l \<in> fst ` set terms" by (auto simp: clause_of_def)
  ultimately show "ok \<Longrightarrow> \<exists>new. cnf' = cnf @ new \<and> (\<forall>\<alpha>. sat_cnf \<alpha> new \<longleftrightarrow> activity \<alpha> terms \<le> rhs)
           \<and> (\<forall>C \<in> set new. \<forall>l \<in> set C. LIT_VAR l \<in> fst ` set terms)" using spec by auto
qed

section \<open>The decision diagram encoding\<close>

lemma suffix_sums_spec:
  shows "length (suffix_sums terms) = length terms + 1"
    and "i \<le> length terms \<Longrightarrow> suffix_sums terms ! i = (\<Sum>t \<leftarrow> drop i terms. \<bar>snd t\<bar>)"
proof -
  let ?n = "length terms" and ?f = "\<lambda>k suffix. suffix[k := suffix ! (k + 1) + \<bar>snd (terms ! k)\<bar>]"
  define P where "P ks s = (length s = ?n + 1 \<and> (\<forall>i. ?n - length ks \<le> i \<and> i \<le> ?n \<longrightarrow> s ! i = (\<Sum>t \<leftarrow> drop i terms. \<bar>snd t\<bar>)))"
    for ks :: "nat list" and s :: "int list"
  have "P (rev [0..<?n]) (fold ?f (rev [0..<?n]) (replicate (?n + 1) 0))"
  proof (rule fold_invariant_prefix [where P = P])
    show "P [] (replicate (?n + 1) 0)" by (auto simp: P_def simp del: replicate_Suc)
    fix ys k zs s assume ks: "rev [0..<?n] = ys @ k # zs" and p: "P ys s"
    have len: "length ys < ?n" using arg_cong [OF ks, of length] by simp
    have "rev [0..<?n] ! length ys = k" unfolding ks by simp
    then have k: "k = ?n - Suc (length ys)" "length ys < ?n" using len by (simp_all add: rev_nth)
    then have "drop k terms = terms ! k # drop (Suc k) terms" by (simp add: Cons_nth_drop_Suc)
    moreover have "s ! (k + 1) = (\<Sum>t \<leftarrow> drop (Suc k) terms. \<bar>snd t\<bar>)" using p k by (simp add: P_def Suc_diff_Suc)
    ultimately have "?f k s ! k = (\<Sum>t \<leftarrow> drop k terms. \<bar>snd t\<bar>)" using p k by (simp add: P_def)
    moreover have "?f k s ! i = (\<Sum>t \<leftarrow> drop i terms. \<bar>snd t\<bar>)" if "k < i" "i \<le> ?n" for i
    proof -
      have "?n - length ys \<le> i" using that k by linarith
      then show ?thesis using p that by (simp add: P_def)
    qed
    ultimately have at: "?f k s ! i = (\<Sum>t \<leftarrow> drop i terms. \<bar>snd t\<bar>)" if "k \<le> i" "i \<le> ?n" for i
      using that by (cases "i = k") auto
    have "?n - length (ys @ [k]) = k" using k by simp
    moreover have "length (?f k s) = ?n + 1" using p by (simp add: P_def)
    ultimately show "P (ys @ [k]) (?f k s)" unfolding P_def using at by presburger
  qed
  then show "length (suffix_sums terms) = length terms + 1"
    and "i \<le> length terms \<Longrightarrow> suffix_sums terms ! i = (\<Sum>t \<leftarrow> drop i terms. \<bar>snd t\<bar>)"
    by (auto simp: P_def suffix_sums_def)
qed

fun ref_true :: "(nat \<Rightarrow> bool) \<Rightarrow> bdd_ref \<Rightarrow> bool" where
  "ref_true \<alpha> bdd_false_terminal = False"
| "ref_true \<alpha> bdd_true_terminal = True"
| "ref_true \<alpha> (bdd_literal l) = sat_lit \<alpha> l"

fun ref_below :: "nat \<Rightarrow> bdd_ref \<Rightarrow> bool" where
  "ref_below n (bdd_literal l) = (LIT_VAR l < n)"
| "ref_below n r = True"

lemma ref_true_cong: "ref_below n R \<Longrightarrow> \<forall>v<n. \<alpha> v = \<beta> v \<Longrightarrow> ref_true \<alpha> R = ref_true \<beta> R"
  by (cases R) (auto simp: sat_lit_def)

lemma ref_below_mono: "ref_below n R \<Longrightarrow> n \<le> m \<Longrightarrow> ref_below m R"
  by (cases R) auto

definition bdd_ok :: "nat \<Rightarrow> bdd_state \<Rightarrow> bool" where
  "bdd_ok n0 s \<longleftrightarrow> n0 \<le> next_variable s \<and> vars_below (next_variable s) (bdd_cnf s)
     \<and> (\<forall>e \<in> set (memo s). ref_below (next_variable s) (snd e))"

definition memo_sound :: "pb_term list \<Rightarrow> (nat \<Rightarrow> bool) \<Rightarrow> ((nat \<times> int) \<times> bdd_ref) list \<Rightarrow> bool" where
  "memo_sound T \<alpha> m \<longleftrightarrow> (\<forall>((i, r), R) \<in> set m. ref_true \<alpha> R \<longrightarrow> activity \<alpha> (drop i T) \<le> r)"

definition memo_exact :: "pb_term list \<Rightarrow> (nat \<Rightarrow> bool) \<Rightarrow> ((nat \<times> int) \<times> bdd_ref) list \<Rightarrow> bool" where
  "memo_exact T \<alpha> m \<longleftrightarrow> (\<forall>((i, r), R) \<in> set m. ref_true \<alpha> R \<longleftrightarrow> activity \<alpha> (drop i T) \<le> r)"

text \<open>
  What one call adds: clauses over the variables so far, such that a true reference implies
  the partial sum bound, and such that every assignment extends to the new variables with the
  reference true exactly when the bound holds.
\<close>

definition node_ok ::
    "nat \<Rightarrow> pb_term list \<Rightarrow> pb_term list \<Rightarrow> int \<Rightarrow> bdd_state \<Rightarrow> bdd_ref \<Rightarrow> bdd_state \<Rightarrow> bool" where
  "node_ok n0 T ts r s R s' \<longleftrightarrow>
     bdd_ok n0 s' \<and> ref_below (next_variable s') R \<and> next_variable s \<le> next_variable s'
     \<and> (\<exists>new. bdd_cnf s' = bdd_cnf s @ new
         \<and> (\<forall>\<alpha>. memo_sound T \<alpha> (memo s) \<and> sat_cnf \<alpha> new \<longrightarrow>
               memo_sound T \<alpha> (memo s') \<and> (ref_true \<alpha> R \<longrightarrow> activity \<alpha> ts \<le> r))
         \<and> (\<forall>\<alpha>. memo_exact T \<alpha> (memo s) \<longrightarrow>
               (\<exists>\<alpha>'. (\<forall>v < next_variable s. \<alpha>' v = \<alpha> v) \<and> sat_cnf \<alpha>' new \<and> memo_exact T \<alpha>' (memo s')
                 \<and> (ref_true \<alpha>' R \<longleftrightarrow> activity \<alpha>' ts \<le> r))))"

lemma node_ok_same:
  assumes "bdd_ok n0 s" "ref_below (next_variable s) R"
    and "\<And>\<alpha>. memo_sound T \<alpha> (memo s) \<Longrightarrow> ref_true \<alpha> R \<Longrightarrow> activity \<alpha> ts \<le> r"
    and "\<And>\<alpha>. memo_exact T \<alpha> (memo s) \<Longrightarrow> ref_true \<alpha> R \<longleftrightarrow> activity \<alpha> ts \<le> r"
  shows "node_ok n0 T ts r s R s"
  unfolding node_ok_def using assms by (intro conjI exI [of _ "[]"]) auto

lemma memo_exact_cong:
  assumes "memo_exact T \<alpha> m" "\<forall>e \<in> set m. ref_below n (snd e)" "\<forall>t \<in> set T. fst t < n" "\<forall>v<n. \<beta> v = \<alpha> v"
  shows "memo_exact T \<beta> m"
proof -
  have "activity \<beta> (drop i T) = activity \<alpha> (drop i T)" for i
    using assms(3,4) by (intro activity_cong) (auto dest: in_set_dropD)
  moreover have "ref_true \<beta> R = ref_true \<alpha> R" if "(k, R) \<in> set m" for k R
    using assms(2,4) that by (intro ref_true_cong [of n]) auto
  ultimately show ?thesis using assms(1) by (fastforce simp: memo_exact_def)
qed

lemma memo_emplace_simps [simp]:
  "next_variable (memo_emplace k R s) = next_variable s" "bdd_cnf (memo_emplace k R s) = bdd_cnf s"
  "overflow (memo_emplace k R s) = overflow s"
  by (simp_all add: memo_emplace_def)

lemma set_memo_emplace: "set (memo (memo_emplace k R s)) \<subseteq> insert (k, R) (set (memo s))"
  by (auto simp: memo_emplace_def)

lemma memo_emplace_ok:
  "memo_sound T \<alpha> (memo s) \<Longrightarrow> (ref_true \<alpha> R \<longrightarrow> activity \<alpha> (drop i T) \<le> r) \<Longrightarrow> memo_sound T \<alpha> (memo (memo_emplace (i, r) R s))"
  "memo_exact T \<alpha> (memo s) \<Longrightarrow> (ref_true \<alpha> R \<longleftrightarrow> activity \<alpha> (drop i T) \<le> r) \<Longrightarrow> memo_exact T \<alpha> (memo (memo_emplace (i, r) R s))"
  by (auto simp: memo_sound_def memo_exact_def memo_emplace_def)

lemma overflow_mono:
  "encode_pb_row_bdd_node n suffix ts i r s = (R, s') \<Longrightarrow> \<not> overflow s' \<Longrightarrow> \<not> overflow s"
proof (induction ts arbitrary: i r s R s')
  case (Cons t ts)
  then show ?case
    by (auto simp: Let_def memo_emplace_def split: if_splits option.splits prod.splits)
qed (auto split: if_splits)

text \<open>The two recursive calls together.\<close>

lemma node_pair:
  assumes T: "\<forall>t \<in> set T. fst t < n0" and tsT: "set ts \<subseteq> set T"
    and low: "node_ok n0 T ts r s low s1" and high: "node_ok n0 T ts r' s1 high s2"
  obtains new where "bdd_cnf s2 = bdd_cnf s @ new" and "bdd_ok n0 s2" and "next_variable s \<le> next_variable s2"
    and "ref_below (next_variable s2) low" and "ref_below (next_variable s2) high"
    and "\<forall>\<alpha>. memo_sound T \<alpha> (memo s) \<longrightarrow> sat_cnf \<alpha> new \<longrightarrow> memo_sound T \<alpha> (memo s2)
            \<and> (ref_true \<alpha> low \<longrightarrow> activity \<alpha> ts \<le> r) \<and> (ref_true \<alpha> high \<longrightarrow> activity \<alpha> ts \<le> r')"
    and "\<forall>\<alpha>. memo_exact T \<alpha> (memo s) \<longrightarrow> (\<exists>\<alpha>'. (\<forall>v < next_variable s. \<alpha>' v = \<alpha> v) \<and> sat_cnf \<alpha>' new \<and> memo_exact T \<alpha>' (memo s2)
            \<and> (ref_true \<alpha>' low \<longleftrightarrow> activity \<alpha>' ts \<le> r) \<and> (ref_true \<alpha>' high \<longleftrightarrow> activity \<alpha>' ts \<le> r'))"
proof -
  from low obtain new1 where n1: "bdd_cnf s1 = bdd_cnf s @ new1"
    "\<And>\<alpha>. memo_sound T \<alpha> (memo s) \<Longrightarrow> sat_cnf \<alpha> new1 \<Longrightarrow> memo_sound T \<alpha> (memo s1) \<and> (ref_true \<alpha> low \<longrightarrow> activity \<alpha> ts \<le> r)"
    "\<And>\<alpha>. memo_exact T \<alpha> (memo s) \<Longrightarrow> \<exists>\<alpha>'. (\<forall>v < next_variable s. \<alpha>' v = \<alpha> v) \<and> sat_cnf \<alpha>' new1 \<and> memo_exact T \<alpha>' (memo s1)
                 \<and> (ref_true \<alpha>' low \<longleftrightarrow> activity \<alpha>' ts \<le> r)"
    and ok1: "bdd_ok n0 s1" "ref_below (next_variable s1) low" "next_variable s \<le> next_variable s1"
    unfolding node_ok_def by blast
  from high obtain new2 where n2: "bdd_cnf s2 = bdd_cnf s1 @ new2"
    "\<And>\<alpha>. memo_sound T \<alpha> (memo s1) \<Longrightarrow> sat_cnf \<alpha> new2 \<Longrightarrow> memo_sound T \<alpha> (memo s2) \<and> (ref_true \<alpha> high \<longrightarrow> activity \<alpha> ts \<le> r')"
    "\<And>\<alpha>. memo_exact T \<alpha> (memo s1) \<Longrightarrow> \<exists>\<alpha>'. (\<forall>v < next_variable s1. \<alpha>' v = \<alpha> v) \<and> sat_cnf \<alpha>' new2 \<and> memo_exact T \<alpha>' (memo s2)
                 \<and> (ref_true \<alpha>' high \<longleftrightarrow> activity \<alpha>' ts \<le> r')"
    and ok2: "bdd_ok n0 s2" "ref_below (next_variable s2) high" "next_variable s1 \<le> next_variable s2"
    unfolding node_ok_def by blast
  have below1: "vars_below (next_variable s1) new1" using ok1(1) n1(1) by (simp add: bdd_ok_def)
  have ts: "fst t < next_variable s1" if "t \<in> set ts" for t using T tsT that ok1(1) by (force simp: bdd_ok_def)
  have complete: "\<exists>\<alpha>'. (\<forall>v < next_variable s. \<alpha>' v = \<alpha> v) \<and> sat_cnf \<alpha>' (new1 @ new2) \<and> memo_exact T \<alpha>' (memo s2)
            \<and> (ref_true \<alpha>' low \<longleftrightarrow> activity \<alpha>' ts \<le> r) \<and> (ref_true \<alpha>' high \<longleftrightarrow> activity \<alpha>' ts \<le> r')"
    if ex: "memo_exact T \<alpha> (memo s)" for \<alpha>
  proof -
    obtain \<alpha>1 where a1: "\<forall>v < next_variable s. \<alpha>1 v = \<alpha> v" "sat_cnf \<alpha>1 new1" "memo_exact T \<alpha>1 (memo s1)"
      "ref_true \<alpha>1 low \<longleftrightarrow> activity \<alpha>1 ts \<le> r" using n1(3) [OF ex] by blast
    obtain \<alpha>2 where a2: "\<forall>v < next_variable s1. \<alpha>2 v = \<alpha>1 v" "sat_cnf \<alpha>2 new2" "memo_exact T \<alpha>2 (memo s2)"
      "ref_true \<alpha>2 high \<longleftrightarrow> activity \<alpha>2 ts \<le> r'" using n2(3) [OF a1(3)] by blast
    have act: "activity \<alpha>2 ts = activity \<alpha>1 ts" using ts a2(1) by (intro activity_cong) blast
    have "ref_true \<alpha>2 low \<longleftrightarrow> activity \<alpha>2 ts \<le> r"
      using ref_true_cong [OF ok1(2), of \<alpha>2 \<alpha>1] a2(1) a1(4) act by simp
    moreover have "sat_cnf \<alpha>2 new1" using sat_cnf_cong [OF below1, of \<alpha>2 \<alpha>1] a2(1) a1(2) by simp
    ultimately show ?thesis using a1(1) a2 ok1(3) by (intro exI [of _ \<alpha>2]) auto
  qed
  show thesis
    using n1 n2 ok1 ok2 complete ref_below_mono [OF ok1(2) ok2(3)] by (intro that [of "new1 @ new2"]) auto
qed

lemma node_ok_merge:
  assumes T: "\<forall>t \<in> set T. fst t < n0" and t: "drop i T = t # ts"
    and low: "node_ok n0 T ts r s low s1" and high: "node_ok n0 T ts (r - \<bar>snd t\<bar>) s1 low s2"
  shows "node_ok n0 T (t # ts) r s low (memo_emplace (i, r) low s2)"
proof -
  let ?s = "memo_emplace (i, r) low s2"
  have tsT: "set ts \<subseteq> set T" using t by (metis in_set_dropD list.set_intros(2) subsetI)
  obtain new where new: "bdd_cnf s2 = bdd_cnf s @ new" and ok: "bdd_ok n0 s2" "next_variable s \<le> next_variable s2"
    "ref_below (next_variable s2) low" "ref_below (next_variable s2) low" and sound0: "\<forall>\<alpha>. memo_sound T \<alpha> (memo s) \<longrightarrow> sat_cnf \<alpha> new \<longrightarrow> memo_sound T \<alpha> (memo s2)
            \<and> (ref_true \<alpha> low \<longrightarrow> activity \<alpha> ts \<le> r) \<and> (ref_true \<alpha> low \<longrightarrow> activity \<alpha> ts \<le> r - \<bar>snd t\<bar>)"
    and exact0: "\<forall>\<alpha>. memo_exact T \<alpha> (memo s) \<longrightarrow> (\<exists>\<alpha>'. (\<forall>v < next_variable s. \<alpha>' v = \<alpha> v) \<and> sat_cnf \<alpha>' new \<and> memo_exact T \<alpha>' (memo s2)
            \<and> (ref_true \<alpha>' low \<longleftrightarrow> activity \<alpha>' ts \<le> r) \<and> (ref_true \<alpha>' low \<longleftrightarrow> activity \<alpha>' ts \<le> r - \<bar>snd t\<bar>))"
    by (rule node_pair [OF T tsT low high])
  note sound = sound0 [rule_format] and exact = exact0 [rule_format]
  have "bdd_ok n0 ?s" using ok set_memo_emplace [of "(i, r)" low s2] by (auto simp: bdd_ok_def)
  moreover have "memo_sound T \<alpha> (memo ?s) \<and> (ref_true \<alpha> low \<longrightarrow> activity \<alpha> (t # ts) \<le> r)"
    if "memo_sound T \<alpha> (memo s)" "sat_cnf \<alpha> new" for \<alpha>
  proof -
    have "ref_true \<alpha> low \<longrightarrow> activity \<alpha> (t # ts) \<le> r" using sound [OF that] by force
    then show ?thesis using memo_emplace_ok(1) [of T \<alpha> s2 low i r] sound [OF that] t by simp
  qed
  moreover have "\<exists>\<alpha>'. (\<forall>v < next_variable s. \<alpha>' v = \<alpha> v) \<and> sat_cnf \<alpha>' new \<and> memo_exact T \<alpha>' (memo ?s)
                 \<and> (ref_true \<alpha>' low \<longleftrightarrow> activity \<alpha>' (t # ts) \<le> r)" if ex: "memo_exact T \<alpha> (memo s)" for \<alpha>
  proof -
    obtain \<alpha>' where a: "\<forall>v < next_variable s. \<alpha>' v = \<alpha> v" "sat_cnf \<alpha>' new" "memo_exact T \<alpha>' (memo s2)"
      "ref_true \<alpha>' low \<longleftrightarrow> activity \<alpha>' ts \<le> r" "ref_true \<alpha>' low \<longleftrightarrow> activity \<alpha>' ts \<le> r - \<bar>snd t\<bar>"
      using exact [OF ex] by blast
    have q: "ref_true \<alpha>' low \<longleftrightarrow> activity \<alpha>' (t # ts) \<le> r" using a(4,5) by auto
    then show ?thesis using a memo_emplace_ok(2) [of T \<alpha>' s2 low i r] t by (intro exI [of _ \<alpha>']) auto
  qed
  ultimately show ?thesis
    unfolding node_ok_def using ok new by (intro conjI exI [of _ new]) auto
qed

text \<open>A fresh node: its variable stands for the bound, tied to the two references by clauses.\<close>

lemma sat_low_clause: "sat_cnf \<alpha> (low_clause q low) \<longleftrightarrow> (sat_lit \<alpha> q \<longrightarrow> ref_true \<alpha> low)"
  by (cases low) (auto simp: low_clause_def)

lemma sat_high_clause: "sat_cnf \<alpha> (high_clause q z high) \<longleftrightarrow> (sat_lit \<alpha> q \<and> sat_lit \<alpha> z \<longrightarrow> ref_true \<alpha> high)"
  by (cases high) (auto simp: high_clause_def)

lemma vars_node_clauses:
  "ref_below n low \<Longrightarrow> ref_below n high \<Longrightarrow> LIT_VAR q < n \<Longrightarrow> LIT_VAR z < n \<Longrightarrow>
   vars_below n (low_clause q low @ high_clause q z high)"
  by (cases low; cases high) (auto simp: low_clause_def high_clause_def vars_below_def)

lemma node_ok_fresh:
  assumes T: "\<forall>t \<in> set T. fst t < n0" and t: "drop i T = t # ts"
    and low: "node_ok n0 T ts r s low s1" and high: "node_ok n0 T ts (r - \<bar>snd t\<bar>) s1 high s2"
  defines "q \<equiv> LIT (next_variable s2) True" and "z \<equiv> LIT (fst t) (snd t > 0)"
  defines "s3 \<equiv> s2\<lparr>next_variable := next_variable s2 + 1, bdd_cnf := bdd_cnf s2 @ low_clause q low @ high_clause q z high\<rparr>"
  shows "node_ok n0 T (t # ts) r s (bdd_literal q) (memo_emplace (i, r) (bdd_literal q) s3)"
proof -
  let ?s = "memo_emplace (i, r) (bdd_literal q) s3" and ?n = "next_variable s2"
  let ?new = "low_clause q low @ high_clause q z high"
  have tT: "t \<in> set T" "set ts \<subseteq> set T" using t by (metis in_set_dropD list.set_intros subsetI)+
  obtain new where new: "bdd_cnf s2 = bdd_cnf s @ new" and ok: "bdd_ok n0 s2" "next_variable s \<le> ?n"
    "ref_below ?n low" "ref_below ?n high" and sound0: "\<forall>\<alpha>. memo_sound T \<alpha> (memo s) \<longrightarrow> sat_cnf \<alpha> new \<longrightarrow> memo_sound T \<alpha> (memo s2)
            \<and> (ref_true \<alpha> low \<longrightarrow> activity \<alpha> ts \<le> r) \<and> (ref_true \<alpha> high \<longrightarrow> activity \<alpha> ts \<le> r - \<bar>snd t\<bar>)"
    and exact0: "\<forall>\<alpha>. memo_exact T \<alpha> (memo s) \<longrightarrow> (\<exists>\<alpha>'. (\<forall>v < next_variable s. \<alpha>' v = \<alpha> v) \<and> sat_cnf \<alpha>' new \<and> memo_exact T \<alpha>' (memo s2)
            \<and> (ref_true \<alpha>' low \<longleftrightarrow> activity \<alpha>' ts \<le> r) \<and> (ref_true \<alpha>' high \<longleftrightarrow> activity \<alpha>' ts \<le> r - \<bar>snd t\<bar>))"
    by (rule node_pair [OF T tT(2) low high])
  note sound = sound0 [rule_format] and exact = exact0 [rule_format]
  have zt: "sat_lit \<alpha> z \<longleftrightarrow> z_true \<alpha> t" for \<alpha> by (auto simp: z_def z_true_def)
  have "n0 \<le> ?n" using ok(1) by (simp add: bdd_ok_def)
  then have tn: "\<forall>t \<in> set T. fst t < ?n" using T by (auto dest: less_le_trans)
  have vz: "LIT_VAR q < ?n + 1" "LIT_VAR z < ?n + 1" using tT(1) tn by (auto simp: q_def z_def less_SucI)
  have "vars_below (?n + 1) ?new"
    by (rule vars_node_clauses [OF ref_below_mono [OF ok(3)] ref_below_mono [OF ok(4)] vz]) simp_all
  moreover have "ref_below (?n + 1) (snd e)" if "e \<in> set (memo ?s)" for e
  proof -
    have "e = ((i, r), bdd_literal q) \<or> e \<in> set (memo s2)"
      using set_memo_emplace [of "(i, r)" "bdd_literal q" s3] that by (auto simp: s3_def)
    then show ?thesis using vz(1) ok(1) ref_below_mono [of ?n "snd e" "?n + 1"] by (auto simp: bdd_ok_def)
  qed
  ultimately have "bdd_ok n0 ?s"
    using ok(1) vars_below_mono [of ?n "bdd_cnf s2" "?n + 1"] by (simp add: bdd_ok_def s3_def)
  moreover have "memo_sound T \<alpha> (memo ?s) \<and> (ref_true \<alpha> (bdd_literal q) \<longrightarrow> activity \<alpha> (t # ts) \<le> r)"
    if "memo_sound T \<alpha> (memo s)" "sat_cnf \<alpha> (new @ ?new)" for \<alpha>
  proof -
    have sd: "memo_sound T \<alpha> (memo s2)" "ref_true \<alpha> low \<longrightarrow> activity \<alpha> ts \<le> r"
      "ref_true \<alpha> high \<longrightarrow> activity \<alpha> ts \<le> r - \<bar>snd t\<bar>" using sound [OF that(1)] that(2) by auto
    have "sat_lit \<alpha> q \<longrightarrow> activity \<alpha> (t # ts) \<le> r" using that(2) sd by (auto simp: sat_low_clause sat_high_clause zt)
    then show ?thesis using memo_emplace_ok(1) [of T \<alpha> s3 "bdd_literal q" i r] sd(1) t by (simp add: s3_def)
  qed
  moreover have "\<exists>\<alpha>'. (\<forall>v < next_variable s. \<alpha>' v = \<alpha> v) \<and> sat_cnf \<alpha>' (new @ ?new) \<and> memo_exact T \<alpha>' (memo ?s)
                 \<and> (ref_true \<alpha>' (bdd_literal q) \<longleftrightarrow> activity \<alpha>' (t # ts) \<le> r)" if ex: "memo_exact T \<alpha> (memo s)" for \<alpha>
  proof -
    obtain \<beta> where b: "\<forall>v < next_variable s. \<beta> v = \<alpha> v" "sat_cnf \<beta> new" "memo_exact T \<beta> (memo s2)"
      "ref_true \<beta> low \<longleftrightarrow> activity \<beta> ts \<le> r" "ref_true \<beta> high \<longleftrightarrow> activity \<beta> ts \<le> r - \<bar>snd t\<bar>"
      using exact [OF ex] by blast
    define \<alpha>' where "\<alpha>' = \<beta>(?n := activity \<beta> (t # ts) \<le> r)"
    have agree: "\<forall>v < ?n. \<alpha>' v = \<beta> v" by (simp add: \<alpha>'_def)
    have act: "activity \<alpha>' us = activity \<beta> us" if "set us \<subseteq> set T" for us
      using that tn agree by (intro activity_cong) blast
    have q: "sat_lit \<alpha>' q \<longleftrightarrow> activity \<alpha>' (t # ts) \<le> r" using act [of "t # ts"] tT by (simp add: q_def \<alpha>'_def)
    have refs: "ref_true \<alpha>' low \<longleftrightarrow> activity \<alpha>' ts \<le> r" "ref_true \<alpha>' high \<longleftrightarrow> activity \<alpha>' ts \<le> r - \<bar>snd t\<bar>"
      using ref_true_cong [OF ok(3) agree] ref_true_cong [OF ok(4) agree] b(4,5) act [OF tT(2)] by auto
    have "sat_cnf \<alpha>' ?new" using q refs by (auto simp: sat_low_clause sat_high_clause zt split: if_splits)
    moreover have "vars_below ?n new" using ok(1) new by (simp add: bdd_ok_def)
    then have "sat_cnf \<alpha>' new" using sat_cnf_cong [OF _ agree] b(2) by blast
    moreover have "memo_exact T \<alpha>' (memo s2)"
      using ok(1) tn agree by (intro memo_exact_cong [OF b(3)]) (auto simp: bdd_ok_def)
    then have "memo_exact T \<alpha>' (memo ?s)" using memo_emplace_ok(2) [of T \<alpha>' s3 "bdd_literal q" i r] q t by (simp add: s3_def)
    ultimately show ?thesis using b(1) agree ok(2) q by (intro exI [of _ \<alpha>']) auto
  qed
  ultimately show ?thesis
    unfolding node_ok_def using ok new by (intro conjI exI [of _ "new @ ?new"]) (auto simp: s3_def q_def)
qed

text \<open>A call that does not overflow meets its contract.\<close>

lemma node_spec:
  assumes "encode_pb_row_bdd_node n (suffix_sums T) ts i r s = (R, s')" and "\<not> overflow s'"
    and "bdd_ok n0 s" "\<forall>t \<in> set T. fst t < n0" "drop i T = ts" "i \<le> length T"
  shows "node_ok n0 T ts r s R s'"
  using assms
proof (induction ts arbitrary: i r s R s')
  case Nil
  then show ?case by (auto intro!: node_ok_same split: if_splits)
next
  case (Cons t ts)
  let ?run = "encode_pb_row_bdd_node n (suffix_sums T)"
  have suf: "suffix_sums T ! i = (\<Sum>t \<leftarrow> t # ts. \<bar>snd t\<bar>)" using suffix_sums_spec(2) Cons.prems by metis
  have i: "drop (i + 1) T = ts" "i + 1 \<le> length T"
    using Cons.prems(5) by (metis Suc_eq_plus1 drop_Suc list.sel(3) tl_drop) (metis Cons.prems(5,6) Suc_eq_plus1 Suc_leI drop_all le_neq_implies_less list.distinct(1) order_refl)
  note run = Cons.prems(1) [unfolded encode_pb_row_bdd_node.simps]
  consider (neg) "r < 0" | (all) "\<not> r < 0" "suffix_sums T ! i \<le> r"
    | (hit) found where "\<not> r < 0" "\<not> suffix_sums T ! i \<le> r" "map_of (memo s) (i, r) = Some found"
    | (miss) "\<not> r < 0" "\<not> suffix_sums T ! i \<le> r" "map_of (memo s) (i, r) = None" by fastforce
  then show ?case
  proof cases
    case neg
    then have "R = bdd_false_terminal" "s' = s" using run by auto
    moreover have "\<not> activity \<alpha> (t # ts) \<le> r" for \<alpha> using activity_nonneg [of \<alpha> "t # ts"] neg by linarith
    ultimately show ?thesis using Cons.prems(3) by (auto intro!: node_ok_same simp del: activity_simps)
  next
    case all
    then have "R = bdd_true_terminal" "s' = s" using run by auto
    moreover have "activity \<alpha> (t # ts) \<le> r" for \<alpha> using activity_le_max [of \<alpha> "t # ts"] all suf by linarith
    ultimately show ?thesis using Cons.prems(3) by (auto intro!: node_ok_same simp del: activity_simps)
  next
    case hit
    then have R: "R = found" "s' = s" using run by auto
    have mem: "((i, r), found) \<in> set (memo s)" using map_of_SomeD [OF hit(3)] .
    show ?thesis unfolding R
      using Cons.prems(3,5) mem by (intro node_ok_same) (fastforce simp: bdd_ok_def memo_sound_def memo_exact_def simp del: activity_simps)+
  next
    case miss
    obtain low s1 where low: "?run ts (i + 1) r s = (low, s1)" by (cases "?run ts (i + 1) r s")
    obtain high s2 where high: "?run ts (i + 1) (r - \<bar>snd t\<bar>) s1 = (high, s2)" by (cases "?run ts (i + 1) (r - \<bar>snd t\<bar>) s1")
    have res: "(R, s') = (if overflow s2 then (bdd_false_terminal, s2)
        else if low = high then (low, memo_emplace (i, r) low s2)
        else (bdd_literal (LIT (next_variable s2) True), memo_emplace (i, r) (bdd_literal (LIT (next_variable s2) True))
          (s2\<lparr>next_variable := next_variable s2 + 1,
              bdd_cnf := bdd_cnf s2 @ low_clause (LIT (next_variable s2) True) low
                 @ high_clause (LIT (next_variable s2) True) (LIT (fst t) (snd t > 0)) high\<rparr>)))"
      using run miss Cons.prems(2) low high by (auto simp: Let_def split: if_splits)
    then have o2: "\<not> overflow s2" using Cons.prems(2) by (auto split: if_splits)
    have ok1: "node_ok n0 T ts r s low s1"
      using Cons.IH [OF low overflow_mono [OF high o2]] Cons.prems(3,4) i by blast
    then have ok2: "node_ok n0 T ts (r - \<bar>snd t\<bar>) s1 high s2"
      using Cons.IH [OF high o2] Cons.prems(4) i by (auto simp: node_ok_def)
    show ?thesis
      using res o2 node_ok_merge [OF Cons.prems(4,5) ok1] node_ok_fresh [OF Cons.prems(4,5) ok1 ok2] ok2
      by (auto split: if_splits)
  qed
qed

section \<open>Rows and the model\<close>

text \<open>
  The clauses added from \<open>cnf\<close> to \<open>cnf'\<close> encode the predicate \<open>Q\<close> on the first \<open>n\<close>
  variables: they imply it, and every assignment with \<open>Q\<close> extends to a model of them.
\<close>

definition encodes :: "nat \<Rightarrow> clause list \<Rightarrow> nat \<Rightarrow> clause list \<Rightarrow> ((nat \<Rightarrow> bool) \<Rightarrow> bool) \<Rightarrow> bool" where
  "encodes n cnf n' cnf' Q \<longleftrightarrow> n \<le> n' \<and> vars_below n' cnf' \<and>
     (\<exists>new. cnf' = cnf @ new \<and> (\<forall>\<alpha>. sat_cnf \<alpha> new \<longrightarrow> Q \<alpha>)
        \<and> (\<forall>\<alpha>. Q \<alpha> \<longrightarrow> (\<exists>\<alpha>'. (\<forall>v<n. \<alpha>' v = \<alpha> v) \<and> sat_cnf \<alpha>' new)))"

lemma encodes_refl: "vars_below n cnf \<Longrightarrow> (\<And>\<alpha>. Q \<alpha>) \<Longrightarrow> encodes n cnf n cnf Q"
  unfolding encodes_def by (intro conjI exI [of _ "[]"]) auto

lemma encodes_comp:
  assumes 1: "encodes n cnf n1 cnf1 Q1" and 2: "encodes n1 cnf1 n2 cnf2 Q2"
    and local: "\<And>\<alpha> \<beta>. \<forall>v<n. \<alpha> v = \<beta> v \<Longrightarrow> Q2 \<alpha> = Q2 \<beta>"
  shows "encodes n cnf n2 cnf2 (\<lambda>\<alpha>. Q1 \<alpha> \<and> Q2 \<alpha>)"
proof -
  from 1 obtain new1 where n1: "cnf1 = cnf @ new1" "\<And>\<alpha>. sat_cnf \<alpha> new1 \<Longrightarrow> Q1 \<alpha>"
    "\<And>\<alpha>. Q1 \<alpha> \<Longrightarrow> \<exists>\<alpha>'. (\<forall>v<n. \<alpha>' v = \<alpha> v) \<and> sat_cnf \<alpha>' new1"
    and b1: "n \<le> n1" "vars_below n1 new1" by (auto simp: encodes_def)
  from 2 obtain new2 where n2: "cnf2 = cnf1 @ new2" "\<And>\<alpha>. sat_cnf \<alpha> new2 \<Longrightarrow> Q2 \<alpha>"
    "\<And>\<alpha>. Q2 \<alpha> \<Longrightarrow> \<exists>\<alpha>'. (\<forall>v<n1. \<alpha>' v = \<alpha> v) \<and> sat_cnf \<alpha>' new2"
    and b2: "n1 \<le> n2" "vars_below n2 cnf2" by (auto simp: encodes_def)
  have "\<exists>\<alpha>'. (\<forall>v<n. \<alpha>' v = \<alpha> v) \<and> sat_cnf \<alpha>' (new1 @ new2)" if q: "Q1 \<alpha>" "Q2 \<alpha>" for \<alpha>
  proof -
    obtain \<beta> where \<beta>: "\<forall>v<n. \<beta> v = \<alpha> v" "sat_cnf \<beta> new1" using n1(3) [OF q(1)] by blast
    then have "Q2 \<beta>" using local [of \<beta> \<alpha>] q(2) by simp
    then obtain \<gamma> where \<gamma>: "\<forall>v<n1. \<gamma> v = \<beta> v" "sat_cnf \<gamma> new2" using n2(3) by blast
    then show ?thesis using \<beta> b1 sat_cnf_cong [OF b1(2), of \<gamma> \<beta>] by (intro exI [of _ \<gamma>]) auto
  qed
  then show ?thesis
    unfolding encodes_def using n1 n2 b1 b2 by (intro conjI exI [of _ "new1 @ new2"]) auto
qed

lemma encode_pb_row_bdd_spec:
  assumes run: "encode_pb_row_bdd terms rhs n cnf = (res, n', cnf')"
    and terms: "\<forall>t \<in> set terms. fst t < n" and cnf: "vars_below n cnf"
  shows "res = successful \<Longrightarrow> encodes n cnf n' cnf' (\<lambda>\<alpha>. activity \<alpha> terms \<le> rhs)"
    and "res = infeasible \<Longrightarrow> \<not> activity \<alpha> terms \<le> rhs"
proof -
  let ?s = "\<lparr>memo = [], next_variable = n, bdd_cnf = cnf, overflow = False\<rparr>"
  obtain R s where node: "encode_pb_row_bdd_node (length terms) (suffix_sums terms) terms 0 rhs ?s = (R, s)" by fastforce
  have s0: "bdd_ok n ?s" using cnf by (simp add: bdd_ok_def)
  note res = run [unfolded encode_pb_row_bdd_def node Let_def prod.case]
  have spec: "node_ok n terms terms rhs ?s R s" if "\<not> overflow s"
    using node_spec [OF node that s0 terms] by simp
  have m0: "memo_sound terms \<alpha> []" "memo_exact terms \<alpha> []" for \<alpha> by (simp_all add: memo_sound_def memo_exact_def)
  have ext: "\<exists>\<alpha>'. (\<forall>v<n. \<alpha>' v = \<alpha> v) \<and> sat_cnf \<alpha>' new \<and> (ref_true \<alpha>' R \<longleftrightarrow> activity \<alpha> terms \<le> rhs)"
    if "\<exists>\<alpha>'. (\<forall>v<n. \<alpha>' v = \<alpha> v) \<and> sat_cnf \<alpha>' new \<and> memo_exact terms \<alpha>' (memo s) \<and> (ref_true \<alpha>' R \<longleftrightarrow> activity \<alpha>' terms \<le> rhs)"
    for \<alpha> new
    using that terms by (metis activity_cong)
  show "encodes n cnf n' cnf' (\<lambda>\<alpha>. activity \<alpha> terms \<le> rhs)" if ok: "res = successful"
  proof -
    have o: "\<not> overflow s" using res ok by (auto split: if_splits)
    from spec [OF o] obtain new where new: "bdd_cnf s = cnf @ new" "n \<le> next_variable s"
      "bdd_ok n s" "ref_below (next_variable s) R"
      "\<And>\<alpha>. sat_cnf \<alpha> new \<Longrightarrow> ref_true \<alpha> R \<Longrightarrow> activity \<alpha> terms \<le> rhs"
      "\<And>\<alpha>. \<exists>\<alpha>'. (\<forall>v<n. \<alpha>' v = \<alpha> v) \<and> sat_cnf \<alpha>' new \<and> (ref_true \<alpha>' R \<longleftrightarrow> activity \<alpha> terms \<le> rhs)"
      unfolding node_ok_def using m0 ext by auto
    define unit where "unit = (case R of bdd_literal l \<Rightarrow> [[l]] | _ \<Rightarrow> [])"
    have "R \<noteq> bdd_false_terminal" using res o ok by auto
    then have u: "sat_cnf \<alpha> unit \<longleftrightarrow> ref_true \<alpha> R" for \<alpha> by (cases R) (auto simp: unit_def)
    have "n' = next_variable s" "cnf' = cnf @ new @ unit"
      using res o ok new(1) by (auto simp: unit_def split: bdd_ref.splits)
    moreover have "vars_below (next_variable s) (bdd_cnf s @ unit)"
      using new(3,4) by (cases R) (auto simp: unit_def bdd_ok_def vars_below_def)
    moreover have "\<exists>\<alpha>'. (\<forall>v<n. \<alpha>' v = \<alpha> v) \<and> sat_cnf \<alpha>' (new @ unit)" if le: "activity \<alpha> terms \<le> rhs" for \<alpha>
      using new(6) [of \<alpha>] le by (auto simp: u)
    moreover have "activity \<alpha> terms \<le> rhs" if "sat_cnf \<alpha> (new @ unit)" for \<alpha> using that new(5) by (simp add: u)
    ultimately show ?thesis
      unfolding encodes_def using new(1,2) by (intro conjI exI [of _ "new @ unit"]) auto
  qed
  show "\<not> activity \<alpha> terms \<le> rhs" if inf: "res = infeasible"
  proof -
    have "\<not> overflow s" "R = bdd_false_terminal" using res inf by (auto split: if_splits bdd_ref.splits)
    then show ?thesis using spec ext m0 unfolding node_ok_def by (auto; metis ref_true.simps(1))
  qed
qed

text \<open>The model holds for an assignment when all its rows do.\<close>

definition model_holds :: "fj_bin_problem \<Rightarrow> nat list \<Rightarrow> (nat \<Rightarrow> bool) \<Rightarrow> bool" where
  "model_holds pb rs \<alpha> \<longleftrightarrow> (\<forall>r \<in> set rs. row_holds \<alpha> (row_terms pb r) (pb_bound pb ! r))"

definition model_vars_below :: "fj_bin_problem \<Rightarrow> nat list \<Rightarrow> nat \<Rightarrow> bool" where
  "model_vars_below pb rs n \<longleftrightarrow> (\<forall>r \<in> set rs. \<forall>t \<in> set (row_terms pb r). fst t < n)"

lemma model_holds_cong:
  "model_vars_below pb rs n \<Longrightarrow> \<forall>v<n. \<alpha> v = \<beta> v \<Longrightarrow> model_holds pb rs \<alpha> = model_holds pb rs \<beta>"
  unfolding model_holds_def model_vars_below_def row_holds_normalized by (metis activity_cong)

text \<open>One row, by whichever encoding is chosen.\<close>

lemma encode_row_spec:
  assumes direct: "try_encode_pb_row_direct terms rhs cnf = (ok, cnf1)" and rhs: "0 \<le> rhs"
    and run: "(if ok then (successful, n, cnf1) else encode_pb_row_bdd terms rhs n cnf1) = (res, n', cnf')"
    and terms: "\<forall>t \<in> set terms. fst t < n" and cnf: "vars_below n cnf"
  shows "res = successful \<Longrightarrow> encodes n cnf n' cnf' (\<lambda>\<alpha>. activity \<alpha> terms \<le> rhs)"
    and "res = infeasible \<Longrightarrow> \<not> activity \<alpha> terms \<le> rhs"
proof -
  show "encodes n cnf n' cnf' (\<lambda>\<alpha>. activity \<alpha> terms \<le> rhs)" if "res = successful"
  proof (cases ok)
    case True
    obtain new where new: "cnf1 = cnf @ new" "\<And>\<alpha>. sat_cnf \<alpha> new \<longleftrightarrow> activity \<alpha> terms \<le> rhs"
      "\<And>C l. C \<in> set new \<Longrightarrow> l \<in> set C \<Longrightarrow> LIT_VAR l \<in> fst ` set terms"
      using try_encode_pb_row_direct_spec(2) [OF direct rhs True] by blast
    have "vars_below n new" unfolding vars_below_def using new(3) terms by fastforce
    then show ?thesis
      using run True new(1,2) cnf unfolding encodes_def by (intro conjI exI [of _ new]) auto
  next
    case False
    then show ?thesis using run that try_encode_pb_row_direct_spec(1) [OF direct rhs]
        encode_pb_row_bdd_spec(1) [of terms rhs n cnf, OF _ terms cnf] by auto
  qed
  show "\<not> activity \<alpha> terms \<le> rhs" if "res = infeasible"
    using run that try_encode_pb_row_direct_spec(1) [OF direct rhs]
      encode_pb_row_bdd_spec(2) [of terms rhs n cnf, OF _ terms cnf] by (cases ok) auto
qed

lemma encode_rows_spec:
  assumes "encode_rows pb stop rs n cnf = (res, n', cnf')" and "model_vars_below pb rs n" "vars_below n cnf"
  shows "(res = successful \<longrightarrow> encodes n cnf n' cnf' (model_holds pb rs)) \<and> (res = infeasible \<longrightarrow> \<not> model_holds pb rs \<alpha>)"
  using assms
proof (induction rs arbitrary: n cnf)
  case Nil
  then show ?case by (auto intro!: encodes_refl simp: model_holds_def)
next
  case (Cons r rs)
  define terms where "terms = row_terms pb r"
  obtain rhs mx where norm: "normalize_row terms (pb_bound pb ! r) = (rhs, mx)" by fastforce
  obtain ok cnf1 where dir: "try_encode_pb_row_direct terms rhs cnf = (ok, cnf1)" by fastforce
  obtain enc n2 cnf2 where row: "(if ok then (successful, n, cnf1) else encode_pb_row_bdd terms rhs n cnf1) = (enc, n2, cnf2)"
    by (metis prod_cases3)
  have holds: "model_holds pb (r # rs) \<alpha> \<longleftrightarrow> activity \<alpha> terms \<le> rhs \<and> model_holds pb rs \<alpha>" for \<alpha>
    using norm by (simp add: model_holds_def row_holds_normalized normalize_row_eq terms_def)
  have mx: "activity \<alpha> terms \<le> mx" for \<alpha> using activity_le_max norm by (auto simp: normalize_row_eq)
  have tn: "\<forall>t \<in> set terms. fst t < n" and rn: "model_vars_below pb rs n"
    using Cons.prems(2) by (auto simp: model_vars_below_def terms_def)
  note run = Cons.prems(1) [unfolded encode_rows.simps Let_def, folded terms_def, unfolded norm prod.case dir row]
  consider (stop) "res = stopped" | (neg) "rhs < 0" "res = infeasible" | (trivial) "mx \<le> rhs" "encode_rows pb stop rs n cnf = (res, n', cnf')"
    | (fail) "0 \<le> rhs" "enc \<noteq> successful" "res = enc" | (limit) "res = declined"
    | (rec) "0 \<le> rhs" "enc = successful" "encode_rows pb stop rs n2 cnf2 = (res, n', cnf')"
    using run by (auto split: if_splits)
  then show ?case
  proof cases
    case neg
    then show ?thesis using activity_nonneg [of \<alpha> terms] holds by auto
  next
    case trivial
    have "model_holds pb (r # rs) = model_holds pb rs" using holds mx trivial(1) order_trans by blast
    then show ?thesis using Cons.IH [OF trivial(2) rn Cons.prems(3)] by simp
  next
    case fail
    then show ?thesis using encode_row_spec(2) [OF dir fail(1) row tn Cons.prems(3)] holds by auto
  next
    case rec
    have enc: "encodes n cnf n2 cnf2 (\<lambda>\<alpha>. activity \<alpha> terms \<le> rhs)"
      using encode_row_spec(1) [OF dir rec(1) row tn Cons.prems(3)] rec(2) .
    then have "n \<le> n2" "vars_below n2 cnf2" by (auto simp: encodes_def)
    then have "model_vars_below pb rs n2" "vars_below n2 cnf2" using rn by (fastforce simp: model_vars_below_def)+
    note IH = Cons.IH [OF rec(3) this]
    show ?thesis
      using encodes_comp [OF enc, of n' cnf' "model_holds pb rs"] IH model_holds_cong [OF rn] holds
      by (auto simp: holds [abs_def] fun_eq_iff)
  qed auto
qed

lemma encode_pb_model_spec:
  assumes "encode_pb_model pb stop = (res, variables, cnf)"
    and "model_vars_below pb [0..<n_constraints pb] (n_variables pb)"
  shows "(res = successful \<longrightarrow> n_variables pb \<le> variables \<and> vars_below variables cnf
           \<and> (\<forall>\<alpha>. sat_cnf \<alpha> cnf \<longrightarrow> model_holds pb [0..<n_constraints pb] \<alpha>)
           \<and> (\<forall>\<alpha>. model_holds pb [0..<n_constraints pb] \<alpha> \<longrightarrow>
                (\<exists>\<alpha>'. (\<forall>v < n_variables pb. \<alpha>' v = \<alpha> v) \<and> sat_cnf \<alpha>' cnf)))
       \<and> (res = infeasible \<longrightarrow> (\<forall>\<alpha>. \<not> model_holds pb [0..<n_constraints pb] \<alpha>))"
  using encode_rows_spec [OF assms(1) [unfolded encode_pb_model_def] assms(2)]
  by (auto simp: encodes_def vars_below_def)

text \<open>
  C7. When the encoding of the model succeeds, its clauses over all the variables have exactly
  the feasible assignments of the model as projections to the model's own variables: every model
  of the clauses satisfies all rows, and every assignment satisfying all rows extends to a model
  of the clauses. When the encoding reports the model infeasible, no assignment satisfies all
  rows.
\<close>

theorem encode_pb_model_correct:
  assumes "encode_pb_model pb stop = (res, variables, cnf)"
    and "model_vars_below pb [0..<n_constraints pb] (n_variables pb)"
  shows "(res = successful \<longrightarrow> n_variables pb \<le> variables \<and> vars_below variables cnf
           \<and> (\<forall>\<alpha>. sat_cnf \<alpha> cnf \<longrightarrow> model_holds pb [0..<n_constraints pb] \<alpha>)
           \<and> (\<forall>\<alpha>. model_holds pb [0..<n_constraints pb] \<alpha> \<longrightarrow>
                (\<exists>\<alpha>'. (\<forall>v < n_variables pb. \<alpha>' v = \<alpha> v) \<and> sat_cnf \<alpha>' cnf)))
       \<and> (res = infeasible \<longrightarrow> (\<forall>\<alpha>. \<not> model_holds pb [0..<n_constraints pb] \<alpha>))"
  by (rule encode_pb_model_spec [OF assms])

text \<open>A row 3x + 2y + 2z \<open>\<le>\<close> 4 over three variables.\<close>

definition sample_pb :: fj_bin_problem where
  "sample_pb = \<lparr>n_variables = 3, n_constraints = 1, pb_offsets = [0, 3], pb_variables = [0, 1, 2],
     pb_coefficients = [3, 2, 2], pb_bound = [4]\<rparr>"

theorem encode_pb_model_correct_witness:
  "encode_pb_model sample_pb (\<lambda>_. False) = (successful, 3, [[LIT 0 False, LIT 1 False], [LIT 0 False, LIT 2 False]])
   \<and> sat_cnf (\<lambda>v. v = 0) [[LIT 0 False, LIT 1 False], [LIT 0 False, LIT 2 False]]
   \<and> model_holds sample_pb [0..<n_constraints sample_pb] (\<lambda>v. v = 0)"
proof -
  have run: "encode_pb_model sample_pb (\<lambda>_. False) = (successful, 3, [[LIT 0 False, LIT 1 False], [LIT 0 False, LIT 2 False]])"
  proof -
    have "row_terms sample_pb 0 = [(0, 3), (1, 2), (2, 2)]" by code_simp
    moreover have "normalize_row [(0, 3), (1, 2), (2, 2)] (pb_bound sample_pb ! 0) = (4, 7)" by code_simp
    moreover have "try_encode_pb_row_direct [(0, 3), (1, 2), (2, 2)] 4 [] = (True, [[LIT 0 False, LIT 1 False], [LIT 0 False, LIT 2 False]])"
      by code_simp
    moreover have "[0..<n_constraints sample_pb] = [0]" "n_variables sample_pb = 3" by (simp_all add: sample_pb_def)
    ultimately show ?thesis by (simp add: encode_pb_model_def sat_clause_limit_def)
  qed
  have vars: "model_vars_below sample_pb [0..<n_constraints sample_pb] (n_variables sample_pb)" by code_simp
  have sat: "sat_cnf (\<lambda>v. v = 0) [[LIT 0 False, LIT 1 False], [LIT 0 False, LIT 2 False]]" by simp
  then have "model_holds sample_pb [0..<n_constraints sample_pb] (\<lambda>v. v = 0)"
    using encode_pb_model_correct [OF run vars] by blast
  with run sat show ?thesis by blast
qed

end
