(* ===== verification/Sat_Bve.thy ===== *)
theory Sat_Bve
  imports Sat_Literals
begin

text \<open>
  Bounded variable elimination before the clause search, \<open>sat_bve_t\<close> of
  \<open>feasibility_jump/sat/cdcl_sat.cpp\<close>: \<open>canonicalize\<close>, \<open>presolve\<close> and \<open>postsolve\<close>.
  Values of variables are the 8-bit numbers 0 and 1 of the code, as integers. A clause whose
  literals have been moved to the saved clauses is left empty and deleted. The call \<open>stop()\<close>
  at variable v is the value of a parameter at v; a stopped presolve is \<open>None\<close>.
\<close>

section \<open>Operations\<close>

definition stop_poll_period :: nat where "stop_poll_period = 256"
definition occurrence_limit :: nat where "occurrence_limit = 32"
definition resolvent_limit :: nat where "resolvent_limit = 64"

record sat_bve =
  extension :: "(nat \<times> clause list) list"
  compact_to_original :: "nat list"
  model_variables :: nat

fun canonical_from :: "clause \<Rightarrow> clause \<Rightarrow> clause option" where
  "canonical_from out [] = Some out"
| "canonical_from out (lit # lits) =
     (if out \<noteq> [] \<and> last out = lit then canonical_from out lits
      else if out \<noteq> [] \<and> LIT_NEG (last out) = lit then None
      else canonical_from (out @ [lit]) lits)"

definition canonicalize :: "clause \<Rightarrow> clause option" where
  "canonicalize clause = canonical_from [] (sort clause)"

definition resolvent :: "nat \<Rightarrow> clause \<Rightarrow> clause \<Rightarrow> clause" where
  "resolvent v p q = filter (\<lambda>lit. LIT_VAR lit \<noteq> v) p @ filter (\<lambda>lit. LIT_VAR lit \<noteq> v) q"

fun resolve_negatives :: "nat \<Rightarrow> nat \<Rightarrow> clause \<Rightarrow> clause list \<Rightarrow> clause list \<Rightarrow> clause list \<times> bool" where
  "resolve_negatives v limit p [] resolvents = (resolvents, False)"
| "resolve_negatives v limit p (q # qs) resolvents =
     (case canonicalize (resolvent v p q) of
        None \<Rightarrow> resolve_negatives v limit p qs resolvents
      | Some r \<Rightarrow>
          let resolvents = resolvents @ [r]
          in if length resolvents > resolvent_limit \<or> length resolvents > limit then (resolvents, True)
             else resolve_negatives v limit p qs resolvents)"

fun resolve_positives :: "nat \<Rightarrow> nat \<Rightarrow> clause list \<Rightarrow> clause list \<Rightarrow> clause list \<Rightarrow> clause list \<times> bool" where
  "resolve_positives v limit [] qs resolvents = (resolvents, False)"
| "resolve_positives v limit (p # ps) qs resolvents =
     (case resolve_negatives v limit p qs resolvents of (resolvents, reject) \<Rightarrow>
        if reject then (resolvents, True) else resolve_positives v limit ps qs resolvents)"

text \<open>The working state of \<open>presolve\<close>: clauses with their deletion flag, occurrence lists, saved clauses.\<close>

record bve_state =
  clauses :: "(clause \<times> bool) list"
  occurrence :: "nat list list"
  saved :: "(nat \<times> clause list) list"

definition lits_of :: "bve_state \<Rightarrow> nat list \<Rightarrow> clause list" where
  "lits_of s ids = map (\<lambda>id. fst (clauses s ! id)) ids"

definition live_ids :: "bve_state \<Rightarrow> nat \<Rightarrow> nat list" where
  "live_ids s lit = filter (\<lambda>id. \<not> snd (clauses s ! id)) (occurrence s ! lit)"

definition delete_clause :: "nat \<Rightarrow> (clause \<times> bool) list \<Rightarrow> (clause \<times> bool) list" where
  "delete_clause c cs = cs[c := ([], True)]"

definition push_clause :: "clause \<Rightarrow> bve_state \<Rightarrow> bve_state" where
  "push_clause lits s =
     (let id = length (clauses s)
      in s\<lparr>clauses := clauses s @ [(lits, False)],
           occurrence := fold (\<lambda>lit occ. occ[lit := occ ! lit @ [id]]) lits (occurrence s)\<rparr>)"

definition eliminate_variable :: "nat \<Rightarrow> bve_state \<Rightarrow> bve_state" where
  "eliminate_variable v s =
     (let positive = live_ids s (LIT v True); negative = live_ids s (LIT v False)
      in if positive = [] \<or> negative = [] \<or> length positive > occurrence_limit \<or> length negative > occurrence_limit then s
         else case resolve_positives v (length positive + length negative) (lits_of s positive) (lits_of s negative) []
              of (resolvents, reject) \<Rightarrow>
                if reject then s
                else fold push_clause resolvents
                  (s\<lparr>saved := saved s @ [(v, lits_of s (positive @ negative))],
                     clauses := fold delete_clause (positive @ negative) (clauses s)\<rparr>))"

fun eliminate_variables :: "(nat \<Rightarrow> bool) \<Rightarrow> nat list \<Rightarrow> bve_state \<Rightarrow> bve_state option" where
  "eliminate_variables stop [] s = Some s"
| "eliminate_variables stop (v # vs) s =
     (if v mod stop_poll_period = 0 \<and> stop v then None
      else eliminate_variables stop vs (eliminate_variable v s))"

definition initial_state :: "clause list \<Rightarrow> nat \<Rightarrow> bve_state" where
  "initial_state input n =
     fold push_clause (List.map_filter canonicalize input) \<lparr>clauses = [], occurrence = replicate (2 * n) [], saved = []\<rparr>"

definition elimination_order :: "bve_state \<Rightarrow> nat \<Rightarrow> nat list" where
  "elimination_order s n =
     sort_key (\<lambda>v. length (occurrence s ! LIT v False) + length (occurrence s ! LIT v True)) [0..<n]"

definition live_clauses :: "bve_state \<Rightarrow> clause list" where
  "live_clauses s = map fst (filter (\<lambda>c. \<not> snd c) (clauses s))"

definition used_variables :: "clause list \<Rightarrow> nat \<Rightarrow> bool list" where
  "used_variables cs n = fold (\<lambda>lit used. used[LIT_VAR lit := True]) (concat cs) (replicate n False)"

definition presolve :: "clause list \<Rightarrow> nat \<Rightarrow> nat \<Rightarrow> (nat \<Rightarrow> bool) \<Rightarrow> (clause list \<times> sat_bve) option" where
  "presolve input n original_variables stop =
     (let s = initial_state input n
      in case eliminate_variables stop (elimination_order s n) s of
        None \<Rightarrow> None
      | Some s \<Rightarrow>
          let live = live_clauses s;
              used = used_variables live n;
              model = filter (\<lambda>v. used ! v) [0..<original_variables];
              compact = model @ filter (\<lambda>v. used ! v) [original_variables..<n];
              remap = fold (\<lambda>v remap. remap[compact ! v := int v]) [0..<length compact] (replicate n (- 1))
          in Some (map (map (\<lambda>lit. LIT (nat (remap ! LIT_VAR lit)) (LIT_POLARITY lit))) live,
                   \<lparr>extension = saved s, compact_to_original = compact, model_variables = length model\<rparr>))"

text \<open>Going back: the value a saved clause requires of its variable, in the order of the code.\<close>

definition clause_requires :: "nat \<Rightarrow> int list \<Rightarrow> clause \<Rightarrow> int option \<Rightarrow> int option" where
  "clause_requires v value clause required =
     (if list_ex (\<lambda>lit. LIT_VAR lit \<noteq> v \<and> value ! LIT_VAR lit = of_bool (LIT_POLARITY lit)) clause then required
      else fold (\<lambda>lit required. if LIT_VAR lit = v then Some (of_bool (LIT_POLARITY lit)) else required) clause required)"

definition restore_variable :: "int list \<Rightarrow> nat \<times> clause list \<Rightarrow> int list \<Rightarrow> int list" where
  "restore_variable initial_assignment e value =
     (let required = fold (clause_requires (fst e) value) (snd e) None
      in value[fst e := (case required of None \<Rightarrow> initial_assignment ! fst e | Some r \<Rightarrow> r)])"

definition postsolve :: "sat_bve \<Rightarrow> int list \<Rightarrow> int list \<Rightarrow> int list" where
  "postsolve bve compact initial_assignment =
     (let value = fold (\<lambda>i value. value[compact_to_original bve ! i := compact ! i])
                    [0..<length (compact_to_original bve)] initial_assignment
      in fold (restore_variable initial_assignment) (rev (extension bve)) value)"

section \<open>Canonical clauses\<close>

definition canonical :: "clause \<Rightarrow> bool" where
  "canonical C \<longleftrightarrow> distinct (map LIT_VAR C)"

lemma canonical_from_spec:
  assumes "sorted (out @ lits)" "distinct (map LIT_VAR out)"
  shows "(\<forall>C. canonical_from out lits = Some C \<longrightarrow> set C = set out \<union> set lits \<and> canonical C)
       \<and> (canonical_from out lits = None \<longrightarrow> (\<exists>l \<in> set out \<union> set lits. LIT_NEG l \<in> set out \<union> set lits))"
  using assms
proof (induction out lits rule: canonical_from.induct)
  case (2 out lit lits)
  consider (dup) "out \<noteq> []" "last out = lit" | (taut) "out \<noteq> []" "last out \<noteq> lit" "LIT_NEG (last out) = lit"
    | (keep) "out = [] \<or> last out \<noteq> lit" "out = [] \<or> LIT_NEG (last out) \<noteq> lit" by blast
  then show ?case
  proof cases
    case dup
    then have sets: "set out \<union> set (lit # lits) = set out \<union> set lits" by auto
    have run: "canonical_from out (lit # lits) = canonical_from out lits" using dup by simp
    have "sorted (out @ lits)" using "2.prems"(1) by (simp add: sorted_append)
    then show ?thesis unfolding sets run by (rule "2.IH"(1) [OF conjI [OF dup] _ "2.prems"(2)])
  next
    case taut
    then have "last out \<in> set out" "canonical_from out (lit # lits) = None" by auto
    then show ?thesis using taut by auto
  next
    case keep
    have "LIT_VAR lit \<notin> LIT_VAR ` set out"
    proof
      assume "LIT_VAR lit \<in> LIT_VAR ` set out"
      then obtain l where l: "l \<in> set out" "LIT_VAR l = LIT_VAR lit" by auto
      then obtain ys y where out: "out = ys @ [y]" by (metis empty_iff empty_set rev_exhaust)
      then have ne: "out \<noteq> []" and le: "l \<le> last out" "last out \<le> lit"
        using "2.prems"(1) l(1) by (auto simp: sorted_append)
      then have "LIT_VAR l \<le> LIT_VAR (last out)" "LIT_VAR (last out) \<le> LIT_VAR lit" by (auto simp: LIT_VAR_def div_le_mono)
      then have "LIT_VAR (last out) = LIT_VAR lit" using l(2) by simp
      then show False using keep ne same_var [of lit "last out"] by auto
    qed
    then have dist: "distinct (map LIT_VAR (out @ [lit]))" using "2.prems"(2) by simp
    have run: "canonical_from out (lit # lits) = canonical_from (out @ [lit]) lits" using keep by auto
    have sets: "set out \<union> set (lit # lits) = set (out @ [lit]) \<union> set lits" by auto
    have "\<not> (out \<noteq> [] \<and> last out = lit)" "\<not> (out \<noteq> [] \<and> LIT_NEG (last out) = lit)" using keep by auto
    then show ?thesis unfolding sets run using "2.prems"(1) by (intro "2.IH"(2) [OF _ _ _ dist]) simp_all
  qed
qed (auto simp: canonical_def)

lemma canonicalize_Some: "canonicalize C = Some C' \<Longrightarrow> set C' = set C \<and> canonical C'"
  using canonical_from_spec [of "[]" "sort C"] by (simp add: canonicalize_def)

lemma canonicalize_None: "canonicalize C = None \<Longrightarrow> sat_clause \<alpha> C"
  using canonical_from_spec [of "[]" "sort C"]
  by (auto simp: canonicalize_def sat_clause_def intro: bexI [of _ "LIT_NEG _"]) (metis sat_lit_NEG)

lemma sat_clause_set: "set C = set D \<Longrightarrow> sat_clause \<alpha> C = sat_clause \<alpha> D"
  by (simp add: sat_clause_def)

section \<open>Elimination of a variable\<close>

lemma resolve_negatives_spec:
  "resolve_negatives v limit p qs res = (res', False) \<Longrightarrow>
   set res' = set res \<union> {r. \<exists>q \<in> set qs. canonicalize (resolvent v p q) = Some r}"
  by (induction qs arbitrary: res) (auto simp: Let_def split: option.splits if_splits)

lemma resolve_positives_spec:
  "resolve_positives v limit ps qs res = (res', False) \<Longrightarrow>
   set res' = set res \<union> {r. \<exists>p \<in> set ps. \<exists>q \<in> set qs. canonicalize (resolvent v p q) = Some r}"
  by (induction ps arbitrary: res) (auto dest!: resolve_negatives_spec split: prod.splits if_splits)

definition bve_inv :: "nat \<Rightarrow> bve_state \<Rightarrow> bool" where
  "bve_inv n s \<longleftrightarrow> length (occurrence s) = 2 * n
     \<and> (\<forall>k < length (clauses s). \<not> snd (clauses s ! k) \<longrightarrow> canonical (fst (clauses s ! k))
          \<and> (\<forall>l \<in> set (fst (clauses s ! k)). l < 2 * n \<and> k \<in> set (occurrence s ! l)))
     \<and> (\<forall>l < 2 * n. distinct (occurrence s ! l) \<and> (\<forall>k \<in> set (occurrence s ! l).
          k < length (clauses s) \<and> (\<not> snd (clauses s ! k) \<longrightarrow> l \<in> set (fst (clauses s ! k)))))"

lemma bve_inv_D:
  assumes "bve_inv n s"
  shows bve_occ_length: "length (occurrence s) = 2 * n"
    and bve_canonical: "k < length (clauses s) \<Longrightarrow> \<not> snd (clauses s ! k) \<Longrightarrow> canonical (fst (clauses s ! k))"
    and bve_bound: "k < length (clauses s) \<Longrightarrow> \<not> snd (clauses s ! k) \<Longrightarrow> l \<in> set (fst (clauses s ! k)) \<Longrightarrow> l < 2 * n"
    and bve_listed: "k < length (clauses s) \<Longrightarrow> \<not> snd (clauses s ! k) \<Longrightarrow> l \<in> set (fst (clauses s ! k)) \<Longrightarrow> k \<in> set (occurrence s ! l)"
    and bve_distinct: "l < 2 * n \<Longrightarrow> distinct (occurrence s ! l)"
    and bve_index: "l < 2 * n \<Longrightarrow> k \<in> set (occurrence s ! l) \<Longrightarrow> k < length (clauses s)"
    and bve_occurs: "l < 2 * n \<Longrightarrow> k \<in> set (occurrence s ! l) \<Longrightarrow> \<not> snd (clauses s ! k) \<Longrightarrow> l \<in> set (fst (clauses s ! k))"
  using assms unfolding bve_inv_def by blast+

lemma occurrence_fold:
  assumes "distinct lits" "\<forall>l \<in> set lits. l < length occ"
  shows "length (fold (\<lambda>lit occ. occ[lit := occ ! lit @ [k]]) lits occ) = length occ"
    and "l < length occ \<Longrightarrow> fold (\<lambda>lit occ. occ[lit := occ ! lit @ [k]]) lits occ ! l
           = (if l \<in> set lits then occ ! l @ [k] else occ ! l)"
  using assms by (induction lits arbitrary: occ) (auto simp: nth_list_update)

lemma canonical_distinct: "canonical C \<Longrightarrow> distinct C"
  by (simp add: canonical_def distinct_map)

lemma push_clause_inv:
  assumes inv: "bve_inv n s" and C: "canonical C" "\<forall>l \<in> set C. l < 2 * n"
  shows "bve_inv n (push_clause C s)" and "live_clauses (push_clause C s) = live_clauses s @ [C]"
    and "saved (push_clause C s) = saved s"
proof -
  let ?k = "length (clauses s)" and ?s = "push_clause C s"
  have len: "length (occurrence s) = 2 * n" using inv by (simp add: bve_inv_def)
  have occ: "length (occurrence ?s) = 2 * n"
    "\<And>l. l < 2 * n \<Longrightarrow> occurrence ?s ! l = (if l \<in> set C then occurrence s ! l @ [?k] else occurrence s ! l)"
    using occurrence_fold [OF canonical_distinct [OF C(1)], of "occurrence s"] C(2) len
    by (auto simp: push_clause_def Let_def)
  have cl: "clauses ?s = clauses s @ [(C, False)]" by (simp add: push_clause_def)
  have fresh: "?k \<notin> set (occurrence s ! l)" if "l < 2 * n" for l using bve_index [OF inv that] by blast
  have "\<forall>k < length (clauses ?s). \<not> snd (clauses ?s ! k) \<longrightarrow> canonical (fst (clauses ?s ! k))
          \<and> (\<forall>l \<in> set (fst (clauses ?s ! k)). l < 2 * n \<and> k \<in> set (occurrence ?s ! l))"
  proof (intro allI impI)
    fix k assume k: "k < length (clauses ?s)" "\<not> snd (clauses ?s ! k)"
    show "canonical (fst (clauses ?s ! k)) \<and> (\<forall>l \<in> set (fst (clauses ?s ! k)). l < 2 * n \<and> k \<in> set (occurrence ?s ! l))"
    proof (cases "k = ?k")
      case True
      then show ?thesis using C occ(2) by (simp add: cl)
    next
      case False
      then have kk: "k < ?k" "clauses ?s ! k = clauses s ! k" using k by (auto simp: cl nth_append)
      then have "canonical (fst (clauses s ! k)) \<and> (\<forall>l \<in> set (fst (clauses s ! k)). l < 2 * n \<and> k \<in> set (occurrence s ! l))"
        using bve_canonical [OF inv kk(1)] bve_bound [OF inv kk(1)] bve_listed [OF inv kk(1)] k(2) by auto
      then show ?thesis using kk(2) occ(2) by simp
    qed
  qed
  moreover have "distinct (occurrence ?s ! l) \<and> (\<forall>k \<in> set (occurrence ?s ! l). k < length (clauses ?s)
      \<and> (\<not> snd (clauses ?s ! k) \<longrightarrow> l \<in> set (fst (clauses ?s ! k))))" if l: "l < 2 * n" for l
  proof -
    have "k < Suc ?k \<and> (\<not> snd (clauses ?s ! k) \<longrightarrow> l \<in> set (fst (clauses ?s ! k)))" if "k \<in> set (occurrence ?s ! l)" for k
    proof (cases "k = ?k")
      case True
      then show ?thesis using that fresh [OF l] occ(2) [OF l] by (simp add: cl split: if_splits)
    next
      case False
      then have k: "k \<in> set (occurrence s ! l)" using that occ(2) [OF l] by (simp split: if_splits)
      then show ?thesis using bve_index [OF inv l k] bve_occurs [OF inv l k] by (simp add: cl nth_append)
    qed
    then show ?thesis using fresh [OF l] occ(2) [OF l] bve_distinct [OF inv l] by (simp add: cl)
  qed
  ultimately show "bve_inv n ?s" unfolding bve_inv_def using occ(1) by blast
  show "live_clauses ?s = live_clauses s @ [C]" by (simp add: live_clauses_def cl)
  show "saved ?s = saved s" by (simp add: push_clause_def Let_def)
qed

lemma push_clauses_inv:
  assumes "bve_inv n s" "\<forall>C \<in> set Cs. canonical C \<and> (\<forall>l \<in> set C. l < 2 * n)"
  shows "bve_inv n (fold push_clause Cs s) \<and> live_clauses (fold push_clause Cs s) = live_clauses s @ Cs
       \<and> saved (fold push_clause Cs s) = saved s"
  using assms by (induction Cs arbitrary: s) (auto simp: push_clause_inv)

lemma delete_clauses:
  "length (fold delete_clause ids cs) = length cs"
  "k < length cs \<Longrightarrow> fold delete_clause ids cs ! k = (if k \<in> set ids then ([], True) else cs ! k)"
  by (induction ids arbitrary: cs) (auto simp: delete_clause_def nth_list_update)

lemma set_live_clauses: "set (live_clauses s) = {fst (clauses s ! k) | k. k < length (clauses s) \<and> \<not> snd (clauses s ! k)}"
  unfolding live_clauses_def set_map set_filter by (auto simp: in_set_conv_nth image_def; metis fst_conv snd_conv prod.collapse)

lemma live_ids_set:
  assumes "bve_inv n s" "l < 2 * n"
  shows "k \<in> set (live_ids s l) \<longleftrightarrow> k < length (clauses s) \<and> \<not> snd (clauses s ! k) \<and> l \<in> set (fst (clauses s ! k))"
  using bve_listed [OF assms(1)] bve_index [OF assms] bve_occurs [OF assms] unfolding live_ids_def set_filter by blast

lemma var_occurs: "v \<in> LIT_VAR ` set C \<longleftrightarrow> LIT v True \<in> set C \<or> LIT v False \<in> set C"
proof -
  have "l = LIT v True \<or> l = LIT v False" if "LIT_VAR l = v" for l
    using that by (cases l rule: LIT_cases) auto
  then show ?thesis by (force simp: image_iff)
qed

lemma eliminate_variable_cases:
  assumes inv: "bve_inv n s" and v: "v < n" and s': "s' = eliminate_variable v s"
  obtains (same) "s' = s"
  | (eliminated) P N R where "saved s' = saved s @ [(v, P @ N)]"
      "set P = {C \<in> set (live_clauses s). LIT v True \<in> set C}" "set N = {C \<in> set (live_clauses s). LIT v False \<in> set C}"
      "R = {r. \<exists>p \<in> set P. \<exists>q \<in> set N. canonicalize (resolvent v p q) = Some r}"
      "set (live_clauses s') = {C \<in> set (live_clauses s). v \<notin> LIT_VAR ` set C} \<union> R" "bve_inv n s'"
proof -
  let ?p = "live_ids s (LIT v True)" and ?q = "live_ids s (LIT v False)"
  define P where "P = lits_of s ?p" define N where "N = lits_of s ?q"
  obtain R reject where res: "resolve_positives v (length ?p + length ?q) P N [] = (R, reject)" by fastforce
  define s1 where "s1 = s\<lparr>saved := saved s @ [(v, P @ N)], clauses := fold delete_clause (?p @ ?q) (clauses s)\<rparr>"
  have "s' = s \<or> \<not> reject \<and> s' = fold push_clause R s1"
    unfolding s' eliminate_variable_def Let_def
    using res by (auto simp: P_def N_def s1_def lits_of_def)
  then consider "s' = s" | (elim) "\<not> reject" "s' = fold push_clause R s1" by blast
  then show thesis
  proof cases
    case elim
    have lv: "LIT v b < 2 * n" for b using v by (simp add: LIT_def of_bool_def)
    have ids: "k \<in> set (?p @ ?q) \<longleftrightarrow> k < length (clauses s) \<and> \<not> snd (clauses s ! k) \<and> v \<in> LIT_VAR ` set (fst (clauses s ! k))" for k
      using live_ids_set [OF inv lv [of True], of k] live_ids_set [OF inv lv [of False], of k]
        var_occurs [of v "fst (clauses s ! k)"] by auto
    have set_lits: "set (lits_of s (live_ids s (LIT v b))) = {C \<in> set (live_clauses s). LIT v b \<in> set C}" for b
      unfolding set_live_clauses lits_of_def using live_ids_set [OF inv lv [of b]] by auto
    have cl: "length (clauses s1) = length (clauses s)"
      "\<And>k. k < length (clauses s) \<Longrightarrow> clauses s1 ! k = (if k \<in> set (?p @ ?q) then ([], True) else clauses s ! k)"
      using delete_clauses [where ids = "?p @ ?q" and cs = "clauses s"] by (simp_all add: s1_def)
    have occ: "occurrence s1 = occurrence s" by (simp add: s1_def)
    have alive: "\<not> snd (clauses s ! k) \<and> clauses s1 ! k = clauses s ! k" if "k < length (clauses s)" "\<not> snd (clauses s1 ! k)" for k
      using cl(2) [OF that(1)] that(2) by (auto split: if_splits)
    have inv1: "bve_inv n s1"
      unfolding bve_inv_def occ cl(1)
    proof (intro conjI allI impI ballI)
      fix k assume k: "k < length (clauses s)" "\<not> snd (clauses s1 ! k)"
      note a = alive [OF k]
      show "canonical (fst (clauses s1 ! k))" using bve_canonical [OF inv k(1)] a by simp
      fix l assume l: "l \<in> set (fst (clauses s1 ! k))"
      show "l < 2 * n" using bve_bound [OF inv k(1)] a l by auto
      show "k \<in> set (occurrence s ! l)" using bve_listed [OF inv k(1)] a l by auto
    next
      fix l assume l: "l < 2 * n"
      show "distinct (occurrence s ! l)" by (rule bve_distinct [OF inv l])
      fix k assume k: "k \<in> set (occurrence s ! l)"
      show "k < length (clauses s)" by (rule bve_index [OF inv l k])
      assume "\<not> snd (clauses s1 ! k)"
      then show "l \<in> set (fst (clauses s1 ! k))" using bve_occurs [OF inv l k] alive [OF bve_index [OF inv l k]] by auto
    qed (rule bve_occ_length [OF inv])
    have live1: "set (live_clauses s1) = {C \<in> set (live_clauses s). v \<notin> LIT_VAR ` set C}"
    proof -
      have "\<not> snd (clauses s1 ! k) \<longleftrightarrow> \<not> snd (clauses s ! k) \<and> v \<notin> LIT_VAR ` set (fst (clauses s ! k))"
        if "k < length (clauses s)" for k using cl(2) [OF that] ids [of k] that by auto
      then show ?thesis unfolding set_live_clauses cl(1) using alive by (intro set_eqI) (smt (verit) mem_Collect_eq)
    qed
    have R: "set R = {r. \<exists>p \<in> set P. \<exists>q \<in> set N. canonicalize (resolvent v p q) = Some r}"
      using resolve_positives_spec res elim(1) by fastforce
    have bound: "l < 2 * n" if "C \<in> set (live_clauses s)" "l \<in> set C" for C l
      using that bve_bound [OF inv] unfolding set_live_clauses by blast
    have "canonical r \<and> (\<forall>l \<in> set r. l < 2 * n)" if r: "r \<in> set R" for r
    proof -
      from r obtain p q where "p \<in> set P" "q \<in> set N" "canonicalize (resolvent v p q) = Some r" unfolding R by blast
      then show ?thesis using canonicalize_Some bound set_lits by (force simp: P_def N_def resolvent_def)
    qed
    then have "bve_inv n s'" "live_clauses s' = live_clauses s1 @ R" "saved s' = saved s @ [(v, P @ N)]"
      using push_clauses_inv [OF inv1, of R] elim(2) by (auto simp: s1_def)
    then show thesis using live1 R set_lits by (intro eliminated [of P N "set R"]) (auto simp: P_def N_def)
  qed (rule same)
qed

section \<open>Models before and after\<close>

abbreviation asg :: "int list \<Rightarrow> nat \<Rightarrow> bool" where
  "asg value \<equiv> \<lambda>v. value ! v = 1"

definition bits :: "nat \<Rightarrow> int list \<Rightarrow> bool" where
  "bits n value \<longleftrightarrow> length value = n \<and> set value \<subseteq> {0, 1}"

lemma bits_nth: "bits n value \<Longrightarrow> v < n \<Longrightarrow> value ! v = 0 \<or> value ! v = 1"
  unfolding bits_def by (metis insert_iff nth_mem singletonD subset_code(1))

lemma bits_sat_lit: "bits n value \<Longrightarrow> LIT_VAR l < n \<Longrightarrow> value ! LIT_VAR l = of_bool (LIT_POLARITY l) \<longleftrightarrow> sat_lit (asg value) l"
  using bits_nth [of n "value" "LIT_VAR l"] by (auto simp: sat_lit_def)

lemma bits_update: "bits n value \<Longrightarrow> b = 0 \<or> b = 1 \<Longrightarrow> bits n (value[v := b])"
  by (auto simp: bits_def dest!: set_update_subset_insert [THEN subsetD])

text \<open>A clause is decided by the literals of other variables.\<close>

definition sat_without :: "nat \<Rightarrow> (nat \<Rightarrow> bool) \<Rightarrow> clause \<Rightarrow> bool" where
  "sat_without v \<alpha> C \<longleftrightarrow> sat_clause \<alpha> (filter (\<lambda>l. LIT_VAR l \<noteq> v) C)"

lemma sat_without_cong: "(\<And>u. u \<noteq> v \<Longrightarrow> \<alpha> u = \<beta> u) \<Longrightarrow> sat_without v \<alpha> C = sat_without v \<beta> C"
  by (auto simp: sat_without_def sat_clause_def sat_lit_def)

lemma sat_without_imp: "sat_without v \<alpha> C \<Longrightarrow> sat_clause \<alpha> C"
  by (auto simp: sat_without_def sat_clause_def)

lemma sat_clause_without: "v \<notin> LIT_VAR ` set C \<Longrightarrow> sat_clause \<alpha> C = sat_without v \<alpha> C"
  by (auto simp: sat_without_def sat_clause_def)

lemma sat_resolvent: "sat_clause \<alpha> (resolvent v p q) \<longleftrightarrow> sat_without v \<alpha> p \<or> sat_without v \<alpha> q"
  by (auto simp: resolvent_def sat_without_def sat_clause_def)

lemma clause_requires_eq:
  assumes "bits n value" "\<forall>l \<in> set C. LIT_VAR l < n" "canonical C" "LIT v b \<in> set C"
  shows "clause_requires v value C required = (if sat_without v (asg value) C then required else Some (of_bool b))"
proof -
  have "list_ex (\<lambda>lit. LIT_VAR lit \<noteq> v \<and> value ! LIT_VAR lit = of_bool (LIT_POLARITY lit)) C \<longleftrightarrow> sat_without v (asg value) C"
    using bits_sat_lit [OF assms(1)] assms(2) by (auto simp: list_ex_iff sat_without_def sat_clause_def)
  moreover have "fold (\<lambda>lit required. if LIT_VAR lit = v then Some (of_bool (LIT_POLARITY lit)) else required) C required = Some (of_bool b)"
    using assms(3,4)
  proof (induction C arbitrary: required)
    case (Cons l C)
    have none: "fold (\<lambda>lit required. if LIT_VAR lit = v then Some (of_bool (LIT_POLARITY lit)) else required) D r = r"
      if "v \<notin> LIT_VAR ` set D" for D and r :: "int option" using that by (induction D arbitrary: r) auto
    have can: "canonical C" "LIT_VAR l \<notin> LIT_VAR ` set C" using Cons.prems(1) by (auto simp: canonical_def)
    show ?case
    proof (cases "l = LIT v b")
      case True
      then show ?thesis using none [of C] can by simp
    next
      case False
      then have "LIT v b \<in> set C" using Cons.prems(2) by simp
      then show ?thesis using Cons.IH [OF can(1)] by simp
    qed
  qed simp
  ultimately show ?thesis by (simp add: clause_requires_def)
qed

lemma fold_requires:
  assumes "bits n value"
    and "\<forall>C \<in> set Cs. canonical C \<and> (\<forall>l \<in> set C. LIT_VAR l < n) \<and> v \<in> LIT_VAR ` set C"
    and "\<forall>C \<in> set Cs. \<not> sat_without v (asg value) C \<longrightarrow> LIT v b \<in> set C"
  shows "fold (clause_requires v value) Cs r = (if \<exists>C \<in> set Cs. \<not> sat_without v (asg value) C then Some (of_bool b) else r)"
  using assms(2,3)
proof (induction Cs arbitrary: r)
  case (Cons C Cs)
  have "clause_requires v value C r = (if sat_without v (asg value) C then r else Some (of_bool b))"
  proof (cases "sat_without v (asg value) C")
    case True
    obtain c where "LIT v c \<in> set C" using Cons.prems(1) var_occurs [of v C] by auto
    then show ?thesis using clause_requires_eq [OF assms(1), of C v c] Cons.prems(1) True by simp
  next
    case False
    then show ?thesis using clause_requires_eq [OF assms(1), of C v b] Cons.prems by simp
  qed
  then show ?case using Cons by auto
qed simp

text \<open>Restoring the eliminated variable turns a model of the clauses after into one of the clauses before.\<close>

lemma restore_variable_correct:
  assumes vals: "bits n value" "bits n init" and v: "v < n"
    and F: "\<forall>C \<in> F. canonical C \<and> (\<forall>l \<in> set C. LIT_VAR l < n)"
    and P: "set P = {C \<in> F. LIT v True \<in> set C}" and N: "set N = {C \<in> F. LIT v False \<in> set C}"
    and R: "R = {r. \<exists>p \<in> set P. \<exists>q \<in> set N. canonicalize (resolvent v p q) = Some r}"
    and sat: "\<forall>C \<in> {C \<in> F. v \<notin> LIT_VAR ` set C} \<union> R. sat_clause (asg value) C"
  defines "value' \<equiv> restore_variable init (v, P @ N) value"
  shows "bits n value'" and "\<forall>C \<in> F. sat_clause (asg value') C"
proof -
  let ?un = "\<lambda>C. \<not> sat_without v (asg value) C"
  have PN: "\<forall>C \<in> set (P @ N). canonical C \<and> (\<forall>l \<in> set C. LIT_VAR l < n) \<and> v \<in> LIT_VAR ` set C"
    using F P N by (auto simp: var_occurs)
  have split: "sat_without v (asg value) p \<or> sat_without v (asg value) q" if "p \<in> set P" "q \<in> set N" for p q
  proof (cases "canonicalize (resolvent v p q)")
    case None
    then show ?thesis using canonicalize_None sat_resolvent by blast
  next
    case (Some r)
    then have "sat_clause (asg value) r" using sat that R by blast
    then show ?thesis using sat_clause_set canonicalize_Some [OF Some] sat_resolvent by metis
  qed
  obtain b where b: "\<forall>C \<in> set (P @ N). ?un C \<longrightarrow> LIT v b \<in> set C"
    using split P N by (cases "\<exists>p \<in> set P. ?un p") auto
  define x where "x = (case (if \<exists>C \<in> set (P @ N). ?un C then Some (of_bool b) else None) of None \<Rightarrow> init ! v | Some r \<Rightarrow> r)"
  have upd: "value' = value[v := x]"
    unfolding value'_def restore_variable_def x_def using fold_requires [OF vals(1) PN b, of None] by simp
  have "x = 0 \<or> x = 1" using bits_nth [OF vals(2) v] by (auto simp: x_def)
  then show "bits n value'" using bits_update vals(1) upd by simp
  have same: "sat_without v (asg value') C = sat_without v (asg value) C" for C
    by (rule sat_without_cong) (simp add: upd)
  show "\<forall>C \<in> F. sat_clause (asg value') C"
  proof
    fix C assume C: "C \<in> F"
    show "sat_clause (asg value') C"
    proof (cases "sat_without v (asg value) C")
      case True
      then show ?thesis using same sat_without_imp by blast
    next
      case False
      then have occ: "v \<in> LIT_VAR ` set C" using sat C sat_clause_without by blast
      then have mem: "C \<in> set (P @ N)" using C P N by (auto simp: var_occurs)
      then have "LIT v b \<in> set C" "x = of_bool b" using b False unfolding x_def by (blast, auto)
      moreover have "length value = n" using vals(1) by (simp add: bits_def)
      ultimately show ?thesis using v unfolding sat_clause_def by (intro bexI [of _ "LIT v b"]) (simp_all add: upd)
    qed
  qed
qed

lemma live_wf:
  assumes "bve_inv n s" "C \<in> set (live_clauses s)"
  shows "canonical C" and "\<And>l. l \<in> set C \<Longrightarrow> LIT_VAR l < n"
proof -
  from assms(2) obtain k where k: "k < length (clauses s)" "\<not> snd (clauses s ! k)" "C = fst (clauses s ! k)"
    unfolding set_live_clauses by blast
  show "canonical C" using bve_canonical [OF assms(1) k(1,2)] k(3) by simp
  fix l assume "l \<in> set C"
  then have "l < 2 * n" using bve_bound [OF assms(1) k(1,2)] k(3) by simp
  then show "LIT_VAR l < n" by (simp add: LIT_VAR_def)
qed

text \<open>One step, and the loop: models are kept forwards and restored backwards.\<close>

definition bve_step_ok :: "nat \<Rightarrow> bve_state \<Rightarrow> bve_state \<Rightarrow> bool" where
  "bve_step_ok n s s' \<longleftrightarrow> bve_inv n s' \<and> (\<forall>\<alpha>. sat_cnf \<alpha> (live_clauses s) \<longrightarrow> sat_cnf \<alpha> (live_clauses s'))
     \<and> (\<exists>ext. saved s' = saved s @ ext \<and> (\<forall>val init. bits n val \<longrightarrow> bits n init \<longrightarrow> sat_cnf (asg val) (live_clauses s') \<longrightarrow>
          bits n (fold (restore_variable init) (rev ext) val)
          \<and> sat_cnf (asg (fold (restore_variable init) (rev ext) val)) (live_clauses s)))"

lemma bve_step_ok_refl: "bve_inv n s \<Longrightarrow> bve_step_ok n s s"
  unfolding bve_step_ok_def by (intro conjI exI [of _ "[]"]) auto

lemma bve_step_ok_trans:
  assumes "bve_step_ok n s t" "bve_step_ok n t u"
  shows "bve_step_ok n s u"
proof -
  from assms(1) obtain e1 where 1: "saved t = saved s @ e1" "\<And>val init. bits n val \<Longrightarrow> bits n init \<Longrightarrow> sat_cnf (asg val) (live_clauses t) \<Longrightarrow>
      bits n (fold (restore_variable init) (rev e1) val) \<and> sat_cnf (asg (fold (restore_variable init) (rev e1) val)) (live_clauses s)"
    unfolding bve_step_ok_def by blast
  from assms(2) obtain e2 where 2: "saved u = saved t @ e2" "\<And>val init. bits n val \<Longrightarrow> bits n init \<Longrightarrow> sat_cnf (asg val) (live_clauses u) \<Longrightarrow>
      bits n (fold (restore_variable init) (rev e2) val) \<and> sat_cnf (asg (fold (restore_variable init) (rev e2) val)) (live_clauses t)"
    unfolding bve_step_ok_def by blast
  have "bits n (fold (restore_variable init) (rev (e1 @ e2)) val)
      \<and> sat_cnf (asg (fold (restore_variable init) (rev (e1 @ e2)) val)) (live_clauses s)"
    if "bits n val" "bits n init" "sat_cnf (asg val) (live_clauses u)" for val init
    using 1(2) [of "fold (restore_variable init) (rev e2) val" init] 2(2) [OF that] that(2) by simp
  then show ?thesis unfolding bve_step_ok_def using assms 1(1) 2(1)
    by (intro conjI exI [of _ "e1 @ e2"]) (auto simp: bve_step_ok_def)
qed

lemma eliminate_variable_ok:
  assumes inv: "bve_inv n s" and v: "v < n"
  shows "bve_step_ok n s (eliminate_variable v s)"
proof -
  let ?F = "set (live_clauses s)"
  have F: "\<forall>C \<in> ?F. canonical C \<and> (\<forall>l \<in> set C. LIT_VAR l < n)" using live_wf [OF inv] by blast
  show ?thesis
  proof (cases rule: eliminate_variable_cases [OF inv v refl, case_names same eliminated])
    case same
    then show ?thesis using bve_step_ok_refl inv by simp
  next
    case (eliminated P N R)
    let ?s = "eliminate_variable v s"
    have forward: "sat_clause \<alpha> r" if sat: "\<forall>C \<in> ?F. sat_clause \<alpha> C" and r: "r \<in> R" for \<alpha> r
    proof -
      obtain p q where pq: "p \<in> set P" "q \<in> set N" "canonicalize (resolvent v p q) = Some r" using r eliminated(4) by blast
      have "sat_without v \<alpha> p \<or> sat_without v \<alpha> q"
      proof (rule ccontr)
        assume no: "\<not> (sat_without v \<alpha> p \<or> sat_without v \<alpha> q)"
        have only: "\<alpha> v = b" if C: "C \<in> ?F" "LIT v b \<in> set C" "\<not> sat_without v \<alpha> C" for C b
        proof -
          obtain l where l: "l \<in> set C" "sat_lit \<alpha> l" "LIT_VAR l = v"
            using sat C(1,3) by (auto simp: sat_clause_def sat_without_def)
          have "inj_on LIT_VAR (set C)" using F C(1) by (auto simp: canonical_def distinct_map)
          then have "l = LIT v b" using inj_onD [of LIT_VAR "set C" l "LIT v b"] l(1,3) C(2) by simp
          then show ?thesis using l(2) by simp
        qed
        show False using only [of p True] only [of q False] pq(1,2) no eliminated(2,3) by auto
      qed
      then show ?thesis using canonicalize_Some [OF pq(3)] sat_clause_set sat_resolvent by metis
    qed
    have "bits n (restore_variable init (v, P @ N) val) \<and> sat_cnf (asg (restore_variable init (v, P @ N) val)) (live_clauses s)"
      if "bits n val" "bits n init" "sat_cnf (asg val) (live_clauses ?s)" for val init
      using restore_variable_correct [OF that(1,2) v F eliminated(2,3,4)] that(3) unfolding sat_cnf_def eliminated(5) by blast
    then show ?thesis
      unfolding bve_step_ok_def using eliminated(1,5,6) forward
      by (intro conjI exI [of _ "[(v, P @ N)]"]) (auto simp: sat_cnf_def)
  qed
qed

lemma eliminate_variables_ok:
  "eliminate_variables stop vs s = Some s' \<Longrightarrow> bve_inv n s \<Longrightarrow> \<forall>v \<in> set vs. v < n \<Longrightarrow> bve_step_ok n s s'"
proof (induction vs arbitrary: s)
  case (Cons v vs)
  have 1: "bve_step_ok n s (eliminate_variable v s)" using Cons.prems eliminate_variable_ok by simp
  then have inv: "bve_inv n (eliminate_variable v s)" unfolding bve_step_ok_def by blast
  have "bve_step_ok n (eliminate_variable v s) s'"
    by (rule Cons.IH [OF _ inv]) (use Cons.prems in \<open>auto split: if_splits\<close>)
  then show ?case using bve_step_ok_trans 1 by blast
qed (auto simp: bve_step_ok_refl)

lemma initial_state_ok:
  assumes "vars_below n input"
  shows "bve_inv n (initial_state input n)" and "saved (initial_state input n) = []"
    and "sat_cnf \<alpha> (live_clauses (initial_state input n)) \<longleftrightarrow> sat_cnf \<alpha> input"
proof -
  let ?s = "\<lparr>clauses = [], occurrence = replicate (2 * n) [], saved = []\<rparr>" and ?Cs = "List.map_filter canonicalize input"
  have Cs: "C' \<in> set ?Cs \<longleftrightarrow> (\<exists>C \<in> set input. canonicalize C = Some C')" for C'
    by (force simp: List.map_filter_def)
  have "\<forall>C \<in> set ?Cs. canonical C \<and> (\<forall>l \<in> set C. l < 2 * n)"
  proof
    fix C' assume "C' \<in> set ?Cs"
    then obtain C where C: "C \<in> set input" "set C' = set C" "canonical C'" using Cs canonicalize_Some by blast
    have "l < 2 * n" if "l \<in> set C'" for l
      using assms C(1,2) that unfolding vars_below_def LIT_VAR_def by force
    then show "canonical C' \<and> (\<forall>l \<in> set C'. l < 2 * n)" using C by blast
  qed
  moreover have "bve_inv n ?s" by (simp add: bve_inv_def)
  ultimately have all: "bve_inv n (initial_state input n) \<and> live_clauses (initial_state input n) = ?Cs \<and> saved (initial_state input n) = []"
    using push_clauses_inv [of n ?s ?Cs] by (simp add: initial_state_def live_clauses_def)
  then show "bve_inv n (initial_state input n)" "saved (initial_state input n) = []" by blast+
  have "sat_cnf \<alpha> ?Cs \<longleftrightarrow> sat_cnf \<alpha> input"
    unfolding sat_cnf_def using Cs canonicalize_Some canonicalize_None sat_clause_set
    by (metis option.exhaust)
  then show "sat_cnf \<alpha> (live_clauses (initial_state input n)) \<longleftrightarrow> sat_cnf \<alpha> input" using all by simp
qed

section \<open>Compaction\<close>

lemma used_variables_nth:
  assumes "\<forall>C \<in> set cs. \<forall>l \<in> set C. LIT_VAR l < n" "v < n"
  shows "used_variables cs n ! v \<longleftrightarrow> (\<exists>C \<in> set cs. v \<in> LIT_VAR ` set C)"
proof -
  have "fold (\<lambda>lit used. used[LIT_VAR lit := True]) ls us ! v \<longleftrightarrow> us ! v \<or> v \<in> LIT_VAR ` set ls"
    if "length us = n" for ls us
    using that assms(2) by (induction ls arbitrary: us) (auto, metis nth_list_update_eq nth_list_update_neq)
  from this [of "replicate n False" "concat cs"] show ?thesis using assms(2) by (simp add: used_variables_def image_iff)
qed

text \<open>The result of \<open>presolve\<close>, from the state after the loop.\<close>

lemma presolve_shape:
  assumes run: "presolve input n original stop = Some (cnf, bve)" and input: "vars_below n input" and "original \<le> n"
  obtains s remap where "bve_step_ok n (initial_state input n) s" "extension bve = saved s"
    "distinct (compact_to_original bve)" "\<forall>v \<in> set (compact_to_original bve). v < n"
    "\<forall>v \<in> set (take (model_variables bve) (compact_to_original bve)). v < original"
    "model_variables bve \<le> length (compact_to_original bve)"
    "\<forall>C \<in> set (live_clauses s). LIT_VAR ` set C \<subseteq> set (compact_to_original bve)"
    "\<forall>i < length (compact_to_original bve). nat (remap ! (compact_to_original bve ! i)) = i"
    "cnf = map (map (\<lambda>lit. LIT (nat (remap ! LIT_VAR lit)) (LIT_POLARITY lit))) (live_clauses s)"
proof -
  let ?s = "initial_state input n"
  from run obtain s where s: "eliminate_variables stop (elimination_order ?s n) ?s = Some s"
    by (auto simp: presolve_def Let_def split: option.splits)
  have ok: "bve_step_ok n ?s s"
    by (rule eliminate_variables_ok [OF s initial_state_ok(1) [OF input]]) (simp add: elimination_order_def)
  then have inv: "bve_inv n s" unfolding bve_step_ok_def by blast
  define used where "used = used_variables (live_clauses s) n"
  define model where "model = filter (\<lambda>v. used ! v) [0..<original]"
  define compact where "compact = model @ filter (\<lambda>v. used ! v) [original..<n]"
  define remap where "remap = fold (\<lambda>v remap. remap[compact ! v := int v]) [0..<length compact] (replicate n (- 1))"
  have res: "cnf = map (map (\<lambda>lit. LIT (nat (remap ! LIT_VAR lit)) (LIT_POLARITY lit))) (live_clauses s)"
    "bve = \<lparr>extension = saved s, compact_to_original = compact, model_variables = length model\<rparr>"
    using run s by (auto simp: presolve_def Let_def used_def model_def compact_def remap_def)
  have compact: "compact = filter (\<lambda>v. used ! v) [0..<n]"
    unfolding compact_def model_def filter_append [symmetric] using upt_append [of 0 original n] \<open>original \<le> n\<close> by simp
  have "used ! v \<longleftrightarrow> (\<exists>C \<in> set (live_clauses s). v \<in> LIT_VAR ` set C)" if "v < n" for v
    unfolding used_def using live_wf(2) [OF inv] that by (intro used_variables_nth) blast+
  then have sub: "\<forall>C \<in> set (live_clauses s). LIT_VAR ` set C \<subseteq> set compact"
    using live_wf(2) [OF inv] by (fastforce simp: compact)
  have d: "distinct compact" "\<forall>v \<in> set compact. v < n" by (simp_all add: compact)
  have r: "\<forall>i < length compact. nat (remap ! (compact ! i)) = i"
    unfolding remap_def using nth_inverse_permute [of compact "replicate n (- 1)" _ int] d by simp
  have m: "\<forall>v \<in> set (take (length model) compact). v < original" "length model \<le> length compact"
    by (simp_all add: compact_def model_def)
  have f: "extension bve = saved s" "compact_to_original bve = compact" "model_variables bve = length model"
    by (simp_all add: res(2))
  show thesis
    by (rule that [of s remap, unfolded f]) (fact ok refl d m sub r res(1))+
qed

section \<open>Property\<close>

lemma presolve_sound:
  assumes "presolve input n original_variables stop = Some (cnf, bve)" and "vars_below n input"
    and "original_variables \<le> n"
  shows "vars_below (length (compact_to_original bve)) cnf \<and> (\<forall>C \<in> set cnf. canonical C)
    \<and> ((\<exists>\<alpha>. sat_cnf \<alpha> input) \<longrightarrow> (\<exists>\<alpha>. sat_cnf \<alpha> cnf))
    \<and> (\<forall>compact init. bits (length (compact_to_original bve)) compact \<longrightarrow> bits n init \<longrightarrow> sat_cnf (asg compact) cnf \<longrightarrow>
         bits n (postsolve bve compact init) \<and> sat_cnf (asg (postsolve bve compact init)) input)"
proof -
  obtain s remap where
    s: "bve_step_ok n (initial_state input n) s" "extension bve = saved s"
    and d: "distinct (compact_to_original bve)" "\<forall>v \<in> set (compact_to_original bve). v < n"
    and sub: "\<forall>C \<in> set (live_clauses s). LIT_VAR ` set C \<subseteq> set (compact_to_original bve)"
    and inv: "\<forall>i < length (compact_to_original bve). nat (remap ! (compact_to_original bve ! i)) = i"
    and cnf: "cnf = map (map (\<lambda>lit. LIT (nat (remap ! LIT_VAR lit)) (LIT_POLARITY lit))) (live_clauses s)"
    by (rule presolve_shape [OF assms])
  let ?c = "compact_to_original bve" and ?r = "\<lambda>lit. LIT (nat (remap ! LIT_VAR lit)) (LIT_POLARITY lit)"
  have idx: "nat (remap ! v) < length ?c \<and> ?c ! nat (remap ! v) = v" if "v \<in> set ?c" for v
    using that inv by (auto simp: in_set_conv_nth)
  have below: "vars_below (length ?c) cnf" unfolding cnf vars_below_def using sub idx by fastforce
  have "canonical (map ?r C)" if C: "C \<in> set (live_clauses s)" for C
  proof -
    have "inj_on (\<lambda>v. nat (remap ! v)) (LIT_VAR ` set C)" using sub C idx by (intro inj_onI) (metis subsetD)
    moreover have "distinct (map LIT_VAR C)" using live_wf(1) [OF _ C] s(1) by (auto simp: bve_step_ok_def canonical_def)
    ultimately have "distinct (map (\<lambda>v. nat (remap ! v)) (map LIT_VAR C))" by (simp add: distinct_map comp_inj_on)
    then show ?thesis by (simp add: canonical_def comp_def)
  qed
  then have can: "\<forall>C \<in> set cnf. canonical C" by (auto simp: cnf)
  have sat: "sat_cnf \<beta> cnf \<longleftrightarrow> sat_cnf \<alpha> (live_clauses s)" if "\<And>i. i < length ?c \<Longrightarrow> \<alpha> (?c ! i) = \<beta> i" for \<alpha> \<beta>
  proof -
    have "sat_lit \<beta> (?r l) = sat_lit \<alpha> l" if "C \<in> set (live_clauses s)" "l \<in> set C" for C l
    proof -
      have "LIT_VAR l \<in> set ?c" using sub that by blast
      note i = idx [OF this]
      then have "\<beta> (nat (remap ! LIT_VAR l)) = \<alpha> (LIT_VAR l)"
        using \<open>\<And>i. i < length ?c \<Longrightarrow> \<alpha> (?c ! i) = \<beta> i\<close> [of "nat (remap ! LIT_VAR l)"] by simp
      then show ?thesis by (simp add: sat_lit_def)
    qed
    then show ?thesis by (simp add: sat_cnf_def sat_clause_def cnf)
  qed
  have "sat_cnf \<alpha> input \<Longrightarrow> sat_cnf (\<lambda>i. \<alpha> (?c ! i)) cnf" for \<alpha>
    using s(1) initial_state_ok(3) [OF assms(2)] sat [of \<alpha>] by (simp add: bve_step_ok_def)
  moreover have "bits n (postsolve bve compact init) \<and> sat_cnf (asg (postsolve bve compact init)) input"
    if b: "bits (length ?c) compact" "bits n init" and m: "sat_cnf (asg compact) cnf" for compact init
  proof -
    define val where "val = fold (\<lambda>i val. val[?c ! i := compact ! i]) [0..<length ?c] init"
    have "val ! (?c ! i) = compact ! i" if "i < length ?c" for i
      unfolding val_def using d b(2) that by (intro nth_inverse_permute) (auto simp: bits_def)
    then have "sat_cnf (asg val) (live_clauses s)" using sat [of "asg val" "asg compact"] m by simp
    moreover have "bits n val" unfolding val_def
      by (rule fold_invariant) (use b bits_nth [OF b(1)] in \<open>auto intro!: bits_update\<close>)
    moreover have "extension bve = saved (initial_state input n) @ ext \<Longrightarrow> postsolve bve compact init = fold (restore_variable init) (rev ext) val" for ext
      using initial_state_ok(2) [OF assms(2)] by (simp add: postsolve_def val_def)
    ultimately show ?thesis
      using s b(2) initial_state_ok(3) [OF assms(2)] unfolding bve_step_ok_def by metis
  qed
  ultimately show ?thesis using below can by blast
qed

text \<open>
  C8. \<open>presolve\<close> and \<open>postsolve\<close> are a correct pair: the clauses left after the elimination
  are canonical, use only the compacted variables and are satisfiable when the input is, and
  \<open>postsolve\<close> turns every 0/1 model of them into a 0/1 model of the input clauses, whatever the
  initial assignment was.
\<close>

theorem presolve_postsolve_correct:
  assumes "presolve input n original_variables stop = Some (cnf, bve)" and "vars_below n input"
    and "original_variables \<le> n"
  shows "vars_below (length (compact_to_original bve)) cnf \<and> (\<forall>C \<in> set cnf. canonical C)
    \<and> ((\<exists>\<alpha>. sat_cnf \<alpha> input) \<longrightarrow> (\<exists>\<alpha>. sat_cnf \<alpha> cnf))
    \<and> (\<forall>compact init. bits (length (compact_to_original bve)) compact \<longrightarrow> bits n init \<longrightarrow> sat_cnf (asg compact) cnf \<longrightarrow>
         bits n (postsolve bve compact init) \<and> sat_cnf (asg (postsolve bve compact init)) input)"
  by (rule presolve_sound [OF assms])

definition sample_input :: "clause list" where
  "sample_input = [[LIT 0 True, LIT 1 True], [LIT 0 False, LIT 2 True]]"

definition sample_bve :: sat_bve where
  "sample_bve = \<lparr>extension = [(0, [[LIT 0 True, LIT 1 True], [LIT 0 False, LIT 2 True]])],
     compact_to_original = [1, 2], model_variables = 2\<rparr>"

theorem presolve_postsolve_correct_witness:
  "presolve sample_input 3 3 (\<lambda>_. False) = Some ([[LIT 0 True, LIT 1 True]], sample_bve)
   \<and> postsolve sample_bve [1, 0] [0, 0, 0] = [0, 1, 0] \<and> sat_cnf (asg [0, 1, 0]) sample_input"
proof -
  have run: "presolve sample_input 3 3 (\<lambda>_. False) = Some ([[LIT 0 True, LIT 1 True]], sample_bve)" by code_simp
  have vars: "vars_below 3 sample_input" by (simp add: sample_input_def vars_below_def)
  have post: "postsolve sample_bve [1, 0] [0, 0, 0] = [0, 1, 0]" by code_simp
  have "bits (length (compact_to_original sample_bve)) [1, 0]" "bits 3 [0, 0, 0]" by (simp_all add: sample_bve_def bits_def)
  moreover have "sat_cnf (asg [1, 0]) [[LIT 0 True, LIT 1 True]]" by simp
  ultimately have "sat_cnf (asg (postsolve sample_bve [1, 0] [0, 0, 0])) sample_input"
    using presolve_postsolve_correct [OF run vars] by simp
  then show ?thesis using run post by simp
qed

end
