(* ===== verification/Random_Generators.thy ===== *)
theory Random_Generators
  imports Prelude "HOL-Library.Word" Complex_Main
begin

text \<open>
  The pseudorandom generators of \<open>utilities/splitmix64.hpp\<close> and
  \<open>utilities/pcgenerator.hpp\<close>. States are 64-bit words, so every sum and product wraps as in
  the code. A drawing operation returns the value and the generator after it. The draws from
  [0, 1) are rationals: a 53-bit (24-bit) number times a power of two is exact in a double
  (float). The two roundings of \<open>uniform\<close> are a parameter.
\<close>

unbundle bit_operations_syntax

section \<open>SplitMix64\<close>

record splitmix64 =
  sm_state :: "64 word"
  sm_stream :: "64 word"

definition sm_default_stream :: "64 word" where "sm_default_stream = 0x9E3779B97F4A7C15"

definition sm_next_state :: "splitmix64 \<Rightarrow> 64 word \<times> splitmix64" where
  "sm_next_state g = (sm_state g, g\<lparr>sm_state := sm_state g + sm_stream g\<rparr>)"

definition mix64 :: "64 word \<Rightarrow> 64 word" where
  "mix64 z =
     (let z = (z XOR drop_bit 30 z) * 0xBF58476D1CE4E5B9;
          z = (z XOR drop_bit 27 z) * 0x94D049BB133111EB
      in z XOR drop_bit 31 z)"

definition mix_stream :: "64 word \<Rightarrow> 64 word" where
  "mix_stream z =
     (let z = (z XOR drop_bit 33 z) * 0xFF51AFD7ED558CCD;
          z = (z XOR drop_bit 33 z) * 0xC4CEB9FE1A85EC53;
          z = z XOR drop_bit 33 z;
          z = z OR 1;
          b = z XOR drop_bit 1 z
      in if length (filter (bit b) [0..<64]) < 24 then z XOR 0xAAAAAAAAAAAAAAAA else z)"

definition sm_set_seed :: "64 word \<Rightarrow> 64 word \<Rightarrow> splitmix64" where
  "sm_set_seed seed stream = snd (sm_next_state \<lparr>sm_state = seed, sm_stream = stream\<rparr>)"

definition sm_next_u64 :: "splitmix64 \<Rightarrow> 64 word \<times> splitmix64" where
  "sm_next_u64 g = map_prod mix64 id (sm_next_state g)"

definition sm_next_u32 :: "splitmix64 \<Rightarrow> 32 word \<times> splitmix64" where
  "sm_next_u32 g = map_prod (\<lambda>v. ucast (drop_bit 32 v)) id (sm_next_u64 g)"

definition sm_next_i32 :: "splitmix64 \<Rightarrow> 32 word \<times> splitmix64" where
  "sm_next_i32 g = map_prod (\<lambda>v. v AND 0x7fffffff) id (sm_next_u32 g)"

definition sm_next_i64 :: "splitmix64 \<Rightarrow> 64 word \<times> splitmix64" where
  "sm_next_i64 g = map_prod (\<lambda>v. v AND 0x7fffffffffffffff) id (sm_next_u64 g)"

definition unit_double :: "64 word \<Rightarrow> rat" where
  "unit_double v = of_nat (unat (drop_bit 11 v)) / 2 ^ 53"

definition unit_float :: "32 word \<Rightarrow> rat" where
  "unit_float v = of_nat (unat (drop_bit 8 v)) / 2 ^ 24"

definition sm_next_float :: "splitmix64 \<Rightarrow> rat \<times> splitmix64" where
  "sm_next_float g = map_prod unit_float id (sm_next_u32 g)"

definition sm_next_double :: "splitmix64 \<Rightarrow> rat \<times> splitmix64" where
  "sm_next_double g = map_prod unit_double id (sm_next_u64 g)"

definition generate_stream :: "splitmix64 \<Rightarrow> 64 word \<times> splitmix64" where
  "generate_stream g = map_prod mix_stream id (sm_next_state (snd (sm_next_state g)))"

section \<open>PCG\<close>

record pcgenerator =
  pcg_state :: "64 word"
  pcg_stream :: "64 word"

definition pcg_multiplier :: "64 word" where "pcg_multiplier = 6364136223846793005"
definition pcg_default_stream :: "64 word" where "pcg_default_stream = 0xda3e39cb94b95bdb"

definition pcg_next_u32 :: "pcgenerator \<Rightarrow> 32 word \<times> pcgenerator" where
  "pcg_next_u32 g =
     (let oldstate = pcg_state g;
          g = g\<lparr>pcg_state := oldstate * pcg_multiplier + pcg_stream g\<rparr>;
          xorshifted = ucast (drop_bit 27 (drop_bit 18 oldstate XOR oldstate)) :: 32 word;
          rot = ucast (drop_bit 59 oldstate) :: 32 word
      in (drop_bit (unat rot) xorshifted OR push_bit (unat (- rot AND 31)) xorshifted, g))"

definition pcg_next_u64 :: "pcgenerator \<Rightarrow> 64 word \<times> pcgenerator" where
  "pcg_next_u64 g =
     (let (a, g) = pcg_next_u32 g; (b, g) = pcg_next_u32 g
      in (ucast a OR push_bit 32 (ucast b), g))"

definition pcg_next_i32 :: "pcgenerator \<Rightarrow> 32 word \<times> pcgenerator" where
  "pcg_next_i32 g = map_prod (\<lambda>v. v AND 0x7fffffff) id (pcg_next_u32 g)"

definition pcg_next_i64 :: "pcgenerator \<Rightarrow> 64 word \<times> pcgenerator" where
  "pcg_next_i64 g = map_prod (\<lambda>v. v AND 0x7fffffffffffffff) id (pcg_next_u64 g)"

definition pcg_next_float :: "pcgenerator \<Rightarrow> rat \<times> pcgenerator" where
  "pcg_next_float g = map_prod unit_float id (pcg_next_u32 g)"

definition pcg_next_double :: "pcgenerator \<Rightarrow> rat \<times> pcgenerator" where
  "pcg_next_double g = map_prod unit_double id (pcg_next_u64 g)"

function skipahead_loop ::
    "64 word \<Rightarrow> 64 word \<Rightarrow> 64 word \<Rightarrow> 64 word \<Rightarrow> 64 word \<Rightarrow> 64 word \<times> 64 word" where
  "skipahead_loop offset G h C f =
     (if offset = 0 then (G, C)
      else let (G, C) = (if offset AND 1 \<noteq> 0 then (G * h, C * h + f) else (G, C))
           in skipahead_loop (drop_bit 1 offset) G (h * h) C (f * (h + 1)))"
  by pat_completeness auto
termination
  by (relation "measure (\<lambda>(offset, _). unat offset)") (auto simp: unat_drop_bit_eq drop_bit_nat_def unat_gt_0)

declare skipahead_loop.simps [simp del]

definition skipahead :: "64 word \<Rightarrow> pcgenerator \<Rightarrow> pcgenerator" where
  "skipahead offset g =
     (let (G, C) = skipahead_loop offset 1 pcg_multiplier 0 (pcg_stream g)
      in g\<lparr>pcg_state := pcg_state g * G + C\<rparr>)"

definition pcg_set_seed :: "64 word \<Rightarrow> 64 word \<Rightarrow> 64 word \<Rightarrow> pcgenerator" where
  "pcg_set_seed seed subsequence offset =
     (let g = \<lparr>pcg_state = 0, pcg_stream = push_bit 1 subsequence OR 1\<rparr>;
          g = snd (pcg_next_u32 g);
          g = g\<lparr>pcg_state := pcg_state g + seed\<rparr>;
          g = snd (pcg_next_u32 g)
      in skipahead offset g)"

text \<open>
  \<open>uniform\<close> for an integer type: \<open>fl\<close> rounds the product and the sum to a double, the
  conversion back to the integer type truncates.
\<close>

definition truncate_int :: "rat \<Rightarrow> int" where
  "truncate_int x = (if x < 0 then - \<lfloor>- x\<rfloor> else \<lfloor>x\<rfloor>)"

definition uniform :: "(rat \<Rightarrow> rat) \<Rightarrow> int \<Rightarrow> int \<Rightarrow> pcgenerator \<Rightarrow> int \<times> pcgenerator" where
  "uniform fl low high g =
     (let (val, g) = pcg_next_double g; range = high - low
      in (truncate_int (fl (of_int low + fl (val * of_int range))), g))"

text \<open>A swap with a position past the end is undefined in the code and \<open>None\<close> here.\<close>

definition swap_at :: "nat \<Rightarrow> nat \<Rightarrow> 'a list \<Rightarrow> 'a list" where
  "swap_at i j xs = xs[i := xs ! j, j := xs ! i]"

fun shuffle_from :: "(rat \<Rightarrow> rat) \<Rightarrow> nat list \<Rightarrow> 'a list \<Rightarrow> pcgenerator \<Rightarrow> ('a list \<times> pcgenerator) option" where
  "shuffle_from fl [] seq g = Some (seq, g)"
| "shuffle_from fl (i # is) seq g =
     (let (r, g) = uniform fl (int i) (int (length seq)) g; j = nat r
      in if j = i then shuffle_from fl is seq g
         else if j < length seq then shuffle_from fl is (swap_at i j seq) g
         else None)"

definition shuffle :: "(rat \<Rightarrow> rat) \<Rightarrow> 'a list \<Rightarrow> pcgenerator \<Rightarrow> ('a list \<times> pcgenerator) option" where
  "shuffle fl seq g = (if seq = [] then Some (seq, g) else shuffle_from fl [0..<length seq - 1] seq g)"

section \<open>Skipping ahead\<close>

definition pcg_step :: "pcgenerator \<Rightarrow> pcgenerator" where
  "pcg_step g = g\<lparr>pcg_state := pcg_state g * pcg_multiplier + pcg_stream g\<rparr>"

lemma pcg_next_u32_step: "snd (pcg_next_u32 g) = pcg_step g"
  by (simp add: pcg_next_u32_def pcg_step_def Let_def)

abbreviation affine :: "64 word \<Rightarrow> 64 word \<Rightarrow> 64 word \<Rightarrow> 64 word" where
  "affine h f \<equiv> \<lambda>x. x * h + f"

lemma affine_square: "affine (h * h) (f * (h + 1)) = affine h f \<circ> affine h f"
  by (auto simp: algebra_simps)

lemma funpow_half:
  "(g ^^ n) x = ((g \<circ> g) ^^ (n div 2)) (if odd n then g x else x)"
proof -
  have "(g ^^ (2 * k)) y = ((g \<circ> g) ^^ k) y" for k y by (induction k) (auto simp: funpow_swap1)
  note even = this
  show ?thesis
  proof (cases "odd n")
    case True
    then have "(g ^^ n) x = (g ^^ (2 * (n div 2))) (g x)" by (metis Suc_eq_plus1 comp_apply funpow_Suc_right odd_two_times_div_two_succ)
    then show ?thesis using True unfolding even by simp
  next
    case False
    then show ?thesis using even [of "n div 2" x] by simp
  qed
qed

lemma skipahead_loop_spec:
  "skipahead_loop offset G h C f = (G', C') \<Longrightarrow> x * G' + C' = (affine h f ^^ unat offset) (x * G + C)"
proof (induction offset G h C f arbitrary: G' C' rule: skipahead_loop.induct)
  case (1 offset G h C f)
  show ?case
  proof (cases "offset = 0")
    case False
    define G1 C1 where "G1 = (if offset AND 1 \<noteq> 0 then G * h else G)" and "C1 = (if offset AND 1 \<noteq> 0 then C * h + f else C)"
    have odd: "offset AND 1 \<noteq> 0 \<longleftrightarrow> odd (unat offset)"
    proof -
      have "odd (unat offset) \<longleftrightarrow> bit offset 0" by (simp add: bit_unsigned_iff flip: bit_0)
      then show ?thesis by (simp add: and_one_eq bit_0 odd_iff_mod_2_eq_one)
    qed
    have half: "unat (drop_bit 1 offset) = unat offset div 2" by (simp add: unat_drop_bit_eq drop_bit_nat_def)
    have run: "skipahead_loop (drop_bit 1 offset) G1 (h * h) C1 (f * (h + 1)) = (G', C')"
      using "1.prems" False by (subst (asm) skipahead_loop.simps) (simp add: G1_def C1_def split: if_splits)
    have "x * G' + C' = (affine (h * h) (f * (h + 1)) ^^ (unat offset div 2)) (x * G1 + C1)"
      using "1.IH" [OF False refl _ , of G1 C1 G' C'] run False half by (simp add: G1_def C1_def split: if_splits)
    also have "\<dots> = (affine h f ^^ unat offset) (x * G + C)"
      unfolding affine_square funpow_half [of "unat offset"] by (auto simp: G1_def C1_def odd algebra_simps)
    finally show ?thesis .
  qed (use "1.prems" in \<open>simp add: skipahead_loop.simps\<close>)
qed

section \<open>The mixing function\<close>

lemma xorshift_inject:
  assumes "0 < k" and eq: "x XOR drop_bit k x = y XOR drop_bit k y"
  shows "x = (y :: 'a::len word)"
proof (rule bit_word_eqI)
  fix n
  show "n < LENGTH('a) \<Longrightarrow> bit x n = bit y n"
  proof (induction "LENGTH('a) - n" arbitrary: n rule: less_induct)
    case less
    have "bit (x XOR drop_bit k x) n = bit (y XOR drop_bit k y) n" using eq by simp
    then have "(bit x n \<noteq> bit x (k + n)) = (bit y n \<noteq> bit y (k + n))"
      by (simp add: bit_xor_iff bit_drop_bit_eq)
    moreover have "bit x (k + n) = bit y (k + n)"
    proof (cases "k + n < LENGTH('a)")
      case True
      then show ?thesis using less assms(1) by (intro less) auto
    next
      case False
      then show ?thesis by (auto dest: bit_imp_le_length)
    qed
    ultimately show ?case by blast
  qed
qed

lemma mult_inject: "a * c = b * c \<Longrightarrow> c * d = 1 \<Longrightarrow> a = b" for a b c d :: "'a::comm_ring_1"
  by (metis mult.assoc mult.right_neutral)

lemma mix64_inject: "mix64 x = mix64 y \<Longrightarrow> x = y"
  unfolding mix64_def Let_def
proof (drule xorshift_inject [rotated], simp)
  let ?a = "\<lambda>x :: 64 word. (x XOR drop_bit 30 x) * 0xBF58476D1CE4E5B9"
  assume "(?a x XOR drop_bit 27 (?a x)) * 0x94D049BB133111EB = (?a y XOR drop_bit 27 (?a y)) * 0x94D049BB133111EB"
  then have "?a x XOR drop_bit 27 (?a x) = ?a y XOR drop_bit 27 (?a y)"
    by (rule mult_inject [where d = "0x319642B2D24D8EC3"]) simp
  then have "?a x = ?a y" by (rule xorshift_inject [rotated]) simp
  then have "x XOR drop_bit 30 x = y XOR drop_bit 30 y"
    by (rule mult_inject [where d = "0x96DE1B173F119089"]) simp
  then show "x = y" by (rule xorshift_inject [rotated]) simp
qed

definition sm_output :: "splitmix64 \<Rightarrow> nat \<Rightarrow> 64 word" where
  "sm_output g i = fst (sm_next_u64 (((snd \<circ> sm_next_u64) ^^ i) g))"

lemma sm_output_eq: "sm_output g i = mix64 (sm_state g + of_nat i * sm_stream g)"
proof -
  have "sm_state (((snd \<circ> sm_next_u64) ^^ i) g) = sm_state g + of_nat i * sm_stream g
      \<and> sm_stream (((snd \<circ> sm_next_u64) ^^ i) g) = sm_stream g"
    by (induction i) (simp_all add: sm_next_u64_def sm_next_state_def algebra_simps)
  then show ?thesis by (simp add: sm_output_def sm_next_u64_def sm_next_state_def)
qed

lemma odd_mult_eq_0: "odd c \<Longrightarrow> w * c = 0 \<Longrightarrow> w = 0" for c w :: "64 word"
proof -
  assume c: "odd c" and "w * c = 0"
  then have "of_nat (unat w * unat c) = (0 :: 64 word)" by simp
  then have "2 ^ 64 dvd unat w * unat c" by (simp only: word_of_nat_eq_0_iff) simp
  moreover have "odd (unat c)" using c by (simp add: bit_unsigned_iff flip: bit_0)
  then have "coprime (2 ^ 64) (unat c)" by (simp only: coprime_power_left_iff coprime_left_2_iff_odd) simp
  ultimately have "2 ^ 64 dvd unat w" using coprime_dvd_mult_left_iff by blast
  moreover have "unat w < 2 ^ 64" using unsigned_less [of w, where 'a = nat] by simp
  ultimately show "w = 0" by (metis dvd_imp_le linorder_not_le neq0_conv unat_eq_zero)
qed

lemma odd_mult_inject:
  fixes c :: "64 word"
  assumes "odd c" "of_nat i * c = of_nat j * c" "i < 2 ^ 64" "j < 2 ^ 64"
  shows "i = j"
proof -
  have "(of_nat i - of_nat j) * c = 0" using assms(2) by (simp add: algebra_simps)
  then have "(of_nat i :: 64 word) = of_nat j" using odd_mult_eq_0 [OF assms(1)] eq_iff_diff_eq_0 by blast
  then have "take_bit 64 i = take_bit 64 j" by (simp add: word_of_nat_eq_iff)
  then show ?thesis using assms(3,4) by (simp add: take_bit_nat_eq_self)
qed

section \<open>Bounds\<close>

lemma unit_double_bounds: "0 \<le> unit_double v" "unit_double v < 1"
proof -
  have "unat (drop_bit 11 v) < 2 ^ 53"
    using unsigned_less [of v, where 'a = nat] by (simp add: unat_drop_bit_eq drop_bit_nat_def less_mult_imp_div_less)
  then have "(of_nat (unat (drop_bit 11 v)) :: rat) < of_nat (2 ^ 53)" by (simp only: of_nat_less_iff)
  then show "unit_double v < 1" by (simp add: unit_double_def)
  show "0 \<le> unit_double v" unfolding unit_double_def by (intro divide_nonneg_nonneg of_nat_0_le_iff) simp
qed

lemma unit_float_bounds: "0 \<le> unit_float v" "unit_float v < 1"
proof -
  have "unat (drop_bit 8 v) < 2 ^ 24"
    using unsigned_less [of v, where 'a = nat] by (simp add: unat_drop_bit_eq drop_bit_nat_def less_mult_imp_div_less)
  then have "(of_nat (unat (drop_bit 8 v)) :: rat) < of_nat (2 ^ 24)" by (simp only: of_nat_less_iff)
  then show "unit_float v < 1" by (simp add: unit_float_def)
  show "0 \<le> unit_float v" unfolding unit_float_def by (intro divide_nonneg_nonneg of_nat_0_le_iff) simp
qed

lemma truncate_bounds: "of_int a \<le> x \<Longrightarrow> x \<le> of_int b \<Longrightarrow> 0 \<le> a \<Longrightarrow> a \<le> truncate_int x \<and> truncate_int x \<le> b"
proof -
  assume x: "of_int a \<le> x" "x \<le> of_int b" "0 \<le> a"
  then have "0 \<le> x" using of_int_0_le_iff order_trans by blast
  then show ?thesis using x by (simp add: truncate_int_def le_floor_iff floor_le_iff)
qed

lemma uniform_bounds:
  assumes mono: "\<And>x y. x \<le> y \<Longrightarrow> fl x \<le> fl y" and int: "\<And>k. \<bar>k\<bar> \<le> 2 ^ 53 \<Longrightarrow> fl (of_int k) = of_int k"
    and lh: "0 \<le> low" "low < high" "high \<le> 2 ^ 53"
  shows "low \<le> fst (uniform fl low high g) \<and> fst (uniform fl low high g) \<le> high"
proof -
  obtain v g' where v: "pcg_next_u64 g = (v, g')" by fastforce
  let ?p = "unit_double v * of_int (high - low)"
  have "0 \<le> ?p" "?p \<le> of_int (high - low)"
    using unit_double_bounds [of v] lh(2) by (simp_all add: mult_left_le_one_le)
  then have "0 \<le> fl ?p" "fl ?p \<le> of_int (high - low)" using mono [of 0 ?p] mono [of ?p "of_int (high - low)"] int [of 0] int [of "high - low"] lh by simp_all
  then have "of_int low \<le> of_int low + fl ?p" "of_int low + fl ?p \<le> of_int high" by simp_all
  then have "of_int low \<le> fl (of_int low + fl ?p)" "fl (of_int low + fl ?p) \<le> of_int high"
    using mono [of "of_int low" "of_int low + fl ?p"] mono [of "of_int low + fl ?p" "of_int high"] int [of low] int [of high] lh by simp_all
  then show ?thesis
    using truncate_bounds lh(1) by (simp add: uniform_def pcg_next_double_def v Let_def)
qed

lemma uniform_exact:
  assumes "0 \<le> low" "low < high"
  shows "low \<le> fst (uniform (\<lambda>x. x) low high g) \<and> fst (uniform (\<lambda>x. x) low high g) < high"
proof -
  obtain v g' where v: "pcg_next_u64 g = (v, g')" by fastforce
  let ?p = "unit_double v * of_int (high - low)"
  have p: "0 \<le> ?p" "?p < of_int (high - low)" using unit_double_bounds [of v] assms(2) by simp_all
  then have "0 \<le> of_int low + ?p" "of_int low \<le> of_int low + ?p" "of_int low + ?p < of_int high" using assms(1) by auto
  then have "low \<le> \<lfloor>of_int low + ?p\<rfloor>" "\<lfloor>of_int low + ?p\<rfloor> < high" "\<not> of_int low + ?p < 0"
    by (simp_all only: le_floor_iff floor_less_iff not_less)
  then show ?thesis by (simp only: uniform_def pcg_next_double_def v Let_def truncate_int_def map_prod_simp prod.case id_apply fst_conv if_False)
qed

section \<open>Properties\<close>

text \<open>
  C38. Skipping ahead in the PCG generator with the logarithmic jump gives exactly the generator
  that the same number of single draws gives, for every 64-bit offset; so seeding with an offset
  is seeding without one followed by that many draws.
\<close>

theorem skipahead_correct:
  "skipahead offset g = (pcg_step ^^ unat offset) g
   \<and> pcg_set_seed seed subsequence offset = ((\<lambda>g. snd (pcg_next_u32 g)) ^^ unat offset) (pcg_set_seed seed subsequence 0)"
proof -
  have skip: "skipahead offset g = (pcg_step ^^ unat offset) g" for g
  proof -
    obtain G C where run: "skipahead_loop offset 1 pcg_multiplier 0 (pcg_stream g) = (G, C)" by fastforce
    have "(pcg_step ^^ n) g = g\<lparr>pcg_state := (affine pcg_multiplier (pcg_stream g) ^^ n) (pcg_state g)\<rparr>" for n
      by (induction n) (simp_all add: pcg_step_def)
    then show ?thesis using skipahead_loop_spec [OF run, of "pcg_state g"] by (simp add: skipahead_def run)
  qed
  moreover have "skipahead 0 g = g" for g by (simp add: skipahead_def skipahead_loop.simps)
  ultimately show ?thesis by (simp add: pcg_set_seed_def Let_def pcg_next_u32_step)
qed

text \<open>
  A SplitMix64 generator with an odd stream increment does not repeat a 64-bit output within
  2^64 draws (its mixing function is injective), and every increment that \<open>generate_stream\<close>
  returns is odd.
\<close>

theorem splitmix64_no_repetition:
  "(odd (sm_stream g) \<longrightarrow> inj_on (sm_output g) {..<2 ^ 64}) \<and> odd (fst (generate_stream h))"
proof (intro conjI impI inj_onI)
  fix i j assume "odd (sm_stream g)" "i \<in> {..<2 ^ 64}" "j \<in> {..<2 ^ 64}" "sm_output g i = sm_output g j"
  then show "i = j" using odd_mult_inject [of "sm_stream g" i j] mix64_inject by (fastforce simp: sm_output_eq)
next
  have "odd (mix_stream z)" for z
    by (simp add: mix_stream_def Let_def bit_xor_iff bit_or_iff flip: bit_0)
  then show "odd (fst (generate_stream h))" by (simp add: generate_stream_def sm_next_state_def)
qed

theorem splitmix64_no_repetition_witness:
  "odd (sm_stream (sm_set_seed 7 sm_default_stream)) \<and> inj_on (sm_output (sm_set_seed 7 sm_default_stream)) {..<2 ^ 64}"
proof -
  have "odd (sm_stream (sm_set_seed 7 sm_default_stream))"
    by (simp add: sm_set_seed_def sm_next_state_def sm_default_stream_def)
  then show ?thesis using splitmix64_no_repetition [of "sm_set_seed 7 sm_default_stream"] by blast
qed

lemma mset_swap_at: "i < length xs \<Longrightarrow> j < length xs \<Longrightarrow> mset (swap_at i j xs) = mset xs"
  unfolding swap_at_def by (metis mset_swap)

lemma shuffle_from_mset:
  "shuffle_from fl is seq g = Some (seq', g') \<Longrightarrow> \<forall>i \<in> set is. i < length seq \<Longrightarrow> mset seq' = mset seq"
proof (induction "is" arbitrary: seq g)
  case (Cons i "is")
  obtain r g1 where u: "uniform fl (int i) (int (length seq)) g = (r, g1)" by fastforce
  show ?case
    using Cons.prems Cons.IH [of seq g1] Cons.IH [of "swap_at i (nat r) seq" g1] mset_swap_at [of i seq "nat r"]
    by (auto simp: u Let_def swap_at_def split: if_splits)
qed simp

lemma shuffle_from_exact:
  "\<forall>i \<in> set is. i < length seq \<Longrightarrow> shuffle_from (\<lambda>x. x) is seq g \<noteq> None"
proof (induction "is" arbitrary: seq g)
  case (Cons i "is")
  obtain r g1 where u: "uniform (\<lambda>x. x) (int i) (int (length seq)) g = (r, g1)" by fastforce
  have "nat r < length seq" using uniform_exact [of "int i" "int (length seq)" g] Cons.prems by (simp add: u nat_less_iff)
  then show ?case using Cons by (simp add: u Let_def swap_at_def)
qed simp

lemma and_mask_nonneg:
  "0 \<le> sint (v AND 0x7fffffff :: 32 word)" "0 \<le> sint (w AND 0x7fffffffffffffff :: 64 word)"
  by (simp_all add: not_less [symmetric] bit_last_iff [symmetric] bit_and_iff)

text \<open>
  Draws stay in range: doubles and floats in [0, 1), signed draws non-negative. With any
  rounding that is monotone and exact on integers of at most 53 bits, \<open>uniform\<close> stays within
  [low, high]; without rounding it stays below high and \<open>shuffle\<close> succeeds. Whenever
  \<open>shuffle\<close> succeeds it returns a permutation of its argument.
\<close>

theorem draws_in_range:
  assumes "\<forall>x y. x \<le> y \<longrightarrow> fl x \<le> fl y" and "\<forall>k. \<bar>k\<bar> \<le> 2 ^ 53 \<longrightarrow> fl (of_int k) = of_int k"
    and "0 \<le> low" "low < high" "high \<le> 2 ^ 53"
  shows "0 \<le> fst (pcg_next_double g) \<and> fst (pcg_next_double g) < 1 \<and> 0 \<le> fst (pcg_next_float g) \<and> fst (pcg_next_float g) < 1
    \<and> 0 \<le> sint (fst (pcg_next_i32 g)) \<and> 0 \<le> sint (fst (pcg_next_i64 g))
    \<and> low \<le> fst (uniform fl low high g) \<and> fst (uniform fl low high g) \<le> high
    \<and> fst (uniform (\<lambda>x. x) low high g) < high \<and> shuffle (\<lambda>x. x) seq g \<noteq> None
    \<and> (\<forall>seq' g'. shuffle fl seq g = Some (seq', g') \<longrightarrow> mset seq' = mset seq)"
proof -
  have "shuffle (\<lambda>x. x) seq g \<noteq> None" using shuffle_from_exact [of "[0..<length seq - 1]" seq g] by (cases seq) (auto simp: shuffle_def)
  moreover have "mset seq' = mset seq" if "shuffle fl seq g = Some (seq', g')" for seq' g'
    using that shuffle_from_mset [of fl "[0..<length seq - 1]" seq g seq' g'] by (cases seq) (auto simp: shuffle_def)
  moreover have "low \<le> fst (uniform fl low high g) \<and> fst (uniform fl low high g) \<le> high"
    using assms by (intro uniform_bounds) auto
  ultimately show ?thesis
    using uniform_exact assms(3,4) unit_double_bounds unit_float_bounds and_mask_nonneg
    by (simp add: pcg_next_double_def pcg_next_float_def pcg_next_i32_def pcg_next_i64_def)
qed

theorem draws_in_range_witness:
  "0 \<le> fst (uniform (\<lambda>x. x) 1 5 (pcg_set_seed 3 pcg_default_stream 0)) \<and> fst (uniform (\<lambda>x. x) 1 5 (pcg_set_seed 3 pcg_default_stream 0)) < 5
   \<and> shuffle (\<lambda>x. x) [1, 2, 3 :: nat] (pcg_set_seed 3 pcg_default_stream 0) \<noteq> None"
  using draws_in_range [of "\<lambda>x. x" 1 5 "pcg_set_seed 3 pcg_default_stream 0" "[1, 2, 3 :: nat]"] by simp

end
