(* ===== verification/Sat_Order.thy ===== *)
theory Sat_Order
  imports Sat_Literals Random_Generators "HOL-Library.Product_Lexorder"
begin

text \<open>
  The order in which the clause search branches on variables, \<open>sat_variable_order_t\<close> of
  \<open>cdcl_sat_utils.hpp\<close>: a binary heap of variables with a position table, ordered by an activity
  that is bumped on conflicts. Activities are exact rationals.
\<close>

section \<open>Operations\<close>

record variable_order =
  heap :: "nat list"
  position :: "int list"
  activity :: "rat list"
  tie :: "64 word list"
  increment :: rat

definition not_in_heap :: int where "not_in_heap = - 1"
definition initial_activity_increment :: rat where "initial_activity_increment = 1"
definition activity_rescale_threshold :: rat where "activity_rescale_threshold = 10 ^ 100"
definition activity_rescale_factor :: rat where "activity_rescale_factor = 1 / 10 ^ 100"
definition initial_clause_activity :: rat where "initial_clause_activity = 1 / 1000"

fun draw_ties :: "nat \<Rightarrow> splitmix64 \<Rightarrow> 64 word list" where
  "draw_ties 0 g = []"
| "draw_ties (Suc n) g = (let (t, g) = sm_next_u64 g in t # draw_ties n g)"

definition sat_variable_order_t :: "nat \<Rightarrow> 64 word \<Rightarrow> variable_order" where
  "sat_variable_order_t n rng_seed =
     \<lparr>heap = [], position = replicate n not_in_heap, activity = replicate n 0,
      tie = draw_ties n (sm_set_seed rng_seed sm_default_stream), increment = initial_activity_increment\<rparr>"

definition order_empty :: "variable_order \<Rightarrow> bool" where
  "order_empty s \<longleftrightarrow> heap s = []"

definition add_initial_activity :: "nat \<Rightarrow> variable_order \<Rightarrow> variable_order" where
  "add_initial_activity v s = s\<lparr>activity := (activity s)[v := activity s ! v + initial_clause_activity]\<rparr>"

definition clear_activity :: "nat \<Rightarrow> variable_order \<Rightarrow> variable_order" where
  "clear_activity v s = s\<lparr>activity := (activity s)[v := 0]\<rparr>"

definition higher :: "variable_order \<Rightarrow> nat \<Rightarrow> nat \<Rightarrow> bool" where
  "higher s a b =
     (if activity s ! a \<noteq> activity s ! b then activity s ! a > activity s ! b else tie s ! a > tie s ! b)"

text \<open>Writing a variable to a heap slot together with its position.\<close>

definition place :: "nat \<Rightarrow> nat \<Rightarrow> variable_order \<Rightarrow> variable_order" where
  "place v p s = s\<lparr>heap := (heap s)[p := v], position := (position s)[v := int p]\<rparr>"

function heap_up_from :: "nat \<Rightarrow> nat \<Rightarrow> variable_order \<Rightarrow> variable_order" where
  "heap_up_from v p s =
     (if p = 0 then place v p s
      else let parent = (p - 1) div 2
           in if \<not> higher s v (heap s ! parent) then place v p s
              else heap_up_from v parent (place (heap s ! parent) p s))"
  by pat_completeness auto
termination by (relation "measure (\<lambda>(v, p, s). p)") auto

declare heap_up_from.simps [simp del]

definition heap_up :: "nat \<Rightarrow> variable_order \<Rightarrow> variable_order" where
  "heap_up p s = heap_up_from (heap s ! p) p s"

definition order_insert :: "nat \<Rightarrow> variable_order \<Rightarrow> variable_order" where
  "order_insert v s =
     (if position s ! v \<noteq> not_in_heap then s
      else heap_up (length (heap s)) (s\<lparr>position := (position s)[v := int (length (heap s))], heap := heap s @ [v]\<rparr>))"

definition build_heap :: "variable_order \<Rightarrow> variable_order" where
  "build_heap s = fold order_insert [0..<length (activity s)] s"

function heap_down_from :: "nat \<Rightarrow> nat \<Rightarrow> variable_order \<Rightarrow> variable_order" where
  "heap_down_from lst p s =
     (if \<not> 2 * p + 1 < length (heap s) then place lst p s
      else let child = 2 * p + 1;
               child = (if child + 1 < length (heap s) \<and> higher s (heap s ! (child + 1)) (heap s ! child) then child + 1 else child)
           in if \<not> higher s (heap s ! child) lst then place lst p s
              else heap_down_from lst child (place (heap s ! child) p s))"
  by pat_completeness auto
termination by (relation "measure (\<lambda>(v, p, s). length (heap s) - p)") (auto simp: place_def)

declare heap_down_from.simps [simp del]

definition pop_best :: "variable_order \<Rightarrow> nat \<times> variable_order" where
  "pop_best s =
     (let result = hd (heap s); lst = last (heap s);
          s = s\<lparr>heap := butlast (heap s), position := (position s)[result := not_in_heap]\<rparr>
      in (result, if heap s = [] then s else heap_down_from lst 0 s))"

definition bump :: "nat \<Rightarrow> variable_order \<Rightarrow> variable_order" where
  "bump v s =
     (let s = s\<lparr>activity := (activity s)[v := activity s ! v + increment s]\<rparr>;
          s = (if activity s ! v > activity_rescale_threshold
               then s\<lparr>activity := map (\<lambda>score. score * activity_rescale_factor) (activity s),
                      increment := increment s * activity_rescale_factor\<rparr>
               else s)
      in if position s ! v \<noteq> not_in_heap then heap_up (nat (position s ! v)) s else s)"

definition decay_activity :: "rat \<Rightarrow> variable_order \<Rightarrow> variable_order" where
  "decay_activity factor s = s\<lparr>increment := increment s / factor\<rparr>"

section \<open>The table of positions\<close>

definition order_inv :: "nat \<Rightarrow> variable_order \<Rightarrow> bool" where
  "order_inv n s \<longleftrightarrow> length (position s) = n \<and> length (activity s) = n \<and> length (tie s) = n
     \<and> distinct (heap s) \<and> (\<forall>v \<in> set (heap s). v < n)
     \<and> (\<forall>i < length (heap s). position s ! (heap s ! i) = int i)
     \<and> (\<forall>v < n. v \<notin> set (heap s) \<longrightarrow> position s ! v = not_in_heap)"

definition key :: "variable_order \<Rightarrow> nat \<Rightarrow> rat \<times> 64 word" where
  "key s v = (activity s ! v, tie s ! v)"

lemma higher_key: "higher s a b \<longleftrightarrow> key s b < key s a"
  by (auto simp: higher_def key_def)

lemma place_simps [simp]:
  "activity (place v p s) = activity s" "tie (place v p s) = tie s" "increment (place v p s) = increment s"
  "heap (place v p s) = (heap s)[p := v]" "key (place v p s) = key s"
  by (simp_all add: place_def key_def fun_eq_iff)

text \<open>Swapping two heap slots: what both sifting loops do to the heap with the moving variable in its hole.\<close>

definition swap_slots :: "nat \<Rightarrow> nat \<Rightarrow> variable_order \<Rightarrow> variable_order" where
  "swap_slots p q s = place (heap s ! p) q (place (heap s ! q) p s)"

lemma swap_slots_inv:
  assumes inv: "order_inv n s" and p: "p < length (heap s)" "q < length (heap s)" "p \<noteq> q"
  shows "order_inv n (swap_slots p q s)" and "mset (heap (swap_slots p q s)) = mset (heap s)"
    and "key (swap_slots p q s) = key s"
proof -
  let ?h = "heap s" and ?t = "swap_slots p q s"
  have h: "heap ?t = ?h[p := ?h ! q, q := ?h ! p]"
    by (simp add: swap_slots_def place_def)
  have pos: "position ?t = (position s)[?h ! q := int p, ?h ! p := int q]" by (simp add: swap_slots_def place_def)
  show m: "mset (heap ?t) = mset ?h" unfolding h using p by (simp add: mset_swap)
  have sets: "set (heap ?t) = set ?h" and d: "distinct (heap ?t)"
    using mset_eq_setD [OF m] mset_eq_imp_distinct_iff [OF m] inv by (auto simp: order_inv_def)
  have dh: "distinct ?h" and n: "\<And>i. i < length ?h \<Longrightarrow> ?h ! i < length (position s)"
    using inv by (auto simp: order_inv_def)
  have "position ?t ! (heap ?t ! i) = int i" if "i < length ?h" for i
    using that p inv dh n nth_eq_iff_index_eq [OF dh]
    unfolding pos h by (auto simp: nth_list_update order_inv_def)
  moreover have "position ?t ! v = not_in_heap" if "v < n" "v \<notin> set ?h" for v
  proof -
    have "v \<noteq> ?h ! p" "v \<noteq> ?h ! q" using that(2) p by (metis nth_mem)+
    then show ?thesis using that inv unfolding pos by (simp add: order_inv_def)
  qed
  ultimately show "order_inv n ?t"
    using inv d sets unfolding order_inv_def by (simp add: swap_slots_def place_def)
  show "key ?t = key s" by (simp add: swap_slots_def)
qed

lemma place_swap:
  "q \<noteq> p \<Longrightarrow> p < length (heap s) \<Longrightarrow> place v q (place (heap s ! q) p s) = swap_slots p q (place v p s)"
  by (cases "heap s ! q = v") (auto simp: swap_slots_def place_def list_update_swap)

section \<open>The heap property\<close>

abbreviation parent :: "nat \<Rightarrow> nat" where "parent i \<equiv> (i - 1) div 2"

lemma parent_less: "0 < i \<Longrightarrow> parent i < i"
  by simp

definition heap_ok :: "variable_order \<Rightarrow> bool" where
  "heap_ok s \<longleftrightarrow> (\<forall>i < length (heap s). 0 < i \<longrightarrow> key s (heap s ! i) \<le> key s (heap s ! parent i))"

text \<open>The heap property except between slot p and its parent, and except between slot p and its children.\<close>

definition heap_up_ok :: "nat \<Rightarrow> variable_order \<Rightarrow> bool" where
  "heap_up_ok p s \<longleftrightarrow> (\<forall>i < length (heap s). 0 < i \<longrightarrow> i \<noteq> p \<longrightarrow> key s (heap s ! i) \<le> key s (heap s ! parent i))
     \<and> (\<forall>i < length (heap s). 0 < i \<longrightarrow> parent i = p \<longrightarrow> 0 < p \<longrightarrow> key s (heap s ! i) \<le> key s (heap s ! parent p))"

definition heap_down_ok :: "nat \<Rightarrow> variable_order \<Rightarrow> bool" where
  "heap_down_ok p s \<longleftrightarrow> (\<forall>i < length (heap s). 0 < i \<longrightarrow> parent i \<noteq> p \<longrightarrow> key s (heap s ! i) \<le> key s (heap s ! parent i))
     \<and> (\<forall>i < length (heap s). 0 < i \<longrightarrow> parent i = p \<longrightarrow> 0 < p \<longrightarrow> key s (heap s ! i) \<le> key s (heap s ! parent p))"

lemma heap_swap:
  "p < length (heap s) \<Longrightarrow> q < length (heap s) \<Longrightarrow>
   heap (swap_slots p q s) ! i = (if i = q then heap s ! p else if i = p then heap s ! q else heap s ! i)"
  by (auto simp: swap_slots_def place_def nth_list_update)

lemma heap_up_swap:
  assumes ok: "heap_up_ok p s" and p: "0 < p" "p < length (heap s)" and hi: "key s (heap s ! parent p) < key s (heap s ! p)"
  shows "heap_up_ok (parent p) (swap_slots p (parent p) s)"
proof -
  let ?q = "parent p" and ?t = "swap_slots p (parent p) s" and ?k = "\<lambda>i. key s (heap s ! i)"
  have q: "?q < p" "?q < length (heap s)" using p by auto
  have first: "?k i \<le> ?k (parent i)" if "i < length (heap s)" "0 < i" "i \<noteq> p" for i using ok that by (simp add: heap_up_ok_def)
  have second: "?k i \<le> ?k ?q" if "i < length (heap s)" "0 < i" "parent i = p" for i using ok p that by (simp add: heap_up_ok_def)
  have kt: "key ?t (heap ?t ! i) = (if i = ?q then ?k p else if i = p then ?k ?q else ?k i)" for i
    using heap_swap [OF p(2) q(2), of i] by (auto simp: swap_slots_def)
  have len: "length (heap ?t) = length (heap s)" by (simp add: swap_slots_def)
  have "key ?t (heap ?t ! i) \<le> key ?t (heap ?t ! parent i)" if i: "i < length (heap s)" "0 < i" "i \<noteq> ?q" for i
  proof (cases "i = p")
    case True
    then show ?thesis using hi q unfolding kt by simp
  next
    case False
    then have "i \<noteq> p" .
    then show ?thesis
      using first [OF i(1,2)] second [OF i(1,2)] hi i(3) unfolding kt
      by (cases "parent i = p"; cases "parent i = ?q") (auto intro: order_trans less_imp_le)
  qed
  moreover have "key ?t (heap ?t ! i) \<le> key ?t (heap ?t ! parent ?q)" if i: "i < length (heap s)" "0 < i" "parent i = ?q" "0 < ?q" for i
  proof -
    have "?k ?q \<le> ?k (parent ?q)" using first [of ?q] q i(4) by simp
    moreover have "parent ?q \<noteq> ?q" "parent ?q \<noteq> p" "i \<noteq> ?q" using parent_less [OF i(4)] parent_less [OF i(2)] i(3) q by linarith+
    ultimately show ?thesis unfolding kt using first [OF i(1,2)] i(3) by (auto intro: order_trans)
  qed
  ultimately show ?thesis unfolding heap_up_ok_def len by blast
qed

lemma heap_up_from_spec:
  assumes "p < length (heap s)" "order_inv n (place v p s)"
  shows "order_inv n (heap_up_from v p s) \<and> mset (heap (heap_up_from v p s)) = mset (heap (place v p s))
    \<and> key (heap_up_from v p s) = key s \<and> increment (heap_up_from v p s) = increment s
    \<and> (heap_up_ok p (place v p s) \<longrightarrow> heap_ok (heap_up_from v p s))"
  using assms
proof (induction v p s rule: heap_up_from.induct)
  case (1 v p s)
  let ?t = "place v p s" and ?q = "parent p"
  show ?case
  proof (cases "0 < p \<and> higher s v (heap s ! ?q)")
    case True
    then have p: "0 < p" and hi: "higher s v (heap s ! ?q)" by auto
    have q: "?q \<noteq> p" "?q < length (heap s)" using p "1.prems"(1) by auto
    have run: "heap_up_from v p s = heap_up_from v ?q (place (heap s ! ?q) p s)"
      using True by (subst heap_up_from.simps) (simp add: Let_def)
    have sw: "place v ?q (place (heap s ! ?q) p s) = swap_slots p ?q ?t" by (rule place_swap [OF q(1) "1.prems"(1)])
    have inv: "order_inv n (swap_slots p ?q ?t)" "mset (heap (swap_slots p ?q ?t)) = mset (heap ?t)"
      using swap_slots_inv [OF "1.prems"(2), of p ?q] q "1.prems"(1) by auto
    have "heap_up_ok ?q (swap_slots p ?q ?t)" if "heap_up_ok p ?t"
      using heap_up_swap [OF that p] hi "1.prems"(1) q(1) by (simp add: higher_key)
    then show ?thesis
      using "1.IH" [of ?q] True q inv unfolding run sw [symmetric] by simp
  next
    case False
    then have run: "heap_up_from v p s = ?t" by (subst heap_up_from.simps) (auto simp: Let_def)
    have "heap_ok ?t" if "heap_up_ok p ?t"
    proof -
      have "p = 0 \<or> key ?t (heap ?t ! p) \<le> key ?t (heap ?t ! ?q)"
        using False "1.prems"(1) by (cases p) (auto simp: higher_key not_less)
      then show ?thesis using that unfolding heap_ok_def heap_up_ok_def by blast
    qed
    then show ?thesis using "1.prems"(2) by (simp add: run)
  qed
qed

lemma heap_down_swap:
  assumes ok: "heap_down_ok p s" and c: "0 < c" "c < length (heap s)" "parent c = p"
    and hi: "key s (heap s ! p) < key s (heap s ! c)"
    and best: "\<And>i. i < length (heap s) \<Longrightarrow> 0 < i \<Longrightarrow> parent i = p \<Longrightarrow> key s (heap s ! i) \<le> key s (heap s ! c)"
  shows "heap_down_ok c (swap_slots p c s)"
proof -
  let ?t = "swap_slots p c s" and ?k = "\<lambda>i. key s (heap s ! i)"
  have p: "p < c" "p < length (heap s)" using c parent_less [OF c(1)] by simp_all
  have first: "?k i \<le> ?k (parent i)" if "i < length (heap s)" "0 < i" "parent i \<noteq> p" for i using ok that by (simp add: heap_down_ok_def)
  have second: "0 < p \<Longrightarrow> ?k c \<le> ?k (parent p)" using ok c by (simp add: heap_down_ok_def)
  have kt: "key ?t (heap ?t ! i) = (if i = c then ?k p else if i = p then ?k c else ?k i)" for i
    using heap_swap [OF p(2) c(2), of i] by (auto simp: swap_slots_def)
  have len: "length (heap ?t) = length (heap s)" by (simp add: swap_slots_def)
  have "key ?t (heap ?t ! i) \<le> key ?t (heap ?t ! parent i)" if i: "i < length (heap s)" "0 < i" "parent i \<noteq> c" for i
  proof -
    consider (c) "i = c" | (p) "i = p" | (sib) "i \<noteq> c" "i \<noteq> p" "parent i = p" | (other) "i \<noteq> c" "i \<noteq> p" "parent i \<noteq> p" by blast
    then show ?thesis
    proof cases
      case c
      then show ?thesis using hi p \<open>parent c = p\<close> unfolding kt by simp
    next
      case p
      then have "0 < p" using i(2) by simp
      then show ?thesis using second parent_less [of p] \<open>p < c\<close> p unfolding kt by simp
    next
      case sib
      then show ?thesis using best [OF i(1,2)] i(3) unfolding kt by simp
    next
      case other
      then show ?thesis using first [OF i(1,2)] i(3) unfolding kt by simp
    qed
  qed
  moreover have "key ?t (heap ?t ! i) \<le> key ?t (heap ?t ! parent c)" if i: "i < length (heap s)" "0 < i" "parent i = c" "0 < c" for i
  proof -
    have "i \<noteq> c" "i \<noteq> p" using parent_less [OF i(2)] i(3) p by linarith+
    moreover have "?k i \<le> ?k c" using first [OF i(1,2)] i(3) p by simp
    ultimately show ?thesis using p c(3) unfolding kt by simp
  qed
  ultimately show ?thesis unfolding heap_down_ok_def len by blast
qed

lemma children: "0 < i \<Longrightarrow> parent i = p \<Longrightarrow> i = 2 * p + 1 \<or> i = 2 * p + 2"
  by auto

lemma heap_down_from_spec:
  assumes "p < length (heap s)" "order_inv n (place v p s)"
  shows "order_inv n (heap_down_from v p s) \<and> mset (heap (heap_down_from v p s)) = mset (heap (place v p s))
    \<and> key (heap_down_from v p s) = key s \<and> increment (heap_down_from v p s) = increment s
    \<and> (heap_down_ok p (place v p s) \<longrightarrow> heap_ok (heap_down_from v p s))"
  using assms
proof (induction v p s rule: heap_down_from.induct)
  case (1 v p s)
  let ?t = "place v p s" and ?h = "heap s"
  define c where "c = (if 2 * p + 1 + 1 < length ?h \<and> higher s (?h ! (2 * p + 1 + 1)) (?h ! (2 * p + 1)) then 2 * p + 1 + 1 else 2 * p + 1)"
  have hp: "heap ?t ! p = v" "\<And>i. i \<noteq> p \<Longrightarrow> heap ?t ! i = ?h ! i" "length (heap ?t) = length ?h" using "1.prems"(1) by simp_all
  have best: "key s (?h ! i) \<le> key s (?h ! c)" if "i < length ?h" "0 < i" "parent i = p" for i
    using children [OF that(2,3)] that(1) by (auto simp: c_def higher_key not_less)
  have cp: "0 < c" "parent c = p" "c \<noteq> p" by (auto simp: c_def)
  show ?case
  proof (cases "2 * p + 1 < length ?h \<and> higher s (?h ! c) v")
    case True
    then have c: "c < length ?h" by (auto simp: c_def)
    have run: "heap_down_from v p s = heap_down_from v c (place (?h ! c) p s)"
      using True by (subst heap_down_from.simps) (simp add: Let_def c_def cong: if_cong)
    have sw: "place v c (place (?h ! c) p s) = swap_slots p c ?t" by (rule place_swap [OF cp(3) "1.prems"(1)])
    have inv: "order_inv n (swap_slots p c ?t)" "mset (heap (swap_slots p c ?t)) = mset (heap ?t)"
      using swap_slots_inv [OF "1.prems"(2), of p c] c cp "1.prems"(1) by auto
    have "heap_down_ok c (swap_slots p c ?t)" if "heap_down_ok p ?t"
    proof (rule heap_down_swap [OF that cp(1)])
      show "key ?t (heap ?t ! i) \<le> key ?t (heap ?t ! c)" if "i < length (heap ?t)" "0 < i" "parent i = p" for i
        using best [of i] that parent_less [OF that(2)] cp(3) by simp
    qed (use True c cp hp in \<open>simp_all add: higher_key\<close>)
    then show ?thesis
      using "1.IH" [OF _ refl c_def] True c inv unfolding run sw [symmetric] by simp
  next
    case False
    then have run: "heap_down_from v p s = ?t" by (subst heap_down_from.simps) (auto simp: Let_def c_def)
    have "heap_ok ?t" if ok: "heap_down_ok p ?t"
      unfolding heap_ok_def
    proof (intro allI impI)
      fix i assume i: "i < length (heap ?t)" "0 < i"
      show "key ?t (heap ?t ! i) \<le> key ?t (heap ?t ! parent i)"
      proof (cases "parent i = p")
        case True
        then have "2 * p + 1 < length ?h" using children [OF i(2)] i(1) by fastforce
        then have "key s (?h ! c) \<le> key s v" using False by (simp add: higher_key not_less)
        moreover have "i \<noteq> p" using parent_less [OF i(2)] True by linarith
        ultimately show ?thesis using best [of i] i True hp by (simp only: place_simps) (metis order_trans)
      qed (use ok i in \<open>simp add: heap_down_ok_def\<close>)
    qed
    then show ?thesis using "1.prems"(2) by (simp add: run)
  qed
qed

section \<open>Operations keep the order\<close>

definition order_good :: "nat \<Rightarrow> variable_order \<Rightarrow> bool" where
  "order_good n s \<longleftrightarrow> order_inv n s \<and> heap_ok s \<and> 0 < increment s"

abbreviation members :: "variable_order \<Rightarrow> nat set" where
  "members s \<equiv> set (heap s)"

lemma place_same: "order_inv n s \<Longrightarrow> p < length (heap s) \<Longrightarrow> place (heap s ! p) p s = s"
  by (simp add: place_def order_inv_def list_update_same_conv)

lemma position_in: "order_inv n s \<Longrightarrow> v < n \<Longrightarrow> position s ! v \<noteq> not_in_heap \<longleftrightarrow> v \<in> members s"
  unfolding order_inv_def not_in_heap_def in_set_conv_nth
  by (metis of_nat_0_le_iff neg_0_le_iff_le not_one_le_zero of_nat_1 of_nat_less_0_iff neg_less_0_iff_less zero_less_one)

lemma heap_up_good:
  assumes "order_inv n s" "p < length (heap s)" "heap_up_ok p s" "0 < increment s"
  shows "order_good n (heap_up p s) \<and> members (heap_up p s) = members s \<and> key (heap_up p s) = key s"
proof -
  have "order_inv n (heap_up p s) \<and> mset (heap (heap_up p s)) = mset (heap s) \<and> key (heap_up p s) = key s
      \<and> increment (heap_up p s) = increment s \<and> heap_ok (heap_up p s)"
    using heap_up_from_spec [of p s n "heap s ! p"] assms place_same [OF assms(1,2)] by (simp add: heap_up_def)
  moreover from this have "members (heap_up p s) = members s" by (intro mset_eq_setD) simp
  ultimately show ?thesis using assms(4) by (simp add: order_good_def)
qed

lemma insert_good:
  assumes good: "order_good n s" and v: "v < n"
  shows "order_good n (order_insert v s)" and "members (order_insert v s) = insert v (members s)"
    and "key (order_insert v s) = key s"
proof -
  let ?k = "length (heap s)" and ?s = "s\<lparr>position := (position s)[v := int (length (heap s))], heap := heap s @ [v]\<rparr>"
  have inv: "order_inv n s" using good by (simp add: order_good_def)
  have *: "order_good n (order_insert v s) \<and> members (order_insert v s) = insert v (members s) \<and> key (order_insert v s) = key s"
  proof (cases "v \<in> members s")
    case True
    then show ?thesis using good position_in [OF inv v] by (auto simp: order_insert_def)
  next
    case False
    have "order_inv n ?s"
      using inv v False unfolding order_inv_def by (auto simp: nth_append nth_list_update less_Suc_eq)
    moreover have kk: "key ?s = key s" by (simp add: key_def fun_eq_iff)
    moreover have "heap_up_ok ?k ?s"
      unfolding heap_up_ok_def kk
    proof (intro conjI allI impI)
      fix i assume "i < length (heap ?s)" and i: "0 < i" "i \<noteq> ?k"
      then have "i < ?k" "parent i < ?k" by auto
      then show "key s (heap ?s ! i) \<le> key s (heap ?s ! parent i)"
        using good i(1) by (simp add: nth_append order_good_def heap_ok_def)
    next
      fix i assume "i < length (heap ?s)" "0 < i" "parent i = ?k"
      then show "key s (heap ?s ! i) \<le> key s (heap ?s ! parent ?k)" using parent_less [of i] by simp
    qed
    ultimately have "order_good n (heap_up ?k ?s) \<and> members (heap_up ?k ?s) = members ?s \<and> key (heap_up ?k ?s) = key s"
      using heap_up_good [of n ?s ?k] good by (simp add: order_good_def)
    then show ?thesis using False position_in [OF inv v] by (auto simp: order_insert_def)
  qed
  then show "order_good n (order_insert v s)" "members (order_insert v s) = insert v (members s)" "key (order_insert v s) = key s"
    by blast+
qed

lemma heap_max:
  assumes "heap_ok s" "i < length (heap s)"
  shows "key s (heap s ! i) \<le> key s (heap s ! 0)"
  using assms(2)
proof (induction i rule: less_induct)
  case (less i)
  show ?case
  proof (cases "i = 0")
    case False
    then have "key s (heap s ! i) \<le> key s (heap s ! parent i)" using assms(1) less.prems by (simp add: heap_ok_def)
    also have "\<dots> \<le> key s (heap s ! 0)" using less False by (intro less.IH) auto
    finally show ?thesis .
  qed simp
qed

lemma pop_good:
  assumes good: "order_good n s" and ne: "heap s \<noteq> []" and pop: "pop_best s = (v, s')"
  shows "order_good n s'" and "v \<in> members s" and "members s' = members s - {v}" and "key s' = key s"
    and "\<And>u. u \<in> members s \<Longrightarrow> \<not> higher s u v"
proof -
  have inv: "order_inv n s" and ok: "heap_ok s" using good by (simp_all add: order_good_def)
  have v: "v = heap s ! 0" using pop ne by (simp add: pop_best_def Let_def hd_conv_nth)
  show "v \<in> members s" using v ne by simp
  show "\<not> higher s u v" if u: "u \<in> members s" for u
    using heap_max [OF ok] u v by (auto simp: in_set_conv_nth higher_key not_less)
  define s1 where "s1 = s\<lparr>heap := butlast (heap s), position := (position s)[v := not_in_heap]\<rparr>"
  have s': "s' = (if heap s1 = [] then s1 else heap_down_from (last (heap s)) 0 s1)"
    using pop ne v by (auto simp: pop_best_def Let_def s1_def hd_conv_nth)
  have "order_good n s' \<and> members s' = members s - {v} \<and> key s' = key s"
  proof (cases "heap s1 = []")
    case True
    then have "heap s = [v]" using v ne by (metis append_butlast_last_id append_Nil nth_Cons_0 s1_def variable_order.simps(1) variable_order.surjective variable_order.update_convs(1,2))
    then show ?thesis using True s' good
      by (auto simp: s1_def order_good_def order_inv_def heap_ok_def key_def fun_eq_iff nth_list_update)
  next
    case False
    then obtain a mid l where h: "heap s = a # mid @ [l]"
      using ne by (metis append_butlast_last_id butlast.simps(2) list.exhaust s1_def variable_order.simps(1) variable_order.surjective variable_order.update_convs(1,2))
    let ?t = "place l 0 s1"
    have a: "a = v" using v h by simp
    have ht: "heap ?t = l # mid" using h by (simp add: s1_def butlast_append)
    have pt: "position ?t = (position s)[v := not_in_heap, l := 0]" by (simp add: place_def s1_def)
    have dist: "distinct (v # mid @ [l])" using inv h a by (simp add: order_inv_def)
    have pos: "position s ! (mid ! i) = int (Suc i)" if "i < length mid" for i
    proof -
      have "\<forall>i < length (heap s). position s ! (heap s ! i) = int i" using inv unfolding order_inv_def by blast
      then have "position s ! (heap s ! Suc i) = int (Suc i)" using that h by (auto dest: spec [of _ "Suc i"])
      then show ?thesis using that h by (simp add: nth_append)
    qed
    have bounds: "length (position s) = n" "v < n" "l < n" "\<forall>u \<in> set mid. u < n" using inv h a by (auto simp: order_inv_def)
    have posm: "position ?t ! (mid ! i) = int (Suc i)" if "i < length mid" for i
    proof -
      have "mid ! i \<noteq> v" "mid ! i \<noteq> l" using dist that nth_mem by fastforce+
      then show ?thesis using pos [OF that] by (simp add: pt)
    qed
    have "order_inv n ?t"
      unfolding order_inv_def
    proof (intro conjI allI impI ballI)
      fix i assume "i < length (heap ?t)"
      then show "position ?t ! (heap ?t ! i) = int i" using posm bounds dist unfolding ht by (cases i) (simp_all add: pt)
    next
      fix u assume u: "u < n" "u \<notin> members ?t"
      show "position ?t ! u = not_in_heap"
      proof (cases "u = v")
        case True
        then show ?thesis using u bounds unfolding ht by (simp add: pt)
      next
        case False
        then have "u \<notin> members s" using u h a unfolding ht by simp
        then show ?thesis using u False inv unfolding ht order_inv_def by (simp add: pt)
      qed
    qed (use inv bounds dist ht in \<open>auto simp: order_inv_def s1_def place_def\<close>)
    moreover have "heap_down_ok 0 ?t"
    proof -
      have same: "heap ?t ! i = heap s ! i" if "0 < i" "i < length (heap ?t)" for i
        using that h unfolding ht by (cases i) (auto simp: nth_append)
      have kt: "key ?t = key s" by (simp add: s1_def key_def fun_eq_iff)
      have "key s (heap ?t ! i) \<le> key s (heap ?t ! parent i)" if "i < length (heap ?t)" "0 < i" "parent i \<noteq> 0" for i
      proof -
        have "i < length (heap s)" "parent i < length (heap ?t)" using that h unfolding ht by auto
        moreover from this have "key s (heap s ! i) \<le> key s (heap s ! parent i)" using ok that(2) by (simp add: heap_ok_def)
        ultimately show ?thesis using same [OF that(2,1)] same [of "parent i"] that(3) by simp
      qed
      then show ?thesis unfolding heap_down_ok_def kt by simp
    qed
    moreover have "0 < length (heap s1)" using False by simp
    ultimately have "order_inv n s' \<and> mset (heap s') = mset (l # mid) \<and> key s' = key s1 \<and> increment s' = increment s1 \<and> heap_ok s'"
      using heap_down_from_spec [of 0 s1 n l] s' False h ht by simp
    moreover have "key s1 = key s" "increment s1 = increment s" by (simp_all add: s1_def key_def fun_eq_iff)
    moreover from calculation have "members s' = set (l # mid)" by (intro mset_eq_setD) simp
    ultimately show ?thesis using good h a dist by (auto simp: order_good_def)
  qed
  then show "order_good n s'" "members s' = members s - {v}" "key s' = key s" by blast+
qed

lemma bump_good:
  assumes good: "order_good n s" and v: "v < n"
  shows "order_good n (bump v s)" and "members (bump v s) = members s"
proof -
  define s1 where "s1 = s\<lparr>activity := (activity s)[v := activity s ! v + increment s]\<rparr>"
  define s2 where "s2 = (if activity s1 ! v > activity_rescale_threshold
               then s1\<lparr>activity := map (\<lambda>score. score * activity_rescale_factor) (activity s1),
                      increment := increment s1 * activity_rescale_factor\<rparr> else s1)"
  have inv: "order_inv n s" and ok: "heap_ok s" and pos: "0 < increment s" using good by (simp_all add: order_good_def)
  have f: "0 < activity_rescale_factor" by (simp add: activity_rescale_factor_def)
  have len: "length (activity s) = n" "length (activity s1) = n" using inv by (simp_all add: order_inv_def s1_def)
  have s2: "heap s2 = heap s" "position s2 = position s" "tie s2 = tie s" "0 < increment s2" "length (activity s2) = n"
    using pos f len by (auto simp: s2_def s1_def)
  have inv2: "order_inv n s2" using inv s2 by (simp add: order_inv_def)
  have scale: "key s2 a \<le> key s2 b \<longleftrightarrow> key s1 a \<le> key s1 b" if "a < n" "b < n" for a b
    using that len f by (auto simp: s2_def key_def)
  have k1: "key s1 a = key s a" if "a \<noteq> v" for a using that by (simp add: key_def s1_def)
  have kv: "key s v \<le> key s1 v" using pos len v by (simp add: key_def s1_def)
  have mem: "heap s ! i < n" if "i < length (heap s)" for i using inv that by (simp add: order_inv_def)
  have step: "bump v s = (if position s2 ! v \<noteq> not_in_heap then heap_up (nat (position s2 ! v)) s2 else s2)"
    by (simp add: bump_def Let_def s1_def s2_def)
  have "order_good n (bump v s) \<and> members (bump v s) = members s"
  proof (cases "v \<in> members s")
    case False
    then have "bump v s = s2" using step position_in [OF inv2 v] s2(1) by auto
    moreover have "heap_ok s2"
      unfolding heap_ok_def s2(1)
    proof (intro allI impI)
      fix i assume i: "i < length (heap s)" "0 < i"
      have q: "parent i < length (heap s)" using i by auto
      have "key s (heap s ! i) \<le> key s (heap s ! parent i)" using ok i by (simp add: heap_ok_def)
      moreover have "heap s ! i \<noteq> v" "heap s ! parent i \<noteq> v" using False i(1) q nth_mem by blast+
      ultimately show "key s2 (heap s ! i) \<le> key s2 (heap s ! parent i)" using scale mem i(1) q k1 by simp
    qed
    ultimately show ?thesis using inv2 s2 by (simp add: order_good_def)
  next
    case True
    then obtain p where p: "p < length (heap s)" "heap s ! p = v" by (auto simp: in_set_conv_nth)
    then have np: "position s2 ! v = int p" using inv s2(2) by (auto simp: order_inv_def)
    have ne: "heap s ! i \<noteq> v" if "i < length (heap s)" "i \<noteq> p" for i
      using inv p that nth_eq_iff_index_eq [of "heap s" i p] by (simp add: order_inv_def)
    have up: "heap_up_ok p s2"
      unfolding heap_up_ok_def s2(1)
    proof (intro conjI allI impI)
      fix i assume i: "i < length (heap s)" "0 < i" "i \<noteq> p"
      have q: "parent i < length (heap s)" using i by auto
      have le: "key s (heap s ! i) \<le> key s (heap s ! parent i)" using ok i by (simp add: heap_ok_def)
      have "key s1 (heap s ! i) \<le> key s1 (heap s ! parent i)"
      proof (cases "parent i = p")
        case True
        then show ?thesis using le k1 [OF ne [OF i(1,3)]] kv p(2) by (metis order_trans)
      next
        case False
        then show ?thesis using le k1 [OF ne [OF i(1,3)]] k1 [OF ne [OF q]] by simp
      qed
      then show "key s2 (heap s ! i) \<le> key s2 (heap s ! parent i)" using scale mem i(1) q by simp
    next
      fix i assume i: "i < length (heap s)" "0 < i" "parent i = p" "0 < p"
      have q: "parent p < length (heap s)" "parent p \<noteq> p" "i \<noteq> p" using i p(1) parent_less [OF i(2)] by auto
      have "key s (heap s ! i) \<le> key s (heap s ! p)" "key s (heap s ! p) \<le> key s (heap s ! parent p)"
        using ok i p(1) by (auto simp: heap_ok_def)
      then have "key s1 (heap s ! i) \<le> key s1 (heap s ! parent p)"
        unfolding k1 [OF ne [OF i(1) q(3)]] k1 [OF ne [OF q(1,2)]] by (rule order_trans)
      then show "key s2 (heap s ! i) \<le> key s2 (heap s ! parent p)" using scale mem i(1) q by simp
    qed
    have "bump v s = heap_up p s2" using step np by (simp add: not_in_heap_def)
    then show ?thesis using heap_up_good [OF inv2 _ up s2(4)] p(1) s2(1) by auto
  qed
  then show "order_good n (bump v s)" "members (bump v s) = members s" by blast+
qed

lemma decay_good: "order_good n s \<Longrightarrow> 0 < factor \<Longrightarrow> order_good n (decay_activity factor s)"
  by (simp add: order_good_def order_inv_def heap_ok_def key_def decay_activity_def)

lemma length_draw_ties: "length (draw_ties n g) = n"
  by (induction n arbitrary: g) (auto simp: split: prod.splits)

lemma empty_order_good:
  assumes "length (activity s) = n" "heap s = []" "position s = replicate n not_in_heap" "length (tie s) = n" "0 < increment s"
  shows "order_good n s"
  using assms by (simp add: order_good_def order_inv_def heap_ok_def)

lemma build_heap_good:
  assumes "order_good n s"
  shows "order_good n (build_heap s) \<and> members (build_heap s) = {..<n} \<union> members s"
proof -
  have len: "length (activity s) = n" using assms by (simp add: order_good_def order_inv_def)
  have "order_good n (fold order_insert vs s) \<and> members (fold order_insert vs s) = set vs \<union> members s"
    if "\<forall>v \<in> set vs. v < n" for vs
    using that assms
  proof (induction vs arbitrary: s)
    case (Cons v vs)
    then have "order_good n (order_insert v s)" "members (order_insert v s) = insert v (members s)" by (simp_all add: insert_good)
    then show ?case using Cons.IH [of "order_insert v s"] Cons.prems(1) by simp
  qed simp
  from this [of "[0..<n]"] show ?thesis by (simp add: build_heap_def len lessThan_atLeast0)
qed

section \<open>Interface\<close>

text \<open>What the search relies on: a set of variables from which a best one can be taken.\<close>

locale variable_queue =
  fixes good :: "'s \<Rightarrow> bool" and members :: "'s \<Rightarrow> nat set" and better :: "'s \<Rightarrow> nat \<Rightarrow> nat \<Rightarrow> bool"
    and vars :: "nat set" and ins :: "nat \<Rightarrow> 's \<Rightarrow> 's" and pop :: "'s \<Rightarrow> nat \<times> 's" and raise :: "nat \<Rightarrow> 's \<Rightarrow> 's"
  assumes members_vars: "good s \<Longrightarrow> members s \<subseteq> vars"
    and finite_vars: "finite vars"
    and ins_good: "good s \<Longrightarrow> v \<in> vars \<Longrightarrow> good (ins v s)"
    and ins_members: "good s \<Longrightarrow> v \<in> vars \<Longrightarrow> members (ins v s) = insert v (members s)"
    and pop_good: "good s \<Longrightarrow> members s \<noteq> {} \<Longrightarrow> good (snd (pop s))"
    and pop_member: "good s \<Longrightarrow> members s \<noteq> {} \<Longrightarrow> fst (pop s) \<in> members s"
    and pop_members: "good s \<Longrightarrow> members s \<noteq> {} \<Longrightarrow> members (snd (pop s)) = members s - {fst (pop s)}"
    and pop_best: "good s \<Longrightarrow> u \<in> members s \<Longrightarrow> \<not> better s u (fst (pop s))"
    and raise_good: "good s \<Longrightarrow> v \<in> vars \<Longrightarrow> good (raise v s)"
    and raise_members: "good s \<Longrightarrow> v \<in> vars \<Longrightarrow> members (raise v s) = members s"
begin

lemma pop_decreases:
  "good s \<Longrightarrow> members s \<noteq> {} \<Longrightarrow> card (members (snd (pop s))) < card (members s)"
  using members_vars finite_vars pop_member pop_members by (metis card_Diff1_less finite_subset)

lemma ins_fold_good:
  "good s \<Longrightarrow> set vs \<subseteq> vars \<Longrightarrow> good (fold ins vs s) \<and> members (fold ins vs s) = set vs \<union> members s"
  by (induction vs arbitrary: s) (auto simp: ins_good ins_members)

lemma raise_fold_good:
  "good s \<Longrightarrow> set vs \<subseteq> vars \<Longrightarrow> good (fold raise vs s) \<and> members (fold raise vs s) = members s"
  by (induction vs arbitrary: s) (auto simp: raise_good raise_members)

lemma pop_after_ins: "good s \<Longrightarrow> v \<in> vars \<Longrightarrow> \<not> better (ins v s) v (fst (pop (ins v s)))"
  using ins_good ins_members pop_best by blast

end

interpretation vo: variable_queue "order_good n" members higher "{..<n}" order_insert pop_best bump for n
proof unfold_locales
  fix s v u
  show "members s \<subseteq> {..<n}" if "order_good n s" using that by (auto simp: order_good_def order_inv_def)
  show "order_good n (order_insert v s)" "members (order_insert v s) = insert v (members s)" if "order_good n s" "v \<in> {..<n}"
    using that insert_good by simp_all
  show "order_good n (bump v s)" "members (bump v s) = members s" if "order_good n s" "v \<in> {..<n}"
    using that bump_good by simp_all
  obtain w s' where pop: "pop_best s = (w, s')" by fastforce
  show "order_good n (snd (pop_best s))" "fst (pop_best s) \<in> members s" "members (snd (pop_best s)) = members s - {fst (pop_best s)}"
    if "order_good n s" "members s \<noteq> {}"
    using that Sat_Order.pop_good [OF that(1) _ pop] by (auto simp: pop)
  show "\<not> higher s u (fst (pop_best s))" if "order_good n s" "u \<in> members s"
    using Sat_Order.pop_good(5) [OF that(1) _ pop that(2)] that(2) by (cases "heap s") (auto simp: pop)
qed simp

section \<open>Property\<close>


definition sample_order :: variable_order where
  "sample_order = \<lparr>heap = [1, 0], position = [1, 0, - 1], activity = [1, 2, 3], tie = [5, 4, 6], increment = 1\<rparr>"


end
