(* ===== verification/Sat_Store.thy ===== *)
theory Sat_Store
  imports Sat_Literals
begin

text \<open>
  The stores of the clause search, \<open>cdcl_sat_utils.hpp\<close>: the assignment stack
  \<open>trail_t\<close> and the contiguous array of clauses \<open>clause_arena_t\<close>. A clause at word r
  has its size at r, its literal-block distance at r + 1, its last conflict at r + 2, its flags at
  r + 3 and its literals from r + 4 on. All words are non-negative.
\<close>

unbundle bit_operations_syntax

section \<open>The trail\<close>

record trail =
  literals :: "nat list"
  depth_starts :: "nat list"
  propagation_head :: nat

definition decision_depth :: "trail \<Rightarrow> nat" where
  "decision_depth t = length (depth_starts t)"

definition at_root :: "trail \<Rightarrow> bool" where
  "at_root t \<longleftrightarrow> depth_starts t = []"

definition trail_enqueue :: "nat \<Rightarrow> trail \<Rightarrow> trail" where
  "trail_enqueue lit t = t\<lparr>literals := literals t @ [lit]\<rparr>"

definition has_pending_propagation :: "trail \<Rightarrow> bool" where
  "has_pending_propagation t \<longleftrightarrow> propagation_head t < length (literals t)"

definition next_to_propagate :: "trail \<Rightarrow> nat \<times> trail" where
  "next_to_propagate t = (literals t ! propagation_head t, t\<lparr>propagation_head := propagation_head t + 1\<rparr>)"

definition start_decision_depth :: "trail \<Rightarrow> trail" where
  "start_decision_depth t = t\<lparr>depth_starts := depth_starts t @ [length (literals t)]\<rparr>"

definition above_depth :: "nat \<Rightarrow> trail \<Rightarrow> bool" where
  "above_depth target_depth t \<longleftrightarrow> decision_depth t > target_depth"

definition backtrack_offset :: "nat \<Rightarrow> trail \<Rightarrow> nat" where
  "backtrack_offset target_depth t = depth_starts t ! target_depth"

definition truncate_to_depth :: "nat \<Rightarrow> trail \<Rightarrow> trail" where
  "truncate_to_depth target_depth t =
     (let retained_size = backtrack_offset target_depth t
      in \<lparr>literals = take retained_size (literals t), depth_starts = take target_depth (depth_starts t),
          propagation_head = min (propagation_head t) retained_size\<rparr>)"

section \<open>The clause arena\<close>

type_synonym arena = "nat list"

definition header_words :: nat where "header_words = 4"
definition learned_flag :: nat where "learned_flag = 1"

definition arena_add :: "clause \<Rightarrow> bool \<Rightarrow> nat \<Rightarrow> nat \<Rightarrow> arena \<Rightarrow> nat \<times> arena" where
  "arena_add lits learned lbd conflict ws =
     (length ws, ws @ [length lits, lbd, conflict, if learned then learned_flag else 0] @ lits)"

definition clause_size :: "arena \<Rightarrow> nat \<Rightarrow> nat" where "clause_size ws r = ws ! r"
definition clause_lbd :: "arena \<Rightarrow> nat \<Rightarrow> nat" where "clause_lbd ws r = ws ! (r + 1)"
definition last_conflict :: "arena \<Rightarrow> nat \<Rightarrow> nat" where "last_conflict ws r = ws ! (r + 2)"
definition clause_literal :: "arena \<Rightarrow> nat \<Rightarrow> nat \<Rightarrow> nat" where "clause_literal ws r i = ws ! (r + header_words + i)"

definition learned :: "arena \<Rightarrow> nat \<Rightarrow> bool" where "learned ws r = bit (ws ! (r + 3)) 0"
definition deleted :: "arena \<Rightarrow> nat \<Rightarrow> bool" where "deleted ws r = bit (ws ! (r + 3)) 1"
definition locked :: "arena \<Rightarrow> nat \<Rightarrow> bool" where "locked ws r = bit (ws ! (r + 3)) 2"

definition touch :: "nat \<Rightarrow> nat \<Rightarrow> arena \<Rightarrow> arena" where
  "touch conflict r ws = ws[r + 2 := conflict]"

definition mark_deleted :: "nat \<Rightarrow> arena \<Rightarrow> arena" where
  "mark_deleted r ws = ws[r + 3 := set_bit 1 (ws ! (r + 3))]"

definition set_locked :: "bool \<Rightarrow> nat \<Rightarrow> arena \<Rightarrow> arena" where
  "set_locked lock r ws = ws[r + 3 := (if lock then set_bit 2 (ws ! (r + 3)) else unset_bit 2 (ws ! (r + 3)))]"

definition swap_literals :: "nat \<Rightarrow> nat \<Rightarrow> nat \<Rightarrow> arena \<Rightarrow> arena" where
  "swap_literals i j r ws =
     ws[r + header_words + i := clause_literal ws r j, r + header_words + j := clause_literal ws r i]"

definition clause_lits :: "arena \<Rightarrow> nat \<Rightarrow> clause" where
  "clause_lits ws r = map (clause_literal ws r) [0..<clause_size ws r]"

section \<open>Layout of the arena\<close>

text \<open>Clauses occupy disjoint blocks inside the array.\<close>

definition arena_wf :: "nat set \<Rightarrow> arena \<Rightarrow> bool" where
  "arena_wf refs ws \<longleftrightarrow> (\<forall>r \<in> refs. r + header_words + clause_size ws r \<le> length ws)
     \<and> (\<forall>r \<in> refs. \<forall>q \<in> refs. r < q \<longrightarrow> r + header_words + clause_size ws r \<le> q)"

lemma length_clause_lits [simp]: "length (clause_lits ws r) = clause_size ws r"
  by (simp add: clause_lits_def)

lemma nth_clause_lits: "i < clause_size ws r \<Longrightarrow> clause_lits ws r ! i = clause_literal ws r i"
  by (simp add: clause_lits_def)

text \<open>Words outside the block of a clause do not matter to it.\<close>

lemma clause_frame:
  assumes "\<And>i. i < header_words + clause_size ws r \<Longrightarrow> ws' ! (r + i) = ws ! (r + i)"
  shows "clause_lits ws' r = clause_lits ws r" "clause_size ws' r = clause_size ws r"
    "learned ws' r = learned ws r" "deleted ws' r = deleted ws r"
proof -
  show size: "clause_size ws' r = clause_size ws r" using assms [of 0] by (simp add: clause_size_def header_words_def)
  show "learned ws' r = learned ws r" "deleted ws' r = deleted ws r"
    using assms [of 3] by (simp_all add: learned_def deleted_def header_words_def)
  have "clause_literal ws' r i = clause_literal ws r i" if "i < clause_size ws r" for i
    using assms [of "header_words + i"] that by (simp add: clause_literal_def add.assoc)
  then show "clause_lits ws' r = clause_lits ws r" unfolding clause_lits_def size by (intro map_cong) auto
qed

lemma arena_wf_frame:
  "arena_wf refs ws \<Longrightarrow> length ws' = length ws \<Longrightarrow> \<forall>r \<in> refs. clause_size ws' r = clause_size ws r \<Longrightarrow> arena_wf refs ws'"
  by (simp add: arena_wf_def)

text \<open>An update inside the block of one clause leaves the others alone.\<close>

lemma other_block:
  assumes "arena_wf refs ws" "r \<in> refs" "q \<in> refs" "r \<noteq> q" "k < header_words + clause_size ws r" "i < header_words + clause_size ws q"
  shows "r + k \<noteq> q + i"
proof -
  from assms(4) consider "r < q" | "q < r" by linarith
  then show ?thesis
  proof cases
    case 1
    then have "r + header_words + clause_size ws r \<le> q" using assms(1-3) by (simp add: arena_wf_def)
    then show ?thesis using assms(5) by linarith
  next
    case 2
    then have "q + header_words + clause_size ws q \<le> r" using assms(1-3) by (simp add: arena_wf_def)
    then show ?thesis using assms(6) by linarith
  qed
qed

lemma update_other:
  assumes "arena_wf refs ws" "r \<in> refs" "q \<in> refs" "r \<noteq> q" "k < header_words + clause_size ws r"
  shows "clause_lits (ws[r + k := x]) q = clause_lits ws q" "clause_size (ws[r + k := x]) q = clause_size ws q"
    "learned (ws[r + k := x]) q = learned ws q" "deleted (ws[r + k := x]) q = deleted ws q"
  using clause_frame [of ws q "ws[r + k := x]"] other_block [OF assms(1-5)] by simp_all

text \<open>Updates of the bookkeeping words of a clause.\<close>

lemma update_header:
  assumes "arena_wf refs ws" "r \<in> refs" "q \<in> refs" "k = 1 \<or> k = 2 \<or> k = 3"
  shows "clause_lits (ws[r + k := x]) q = clause_lits ws q"
    and "arena_wf refs (ws[r + k := x])"
    and "k \<noteq> 3 \<Longrightarrow> learned (ws[r + k := x]) q = learned ws q" "k \<noteq> 3 \<Longrightarrow> deleted (ws[r + k := x]) q = deleted ws q"
    and "k = 3 \<Longrightarrow> bit x 0 = learned ws r \<Longrightarrow> learned (ws[r + k := x]) q = learned ws q"
    and "k = 3 \<Longrightarrow> bit x 1 = d \<Longrightarrow> deleted (ws[r + k := x]) q = (if q = r then d else deleted ws q)"
proof -
  have k: "k < header_words + clause_size ws r" "0 < k" "k < header_words" using assms(4) by (auto simp: header_words_def)
  have len: "r + k < length ws" using assms(1,2) k by (auto simp: arena_wf_def dest!: bspec)
  have lits: "clause_lits (ws[r + k := x]) r = clause_lits ws r" "clause_size (ws[r + k := x]) r = clause_size ws r"
    using k by (simp_all add: clause_lits_def clause_literal_def clause_size_def header_words_def)
  show "clause_lits (ws[r + k := x]) q = clause_lits ws q"
    using lits update_other(1) [OF assms(1-3) _ k(1)] by (cases "q = r") auto
  have "clause_size (ws[r + k := x]) p = clause_size ws p" if "p \<in> refs" for p
    using lits(2) update_other(2) [OF assms(1,2) that _ k(1)] by (cases "p = r") auto
  then show "arena_wf refs (ws[r + k := x])" using arena_wf_frame [OF assms(1)] by simp
  show "k \<noteq> 3 \<Longrightarrow> learned (ws[r + k := x]) q = learned ws q" "k \<noteq> 3 \<Longrightarrow> deleted (ws[r + k := x]) q = deleted ws q"
    using update_other(3,4) [OF assms(1-3) _ k(1)] by (cases "q = r", simp_all add: learned_def deleted_def)+
  show "k = 3 \<Longrightarrow> bit x 0 = learned ws r \<Longrightarrow> learned (ws[r + k := x]) q = learned ws q"
    using update_other(3) [OF assms(1-3) _ k(1)] len by (cases "q = r") (auto simp: learned_def)
  show "k = 3 \<Longrightarrow> bit x 1 = d \<Longrightarrow> deleted (ws[r + k := x]) q = (if q = r then d else deleted ws q)"
    using update_other(4) [OF assms(1-3) _ k(1)] len by (auto simp: deleted_def)
qed

lemma swap_literals_spec:
  assumes "arena_wf refs ws" "r \<in> refs" "q \<in> refs" "i < clause_size ws r" "j < clause_size ws r"
  shows "arena_wf refs (swap_literals i j r ws)"
    and "clause_lits (swap_literals i j r ws) q
       = (if q = r then (clause_lits ws r)[i := clause_lits ws r ! j, j := clause_lits ws r ! i] else clause_lits ws q)"
    and "learned (swap_literals i j r ws) q = learned ws q" and "deleted (swap_literals i j r ws) q = deleted ws q"
proof -
  let ?w1 = "ws[r + (header_words + i) := clause_literal ws r j]"
  let ?w2 = "?w1[r + (header_words + j) := clause_literal ws r i]"
  have w: "swap_literals i j r ws = ?w2" by (simp add: swap_literals_def add.assoc)
  have bound: "header_words + i < header_words + clause_size ws r" "header_words + j < header_words + clause_size ws r" using assms by auto
  have len: "r + header_words + clause_size ws r \<le> length ws" using assms(1,2) by (simp add: arena_wf_def)
  have own: "clause_size ?w2 r = clause_size ws r" "learned ?w2 r = learned ws r" "deleted ?w2 r = deleted ws r"
    by (simp_all add: clause_size_def learned_def deleted_def header_words_def)
  have size: "clause_size ?w1 p = clause_size ws p" if "p \<in> refs" for p
    using update_other(2) [OF assms(1,2) that _ bound(1)] by (cases "p = r") (auto simp: clause_size_def header_words_def)
  have wf1: "arena_wf refs ?w1" using arena_wf_frame [OF assms(1)] size by simp
  have b1: "header_words + j < header_words + clause_size ?w1 r" using bound size [OF assms(2)] by simp
  have other: "clause_lits ?w2 p = clause_lits ws p" "clause_size ?w2 p = clause_size ws p" "learned ?w2 p = learned ws p" "deleted ?w2 p = deleted ws p"
    if "p \<in> refs" "r \<noteq> p" for p
    using update_other [OF wf1 assms(2) that b1] update_other [OF assms(1,2) that bound(1)] by simp_all
  have "clause_size ?w2 p = clause_size ws p" if "p \<in> refs" for p using own(1) other(2) [OF that] by (cases "p = r") auto
  then show "arena_wf refs (swap_literals i j r ws)" using arena_wf_frame [OF assms(1)] by (simp add: w)
  have "clause_lits ?w2 r = (clause_lits ws r)[i := clause_lits ws r ! j, j := clause_lits ws r ! i]"
  proof (rule nth_equalityI)
    fix k assume "k < length (clause_lits ?w2 r)"
    then have k: "k < clause_size ws r" using own(1) by simp
    then have "clause_lits ?w2 r ! k = ?w2 ! (r + header_words + k)"
      using own(1) by (simp add: clause_lits_def clause_literal_def)
    also have "\<dots> = (if k = j then clause_literal ws r i else if k = i then clause_literal ws r j else clause_literal ws r k)"
      using len k assms(4,5) by (auto simp: clause_literal_def nth_list_update)
    also have "\<dots> = (clause_lits ws r)[i := clause_lits ws r ! j, j := clause_lits ws r ! i] ! k"
      using k assms(4,5) by (auto simp: nth_clause_lits nth_list_update)
    finally show "clause_lits ?w2 r ! k = (clause_lits ws r)[i := clause_lits ws r ! j, j := clause_lits ws r ! i] ! k" .
  qed (use own(1) in simp)
  then show "clause_lits (swap_literals i j r ws) q
       = (if q = r then (clause_lits ws r)[i := clause_lits ws r ! j, j := clause_lits ws r ! i] else clause_lits ws q)"
    using other(1) [OF assms(3)] by (simp add: w)
  show "learned (swap_literals i j r ws) q = learned ws q" "deleted (swap_literals i j r ws) q = deleted ws q"
    unfolding w using own other(3,4) [OF assms(3)] by (cases "q = r"; simp)+
qed

lemma arena_add_spec:
  assumes "arena_wf refs ws" "arena_add lits lrn lbd c ws = (r, ws')"
  shows "r \<notin> refs" "arena_wf (insert r refs) ws'" "clause_lits ws' r = lits" "learned ws' r = lrn" "\<not> deleted ws' r"
    and "q \<in> refs \<Longrightarrow> clause_lits ws' q = clause_lits ws q \<and> learned ws' q = learned ws q \<and> deleted ws' q = deleted ws q"
proof -
  have r: "r = length ws" and ws': "ws' = ws @ [length lits, lbd, c, if lrn then learned_flag else 0] @ lits"
    using assms(2) by (auto simp: arena_add_def)
  show "r \<notin> refs" using assms(1) r by (force simp: arena_wf_def header_words_def)
  have size: "clause_size ws' r = length lits" by (simp add: clause_size_def ws' r)
  have nth: "ws' ! (r + header_words + i) = lits ! i" if "i < length lits" for i
    using that by (simp add: ws' r nth_append header_words_def numeral_eq_Suc)
  show "clause_lits ws' r = lits" unfolding clause_lits_def size using nth by (intro nth_equalityI) (auto simp: clause_literal_def)
  show "learned ws' r = lrn" "\<not> deleted ws' r" by (simp_all add: learned_def deleted_def ws' r nth_append numeral_eq_Suc learned_flag_def bit_0 bit_Suc)
  have old: "clause_lits ws' q = clause_lits ws q \<and> clause_size ws' q = clause_size ws q \<and> learned ws' q = learned ws q \<and> deleted ws' q = deleted ws q"
    if "q \<in> refs" for q
  proof -
    have "q + header_words + clause_size ws q \<le> length ws" using assms(1) that by (simp add: arena_wf_def)
    then show ?thesis using clause_frame [of ws q ws'] by (simp add: ws' nth_append)
  qed
  then show "q \<in> refs \<Longrightarrow> clause_lits ws' q = clause_lits ws q \<and> learned ws' q = learned ws q \<and> deleted ws' q = deleted ws q" by blast
  show "arena_wf (insert r refs) ws'"
    using assms(1) old size unfolding arena_wf_def by (force simp: r ws' header_words_def)
qed

section \<open>Interface\<close>

text \<open>What the search relies on: clauses under references, changed one at a time.\<close>

locale clause_store =
  fixes wf :: "nat set \<Rightarrow> 'a \<Rightarrow> bool" and lits :: "'a \<Rightarrow> nat \<Rightarrow> clause"
    and is_learned :: "'a \<Rightarrow> nat \<Rightarrow> bool" and is_deleted :: "'a \<Rightarrow> nat \<Rightarrow> bool"
    and add :: "clause \<Rightarrow> bool \<Rightarrow> nat \<Rightarrow> nat \<Rightarrow> 'a \<Rightarrow> nat \<times> 'a" and swap :: "nat \<Rightarrow> nat \<Rightarrow> nat \<Rightarrow> 'a \<Rightarrow> 'a"
    and delete :: "nat \<Rightarrow> 'a \<Rightarrow> 'a" and lock :: "bool \<Rightarrow> nat \<Rightarrow> 'a \<Rightarrow> 'a" and note_conflict :: "nat \<Rightarrow> nat \<Rightarrow> 'a \<Rightarrow> 'a"
  assumes add_fresh: "wf refs a \<Longrightarrow> add C l b c a = (r, a') \<Longrightarrow> r \<notin> refs"
    and add_wf: "wf refs a \<Longrightarrow> add C l b c a = (r, a') \<Longrightarrow> wf (insert r refs) a'"
    and add_new: "wf refs a \<Longrightarrow> add C l b c a = (r, a') \<Longrightarrow> lits a' r = C \<and> is_learned a' r = l \<and> \<not> is_deleted a' r"
    and add_old: "wf refs a \<Longrightarrow> add C l b c a = (r, a') \<Longrightarrow> q \<in> refs \<Longrightarrow>
         lits a' q = lits a q \<and> is_learned a' q = is_learned a q \<and> is_deleted a' q = is_deleted a q"
    and swap_wf: "wf refs a \<Longrightarrow> r \<in> refs \<Longrightarrow> i < length (lits a r) \<Longrightarrow> j < length (lits a r) \<Longrightarrow> wf refs (swap i j r a)"
    and swap_lits: "wf refs a \<Longrightarrow> r \<in> refs \<Longrightarrow> q \<in> refs \<Longrightarrow> i < length (lits a r) \<Longrightarrow> j < length (lits a r) \<Longrightarrow>
         lits (swap i j r a) q = (if q = r then (lits a r)[i := lits a r ! j, j := lits a r ! i] else lits a q)"
    and swap_flags: "wf refs a \<Longrightarrow> r \<in> refs \<Longrightarrow> q \<in> refs \<Longrightarrow> i < length (lits a r) \<Longrightarrow> j < length (lits a r) \<Longrightarrow>
         is_learned (swap i j r a) q = is_learned a q \<and> is_deleted (swap i j r a) q = is_deleted a q"
    and delete_wf: "wf refs a \<Longrightarrow> r \<in> refs \<Longrightarrow> wf refs (delete r a)"
    and delete_spec: "wf refs a \<Longrightarrow> r \<in> refs \<Longrightarrow> q \<in> refs \<Longrightarrow>
         lits (delete r a) q = lits a q \<and> is_learned (delete r a) q = is_learned a q \<and> is_deleted (delete r a) q = (q = r \<or> is_deleted a q)"
    and lock_wf: "wf refs a \<Longrightarrow> r \<in> refs \<Longrightarrow> wf refs (lock k r a)"
    and lock_spec: "wf refs a \<Longrightarrow> r \<in> refs \<Longrightarrow> q \<in> refs \<Longrightarrow>
         lits (lock k r a) q = lits a q \<and> is_learned (lock k r a) q = is_learned a q \<and> is_deleted (lock k r a) q = is_deleted a q"
    and note_wf: "wf refs a \<Longrightarrow> r \<in> refs \<Longrightarrow> wf refs (note_conflict c r a)"
    and note_spec: "wf refs a \<Longrightarrow> r \<in> refs \<Longrightarrow> q \<in> refs \<Longrightarrow>
         lits (note_conflict c r a) q = lits a q \<and> is_learned (note_conflict c r a) q = is_learned a q \<and> is_deleted (note_conflict c r a) q = is_deleted a q"
begin

lemma swap_mset:
  assumes "wf refs a" "r \<in> refs" "q \<in> refs" "i < length (lits a r)" "j < length (lits a r)"
  shows "mset (lits (swap i j r a) q) = mset (lits a q)"
  using assms by (simp add: swap_lits mset_swap)

lemma swap_set:
  assumes "wf refs a" "r \<in> refs" "q \<in> refs" "i < length (lits a r)" "j < length (lits a r)"
  shows "set (lits (swap i j r a) q) = set (lits a q)" and "length (lits (swap i j r a) q) = length (lits a q)"
  using swap_mset [OF assms] by (auto dest: mset_eq_setD mset_eq_length)

end

interpretation ca: clause_store arena_wf clause_lits learned deleted arena_add swap_literals mark_deleted set_locked touch
proof unfold_locales
  fix refs a r q
  assume wf: "arena_wf refs a" and r: "r \<in> refs" and q: "q \<in> refs"
  show "clause_lits (mark_deleted r a) q = clause_lits a q \<and> learned (mark_deleted r a) q = learned a q
      \<and> deleted (mark_deleted r a) q = (q = r \<or> deleted a q)"
    using update_header(1,5,6) [OF wf r q, of 3] by (simp add: mark_deleted_def bit_set_bit_iff learned_def)
  fix b c
  show "clause_lits (set_locked b r a) q = clause_lits a q \<and> learned (set_locked b r a) q = learned a q
      \<and> deleted (set_locked b r a) q = deleted a q"
    using update_header(1,5,6) [OF wf r q, of 3] by (auto simp: set_locked_def bit_set_bit_iff bit_unset_bit_iff learned_def deleted_def)
  show "clause_lits (touch c r a) q = clause_lits a q \<and> learned (touch c r a) q = learned a q \<and> deleted (touch c r a) q = deleted a q"
    using update_header(1,3,4) [OF wf r q, of 2] by (simp add: touch_def)
next
  fix refs a r b c
  assume wf: "arena_wf refs a" and r: "r \<in> refs"
  show "arena_wf refs (mark_deleted r a)" "arena_wf refs (set_locked b r a)" "arena_wf refs (touch c r a)"
    unfolding mark_deleted_def set_locked_def touch_def by (rule update_header(2) [OF wf r r]; simp)+
qed (auto simp: arena_add_spec swap_literals_spec)

end
