(* ===== verification/Sat_Search.thy ===== *)
theory Sat_Search
  imports Sat_Order Sat_Store Sat_Bve Pb_Encoding
begin

text \<open>
  The conflict-driven clause search, \<open>sat_t\<close> and \<open>fj_bin_sat_search\<close> of
  \<open>feasibility_jump/sat/cdcl_sat.cpp\<close>. A value is \<open>None\<close> when unassigned, a reason is
  \<open>None\<close> for \<open>no_reason\<close>. The propagation and search loops are partial functions, so not
  returning is \<open>None\<close>; reading a position before the start of the trail or the clause of a
  missing reason in the conflict analysis is \<open>None\<close> as well. The answers of the stop callback
  are a parameter, a function of the point at which it is called; the rounding of the random
  draws is the parameter \<open>fl\<close>.
\<close>

section \<open>State\<close>

datatype poll = poll_row nat | poll_variable nat | poll_step nat | poll_propagation nat nat

type_synonym watch = "nat \<times> nat"

record sat =
  arena :: arena
  clause_refs :: "nat list"
  watches :: "watch list list"
  val :: "bool option list"
  phase :: "bool list"
  assignment_depth :: "nat list"
  reason :: "nat option list"
  seen :: "bool list"
  order :: variable_order
  tr :: trail
  decay :: rat
  conflicts :: nat
  restart_initial_limit :: nat
  steps :: nat

definition activity_decay_min :: rat where "activity_decay_min = 94 / 100"
definition activity_decay_step :: rat where "activity_decay_step = 1 / 100"
definition activity_decay_choices :: int where "activity_decay_choices = 5"
definition restart_interval_unit :: nat where "restart_interval_unit = 64"
definition restart_interval_choices :: int where "restart_interval_choices = 4"
definition restart_growth_limit :: nat where "restart_growth_limit = 4096"
definition propagation_stop_poll_period :: nat where "propagation_stop_poll_period = 256"
definition solve_stop_poll_period :: nat where "solve_stop_poll_period = 128"
definition protected_clause_lbd :: nat where "protected_clause_lbd = 2"
definition protected_clause_size :: nat where "protected_clause_size = 2"
definition clause_stale_conflicts :: int where "clause_stale_conflicts = 2000"
definition database_reduction_interval :: nat where "database_reduction_interval = 4000"

section \<open>Assignment and clauses\<close>

definition eval_literal :: "sat \<Rightarrow> nat \<Rightarrow> bool option" where
  "eval_literal s lit = map_option (\<lambda>state. state = LIT_POLARITY lit) (val s ! LIT_VAR lit)"

definition enqueue :: "nat \<Rightarrow> nat option \<Rightarrow> sat \<Rightarrow> bool \<times> sat" where
  "enqueue lit why s =
     (case eval_literal s lit of
        Some state \<Rightarrow> (state, s)
      | None \<Rightarrow>
          let v = LIT_VAR lit; requested = LIT_POLARITY lit
          in (True, s\<lparr>val := (val s)[v := Some requested], phase := (phase s)[v := requested],
                      assignment_depth := (assignment_depth s)[v := decision_depth (tr s)],
                      reason := (reason s)[v := why], tr := trail_enqueue lit (tr s)\<rparr>))"

definition push_watch :: "nat \<Rightarrow> watch \<Rightarrow> sat \<Rightarrow> sat" where
  "push_watch lit w s = s\<lparr>watches := (watches s)[lit := watches s ! lit @ [w]]\<rparr>"

definition sat_add :: "clause \<Rightarrow> bool \<Rightarrow> nat \<Rightarrow> sat \<Rightarrow> nat \<times> sat" where
  "sat_add lits is_learned lbd s =
     (let (ref, a) = arena_add lits is_learned lbd (conflicts s) (arena s);
          s = s\<lparr>arena := a, clause_refs := clause_refs s @ [ref]\<rparr>
      in (ref, if length lits \<ge> 2 then push_watch (lits ! 1) (ref, lits ! 0) (push_watch (lits ! 0) (ref, lits ! 1) s) else s))"

section \<open>Propagation\<close>

datatype propagation = no_conflict | propagation_stopped | conflict nat

definition find_replacement :: "sat \<Rightarrow> nat \<Rightarrow> nat option" where
  "find_replacement s ref =
     find (\<lambda>j. eval_literal s (clause_literal (arena s) ref j) \<noteq> Some False) [2..<clause_size (arena s) ref]"

text \<open>
  The walk over the watch list of the falsified literal: \<open>out\<close> are the watches kept so far. The
  literal that takes over a watch is not false, so its list is not the one being walked.
\<close>

fun propagate_watches :: "nat \<Rightarrow> watch list \<Rightarrow> watch list \<Rightarrow> sat \<Rightarrow> nat option \<times> watch list \<times> sat" where
  "propagate_watches false_lit [] out s = (None, out, s)"
| "propagate_watches false_lit (w # ws) out s =
     (if eval_literal s (snd w) = Some True then propagate_watches false_lit ws (out @ [w]) s
      else let ref = fst w
      in if deleted (arena s) ref then propagate_watches false_lit ws out s
      else let s = (if clause_literal (arena s) ref 0 = false_lit then s\<lparr>arena := swap_literals 0 1 ref (arena s)\<rparr> else s);
               other = clause_literal (arena s) ref 0
      in if eval_literal s other = Some True then propagate_watches false_lit ws (out @ [(ref, other)]) s
      else case find_replacement s ref of
        Some j \<Rightarrow>
          let s = s\<lparr>arena := swap_literals 1 j ref (arena s)\<rparr>
          in propagate_watches false_lit ws out (push_watch (clause_literal (arena s) ref 1) (ref, other) s)
      | None \<Rightarrow>
          (case enqueue other (Some ref) s of
             (False, s) \<Rightarrow> (Some ref, out @ [(ref, other)] @ ws, s)
           | (True, s) \<Rightarrow> propagate_watches false_lit ws (out @ [(ref, other)]) s))"

definition propagate_next :: "sat \<Rightarrow> nat option \<times> sat" where
  "propagate_next s =
     (let (lit, t) = next_to_propagate (tr s);
          false_lit = LIT_NEG lit;
          (confl, out, s) = propagate_watches false_lit (watches s ! false_lit) [] (s\<lparr>tr := t\<rparr>)
      in (confl, s\<lparr>watches := (watches s)[false_lit := out]\<rparr>))"

partial_function (option) propagate :: "(poll \<Rightarrow> bool) \<Rightarrow> sat \<Rightarrow> (propagation \<times> sat) option" where
  "propagate stop s =
     (if \<not> has_pending_propagation (tr s) then Some (no_conflict, s)
      else case propagate_next s of
        (Some ref, s) \<Rightarrow> Some (conflict ref, s)
      | (None, s) \<Rightarrow>
          (if propagation_head (tr s) mod propagation_stop_poll_period = 0 \<and> stop (poll_propagation (steps s) (propagation_head (tr s)))
           then Some (propagation_stopped, s) else propagate stop s))"

section \<open>Backtracking\<close>

definition unassign :: "nat \<Rightarrow> sat \<Rightarrow> sat" where
  "unassign lit s =
     (let v = LIT_VAR lit
      in s\<lparr>val := (val s)[v := None], reason := (reason s)[v := None], order := order_insert v (order s)\<rparr>)"

definition backtrack :: "nat \<Rightarrow> sat \<Rightarrow> sat" where
  "backtrack target_depth s =
     (if \<not> above_depth target_depth (tr s) then s
      else let retained_size = backtrack_offset target_depth (tr s);
               s = fold unassign (rev (drop retained_size (literals (tr s)))) s
           in s\<lparr>tr := truncate_to_depth target_depth (tr s)\<rparr>)"

section \<open>Conflict analysis\<close>

text \<open>The literals of a clause are added to the learned tail or counted as open paths of the current depth.\<close>

definition scan_literal :: "nat option \<Rightarrow> nat \<Rightarrow> sat \<times> clause \<times> int \<Rightarrow> sat \<times> clause \<times> int" where
  "scan_literal pivot lit = (\<lambda>(s, tail, paths).
     let v = LIT_VAR lit
     in if map_option LIT_VAR pivot = Some v \<or> seen s ! v \<or> assignment_depth s ! v = 0 then (s, tail, paths)
        else let s = s\<lparr>seen := (seen s)[v := True], order := bump v (order s)\<rparr>
             in if assignment_depth s ! v = decision_depth (tr s) then (s, tail, paths + 1)
                else (s, tail @ [lit], paths))"

fun find_seen :: "sat \<Rightarrow> nat \<Rightarrow> nat option" where
  "find_seen s 0 = None"
| "find_seen s (Suc i) = (if seen s ! LIT_VAR (literals (tr s) ! i) then Some i else find_seen s i)"

lemma find_seen_less: "find_seen s k = Some i \<Longrightarrow> i < k"
  by (induction k) (auto split: if_splits)

function (sequential) analyze_loop :: "nat \<Rightarrow> nat \<Rightarrow> nat option \<Rightarrow> sat \<times> clause \<times> int \<Rightarrow> (nat \<times> sat \<times> clause) option" where
  "analyze_loop k confl pivot (s, tail, paths) =
     (let s = s\<lparr>arena := touch (conflicts s) confl (arena s)\<rparr>;
          (s, tail, paths) = fold (scan_literal pivot) (clause_lits (arena s) confl) (s, tail, paths)
      in case find_seen s k of
        None \<Rightarrow> None
      | Some i \<Rightarrow>
          let p = literals (tr s) ! i;
              s = s\<lparr>seen := (seen s)[LIT_VAR p := False]\<rparr>;
              paths = paths - 1
          in if paths > 0
             then (case reason s ! LIT_VAR p of
                     None \<Rightarrow> None
                   | Some c \<Rightarrow> analyze_loop i c (Some p) (s, tail, paths))
             else Some (p, s, tail))"
  by pat_completeness auto
termination by (relation "measure (\<lambda>(k, _). k)") (auto dest: find_seen_less)

declare analyze_loop.simps [simp del]

definition deepest :: "sat \<Rightarrow> clause \<Rightarrow> nat \<times> nat" where
  "deepest s cls =
     fold (\<lambda>k (backtrack_depth, best).
       let d = assignment_depth s ! LIT_VAR (cls ! k) in if d > backtrack_depth then (d, k) else (backtrack_depth, best))
     [1..<length cls] (0, 1)"

definition clear_seen :: "clause \<Rightarrow> sat \<Rightarrow> sat" where
  "clear_seen lits s = s\<lparr>seen := fold (\<lambda>lit sn. sn[LIT_VAR lit := False]) lits (seen s)\<rparr>"

definition block_distance :: "sat \<Rightarrow> clause \<Rightarrow> nat" where
  "block_distance s tail = length (remdups (sort (decision_depth (tr s) # map (\<lambda>lit. assignment_depth s ! LIT_VAR lit) tail)))"

definition analyze_first_uip :: "nat \<Rightarrow> sat \<Rightarrow> (clause \<times> nat \<times> nat \<times> sat) option" where
  "analyze_first_uip confl s =
     (case analyze_loop (length (literals (tr s))) confl None (s, [], 0) of
        None \<Rightarrow> None
      | Some (pivot, s, tail) \<Rightarrow>
          let cls = LIT_NEG pivot # tail;
              (backtrack_depth, best) = deepest s cls;
              s = clear_seen tail s;
              cls = (if length cls > 1 then cls[1 := cls ! best, best := cls ! 1] else cls);
              lbd = block_distance s (tl cls);
              s = s\<lparr>order := decay_activity (decay s) (order s)\<rparr>
          in Some (cls, backtrack_depth, lbd, s))"

section \<open>Clause database\<close>

definition reason_refs :: "sat \<Rightarrow> nat list" where
  "reason_refs s = List.map_filter (\<lambda>lit. reason s ! LIT_VAR lit) (literals (tr s))"

definition reducible :: "sat \<Rightarrow> arena \<Rightarrow> nat \<Rightarrow> bool" where
  "reducible s a ref \<longleftrightarrow> learned a ref \<and> \<not> deleted a ref \<and> \<not> locked a ref
     \<and> clause_lbd a ref > protected_clause_lbd \<and> clause_size a ref > protected_clause_size
     \<and> int (last_conflict a ref) < int (conflicts s) - clause_stale_conflicts"

definition reduce_database :: "sat \<Rightarrow> sat" where
  "reduce_database s =
     (let a = fold (set_locked True) (reason_refs s) (arena s);
          a = fold (\<lambda>ref a. if reducible s a ref then mark_deleted ref a else a) (clause_refs s) a;
          a = fold (set_locked False) (reason_refs s) a
      in s\<lparr>arena := a\<rparr>)"

section \<open>Construction and search\<close>

definition add_input :: "clause \<Rightarrow> sat \<Rightarrow> sat" where
  "add_input cls s =
     snd (sat_add cls False 0 (s\<lparr>order := fold (\<lambda>lit. add_initial_activity (LIT_VAR lit)) cls (order s)\<rparr>))"

definition sat_t :: "(rat \<Rightarrow> rat) \<Rightarrow> nat \<Rightarrow> clause list \<Rightarrow> int list \<Rightarrow> 64 word \<Rightarrow> sat" where
  "sat_t fl n input initial_assignment rng_seed =
     (let g = pcg_set_seed rng_seed pcg_default_stream 0;
          (d, g) = uniform fl 0 activity_decay_choices g;
          (r, g) = uniform fl 1 (restart_interval_choices + 1) g;
          s = \<lparr>arena = [], clause_refs = [], watches = replicate (2 * n) [], val = replicate n None,
               phase = map (\<lambda>v. v < length initial_assignment \<and> initial_assignment ! v = 1) [0..<n],
               assignment_depth = replicate n 0, reason = replicate n None, seen = replicate n False,
               order = sat_variable_order_t n rng_seed,
               tr = \<lparr>literals = [], depth_starts = [], propagation_head = 0\<rparr>,
               decay = activity_decay_min + activity_decay_step * of_int d, conflicts = 0,
               restart_initial_limit = restart_interval_unit * nat r, steps = 0\<rparr>;
          s = fold add_input input s
      in s\<lparr>order := build_heap (fold clear_activity [length initial_assignment..<n] (order s))\<rparr>)"

fun enqueue_units :: "nat list \<Rightarrow> sat \<Rightarrow> bool \<times> sat" where
  "enqueue_units [] s = (True, s)"
| "enqueue_units (ref # refs) s =
     (if clause_size (arena s) ref = 0 then (False, s)
      else if clause_size (arena s) ref = 1
      then (case enqueue (clause_literal (arena s) ref 0) (Some ref) s of
              (False, s) \<Rightarrow> (False, s)
            | (True, s) \<Rightarrow> enqueue_units refs s)
      else enqueue_units refs s)"

lemma length_heap_down_from: "length (heap (heap_down_from v p q)) = length (heap q)"
  by (induction v p q rule: heap_down_from.induct) (subst heap_down_from.simps, simp add: Let_def)

lemma length_pop_best: "(c, q') = pop_best q \<Longrightarrow> heap q \<noteq> [] \<Longrightarrow> length (heap q') < length (heap q)"
  by (auto simp: pop_best_def Let_def length_heap_down_from)

function pick_decision :: "sat \<Rightarrow> nat option \<times> sat" where
  "pick_decision s =
     (if order_empty (order s) then (None, s)
      else let (candidate, q) = pop_best (order s); s = s\<lparr>order := q\<rparr>
           in if val s ! candidate = None then (Some candidate, s) else pick_decision s)"
  by pat_completeness auto
termination
  by (relation "measure (\<lambda>s. length (heap (order s)))") (auto simp: order_empty_def dest: length_pop_best)

declare pick_decision.simps [simp del]

text \<open>One round of the search loop: a result, or the state for the next round with the restart counters.\<close>

definition resolve_conflict :: "nat \<Rightarrow> sat \<Rightarrow> nat \<Rightarrow> nat \<Rightarrow> ((sat_result \<times> sat) + (sat \<times> nat \<times> nat)) option" where
  "resolve_conflict confl s restart_limit since_restart =
     (let s = s\<lparr>conflicts := conflicts s + 1\<rparr>; since_restart = since_restart + 1
      in if at_root (tr s) then Some (Inl (infeasible, s))
         else case analyze_first_uip confl s of
           None \<Rightarrow> None
         | Some (cls, backtrack_depth, lbd, s) \<Rightarrow>
             let s = backtrack backtrack_depth s;
                 (ref, s) = sat_add cls True lbd s;
                 (ok, s) = enqueue (cls ! 0) (Some ref) s;
                 s = (if conflicts s mod database_reduction_interval = 0 then reduce_database s else s)
             in if since_restart \<ge> restart_limit
                then Some (Inr (backtrack 0 s,
                       (if restart_limit < restart_growth_limit then restart_limit * 3 div 2 else restart_initial_limit s), 0))
                else Some (Inr (s, restart_limit, since_restart)))"

definition decide :: "sat \<Rightarrow> nat \<Rightarrow> nat \<Rightarrow> (sat_result \<times> sat) + (sat \<times> nat \<times> nat)" where
  "decide s restart_limit since_restart =
     (case pick_decision s of
        (None, s) \<Rightarrow> Inl (successful, s)
      | (Some v, s) \<Rightarrow>
          let s = s\<lparr>tr := start_decision_depth (tr s)\<rparr>
          in Inr (snd (enqueue (LIT v (phase s ! v)) None s), restart_limit, since_restart))"

definition solve_round ::
    "(poll \<Rightarrow> bool) \<Rightarrow> sat \<Rightarrow> nat \<Rightarrow> nat \<Rightarrow> ((sat_result \<times> sat) + (sat \<times> nat \<times> nat)) option" where
  "solve_round stop s restart_limit since_restart =
     (let s = s\<lparr>steps := steps s + 1\<rparr>
      in if steps s mod solve_stop_poll_period = 0 \<and> stop (poll_step (steps s)) then Some (Inl (stopped, s))
         else case propagate stop s of
           None \<Rightarrow> None
         | Some (propagation_stopped, s) \<Rightarrow> Some (Inl (stopped, s))
         | Some (conflict ref, s) \<Rightarrow> resolve_conflict ref s restart_limit since_restart
         | Some (no_conflict, s) \<Rightarrow> Some (decide s restart_limit since_restart))"

partial_function (option) solve_loop :: "(poll \<Rightarrow> bool) \<Rightarrow> sat \<Rightarrow> nat \<Rightarrow> nat \<Rightarrow> (sat_result \<times> sat) option" where
  "solve_loop stop s restart_limit since_restart =
     (case solve_round stop s restart_limit since_restart of
        None \<Rightarrow> None
      | Some (Inl result) \<Rightarrow> Some result
      | Some (Inr (s, restart_limit, since_restart)) \<Rightarrow> solve_loop stop s restart_limit since_restart)"

declare propagate.simps [code] solve_loop.simps [code]

definition solve :: "(poll \<Rightarrow> bool) \<Rightarrow> sat \<Rightarrow> (sat_result \<times> sat) option" where
  "solve stop s =
     (case enqueue_units (clause_refs s) s of
        (False, s) \<Rightarrow> Some (infeasible, s)
      | (True, s) \<Rightarrow> solve_loop stop s (restart_initial_limit s) 0)"

definition value_bits :: "sat \<Rightarrow> int list" where
  "value_bits s = map (\<lambda>x. case x of None \<Rightarrow> - 1 | Some b \<Rightarrow> of_bool b) (val s)"

text \<open>The whole search: encoding, elimination, search, and the way back to the model's variables.\<close>

definition fj_bin_sat_search ::
    "(rat \<Rightarrow> rat) \<Rightarrow> fj_bin_problem \<Rightarrow> int list \<Rightarrow> 64 word \<Rightarrow> (poll \<Rightarrow> bool) \<Rightarrow> (sat_result \<times> int list \<times> nat) option" where
  "fj_bin_sat_search fl pb assignment seed stop =
     (case encode_pb_model pb (\<lambda>r. stop (poll_row r)) of (encoding_result, variables, cnf) \<Rightarrow>
        if encoding_result \<noteq> successful then Some (encoding_result, assignment, 0)
        else case presolve cnf variables (n_variables pb) (\<lambda>v. stop (poll_variable v)) of
          None \<Rightarrow> Some (stopped, assignment, 0)
        | Some (cnf, bve) \<Rightarrow>
            let compact_initial_assignment = map (\<lambda>k. assignment ! (compact_to_original bve ! k)) [0..<model_variables bve];
                s = sat_t fl (length (compact_to_original bve)) cnf compact_initial_assignment seed
            in case solve stop s of
                 None \<Rightarrow> None
               | Some (result, s) \<Rightarrow>
                   if result = successful
                   then let initial_assignment = assignment @ replicate (variables - length assignment) 0;
                            full_value = postsolve bve (value_bits s) initial_assignment
                        in Some (result, take (n_variables pb) full_value @ drop (n_variables pb) assignment, steps s)
                   else Some (result, assignment, steps s))"

end
