(* ===== verification/Sat_Invariants.thy ===== *)
theory Sat_Invariants
  imports Sat_Search
begin

text \<open>
  Invariants of the clause search and how assignment, clause insertion, backtracking and the
  reduction of the clause database keep them. A literal is true when it is on the trail and false
  when its negation is. Each invariant is a predicate of the components it is about.
\<close>

section \<open>The trail\<close>

definition trail_pre :: "nat \<Rightarrow> bool option list \<Rightarrow> nat list \<Rightarrow> trail \<Rightarrow> bool" where
  "trail_pre n vl dep t \<longleftrightarrow> length vl = n \<and> length dep = n \<and> distinct (map LIT_VAR (literals t))
     \<and> (\<forall>l \<in> set (literals t). LIT_VAR l < n) \<and> (\<forall>v < n. \<forall>b. vl ! v = Some b \<longleftrightarrow> LIT v b \<in> set (literals t))
     \<and> sorted_wrt (<) (depth_starts t) \<and> (\<forall>d \<in> set (depth_starts t). d \<le> propagation_head t)
     \<and> propagation_head t \<le> length (literals t)
     \<and> (\<forall>i < length (literals t). dep ! LIT_VAR (literals t ! i) = length (filter (\<lambda>d. d \<le> i) (depth_starts t)))"

lemma trail_pre_D:
  assumes "trail_pre n vl dep t"
  shows tp_len: "length vl = n" "length dep = n" and tp_distinct: "distinct (map LIT_VAR (literals t))"
    and tp_var: "\<And>l. l \<in> set (literals t) \<Longrightarrow> LIT_VAR l < n"
    and tp_val: "\<And>v b. v < n \<Longrightarrow> vl ! v = Some b \<longleftrightarrow> LIT v b \<in> set (literals t)"
    and tp_sorted: "sorted_wrt (<) (depth_starts t)"
    and tp_start: "\<And>d. d \<in> set (depth_starts t) \<Longrightarrow> d \<le> propagation_head t"
    and tp_head: "propagation_head t \<le> length (literals t)"
    and tp_depth: "\<And>i. i < length (literals t) \<Longrightarrow> dep ! LIT_VAR (literals t ! i) = length (filter (\<lambda>d. d \<le> i) (depth_starts t))"
  using assms unfolding trail_pre_def by blast+

text \<open>Between starting a depth and its decision, the last depth is empty; otherwise it is not.\<close>

definition trail_ok :: "nat \<Rightarrow> bool option list \<Rightarrow> nat list \<Rightarrow> trail \<Rightarrow> bool" where
  "trail_ok n vl dep t \<longleftrightarrow> trail_pre n vl dep t \<and> (\<forall>d \<in> set (depth_starts t). d < length (literals t))"

lemma trail_ok_D:
  assumes "trail_ok n vl dep t"
  shows tr_len: "length vl = n" "length dep = n" and tr_distinct: "distinct (map LIT_VAR (literals t))"
    and tr_var: "\<And>l. l \<in> set (literals t) \<Longrightarrow> LIT_VAR l < n"
    and tr_val: "\<And>v b. v < n \<Longrightarrow> vl ! v = Some b \<longleftrightarrow> LIT v b \<in> set (literals t)"
    and tr_sorted: "sorted_wrt (<) (depth_starts t)"
    and tr_start: "\<And>d. d \<in> set (depth_starts t) \<Longrightarrow> d < length (literals t)" "\<And>d. d \<in> set (depth_starts t) \<Longrightarrow> d \<le> propagation_head t"
    and tr_head: "propagation_head t \<le> length (literals t)"
    and tr_depth: "\<And>i. i < length (literals t) \<Longrightarrow> dep ! LIT_VAR (literals t ! i) = length (filter (\<lambda>d. d \<le> i) (depth_starts t))"
  using assms trail_pre_D [of n vl dep t] unfolding trail_ok_def by blast+

lemma eval_None: "eval_literal s l = None \<longleftrightarrow> val s ! LIT_VAR l = None"
  by (simp add: eval_literal_def)

lemma eval_True:
  assumes "trail_ok n (val s) dep (tr s)" "LIT_VAR l < n"
  shows "eval_literal s l = Some True \<longleftrightarrow> l \<in> set (literals (tr s))"
proof -
  have "eval_literal s l = Some True \<longleftrightarrow> val s ! LIT_VAR l = Some (LIT_POLARITY l)" by (auto simp: eval_literal_def)
  then show ?thesis using tr_val [OF assms(1,2), of "LIT_POLARITY l"] by (simp add: LIT_collapse)
qed

lemma eval_False:
  assumes "trail_ok n (val s) dep (tr s)" "LIT_VAR l < n"
  shows "eval_literal s l = Some False \<longleftrightarrow> LIT_NEG l \<in> set (literals (tr s))"
proof -
  have "eval_literal s l = Some False \<longleftrightarrow> eval_literal s (LIT_NEG l) = Some True" by (auto simp: eval_literal_def)
  then show ?thesis using eval_True [OF assms(1), of "LIT_NEG l"] assms(2) by simp
qed

lemma trail_consistent: "trail_ok n vl dep t \<Longrightarrow> l \<in> set (literals t) \<Longrightarrow> LIT_NEG l \<notin> set (literals t)"
proof
  assume ok: "trail_ok n vl dep t" and l: "l \<in> set (literals t)" "LIT_NEG l \<in> set (literals t)"
  have v: "LIT_VAR l < n" using tr_var [OF ok l(1)] .
  have "vl ! LIT_VAR l = Some (LIT_POLARITY l)" "vl ! LIT_VAR l = Some (LIT_POLARITY (LIT_NEG l))"
    using tr_val [OF ok v, of "LIT_POLARITY l"] tr_val [OF ok v, of "LIT_POLARITY (LIT_NEG l)"] l LIT_collapse [of l] LIT_collapse [of "LIT_NEG l"]
    by simp_all
  then show False by simp
qed

lemma depth_le: "trail_ok n vl dep t \<Longrightarrow> l \<in> set (literals t) \<Longrightarrow> dep ! LIT_VAR l \<le> decision_depth t"
  by (auto simp: in_set_conv_nth tr_depth decision_depth_def intro: length_filter_le)

lemma pending_depth:
  assumes ok: "trail_ok n vl dep t" and i: "propagation_head t \<le> i" "i < length (literals t)"
  shows "dep ! LIT_VAR (literals t ! i) = decision_depth t"
proof -
  have "filter (\<lambda>d. d \<le> i) (depth_starts t) = depth_starts t"
    using tr_start(2) [OF ok] i(1) by (intro filter_True) (auto intro: order_trans)
  then show ?thesis using tr_depth [OF ok i(2)] by (simp add: decision_depth_def)
qed

lemma depth_mono:
  assumes ok: "trail_ok n vl dep t" and i: "i \<le> j" "j < length (literals t)"
  shows "dep ! LIT_VAR (literals t ! i) \<le> dep ! LIT_VAR (literals t ! j)"
proof -
  have "length (filter (\<lambda>d. d \<le> i) ds) \<le> length (filter (\<lambda>d. d \<le> j) ds)" for ds
    using i(1) by (induction ds) auto
  then show ?thesis using tr_depth [OF ok] i by simp
qed

lemma trail_length: "trail_ok n vl dep t \<Longrightarrow> length (literals t) \<le> n"
proof -
  assume ok: "trail_ok n vl dep t"
  have "card (set (map LIT_VAR (literals t))) \<le> card {..<n}" using tr_var [OF ok] by (intro card_mono) auto
  then show ?thesis using distinct_card [OF tr_distinct [OF ok]] by simp
qed

text \<open>Assigning an unassigned variable extends the trail.\<close>

definition assigned :: "nat \<Rightarrow> nat option \<Rightarrow> sat \<Rightarrow> sat" where
  "assigned lit why s =
     s\<lparr>val := (val s)[LIT_VAR lit := Some (LIT_POLARITY lit)], phase := (phase s)[LIT_VAR lit := LIT_POLARITY lit],
       assignment_depth := (assignment_depth s)[LIT_VAR lit := decision_depth (tr s)],
       reason := (reason s)[LIT_VAR lit := why], tr := trail_enqueue lit (tr s)\<rparr>"

lemma enqueue_eq:
  "enqueue lit why s = (case eval_literal s lit of Some state \<Rightarrow> (state, s) | None \<Rightarrow> (True, assigned lit why s))"
  by (cases "eval_literal s lit") (simp_all add: enqueue_def assigned_def Let_def)

lemma assigned_trail_ok:
  assumes ok: "trail_pre n (val s) (assignment_depth s) (tr s)" and v: "LIT_VAR lit < n" and new: "val s ! LIT_VAR lit = None"
  shows "trail_ok n (val (assigned lit why s)) (assignment_depth (assigned lit why s)) (tr (assigned lit why s))"
proof -
  let ?M = "literals (tr s)" and ?v = "LIT_VAR lit"
  have fresh: "?v \<notin> LIT_VAR ` set ?M"
  proof
    assume "?v \<in> LIT_VAR ` set ?M"
    then obtain l where "l \<in> set ?M" "LIT_VAR l = ?v" by auto
    then show False using tp_val [OF ok v, of "LIT_POLARITY l"] new LIT_collapse [of l] by simp
  qed
  have vals: "(val s)[?v := Some (LIT_POLARITY lit)] ! u = Some b \<longleftrightarrow> LIT u b \<in> set (?M @ [lit])" if "u < n" for u b
  proof (cases "u = ?v")
    case True
    have "LIT u b \<notin> set ?M" using fresh True imageI [of "LIT u b" "set ?M" LIT_VAR] by auto
    moreover have "LIT u b = lit \<longleftrightarrow> LIT_POLARITY lit = b" using True by (cases lit rule: LIT_cases) auto
    ultimately show ?thesis using True v tp_len [OF ok] by auto
  next
    case False
    then have "LIT u b \<noteq> lit" by auto
    then show ?thesis using False tp_val [OF ok that] by simp
  qed
  have "(assignment_depth s)[?v := decision_depth (tr s)] ! LIT_VAR ((?M @ [lit]) ! i) = length (filter (\<lambda>d. d \<le> i) (depth_starts (tr s)))"
    if "i < length (?M @ [lit])" for i
  proof (cases "i = length ?M")
    case True
    have "filter (\<lambda>d. d \<le> length ?M) (depth_starts (tr s)) = depth_starts (tr s)"
      using tp_start [OF ok] tp_head [OF ok] by (intro filter_True) (auto intro: order_trans)
    then show ?thesis using True v tp_len [OF ok] by (simp add: decision_depth_def)
  next
    case False
    then have i: "i < length ?M" using that by simp
    then have "LIT_VAR (?M ! i) \<noteq> ?v" using fresh by (metis imageI nth_mem)
    then show ?thesis using tp_depth [OF ok i] i by (simp add: nth_append)
  qed
  note depths = this
  have lits: "literals (tr (assigned lit why s)) = ?M @ [lit]" "depth_starts (tr (assigned lit why s)) = depth_starts (tr s)"
    "propagation_head (tr (assigned lit why s)) = propagation_head (tr s)"
    "val (assigned lit why s) = (val s)[?v := Some (LIT_POLARITY lit)]"
    "assignment_depth (assigned lit why s) = (assignment_depth s)[?v := decision_depth (tr s)]"
    by (simp_all add: assigned_def trail_enqueue_def)
  show ?thesis
    unfolding trail_ok_def trail_pre_def lits
  proof (intro conjI allI ballI impI)
    show "distinct (map LIT_VAR (?M @ [lit]))" using tp_distinct [OF ok] fresh by simp
    show "LIT_VAR l < n" if "l \<in> set (?M @ [lit])" for l using that tp_var [OF ok] v by auto
    show "d < length (?M @ [lit])" "d \<le> propagation_head (tr s)" if "d \<in> set (depth_starts (tr s))" for d
      using tp_start [OF ok that] tp_head [OF ok] by simp_all
  qed (use vals depths tp_len [OF ok] tp_sorted [OF ok] tp_head [OF ok] in simp_all)
qed

section \<open>Reasons, clauses and watches\<close>

text \<open>A literal with a reason is the only one of its clause not false before it; one without starts a depth.\<close>

definition reason_ok :: "nat set \<Rightarrow> arena \<Rightarrow> nat option list \<Rightarrow> trail \<Rightarrow> bool" where
  "reason_ok refs a rs t \<longleftrightarrow> (\<forall>i < length (literals t). case rs ! LIT_VAR (literals t ! i) of
       None \<Rightarrow> i \<in> set (depth_starts t)
     | Some r \<Rightarrow> r \<in> refs \<and> literals t ! i \<in> set (clause_lits a r)
         \<and> (\<forall>l \<in> set (clause_lits a r). l \<noteq> literals t ! i \<longrightarrow> LIT_NEG l \<in> set (take i (literals t))))"

text \<open>Stored clauses are canonical and follow from the input, which they contain; only learned ones are deleted.\<close>

definition clauses_ok :: "nat \<Rightarrow> clause list \<Rightarrow> nat set \<Rightarrow> arena \<Rightarrow> bool" where
  "clauses_ok n F refs a \<longleftrightarrow> arena_wf refs a
     \<and> (\<forall>r \<in> refs. canonical (clause_lits a r) \<and> (\<forall>l \<in> set (clause_lits a r). LIT_VAR l < n)
          \<and> (\<forall>\<alpha>. sat_cnf \<alpha> F \<longrightarrow> sat_clause \<alpha> (clause_lits a r)) \<and> (deleted a r \<longrightarrow> learned a r))
     \<and> (\<forall>C \<in> set F. \<exists>r \<in> refs. set (clause_lits a r) = set C \<and> \<not> learned a r)"

text \<open>A clause of two or more literals is watched by its first two; watch lists hold nothing else.\<close>

definition watch_ok :: "nat \<Rightarrow> nat set \<Rightarrow> arena \<Rightarrow> watch list list \<Rightarrow> bool" where
  "watch_ok n refs a W \<longleftrightarrow> length W = 2 * n
     \<and> (\<forall>r \<in> refs. \<not> deleted a r \<longrightarrow> 2 \<le> clause_size a r \<longrightarrow>
          (\<forall>i < 2. r \<in> set (map fst (W ! (clause_lits a r ! i)))))
     \<and> (\<forall>x < 2 * n. distinct (map fst (W ! x)) \<and> (\<forall>(r, b) \<in> set (W ! x). b \<in> set (clause_lits a r))
          \<and> (\<forall>r \<in> set (map fst (W ! x)). r \<in> refs \<and> 2 \<le> clause_size a r \<and> (\<exists>i < 2. x = clause_lits a r ! i)))"

text \<open>A watch that is false and propagated has a true literal of no larger depth in its clause.\<close>

definition covered :: "arena \<Rightarrow> nat list \<Rightarrow> trail \<Rightarrow> nat \<Rightarrow> nat \<Rightarrow> bool" where
  "covered a dep t r x \<longleftrightarrow> (\<exists>y \<in> set (clause_lits a r). y \<in> set (literals t) \<and> dep ! LIT_VAR y \<le> dep ! LIT_VAR x)"

definition watch_sem :: "nat set \<Rightarrow> arena \<Rightarrow> nat list \<Rightarrow> trail \<Rightarrow> (nat \<times> nat) set \<Rightarrow> bool" where
  "watch_sem refs a dep t exempt \<longleftrightarrow> (\<forall>r \<in> refs. \<not> deleted a r \<longrightarrow> 2 \<le> clause_size a r \<longrightarrow>
     (\<forall>i < 2. let x = clause_lits a r ! i in (r, x) \<notin> exempt \<longrightarrow> LIT_NEG x \<in> set (take (propagation_head t) (literals t))
        \<longrightarrow> covered a dep t r x))"

text \<open>Unassigned variables can still be chosen.\<close>

definition order_ok :: "nat \<Rightarrow> bool option list \<Rightarrow> variable_order \<Rightarrow> bool" where
  "order_ok n vl q \<longleftrightarrow> order_good n q \<and> (\<forall>v < n. vl ! v = None \<longrightarrow> v \<in> members q)"

text \<open>Input clauses have literals; a single one is on the trail at depth 0.\<close>

definition units_ok :: "nat set \<Rightarrow> arena \<Rightarrow> nat list \<Rightarrow> trail \<Rightarrow> bool" where
  "units_ok refs a dep t \<longleftrightarrow> (\<forall>r \<in> refs. \<not> learned a r \<longrightarrow> clause_size a r \<noteq> 0
     \<and> (clause_size a r = 1 \<longrightarrow> clause_lits a r ! 0 \<in> set (literals t) \<and> dep ! LIT_VAR (clause_lits a r ! 0) = 0))"

abbreviation refs :: "sat \<Rightarrow> nat set" where "refs s \<equiv> set (clause_refs s)"

definition base_inv :: "nat \<Rightarrow> clause list \<Rightarrow> sat \<Rightarrow> bool" where
  "base_inv n F s \<longleftrightarrow> trail_ok n (val s) (assignment_depth s) (tr s) \<and> length (reason s) = n \<and> length (phase s) = n
     \<and> reason_ok (refs s) (arena s) (reason s) (tr s) \<and> clauses_ok n F (refs s) (arena s)
     \<and> order_ok n (val s) (order s) \<and> seen s = replicate n False \<and> 0 < decay s"

definition search_inv :: "nat \<Rightarrow> clause list \<Rightarrow> sat \<Rightarrow> bool" where
  "search_inv n F s \<longleftrightarrow> base_inv n F s \<and> watch_ok n (refs s) (arena s) (watches s)
     \<and> watch_sem (refs s) (arena s) (assignment_depth s) (tr s) {} \<and> units_ok (refs s) (arena s) (assignment_depth s) (tr s)"

lemma base_inv_D:
  assumes "base_inv n F s"
  shows "trail_ok n (val s) (assignment_depth s) (tr s)" "length (reason s) = n" "length (phase s) = n"
    "reason_ok (refs s) (arena s) (reason s) (tr s)" "clauses_ok n F (refs s) (arena s)"
    "order_ok n (val s) (order s)" "seen s = replicate n False" "0 < decay s"
  using assms unfolding base_inv_def by blast+

lemma clauses_ok_D:
  assumes "clauses_ok n F R a"
  shows ck_wf: "arena_wf R a" and ck_canonical: "\<And>r. r \<in> R \<Longrightarrow> canonical (clause_lits a r)"
    and ck_var: "\<And>r l. r \<in> R \<Longrightarrow> l \<in> set (clause_lits a r) \<Longrightarrow> LIT_VAR l < n"
    and ck_implied: "\<And>r \<alpha>. r \<in> R \<Longrightarrow> sat_cnf \<alpha> F \<Longrightarrow> sat_clause \<alpha> (clause_lits a r)"
    and ck_deleted: "\<And>r. r \<in> R \<Longrightarrow> deleted a r \<Longrightarrow> learned a r"
    and ck_input: "\<And>C. C \<in> set F \<Longrightarrow> \<exists>r \<in> R. set (clause_lits a r) = set C \<and> \<not> learned a r"
  using assms unfolding clauses_ok_def by blast+

lemma reason_ok_D:
  assumes "reason_ok R a rs t" "i < length (literals t)"
  shows reason_None: "rs ! LIT_VAR (literals t ! i) = None \<Longrightarrow> i \<in> set (depth_starts t)"
    and reason_ref: "rs ! LIT_VAR (literals t ! i) = Some r \<Longrightarrow> r \<in> R"
    and reason_lit: "rs ! LIT_VAR (literals t ! i) = Some r \<Longrightarrow> literals t ! i \<in> set (clause_lits a r)"
    and reason_false: "rs ! LIT_VAR (literals t ! i) = Some r \<Longrightarrow> l \<in> set (clause_lits a r) \<Longrightarrow> l \<noteq> literals t ! i \<Longrightarrow>
           LIT_NEG l \<in> set (take i (literals t))"
proof -
  have at: "case rs ! LIT_VAR (literals t ! i) of None \<Rightarrow> i \<in> set (depth_starts t)
     | Some r \<Rightarrow> r \<in> R \<and> literals t ! i \<in> set (clause_lits a r)
         \<and> (\<forall>l \<in> set (clause_lits a r). l \<noteq> literals t ! i \<longrightarrow> LIT_NEG l \<in> set (take i (literals t)))"
    using assms unfolding reason_ok_def by blast
  show "rs ! LIT_VAR (literals t ! i) = None \<Longrightarrow> i \<in> set (depth_starts t)" using at by simp
  show "r \<in> R" "literals t ! i \<in> set (clause_lits a r)" if "rs ! LIT_VAR (literals t ! i) = Some r" using at that by simp_all
  show "LIT_NEG l \<in> set (take i (literals t))" if "rs ! LIT_VAR (literals t ! i) = Some r" "l \<in> set (clause_lits a r)" "l \<noteq> literals t ! i"
    using at that by simp
qed

text \<open>Everything on the trail below the first decision follows from the input.\<close>

lemma depth_zero_index:
  assumes ok: "trail_ok n vl dep t" and i: "i < length (literals t)" and z: "dep ! LIT_VAR (literals t ! i) = 0"
  shows "\<forall>d \<in> set (depth_starts t). i < d"
  using tr_depth [OF ok i] z by (auto simp: filter_empty_conv not_le)

lemma root_implied:
  assumes ok: "trail_ok n vl dep t" and rs: "reason_ok R a rs t" and cl: "clauses_ok n F R a" and sat: "sat_cnf \<alpha> F"
    and i: "i < length (literals t)" and z: "dep ! LIT_VAR (literals t ! i) = 0"
  shows "sat_lit \<alpha> (literals t ! i)"
  using i z
proof (induction i rule: less_induct)
  case (less i)
  have "i \<notin> set (depth_starts t)" using depth_zero_index [OF ok less.prems] by blast
  then obtain r where r: "rs ! LIT_VAR (literals t ! i) = Some r" using reason_None [OF rs less.prems(1)] by auto
  have neg: "\<not> sat_lit \<alpha> l" if l: "l \<in> set (clause_lits a r)" "l \<noteq> literals t ! i" for l
  proof -
    obtain j where j: "j < i" "literals t ! j = LIT_NEG l"
      using reason_false [OF rs less.prems(1) r l] by (auto simp: in_set_conv_nth)
    have "dep ! LIT_VAR (literals t ! j) \<le> 0" using depth_mono [OF ok, of j i] j(1) less.prems by simp
    then show ?thesis using less.IH [OF j(1)] j less.prems(1) by simp
  qed
  show ?case using ck_implied [OF cl reason_ref [OF rs less.prems(1) r] sat] neg unfolding sat_clause_def by blast
qed

section \<open>Assigning a variable\<close>

lemma assigned_sel [simp]:
  "arena (assigned lit why s) = arena s" "clause_refs (assigned lit why s) = clause_refs s" "watches (assigned lit why s) = watches s"
  "seen (assigned lit why s) = seen s" "order (assigned lit why s) = order s" "decay (assigned lit why s) = decay s"
  "literals (tr (assigned lit why s)) = literals (tr s) @ [lit]" "depth_starts (tr (assigned lit why s)) = depth_starts (tr s)"
  "propagation_head (tr (assigned lit why s)) = propagation_head (tr s)" "steps (assigned lit why s) = steps s"
  "conflicts (assigned lit why s) = conflicts s" "restart_initial_limit (assigned lit why s) = restart_initial_limit s"
  by (simp_all add: assigned_def trail_enqueue_def)

lemma fresh_var:
  assumes "trail_pre n (val s) dep (tr s)" "LIT_VAR lit < n" "val s ! LIT_VAR lit = None" "l \<in> set (literals (tr s))"
  shows "LIT_VAR l \<noteq> LIT_VAR lit"
proof
  assume "LIT_VAR l = LIT_VAR lit"
  then show False using tp_val [OF assms(1,2), of "LIT_POLARITY l"] assms(3,4) LIT_collapse [of l] by simp
qed

lemma assigned_reason_ok:
  assumes ok: "trail_pre n (val s) (assignment_depth s) (tr s)" and rs: "reason_ok R (arena s) (reason s) (tr s)"
    and len: "length (reason s) = n" and v: "LIT_VAR lit < n" and new: "val s ! LIT_VAR lit = None"
    and none: "why = None \<Longrightarrow> length (literals (tr s)) \<in> set (depth_starts (tr s))"
    and some: "\<And>r. why = Some r \<Longrightarrow> r \<in> R \<and> lit \<in> set (clause_lits (arena s) r)
       \<and> (\<forall>l \<in> set (clause_lits (arena s) r). l \<noteq> lit \<longrightarrow> LIT_NEG l \<in> set (literals (tr s)))"
  shows "reason_ok R (arena s) (reason (assigned lit why s)) (tr (assigned lit why s))"
  unfolding reason_ok_def
proof (intro allI impI)
  fix i assume i: "i < length (literals (tr (assigned lit why s)))"
  let ?M = "literals (tr s)"
  have upd: "reason (assigned lit why s) = (reason s)[LIT_VAR lit := why]" by (simp add: assigned_def)
  show "case reason (assigned lit why s) ! LIT_VAR (literals (tr (assigned lit why s)) ! i) of
       None \<Rightarrow> i \<in> set (depth_starts (tr (assigned lit why s)))
     | Some r \<Rightarrow> r \<in> R \<and> literals (tr (assigned lit why s)) ! i \<in> set (clause_lits (arena s) r)
         \<and> (\<forall>l \<in> set (clause_lits (arena s) r). l \<noteq> literals (tr (assigned lit why s)) ! i \<longrightarrow>
               LIT_NEG l \<in> set (take i (literals (tr (assigned lit why s)))))"
  proof (cases "i = length ?M")
    case True
    then show ?thesis using none some v len upd by (auto split: option.splits)
  next
    case False
    then have j: "i < length ?M" using i by simp
    have "LIT_VAR (?M ! i) \<noteq> LIT_VAR lit" using fresh_var [OF ok v new nth_mem [OF j]] .
    then show ?thesis
      using reason_ok_D [OF rs j] j upd by (cases "reason s ! LIT_VAR (?M ! i)") (simp_all add: nth_append)
  qed
qed

lemma covered_mono:
  assumes "covered a dep t r x" "\<And>l. l \<in> set (literals t) \<Longrightarrow> l \<in> set (literals t') \<and> dep' ! LIT_VAR l = dep ! LIT_VAR l"
    and "dep' ! LIT_VAR x = dep ! LIT_VAR x"
  shows "covered a dep' t' r x"
proof -
  obtain y where "y \<in> set (clause_lits a r)" "y \<in> set (literals t)" "dep ! LIT_VAR y \<le> dep ! LIT_VAR x"
    using assms(1) by (auto simp: covered_def)
  then show ?thesis using assms(2) [of y] assms(3) unfolding covered_def by (intro bexI [of _ y]) auto
qed

lemma assigned_depth_same:
  assumes "trail_pre n (val s) (assignment_depth s) (tr s)" "LIT_VAR lit < n" "val s ! LIT_VAR lit = None" "l \<in> set (literals (tr s))"
  shows "assignment_depth (assigned lit why s) ! LIT_VAR l = assignment_depth s ! LIT_VAR l"
  using fresh_var [OF assms] by (simp add: assigned_def)

lemma watch_sem_D:
  assumes "watch_sem R a dep t E" "r \<in> R" "\<not> deleted a r" "2 \<le> clause_size a r" "i < 2" "(r, clause_lits a r ! i) \<notin> E"
    "LIT_NEG (clause_lits a r ! i) \<in> set (take (propagation_head t) (literals t))"
  shows "covered a dep t r (clause_lits a r ! i)"
  using assms unfolding watch_sem_def Let_def by blast

lemma watch_semI:
  assumes "\<And>r i. r \<in> R \<Longrightarrow> \<not> deleted a r \<Longrightarrow> 2 \<le> clause_size a r \<Longrightarrow> i < 2 \<Longrightarrow> (r, clause_lits a r ! i) \<notin> E \<Longrightarrow>
    LIT_NEG (clause_lits a r ! i) \<in> set (take (propagation_head t) (literals t)) \<Longrightarrow> covered a dep t r (clause_lits a r ! i)"
  shows "watch_sem R a dep t E"
  using assms unfolding watch_sem_def Let_def by blast

lemma assigned_watch_sem:
  assumes ok: "trail_pre n (val s) (assignment_depth s) (tr s)" and v: "LIT_VAR lit < n" "val s ! LIT_VAR lit = None"
    and ws: "watch_sem R a (assignment_depth s) (tr s) E"
  shows "watch_sem R a (assignment_depth (assigned lit why s)) (tr (assigned lit why s)) E"
proof (rule watch_semI)
  fix r i assume r: "r \<in> R" "\<not> deleted a r" "2 \<le> clause_size a r" "i < 2" "(r, clause_lits a r ! i) \<notin> E"
    and false: "LIT_NEG (clause_lits a r ! i) \<in> set (take (propagation_head (tr (assigned lit why s))) (literals (tr (assigned lit why s))))"
  let ?x = "clause_lits a r ! i"
  have f: "LIT_NEG ?x \<in> set (take (propagation_head (tr s)) (literals (tr s)))"
    using false tp_head [OF ok] by simp
  then have "LIT_NEG ?x \<in> set (literals (tr s))" by (rule in_set_takeD)
  then have "assignment_depth (assigned lit why s) ! LIT_VAR ?x = assignment_depth s ! LIT_VAR ?x"
    using assigned_depth_same [OF ok v, of "LIT_NEG ?x"] by simp
  then show "covered a (assignment_depth (assigned lit why s)) (tr (assigned lit why s)) r ?x"
    using covered_mono [OF watch_sem_D [OF ws r f]] assigned_depth_same [OF ok v] by simp
qed

lemma assigned_units_ok:
  assumes ok: "trail_pre n (val s) (assignment_depth s) (tr s)" and v: "LIT_VAR lit < n" "val s ! LIT_VAR lit = None"
    and u: "units_ok R a (assignment_depth s) (tr s)"
  shows "units_ok R a (assignment_depth (assigned lit why s)) (tr (assigned lit why s))"
  using u assigned_depth_same [OF ok v] unfolding units_ok_def by simp

lemma assigned_order_ok:
  assumes "order_ok n (val s) (order s)" "length (val s) = n"
  shows "order_ok n (val (assigned lit why s)) (order (assigned lit why s))"
proof -
  have "v \<in> members (order s)" if "v < n" "(val s)[LIT_VAR lit := Some (LIT_POLARITY lit)] ! v = None" for v
    using assms that by (cases "v = LIT_VAR lit") (auto simp: order_ok_def)
  then show ?thesis using assms(1) by (simp add: order_ok_def assigned_def)
qed

text \<open>Together: an assignment with a reason keeps the invariants.\<close>

lemma assigned_base_inv:
  assumes inv: "base_inv n F s" and v: "LIT_VAR lit < n" "val s ! LIT_VAR lit = None"
    and r: "r \<in> refs s" "lit \<in> set (clause_lits (arena s) r)"
      "\<forall>l \<in> set (clause_lits (arena s) r). l \<noteq> lit \<longrightarrow> LIT_NEG l \<in> set (literals (tr s))"
  shows "base_inv n F (assigned lit (Some r) s)"
proof -
  note i = base_inv_D [OF inv]
  have pre: "trail_pre n (val s) (assignment_depth s) (tr s)" using i(1) by (simp add: trail_ok_def)
  show ?thesis
    unfolding base_inv_def
    using assigned_trail_ok [OF pre v, of "Some r"] assigned_reason_ok [OF pre i(4,2) v, of "Some r"]
      assigned_order_ok [OF i(6), of lit "Some r"] tr_len [OF i(1)] i r
    by (auto simp: assigned_def)
qed

end
