(* ===== verification/Sat_Propagation.thy ===== *)
theory Sat_Propagation
  imports Sat_Invariants
begin

text \<open>
  Unit propagation with two watched literals: the walk over a watch list keeps the invariants,
  propagation ends, and it ends either with every false watch covered or with a clause whose
  literals are all false.
\<close>

section \<open>Reordering literals inside clauses\<close>

lemma watch_ok_D:
  assumes "watch_ok n R a W"
  shows wk_len: "length W = 2 * n"
    and wk_watched: "\<And>r i. r \<in> R \<Longrightarrow> \<not> deleted a r \<Longrightarrow> 2 \<le> clause_size a r \<Longrightarrow> i < 2 \<Longrightarrow> r \<in> set (map fst (W ! (clause_lits a r ! i)))"
    and wk_distinct: "\<And>x. x < 2 * n \<Longrightarrow> distinct (map fst (W ! x))"
    and wk_blocker: "\<And>x r b. x < 2 * n \<Longrightarrow> (r, b) \<in> set (W ! x) \<Longrightarrow> b \<in> set (clause_lits a r)"
    and wk_ref: "\<And>x r. x < 2 * n \<Longrightarrow> r \<in> set (map fst (W ! x)) \<Longrightarrow> r \<in> R"
    and wk_size: "\<And>x r. x < 2 * n \<Longrightarrow> r \<in> set (map fst (W ! x)) \<Longrightarrow> 2 \<le> clause_size a r"
    and wk_lit: "\<And>x r. x < 2 * n \<Longrightarrow> r \<in> set (map fst (W ! x)) \<Longrightarrow> \<exists>i < 2. x = clause_lits a r ! i"
  using assms unfolding watch_ok_def by (blast, blast, blast, fast, blast, blast, blast)

lemma watch_okI:
  assumes "length W = 2 * n"
    and "\<And>r i. r \<in> R \<Longrightarrow> \<not> deleted a r \<Longrightarrow> 2 \<le> clause_size a r \<Longrightarrow> i < 2 \<Longrightarrow> r \<in> set (map fst (W ! (clause_lits a r ! i)))"
    and "\<And>x. x < 2 * n \<Longrightarrow> distinct (map fst (W ! x))"
    and "\<And>x r b. x < 2 * n \<Longrightarrow> (r, b) \<in> set (W ! x) \<Longrightarrow> b \<in> set (clause_lits a r)"
    and "\<And>x r. x < 2 * n \<Longrightarrow> r \<in> set (map fst (W ! x)) \<Longrightarrow> r \<in> R \<and> 2 \<le> clause_size a r \<and> (\<exists>i < 2. x = clause_lits a r ! i)"
  shows "watch_ok n R a W"
  using assms unfolding watch_ok_def by blast

definition same_clauses :: "nat set \<Rightarrow> arena \<Rightarrow> arena \<Rightarrow> bool" where
  "same_clauses R a a' \<longleftrightarrow> arena_wf R a' \<and> (\<forall>q \<in> R. mset (clause_lits a' q) = mset (clause_lits a q)
     \<and> learned a' q = learned a q \<and> deleted a' q = deleted a q)"

lemma same_clauses_D:
  assumes "same_clauses R a a'" "q \<in> R"
  shows "set (clause_lits a' q) = set (clause_lits a q)" "clause_size a' q = clause_size a q"
    "canonical (clause_lits a' q) = canonical (clause_lits a q)" "learned a' q = learned a q" "deleted a' q = deleted a q"
proof -
  have m: "mset (clause_lits a' q) = mset (clause_lits a q)" using assms by (simp add: same_clauses_def)
  show "set (clause_lits a' q) = set (clause_lits a q)" using mset_eq_setD [OF m] .
  show "clause_size a' q = clause_size a q" using mset_eq_length [OF m] by simp
  have "mset (map LIT_VAR (clause_lits a' q)) = mset (map LIT_VAR (clause_lits a q))" using m by simp
  then show "canonical (clause_lits a' q) = canonical (clause_lits a q)"
    unfolding canonical_def by (rule mset_eq_imp_distinct_iff)
  show "learned a' q = learned a q" "deleted a' q = deleted a q" using assms by (simp_all add: same_clauses_def)
qed

lemma same_clauses_clauses_ok:
  assumes "same_clauses R a a'" "clauses_ok n F R a"
  shows "clauses_ok n F R a'"
  unfolding clauses_ok_def
proof (intro conjI ballI allI impI)
  note D = same_clauses_D [OF assms(1)] and C = clauses_ok_D [OF assms(2)]
  show "arena_wf R a'" using assms(1) by (simp add: same_clauses_def)
  fix r assume r: "r \<in> R"
  show "canonical (clause_lits a' r)" using D(3) [OF r] C(2) [OF r] by simp
  show "LIT_VAR l < n" if "l \<in> set (clause_lits a' r)" for l using that D(1) [OF r] C(3) [OF r] by blast
  show "sat_clause \<alpha> (clause_lits a' r)" if "sat_cnf \<alpha> F" for \<alpha> using sat_clause_set [OF D(1) [OF r]] C(4) [OF r that] by simp
  show "learned a' r" if "deleted a' r" using that D(4,5) [OF r] C(5) [OF r] by simp
next
  fix C assume "C \<in> set F"
  then obtain r where "r \<in> R" "set (clause_lits a r) = set C" "\<not> learned a r" using ck_input [OF assms(2)] by blast
  then show "\<exists>r \<in> R. set (clause_lits a' r) = set C \<and> \<not> learned a' r"
    using same_clauses_D(1,4) [OF assms(1)] by (intro bexI [of _ r]) simp_all
qed

lemma same_clauses_reason_ok:
  assumes sc: "same_clauses R a a'" and ok: "reason_ok R a rs t"
  shows "reason_ok R a' rs t"
  unfolding reason_ok_def
proof (intro allI impI)
  fix i assume i: "i < length (literals t)"
  show "case rs ! LIT_VAR (literals t ! i) of None \<Rightarrow> i \<in> set (depth_starts t)
     | Some r \<Rightarrow> r \<in> R \<and> literals t ! i \<in> set (clause_lits a' r)
         \<and> (\<forall>l \<in> set (clause_lits a' r). l \<noteq> literals t ! i \<longrightarrow> LIT_NEG l \<in> set (take i (literals t)))"
    using reason_ok_D [OF ok i] same_clauses_D(1) [OF sc] by (cases "rs ! LIT_VAR (literals t ! i)") simp_all
qed

lemma same_clauses_base_inv:
  assumes "same_clauses (refs s) (arena s) a'" "base_inv n F s"
  shows "base_inv n F (s\<lparr>arena := a'\<rparr>)"
  using assms same_clauses_clauses_ok same_clauses_reason_ok unfolding base_inv_def by simp

lemma same_clauses_units_ok:
  assumes sc: "same_clauses R a a'" and u: "units_ok R a dep t"
  shows "units_ok R a' dep t"
proof -
  have "clause_lits a' r ! 0 = clause_lits a r ! 0" if r: "r \<in> R" "clause_size a r = 1" for r
  proof -
    obtain x y where xy: "clause_lits a r = [x]" "clause_lits a' r = [y]"
      using r same_clauses_D(2) [OF sc r(1)] by (metis One_nat_def length_0_conv length_Suc_conv length_clause_lits)
    then show ?thesis using same_clauses_D(1) [OF sc r(1)] by simp
  qed
  then show ?thesis using u same_clauses_D [OF sc] unfolding units_ok_def by simp
qed

lemma swap_same_clauses:
  assumes wf: "arena_wf R a" and r: "r \<in> R" and ij: "i < clause_size a r" "j < clause_size a r"
  shows "same_clauses R a (swap_literals i j r a)"
  unfolding same_clauses_def using ca.swap_wf [OF wf r] ca.swap_mset [OF wf r] ca.swap_flags [OF wf r] ij by simp

lemma covered_same:
  "same_clauses R a a' \<Longrightarrow> r \<in> R \<Longrightarrow> covered a dep t r x \<Longrightarrow> covered a' dep t r x"
  using same_clauses_D(1) by (simp add: covered_def)

text \<open>Exchanging the two watches of a clause changes no watch.\<close>

lemma swap_watches:
  assumes wf: "arena_wf R a" and r: "r \<in> R" and two: "2 \<le> clause_size a r"
  defines "a' \<equiv> swap_literals 0 1 r a"
  shows "watch_ok n R a W \<Longrightarrow> watch_ok n R a' W"
    and "watch_sem R a dep t E \<Longrightarrow> watch_sem R a' dep t E"
    and "clause_lits a' r ! 0 = clause_lits a r ! 1" "clause_lits a' r ! 1 = clause_lits a r ! 0"
proof -
  have sc: "same_clauses R a a'" unfolding a'_def using two by (intro swap_same_clauses [OF wf r]) simp_all
  have lits: "clause_lits a' q = (if q = r then (clause_lits a r)[0 := clause_lits a r ! 1, 1 := clause_lits a r ! 0] else clause_lits a q)"
    if "q \<in> R" for q unfolding a'_def using ca.swap_lits [OF wf r that, of 0 1] two by simp
  show l0: "clause_lits a' r ! 0 = clause_lits a r ! 1" and l1: "clause_lits a' r ! 1 = clause_lits a r ! 0"
    using lits [OF r] two by simp_all
  have ex: "\<exists>j < 2. clause_lits a' q ! i = clause_lits a q ! j" "\<exists>j < 2. clause_lits a q ! i = clause_lits a' q ! j"
    if "q \<in> R" "i < 2" for q i
  proof -
    have i: "i = 0 \<or> i = 1" using that(2) by auto
    have "\<exists>j < 2. clause_lits a' q ! i = clause_lits a q ! j \<and> clause_lits a q ! i = clause_lits a' q ! j"
      using i l0 l1 lits [OF that(1)] by (cases "q = r") (auto intro: exI [of _ 0] exI [of _ 1])
    then show "\<exists>j < 2. clause_lits a' q ! i = clause_lits a q ! j" "\<exists>j < 2. clause_lits a q ! i = clause_lits a' q ! j" by auto
  qed
  note D = same_clauses_D [OF sc]
  show "watch_ok n R a' W" if ok: "watch_ok n R a W"
  proof (rule watch_okI)
    show "q \<in> set (map fst (W ! (clause_lits a' q ! i)))" if q: "q \<in> R" "\<not> deleted a' q" "2 \<le> clause_size a' q" "i < 2" for q i
      using ex(1) [OF q(1,4)] wk_watched [OF ok q(1)] q D(2,5) [OF q(1)] by auto
    show "b \<in> set (clause_lits a' q)" if "x < 2 * n" "(q, b) \<in> set (W ! x)" for x q b
      using wk_blocker [OF ok that] D(1) [of q] wk_ref [OF ok that(1), of q] that(2) by force
    show "q \<in> R \<and> 2 \<le> clause_size a' q \<and> (\<exists>i < 2. x = clause_lits a' q ! i)" if x: "x < 2 * n" "q \<in> set (map fst (W ! x))" for x q
    proof -
      have q: "q \<in> R" using wk_ref [OF ok x] .
      obtain i where "i < 2" "x = clause_lits a q ! i" using wk_lit [OF ok x] by blast
      then have "\<exists>i < 2. x = clause_lits a' q ! i" using ex(2) [OF q] by auto
      then show ?thesis using q wk_size [OF ok x] D(2) [OF q] by simp
    qed
  qed (use wk_len [OF ok] wk_distinct [OF ok] in auto)
  show "watch_sem R a' dep t E" if ws: "watch_sem R a dep t E"
  proof (rule watch_semI)
    fix q i :: nat assume q: "q \<in> R" "\<not> deleted a' q" "2 \<le> clause_size a' q" "i < 2" "(q, clause_lits a' q ! i) \<notin> E"
      "LIT_NEG (clause_lits a' q ! i) \<in> set (take (propagation_head t) (literals t))"
    obtain j where j: "j < 2" "clause_lits a' q ! i = clause_lits a q ! j" using ex(1) [OF q(1,4)] by blast
    then have "covered a dep t q (clause_lits a q ! j)" using watch_sem_D [OF ws q(1)] q D(2,5) [OF q(1)] by auto
    then show "covered a' dep t q (clause_lits a' q ! i)" using covered_same [OF sc q(1)] j by simp
  qed
qed

text \<open>Moving a watch from the falsified literal to another literal of the clause.\<close>

definition exempt :: "nat \<Rightarrow> watch list \<Rightarrow> (nat \<times> nat) set" where
  "exempt fl ws = {(q, x). x = fl \<and> q \<in> set (map fst ws)}"

lemma canonical_nth: "canonical C \<Longrightarrow> i < length C \<Longrightarrow> j < length C \<Longrightarrow> i \<noteq> j \<Longrightarrow> C ! i \<noteq> C ! j"
  using canonical_distinct nth_eq_iff_index_eq by blast

lemma move_watch:
  assumes wf: "arena_wf R a" and r: "r \<in> R" and j: "2 \<le> j" "j < clause_size a r" and can: "canonical (clause_lits a r)"
    and fl: "clause_lits a r ! 1 = fl" "fl < 2 * n" and W: "length W = 2 * n"
    and ok: "watch_ok n R a (W[fl := out @ (r, b) # ws])"
  defines "a' \<equiv> swap_literals 1 j r a" and "y \<equiv> clause_lits a r ! j" and "other \<equiv> clause_lits a r ! 0"
  assumes y: "y < 2 * n"
  shows "watch_ok n R a' ((W[y := W ! y @ [(r, other)]])[fl := out @ ws])"
    and "watch_sem R a dep t (exempt fl ((r, b) # ws)) \<Longrightarrow> LIT_NEG y \<notin> set (literals t) \<Longrightarrow> watch_sem R a' dep t (exempt fl ws)"
    and "clause_lits a' r ! 0 = other" "clause_lits a' r ! 1 = y"
proof -
  let ?V = "W[fl := out @ (r, b) # ws]" and ?W = "(W[y := W ! y @ [(r, other)]])[fl := out @ ws]"
  have sc: "same_clauses R a a'" unfolding a'_def using j by (intro swap_same_clauses [OF wf r]) simp_all
  note D = same_clauses_D [OF sc]
  have lits: "clause_lits a' q = (if q = r then (clause_lits a r)[1 := clause_lits a r ! j, j := clause_lits a r ! 1] else clause_lits a q)"
    if "q \<in> R" for q unfolding a'_def using ca.swap_lits [OF wf r that, of 1 j] j by simp
  show l0: "clause_lits a' r ! 0 = other" and l1: "clause_lits a' r ! 1 = y" using lits [OF r] j by (simp_all add: y_def other_def)
  have ne: "y \<noteq> fl" "other \<noteq> fl" "y \<noteq> other"
    using canonical_nth [OF can, of j 1] canonical_nth [OF can, of 0 1] canonical_nth [OF can, of j 0] j fl(1) by (auto simp: y_def other_def)
  have V: "?V ! fl = out @ (r, b) # ws" "\<And>x. x \<noteq> fl \<Longrightarrow> ?V ! x = W ! x" using fl(2) W by simp_all
  have W': "?W ! fl = out @ ws" "?W ! y = W ! y @ [(r, other)]" "\<And>x. x \<noteq> fl \<Longrightarrow> x \<noteq> y \<Longrightarrow> ?W ! x = W ! x"
    using fl(2) W y ne(1) by simp_all
  have notin: "r \<notin> set (map fst (W ! y))"
  proof
    assume "r \<in> set (map fst (W ! y))"
    then obtain i where "i < 2" "y = clause_lits a r ! i" using wk_lit [OF ok y] V(2) [OF ne(1)] by auto
    then have "y = other \<or> y = fl" using fl(1) by (auto simp: other_def less_2_cases_iff)
    then show False using ne by blast
  qed
  have dfl: "distinct (map fst (out @ (r, b) # ws))" using wk_distinct [OF ok fl(2)] V(1) by simp
  have r2: "2 \<le> clause_size a r" using j by simp
  show "watch_ok n R a' ?W"
  proof (rule watch_okI)
    fix q i :: nat assume q: "q \<in> R" "\<not> deleted a' q" "2 \<le> clause_size a' q" "i < 2"
    show "q \<in> set (map fst (?W ! (clause_lits a' q ! i)))"
    proof (cases "q = r")
      case True
      have "r \<in> set (map fst (?V ! other))" using wk_watched [OF ok r _ r2, of 0] q True D(5) [OF r] by (simp add: other_def)
      then show ?thesis using True q(4) l0 l1 W' V(2) [OF ne(2)] ne by (auto simp: less_2_cases_iff)
    next
      case False
      have old: "q \<in> set (map fst (?V ! (clause_lits a q ! i)))" using wk_watched [OF ok q(1) _ _ q(4)] q D(2,5) [OF q(1)] by simp
      have "clause_lits a' q = clause_lits a q" using lits [OF q(1)] False by simp
      then show ?thesis using old False W' V ne(1) by (cases "clause_lits a q ! i = fl"; cases "clause_lits a q ! i = y") auto
    qed
  next
    fix x assume x: "x < 2 * n"
    show "distinct (map fst (?W ! x))"
      using wk_distinct [OF ok x] dfl notin W' V ne(1) by (cases "x = fl"; cases "x = y") auto
    fix q assume q: "q \<in> set (map fst (?W ! x))"
    show "q \<in> R \<and> 2 \<le> clause_size a' q \<and> (\<exists>i < 2. x = clause_lits a' q ! i)"
    proof (cases "q = r")
      case True
      have "x = y \<or> x = other"
      proof (cases "x = fl")
        case True
        then show ?thesis using q dfl W'(1) \<open>q = r\<close> by auto
      next
        case False
        have "x = y \<or> r \<in> set (map fst (?V ! x))" using q \<open>q = r\<close> False W' V(2) by (cases "x = y") auto
        then show ?thesis using wk_lit [OF ok x] False fl(1) by (auto simp: less_2_cases_iff other_def)
      qed
      then have "\<exists>i < 2. x = clause_lits a' r ! i" using l0 l1 by (metis one_less_numeral_iff semiring_norm(76) zero_less_numeral)
      then show ?thesis using True r r2 D(2) [OF r] by simp
    next
      case False
      have old: "q \<in> set (map fst (?V ! x))" using q False W' V ne(1) by (cases "x = fl"; cases "x = y") auto
      have qR: "q \<in> R" using wk_ref [OF ok x old] .
      show ?thesis using wk_size [OF ok x old] wk_lit [OF ok x old] qR D(2) [OF qR] lits [OF qR] False by simp
    qed
  next
    fix x q c assume x: "x < 2 * n" "(q, c) \<in> set (?W ! x)"
    have "(q, c) = (r, other) \<or> (q, c) \<in> set (?V ! x)" using x(2) W' V ne(1) by (cases "x = fl"; cases "x = y") auto
    then show "c \<in> set (clause_lits a' q)"
    proof
      assume "(q, c) = (r, other)"
      then show ?thesis using D(1) [OF r] j nth_mem [of 0 "clause_lits a r"] by (auto simp: other_def)
    next
      assume old: "(q, c) \<in> set (?V ! x)"
      then have "q \<in> R" using wk_ref [OF ok x(1), of q] by force
      then show ?thesis using wk_blocker [OF ok x(1) old] D(1) by simp
    qed
  qed (use W in simp)
  show "watch_sem R a' dep t (exempt fl ws)" if ws: "watch_sem R a dep t (exempt fl ((r, b) # ws))" and free: "LIT_NEG y \<notin> set (literals t)"
  proof (rule watch_semI)
    fix q i :: nat assume q: "q \<in> R" "\<not> deleted a' q" "2 \<le> clause_size a' q" "i < 2" "(q, clause_lits a' q ! i) \<notin> exempt fl ws"
      "LIT_NEG (clause_lits a' q ! i) \<in> set (take (propagation_head t) (literals t))"
    have d: "\<not> deleted a q" "2 \<le> clause_size a q" using q D(2,5) [OF q(1)] by simp_all
    have "i = 0 \<and> clause_lits a' q ! i = other" if "q = r"
      using that q(4,6) l1 l0 free by (auto simp: less_2_cases_iff dest: in_set_takeD)
    then have same: "clause_lits a' q ! i = clause_lits a q ! i" using lits [OF q(1)] by (cases "q = r") (auto simp: other_def)
    have "(q, clause_lits a q ! i) \<notin> exempt fl ((r, b) # ws)"
      using q(5) same ne(2) \<open>q = r \<Longrightarrow> i = 0 \<and> clause_lits a' q ! i = other\<close> by (auto simp: exempt_def)
    then have "covered a dep t q (clause_lits a q ! i)" using watch_sem_D [OF ws q(1) d q(4)] q(6) same by simp
    then show "covered a' dep t q (clause_lits a' q ! i)" using covered_same [OF sc q(1)] same by simp
  qed
qed

section \<open>Walking a watch list\<close>

text \<open>During the walk the list of the falsified literal is \<open>L\<close>, and the pairs in \<open>E\<close> are still to be treated.\<close>

definition walk :: "nat \<Rightarrow> clause list \<Rightarrow> nat \<Rightarrow> (nat \<times> nat) set \<Rightarrow> watch list \<Rightarrow> sat \<Rightarrow> bool" where
  "walk n F fl E L s \<longleftrightarrow> base_inv n F s \<and> length (watches s) = 2 * n \<and> watch_ok n (refs s) (arena s) ((watches s)[fl := L])
     \<and> watch_sem (refs s) (arena s) (assignment_depth s) (tr s) E \<and> units_ok (refs s) (arena s) (assignment_depth s) (tr s)
     \<and> fl < 2 * n \<and> LIT_NEG fl \<in> set (literals (tr s)) \<and> assignment_depth s ! LIT_VAR fl = decision_depth (tr s)"

lemma walk_D:
  assumes "walk n F fl E L s"
  shows "base_inv n F s" "length (watches s) = 2 * n" "watch_ok n (refs s) (arena s) ((watches s)[fl := L])"
    "watch_sem (refs s) (arena s) (assignment_depth s) (tr s) E" "units_ok (refs s) (arena s) (assignment_depth s) (tr s)"
    "fl < 2 * n" "LIT_NEG fl \<in> set (literals (tr s))" "assignment_depth s ! LIT_VAR fl = decision_depth (tr s)"
  using assms unfolding walk_def by blast+

definition frame :: "sat \<Rightarrow> sat \<Rightarrow> bool" where
  "frame s s' \<longleftrightarrow> clause_refs s' = clause_refs s \<and> steps s' = steps s \<and> conflicts s' = conflicts s
     \<and> restart_initial_limit s' = restart_initial_limit s \<and> depth_starts (tr s') = depth_starts (tr s)
     \<and> propagation_head (tr s') = propagation_head (tr s)"

lemma frame_refl [simp]: "frame s s"
  by (simp add: frame_def)

lemma frame_trans: "frame s t \<Longrightarrow> frame t u \<Longrightarrow> frame s u"
  by (simp add: frame_def)

lemma watch_ok_relist:
  assumes ok: "watch_ok n R a (W[fl := L])" and fl: "fl < 2 * n" "length W = 2 * n" and d: "distinct (map fst L')"
    and sub: "set (map fst L') \<subseteq> set (map fst L)" and del: "\<forall>q \<in> set (map fst L) - set (map fst L'). deleted a q"
    and bl: "\<forall>(q, c) \<in> set L'. c \<in> set (clause_lits a q)"
  shows "watch_ok n R a (W[fl := L'])"
proof (rule watch_okI)
  have at: "(W[fl := L]) ! x = (if x = fl then L else W ! x)" "(W[fl := L']) ! x = (if x = fl then L' else W ! x)" for x
    using fl by (simp_all add: nth_list_update)
  show "length (W[fl := L']) = 2 * n" using fl by simp
  fix q x c and i :: nat
  show "q \<in> set (map fst (W[fl := L'] ! (clause_lits a q ! i)))" if q: "q \<in> R" "\<not> deleted a q" "2 \<le> clause_size a q" "i < 2"
    using wk_watched [OF ok q] del q(2) unfolding at by (auto split: if_splits)
  show "distinct (map fst (W[fl := L'] ! x))" if "x < 2 * n" using wk_distinct [OF ok that] d unfolding at by (auto split: if_splits)
  show "c \<in> set (clause_lits a q)" if "x < 2 * n" "(q, c) \<in> set (W[fl := L'] ! x)"
    using wk_blocker [OF ok that(1), of q c] that(2) bl unfolding at by (auto split: if_splits)
  show "q \<in> R \<and> 2 \<le> clause_size a q \<and> (\<exists>i < 2. x = clause_lits a q ! i)" if x: "x < 2 * n" "q \<in> set (map fst (W[fl := L'] ! x))"
  proof -
    have old: "q \<in> set (map fst (W[fl := L] ! x))" using x(2) sub unfolding at by (auto split: if_splits)
    show ?thesis using wk_ref [OF ok x(1) old] wk_size [OF ok x(1) old] wk_lit [OF ok x(1) old] by blast
  qed
qed

text \<open>The entry under the walk.\<close>

lemma walk_entry:
  assumes w: "walk n F fl E (out @ (r, b) # ws) s"
  shows "r \<in> refs s" "2 \<le> clause_size (arena s) r" "b \<in> set (clause_lits (arena s) r)"
    "clause_lits (arena s) r ! 0 = fl \<or> clause_lits (arena s) r ! 1 = fl"
    "distinct (map fst (out @ (r, b) # ws))" "canonical (clause_lits (arena s) r)"
    "\<And>l. l \<in> set (clause_lits (arena s) r) \<Longrightarrow> LIT_VAR l < n" "arena_wf (refs s) (arena s)"
    "\<forall>(q, c) \<in> set (out @ (r, b) # ws). c \<in> set (clause_lits (arena s) q)"
proof -
  note d = walk_D [OF w]
  have L: "((watches s)[fl := out @ (r, b) # ws]) ! fl = out @ (r, b) # ws" using d(2,6) by simp
  have mem: "r \<in> set (map fst (((watches s)[fl := out @ (r, b) # ws]) ! fl))" unfolding L by simp
  show r: "r \<in> refs s" by (rule wk_ref [OF d(3,6) mem])
  show "2 \<le> clause_size (arena s) r" by (rule wk_size [OF d(3,6) mem])
  show "b \<in> set (clause_lits (arena s) r)" by (rule wk_blocker [OF d(3,6)]) (simp add: L)
  show "clause_lits (arena s) r ! 0 = fl \<or> clause_lits (arena s) r ! 1 = fl"
    using wk_lit [OF d(3,6) mem] by (auto simp: less_2_cases_iff)
  show "distinct (map fst (out @ (r, b) # ws))" using wk_distinct [OF d(3,6)] unfolding L .
  note ck = base_inv_D(5) [OF d(1)]
  show "canonical (clause_lits (arena s) r)" "arena_wf (refs s) (arena s)" using ck_canonical [OF ck r] ck_wf [OF ck] by blast+
  show "LIT_VAR l < n" if "l \<in> set (clause_lits (arena s) r)" for l using ck_var [OF ck r that] .
  show "\<forall>(q, c) \<in> set (out @ (r, b) # ws). c \<in> set (clause_lits (arena s) q)"
    using wk_blocker [OF d(3,6)] unfolding L by blast
qed

lemma walk_keep:
  assumes w: "walk n F fl (exempt fl ((r, b) # ws)) (out @ (r, b) # ws) s"
    and cov: "covered (arena s) (assignment_depth s) (tr s) r fl" and c: "c \<in> set (clause_lits (arena s) r)"
  shows "walk n F fl (exempt fl ws) ((out @ [(r, c)]) @ ws) s"
proof -
  note d = walk_D [OF w] and e = walk_entry [OF w]
  have "watch_ok n (refs s) (arena s) ((watches s)[fl := (out @ [(r, c)]) @ ws])"
    using e(5,9) c by (intro watch_ok_relist [OF d(3,6,2)]) auto
  moreover have "watch_sem (refs s) (arena s) (assignment_depth s) (tr s) (exempt fl ws)"
  proof (rule watch_semI)
    fix q i :: nat assume q: "q \<in> refs s" "\<not> deleted (arena s) q" "2 \<le> clause_size (arena s) q" "i < 2" "(q, clause_lits (arena s) q ! i) \<notin> exempt fl ws"
      "LIT_NEG (clause_lits (arena s) q ! i) \<in> set (take (propagation_head (tr s)) (literals (tr s)))"
    show "covered (arena s) (assignment_depth s) (tr s) q (clause_lits (arena s) q ! i)"
    proof (cases "(q, clause_lits (arena s) q ! i) \<in> exempt fl ((r, b) # ws)")
      case True
      then have "q = r" "clause_lits (arena s) q ! i = fl" using q(5) by (auto simp: exempt_def)
      then show ?thesis using cov by simp
    next
      case False
      then show ?thesis using watch_sem_D [OF d(4) q(1-4) _ q(6)] by simp
    qed
  qed
  ultimately show ?thesis unfolding walk_def using d by simp
qed

lemma walk_drop:
  assumes w: "walk n F fl (exempt fl ((r, b) # ws)) (out @ (r, b) # ws) s" and del: "deleted (arena s) r"
  shows "walk n F fl (exempt fl ws) (out @ ws) s"
proof -
  note d = walk_D [OF w] and e = walk_entry [OF w]
  have "watch_ok n (refs s) (arena s) ((watches s)[fl := out @ ws])"
    using e(5,9) del by (intro watch_ok_relist [OF d(3,6,2)]) auto
  moreover have "watch_sem (refs s) (arena s) (assignment_depth s) (tr s) (exempt fl ws)"
  proof (rule watch_semI)
    fix q i :: nat assume q: "q \<in> refs s" "\<not> deleted (arena s) q" "2 \<le> clause_size (arena s) q" "i < 2" "(q, clause_lits (arena s) q ! i) \<notin> exempt fl ws"
      "LIT_NEG (clause_lits (arena s) q ! i) \<in> set (take (propagation_head (tr s)) (literals (tr s)))"
    then have "(q, clause_lits (arena s) q ! i) \<notin> exempt fl ((r, b) # ws)" using del by (auto simp: exempt_def)
    then show "covered (arena s) (assignment_depth s) (tr s) q (clause_lits (arena s) q ! i)"
      using watch_sem_D [OF d(4) q(1-4) _ q(6)] by simp
  qed
  ultimately show ?thesis unfolding walk_def using d by simp
qed

lemma walk_swap:
  assumes w: "walk n F fl E (out @ (r, b) # ws) s"
  shows "walk n F fl E (out @ (r, b) # ws) (s\<lparr>arena := swap_literals 0 1 r (arena s)\<rparr>)"
proof -
  note d = walk_D [OF w] and e = walk_entry [OF w]
  have sc: "same_clauses (refs s) (arena s) (swap_literals 0 1 r (arena s))"
    using e(2) by (intro swap_same_clauses [OF e(8,1)]) simp_all
  note sw = swap_watches [OF e(8,1,2)]
  show ?thesis
    unfolding walk_def using d same_clauses_base_inv [OF sc d(1)] same_clauses_units_ok [OF sc d(5)] sw(1) [OF d(3)] sw(2) [OF d(4)] by simp
qed

lemma lit_bound: "LIT_VAR l < n \<Longrightarrow> l < 2 * n"
  by (simp add: LIT_VAR_def)

lemma walk_move:
  assumes w: "walk n F fl (exempt fl ((r, b) # ws)) (out @ (r, b) # ws) s"
    and fl: "clause_lits (arena s) r ! 1 = fl" and j: "2 \<le> j" "j < clause_size (arena s) r"
    and free: "LIT_NEG (clause_lits (arena s) r ! j) \<notin> set (literals (tr s))"
  defines "a' \<equiv> swap_literals 1 j r (arena s)"
  shows "walk n F fl (exempt fl ws) (out @ ws) (push_watch (clause_literal a' r 1) (r, clause_lits (arena s) r ! 0) (s\<lparr>arena := a'\<rparr>))"
proof -
  note d = walk_D [OF w] and e = walk_entry [OF w]
  let ?y = "clause_lits (arena s) r ! j"
  have sc: "same_clauses (refs s) (arena s) a'" unfolding a'_def using j by (intro swap_same_clauses [OF e(8,1)]) simp_all
  have y: "?y < 2 * n" using e(7) [of ?y] j by (intro lit_bound) simp
  note mv = move_watch [OF e(8,1) j e(6) fl d(6,2,3) y, folded a'_def]
  have lit: "clause_literal a' r 1 = ?y"
    using mv(4) nth_clause_lits [of 1 a' r] same_clauses_D(2) [OF sc e(1)] e(2) by simp
  have "base_inv n F (push_watch ?y w (s\<lparr>arena := a'\<rparr>)) = base_inv n F (s\<lparr>arena := a'\<rparr>)" for w
    by (simp add: push_watch_def base_inv_def)
  then show ?thesis
    unfolding walk_def lit
    using d same_clauses_base_inv [OF sc d(1)] same_clauses_units_ok [OF sc d(5)] mv(1) mv(2) [OF d(4) free]
    by (simp add: push_watch_def)
qed

lemma walk_assign:
  assumes w: "walk n F fl E L s" and r: "r \<in> refs s" "x \<in> set (clause_lits (arena s) r)"
    "\<forall>l \<in> set (clause_lits (arena s) r). l \<noteq> x \<longrightarrow> LIT_NEG l \<in> set (literals (tr s))"
    and x: "LIT_VAR x < n" "val s ! LIT_VAR x = None"
  shows "walk n F fl E L (assigned x (Some r) s)"
    and "covered (arena s) (assignment_depth (assigned x (Some r) s)) (tr (assigned x (Some r) s)) r fl"
proof -
  note d = walk_D [OF w]
  have pre: "trail_pre n (val s) (assignment_depth s) (tr s)" using base_inv_D(1) [OF d(1)] by (simp add: trail_ok_def)
  have fl: "assignment_depth (assigned x (Some r) s) ! LIT_VAR fl = assignment_depth s ! LIT_VAR fl"
    using assigned_depth_same [OF pre x d(7)] by simp
  have dd: "decision_depth (tr (assigned x (Some r) s)) = decision_depth (tr s)" by (simp add: decision_depth_def)
  show "walk n F fl E L (assigned x (Some r) s)"
    unfolding walk_def
    using d fl dd assigned_base_inv [OF d(1) x r] assigned_watch_sem [OF pre x d(4)] assigned_units_ok [OF pre x d(5)] by simp
  have "assignment_depth (assigned x (Some r) s) ! LIT_VAR x = decision_depth (tr s)"
    using x(1) tp_len(2) [OF pre] by (simp add: assigned_def)
  then show "covered (arena s) (assignment_depth (assigned x (Some r) s)) (tr (assigned x (Some r) s)) r fl"
    unfolding covered_def fl d(8) using r(2) by (intro bexI [of _ x]) simp_all
qed

text \<open>The result of the walk: everything treated, or a clause with only false literals.\<close>

definition walk_post :: "nat \<Rightarrow> clause list \<Rightarrow> nat \<Rightarrow> nat option \<Rightarrow> watch list \<Rightarrow> sat \<Rightarrow> bool" where
  "walk_post n F fl res out s \<longleftrightarrow> (case res of
      None \<Rightarrow> walk n F fl {} out s
    | Some r \<Rightarrow> walk n F fl {(q, x). x = fl} out s \<and> r \<in> refs s \<and> fl \<in> set (clause_lits (arena s) r)
        \<and> (\<forall>l \<in> set (clause_lits (arena s) r). LIT_NEG l \<in> set (literals (tr s))))"

lemma watch_sem_weaken: "watch_sem R a dep t E \<Longrightarrow> E \<subseteq> E' \<Longrightarrow> watch_sem R a dep t E'"
  unfolding watch_sem_def Let_def by blast

lemma frame_arena [simp]: "frame s (s\<lparr>arena := a\<rparr>)"
  by (simp add: frame_def)

lemma frame_push_watch [simp]: "frame s (push_watch l w s)"
  by (simp add: frame_def push_watch_def)

lemma frame_assigned [simp]: "frame s (assigned x why s)"
  by (simp add: frame_def)

lemma frame_tr [simp]: "frame s s' \<Longrightarrow> clause_refs s' = clause_refs s"
  by (simp add: frame_def)

lemma propagate_watches_spec:
  assumes "propagate_watches fl ws out s = (res, out', s')" "walk n F fl (exempt fl ws) (out @ ws) s"
  shows "frame s s' \<and> walk_post n F fl res out' s'"
  using assms
proof (induction ws arbitrary: out s)
  case (Nil out s)
  then show ?case by (simp add: walk_post_def exempt_def)
next
  case (Cons w ws out s)
  obtain r b where w: "w = (r, b)" by fastforce
  have wk: "walk n F fl (exempt fl ((r, b) # ws)) (out @ (r, b) # ws) s" using Cons.prems(2) w by simp
  note e = walk_entry [OF wk] and d = walk_D [OF wk]
  have ok: "trail_ok n (val s) (assignment_depth s) (tr s)" using base_inv_D(1) [OF d(1)] .
  have cov: "covered (arena s) (assignment_depth s) (tr s) r fl"
    if "c \<in> set (clause_lits (arena s) r)" "eval_literal s c = Some True" for c
  proof -
    have "c \<in> set (literals (tr s))" using eval_True [OF ok e(7) [OF that(1)]] that(2) by simp
    then show ?thesis unfolding covered_def d(8) using depth_le [OF ok] that(1) by blast
  qed
  note run = Cons.prems(1) [unfolded w propagate_watches.simps fst_conv snd_conv]
  consider (blocked) "eval_literal s b = Some True" | (dead) "eval_literal s b \<noteq> Some True" "deleted (arena s) r"
    | (live) "eval_literal s b \<noteq> Some True" "\<not> deleted (arena s) r" by blast
  then show ?case
  proof cases
    case blocked
    then show ?thesis
      using Cons.IH [of "out @ [(r, b)]" s] run walk_keep [OF wk cov [OF e(3) blocked] e(3)] by simp
  next
    case dead
    then show ?thesis using Cons.IH [of out s] run walk_drop [OF wk dead(2)] by (simp add: Let_def)
  next
    case live
    define t where "t = (if clause_literal (arena s) r 0 = fl then s\<lparr>arena := swap_literals 0 1 r (arena s)\<rparr> else s)"
    define x where "x = clause_literal (arena t) r 0"
    have wt: "walk n F fl (exempt fl ((r, b) # ws)) (out @ (r, b) # ws) t" unfolding t_def using wk walk_swap [OF wk] by simp
    note et = walk_entry [OF wt] and dt = walk_D [OF wt]
    have okt: "trail_ok n (val t) (assignment_depth t) (tr t)" using base_inv_D(1) [OF dt(1)] .
    have ft: "frame s t" by (simp add: t_def)
    have x: "x = clause_lits (arena t) r ! 0" unfolding x_def using et(2) by (simp add: nth_clause_lits)
    have l1: "clause_lits (arena t) r ! 1 = fl"
    proof (cases "clause_literal (arena s) r 0 = fl")
      case True
      then show ?thesis using swap_watches(4) [OF e(8,1,2)] e(2) by (simp add: t_def nth_clause_lits)
    next
      case False
      then show ?thesis using e(2,4) by (auto simp: t_def nth_clause_lits)
    qed
    have xin: "x \<in> set (clause_lits (arena t) r)" using x et(2) by simp
    have xv: "LIT_VAR x < n" using et(7) [OF xin] .
    have run': "(if eval_literal t x = Some True then propagate_watches fl ws (out @ [(r, x)]) t
        else case find_replacement t r of
          Some j \<Rightarrow> propagate_watches fl ws out (push_watch (clause_literal (swap_literals 1 j r (arena t)) r 1) (r, x) (t\<lparr>arena := swap_literals 1 j r (arena t)\<rparr>))
        | None \<Rightarrow> (case enqueue x (Some r) t of (False, s) \<Rightarrow> (Some r, out @ [(r, x)] @ ws, s)
            | (True, s) \<Rightarrow> propagate_watches fl ws (out @ [(r, x)]) s)) = (res, out', s')"
      using run live unfolding Let_def t_def [symmetric] x_def [symmetric]
      by (cases "find_replacement t r"; cases "eval_literal t x = Some True") (simp_all add: Let_def)
    consider (true) "eval_literal t x = Some True" | (move) j where "eval_literal t x \<noteq> Some True" "find_replacement t r = Some j"
      | (unit) "eval_literal t x \<noteq> Some True" "find_replacement t r = None" by fastforce
    then show ?thesis
    proof cases
      case true
      have "covered (arena t) (assignment_depth t) (tr t) r fl"
        using eval_True [OF okt xv] true depth_le [OF okt] xin dt(8) unfolding covered_def by auto
      then have "walk n F fl (exempt fl ws) ((out @ [(r, x)]) @ ws) t" using walk_keep [OF wt _ xin] by blast
      moreover have "propagate_watches fl ws (out @ [(r, x)]) t = (res, out', s')" using run' true by simp
      ultimately show ?thesis using Cons.IH frame_trans [OF ft] by blast
    next
      case move
      have j: "2 \<le> j" "j < clause_size (arena t) r" "eval_literal t (clause_literal (arena t) r j) \<noteq> Some False"
        using move(2) by (auto simp: find_replacement_def find_Some_iff)
      then have lj: "clause_literal (arena t) r j = clause_lits (arena t) r ! j" by (simp add: nth_clause_lits)
      have "LIT_NEG (clause_lits (arena t) r ! j) \<notin> set (literals (tr t))"
        using j(3) eval_False [OF okt et(7)] j(2) unfolding lj by simp
      note wm = walk_move [OF wt l1 j(1,2) this, folded x]
      have "propagate_watches fl ws out (push_watch (clause_literal (swap_literals 1 j r (arena t)) r 1) (r, x) (t\<lparr>arena := swap_literals 1 j r (arena t)\<rparr>)) = (res, out', s')"
        using run' move by simp
      from Cons.IH [OF this wm] show ?thesis
        using frame_trans [OF ft] frame_trans [OF frame_arena] frame_trans [OF frame_push_watch] by blast
    next
      case unit
      have others: "LIT_NEG l \<in> set (literals (tr t))" if l: "l \<in> set (clause_lits (arena t) r)" "l \<noteq> x" for l
      proof -
        obtain i where i: "i < clause_size (arena t) r" "l = clause_lits (arena t) r ! i" using l(1) by (auto simp: in_set_conv_nth)
        then have "i \<noteq> 0" using l(2) x by metis
        show ?thesis
        proof (cases "i = 1")
          case True
          then show ?thesis using i l1 dt(7) by simp
        next
          case False
          then have "eval_literal t (clause_literal (arena t) r i) = Some False"
            using unit(2) i(1) \<open>i \<noteq> 0\<close> by (auto simp: find_replacement_def find_None_iff)
          then show ?thesis using eval_False [OF okt et(7) [OF l(1)]] i by (simp add: nth_clause_lits)
        qed
      qed
      show ?thesis
      proof (cases "eval_literal t x")
        case None
        then have vn: "val t ! LIT_VAR x = None" by (simp add: eval_None)
        let ?u = "assigned x (Some r) t"
        note wa = walk_assign [OF wt et(1) xin _ xv vn]
        have "walk n F fl (exempt fl ws) ((out @ [(r, x)]) @ ws) ?u"
          using walk_keep [of n F fl r b ws out ?u x] wa others xin by simp
        moreover have "propagate_watches fl ws (out @ [(r, x)]) ?u = (res, out', s')"
          using run' unit None by (simp add: enqueue_eq)
        ultimately show ?thesis using Cons.IH frame_trans [OF ft] frame_trans [OF frame_assigned] by blast
      next
        case (Some v)
        then have v: "eval_literal t x = Some False" using unit(1) by (cases v) auto
        then have res: "res = Some r" "out' = out @ [(r, x)] @ ws" "s' = t" using run' unit by (simp_all add: enqueue_eq)
        have "LIT_NEG x \<in> set (literals (tr t))" using eval_False [OF okt xv] v by simp
        moreover have "fl \<in> set (clause_lits (arena t) r)" using l1 et(2) by (metis Suc_1 Suc_le_lessD length_clause_lits nth_mem)
        moreover have "walk n F fl {(q, x). x = fl} (out @ [(r, x)] @ ws) t"
        proof -
          have "watch_ok n (refs t) (arena t) ((watches t)[fl := out @ [(r, x)] @ ws])"
            using et(5,9) xin by (intro watch_ok_relist [OF dt(3,6,2)]) auto
          moreover have "watch_sem (refs t) (arena t) (assignment_depth t) (tr t) {(q, x). x = fl}"
            by (rule watch_sem_weaken [OF dt(4)]) (auto simp: exempt_def)
          ultimately show ?thesis unfolding walk_def using dt by simp
        qed
        ultimately show ?thesis using res ft et(1) others by (auto simp: walk_post_def)
      qed
    qed
  qed
qed

section \<open>Propagation to a fixpoint\<close>

lemma search_inv_D:
  assumes "search_inv n F s"
  shows "base_inv n F s" "watch_ok n (refs s) (arena s) (watches s)"
    "watch_sem (refs s) (arena s) (assignment_depth s) (tr s) {}" "units_ok (refs s) (arena s) (assignment_depth s) (tr s)"
  using assms unfolding search_inv_def by blast+

text \<open>A clause in conflict with the trail, with a literal falsified at the current depth.\<close>

definition conflict_inv :: "nat \<Rightarrow> clause list \<Rightarrow> nat \<Rightarrow> sat \<Rightarrow> bool" where
  "conflict_inv n F r s \<longleftrightarrow> base_inv n F s \<and> watch_ok n (refs s) (arena s) (watches s)
     \<and> units_ok (refs s) (arena s) (assignment_depth s) (tr s) \<and> r \<in> refs s
     \<and> (\<forall>l \<in> set (clause_lits (arena s) r). LIT_NEG l \<in> set (literals (tr s)))
     \<and> (\<exists>fl \<in> set (clause_lits (arena s) r). assignment_depth s ! LIT_VAR fl = decision_depth (tr s)
          \<and> watch_sem (refs s) (arena s) (assignment_depth s) (tr s) {(q, x). x = fl})"

definition round_frame :: "sat \<Rightarrow> sat \<Rightarrow> bool" where
  "round_frame s s' \<longleftrightarrow> clause_refs s' = clause_refs s \<and> steps s' = steps s \<and> conflicts s' = conflicts s
     \<and> restart_initial_limit s' = restart_initial_limit s \<and> depth_starts (tr s') = depth_starts (tr s)"

lemma round_frame_trans: "round_frame s t \<Longrightarrow> round_frame t u \<Longrightarrow> round_frame s u"
  by (simp add: round_frame_def)

lemma trail_ok_next:
  "trail_ok n vl dep t \<Longrightarrow> propagation_head t < length (literals t) \<Longrightarrow> trail_ok n vl dep (t\<lparr>propagation_head := propagation_head t + 1\<rparr>)"
  unfolding trail_ok_def trail_pre_def by auto

lemma reason_ok_cong:
  "literals t' = literals t \<Longrightarrow> depth_starts t' = depth_starts t \<Longrightarrow> reason_ok R a rs t' = reason_ok R a rs t"
  unfolding reason_ok_def by (simp only:)

lemma propagate_next_spec:
  assumes inv: "search_inv n F s" and pend: "has_pending_propagation (tr s)" and run: "propagate_next s = (res, s')"
  shows "round_frame s s'" and "propagation_head (tr s') = propagation_head (tr s) + 1"
    and "case res of None \<Rightarrow> search_inv n F s' | Some r \<Rightarrow> conflict_inv n F r s'"
proof -
  note d = search_inv_D [OF inv]
  let ?h = "propagation_head (tr s)" and ?M = "literals (tr s)"
  define lit where "lit = ?M ! ?h"
  define fl where "fl = LIT_NEG lit"
  define s0 where "s0 = s\<lparr>tr := (tr s)\<lparr>propagation_head := ?h + 1\<rparr>\<rparr>"
  have h: "?h < length ?M" using pend by (simp add: has_pending_propagation_def)
  have ok: "trail_ok n (val s) (assignment_depth s) (tr s)" using base_inv_D(1) [OF d(1)] .
  have lit: "lit \<in> set ?M" "LIT_VAR lit < n" using h tr_var [OF ok] by (simp_all add: lit_def)
  have fl2: "fl < 2 * n" using lit(2) by (intro lit_bound) (simp add: fl_def)
  obtain out s1 where pw: "propagate_watches fl (watches s ! fl) [] s0 = (res, out, s1)" and s': "s' = s1\<lparr>watches := (watches s1)[fl := out]\<rparr>"
    using run by (auto simp: propagate_next_def next_to_propagate_def fl_def lit_def s0_def Let_def split: prod.splits)
  have "walk n F fl (exempt fl (watches s ! fl)) ([] @ watches s ! fl) s0"
    unfolding walk_def
  proof (intro conjI)
    have "reason_ok (refs s) (arena s) (reason s) (tr s0)"
      using base_inv_D(4) [OF d(1)] reason_ok_cong [of "tr s0" "tr s"] by (simp add: s0_def)
    then show "base_inv n F s0"
      using base_inv_D [OF d(1)] trail_ok_next [OF ok h] by (simp add: base_inv_def s0_def)
    show "watch_sem (refs s0) (arena s0) (assignment_depth s0) (tr s0) (exempt fl (watches s ! fl))"
    proof (rule watch_semI)
      fix q i :: nat assume q: "q \<in> refs s0" "\<not> deleted (arena s0) q" "2 \<le> clause_size (arena s0) q" "i < 2"
        "(q, clause_lits (arena s0) q ! i) \<notin> exempt fl (watches s ! fl)"
        "LIT_NEG (clause_lits (arena s0) q ! i) \<in> set (take (propagation_head (tr s0)) (literals (tr s0)))"
      let ?x = "clause_lits (arena s) q ! i"
      have "?x \<noteq> fl" using q wk_watched [OF d(2), of q i] by (auto simp: s0_def exempt_def)
      then have "LIT_NEG ?x \<noteq> lit" by (auto simp: fl_def)
      then have "LIT_NEG ?x \<in> set (take ?h ?M)" using q(6) h by (simp add: s0_def take_Suc_conv_app_nth lit_def)
      then show "covered (arena s0) (assignment_depth s0) (tr s0) q (clause_lits (arena s0) q ! i)"
        using watch_sem_D [OF d(3), of q i] q by (simp add: s0_def covered_def)
    qed
    show "assignment_depth s0 ! LIT_VAR fl = decision_depth (tr s0)"
      using pending_depth [OF ok order_refl h] by (simp add: s0_def fl_def lit_def decision_depth_def)
  qed (use d wk_len [OF d(2)] fl2 lit in \<open>auto simp: s0_def fl_def units_ok_def\<close>)
  from propagate_watches_spec [OF pw this] have fr: "frame s0 s1" and post: "walk_post n F fl res out s1" by blast+
  show "round_frame s s'" "propagation_head (tr s') = ?h + 1" using fr unfolding frame_def round_frame_def s0_def s' by simp_all
  have base: "base_inv n F s' = base_inv n F s1" by (simp add: base_inv_def s')
  show "case res of None \<Rightarrow> search_inv n F s' | Some r \<Rightarrow> conflict_inv n F r s'"
  proof (cases res)
    case None
    then have w: "walk n F fl {} out s1" using post by (simp add: walk_post_def)
    show ?thesis using None walk_D [OF w] base unfolding search_inv_def by (simp add: s')
  next
    case (Some r)
    then have w: "walk n F fl {(q, x). x = fl} out s1" and r: "r \<in> refs s1" "fl \<in> set (clause_lits (arena s1) r)"
      "\<forall>l \<in> set (clause_lits (arena s1) r). LIT_NEG l \<in> set (literals (tr s1))" using post by (simp_all add: walk_post_def)
    show ?thesis using Some walk_D [OF w] base r unfolding conflict_inv_def by (auto simp: s' intro!: bexI [of _ fl])
  qed
qed

lemma propagate_spec:
  assumes "search_inv n F s"
  obtains res s' where "propagate stop s = Some (res, s')" "round_frame s s'"
    "res = no_conflict \<Longrightarrow> search_inv n F s' \<and> \<not> has_pending_propagation (tr s')"
    "\<And>r. res = conflict r \<Longrightarrow> conflict_inv n F r s'"
proof -
  have "\<exists>res s'. propagate stop s = Some (res, s') \<and> round_frame s s'
      \<and> (res = no_conflict \<longrightarrow> search_inv n F s' \<and> \<not> has_pending_propagation (tr s'))
      \<and> (\<forall>r. res = conflict r \<longrightarrow> conflict_inv n F r s')"
    using assms
  proof (induction "n - propagation_head (tr s)" arbitrary: s rule: less_induct)
    case (less s)
    show ?case
    proof (cases "has_pending_propagation (tr s)")
      case False
      then show ?thesis using less.prems by (subst propagate.simps) (simp add: round_frame_def)
    next
      case True
      obtain res s1 where nx: "propagate_next s = (res, s1)" by fastforce
      note sp = propagate_next_spec [OF less.prems True nx]
      show ?thesis
      proof (cases res)
        case (Some r)
        then show ?thesis using True nx sp by (subst propagate.simps) simp
      next
        case None
        then have inv: "search_inv n F s1" using sp(3) by simp
        have "propagation_head (tr s) < n"
          using True trail_length [OF base_inv_D(1) [OF search_inv_D(1) [OF less.prems]]] by (simp add: has_pending_propagation_def)
        then have dec: "n - propagation_head (tr s1) < n - propagation_head (tr s)" using sp(2) by simp
        from less.hyps [OF dec inv] obtain res' s2 where rec: "propagate stop s1 = Some (res', s2)" "round_frame s1 s2"
          "res' = no_conflict \<longrightarrow> search_inv n F s2 \<and> \<not> has_pending_propagation (tr s2)"
          "\<forall>r. res' = conflict r \<longrightarrow> conflict_inv n F r s2" by blast
        show ?thesis
        proof (cases "propagation_head (tr s1) mod propagation_stop_poll_period = 0 \<and> stop (poll_propagation (steps s1) (propagation_head (tr s1)))")
          case stop: True
          have "propagate stop s = Some (propagation_stopped, s1)"
            using True None nx stop by (subst propagate.simps) simp
          then show ?thesis using sp(1) by blast
        next
          case go: False
          have "propagate stop s = Some (res', s2)"
            using True None nx rec(1) go by (subst propagate.simps) auto
          then show ?thesis using rec round_frame_trans [OF sp(1) rec(2)] by blast
        qed
      qed
    qed
  qed
  then show thesis using that by blast
qed

end
