(* ===== verification/Sat_Analysis.thy ===== *)
theory Sat_Analysis
  imports Sat_Propagation
begin

text \<open>
  Backtracking and conflict analysis: undoing the assignments above a depth restores the search
  invariant, and the analysis of a conflict above the root always finds a first unique implication
  point and returns an asserting clause that follows from the input.
\<close>

section \<open>Backtracking\<close>

lemma unassign_fold_sel [simp]:
  "val (fold unassign ls s) = fold (\<lambda>l v. v[LIT_VAR l := None]) ls (val s)"
  "reason (fold unassign ls s) = fold (\<lambda>l v. v[LIT_VAR l := None]) ls (reason s)"
  "order (fold unassign ls s) = fold order_insert (map LIT_VAR ls) (order s)"
  "arena (fold unassign ls s) = arena s" "clause_refs (fold unassign ls s) = clause_refs s" "watches (fold unassign ls s) = watches s"
  "phase (fold unassign ls s) = phase s" "assignment_depth (fold unassign ls s) = assignment_depth s"
  "seen (fold unassign ls s) = seen s" "tr (fold unassign ls s) = tr s" "decay (fold unassign ls s) = decay s"
  "conflicts (fold unassign ls s) = conflicts s" "restart_initial_limit (fold unassign ls s) = restart_initial_limit s"
  "steps (fold unassign ls s) = steps s"
  by (induction ls arbitrary: s) (simp_all add: unassign_def Let_def)

lemma nth_fold_clear:
  "u < length xs \<Longrightarrow> fold (\<lambda>l v. v[LIT_VAR l := c]) ls xs ! u = (if u \<in> LIT_VAR ` set ls then c else xs ! u)"
proof (induction ls arbitrary: xs)
  case (Cons l ls)
  then show ?case by (cases "u = LIT_VAR l") auto
qed simp

text \<open>The trail before the start of depth d + 1 holds exactly the literals of depth at most d.\<close>

lemma depth_le_iff:
  assumes ok: "trail_ok n vl dep t" and i: "i < length (literals t)" and d: "d < length (depth_starts t)"
  shows "dep ! LIT_VAR (literals t ! i) \<le> d \<longleftrightarrow> i < depth_starts t ! d"
proof -
  let ?D = "depth_starts t" and ?P = "\<lambda>x. x \<le> i"
  have s: "sorted_wrt (<) ?D" using tr_sorted [OF ok] .
  have split: "length (filter ?P ?D) = length (filter ?P (take k ?D)) + length (filter ?P (drop k ?D))" for k
    by (metis append_take_drop_id filter_append length_append)
  have dep: "dep ! LIT_VAR (literals t ! i) = length (filter ?P ?D)" using tr_depth [OF ok i] .
  show ?thesis
  proof (cases "i < ?D ! d")
    case True
    have "filter ?P (drop d ?D) = []"
      unfolding filter_empty_conv
    proof
      fix x assume "x \<in> set (drop d ?D)"
      then obtain j where "d + j < length ?D" "x = ?D ! (d + j)" by (force simp: in_set_conv_nth)
      then have "?D ! d \<le> x" using sorted_wrt_nth_less [OF s, of d "d + j"] by (cases j) auto
      then show "\<not> x \<le> i" using True by simp
    qed
    moreover have "length (filter ?P (take d ?D)) \<le> length (take d ?D)" by (rule length_filter_le)
    ultimately show ?thesis using True dep split [of d] by simp
  next
    case False
    have "filter ?P (take (Suc d) ?D) = take (Suc d) ?D"
    proof (rule filter_True, rule ballI)
      fix x assume "x \<in> set (take (Suc d) ?D)"
      then obtain j where "j \<le> d" "x = ?D ! j" by (auto simp: in_set_conv_nth less_Suc_eq_le)
      then have "x \<le> ?D ! d" using sorted_wrt_nth_less [OF s, of j d] d by (cases "j = d") auto
      then show "x \<le> i" using False by simp
    qed
    then show ?thesis using False dep split [of "Suc d"] d by simp
  qed
qed

lemma truncate_starts:
  assumes ok: "trail_ok n vl dep t" and d: "d < length (depth_starts t)"
  shows "x \<in> set (take d (depth_starts t)) \<longleftrightarrow> x \<in> set (depth_starts t) \<and> x < depth_starts t ! d"
proof -
  note s = sorted_wrt_nth_less [OF tr_sorted [OF ok]]
  have "j < d \<longleftrightarrow> depth_starts t ! j < depth_starts t ! d" if "j < length (depth_starts t)" for j
    using s [of j d] s [of d j] d that by (metis less_asym' linorder_neqE_nat less_irrefl)
  moreover have "set (take d (depth_starts t)) = (!) (depth_starts t) ` {0..<d}" using nth_image [of d "depth_starts t"] d by simp
  moreover have "set (depth_starts t) = (!) (depth_starts t) ` {0..<length (depth_starts t)}" using nth_image [of _ "depth_starts t"] by simp
  ultimately show ?thesis using d by (auto simp: image_iff) (metis order_less_trans)
qed

lemma truncate_trail_ok:
  assumes ok: "trail_ok n vl dep t" and d: "d < length (depth_starts t)"
  defines "k \<equiv> depth_starts t ! d"
  shows "trail_ok n (fold (\<lambda>l v. v[LIT_VAR l := None]) (rev (drop k (literals t))) vl) dep (truncate_to_depth d t)"
    and "propagation_head (truncate_to_depth d t) = k" and "k < length (literals t)"
proof -
  let ?M = "literals t" and ?D = "depth_starts t" and ?vl = "fold (\<lambda>l v. v[LIT_VAR l := None]) (rev (drop k (literals t))) vl"
  have kD: "k \<in> set ?D" using d by (simp add: k_def)
  then show k: "k < length ?M" by (rule tr_start(1) [OF ok])
  have hd: "k \<le> propagation_head t" using tr_start(2) [OF ok kD] .
  then show head: "propagation_head (truncate_to_depth d t) = k" by (simp add: truncate_to_depth_def backtrack_offset_def Let_def k_def)
  have lits: "literals (truncate_to_depth d t) = take k ?M" "depth_starts (truncate_to_depth d t) = take d ?D"
    by (simp_all add: truncate_to_depth_def backtrack_offset_def Let_def k_def)
  have "distinct (map LIT_VAR (take k ?M @ drop k ?M))" using tr_distinct [OF ok] by simp
  then have dist: "distinct (map LIT_VAR (take k ?M))" "LIT_VAR ` set (take k ?M) \<inter> LIT_VAR ` set (drop k ?M) = {}"
    by (simp_all only: map_append distinct_append set_map)
  have vals: "?vl ! v = Some b \<longleftrightarrow> LIT v b \<in> set (take k ?M)" if v: "v < n" for v b
  proof -
    have mem: "LIT v b \<in> set ?M \<longleftrightarrow> LIT v b \<in> set (take k ?M) \<or> LIT v b \<in> set (drop k ?M)"
      by (metis Un_iff append_take_drop_id set_append)
    have vl: "v < length vl" using v tr_len [OF ok] by simp
    show ?thesis
    proof (cases "v \<in> LIT_VAR ` set (drop k ?M)")
      case True
      then have "LIT_VAR (LIT v b) \<notin> LIT_VAR ` set (take k ?M)" using dist(2) by auto
      then have "LIT v b \<notin> set (take k ?M)" by blast
      then show ?thesis using True nth_fold_clear [OF vl] by simp
    next
      case False
      then have "LIT v b \<notin> set (drop k ?M)" using imageI [of "LIT v b" _ LIT_VAR] by fastforce
      then show ?thesis using False nth_fold_clear [OF vl] tr_val [OF ok v, of b] mem by simp
    qed
  qed
  have deps: "dep ! LIT_VAR (take k ?M ! i) = length (filter (\<lambda>x. x \<le> i) (take d ?D))" if i: "i < length (take k ?M)" for i
  proof -
    have "filter (\<lambda>x. x \<le> i) (drop d ?D) = []"
      unfolding filter_empty_conv
    proof
      fix x assume x: "x \<in> set (drop d ?D)"
      have "distinct ?D" using tr_sorted [OF ok] by (simp add: strict_sorted_iff)
      then have "x \<notin> set (take d ?D)" using x by (metis IntI append_take_drop_id distinct_append emptyE)
      then have "k \<le> x" using truncate_starts [OF ok d, of x] in_set_dropD [OF x] by (simp add: k_def)
      then show "\<not> x \<le> i" using i by simp
    qed
    then have "filter (\<lambda>x. x \<le> i) ?D = filter (\<lambda>x. x \<le> i) (take d ?D)"
      by (metis append_Nil2 append_take_drop_id filter_append)
    then show ?thesis using tr_depth [OF ok, of i] i by simp
  qed
  show "trail_ok n ?vl dep (truncate_to_depth d t)"
    unfolding trail_ok_def trail_pre_def lits head
  proof (intro conjI allI impI ballI)
    show "length ?vl = n" using tr_len [OF ok] by (simp add: length_fold_update)
    show "distinct (map LIT_VAR (take k ?M))" using dist(1) .
    show "LIT_VAR l < n" if "l \<in> set (take k ?M)" for l using that tr_var [OF ok] by (blast dest: in_set_takeD)
    show "sorted_wrt (<) (take d ?D)" using tr_sorted [OF ok] by (rule sorted_wrt_take)
    show "x \<le> k" "x < length (take k ?M)" if "x \<in> set (take d ?D)" for x
      using that truncate_starts [OF ok d, of x] k by (auto simp: k_def)
  qed (use vals deps k tr_len [OF ok] in simp_all)
qed


text \<open>The state after undoing the assignments above depth d.\<close>

definition undone :: "nat \<Rightarrow> sat \<Rightarrow> sat" where
  "undone d s = (fold unassign (rev (drop (depth_starts (tr s) ! d) (literals (tr s)))) s)\<lparr>tr := truncate_to_depth d (tr s)\<rparr>"

lemma backtrack_eq: "backtrack d s = (if d < decision_depth (tr s) then undone d s else s)"
  by (simp add: backtrack_def above_depth_def undone_def backtrack_offset_def Let_def)

lemma undone_sel [simp]:
  "arena (undone d s) = arena s" "clause_refs (undone d s) = clause_refs s" "watches (undone d s) = watches s"
  "phase (undone d s) = phase s" "assignment_depth (undone d s) = assignment_depth s" "seen (undone d s) = seen s"
  "tr (undone d s) = truncate_to_depth d (tr s)" "decay (undone d s) = decay s" "conflicts (undone d s) = conflicts s"
  "restart_initial_limit (undone d s) = restart_initial_limit s" "steps (undone d s) = steps s"
  by (simp_all add: undone_def)

lemma truncate_sel [simp]:
  "literals (truncate_to_depth d t) = take (depth_starts t ! d) (literals t)" "depth_starts (truncate_to_depth d t) = take d (depth_starts t)"
  by (simp_all add: truncate_to_depth_def backtrack_offset_def Let_def)

lemma undone_reason_ok:
  assumes ok: "trail_ok n (val s) (assignment_depth s) (tr s)" and d: "d < length (depth_starts (tr s))"
    and rs: "reason_ok R a (reason s) (tr s)" and len: "length (reason s) = n"
  shows "reason_ok R a (reason (undone d s)) (truncate_to_depth d (tr s))"
  unfolding reason_ok_def
proof (intro allI impI)
  let ?M = "literals (tr s)" and ?k = "depth_starts (tr s) ! d"
  fix i assume "i < length (literals (truncate_to_depth d (tr s)))"
  then have i: "i < ?k" "i < length ?M" by simp_all
  then have nth: "literals (truncate_to_depth d (tr s)) ! i = ?M ! i" by simp
  have "distinct (map LIT_VAR (take ?k ?M @ drop ?k ?M))" using tr_distinct [OF ok] by simp
  then have "LIT_VAR ` set (take ?k ?M) \<inter> LIT_VAR ` set (drop ?k ?M) = {}"
    by (simp only: map_append distinct_append set_map)
  moreover have "?M ! i \<in> set (take ?k ?M)" using i by (auto simp: in_set_conv_nth)
  ultimately have "LIT_VAR (?M ! i) \<notin> LIT_VAR ` set (drop ?k ?M)" by blast
  moreover have "LIT_VAR (?M ! i) < length (reason s)" using tr_var [OF ok, of "?M ! i"] i len by simp
  ultimately have same: "reason (undone d s) ! LIT_VAR (?M ! i) = reason s ! LIT_VAR (?M ! i)"
    by (simp add: undone_def nth_fold_clear)
  show "case reason (undone d s) ! LIT_VAR (literals (truncate_to_depth d (tr s)) ! i) of
       None \<Rightarrow> i \<in> set (depth_starts (truncate_to_depth d (tr s)))
     | Some r \<Rightarrow> r \<in> R \<and> literals (truncate_to_depth d (tr s)) ! i \<in> set (clause_lits a r)
         \<and> (\<forall>l \<in> set (clause_lits a r). l \<noteq> literals (truncate_to_depth d (tr s)) ! i \<longrightarrow>
               LIT_NEG l \<in> set (take i (literals (truncate_to_depth d (tr s)))))"
    unfolding nth same
    using reason_ok_D [OF rs i(2)] truncate_starts [OF ok d, of i] i by (cases "reason s ! LIT_VAR (?M ! i)") (simp_all add: min_absorb1)
qed

lemma undone_order_ok:
  assumes ok: "trail_ok n (val s) (assignment_depth s) (tr s)" and q: "order_ok n (val s) (order s)"
  shows "order_ok n (val (undone d s)) (order (undone d s))"
proof -
  let ?ls = "rev (drop (depth_starts (tr s) ! d) (literals (tr s)))"
  have "set (map LIT_VAR ?ls) \<subseteq> {..<n}" using tr_var [OF ok] by (auto dest: in_set_dropD)
  note ins = vo.ins_fold_good [OF _ this, of "order s"]
  have "v \<in> members (order (undone d s))" if "v < n" "val (undone d s) ! v = None" for v
    using that ins q tr_len [OF ok] by (cases "v \<in> LIT_VAR ` set ?ls") (auto simp: undone_def nth_fold_clear order_ok_def)
  then show ?thesis using ins q by (simp add: order_ok_def undone_def)
qed

lemma undone_on_trail:
  assumes ok: "trail_ok n vl dep t" and d: "d < length (depth_starts t)"
  shows "l \<in> set (take (depth_starts t ! d) (literals t)) \<longleftrightarrow> l \<in> set (literals t) \<and> dep ! LIT_VAR l \<le> d"
proof -
  have k: "depth_starts t ! d < length (literals t)" using tr_start(1) [OF ok nth_mem [OF d]] .
  then have "set (take (depth_starts t ! d) (literals t)) = (!) (literals t) ` {0..<depth_starts t ! d}"
    using nth_image [of "depth_starts t ! d" "literals t"] by simp
  moreover have "set (literals t) = (!) (literals t) ` {0..<length (literals t)}" using nth_image [of _ "literals t"] by simp
  ultimately show ?thesis using depth_le_iff [OF ok _ d] k by (auto simp: image_iff)
qed

lemma undone_inv:
  assumes inv: "base_inv n F s" and wk: "watch_ok n (refs s) (arena s) (watches s)"
    and un: "units_ok (refs s) (arena s) (assignment_depth s) (tr s)"
    and ws: "watch_sem (refs s) (arena s) (assignment_depth s) (tr s) E"
    and E: "\<And>r x. (r, x) \<in> E \<Longrightarrow> assignment_depth s ! LIT_VAR x = decision_depth (tr s)"
    and d: "d < decision_depth (tr s)"
  shows "search_inv n F (undone d s)"
proof -
  note b = base_inv_D [OF inv]
  have dl: "d < length (depth_starts (tr s))" using d by (simp add: decision_depth_def)
  note mem = undone_on_trail [OF b(1) dl] and cut = truncate_trail_ok [OF b(1) dl]
  have "trail_ok n (val (undone d s)) (assignment_depth s) (truncate_to_depth d (tr s))"
    using cut(1) by (simp add: undone_def)
  then have "base_inv n F (undone d s)"
    unfolding base_inv_def using b undone_reason_ok [OF b(1) dl b(4,2)] undone_order_ok [OF b(1,6)]
    by (simp add: undone_def length_fold_update)
  moreover have "watch_sem (refs s) (arena s) (assignment_depth s) (truncate_to_depth d (tr s)) {}"
  proof (rule watch_semI)
    fix r i assume r: "r \<in> refs s" "\<not> deleted (arena s) r" "2 \<le> clause_size (arena s) r" "i < 2"
      and "LIT_NEG (clause_lits (arena s) r ! i)
        \<in> set (take (propagation_head (truncate_to_depth d (tr s))) (literals (truncate_to_depth d (tr s))))"
    then have f: "LIT_NEG (clause_lits (arena s) r ! i) \<in> set (take (depth_starts (tr s) ! d) (literals (tr s)))"
      using cut(2) by simp
    let ?x = "clause_lits (arena s) r ! i"
    have x: "assignment_depth s ! LIT_VAR ?x \<le> d" using f mem by simp
    then have "(r, ?x) \<notin> E" using E d by fastforce
    moreover have "LIT_NEG ?x \<in> set (take (propagation_head (tr s)) (literals (tr s)))"
      by (rule subsetD [OF set_take_subset_set_take [OF tr_start(2) [OF b(1) nth_mem [OF dl]]] f])
    ultimately have "covered (arena s) (assignment_depth s) (tr s) r ?x" using watch_sem_D [OF ws r] by blast
    then obtain y where "y \<in> set (clause_lits (arena s) r)" "y \<in> set (literals (tr s))"
      "assignment_depth s ! LIT_VAR y \<le> assignment_depth s ! LIT_VAR ?x" by (auto simp: covered_def)
    then show "covered (arena s) (assignment_depth s) (truncate_to_depth d (tr s)) r ?x"
      using x mem [of y] unfolding covered_def by (intro bexI [of _ y]) auto
  qed
  moreover have "units_ok (refs s) (arena s) (assignment_depth s) (truncate_to_depth d (tr s))"
    using un mem unfolding units_ok_def by simp
  ultimately show ?thesis using wk unfolding search_inv_def by simp
qed

lemma backtrack_search_inv: "search_inv n F s \<Longrightarrow> search_inv n F (backtrack d s)"
  using undone_inv [of n F s "{}" d] search_inv_D [of n F s] by (simp add: backtrack_eq)


section \<open>Conflict analysis\<close>

text \<open>The clauses stay; a learned one may be marked deleted.\<close>

definition same_store :: "nat set \<Rightarrow> arena \<Rightarrow> arena \<Rightarrow> bool" where
  "same_store R a a' \<longleftrightarrow> arena_wf R a' \<and> (\<forall>q \<in> R. clause_lits a' q = clause_lits a q \<and> learned a' q = learned a q
     \<and> (deleted a q \<longrightarrow> deleted a' q) \<and> (deleted a' q \<longrightarrow> deleted a q \<or> learned a q))"

lemma same_store_D:
  assumes "same_store R a a'"
  shows "arena_wf R a'" "\<And>q. q \<in> R \<Longrightarrow> clause_lits a' q = clause_lits a q" "\<And>q. q \<in> R \<Longrightarrow> clause_size a' q = clause_size a q"
    "\<And>q. q \<in> R \<Longrightarrow> learned a' q = learned a q" "\<And>q. q \<in> R \<Longrightarrow> deleted a q \<Longrightarrow> deleted a' q"
    "\<And>q. q \<in> R \<Longrightarrow> deleted a' q \<Longrightarrow> deleted a q \<or> learned a q"
proof -
  show "arena_wf R a'" "\<And>q. q \<in> R \<Longrightarrow> learned a' q = learned a q" "\<And>q. q \<in> R \<Longrightarrow> deleted a q \<Longrightarrow> deleted a' q"
    "\<And>q. q \<in> R \<Longrightarrow> deleted a' q \<Longrightarrow> deleted a q \<or> learned a q"
    and c: "\<And>q. q \<in> R \<Longrightarrow> clause_lits a' q = clause_lits a q" using assms by (simp_all add: same_store_def)
  show "\<And>q. q \<in> R \<Longrightarrow> clause_size a' q = clause_size a q" using c length_clause_lits by metis
qed

lemma same_store_refl: "arena_wf R a \<Longrightarrow> same_store R a a"
  by (simp add: same_store_def)

lemma same_store_trans: "same_store R a b \<Longrightarrow> same_store R b c \<Longrightarrow> same_store R a c"
  unfolding same_store_def by fastforce

lemma same_store_watch_ok:
  assumes st: "same_store R a a'" and ok: "watch_ok n R a W"
  shows "watch_ok n R a' W"
proof (rule watch_okI)
  note D = same_store_D [OF st]
  show "length W = 2 * n" "\<And>x. x < 2 * n \<Longrightarrow> distinct (map fst (W ! x))" using wk_len [OF ok] wk_distinct [OF ok] by blast+
  show "r \<in> set (map fst (W ! (clause_lits a' r ! i)))" if "r \<in> R" "\<not> deleted a' r" "2 \<le> clause_size a' r" "i < 2" for r i
    using wk_watched [OF ok that(1) _ _ that(4)] that D(2,3,5) [OF that(1)] by auto
  fix x r assume x: "x < 2 * n"
  show "b \<in> set (clause_lits a' r)" if "(r, b) \<in> set (W ! x)" for b
    using wk_blocker [OF ok x that] D(2) [of r] wk_ref [OF ok x, of r] that by force
  assume m: "r \<in> set (map fst (W ! x))"
  then have "r \<in> R" by (rule wk_ref [OF ok x])
  then show "r \<in> R \<and> 2 \<le> clause_size a' r \<and> (\<exists>i < 2. x = clause_lits a' r ! i)"
    using wk_size [OF ok x m] wk_lit [OF ok x m] D(2,3) by simp
qed

lemma same_store_watch_sem:
  assumes st: "same_store R a a'" and ws: "watch_sem R a dep t E"
  shows "watch_sem R a' dep t E"
proof (rule watch_semI)
  note D = same_store_D [OF st]
  fix r i assume r: "r \<in> R" "\<not> deleted a' r" "2 \<le> clause_size a' r" "i < 2" "(r, clause_lits a' r ! i) \<notin> E"
    "LIT_NEG (clause_lits a' r ! i) \<in> set (take (propagation_head t) (literals t))"
  have "covered a dep t r (clause_lits a r ! i)"
    by (rule watch_sem_D [OF ws r(1) _ _ r(4)]) (use r D(2,3,5) [OF r(1)] in auto)
  then show "covered a' dep t r (clause_lits a' r ! i)" using D(2) [OF r(1)] by (simp add: covered_def)
qed

lemma same_store_units_ok: "same_store R a a' \<Longrightarrow> units_ok R a dep t \<Longrightarrow> units_ok R a' dep t"
  using same_store_D(2-4) [of R a a'] unfolding units_ok_def by simp

lemma same_store_reason_ok:
  assumes st: "same_store R a a'" and ok: "reason_ok R a rs t"
  shows "reason_ok R a' rs t"
  unfolding reason_ok_def
proof (intro allI impI)
  fix i assume i: "i < length (literals t)"
  show "case rs ! LIT_VAR (literals t ! i) of None \<Rightarrow> i \<in> set (depth_starts t)
     | Some r \<Rightarrow> r \<in> R \<and> literals t ! i \<in> set (clause_lits a' r)
         \<and> (\<forall>l \<in> set (clause_lits a' r). l \<noteq> literals t ! i \<longrightarrow> LIT_NEG l \<in> set (take i (literals t)))"
    using reason_ok_D [OF ok i] same_store_D(2) [OF st] by (cases "rs ! LIT_VAR (literals t ! i)") simp_all
qed

lemma same_store_clauses_ok:
  assumes st: "same_store R a a'" and ok: "clauses_ok n F R a"
  shows "clauses_ok n F R a'"
  unfolding clauses_ok_def
proof (intro conjI ballI allI impI)
  note D = same_store_D [OF st] and C = clauses_ok_D [OF ok]
  show "arena_wf R a'" by (rule D(1))
  fix r assume r: "r \<in> R"
  show "canonical (clause_lits a' r)" "\<And>l. l \<in> set (clause_lits a' r) \<Longrightarrow> LIT_VAR l < n" using D(2) [OF r] C(2,3) [OF r] by simp_all
  show "sat_clause \<alpha> (clause_lits a' r)" if "sat_cnf \<alpha> F" for \<alpha> using D(2) [OF r] C(4) [OF r that] by simp
  show "learned a' r" if "deleted a' r" using D(4,6) [OF r] C(5) [OF r] that by blast
next
  fix C assume "C \<in> set F"
  then obtain r where "r \<in> R" "set (clause_lits a r) = set C" "\<not> learned a r" using ck_input [OF ok] by blast
  then show "\<exists>r \<in> R. set (clause_lits a' r) = set C \<and> \<not> learned a' r" using same_store_D(2,4) [OF st] by (intro bexI [of _ r]) simp_all
qed

text \<open>The analysis changes the time stamps of clauses, the marks and the branching order only.\<close>

definition marks_only :: "sat \<Rightarrow> sat \<Rightarrow> bool" where
  "marks_only s s' \<longleftrightarrow> clause_refs s' = clause_refs s \<and> watches s' = watches s \<and> val s' = val s \<and> phase s' = phase s
     \<and> assignment_depth s' = assignment_depth s \<and> reason s' = reason s \<and> tr s' = tr s \<and> decay s' = decay s
     \<and> conflicts s' = conflicts s \<and> restart_initial_limit s' = restart_initial_limit s \<and> steps s' = steps s
     \<and> same_store (refs s) (arena s) (arena s')"

lemma marks_only_D:
  assumes "marks_only s s'"
  shows "clause_refs s' = clause_refs s" "watches s' = watches s" "val s' = val s" "phase s' = phase s"
    "assignment_depth s' = assignment_depth s" "reason s' = reason s" "tr s' = tr s" "decay s' = decay s" "conflicts s' = conflicts s"
    "restart_initial_limit s' = restart_initial_limit s" "steps s' = steps s" "same_store (refs s) (arena s) (arena s')"
  using assms unfolding marks_only_def by blast+

lemma marks_base_inv:
  assumes "marks_only s s'" "base_inv n F s" "seen s' = replicate n False" "order_ok n (val s) (order s')"
  shows "base_inv n F s'"
proof -
  note b = base_inv_D [OF assms(2)] and m = marks_only_D [OF assms(1)]
  show ?thesis unfolding base_inv_def m(1-8)
    using b assms(3,4) same_store_reason_ok [OF m(12) b(4)] same_store_clauses_ok [OF m(12) b(5)] by blast
qed

text \<open>
  While the analysis walks the trail down from k: marked variables are assigned above the root; those
  of the current depth lie below k and are counted, the others are the variables of the learned tail.
\<close>

definition traced :: "nat \<Rightarrow> sat \<Rightarrow> nat \<Rightarrow> sat \<times> clause \<times> int \<Rightarrow> bool" where
  "traced n s0 k = (\<lambda>(s, tail, paths).
     marks_only s0 s \<and> length (seen s) = n \<and> order_ok n (val s0) (order s) \<and> distinct (map LIT_VAR tail)
     \<and> (\<forall>v < n. seen s ! v \<longrightarrow> 0 < assignment_depth s0 ! v
          \<and> (if assignment_depth s0 ! v = decision_depth (tr s0) then v \<in> LIT_VAR ` set (take k (literals (tr s0))) else v \<in> LIT_VAR ` set tail))
     \<and> (\<forall>l \<in> set tail. LIT_NEG l \<in> set (literals (tr s0)) \<and> seen s ! LIT_VAR l \<and> assignment_depth s0 ! LIT_VAR l \<noteq> decision_depth (tr s0))
     \<and> paths = int (card {v. v < n \<and> seen s ! v \<and> assignment_depth s0 ! v = decision_depth (tr s0)}))"

lemma traced_D:
  assumes "traced n s0 k (s, tail, paths)"
  shows "marks_only s0 s" "length (seen s) = n" "order_ok n (val s0) (order s)" "distinct (map LIT_VAR tail)"
    "\<And>v. v < n \<Longrightarrow> seen s ! v \<Longrightarrow> 0 < assignment_depth s0 ! v"
    "\<And>v. v < n \<Longrightarrow> seen s ! v \<Longrightarrow> assignment_depth s0 ! v = decision_depth (tr s0) \<Longrightarrow> v \<in> LIT_VAR ` set (take k (literals (tr s0)))"
    "\<And>v. v < n \<Longrightarrow> seen s ! v \<Longrightarrow> assignment_depth s0 ! v \<noteq> decision_depth (tr s0) \<Longrightarrow> v \<in> LIT_VAR ` set tail"
    "\<And>l. l \<in> set tail \<Longrightarrow> LIT_NEG l \<in> set (literals (tr s0))" "\<And>l. l \<in> set tail \<Longrightarrow> seen s ! LIT_VAR l"
    "\<And>l. l \<in> set tail \<Longrightarrow> assignment_depth s0 ! LIT_VAR l \<noteq> decision_depth (tr s0)"
    "paths = int (card {v. v < n \<and> seen s ! v \<and> assignment_depth s0 ! v = decision_depth (tr s0)})"
  using assms unfolding traced_def prod.case by (blast | metis)+

lemma tracedI:
  assumes "marks_only s0 s" "length (seen s) = n" "order_ok n (val s0) (order s)" "distinct (map LIT_VAR tail)"
    "\<And>v. v < n \<Longrightarrow> seen s ! v \<Longrightarrow> 0 < assignment_depth s0 ! v"
    "\<And>v. v < n \<Longrightarrow> seen s ! v \<Longrightarrow> assignment_depth s0 ! v = decision_depth (tr s0) \<Longrightarrow> v \<in> LIT_VAR ` set (take k (literals (tr s0)))"
    "\<And>v. v < n \<Longrightarrow> seen s ! v \<Longrightarrow> assignment_depth s0 ! v \<noteq> decision_depth (tr s0) \<Longrightarrow> v \<in> LIT_VAR ` set tail"
    "\<And>l. l \<in> set tail \<Longrightarrow> LIT_NEG l \<in> set (literals (tr s0)) \<and> seen s ! LIT_VAR l \<and> assignment_depth s0 ! LIT_VAR l \<noteq> decision_depth (tr s0)"
    "paths = int (card {v. v < n \<and> seen s ! v \<and> assignment_depth s0 ! v = decision_depth (tr s0)})"
  shows "traced n s0 k (s, tail, paths)"
  unfolding traced_def prod.case using assms by (simp only: if_split) blast

lemma order_ok_bump: "order_ok n vl q \<Longrightarrow> v < n \<Longrightarrow> order_ok n vl (bump v q)"
  by (simp add: order_ok_def vo.raise_good vo.raise_members [of n])

lemma card_mark:
  assumes "v < n" "\<not> sn ! v" "length sn = n"
  shows "card {u. u < n \<and> sn[v := True] ! u \<and> P u} = (if P v then Suc (card {u. u < n \<and> sn ! u \<and> P u}) else card {u. u < n \<and> sn ! u \<and> P u})"
proof -
  have "{u. u < n \<and> sn[v := True] ! u \<and> P u} = (if P v then insert v {u. u < n \<and> sn ! u \<and> P u} else {u. u < n \<and> sn ! u \<and> P u})"
    using assms by (auto simp: nth_list_update)
  then show ?thesis using assms(2) by simp
qed

lemma scan_literal_traced:
  assumes ok: "trail_ok n (val s0) (assignment_depth s0) (tr s0)" and tc: "traced n s0 k (s, tail, paths)"
    and lit: "map_option LIT_VAR pivot \<noteq> Some (LIT_VAR lit) \<Longrightarrow> LIT_NEG lit \<in> set (take k (literals (tr s0)))"
    and run: "scan_literal pivot lit (s, tail, paths) = (s', tail', paths')"
  shows "traced n s0 k (s', tail', paths')" and "set tail \<subseteq> set tail'" and "\<And>v. seen s ! v \<Longrightarrow> seen s' ! v"
    and "map_option LIT_VAR pivot \<noteq> Some (LIT_VAR lit) \<Longrightarrow> assignment_depth s0 ! LIT_VAR lit = 0 \<or> seen s' ! LIT_VAR lit"
proof -
  let ?v = "LIT_VAR lit"
  note t = traced_D [OF tc] and m = marks_only_D [OF traced_D(1) [OF tc]]
  have all: "traced n s0 k (s', tail', paths') \<and> set tail \<subseteq> set tail' \<and> (\<forall>v. seen s ! v \<longrightarrow> seen s' ! v)
    \<and> (map_option LIT_VAR pivot \<noteq> Some ?v \<longrightarrow> assignment_depth s0 ! ?v = 0 \<or> seen s' ! ?v)"
  proof (cases "map_option LIT_VAR pivot = Some ?v \<or> seen s ! ?v \<or> assignment_depth s0 ! ?v = 0")
    case True
    then have "(s', tail', paths') = (s, tail, paths)" using run m(5) by (simp add: scan_literal_def Let_def)
    then show ?thesis using True tc by auto
  next
    case False
    then have neg: "LIT_NEG lit \<in> set (take k (literals (tr s0)))" using lit by simp
    then have mem: "LIT_NEG lit \<in> set (literals (tr s0))" by (rule in_set_takeD)
    have v: "?v < n" using tr_var [OF ok mem] by simp
    have new: "?v \<notin> LIT_VAR ` set tail" using False t(9) by auto
    have s': "s' = s\<lparr>seen := (seen s)[?v := True], order := bump ?v (order s)\<rparr>"
      "(tail', paths') = (if assignment_depth s0 ! ?v = decision_depth (tr s0) then (tail, paths + 1) else (tail @ [lit], paths))"
      using run False m(5,7) by (auto simp: scan_literal_def Let_def split: if_splits)
    have seen': "seen s' ! u \<longleftrightarrow> u = ?v \<or> seen s ! u" if "u < n" for u
      using that t(2) v by (cases "u = ?v") (simp_all add: s'(1))
    have card': "card {u. u < n \<and> seen s' ! u \<and> assignment_depth s0 ! u = decision_depth (tr s0)}
      = (if assignment_depth s0 ! ?v = decision_depth (tr s0) then Suc (card {u. u < n \<and> seen s ! u \<and> assignment_depth s0 ! u = decision_depth (tr s0)})
         else card {u. u < n \<and> seen s ! u \<and> assignment_depth s0 ! u = decision_depth (tr s0)})"
      using card_mark [OF v _ t(2)] False by (simp add: s'(1))
    have tail': "set tail \<subseteq> set tail'" "assignment_depth s0 ! ?v \<noteq> decision_depth (tr s0) \<Longrightarrow> lit \<in> set tail'"
      and old: "\<And>l. l \<in> set tail' \<Longrightarrow> l \<in> set tail \<or> l = lit \<and> assignment_depth s0 ! ?v \<noteq> decision_depth (tr s0)"
      using s'(2) by (auto split: if_splits)
    have "traced n s0 k (s', tail', paths')"
    proof (rule tracedI)
      show "marks_only s0 s'" using t(1) by (simp add: marks_only_def s'(1))
      show "order_ok n (val s0) (order s')" using order_ok_bump [OF t(3) v] by (simp add: s'(1))
      show "length (seen s') = n" using t(2) by (simp add: s'(1))
      show "distinct (map LIT_VAR tail')" using s'(2) t(4) new by (auto split: if_splits)
      show "paths' = int (card {v. v < n \<and> seen s' ! v \<and> assignment_depth s0 ! v = decision_depth (tr s0)})"
        using card' s'(2) t(11) by (auto split: if_splits)
      show "LIT_NEG l \<in> set (literals (tr s0)) \<and> seen s' ! LIT_VAR l \<and> assignment_depth s0 ! LIT_VAR l \<noteq> decision_depth (tr s0)"
        if "l \<in> set tail'" for l
        using old [OF that] t(8-10) [of l] mem seen' v tr_var [OF ok, of "LIT_NEG l"] by auto
      fix u assume u: "u < n" "seen s' ! u"
      show "0 < assignment_depth s0 ! u" using u t(5) seen' False by auto
      show "u \<in> LIT_VAR ` set (take k (literals (tr s0)))" if "assignment_depth s0 ! u = decision_depth (tr s0)"
        using u t(6) seen' that imageI [OF neg, of LIT_VAR] by auto
      show "u \<in> LIT_VAR ` set tail'" if "assignment_depth s0 ! u \<noteq> decision_depth (tr s0)"
        using u t(7) [of u] seen' that tail'(2) image_mono [OF tail'(1), of LIT_VAR] by (cases "u = ?v") auto
    qed
    moreover have "\<forall>u. seen s ! u \<longrightarrow> seen s' ! u" using v t(2) by (auto simp: s'(1) nth_list_update)
    ultimately show ?thesis using tail'(1) seen' v by blast
  qed
  then show "traced n s0 k (s', tail', paths')" "set tail \<subseteq> set tail'" "\<And>v. seen s ! v \<Longrightarrow> seen s' ! v"
    "map_option LIT_VAR pivot \<noteq> Some ?v \<Longrightarrow> assignment_depth s0 ! ?v = 0 \<or> seen s' ! ?v" by blast+
qed


lemma scan_clause_traced:
  assumes ok: "trail_ok n (val s0) (assignment_depth s0) (tr s0)"
  shows "traced n s0 k (s, tail, paths) \<Longrightarrow>
    (\<And>l. l \<in> set C \<Longrightarrow> map_option LIT_VAR pivot \<noteq> Some (LIT_VAR l) \<Longrightarrow> LIT_NEG l \<in> set (take k (literals (tr s0)))) \<Longrightarrow>
    fold (scan_literal pivot) C (s, tail, paths) = (s', tail', paths') \<Longrightarrow>
    traced n s0 k (s', tail', paths') \<and> set tail \<subseteq> set tail' \<and> (\<forall>v. seen s ! v \<longrightarrow> seen s' ! v)
    \<and> (\<forall>l \<in> set C. map_option LIT_VAR pivot \<noteq> Some (LIT_VAR l) \<longrightarrow> assignment_depth s0 ! LIT_VAR l = 0 \<or> seen s' ! LIT_VAR l)"
proof (induction C arbitrary: s tail paths)
  case (Cons lit C)
  obtain s1 tail1 paths1 where sc: "scan_literal pivot lit (s, tail, paths) = (s1, tail1, paths1)" by (metis prod_cases3)
  note one = scan_literal_traced [OF ok Cons.prems(1) _ sc] 
  have "traced n s0 k (s1, tail1, paths1)" using one(1) Cons.prems(2) [of lit] by simp
  from Cons.IH [OF this] Cons.prems(2,3) sc
  have "traced n s0 k (s', tail', paths') \<and> set tail1 \<subseteq> set tail' \<and> (\<forall>v. seen s1 ! v \<longrightarrow> seen s' ! v)
    \<and> (\<forall>l \<in> set C. map_option LIT_VAR pivot \<noteq> Some (LIT_VAR l) \<longrightarrow> assignment_depth s0 ! LIT_VAR l = 0 \<or> seen s' ! LIT_VAR l)" by simp
  then show ?case using one(2-4) Cons.prems(2) [of lit] by fastforce
qed simp

text \<open>What the analysis has derived: an assignment satisfying the input satisfies the tail or falsifies a marked literal.\<close>

definition derived :: "clause list \<Rightarrow> sat \<Rightarrow> nat \<Rightarrow> sat \<Rightarrow> clause \<Rightarrow> clause \<Rightarrow> bool" where
  "derived F s0 k s tail C \<longleftrightarrow> (\<forall>\<alpha>. sat_cnf \<alpha> F \<longrightarrow> sat_clause \<alpha> C \<or> sat_clause \<alpha> tail
     \<or> (\<exists>l \<in> set (take k (literals (tr s0))). seen s ! LIT_VAR l \<and> assignment_depth s0 ! LIT_VAR l = decision_depth (tr s0) \<and> \<not> sat_lit \<alpha> l))"

lemma scan_derived:
  assumes inv: "base_inv n F s0" and d: "derived F s0 k s tail C" and mono: "set tail \<subseteq> set tail'" "\<And>v. seen s ! v \<Longrightarrow> seen s' ! v"
    and tc: "traced n s0 k (s', tail', paths')"
    and false: "\<And>l. l \<in> set C \<Longrightarrow> LIT_NEG l \<in> set (take k (literals (tr s0)))"
    and marked: "\<And>l. l \<in> set C \<Longrightarrow> assignment_depth s0 ! LIT_VAR l = 0 \<or> seen s' ! LIT_VAR l"
  shows "derived F s0 k s' tail' []"
  unfolding derived_def
proof (intro allI impI)
  fix \<alpha> assume F: "sat_cnf \<alpha> F"
  note b = base_inv_D [OF inv] and t = traced_D [OF tc]
  have root: "sat_lit \<alpha> l" if "l \<in> set (literals (tr s0))" "assignment_depth s0 ! LIT_VAR l = 0" for l
    using root_implied [OF b(1,4,5) F] that by (auto simp: in_set_conv_nth)
  let ?goal = "sat_clause \<alpha> tail' \<or> (\<exists>l \<in> set (take k (literals (tr s0))). seen s' ! LIT_VAR l \<and>
     assignment_depth s0 ! LIT_VAR l = decision_depth (tr s0) \<and> \<not> sat_lit \<alpha> l)"
  have "?goal" if C: "l \<in> set C" "sat_lit \<alpha> l" for l
  proof -
    have neg: "LIT_NEG l \<in> set (take k (literals (tr s0)))" "LIT_NEG l \<in> set (literals (tr s0))"
      using false [OF C(1)] by (auto dest: in_set_takeD)
    have v: "LIT_VAR l < n" using tr_var [OF b(1) neg(2)] by simp
    have "assignment_depth s0 ! LIT_VAR l \<noteq> 0" using root [OF neg(2)] C(2) by auto
    then have sn: "seen s' ! LIT_VAR l" using marked [OF C(1)] by simp
    show ?thesis
    proof (cases "assignment_depth s0 ! LIT_VAR l = decision_depth (tr s0)")
      case True
      then show ?thesis using neg(1) sn C(2) by (intro disjI2 bexI [of _ "LIT_NEG l"]) simp_all
    next
      case False
      then obtain l' where l': "l' \<in> set tail'" "LIT_VAR l' = LIT_VAR l" using t(7) [OF v sn] by auto
      have "l' = l" using same_var [OF l'(2)] t(8) [OF l'(1)] trail_consistent [OF b(1) neg(2)] by auto
      then show ?thesis using l'(1) C(2) unfolding sat_clause_def by blast
    qed
  qed
  then show "sat_clause \<alpha> [] \<or> ?goal" using d F mono unfolding derived_def sat_clause_def by blast
qed

lemma find_seen_Some:
  "find_seen s k = Some i \<Longrightarrow> i < k \<and> seen s ! LIT_VAR (literals (tr s) ! i) \<and> (\<forall>j. i < j \<and> j < k \<longrightarrow> \<not> seen s ! LIT_VAR (literals (tr s) ! j))"
  by (induction k) (auto split: if_splits simp: less_Suc_eq)

lemma find_seen_exists: "j < k \<Longrightarrow> seen s ! LIT_VAR (literals (tr s) ! j) \<Longrightarrow> \<exists>i. find_seen s k = Some i"
  by (induction k) (auto simp: less_Suc_eq)


lemma card_unmark:
  assumes "v < n" "sn ! v" "length sn = n" "P v"
  shows "int (card {u. u < n \<and> sn[v := False] ! u \<and> P u}) = int (card {u. u < n \<and> sn ! u \<and> P u}) - 1"
proof -
  have "{u. u < n \<and> sn ! u \<and> P u} = insert v {u. u < n \<and> sn[v := False] ! u \<and> P u}"
    using assms by (auto simp: nth_list_update)
  moreover have "v \<notin> {u. u < n \<and> sn[v := False] ! u \<and> P u}" using assms by simp
  ultimately show ?thesis by simp
qed

text \<open>The marked literal closest to the top of the trail is of the current depth and becomes the pivot.\<close>

lemma pick_pivot:
  assumes ok: "trail_ok n (val s0) (assignment_depth s0) (tr s0)" and tc: "traced n s0 k (s, tail, paths)"
    and k: "k \<le> length (literals (tr s0))" and pos: "0 < paths"
  obtains i where "find_seen s k = Some i" "i < k"
    "assignment_depth s0 ! LIT_VAR (literals (tr s0) ! i) = decision_depth (tr s0)"
    "traced n s0 i (s\<lparr>seen := (seen s)[LIT_VAR (literals (tr s0) ! i) := False]\<rparr>, tail, paths - 1)"
    "\<And>F. derived F s0 k s tail [] \<Longrightarrow>
       derived F s0 i (s\<lparr>seen := (seen s)[LIT_VAR (literals (tr s0) ! i) := False]\<rparr>) tail [LIT_NEG (literals (tr s0) ! i)]"
proof -
  let ?M = "literals (tr s0)" and ?D = "decision_depth (tr s0)"
  note t = traced_D [OF tc] and m = marks_only_D [OF traced_D(1) [OF tc]]
  have "0 < card {v. v < n \<and> seen s ! v \<and> assignment_depth s0 ! v = ?D}" using pos t(11) by linarith
  then obtain v where v: "v < n" "seen s ! v" "assignment_depth s0 ! v = ?D" unfolding card_gt_0_iff by blast
  then obtain l where l: "l \<in> set (take k ?M)" "LIT_VAR l = v" using t(6) [OF v] by auto
  then obtain j where j: "j < k" "LIT_VAR (?M ! j) = v" by (auto simp: in_set_conv_nth)
  then obtain i where i: "find_seen s k = Some i" using find_seen_exists [of j k s] v(2) m(7) by auto
  have fs: "i < k" "seen s ! LIT_VAR (?M ! i)" "\<And>j. i < j \<Longrightarrow> j < k \<Longrightarrow> \<not> seen s ! LIT_VAR (?M ! j)"
    using find_seen_Some [OF i] m(7) by auto
  let ?p = "LIT_VAR (?M ! i)" and ?s = "s\<lparr>seen := (seen s)[LIT_VAR (?M ! i) := False]\<rparr>"
  have il: "i < length ?M" using fs(1) k by simp
  have p: "?p < n" using tr_var [OF ok nth_mem [OF il]] .
  have "j \<le> i" using fs(3) [of j] j v(2) by (meson not_le)
  then have dep: "assignment_depth s0 ! ?p = ?D"
    using depth_mono [OF ok _ il, of j] depth_le [OF ok nth_mem [OF il]] j(2) v(3) by simp
  have seen': "seen ?s ! u \<longleftrightarrow> seen s ! u \<and> u \<noteq> ?p" if "u < n" for u using that t(2) p by (cases "u = ?p") simp_all
  have below: "l \<in> set (take i ?M)" if l: "l \<in> set (take k ?M)" "seen s ! LIT_VAR l" "LIT_VAR l \<noteq> ?p" for l
  proof -
    obtain q where q: "q < k" "l = ?M ! q" using l(1) k by (auto simp: in_set_conv_nth)
    then have "q \<noteq> i" "\<not> i < q" using l fs(3) [of q] by auto
    then show ?thesis using q il by (auto simp: in_set_conv_nth intro!: exI [of _ q])
  qed
  have "traced n s0 i (?s, tail, paths - 1)"
  proof (rule tracedI)
    show "marks_only s0 ?s" using t(1) by (simp add: marks_only_def)
    show "paths - 1 = int (card {v. v < n \<and> seen ?s ! v \<and> assignment_depth s0 ! v = ?D})"
      using card_unmark [OF p fs(2) t(2), of "\<lambda>v. assignment_depth s0 ! v = ?D"] dep t(11) by simp
    show "LIT_NEG l \<in> set ?M \<and> seen ?s ! LIT_VAR l \<and> assignment_depth s0 ! LIT_VAR l \<noteq> ?D" if "l \<in> set tail" for l
      using t(8-10) [OF that] seen' [of "LIT_VAR l"] tr_var [OF ok, of "LIT_NEG l"] dep by auto
    fix u assume u: "u < n" "seen ?s ! u"
    show "u \<in> LIT_VAR ` set (take i ?M)" if "assignment_depth s0 ! u = ?D"
      using t(6) [OF u(1) _ that] u seen' below by fastforce
  qed (use t seen' in simp_all)
  moreover have "derived F s0 i ?s tail [LIT_NEG (?M ! i)]" if dv: "derived F s0 k s tail []" for F
    unfolding derived_def
  proof (intro allI impI)
    fix \<alpha> assume "sat_cnf \<alpha> F"
    then consider "sat_clause \<alpha> tail" | l where "l \<in> set (take k ?M)" "seen s ! LIT_VAR l" "assignment_depth s0 ! LIT_VAR l = ?D" "\<not> sat_lit \<alpha> l"
      using dv unfolding derived_def by auto
    then show "sat_clause \<alpha> [LIT_NEG (?M ! i)] \<or> sat_clause \<alpha> tail
        \<or> (\<exists>l \<in> set (take i ?M). seen ?s ! LIT_VAR l \<and> assignment_depth s0 ! LIT_VAR l = ?D \<and> \<not> sat_lit \<alpha> l)"
    proof cases
      case (2 l)
      have lM: "l \<in> set ?M" using 2(1) by (rule in_set_takeD)
      show ?thesis
      proof (cases "LIT_VAR l = ?p")
        case True
        then have "l = ?M ! i" using same_var [of l "?M ! i"] trail_consistent [OF ok nth_mem [OF il]] lM by auto
        then show ?thesis using 2(4) by simp
      next
        case False
        then show ?thesis using 2 below [OF 2(1,2)] seen' [OF tr_var [OF ok lM]] by blast
      qed
    qed simp
  qed
  ultimately show thesis using that [OF i fs(1) dep] by blast
qed

text \<open>While marked literals of the current depth remain below it, a pivot is not the decision of the depth.\<close>

lemma pivot_reason:
  assumes ok: "trail_ok n (val s0) (assignment_depth s0) (tr s0)" and rs: "reason_ok R a (reason s0) (tr s0)"
    and tc: "traced n s0 i (s, tail, paths)" and i: "i < length (literals (tr s0))" and pos: "0 < paths"
    and dep: "assignment_depth s0 ! LIT_VAR (literals (tr s0) ! i) = decision_depth (tr s0)"
  obtains c where "reason s0 ! LIT_VAR (literals (tr s0) ! i) = Some c"
proof (cases "reason s0 ! LIT_VAR (literals (tr s0) ! i)")
  case None
  let ?D = "decision_depth (tr s0)" and ?ds = "depth_starts (tr s0)"
  obtain j where j: "j < i" "assignment_depth s0 ! LIT_VAR (literals (tr s0) ! j) = ?D"
    using pick_pivot [OF ok tc less_imp_le [OF i] pos] by blast
  have "i \<in> set ?ds" using reason_None [OF rs i None] .
  then obtain m where m: "m < length ?ds" "?ds ! m = i" by (auto simp: in_set_conv_nth)
  have "assignment_depth s0 ! LIT_VAR (literals (tr s0) ! j) \<le> m" using depth_le_iff [OF ok _ m(1), of j] j i m by simp
  then show thesis using j m(1) by (simp add: decision_depth_def)
qed (use that in blast)

lemma traced_done:
  assumes "traced n s0 i (s, tail, paths)" "paths \<le> 0" "derived F s0 i s tail C" "trail_ok n (val s0) (assignment_depth s0) (tr s0)"
  shows "traced n s0 0 (s, tail, 0)" "derived F s0 0 s tail C"
proof -
  note t = traced_D [OF assms(1)]
  have p: "paths = 0" using t(11) assms(2) by simp
  then have none: "{v. v < n \<and> seen s ! v \<and> assignment_depth s0 ! v = decision_depth (tr s0)} = {}" using t(11) by simp
  show "traced n s0 0 (s, tail, 0)" by (rule tracedI) (use t none in \<open>auto simp: p\<close>)
  show "derived F s0 0 s tail C"
    unfolding derived_def
  proof (intro allI impI)
    fix \<alpha> assume "sat_cnf \<alpha> F"
    moreover have "\<not> (seen s ! LIT_VAR l \<and> assignment_depth s0 ! LIT_VAR l = decision_depth (tr s0))" if "l \<in> set (take i (literals (tr s0)))" for l
      using none tr_var [OF assms(4) in_set_takeD [OF that]] by blast
    ultimately have "sat_clause \<alpha> C \<or> sat_clause \<alpha> tail" using assms(3) unfolding derived_def by blast
    then show "sat_clause \<alpha> C \<or> sat_clause \<alpha> tail \<or> (\<exists>l \<in> set (take 0 (literals (tr s0))). seen s ! LIT_VAR l
        \<and> assignment_depth s0 ! LIT_VAR l = decision_depth (tr s0) \<and> \<not> sat_lit \<alpha> l)" by blast
  qed
qed


definition others :: "nat option \<Rightarrow> clause \<Rightarrow> clause" where
  "others pivot C = filter (\<lambda>l. map_option LIT_VAR pivot \<noteq> Some (LIT_VAR l)) C"

lemma touch_traced:
  assumes "traced n s0 k (s, tail, paths)" "c \<in> refs s0"
  shows "traced n s0 k (s\<lparr>arena := touch d c (arena s)\<rparr>, tail, paths)" "clause_lits (touch d c (arena s)) c = clause_lits (arena s0) c"
proof -
  note t = traced_D [OF assms(1)] and m = marks_only_D [OF traced_D(1) [OF assms(1)]]
  note st = same_store_D [OF m(12)]
  note nt = ca.note_spec [OF st(1) assms(2)] ca.note_wf [OF st(1) assms(2)]
  show "clause_lits (touch d c (arena s)) c = clause_lits (arena s0) c" using nt(1) [OF assms(2)] st(2) [OF assms(2)] by simp
  have "same_store (refs s0) (arena s) (touch d c (arena s))" unfolding same_store_def using nt by blast
  then have "same_store (refs s0) (arena s0) (touch d c (arena s))" by (rule same_store_trans [OF m(12)])
  then have "marks_only s0 (s\<lparr>arena := touch d c (arena s)\<rparr>)" using t(1) unfolding marks_only_def by simp
  then show "traced n s0 k (s\<lparr>arena := touch d c (arena s)\<rparr>, tail, paths)" using assms(1) unfolding traced_def by simp
qed

lemma paths_positive:
  assumes "traced n s0 k (s, tail, paths)" "v < n" "seen s ! v" "assignment_depth s0 ! v = decision_depth (tr s0)"
  shows "0 < paths"
proof -
  let ?V = "{v. v < n \<and> seen s ! v \<and> assignment_depth s0 ! v = decision_depth (tr s0)}"
  have "finite ?V" "v \<in> ?V" using assms by simp_all
  then have "0 < card ?V" unfolding card_gt_0_iff by blast
  then show ?thesis using traced_D(11) [OF assms(1)] by linarith
qed

lemma not_before:
  assumes "trail_ok n vl dep t" "i < length (literals t)"
  shows "literals t ! i \<notin> set (take i (literals t))"
proof -
  have "distinct (take i (literals t) @ literals t ! i # drop (Suc i) (literals t))"
    using tr_distinct [OF assms(1)] id_take_nth_drop [OF assms(2)] by (simp add: distinct_map)
  then show ?thesis by (simp only: distinct_append distinct.simps list.set) blast
qed

text \<open>The loop ends with the first unique implication point.\<close>

lemma analyze_loop_spec:
  assumes inv: "base_inv n F s0" and D: "0 < decision_depth (tr s0)"
  shows "traced n s0 k (s, tail, paths) \<Longrightarrow> k \<le> length (literals (tr s0)) \<Longrightarrow> c \<in> refs s0 \<Longrightarrow>
    (\<And>l. l \<in> set (others pivot (clause_lits (arena s0) c)) \<Longrightarrow> LIT_NEG l \<in> set (take k (literals (tr s0)))) \<Longrightarrow>
    derived F s0 k s tail (others pivot (clause_lits (arena s0) c)) \<Longrightarrow>
    (0 < paths \<or> (\<exists>l \<in> set (others pivot (clause_lits (arena s0) c)). assignment_depth s0 ! LIT_VAR l = decision_depth (tr s0))) \<Longrightarrow>
    \<exists>p s' tail'. analyze_loop k c pivot (s, tail, paths) = Some (p, s', tail') \<and> p \<in> set (literals (tr s0))
      \<and> assignment_depth s0 ! LIT_VAR p = decision_depth (tr s0) \<and> traced n s0 0 (s', tail', 0) \<and> derived F s0 0 s' tail' [LIT_NEG p]"
proof (induction k arbitrary: s tail paths c pivot rule: less_induct)
  case (less k)
  let ?M = "literals (tr s0)" and ?C = "others pivot (clause_lits (arena s0) c)"
  note b = base_inv_D [OF inv]
  define s1 where "s1 = s\<lparr>arena := touch (conflicts s) c (arena s)\<rparr>"
  have t1: "traced n s0 k (s1, tail, paths)" and lits: "clause_lits (arena s1) c = clause_lits (arena s0) c"
    using touch_traced [OF less.prems(1,3)] by (simp_all add: s1_def)
  obtain s2 tail2 paths2 where sc: "fold (scan_literal pivot) (clause_lits (arena s0) c) (s1, tail, paths) = (s2, tail2, paths2)"
    by (metis prod_cases3)
  have "LIT_NEG l \<in> set (take k ?M)" if "l \<in> set (clause_lits (arena s0) c)" "map_option LIT_VAR pivot \<noteq> Some (LIT_VAR l)" for l
    using less.prems(4) that by (simp add: others_def)
  note scan = scan_clause_traced [OF b(1) t1 this sc]
  have t2: "traced n s0 k (s2, tail2, paths2)" using scan by blast
  have marked: "assignment_depth s0 ! LIT_VAR l = 0 \<or> seen s2 ! LIT_VAR l" if "l \<in> set ?C" for l
    using scan that by (auto simp: others_def)
  have "\<And>v. seen s ! v \<Longrightarrow> seen s2 ! v" "set tail \<subseteq> set tail2" using scan by (auto simp: s1_def)
  note dv = scan_derived [OF inv less.prems(5) this(2,1) t2 less.prems(4) marked]
  have pos: "0 < paths2"
  proof (cases "0 < paths")
    case True
    then obtain i where i: "i < k" "assignment_depth s0 ! LIT_VAR (?M ! i) = decision_depth (tr s0)" "find_seen s1 k = Some i"
      using pick_pivot [OF b(1) t1 less.prems(2)] by blast
    have il: "i < length ?M" using i(1) less.prems(2) by simp
    have "seen s1 ! LIT_VAR (?M ! i)" using find_seen_Some [OF i(3)] marks_only_D(7) [OF traced_D(1) [OF t1]] by simp
    then show ?thesis using paths_positive [OF t2 tr_var [OF b(1) nth_mem [OF il]]] scan i(2) by blast
  next
    case False
    then obtain l where l: "l \<in> set ?C" "assignment_depth s0 ! LIT_VAR l = decision_depth (tr s0)" using less.prems(6) by blast
    have "LIT_VAR l < n" using tr_var [OF b(1) in_set_takeD [OF less.prems(4) [OF l(1)]]] by simp
    then show ?thesis using paths_positive [OF t2] marked [OF l(1)] l(2) D by simp
  qed
  obtain i where i: "find_seen s2 k = Some i" "i < k" "assignment_depth s0 ! LIT_VAR (?M ! i) = decision_depth (tr s0)"
    "traced n s0 i (s2\<lparr>seen := (seen s2)[LIT_VAR (?M ! i) := False]\<rparr>, tail2, paths2 - 1)"
    "derived F s0 i (s2\<lparr>seen := (seen s2)[LIT_VAR (?M ! i) := False]\<rparr>) tail2 [LIT_NEG (?M ! i)]"
    using pick_pivot [OF b(1) t2 less.prems(2) pos] dv by metis
  let ?s3 = "s2\<lparr>seen := (seen s2)[LIT_VAR (?M ! i) := False]\<rparr>"
  have il: "i < length ?M" using i(2) less.prems(2) by simp
  note m2 = marks_only_D [OF traced_D(1) [OF t2]]
  have step: "analyze_loop k c pivot (s, tail, paths) =
    (if paths2 - 1 > 0 then case reason s0 ! LIT_VAR (?M ! i) of None \<Rightarrow> None | Some c \<Rightarrow> analyze_loop i c (Some (?M ! i)) (?s3, tail2, paths2 - 1)
     else Some (?M ! i, ?s3, tail2))"
    using sc i(1) lits m2(6,7) by (subst analyze_loop.simps) (simp add: Let_def s1_def)
  show ?case
  proof (cases "paths2 - 1 > 0")
    case True
    obtain r where r: "reason s0 ! LIT_VAR (?M ! i) = Some r" using pivot_reason [OF b(1,4) i(4) il True i(3)] by blast
    note ref = reason_ref [OF b(4) il r]
    let ?C' = "others (Some (?M ! i)) (clause_lits (arena s0) r)"
    have false: "LIT_NEG l \<in> set (take i ?M)" if "l \<in> set ?C'" for l
      using reason_false [OF b(4) il r, of l] that by (auto simp: others_def)
    have "derived F s0 i ?s3 tail2 ?C'"
      unfolding derived_def
    proof (intro allI impI)
      fix \<alpha> assume F: "sat_cnf \<alpha> F"
      have "sat_clause \<alpha> ?C' \<or> sat_lit \<alpha> (?M ! i)"
      proof -
        obtain l where l: "l \<in> set (clause_lits (arena s0) r)" "sat_lit \<alpha> l"
          using ck_implied [OF b(5) ref F] by (auto simp: sat_clause_def)
        have "l = ?M ! i" if "LIT_VAR l = LIT_VAR (?M ! i)"
          using reason_false [OF b(4) il r l(1)] same_var [OF that] not_before [OF b(1) il] by fastforce
        then show ?thesis using l by (auto simp: sat_clause_def others_def)
      qed
      then show "sat_clause \<alpha> ?C' \<or> sat_clause \<alpha> tail2 \<or> (\<exists>l \<in> set (take i ?M). seen ?s3 ! LIT_VAR l
          \<and> assignment_depth s0 ! LIT_VAR l = decision_depth (tr s0) \<and> \<not> sat_lit \<alpha> l)"
        using i(5) F unfolding derived_def by auto
    qed
    from less.IH [OF i(2,4) less_imp_le [OF il] ref false this] True show ?thesis unfolding step r by simp
  next
    case False
    then show ?thesis using step traced_done [OF i(4) _ i(5) b(1)] i(3) il by auto
  qed
qed


section \<open>The learned clause\<close>

text \<open>An asserting clause: false, one literal of the current depth, and the deepest other one second.\<close>

definition asserting :: "nat \<Rightarrow> clause list \<Rightarrow> sat \<Rightarrow> clause \<Rightarrow> nat \<Rightarrow> bool" where
  "asserting n F s cls bd \<longleftrightarrow> cls \<noteq> [] \<and> canonical cls \<and> (\<forall>l \<in> set cls. LIT_NEG l \<in> set (literals (tr s)))
     \<and> (\<forall>\<alpha>. sat_cnf \<alpha> F \<longrightarrow> sat_clause \<alpha> cls) \<and> assignment_depth s ! LIT_VAR (cls ! 0) = decision_depth (tr s)
     \<and> bd < decision_depth (tr s) \<and> (\<forall>l \<in> set (tl cls). assignment_depth s ! LIT_VAR l \<le> bd)
     \<and> (1 < length cls \<longrightarrow> assignment_depth s ! LIT_VAR (cls ! 1) = bd)"

lemma deepest_spec:
  assumes "deepest s cls = (bd, best)" and pos: "\<forall>l \<in> set (tl cls). 0 < assignment_depth s ! LIT_VAR l"
  shows "\<And>l. l \<in> set (tl cls) \<Longrightarrow> assignment_depth s ! LIT_VAR l \<le> bd"
    and "1 < length cls \<Longrightarrow> 1 \<le> best \<and> best < length cls \<and> bd = assignment_depth s ! LIT_VAR (cls ! best)"
    and "length cls \<le> 1 \<Longrightarrow> bd = 0"
proof -
  let ?d = "\<lambda>k. assignment_depth s ! LIT_VAR (cls ! k)"
  let ?step = "\<lambda>k (bd, best). if ?d k > bd then (?d k, k) else (bd, best)"
  let ?I = "\<lambda>ks (bd, best). (\<forall>k \<in> set ks. ?d k \<le> bd) \<and> (bd = 0 \<and> best = 1 \<or> best \<in> set ks \<and> bd = ?d best)"
  have "?I ks (fold ?step ks (0, 1))" for ks
    by (rule fold_invariant_prefix [where P = ?I]) (auto split: if_splits)
  from this [of "[1..<length cls]"] have inv: "\<And>k. 1 \<le> k \<Longrightarrow> k < length cls \<Longrightarrow> ?d k \<le> bd"
    "bd = 0 \<and> best = 1 \<or> 1 \<le> best \<and> best < length cls \<and> bd = ?d best"
    using assms(1) by (auto simp: deepest_def Let_def)
  have tl: "\<exists>k. 1 \<le> k \<and> k < length cls \<and> l = cls ! k" if "l \<in> set (tl cls)" for l
  proof -
    obtain i where "i < length (tl cls)" "l = tl cls ! i" using \<open>l \<in> set (tl cls)\<close> by (auto simp: in_set_conv_nth)
    then show ?thesis by (intro exI [of _ "Suc i"]) (auto simp: nth_tl)
  qed
  then show "assignment_depth s ! LIT_VAR l \<le> bd" if "l \<in> set (tl cls)" for l using inv(1) that by blast
  show "1 < length cls \<Longrightarrow> 1 \<le> best \<and> best < length cls \<and> bd = ?d best"
  proof -
    assume len: "1 < length cls"
    then have "cls ! 1 \<in> set (tl cls)" by (cases cls) auto
    then show ?thesis using inv(1) [of 1] inv(2) pos len by fastforce
  qed
  show "length cls \<le> 1 \<Longrightarrow> bd = 0" using inv(2) by auto
qed

lemma move_deepest:
  assumes "1 < length cls" "1 \<le> best" "best < length cls"
  shows "mset (cls[1 := cls ! best, best := cls ! 1]) = mset cls" "cls[1 := cls ! best, best := cls ! 1] ! 0 = cls ! 0"
    "cls[1 := cls ! best, best := cls ! 1] ! 1 = cls ! best" "set (tl (cls[1 := cls ! best, best := cls ! 1])) = set (tl cls)"
proof -
  let ?c = "cls[1 := cls ! best, best := cls ! 1]"
  show m: "mset ?c = mset cls" using assms by (simp add: mset_swap)
  show h: "?c ! 0 = cls ! 0" using assms by simp
  show "?c ! 1 = cls ! best" using assms by (cases "best = 1") auto
  have "?c = ?c ! 0 # tl ?c" "cls = cls ! 0 # tl cls" using assms(1) by (cases cls; simp; cases best; simp)+
  then have "mset (tl ?c) = mset (tl cls)" using m h by (metis add_mset_add_single add_right_cancel mset.simps(2))
  then show "set (tl ?c) = set (tl cls)" by (rule mset_eq_setD)
qed

lemma deepest_second:
  assumes "1 < length cls \<Longrightarrow> 1 \<le> best \<and> best < length cls"
  defines "c \<equiv> if 1 < length cls then cls[1 := cls ! best, best := cls ! 1] else cls"
  shows "mset c = mset cls" "c ! 0 = cls ! 0" "set (tl c) = set (tl cls)" "1 < length c \<Longrightarrow> c ! 1 = cls ! best"
  using move_deepest [of cls best] assms(1) unfolding c_def by (cases "1 < length cls"; simp)+

lemma clear_seen_done:
  assumes "traced n s0 0 (s, tail, 0)"
  shows "seen (clear_seen tail s) = replicate n False"
proof (rule nth_equalityI)
  note t = traced_D [OF assms]
  show len: "length (seen (clear_seen tail s)) = length (replicate n False)" using t(2) by (simp add: clear_seen_def length_fold_update)
  fix v assume "v < length (seen (clear_seen tail s))"
  then have v: "v < n" using len by simp
  have "v \<in> LIT_VAR ` set tail" if "seen s ! v" using t(6,7) [OF v that] by auto
  then show "seen (clear_seen tail s) ! v = replicate n False ! v"
    using v t(2) nth_fold_clear [of v "seen s" False tail] by (auto simp: clear_seen_def)
qed

lemma analyze_first_uip_spec:
  assumes cf: "conflict_inv n F r s" and root: "\<not> at_root (tr s)"
  obtains cls bd lbd s' where "analyze_first_uip r s = Some (cls, bd, lbd, s')" "marks_only s s'" "base_inv n F s'" "asserting n F s cls bd"
proof -
  have inv: "base_inv n F s" and r: "r \<in> refs s" and false: "\<And>l. l \<in> set (clause_lits (arena s) r) \<Longrightarrow> LIT_NEG l \<in> set (literals (tr s))"
    and deep: "\<exists>l \<in> set (clause_lits (arena s) r). assignment_depth s ! LIT_VAR l = decision_depth (tr s)"
    using cf unfolding conflict_inv_def by blast+
  note b = base_inv_D [OF inv]
  have D: "0 < decision_depth (tr s)" using root by (simp add: at_root_def decision_depth_def)
  have "traced n s (length (literals (tr s))) (s, [], 0)"
    by (rule tracedI) (use b same_store_refl [OF ck_wf [OF b(5)]] in \<open>auto simp: marks_only_def\<close>)
  moreover have "derived F s (length (literals (tr s))) s [] (others None (clause_lits (arena s) r))"
    using ck_implied [OF b(5) r] by (simp add: derived_def others_def)
  ultimately obtain p s1 tail where loop: "analyze_loop (length (literals (tr s))) r None (s, [], 0) = Some (p, s1, tail)"
    and p: "p \<in> set (literals (tr s))" "assignment_depth s ! LIT_VAR p = decision_depth (tr s)"
    and tc: "traced n s 0 (s1, tail, 0)" and dv: "derived F s 0 s1 tail [LIT_NEG p]"
    using analyze_loop_spec [OF inv D _ order_refl r, of s "[]" 0 None] false deep by (auto simp: others_def)
  note t = traced_D [OF tc] and m = marks_only_D [OF traced_D(1) [OF tc]]
  let ?cls = "LIT_NEG p # tail"
  obtain bd best where dp: "deepest s1 ?cls = (bd, best)" by fastforce
  have tv: "LIT_VAR l < n" if "l \<in> set tail" for l using tr_var [OF b(1) t(8) [OF that]] by simp
  have pos: "\<forall>l \<in> set (tl ?cls). 0 < assignment_depth s1 ! LIT_VAR l"
    using t(5) [OF tv t(9)] m(5) by simp
  note ds = deepest_spec [OF dp pos, unfolded m(5)]
  define cls where "cls = (if length ?cls > 1 then ?cls[1 := ?cls ! best, best := ?cls ! 1] else ?cls)"
  define s' where "s' = (clear_seen tail s1)\<lparr>order := decay_activity (decay s1) (order s1)\<rparr>"
  have run: "analyze_first_uip r s = Some (cls, bd, block_distance (clear_seen tail s1) (tl cls), s')"
    by (simp add: analyze_first_uip_def loop dp cls_def s'_def Let_def clear_seen_def)
  have mk: "marks_only s s'" using t(1) by (simp add: marks_only_def s'_def clear_seen_def)
  have "order_ok n (val s) (order s')"
    using t(3) decay_good [of n "order s1" "decay s1"] b(8) m(8) by (simp add: order_ok_def s'_def decay_activity_def)
  then have base: "base_inv n F s'"
    using marks_base_inv [OF mk inv] clear_seen_done [OF tc] by (simp add: s'_def)
  have perm: "mset cls = mset ?cls" "cls ! 0 = LIT_NEG p" "set (tl cls) = set tail" "1 < length cls \<Longrightarrow> cls ! 1 = ?cls ! best"
    using deepest_second [of ?cls best, folded cls_def] ds(2) by simp_all
  have "canonical ?cls" using t(4,10) p(2) by (auto simp: canonical_def)
  moreover have "mset (map LIT_VAR cls) = mset (map LIT_VAR ?cls)" by (simp only: mset_map perm(1))
  ultimately have can: "canonical cls" unfolding canonical_def using mset_eq_imp_distinct_iff by blast
  have set: "set cls = insert (LIT_NEG p) (set tail)" using mset_eq_setD [OF perm(1)] by simp
  have len: "length cls = length ?cls" using mset_eq_length [OF perm(1)] .
  have low: "bd < decision_depth (tr s)"
  proof (cases "1 < length ?cls")
    case True
    then obtain k where k: "best = Suc k" "k < length tail" using ds(2) by (cases best) auto
    then have l: "tail ! k \<in> set tail" by simp
    have "bd = assignment_depth s ! LIT_VAR (tail ! k)" using ds(2) [OF True] k by simp
    then show ?thesis using depth_le [OF b(1) t(8) [OF l]] t(10) [OF l] by simp
  qed (use ds(3) D in simp)
  have "asserting n F s cls bd"
    unfolding asserting_def
  proof (intro conjI ballI allI impI)
    show "cls \<noteq> []" using len by auto
    show "LIT_NEG l \<in> set (literals (tr s))" if "l \<in> set cls" for l using that set p(1) t(8) by auto
    show "sat_clause \<alpha> cls" if "sat_cnf \<alpha> F" for \<alpha> using dv that set by (auto simp: derived_def sat_clause_def)
    show "assignment_depth s ! LIT_VAR l \<le> bd" if "l \<in> set (tl cls)" for l using ds(1) that perm(3) by simp
    show "assignment_depth s ! LIT_VAR (cls ! 1) = bd" if "1 < length cls" using ds(2) perm(4) that len by simp
  qed (use can perm(2) p(2) low in simp_all)
  then show thesis using that [OF run mk base] by blast
qed

end
