(* ===== verification/Sat_Solve.thy ===== *)
theory Sat_Solve
  imports Sat_Analysis
begin

text \<open>
  The search as a whole: adding learned clauses, reducing the clause database, deciding, the
  construction of the solver and its main loop.
\<close>

section \<open>Adding a clause\<close>

lemma clauses_ok_add:
  assumes ok: "clauses_ok n F R a" and add: "arena_add cls lrn lbd c a = (r, a')"
    and cls: "canonical cls" "\<forall>l \<in> set cls. LIT_VAR l < n" "\<And>\<alpha>. sat_cnf \<alpha> F' \<Longrightarrow> sat_clause \<alpha> cls"
    and F': "\<And>\<alpha>. sat_cnf \<alpha> F' \<Longrightarrow> sat_cnf \<alpha> F" "\<And>C. C \<in> set F' \<Longrightarrow> C \<in> set F \<or> C = cls \<and> \<not> lrn"
  shows "clauses_ok n F' (insert r R) a'"
  unfolding clauses_ok_def
proof (intro conjI ballI allI impI)
  note wf = ck_wf [OF ok]
  note new = ca.add_new [OF wf add] and old = ca.add_old [OF wf add]
  show "arena_wf (insert r R) a'" by (rule ca.add_wf [OF wf add])
  fix q assume q: "q \<in> insert r R"
  show "canonical (clause_lits a' q)" using q new old [of q] ck_canonical [OF ok, of q] cls(1) by auto
  show "LIT_VAR l < n" if "l \<in> set (clause_lits a' q)" for l using q new old [of q] ck_var [OF ok, of q l] cls(2) that by auto
  show "sat_clause \<alpha> (clause_lits a' q)" if "sat_cnf \<alpha> F'" for \<alpha>
    using q new old [of q] ck_implied [OF ok, of q \<alpha>] cls(3) F'(1) that by auto
  show "learned a' q" if "deleted a' q" using q new old [of q] ck_deleted [OF ok, of q] that by auto
next
  fix C assume "C \<in> set F'"
  then consider "C \<in> set F" | "C = cls" "\<not> lrn" using F'(2) by blast
  then show "\<exists>q \<in> insert r R. set (clause_lits a' q) = set C \<and> \<not> learned a' q"
  proof cases
    case 1
    then obtain q where "q \<in> R" "set (clause_lits a q) = set C" "\<not> learned a q" using ck_input [OF ok] by blast
    then show ?thesis using ca.add_old [OF ck_wf [OF ok] add, of q] by (intro bexI [of _ q]) auto
  next
    case 2
    then show ?thesis using ca.add_new [OF ck_wf [OF ok] add] by auto
  qed
qed

definition push_watches :: "clause \<Rightarrow> nat \<Rightarrow> watch list list \<Rightarrow> watch list list" where
  "push_watches cls r W = (if length cls \<ge> 2
     then let W = W[cls ! 0 := W ! (cls ! 0) @ [(r, cls ! 1)]] in W[cls ! 1 := W ! (cls ! 1) @ [(r, cls ! 0)]] else W)"

lemma sat_add_eq:
  "sat_add cls lrn lbd s = (let (r, a) = arena_add cls lrn lbd (conflicts s) (arena s)
     in (r, s\<lparr>arena := a, clause_refs := clause_refs s @ [r], watches := push_watches cls r (watches s)\<rparr>))"
  by (simp add: sat_add_def push_watch_def push_watches_def Let_def split: prod.split)

lemma watch_ok_add:
  assumes ck: "clauses_ok n F R a" and ok: "watch_ok n R a W" and add: "arena_add cls lrn lbd c a = (r, a')"
    and cls: "canonical cls" "\<forall>l \<in> set cls. LIT_VAR l < n"
  shows "watch_ok n (insert r R) a' (push_watches cls r W)"
proof -
  note wf = ck_wf [OF ck]
  note new = ca.add_new [OF wf add] and old = ca.add_old [OF wf add] and fresh = ca.add_fresh [OF wf add]
  have size: "clause_size a' q = clause_size a q" if "q \<in> R" for q using old [OF that] length_clause_lits by metis
  have rsize: "clause_size a' r = length cls" using new length_clause_lits by metis
  have ne: "2 \<le> length cls \<Longrightarrow> cls ! 0 \<noteq> cls ! 1" by (rule canonical_nth [OF cls(1)]) auto
  have nth: "push_watches cls r W ! x = W ! x @ (if 2 \<le> length cls \<and> x = cls ! 0 then [(r, cls ! 1)]
      else if 2 \<le> length cls \<and> x = cls ! 1 then [(r, cls ! 0)] else [])" if "x < 2 * n" for x
    using that wk_len [OF ok] ne by (auto simp: push_watches_def Let_def nth_list_update)
  show ?thesis
  proof (rule watch_okI)
    show "length (push_watches cls r W) = 2 * n" using wk_len [OF ok] by (simp add: push_watches_def Let_def)
    fix q i :: nat assume q: "q \<in> insert r R" "\<not> deleted a' q" "2 \<le> clause_size a' q" "i < 2"
    show "q \<in> set (map fst (push_watches cls r W ! (clause_lits a' q ! i)))"
    proof (cases "q = r")
      case True
      have i: "i = 0 \<or> i = 1" using q(4) by auto
      have "cls ! i < 2 * n" using q(3,4) True rsize cls(2) by (intro lit_bound) simp
      then show ?thesis using True i q(3) rsize new nth by auto
    next
      case False
      then have qR: "q \<in> R" using q(1) by simp
      have m: "q \<in> set (map fst (W ! (clause_lits a q ! i)))" using wk_watched [OF ok qR _ _ q(4)] q(2,3) old [OF qR] size [OF qR] by simp
      have "clause_lits a q ! i \<in> set (clause_lits a q)" using q(3,4) size [OF qR] by (intro nth_mem) simp
      then have "clause_lits a q ! i < 2 * n" using ck_var [OF ck qR] by (intro lit_bound) blast
      then show ?thesis using m old [OF qR] nth by simp
    qed
  next
    fix x assume x: "x < 2 * n"
    have notin: "r \<notin> set (map fst (W ! x))" using wk_ref [OF ok x] fresh by blast
    show "distinct (map fst (push_watches cls r W ! x))" using wk_distinct [OF ok x] notin nth [OF x] by (simp only: map_append distinct_append split: if_split) auto
    show "b \<in> set (clause_lits a' q)" if m: "(q, b) \<in> set (push_watches cls r W ! x)" for q b
    proof -
      have "cls ! 0 \<in> set cls" "cls ! 1 \<in> set cls" if "2 \<le> length cls" using that by (auto intro: nth_mem)
      then consider "(q, b) \<in> set (W ! x)" | "q = r" "b \<in> set cls" using m nth [OF x] by (auto split: if_splits)
      then show ?thesis
      proof cases
        case 1
        then have "q \<in> R" using wk_ref [OF ok x, of q] by force
        then show ?thesis using old wk_blocker [OF ok x 1] by simp
      qed (use new in simp)
    qed
    show "q \<in> insert r R \<and> 2 \<le> clause_size a' q \<and> (\<exists>i<2. x = clause_lits a' q ! i)"
      if m: "q \<in> set (map fst (push_watches cls r W ! x))" for q
    proof -
      consider "q \<in> set (map fst (W ! x))" | "q = r" "2 \<le> length cls" "x = cls ! 0 \<or> x = cls ! 1"
        using m nth [OF x] by (auto split: if_splits)
      then show ?thesis
      proof cases
        case 1
        note qR = wk_ref [OF ok x 1]
        then show ?thesis using wk_size [OF ok x 1] wk_lit [OF ok x 1] old [OF qR] size [OF qR] by simp
      next
        case 2
        then have "\<exists>i<2. x = cls ! i" by (metis one_less_numeral_iff semiring_norm(76) zero_less_numeral)
        then show ?thesis using 2 new rsize by simp
      qed
    qed
  qed
qed

lemma reason_ok_add:
  assumes rs: "reason_ok R a rs t" and old: "\<And>q. q \<in> R \<Longrightarrow> clause_lits a' q = clause_lits a q"
  shows "reason_ok (insert r R) a' rs t"
  unfolding reason_ok_def
proof (intro allI impI)
  fix i assume i: "i < length (literals t)"
  show "case rs ! LIT_VAR (literals t ! i) of None \<Rightarrow> i \<in> set (depth_starts t)
     | Some r' \<Rightarrow> r' \<in> insert r R \<and> literals t ! i \<in> set (clause_lits a' r')
         \<and> (\<forall>l \<in> set (clause_lits a' r'). l \<noteq> literals t ! i \<longrightarrow> LIT_NEG l \<in> set (take i (literals t)))"
    using reason_ok_D [OF rs i] old by (cases "rs ! LIT_VAR (literals t ! i)") simp_all
qed

text \<open>Adding a learned clause: its own watches are still to be justified.\<close>

lemma learn_inv:
  assumes inv: "search_inv n F s" and add: "sat_add cls True lbd s = (r, s')"
    and cls: "canonical cls" "\<forall>l \<in> set cls. LIT_VAR l < n" "\<And>\<alpha>. sat_cnf \<alpha> F \<Longrightarrow> sat_clause \<alpha> cls"
  shows "base_inv n F s'" "watch_ok n (refs s') (arena s') (watches s')"
    "watch_sem (refs s') (arena s') (assignment_depth s') (tr s') {(q, x). q = r}"
    "units_ok (refs s') (arena s') (assignment_depth s') (tr s')"
    "r \<in> refs s'" "clause_lits (arena s') r = cls" "tr s' = tr s" "val s' = val s" "assignment_depth s' = assignment_depth s"
    "conflicts s' = conflicts s" "steps s' = steps s" "restart_initial_limit s' = restart_initial_limit s"
proof -
  note d = search_inv_D [OF inv]
  note b = base_inv_D [OF d(1)]
  obtain a where ar: "arena_add cls True lbd (conflicts s) (arena s) = (r, a)"
    and s': "s' = s\<lparr>arena := a, clause_refs := clause_refs s @ [r], watches := push_watches cls r (watches s)\<rparr>"
    using add by (auto simp: sat_add_eq Let_def split: prod.splits)
  note wf = ck_wf [OF b(5)]
  note new = ca.add_new [OF wf ar] and old = ca.add_old [OF wf ar]
  have size: "clause_size a q = clause_size (arena s) q" if "q \<in> refs s" for q using old [OF that] length_clause_lits by metis
  have R: "refs s' = insert r (refs s)" by (simp add: s')
  have "clauses_ok n F (insert r (refs s)) a" by (rule clauses_ok_add [OF b(5) ar cls]) simp_all
  moreover have "reason_ok (insert r (refs s)) a (reason s) (tr s)" by (rule reason_ok_add [OF b(4)]) (use old in blast)
  ultimately show "base_inv n F s'" unfolding base_inv_def R using b by (simp add: s')
  show "watch_ok n (refs s') (arena s') (watches s')" unfolding R using watch_ok_add [OF b(5) d(2) ar cls(1,2)] by (simp add: s')
  show "watch_sem (refs s') (arena s') (assignment_depth s') (tr s') {(q, x). q = r}"
    unfolding R
  proof (rule watch_semI)
    fix q i assume q: "q \<in> insert r (refs s)" "\<not> deleted (arena s') q" "2 \<le> clause_size (arena s') q" "i < 2"
      "(q, clause_lits (arena s') q ! i) \<notin> {(q, x). q = r}"
      "LIT_NEG (clause_lits (arena s') q ! i) \<in> set (take (propagation_head (tr s')) (literals (tr s')))"
    then have qR: "q \<in> refs s" by auto
    have "covered (arena s) (assignment_depth s) (tr s) q (clause_lits (arena s) q ! i)"
      by (rule watch_sem_D [OF d(3) qR]) (use q old [OF qR] size [OF qR] in \<open>simp_all add: s'\<close>)
    then show "covered (arena s') (assignment_depth s') (tr s') q (clause_lits (arena s') q ! i)"
      using old [OF qR] by (simp add: covered_def s')
  qed
  show "units_ok (refs s') (arena s') (assignment_depth s') (tr s')"
    using d(4) new old size unfolding units_ok_def R by (simp add: s')
qed (use add ca.add_new [OF ck_wf [OF base_inv_D(5) [OF search_inv_D(1) [OF inv]]]] in \<open>auto simp: sat_add_eq Let_def split: prod.splits\<close>)


lemma asserting_D:
  assumes "asserting n F s cls bd"
  shows "cls \<noteq> []" "canonical cls" "\<And>l. l \<in> set cls \<Longrightarrow> LIT_NEG l \<in> set (literals (tr s))"
    "\<And>\<alpha>. sat_cnf \<alpha> F \<Longrightarrow> sat_clause \<alpha> cls" "assignment_depth s ! LIT_VAR (cls ! 0) = decision_depth (tr s)"
    "bd < decision_depth (tr s)" "\<And>l. l \<in> set (tl cls) \<Longrightarrow> assignment_depth s ! LIT_VAR l \<le> bd"
    "1 < length cls \<Longrightarrow> assignment_depth s ! LIT_VAR (cls ! 1) = bd"
  using assms unfolding asserting_def by blast+

text \<open>After backtracking the asserting clause has one unassigned literal, which is assigned.\<close>

lemma assert_inv:
  assumes inv: "search_inv n F t" and add: "sat_add cls True lbd t = (r, t')" and ne: "cls \<noteq> []"
    and cls: "canonical cls" "\<forall>l \<in> set cls. LIT_VAR l < n" "\<And>\<alpha>. sat_cnf \<alpha> F \<Longrightarrow> sat_clause \<alpha> cls"
    and free: "val t ! LIT_VAR (cls ! 0) = None" and false: "\<And>l. l \<in> set (tl cls) \<Longrightarrow> LIT_NEG l \<in> set (literals (tr t))"
    and depth: "1 < length cls \<Longrightarrow> assignment_depth t ! LIT_VAR (cls ! 1) = decision_depth (tr t)"
  shows "enqueue (cls ! 0) (Some r) t' = (True, assigned (cls ! 0) (Some r) t')" and "search_inv n F (assigned (cls ! 0) (Some r) t')"
proof -
  let ?u = "assigned (cls ! 0) (Some r) t'" and ?v = "LIT_VAR (cls ! 0)"
  note l = learn_inv [OF inv add cls] 
  note b = base_inv_D [OF l(1)]
  have pre: "trail_pre n (val t') (assignment_depth t') (tr t')" using b(1) by (simp add: trail_ok_def)
  have v: "?v < n" using cls(2) ne by simp
  have new: "val t' ! ?v = None" using free l(8) by simp
  show "enqueue (cls ! 0) (Some r) t' = (True, ?u)" using new by (simp add: enqueue_eq eval_literal_def)
  have split: "set cls = insert (cls ! 0) (set (tl cls))" using ne by (cases cls) auto
  have base: "base_inv n F ?u"
    by (rule assigned_base_inv [OF l(1) v new l(5)]) (use l(6,7) false split in auto)
  have "watch_sem (refs t') (arena t') (assignment_depth ?u) (tr ?u) {}"
  proof (rule watch_semI)
    fix q i assume q: "q \<in> refs t'" "\<not> deleted (arena t') q" "2 \<le> clause_size (arena t') q" "i < 2"
      and neg: "LIT_NEG (clause_lits (arena t') q ! i) \<in> set (take (propagation_head (tr ?u)) (literals (tr ?u)))"
    show "covered (arena t') (assignment_depth ?u) (tr ?u) q (clause_lits (arena t') q ! i)"
    proof (cases "q = r")
      case False
      then show ?thesis using watch_sem_D [OF assigned_watch_sem [OF pre v new l(3)] q] neg by simp
    next
      case True
      have head: "propagation_head (tr t') \<le> length (literals (tr t'))" using tr_head [OF b(1)] .
      have two: "1 < length cls" using q(3) True l(6) length_clause_lits [of "arena t'" r] by simp
      have x: "LIT_NEG (cls ! i) \<in> set (literals (tr t'))" using neg head True l(6) by (auto dest: in_set_takeD)
      have "i \<noteq> 0" using fresh_var [OF pre v new x] by (metis LIT_VAR_NEG)
      then have i: "i = 1" using q(4) by simp
      have "assignment_depth ?u ! LIT_VAR (cls ! 1) = decision_depth (tr t')"
        using assigned_depth_same [OF pre v new x, of "Some r"] depth [OF two] i l(7,9) by simp
      moreover have "assignment_depth ?u ! ?v = decision_depth (tr t')" using tr_len(2) [OF b(1)] v by (simp add: assigned_def)
      ultimately show ?thesis unfolding covered_def using True i l(6) ne by (intro bexI [of _ "cls ! 0"]) simp_all
    qed
  qed
  then show "search_inv n F ?u"
    unfolding search_inv_def using base l(2) assigned_units_ok [OF pre v new l(4)] by simp
qed

lemma undone_free:
  assumes ok: "trail_ok n (val s) (assignment_depth s) (tr s)" and ok': "trail_ok n (val (undone d s)) (assignment_depth s) (truncate_to_depth d (tr s))"
    and d: "d < decision_depth (tr s)" and l: "LIT_NEG l \<in> set (literals (tr s))" "assignment_depth s ! LIT_VAR l = decision_depth (tr s)"
  shows "val (undone d s) ! LIT_VAR l = None"
proof (cases "val (undone d s) ! LIT_VAR l")
  case (Some b)
  have v: "LIT_VAR l < n" using tr_var [OF ok l(1)] by simp
  have "LIT (LIT_VAR l) b \<in> set (take (depth_starts (tr s) ! d) (literals (tr s)))" using tr_val [OF ok' v, of b] Some by simp
  then have "assignment_depth s ! LIT_VAR l \<le> d"
    using undone_on_trail [OF ok, of d "LIT (LIT_VAR l) b"] d by (simp add: decision_depth_def)
  then show ?thesis using l(2) d by simp
qed

lemma learned_inv:
  assumes cf: "conflict_inv n F r s" and mk: "marks_only s s1" and base: "base_inv n F s1" and as: "asserting n F s cls bd"
    and add: "sat_add cls True lbd (backtrack bd s1) = (c, t')"
  shows "enqueue (cls ! 0) (Some c) t' = (True, assigned (cls ! 0) (Some c) t')" and "search_inv n F (assigned (cls ! 0) (Some c) t')"
proof -
  note m = marks_only_D [OF mk] and a = asserting_D [OF as] and b = base_inv_D [OF base]
  have wk: "watch_ok n (refs s) (arena s) (watches s)" and un: "units_ok (refs s) (arena s) (assignment_depth s) (tr s)"
    using cf unfolding conflict_inv_def by blast+
  obtain fl where fl: "assignment_depth s ! LIT_VAR fl = decision_depth (tr s)"
    "watch_sem (refs s) (arena s) (assignment_depth s) (tr s) {(q, x). x = fl}" using cf unfolding conflict_inv_def by blast
  have bt: "backtrack bd s1 = undone bd s1" using a(6) m(7) by (simp add: backtrack_eq)
  have inv: "search_inv n F (undone bd s1)"
    by (rule undone_inv [OF base, where E = "{(q, x). x = fl}"])
      (use same_store_watch_ok [OF m(12) wk] same_store_units_ok [OF m(12) un] same_store_watch_sem [OF m(12) fl(2)] fl(1) a(6) m in auto)
  note bu = base_inv_D [OF search_inv_D(1) [OF inv]]
  have bdl: "bd < length (depth_starts (tr s1))" using a(6) m(7) by (simp add: decision_depth_def)
  have hd: "cls ! 0 \<in> set cls" using a(1) by simp
  have D: "decision_depth (tr (undone bd s1)) = bd" using bdl by (simp add: decision_depth_def)
  have "\<forall>l \<in> set cls. LIT_VAR l < n" using tr_var [OF b(1)] a(3) m(7) by fastforce
  note as' = assert_inv [OF inv add [unfolded bt] a(1,2) this a(4)]
  have free: "val (undone bd s1) ! LIT_VAR (cls ! 0) = None"
    by (rule undone_free [OF b(1)]) (use bu(1) a(3) [OF hd] a(5,6) m in simp_all)
  have false: "LIT_NEG l \<in> set (literals (tr (undone bd s1)))" if "l \<in> set (tl cls)" for l
    using undone_on_trail [OF b(1) bdl, of "LIT_NEG l"] a(3) [of l] a(7) [OF that] m(5,7) list.set_sel(2) [OF a(1) that] by simp
  have dep: "assignment_depth (undone bd s1) ! LIT_VAR (cls ! 1) = decision_depth (tr (undone bd s1))" if "1 < length cls"
    using a(8) [OF that] D m(5) by simp
  show "enqueue (cls ! 0) (Some c) t' = (True, assigned (cls ! 0) (Some c) t')" "search_inv n F (assigned (cls ! 0) (Some c) t')"
    using as' free false dep by blast+
qed


section \<open>Reducing the clause database\<close>

lemma same_store_fold:
  assumes "arena_wf R a" "\<And>x b. x \<in> set xs \<Longrightarrow> arena_wf R b \<Longrightarrow> same_store R b (f x b)"
  shows "same_store R a (fold f xs a)"
proof (rule fold_invariant [where P = "same_store R a"])
  show "same_store R a a" using same_store_refl [OF assms(1)] .
  fix x b assume "x \<in> set xs" "same_store R a b"
  then show "same_store R a (f x b)" using assms(2) same_store_D(1) same_store_trans by blast
qed

lemma reduce_same_store:
  assumes wf: "arena_wf (refs s) (arena s)" and rr: "set (reason_refs s) \<subseteq> refs s"
  shows "same_store (refs s) (arena s) (arena (reduce_database s))"
proof -
  let ?R = "refs s"
  have lock: "same_store ?R a (fold (set_locked k) (reason_refs s) a)" if "arena_wf ?R a" for a k
    using that by (rule same_store_fold) (use rr ca.lock_wf ca.lock_spec in \<open>fastforce simp: same_store_def\<close>)
  have del: "same_store ?R a (fold (\<lambda>ref a. if reducible s a ref then mark_deleted ref a else a) (clause_refs s) a)" if "arena_wf ?R a" for a
  proof (rule same_store_fold [OF that])
    fix r b assume r: "r \<in> ?R" and b: "arena_wf ?R b"
    have "same_store ?R b (mark_deleted r b)" if "reducible s b r"
      using ca.delete_wf [OF b r] ca.delete_spec [OF b r] that by (simp add: same_store_def reducible_def)
    then show "same_store ?R b (if reducible s b r then mark_deleted r b else b)" using same_store_refl [OF b] by simp
  qed
  let ?a = "fold (set_locked True) (reason_refs s) (arena s)"
  let ?b = "fold (\<lambda>ref a. if reducible s a ref then mark_deleted ref a else a) (clause_refs s) ?a"
  have 1: "same_store ?R (arena s) ?a" using lock [OF wf] .
  have 2: "same_store ?R ?a ?b" using del [OF same_store_D(1) [OF 1]] .
  have 3: "same_store ?R ?b (fold (set_locked False) (reason_refs s) ?b)" using lock [OF same_store_D(1) [OF 2]] .
  have "arena (reduce_database s) = fold (set_locked False) (reason_refs s) ?b" by (simp add: reduce_database_def Let_def)
  then show ?thesis using same_store_trans [OF 1 same_store_trans [OF 2 3]] by simp
qed

lemma reason_refs_stored:
  assumes "reason_ok R a (reason s) (tr s)"
  shows "set (reason_refs s) \<subseteq> R"
  using reason_ref [OF assms] by (auto simp: reason_refs_def map_filter_def in_set_conv_nth split: option.splits)

lemma reduce_database_inv:
  assumes inv: "search_inv n F s"
  shows "search_inv n F (reduce_database s)"
proof -
  note d = search_inv_D [OF inv]
  note b = base_inv_D [OF d(1)]
  note st = reduce_same_store [OF ck_wf [OF b(5)] reason_refs_stored [OF b(4)]]
  obtain a where a: "reduce_database s = s\<lparr>arena := a\<rparr>" by (simp add: reduce_database_def Let_def)
  have st: "same_store (refs s) (arena s) a" using st by (simp add: a)
  have "marks_only s (s\<lparr>arena := a\<rparr>)" using st by (simp add: marks_only_def)
  then have "base_inv n F (s\<lparr>arena := a\<rparr>)" by (rule marks_base_inv [OF _ d(1)]) (use b in simp_all)
  then show ?thesis
    unfolding a search_inv_def using same_store_watch_ok [OF st d(2)] same_store_watch_sem [OF st d(3)] same_store_units_ok [OF st d(4)] by simp
qed

section \<open>One round of the search\<close>

text \<open>A conflict at the root refutes the input.\<close>

lemma root_conflict:
  assumes cf: "conflict_inv n F r s" and root: "at_root (tr s)"
  shows "\<not> sat_cnf \<alpha> F"
proof
  assume F: "sat_cnf \<alpha> F"
  have inv: "base_inv n F s" and r: "r \<in> refs s" and false: "\<And>l. l \<in> set (clause_lits (arena s) r) \<Longrightarrow> LIT_NEG l \<in> set (literals (tr s))"
    using cf unfolding conflict_inv_def by blast+
  note b = base_inv_D [OF inv]
  obtain l where l: "l \<in> set (clause_lits (arena s) r)" "sat_lit \<alpha> l" using ck_implied [OF b(5) r F] by (auto simp: sat_clause_def)
  obtain i where i: "i < length (literals (tr s))" "literals (tr s) ! i = LIT_NEG l" using false [OF l(1)] by (auto simp: in_set_conv_nth)
  have "assignment_depth s ! LIT_VAR (literals (tr s) ! i) = 0" using tr_depth [OF b(1) i(1)] root by (simp add: at_root_def)
  then show False using root_implied [OF b(1,4,5) F i(1)] i(2) l(2) by simp
qed

lemma conflict_inv_conflicts [simp]: "conflict_inv n F r (s\<lparr>conflicts := c\<rparr>) = conflict_inv n F r s"
  by (simp add: conflict_inv_def base_inv_def)

definition round_ok :: "nat \<Rightarrow> clause list \<Rightarrow> nat \<Rightarrow> (sat_result \<times> sat) + (sat \<times> nat \<times> nat) \<Rightarrow> bool" where
  "round_ok n F k res = (case res of
     Inl (result, s) \<Rightarrow> (result = infeasible \<longrightarrow> (\<forall>\<alpha>. \<not> sat_cnf \<alpha> F))
       \<and> (result = successful \<longrightarrow> length (val s) = n \<and> (\<forall>v < n. val s ! v \<noteq> None) \<and> sat_cnf (\<lambda>v. val s ! v = Some True) F)
   | Inr (s, _, _) \<Rightarrow> search_inv n F s \<and> steps s = k)"

lemma backtrack_steps [simp]: "steps (backtrack d s) = steps s"
  by (simp add: backtrack_eq)

lemma resolve_conflict_ok:
  assumes cf: "conflict_inv n F r s"
  obtains res where "resolve_conflict r s rl sr = Some res" "round_ok n F (steps s) res"
proof (cases "at_root (tr s)")
  case True
  then show ?thesis using that root_conflict [OF cf True] by (simp add: resolve_conflict_def Let_def round_ok_def)
next
  case False
  let ?s = "s\<lparr>conflicts := conflicts s + 1\<rparr>"
  have cf': "conflict_inv n F r ?s" using cf by simp
  have "\<not> at_root (tr ?s)" using False by simp
  then obtain cls bd lbd s1 where an: "analyze_first_uip r ?s = Some (cls, bd, lbd, s1)" "marks_only ?s s1" "base_inv n F s1" "asserting n F ?s cls bd"
    using analyze_first_uip_spec [OF cf'] by blast
  obtain c t where add: "sat_add cls True lbd (backtrack bd s1) = (c, t)" by fastforce
  note l = learned_inv [OF cf' an(2-4) add]
  let ?u = "assigned (cls ! 0) (Some c) t"
  define u where "u = (if conflicts ?u mod database_reduction_interval = 0 then reduce_database ?u else ?u)"
  have "search_inv n F u" using l(2) reduce_database_inv by (simp add: u_def)
  moreover have "steps u = steps s"
    using add marks_only_D(11) [OF an(2)] by (auto simp: u_def sat_add_eq reduce_database_def Let_def split: prod.splits)
  moreover have "resolve_conflict r s rl sr = Some (Inr (if sr + 1 \<ge> rl
      then (backtrack 0 u, (if rl < restart_growth_limit then rl * 3 div 2 else restart_initial_limit u), 0) else (u, rl, sr + 1)))"
    using False an(1) add l(1) by (simp add: resolve_conflict_def Let_def u_def)
  ultimately show ?thesis using that backtrack_search_inv by (simp add: round_ok_def)
qed


lemma pick_decision_ok:
  "order_ok n (val s) (order s) \<Longrightarrow> pick_decision s = (c, s') \<Longrightarrow>
   \<exists>q. s' = s\<lparr>order := q\<rparr> \<and> order_good n q \<and> (case c of None \<Rightarrow> \<forall>v < n. val s ! v \<noteq> None
      | Some v \<Rightarrow> v < n \<and> val s ! v = None \<and> (\<forall>u < n. u \<noteq> v \<longrightarrow> val s ! u = None \<longrightarrow> u \<in> members q))"
proof (induction s rule: pick_decision.induct)
  case (1 s)
  note good = "1.prems"(1) [unfolded order_ok_def]
  show ?case
  proof (cases "order_empty (order s)")
    case True
    then have "c = None" "s' = s" using "1.prems"(2) by (simp_all add: pick_decision.simps [of s])
    then show ?thesis using True good by (intro exI [of _ "order s"]) (auto simp: order_empty_def)
  next
    case False
    then have ne: "members (order s) \<noteq> {}" by (simp add: order_empty_def)
    obtain v q where pop: "pop_best (order s) = (v, q)" by fastforce
    note p = vo.pop_good [OF _ ne, of n] vo.pop_member [OF _ ne, of n] vo.pop_members [OF _ ne, of n]
    have pq: "order_good n q" "v \<in> members (order s)" "members q = members (order s) - {v}" using p good pop by auto
    have vn: "v < n" using vo.members_vars [of n "order s"] good pq(2) by auto
    show ?thesis
    proof (cases "val s ! v = None")
      case True
      then have "c = Some v" "s' = s\<lparr>order := q\<rparr>" using "1.prems"(2) False pop by (simp_all add: pick_decision.simps [of s])
      then show ?thesis using True pq good vn by (intro exI [of _ q]) simp
    next
      case assigned: False
      let ?s = "s\<lparr>order := q\<rparr>"
      have run: "pick_decision ?s = (c, s')" using "1.prems"(2) False pop assigned by (simp add: pick_decision.simps [of s])
      have "order_ok n (val ?s) (order ?s)" using pq good assigned unfolding order_ok_def by auto
      from "1.IH" [OF False pop [symmetric] refl refl _ this run] assigned show ?thesis by (cases c) simp_all
    qed
  qed
qed

lemma total_model:
  assumes inv: "search_inv n F s" and np: "\<not> has_pending_propagation (tr s)" and all: "\<forall>v < n. val s ! v \<noteq> None"
  shows "sat_cnf (\<lambda>v. val s ! v = Some True) F"
proof -
  note d = search_inv_D [OF inv]
  note b = base_inv_D [OF d(1)]
  let ?a = "\<lambda>v. val s ! v = Some True" and ?M = "literals (tr s)"
  have true: "sat_lit ?a l" if "l \<in> set ?M" for l
  proof -
    have "val s ! LIT_VAR l = Some (LIT_POLARITY l)"
      using tr_val [OF b(1) tr_var [OF b(1) that], of "LIT_POLARITY l"] that by (simp add: LIT_collapse)
    then show ?thesis by (simp add: sat_lit_def)
  qed
  have total: "l \<in> set ?M \<or> LIT_NEG l \<in> set ?M" if "LIT_VAR l < n" for l
  proof -
    obtain x where "val s ! LIT_VAR l = Some x" using all \<open>LIT_VAR l < n\<close> by auto
    then have "LIT (LIT_VAR l) x \<in> set ?M" using tr_val [OF b(1) that, of x] by simp
    then show ?thesis using same_var [of "LIT (LIT_VAR l) x" l] by auto
  qed
  have head: "take (propagation_head (tr s)) ?M = ?M" using np by (simp add: has_pending_propagation_def)
  have "sat_clause ?a C" if C: "C \<in> set F" for C
  proof -
    obtain r where r: "r \<in> refs s" "set (clause_lits (arena s) r) = set C" "\<not> learned (arena s) r" using ck_input [OF b(5) C] by blast
    have live: "\<not> deleted (arena s) r" using ck_deleted [OF b(5) r(1)] r(3) by blast
    let ?x = "clause_lits (arena s) r ! 0"
    have u: "clause_size (arena s) r \<noteq> 0" "clause_size (arena s) r = 1 \<Longrightarrow> ?x \<in> set ?M" using d(4) r(1,3) unfolding units_ok_def by blast+
    have x: "?x \<in> set (clause_lits (arena s) r)" using u(1) by (intro nth_mem) simp
    have "\<exists>y \<in> set (clause_lits (arena s) r). y \<in> set ?M"
    proof (cases "?x \<in> set ?M")
      case False
      then have neg: "LIT_NEG ?x \<in> set ?M" using total [OF ck_var [OF b(5) r(1) x]] by blast
      have "clause_size (arena s) r \<noteq> 1" using False u(2) by blast
      then have two: "2 \<le> clause_size (arena s) r" using u(1) by linarith
      have "covered (arena s) (assignment_depth s) (tr s) r ?x" by (rule watch_sem_D [OF d(3) r(1) live two]) (use neg head in simp_all)
      then show ?thesis by (auto simp: covered_def)
    qed (use x in blast)
    then show ?thesis using true r(2) unfolding sat_clause_def by blast
  qed
  then show ?thesis by (simp add: sat_cnf_def)
qed

lemma start_trail_pre:
  assumes ok: "trail_ok n vl dep t" and head: "\<not> has_pending_propagation t"
  shows "trail_pre n vl dep (start_decision_depth t)"
proof -
  have h: "propagation_head t = length (literals t)" using head tr_head [OF ok] by (simp add: has_pending_propagation_def)
  show ?thesis
    unfolding trail_pre_def
  proof (intro conjI)
    show "sorted_wrt (<) (depth_starts (start_decision_depth t))"
      using tr_sorted [OF ok] tr_start(1) [OF ok] by (simp add: start_decision_depth_def sorted_wrt_append)
    show "\<forall>d \<in> set (depth_starts (start_decision_depth t)). d \<le> propagation_head (start_decision_depth t)"
      using tr_start(2) [OF ok] h by (auto simp: start_decision_depth_def)
    show "\<forall>v < n. \<forall>b. vl ! v = Some b \<longleftrightarrow> LIT v b \<in> set (literals (start_decision_depth t))"
      using tr_val [OF ok] by (simp add: start_decision_depth_def)
  qed (use tr_len [OF ok] tr_distinct [OF ok] tr_var [OF ok] tr_head [OF ok] tr_depth [OF ok] in \<open>simp_all add: start_decision_depth_def\<close>)
qed

lemma start_reason_ok:
  assumes rs: "reason_ok R a rs t"
  shows "reason_ok R a rs (start_decision_depth t)"
  unfolding reason_ok_def
proof (intro allI impI)
  fix i assume "i < length (literals (start_decision_depth t))"
  then have i: "i < length (literals t)" by (simp add: start_decision_depth_def)
  show "case rs ! LIT_VAR (literals (start_decision_depth t) ! i) of None \<Rightarrow> i \<in> set (depth_starts (start_decision_depth t))
     | Some r \<Rightarrow> r \<in> R \<and> literals (start_decision_depth t) ! i \<in> set (clause_lits a r)
         \<and> (\<forall>l \<in> set (clause_lits a r). l \<noteq> literals (start_decision_depth t) ! i \<longrightarrow> LIT_NEG l \<in> set (take i (literals (start_decision_depth t))))"
    using reason_ok_D [OF rs i] by (cases "rs ! LIT_VAR (literals t ! i)") (simp_all add: start_decision_depth_def)
qed

lemma decide_inv:
  assumes inv: "search_inv n F s" and np: "\<not> has_pending_propagation (tr s)"
    and v: "LIT_VAR lit < n" "val s ! LIT_VAR lit = None" and q: "order_good n q"
    and mem: "\<forall>u < n. u \<noteq> LIT_VAR lit \<longrightarrow> val s ! u = None \<longrightarrow> u \<in> members q"
  defines "t \<equiv> s\<lparr>order := q, tr := start_decision_depth (tr s)\<rparr>"
  shows "search_inv n F (assigned lit None t)"
proof -
  note d = search_inv_D [OF inv]
  note b = base_inv_D [OF d(1)]
  let ?u = "assigned lit None t"
  have pre: "trail_pre n (val t) (assignment_depth t) (tr t)" using start_trail_pre [OF b(1) np] by (simp add: t_def)
  have v': "val t ! LIT_VAR lit = None" using v(2) by (simp add: t_def)
  have rs: "reason_ok (refs s) (arena t) (reason t) (tr t)" using start_reason_ok [OF b(4)] by (simp add: t_def)
  have len: "length (reason t) = n" using b(2) by (simp add: t_def)
  have lits: "literals (tr t) = literals (tr s)" "propagation_head (tr t) = propagation_head (tr s)" "depth_starts (tr t) = depth_starts (tr s) @ [length (literals (tr s))]"
    by (simp_all add: t_def start_decision_depth_def)
  have "reason_ok (refs s) (arena t) (reason ?u) (tr ?u)"
    by (rule assigned_reason_ok [OF pre rs len v(1) v']) (simp_all add: lits)
  moreover have "order_ok n (val ?u) (order ?u)"
    unfolding order_ok_def
  proof (intro conjI allI impI)
    show "order_good n (order ?u)" using q by (simp add: t_def)
    fix u assume u: "u < n" "val ?u ! u = None"
    then have "u \<noteq> LIT_VAR lit" "val s ! u = None"
      using tp_len(1) [OF pre] by (cases "u = LIT_VAR lit"; simp add: assigned_def t_def)+
    then show "u \<in> members (order ?u)" using mem u(1) by (simp add: t_def)
  qed
  ultimately have base: "base_inv n F ?u"
    using assigned_trail_ok [OF pre v(1) v', of None] b unfolding base_inv_def by (simp add: t_def assigned_def)
  have "watch_sem (refs s) (arena s) (assignment_depth t) (tr t) {}"
    by (rule watch_semI) (use watch_sem_D [OF d(3)] lits in \<open>simp add: t_def covered_def\<close>)
  then have "watch_sem (refs s) (arena s) (assignment_depth ?u) (tr ?u) {}" by (rule assigned_watch_sem [OF pre v(1) v'])
  moreover have "units_ok (refs s) (arena s) (assignment_depth t) (tr t)"
    using d(4) lits unfolding units_ok_def by (simp add: t_def)
  then have "units_ok (refs s) (arena s) (assignment_depth ?u) (tr ?u)" by (rule assigned_units_ok [OF pre v(1) v'])
  ultimately show ?thesis using base d(2) unfolding search_inv_def by (simp add: t_def)
qed

lemma decide_ok:
  assumes inv: "search_inv n F s" and np: "\<not> has_pending_propagation (tr s)"
  shows "round_ok n F (steps s) (decide s rl sr)"
proof -
  note b = base_inv_D [OF search_inv_D(1) [OF inv]]
  obtain c s' where pick: "pick_decision s = (c, s')" by fastforce
  obtain q where q: "s' = s\<lparr>order := q\<rparr>" "order_good n q" "case c of None \<Rightarrow> \<forall>v < n. val s ! v \<noteq> None
      | Some v \<Rightarrow> v < n \<and> val s ! v = None \<and> (\<forall>u < n. u \<noteq> v \<longrightarrow> val s ! u = None \<longrightarrow> u \<in> members q)"
    using pick_decision_ok [OF b(6) pick] by blast
  show ?thesis
  proof (cases c)
    case None
    then show ?thesis using q total_model [OF inv np] tr_len [OF b(1)] by (simp add: decide_def pick round_ok_def)
  next
    case (Some v)
    let ?lit = "LIT v (phase s ! v)" and ?t = "s\<lparr>order := q, tr := start_decision_depth (tr s)\<rparr>"
    have v: "LIT_VAR ?lit < n" "val s ! LIT_VAR ?lit = None" "\<forall>u < n. u \<noteq> LIT_VAR ?lit \<longrightarrow> val s ! u = None \<longrightarrow> u \<in> members q"
      using q(3) Some by simp_all
    have "eval_literal ?t ?lit = None" using v(2) by (simp add: eval_literal_def)
    then have "decide s rl sr = Inr (assigned ?lit None ?t, rl, sr)" by (simp add: decide_def pick Some q(1) enqueue_eq Let_def)
    then show ?thesis using decide_inv [OF inv np v(1,2) q(2) v(3)] by (simp add: round_ok_def)
  qed
qed


section \<open>The search loop\<close>

lemma search_inv_steps [simp]: "search_inv n F (s\<lparr>steps := k\<rparr>) = search_inv n F s"
  by (simp add: search_inv_def base_inv_def)

lemma solve_round_ok:
  assumes inv: "search_inv n F s"
  obtains res where "solve_round stop s rl sr = Some res" "round_ok n F (Suc (steps s)) res"
proof -
  let ?s = "s\<lparr>steps := steps s + 1\<rparr>"
  have inv': "search_inv n F ?s" using inv by simp
  obtain res s' where pr: "propagate stop ?s = Some (res, s')" "round_frame ?s s'"
    "res = no_conflict \<Longrightarrow> search_inv n F s' \<and> \<not> has_pending_propagation (tr s')"
    "\<And>r. res = conflict r \<Longrightarrow> conflict_inv n F r s'"
    using propagate_spec [OF inv'] by metis
  have k: "steps s' = Suc (steps s)" using pr(2) by (simp add: round_frame_def)
  show thesis
  proof (cases "steps ?s mod solve_stop_poll_period = 0 \<and> stop (poll_step (steps ?s))")
    case True
    then show thesis using that by (simp add: solve_round_def Let_def round_ok_def)
  next
    case False
    then have run: "solve_round stop s rl sr = (case res of propagation_stopped \<Rightarrow> Some (Inl (stopped, s'))
        | conflict ref \<Rightarrow> resolve_conflict ref s' rl sr | no_conflict \<Rightarrow> Some (decide s' rl sr))"
      using pr(1) by (auto simp: solve_round_def Let_def split: propagation.split)
    show thesis
    proof (cases res)
      case no_conflict
      then show thesis using that run decide_ok [of n F s' rl sr] pr(3) k by simp
    next
      case propagation_stopped
      then show thesis using that run by (simp add: round_ok_def)
    next
      case (conflict r)
      obtain res' where "resolve_conflict r s' rl sr = Some res'" "round_ok n F (steps s') res'"
        using resolve_conflict_ok [OF pr(4) [OF conflict]] by blast
      then show thesis using that run conflict k by simp
    qed
  qed
qed

definition answer_ok :: "nat \<Rightarrow> clause list \<Rightarrow> sat_result \<times> sat \<Rightarrow> bool" where
  "answer_ok n F res \<longleftrightarrow> round_ok n F 0 (Inl res)"

lemma solve_loop_sound:
  assumes "solve_loop stop s rl sr = Some res" "search_inv n F s"
  shows "answer_ok n F res"
proof -
  have "search_inv n F s \<longrightarrow> answer_ok n F res"
  proof (rule solve_loop.raw_induct [OF _ assms(1), of "\<lambda>stop s rl sr res. search_inv n F s \<longrightarrow> answer_ok n F res"], intro impI)
    fix loop stop s rl sr res
    assume IH: "\<And>stop s rl sr res. loop stop s rl sr = Some res \<Longrightarrow> search_inv n F s \<longrightarrow> answer_ok n F res"
      and run: "(case solve_round stop s rl sr of None \<Rightarrow> None | Some (Inl result) \<Rightarrow> Some result | Some (Inr (s, rl, sr)) \<Rightarrow> loop stop s rl sr) = Some res"
      and inv: "search_inv n F s"
    obtain out where out: "solve_round stop s rl sr = Some out" "round_ok n F (Suc (steps s)) out" using solve_round_ok [OF inv] by blast
    show "answer_ok n F res"
    proof (cases out)
      case (Inl r)
      then show ?thesis using run out by (simp add: answer_ok_def round_ok_def)
    next
      case (Inr t)
      obtain s1 rl1 sr1 where t: "t = (s1, rl1, sr1)" by (cases t)
      have "loop stop s1 rl1 sr1 = Some res" using run out(1) Inr t by simp
      moreover have "search_inv n F s1" using out(2) Inr t by (simp add: round_ok_def)
      ultimately show ?thesis using IH by blast
    qed
  qed
  then show ?thesis using assms(2) by blast
qed

text \<open>The loop polls the stop callback every \<open>solve_stop_poll_period\<close> steps, so a callback that answers yes ends it.\<close>

lemma solve_loop_returns:
  assumes "stop (poll_step k)" "k mod solve_stop_poll_period = 0" "steps s < k" "search_inv n F s"
  shows "\<exists>res. solve_loop stop s rl sr = Some res"
  using assms(3,4)
proof (induction "k - steps s" arbitrary: s rl sr rule: less_induct)
  case (less s)
  obtain out where out: "solve_round stop s rl sr = Some out" "round_ok n F (Suc (steps s)) out" using solve_round_ok [OF less.prems(2)] by blast
  show ?case
  proof (cases out)
    case (Inl r)
    then show ?thesis using out(1) by (subst solve_loop.simps) simp
  next
    case (Inr t)
    obtain s1 rl1 sr1 where t: "t = (s1, rl1, sr1)" by (cases t)
    have s1: "steps s1 = Suc (steps s)" "search_inv n F s1" using out(2) Inr t by (simp_all add: round_ok_def)
    have "Suc (steps s) \<noteq> k" using out(1) Inr assms(1,2) by (auto simp: solve_round_def Let_def)
    then have "steps s1 < k" using less.prems(1) s1(1) by simp
    then have "\<exists>res. solve_loop stop s1 rl1 sr1 = Some res" using less.hyps [of s1] s1 less.prems(1) by simp
    then show ?thesis using out(1) Inr t by (subst solve_loop.simps) simp
  qed
qed


section \<open>Construction\<close>

definition blank_order :: "nat \<Rightarrow> variable_order \<Rightarrow> bool" where
  "blank_order n q \<longleftrightarrow> heap q = [] \<and> position q = replicate n not_in_heap \<and> length (variable_order.activity q) = n \<and> length (tie q) = n \<and> 0 < increment q"

lemma blank_order_activity:
  assumes "blank_order n q"
  shows "blank_order n (fold add_initial_activity vs q)" "blank_order n (fold clear_activity vs q)"
  by (rule fold_invariant [where P = "blank_order n", OF assms], simp add: blank_order_def add_initial_activity_def clear_activity_def)+

definition fresh_search :: "nat \<Rightarrow> clause list \<Rightarrow> sat \<Rightarrow> bool" where
  "fresh_search n F s \<longleftrightarrow> val s = replicate n None \<and> length (phase s) = n \<and> assignment_depth s = replicate n 0
     \<and> reason s = replicate n None \<and> seen s = replicate n False \<and> tr s = \<lparr>literals = [], depth_starts = [], propagation_head = 0\<rparr>
     \<and> 0 < decay s \<and> steps s = 0 \<and> clauses_ok n F (refs s) (arena s) \<and> watch_ok n (refs s) (arena s) (watches s)"

lemma add_input_fresh:
  assumes fs: "fresh_search n F s" and q: "blank_order n (order s)" and C: "canonical C" "\<forall>l \<in> set C. LIT_VAR l < n"
  shows "fresh_search n (F @ [C]) (add_input C s)" "blank_order n (order (add_input C s))"
proof -
  obtain r a where ar: "arena_add C False 0 (conflicts s) (arena s) = (r, a)" by fastforce
  have s': "add_input C s = s\<lparr>order := fold add_initial_activity (map LIT_VAR C) (order s), arena := a, clause_refs := clause_refs s @ [r],
      watches := push_watches C r (watches s)\<rparr>"
    using ar by (simp add: add_input_def sat_add_eq fold_map comp_def)
  have ck: "clauses_ok n F (refs s) (arena s)" "watch_ok n (refs s) (arena s) (watches s)" using fs unfolding fresh_search_def by blast+
  have "clauses_ok n (F @ [C]) (insert r (refs s)) a" by (rule clauses_ok_add [OF ck(1) ar C]) auto
  then show "fresh_search n (F @ [C]) (add_input C s)"
    using fs watch_ok_add [OF ck ar C] unfolding fresh_search_def s' by simp
  show "blank_order n (order (add_input C s))" using blank_order_activity(1) [OF q] by (simp add: s')
qed

lemma sat_t_fresh:
  assumes F: "\<forall>C \<in> set F. canonical C" "vars_below n F"
    and mono: "\<And>x y. x \<le> y \<Longrightarrow> fl x \<le> fl y" and int: "\<And>k. \<bar>k\<bar> \<le> 2 ^ 53 \<Longrightarrow> fl (of_int k) = of_int k"
  shows "fresh_search n F (sat_t fl n F init seed)" "order_ok n (val (sat_t fl n F init seed)) (order (sat_t fl n F init seed))"
proof -
  obtain d g where d: "uniform fl 0 activity_decay_choices (pcg_set_seed seed pcg_default_stream 0) = (d, g)" by fastforce
  obtain r g' where r: "uniform fl 1 (restart_interval_choices + 1) g = (r, g')" by fastforce
  let ?phase = "map (\<lambda>v. v < length init \<and> init ! v = 1) [0..<n]"
  define s0 where "s0 = \<lparr>arena = [], clause_refs = [], watches = replicate (2 * n) [], val = replicate n None, phase = ?phase,
     assignment_depth = replicate n 0, reason = replicate n None, seen = replicate n False, order = sat_variable_order_t n seed,
     tr = \<lparr>literals = [], depth_starts = [], propagation_head = 0\<rparr>, decay = activity_decay_min + activity_decay_step * of_int d,
     conflicts = 0, restart_initial_limit = restart_interval_unit * nat r, steps = 0\<rparr>"
  define s1 where "s1 = fold add_input F s0"
  have eq: "sat_t fl n F init seed = s1\<lparr>order := build_heap (fold clear_activity [length init..<n] (order s1))\<rparr>"
    by (simp add: sat_t_def d r s0_def s1_def Let_def)
  have "0 \<le> d" using uniform_bounds [OF mono int, of 0 activity_decay_choices "pcg_set_seed seed pcg_default_stream 0"] d
    by (simp add: activity_decay_choices_def)
  then have "0 < activity_decay_min + activity_decay_step * of_int d" by (simp add: activity_decay_min_def activity_decay_step_def)
  then have "fresh_search n [] s0"
    by (simp add: fresh_search_def s0_def clauses_ok_def arena_wf_def watch_ok_def)
  moreover have "blank_order n (order s0)"
    by (simp add: s0_def blank_order_def sat_variable_order_t_def length_draw_ties initial_activity_increment_def)
  ultimately have "fresh_search n [] s0 \<and> blank_order n (order s0)" by blast
  then have "fresh_search n F s1 \<and> blank_order n (order s1)"
    unfolding s1_def
  proof (rule fold_invariant_prefix [where P = "\<lambda>F s. fresh_search n F s \<and> blank_order n (order s)"])
    fix ys C zs s assume split: "F = ys @ C # zs" and P: "fresh_search n ys s \<and> blank_order n (order s)"
    have "canonical C" "\<forall>l \<in> set C. LIT_VAR l < n" using F split by (simp_all add: vars_below_def)
    then show "fresh_search n (ys @ [C]) (add_input C s) \<and> blank_order n (order (add_input C s))" using add_input_fresh P by blast
  qed
  then have s1: "fresh_search n F s1" "blank_order n (order s1)" by blast+
  show "fresh_search n F (sat_t fl n F init seed)" using s1(1) unfolding eq fresh_search_def by simp
  have "blank_order n (fold clear_activity [length init..<n] (order s1))" by (rule blank_order_activity(2) [OF s1(2)])
  then have "order_good n (fold clear_activity [length init..<n] (order s1))" unfolding blank_order_def by (intro empty_order_good) simp_all
  then show "order_ok n (val (sat_t fl n F init seed)) (order (sat_t fl n F init seed))"
    using build_heap_good by (auto simp: eq order_ok_def)
qed

lemma fresh_base_inv:
  assumes fs: "fresh_search n F s" and q: "order_ok n (val s) (order s)"
  shows "base_inv n F s"
proof -
  have f: "val s = replicate n None" "length (phase s) = n" "assignment_depth s = replicate n 0" "reason s = replicate n None"
    "seen s = replicate n False" "tr s = \<lparr>literals = [], depth_starts = [], propagation_head = 0\<rparr>" "0 < decay s" "clauses_ok n F (refs s) (arena s)"
    using fs unfolding fresh_search_def by blast+
  have "trail_ok n (val s) (assignment_depth s) (tr s)" by (simp add: trail_ok_def trail_pre_def f)
  moreover have "reason_ok (refs s) (arena s) (reason s) (tr s)" by (simp add: reason_ok_def f)
  ultimately show ?thesis unfolding base_inv_def using f q by simp
qed

lemma enqueue_units_ok:
  "enqueue_units rs s = (ok, s') \<Longrightarrow> base_inv n F s \<Longrightarrow> depth_starts (tr s) = [] \<Longrightarrow> set rs \<subseteq> refs s \<Longrightarrow>
   units_ok P (arena s) (assignment_depth s) (tr s) \<Longrightarrow>
   (ok \<longrightarrow> base_inv n F s' \<and> arena s' = arena s \<and> clause_refs s' = clause_refs s \<and> watches s' = watches s \<and> steps s' = steps s
      \<and> propagation_head (tr s') = propagation_head (tr s) \<and> units_ok (P \<union> set rs) (arena s) (assignment_depth s') (tr s'))
   \<and> (\<not> ok \<longrightarrow> (\<forall>\<alpha>. \<not> sat_cnf \<alpha> F))"
proof (induction rs arbitrary: s P)
  case (Cons r rs)
  note b = base_inv_D [OF Cons.prems(2)]
  have r: "r \<in> refs s" using Cons.prems(4) by simp
  let ?C = "clause_lits (arena s) r" and ?M = "literals (tr s)"
  have dep0: "assignment_depth s ! LIT_VAR l = 0" if l: "l \<in> set ?M" for l
    using l tr_depth [OF b(1)] Cons.prems(3) by (auto simp: in_set_conv_nth)
  have root: "sat_lit \<alpha> l" if "sat_cnf \<alpha> F" "l \<in> set ?M" for \<alpha> l
    using root_implied [OF b(1,4,5) that(1)] dep0 that(2) by (metis in_set_conv_nth)
  have un: "P \<union> set (r # rs) = insert r P \<union> set rs" by auto
  consider (empty) "clause_size (arena s) r = 0" | (unit) "clause_size (arena s) r = 1" | (more) "2 \<le> clause_size (arena s) r" by linarith
  then show ?case
  proof cases
    case empty
    then have "?C = []" by (simp add: clause_lits_def)
    then have "\<not> sat_cnf \<alpha> F" for \<alpha> using ck_implied [OF b(5) r, of \<alpha>] by auto
    then show ?thesis using Cons.prems(1) empty by simp
  next
    case more
    then have "units_ok (insert r P) (arena s) (assignment_depth s) (tr s)" using Cons.prems(5) unfolding units_ok_def by auto
    moreover have "enqueue_units rs s = (ok, s')" using Cons.prems(1) more by simp
    ultimately show ?thesis using Cons.IH [of s "insert r P"] Cons.prems(2-4) unfolding un by simp
  next
    case unit
    define x where "x = clause_literal (arena s) r 0"
    have C: "?C = [x]" using unit by (simp add: clause_lits_def x_def)
    have v: "LIT_VAR x < n" using ck_var [OF b(5) r, of x] C by simp
    have run: "enqueue_units (r # rs) s = (case enqueue x (Some r) s of (False, s) \<Rightarrow> (False, s) | (True, s) \<Rightarrow> enqueue_units rs s)"
      using unit by (simp add: x_def)
    have ins: "units_ok (insert r P) (arena t) (assignment_depth t) (tr t)"
      if "units_ok P (arena t) (assignment_depth t) (tr t)" "arena t = arena s" "x \<in> set (literals (tr t))" "assignment_depth t ! LIT_VAR x = 0" for t
      using that unit C unfolding units_ok_def by simp
    show ?thesis
    proof (cases "eval_literal s x")
      case None
      then have new: "val s ! LIT_VAR x = None" by (simp add: eval_None)
      let ?t = "assigned x (Some r) s"
      have pre: "trail_pre n (val s) (assignment_depth s) (tr s)" using b(1) by (simp add: trail_ok_def)
      have base: "base_inv n F ?t" by (rule assigned_base_inv [OF Cons.prems(2) v new r]) (simp_all add: C)
      have "assignment_depth ?t ! LIT_VAR x = 0" using tr_len(2) [OF b(1)] v Cons.prems(3) by (simp add: assigned_def decision_depth_def)
      then have "units_ok (insert r P) (arena ?t) (assignment_depth ?t) (tr ?t)"
        using assigned_units_ok [OF pre v new Cons.prems(5)] by (intro ins) simp_all
      moreover have "enqueue_units rs ?t = (ok, s')" using Cons.prems(1) run None by (simp add: enqueue_eq)
      ultimately show ?thesis using Cons.IH [of ?t "insert r P"] base Cons.prems(3,4) unfolding un by simp
    next
      case (Some state)
      show ?thesis
      proof (cases state)
        case True
        then have "x \<in> set ?M" using eval_True [OF b(1) v] Some by simp
        then have "units_ok (insert r P) (arena s) (assignment_depth s) (tr s)" using Cons.prems(5) dep0 by (intro ins) simp_all
        moreover have "enqueue_units rs s = (ok, s')" using Cons.prems(1) run Some True by (simp add: enqueue_eq)
        ultimately show ?thesis using Cons.IH [of s "insert r P"] Cons.prems(2-4) unfolding un by simp
      next
        case False
        then have "LIT_NEG x \<in> set ?M" using eval_False [OF b(1) v] Some by simp
        then have "\<not> sat_cnf \<alpha> F" for \<alpha> using ck_implied [OF b(5) r, of \<alpha>] root [of \<alpha> "LIT_NEG x"] C by auto
        then show ?thesis using Cons.prems(1) run Some False by (simp add: enqueue_eq)
      qed
    qed
  qed
qed simp

lemma solve_ok:
  assumes F: "\<forall>C \<in> set F. canonical C" "vars_below n F"
    and mono: "\<And>x y. x \<le> y \<Longrightarrow> fl x \<le> fl y" and int: "\<And>k. \<bar>k\<bar> \<le> 2 ^ 53 \<Longrightarrow> fl (of_int k) = of_int k"
  shows "solve stop (sat_t fl n F init seed) = Some res \<Longrightarrow> answer_ok n F res"
    and "stop (poll_step k) \<Longrightarrow> k mod solve_stop_poll_period = 0 \<Longrightarrow> 0 < k \<Longrightarrow> \<exists>res. solve stop (sat_t fl n F init seed) = Some res"
proof -
  let ?s = "sat_t fl n F init seed"
  note fr = sat_t_fresh [OF F mono int, of init seed]
  obtain ok t where eu: "enqueue_units (clause_refs ?s) ?s = (ok, t)" by fastforce
  have tr: "tr ?s = \<lparr>literals = [], depth_starts = [], propagation_head = 0\<rparr>" "steps ?s = 0" "watch_ok n (refs ?s) (arena ?s) (watches ?s)"
    using fr(1) unfolding fresh_search_def by blast+
  have u: "(ok \<longrightarrow> base_inv n F t \<and> arena t = arena ?s \<and> clause_refs t = clause_refs ?s \<and> watches t = watches ?s \<and> steps t = steps ?s
      \<and> propagation_head (tr t) = propagation_head (tr ?s) \<and> units_ok ({} \<union> refs ?s) (arena ?s) (assignment_depth t) (tr t))
      \<and> (\<not> ok \<longrightarrow> (\<forall>\<alpha>. \<not> sat_cnf \<alpha> F))"
    by (rule enqueue_units_ok [OF eu fresh_base_inv [OF fr]]) (simp_all add: tr units_ok_def)
  have inv: "search_inv n F t" "steps t = 0" if ok
    using u that tr unfolding search_inv_def watch_sem_def by simp_all
  show "answer_ok n F res" if "solve stop ?s = Some res"
  proof (cases ok)
    case True
    then show ?thesis using that eu solve_loop_sound [OF _ inv(1)] by (simp add: solve_def)
  next
    case False
    then show ?thesis using that eu u by (auto simp: solve_def answer_ok_def round_ok_def)
  qed
  show "\<exists>res. solve stop ?s = Some res" if "stop (poll_step k)" "k mod solve_stop_poll_period = 0" "0 < k"
    using that eu solve_loop_returns [of stop k t] inv by (cases ok) (simp_all add: solve_def)
qed

end
