(* ===== verification/Sat_Correctness.thy ===== *)
theory Sat_Correctness
  imports Sat_Solve
begin

text \<open>
  The properties of the clause search: its invariant over one round, the answers of the solver,
  that it returns when asked to stop, and the search on a pseudo-Boolean model from the encoding
  to the assignment handed back.
\<close>

section \<open>Start of the search\<close>

lemma solve_start:
  assumes F: "\<forall>C \<in> set F. canonical C" "vars_below n F"
    and mono: "\<And>x y. x \<le> y \<Longrightarrow> fl x \<le> fl y" and int: "\<And>k. \<bar>k\<bar> \<le> 2 ^ 53 \<Longrightarrow> fl (of_int k) = of_int k"
    and run: "enqueue_units (clause_refs (sat_t fl n F init seed)) (sat_t fl n F init seed) = (True, t)"
  shows "search_inv n F t"
proof -
  let ?s = "sat_t fl n F init seed"
  note fr = sat_t_fresh [OF F mono int, of init seed]
  have tr: "tr ?s = \<lparr>literals = [], depth_starts = [], propagation_head = 0\<rparr>" "watch_ok n (refs ?s) (arena ?s) (watches ?s)"
    using fr(1) unfolding fresh_search_def by blast+
  have "units_ok {} (arena ?s) (assignment_depth ?s) (tr ?s)" by (simp add: units_ok_def)
  then show ?thesis
    using enqueue_units_ok [OF run fresh_base_inv [OF fr]] tr unfolding search_inv_def watch_sem_def by fastforce
qed

text \<open>The solver after construction, with the draws of the random generators as arguments.\<close>

definition built :: "nat \<Rightarrow> clause list \<Rightarrow> int list \<Rightarrow> 64 word list \<Rightarrow> rat \<Rightarrow> nat \<Rightarrow> sat" where
  "built n F init ties x y =
     (let s = fold add_input F \<lparr>arena = [], clause_refs = [], watches = replicate (2 * n) [], val = replicate n None,
            phase = map (\<lambda>v. v < length init \<and> init ! v = 1) [0..<n], assignment_depth = replicate n 0, reason = replicate n None,
            seen = replicate n False, order = \<lparr>heap = [], position = replicate n not_in_heap, activity = replicate n 0, tie = ties,
            increment = initial_activity_increment\<rparr>, tr = \<lparr>literals = [], depth_starts = [], propagation_head = 0\<rparr>,
            decay = x, conflicts = 0, restart_initial_limit = y, steps = 0\<rparr>
      in s\<lparr>order := build_heap (fold clear_activity [length init..<n] (order s))\<rparr>)"

lemma sat_t_built:
  obtains ties x y where "length ties = n" "sat_t fl n F init seed = built n F init ties x y"
proof -
  obtain d g where d: "uniform fl 0 activity_decay_choices (pcg_set_seed seed pcg_default_stream 0) = (d, g)" by fastforce
  obtain r g' where r: "uniform fl 1 (restart_interval_choices + 1) g = (r, g')" by fastforce
  show thesis
    by (rule that [of "draw_ties n (sm_set_seed seed sm_default_stream)" "activity_decay_min + activity_decay_step * of_int d" "restart_interval_unit * nat r"])
      (simp_all add: length_draw_ties sat_t_def d r sat_variable_order_t_def built_def Let_def)
qed

lemma sat_t_built_two:
  obtains a b x y where "sat_t fl 2 F init seed = built 2 F init [a, b] x y"
proof -
  obtain ties x y where t: "length ties = 2" "sat_t fl 2 F init seed = built 2 F init ties x y" by (rule sat_t_built)
  moreover obtain a b where "ties = [a, b]" using t(1) by (auto simp: length_Suc_conv numeral_2_eq_2)
  ultimately show thesis using that by blast
qed

text \<open>Two clauses, the second a unit: x0 or x1, and not x0.\<close>

definition sample_clauses :: "clause list" where
  "sample_clauses = [[LIT 0 True, LIT 1 True], [LIT 0 False]]"

section \<open>Properties of the search\<close>

text \<open>
  C3. One round of the search keeps its invariant: it always returns (no position before the
  trail and no missing reason is read), a round that goes on has kept the invariant and counted
  one step, an answer \<open>infeasible\<close> means that no assignment satisfies the clauses, and an
  answer \<open>successful\<close> means that every variable is assigned and the values satisfy them. The
  round comprises propagation, conflict analysis, backtracking, learning, database reduction,
  restart and decision.
\<close>

theorem solve_round_invariant:
  assumes "search_inv n F s"
  shows "case solve_round stop s restart_limit since_restart of
      None \<Rightarrow> False
    | Some (Inl (result, s')) \<Rightarrow> (result = infeasible \<longrightarrow> (\<forall>\<alpha>. \<not> sat_cnf \<alpha> F))
        \<and> (result = successful \<longrightarrow> (\<forall>v < n. val s' ! v \<noteq> None) \<and> sat_cnf (\<lambda>v. val s' ! v = Some True) F)
    | Some (Inr (s', _, _)) \<Rightarrow> search_inv n F s' \<and> steps s' = Suc (steps s)"
proof -
  obtain res where "solve_round stop s restart_limit since_restart = Some res" "round_ok n F (Suc (steps s)) res"
    using solve_round_ok [OF assms] by blast
  then show ?thesis unfolding round_ok_def by (cases res) auto
qed

lemma sample_input_ok: "\<forall>C \<in> set sample_clauses. canonical C" "vars_below 2 sample_clauses"
  by (simp_all add: sample_clauses_def canonical_def vars_below_def)

theorem solve_round_invariant_witness:
  "\<exists>t s'. enqueue_units (clause_refs (sat_t (\<lambda>x. x) 2 sample_clauses [0, 0] 7)) (sat_t (\<lambda>x. x) 2 sample_clauses [0, 0] 7) = (True, t)
     \<and> search_inv 2 sample_clauses t \<and> solve_round (\<lambda>_. False) t 64 0 = Some (Inl (successful, s'))
     \<and> sat_cnf (\<lambda>v. val s' ! v = Some True) sample_clauses"
proof -
  obtain a b x y where s: "sat_t (\<lambda>x. x) 2 sample_clauses [0, 0] 7 = built 2 sample_clauses [0, 0] [a, b] x y" using sat_t_built_two by blast
  let ?u = "enqueue_units (clause_refs (built 2 sample_clauses [0, 0] [a, b] x y)) (built 2 sample_clauses [0, 0] [a, b] x y)"
  have "fst ?u \<and> (case solve_round (\<lambda>_. False) (snd ?u) 64 0 of Some (Inl (successful, s')) \<Rightarrow> True | _ \<Rightarrow> False)" by code_simp
  then obtain t s' where t: "?u = (True, t)" and run: "solve_round (\<lambda>_. False) t 64 0 = Some (Inl (successful, s'))"
    by (cases ?u) (auto split: option.splits sum.splits prod.splits sat_result.splits)
  have inv: "search_inv 2 sample_clauses t" using solve_start [OF sample_input_ok _ _ t [folded s]] by simp
  show ?thesis using solve_round_invariant [OF inv, of "\<lambda>_. False" 64 0] t inv run s by auto
qed

text \<open>
  C2. The answers of the solver are right: with the clauses it was constructed from, canonical and
  over its variables, \<open>infeasible\<close> means that no assignment satisfies them, and after
  \<open>successful\<close> every variable has a value and the values satisfy them. Rounding in the random
  draws is assumed monotone and exact on integers.
\<close>

theorem solve_correct:
  assumes "\<forall>C \<in> set F. canonical C" "vars_below n F"
    and "\<forall>x y. x \<le> y \<longrightarrow> fl x \<le> fl y" "\<forall>k. \<bar>k\<bar> \<le> 2 ^ 53 \<longrightarrow> fl (of_int k) = of_int k"
    and "solve stop (sat_t fl n F initial_assignment seed) = Some (result, s)"
  shows "(result = infeasible \<longrightarrow> (\<forall>\<alpha>. \<not> sat_cnf \<alpha> F))
    \<and> (result = successful \<longrightarrow> length (val s) = n \<and> (\<forall>v < n. val s ! v \<noteq> None) \<and> sat_cnf (\<lambda>v. val s ! v = Some True) F)"
  using solve_ok(1) [OF assms(1,2) _ _ assms(5)] assms(3,4) unfolding answer_ok_def round_ok_def by simp

theorem solve_correct_witness:
  "\<exists>s. solve (\<lambda>_. False) (sat_t (\<lambda>x. x) 2 sample_clauses [0, 0] 7) = Some (successful, s)
     \<and> val s = [Some False, Some True] \<and> sat_cnf (\<lambda>v. val s ! v = Some True) sample_clauses"
proof -
  obtain a b x y where s: "sat_t (\<lambda>x. x) 2 sample_clauses [0, 0] 7 = built 2 sample_clauses [0, 0] [a, b] x y" using sat_t_built_two by blast
  have "map_option (\<lambda>(r, s). (r, val s)) (solve (\<lambda>_. False) (built 2 sample_clauses [0, 0] [a, b] x y)) = Some (successful, [Some False, Some True])" by code_simp
  then obtain t where t: "solve (\<lambda>_. False) (built 2 sample_clauses [0, 0] [a, b] x y) = Some (successful, t)" "val t = [Some False, Some True]" by auto
  show ?thesis using solve_correct [OF sample_input_ok _ _ t(1) [folded s]] t s by simp
qed

text \<open>
  C4. The solver stops when asked to: if the stop callback answers yes at some step that is a
  multiple of its polling period, the search returns, whatever the clauses are.
\<close>

theorem solve_returns:
  assumes "\<forall>C \<in> set F. canonical C" "vars_below n F"
    and "\<forall>x y. x \<le> y \<longrightarrow> fl x \<le> fl y" "\<forall>k. \<bar>k\<bar> \<le> 2 ^ 53 \<longrightarrow> fl (of_int k) = of_int k"
    and "0 < m" "stop (poll_step (m * solve_stop_poll_period))"
  shows "\<exists>result s. solve stop (sat_t fl n F initial_assignment seed) = Some (result, s)"
  using solve_ok(2) [OF assms(1,2), of fl stop "m * solve_stop_poll_period" initial_assignment seed] assms(3-6)
  by (auto simp: solve_stop_poll_period_def)

theorem solve_returns_witness:
  "\<exists>result s. solve (\<lambda>p. p = poll_step 128) (sat_t (\<lambda>x. x) 2 sample_clauses [0, 0] 7) = Some (result, s)"
  using solve_returns [OF sample_input_ok, of "\<lambda>x. x" 1 "\<lambda>p. p = poll_step 128" "[0, 0]" 7] by (simp add: solve_stop_poll_period_def)


section \<open>The search on a pseudo-Boolean model\<close>

lemma value_bits_ok:
  assumes "length (val s) = n" "\<forall>v < n. val s ! v \<noteq> None"
  shows "bits n (value_bits s)" "v < n \<Longrightarrow> asg (value_bits s) v \<longleftrightarrow> val s ! v = Some True"
proof -
  have nth: "value_bits s ! v = of_bool (val s ! v = Some True)" if "v < n" for v
    using assms that by (auto simp: value_bits_def split: option.splits)
  have len: "length (value_bits s) = n" using assms(1) by (simp add: value_bits_def)
  then have "set (value_bits s) \<subseteq> {0, 1}" using nth by (auto simp: in_set_conv_nth)
  then show "bits n (value_bits s)" using assms(1) by (simp add: bits_def value_bits_def)
  show "v < n \<Longrightarrow> asg (value_bits s) v \<longleftrightarrow> val s ! v = Some True" using nth by simp
qed

lemma padded_bits: "bits k xs \<Longrightarrow> k \<le> n \<Longrightarrow> bits n (xs @ replicate (n - length xs) 0)"
  by (auto simp: bits_def)

text \<open>
  C1. The whole search on a 0/1 model: when it answers \<open>successful\<close>, the assignment it hands
  back is a 0/1 vector that satisfies every row, so the assertion on the rows holds; when it
  answers \<open>infeasible\<close>, no assignment satisfies the rows; and in every other case the given
  assignment is left as it was. The composition is the one of the code: encoding into clauses,
  variable elimination, the solver, and restoring the eliminated variables.
\<close>

theorem fj_bin_sat_search_correct:
  assumes "model_vars_below pb [0..<n_constraints pb] (n_variables pb)" and "bits (n_variables pb) assignment"
    and "\<forall>x y. x \<le> y \<longrightarrow> fl x \<le> fl y" "\<forall>k. \<bar>k\<bar> \<le> 2 ^ 53 \<longrightarrow> fl (of_int k) = of_int k"
    and "fj_bin_sat_search fl pb assignment seed stop = Some (result, out, n_steps)"
  shows "(result = successful \<longrightarrow> bits (n_variables pb) out \<and> model_holds pb [0..<n_constraints pb] (asg out))
    \<and> (result = infeasible \<longrightarrow> (\<forall>\<alpha>. \<not> model_holds pb [0..<n_constraints pb] \<alpha>))
    \<and> (result \<noteq> successful \<longrightarrow> out = assignment)"
proof -
  let ?N = "n_variables pb" and ?rows = "[0..<n_constraints pb]"
  obtain enc variables cnf where enc: "encode_pb_model pb (\<lambda>r. stop (poll_row r)) = (enc, variables, cnf)" by (metis prod_cases3)
  note e = encode_pb_model_spec [OF enc assms(1)]
  show ?thesis
  proof (cases "enc = successful")
    case False
    then show ?thesis using assms(5) e by (auto simp: fj_bin_sat_search_def enc)
  next
    case True
    then have cnf: "?N \<le> variables" "vars_below variables cnf" "\<And>\<alpha>. sat_cnf \<alpha> cnf \<Longrightarrow> model_holds pb ?rows \<alpha>"
      "\<And>\<alpha>. model_holds pb ?rows \<alpha> \<Longrightarrow> \<exists>\<alpha>'. sat_cnf \<alpha>' cnf" using e by blast+
    show ?thesis
    proof (cases "presolve cnf variables ?N (\<lambda>v. stop (poll_variable v))")
      case None
      then show ?thesis using assms(5) True by (auto simp: fj_bin_sat_search_def enc)
    next
      case (Some p)
      obtain cnf' bve where p: "p = (cnf', bve)" by fastforce
      let ?n = "length (compact_to_original bve)"
      let ?init = "map (\<lambda>k. assignment ! (compact_to_original bve ! k)) [0..<model_variables bve]"
      note b = presolve_sound [OF Some [unfolded p] cnf(2,1)]
      obtain res s where run: "solve stop (sat_t fl ?n cnf' ?init seed) = Some (res, s)"
        using assms(5) True Some p by (auto simp: fj_bin_sat_search_def enc Let_def split: option.splits)
      have out: "result = res \<and> out = (if res = successful
          then take ?N (postsolve bve (value_bits s) (assignment @ replicate (variables - length assignment) 0)) @ drop ?N assignment else assignment)"
        using assms(5) True Some p run by (auto simp: fj_bin_sat_search_def enc Let_def split: if_splits)
      have ans: "answer_ok ?n cnf' (res, s)"
        by (rule solve_ok(1) [OF _ _ _ _ run]) (use b assms(3,4) in auto)
      show ?thesis
      proof (cases "res = successful")
        case True
        let ?full = "postsolve bve (value_bits s) (assignment @ replicate (variables - length assignment) 0)"
        have v: "length (val s) = ?n" "\<forall>v < ?n. val s ! v \<noteq> None" "sat_cnf (\<lambda>v. val s ! v = Some True) cnf'"
          using ans True by (simp_all add: answer_ok_def round_ok_def)
        have "sat_cnf (asg (value_bits s)) cnf'"
          using v(3) value_bits_ok(2) [OF v(1,2)] b sat_cnf_cong [of ?n cnf' "asg (value_bits s)" "\<lambda>v. val s ! v = Some True"] by simp
        moreover have "bits variables (assignment @ replicate (variables - length assignment) 0)" using padded_bits [OF assms(2) cnf(1)] .
        ultimately have full: "bits variables ?full" "sat_cnf (asg ?full) cnf" using b value_bits_ok(1) [OF v(1,2)] by blast+
        have o: "out = take ?N ?full" using out True assms(2) by (simp add: bits_def)
        have ob: "bits ?N out" using full(1) cnf(1) set_take_subset [of ?N ?full] by (auto simp: o bits_def)
        have "model_holds pb ?rows (asg ?full) = model_holds pb ?rows (asg out)"
          by (rule model_holds_cong [OF assms(1)]) (simp add: o)
        then show ?thesis using ob cnf(3) [OF full(2)] out True by simp
      next
        case False
        have "\<not> model_holds pb ?rows \<alpha>" if "res = infeasible" for \<alpha>
          using ans that cnf(4) [of \<alpha>] b by (auto simp: answer_ok_def round_ok_def)
        then show ?thesis using out False by simp
      qed
    qed
  qed
qed



text \<open>Two rows: x0 + x1 \<open>\<le>\<close> 1 and x0 \<open>\<le>\<close> 0, from the violated assignment (1, 1).\<close>

definition sample_rows :: fj_bin_problem where
  "sample_rows = \<lparr>n_variables = 2, n_constraints = 2, pb_offsets = [0, 2, 3], pb_variables = [0, 1, 0],
     pb_coefficients = [1, 1, 1], pb_bound = [1, 0]\<rparr>"

lemma sample_rows_encoded:
  "encode_pb_model sample_rows (\<lambda>_. False) = (successful, 2, [[LIT 0 False, LIT 1 False], [LIT 0 False]])"
proof -
  have "row_terms sample_rows 0 = [(0, 1), (1, 1)]" "row_terms sample_rows 1 = [(0, 1)]" by code_simp+
  moreover have "normalize_row [(0, 1), (1, 1)] (pb_bound sample_rows ! 0) = (1, 2)" "normalize_row [(0, 1)] (pb_bound sample_rows ! 1) = (0, 1)"
    by code_simp+
  moreover have "try_encode_pb_row_direct [(0, 1), (1, 1)] 1 [] = (True, [[LIT 0 False, LIT 1 False]])"
    "try_encode_pb_row_direct [(0, 1)] 0 [[LIT 0 False, LIT 1 False]] = (True, [[LIT 0 False, LIT 1 False], [LIT 0 False]])"
    by code_simp+
  moreover have "[0..<n_constraints sample_rows] = [0, 1]" "n_variables sample_rows = 2" by (simp_all add: sample_rows_def upt_rec)
  ultimately show ?thesis by (simp add: encode_pb_model_def sat_clause_limit_def)
qed

theorem fj_bin_sat_search_correct_witness:
  "fj_bin_sat_search (\<lambda>x. x) sample_rows [1, 1] 7 (\<lambda>_. False) = Some (successful, [0, 1], 2)
   \<and> model_holds sample_rows [0..<2] (asg [0, 1])"
proof -
  let ?F = "[[LIT 0 False, LIT 1 False], [LIT 0 False]]"
  let ?bve = "\<lparr>extension = [], compact_to_original = [0, 1], model_variables = 2\<rparr>"
  have pre: "presolve ?F 2 2 (\<lambda>_. False) = Some (?F, ?bve)" by code_simp
  obtain a b x y where s: "sat_t (\<lambda>x. x) 2 ?F [1, 1] 7 = built 2 ?F [1, 1] [a, b] x y" using sat_t_built_two by blast
  have "map_option (\<lambda>(r, s). (r, value_bits s, steps s)) (solve (\<lambda>_. False) (built 2 ?F [1, 1] [a, b] x y)) = Some (successful, [0, 1], 2)"
    by code_simp
  then obtain t where t: "solve (\<lambda>_. False) (built 2 ?F [1, 1] [a, b] x y) = Some (successful, t)" "value_bits t = [0, 1]" "steps t = 2" by auto
  have nv: "n_variables sample_rows = 2" "n_constraints sample_rows = 2" by (simp_all add: sample_rows_def)
  have s2: "sat_t (\<lambda>x. x) (Suc (Suc 0)) ?F [1, 1] 7 = built 2 ?F [1, 1] [a, b] x y" using s by (simp only: numeral_2_eq_2)
  have "postsolve ?bve [0, 1] [1, 1] = [0, 1]" by code_simp
  then have run: "fj_bin_sat_search (\<lambda>x. x) sample_rows [1, 1] 7 (\<lambda>_. False) = Some (successful, [0, 1], 2)"
    using pre s2 t by (simp add: fj_bin_sat_search_def sample_rows_encoded nv Let_def upt_rec)
  have vars: "model_vars_below sample_rows [0..<n_constraints sample_rows] (n_variables sample_rows)" by code_simp
  have "bits (n_variables sample_rows) [1, 1]" by (simp add: nv bits_def)
  from fj_bin_sat_search_correct [OF vars this _ _ run] run show ?thesis by (simp add: nv)
qed

end
