(* ===== verification/Circular_Deque.thy ===== *)
theory Circular_Deque
  imports Prelude
begin

text \<open>
  The fixed-capacity double-ended queue \<open>circular_deque_t\<close> of \<open>utilities/circular_deque.hpp\<close>:
  a ring buffer with one slot more than its capacity. Indices are 64-bit, so sums and differences
  are taken modulo \<open>2 ^ 64\<close>. The assertions of the code are the preconditions of the laws.
\<close>

section \<open>Operations\<close>

record 'a circular_deque =
  buffer :: "'a list"
  slots :: nat
  head :: nat
  tail :: nat

definition size_t_max :: nat where "size_t_max = 2 ^ 64"

definition next_slot :: "'a circular_deque \<Rightarrow> nat \<Rightarrow> nat" where
  "next_slot q idx = (idx + 1) mod size_t_max mod slots q"

definition prev_slot :: "'a circular_deque \<Rightarrow> nat \<Rightarrow> nat" where
  "prev_slot q idx = (idx + slots q + size_t_max - 1) mod size_t_max mod slots q"

definition deque_new :: "'a \<Rightarrow> nat \<Rightarrow> 'a circular_deque" where
  "deque_new d capacity = \<lparr>buffer = replicate (capacity + 1) d, slots = capacity + 1, head = 0, tail = 0\<rparr>"

definition deque_default :: "'a \<Rightarrow> 'a circular_deque" where
  "deque_default d = \<lparr>buffer = [d], slots = 1, head = 0, tail = 0\<rparr>"

definition deque_empty :: "'a circular_deque \<Rightarrow> bool" where
  "deque_empty q \<longleftrightarrow> head q = tail q"

definition deque_full :: "'a circular_deque \<Rightarrow> bool" where
  "deque_full q \<longleftrightarrow> next_slot q (tail q) = head q"

definition deque_size :: "'a circular_deque \<Rightarrow> nat" where
  "deque_size q = (tail q + size_t_max - head q + slots q) mod size_t_max mod slots q"

definition deque_capacity :: "'a circular_deque \<Rightarrow> nat" where
  "deque_capacity q = slots q - 1"

definition clear_resize :: "'a \<Rightarrow> nat \<Rightarrow> 'a circular_deque \<Rightarrow> 'a circular_deque" where
  "clear_resize d new_capacity q =
     q\<lparr>head := 0, tail := 0, slots := new_capacity + 1, buffer := vresize (new_capacity + 1) d (buffer q)\<rparr>"

definition push_back :: "'a \<Rightarrow> 'a circular_deque \<Rightarrow> 'a circular_deque" where
  "push_back v q = q\<lparr>buffer := (buffer q)[tail q := v], tail := next_slot q (tail q)\<rparr>"

definition push_front :: "'a \<Rightarrow> 'a circular_deque \<Rightarrow> 'a circular_deque" where
  "push_front v q = (let h = prev_slot q (head q) in q\<lparr>head := h, buffer := (buffer q)[h := v]\<rparr>)"

definition pop_front :: "'a circular_deque \<Rightarrow> 'a \<times> 'a circular_deque" where
  "pop_front q = (buffer q ! head q, q\<lparr>head := next_slot q (head q)\<rparr>)"

definition pop_back :: "'a circular_deque \<Rightarrow> 'a \<times> 'a circular_deque" where
  "pop_back q = (let t = prev_slot q (tail q) in (buffer q ! t, q\<lparr>tail := t\<rparr>))"

definition deque_front :: "'a circular_deque \<Rightarrow> 'a" where
  "deque_front q = buffer q ! head q"

definition deque_back :: "'a circular_deque \<Rightarrow> 'a" where
  "deque_back q = buffer q ! prev_slot q (tail q)"

section \<open>The sequence a ring represents\<close>

definition deque_inv :: "'a circular_deque \<Rightarrow> bool" where
  "deque_inv q \<longleftrightarrow> length (buffer q) = slots q \<and> 0 < slots q \<and> slots q \<le> 2 ^ 63 \<and> head q < slots q \<and> tail q < slots q"

definition elements :: "'a circular_deque \<Rightarrow> 'a list" where
  "elements q = map (\<lambda>k. buffer q ! ((head q + k) mod slots q)) [0..<deque_size q]"

lemma deque_inv_D:
  assumes "deque_inv q"
  shows "length (buffer q) = slots q" "0 < slots q" "slots q \<le> 2 ^ 63" "head q < slots q" "tail q < slots q"
  using assms by (simp_all add: deque_inv_def)

lemma ring_arith:
  assumes "deque_inv q"
  shows "i < slots q \<Longrightarrow> next_slot q i = (if i + 1 = slots q then 0 else i + 1)"
    and "i < slots q \<Longrightarrow> prev_slot q i = (if i = 0 then slots q - 1 else i - 1)"
    and "deque_size q = (if head q \<le> tail q then tail q - head q else tail q + slots q - head q)"
proof -
  note d = deque_inv_D [OF assms]
  have big: "i < size_t_max" "2 * slots q \<le> size_t_max" if "i \<le> slots q" for i using d(3) that by (simp_all add: size_t_max_def)
  show "i < slots q \<Longrightarrow> next_slot q i = (if i + 1 = slots q then 0 else i + 1)"
    using big [of "i + 1"] by (simp add: next_slot_def)
  show "prev_slot q i = (if i = 0 then slots q - 1 else i - 1)" if i: "i < slots q"
  proof -
    have e: "i + slots q + size_t_max - 1 = size_t_max + (i + slots q - 1)" using d(2) by simp
    have "i + slots q - 1 < size_t_max" using big(2) [of 0] i by linarith
    then have "(i + slots q + size_t_max - 1) mod size_t_max = i + slots q - 1" by (simp only: e mod_add_self1 mod_less)
    moreover have "(i + slots q - 1) mod slots q = (if i = 0 then slots q - 1 else i - 1)"
      using i d(2) by (cases i) simp_all
    ultimately show ?thesis by (simp add: prev_slot_def)
  qed
  show "deque_size q = (if head q \<le> tail q then tail q - head q else tail q + slots q - head q)"
  proof (cases "head q \<le> tail q")
    case True
    then have e: "tail q + size_t_max - head q + slots q = size_t_max + (tail q - head q + slots q)" by simp
    have "tail q - head q + slots q < size_t_max" using big(2) [of 0] d(5) by linarith
    then have "(tail q + size_t_max - head q + slots q) mod size_t_max = tail q - head q + slots q" by (simp only: e mod_add_self1 mod_less)
    moreover have "(tail q - head q + slots q) mod slots q = tail q - head q" using d(5) by simp
    ultimately show ?thesis using True by (simp only: deque_size_def if_True)
  next
    case False
    then have e: "tail q + size_t_max - head q + slots q = size_t_max + (tail q + slots q - head q)" using d(4) big [of 0] by simp
    have "tail q + slots q - head q < size_t_max" using big(2) [of 0] d(4,5) False by linarith
    then have "(tail q + size_t_max - head q + slots q) mod size_t_max = tail q + slots q - head q" by (simp only: e mod_add_self1 mod_less)
    then show ?thesis using False d(4,5) by (simp add: deque_size_def)
  qed
qed


lemma slot_mod: "i < n \<Longrightarrow> k < n \<Longrightarrow> (i + k) mod n = (if i + k < n then i + k else i + k - n)" for n :: nat
  by (simp add: mod_if)

lemma deque_size_less: "deque_inv q \<Longrightarrow> deque_size q < slots q"
  using deque_inv_D(2) [of q] by (simp add: deque_size_def)

lemma slot_index:
  assumes inv: "deque_inv q"
  shows "k < deque_size q \<Longrightarrow> (head q + k) mod slots q \<noteq> tail q" and "(head q + deque_size q) mod slots q = tail q"
    and "(head q + k) mod slots q < slots q"
  using deque_inv_D [OF inv] ring_arith(3) [OF inv] slot_mod [of "head q" "slots q" k] slot_mod [of "head q" "slots q" "deque_size q"]
    deque_size_less [OF inv] by (auto split: if_splits)

lemma length_elements [simp]: "length (elements q) = deque_size q"
  by (simp add: elements_def)

lemma nth_elements: "k < deque_size q \<Longrightarrow> elements q ! k = buffer q ! ((head q + k) mod slots q)"
  by (simp add: elements_def)

lemma empty_iff: "deque_inv q \<Longrightarrow> deque_empty q \<longleftrightarrow> elements q = []"
  using deque_inv_D [of q] ring_arith(3) [of q] by (auto simp: deque_empty_def elements_def split: if_splits)

lemma full_iff: "deque_inv q \<Longrightarrow> deque_full q \<longleftrightarrow> deque_size q = deque_capacity q"
  using deque_inv_D [of q] ring_arith(1) [of q "tail q"] ring_arith(3) [of q] by (auto simp: deque_full_def deque_capacity_def split: if_splits)

lemma push_back_spec:
  assumes inv: "deque_inv q" and room: "\<not> deque_full q"
  shows "deque_inv (push_back v q)" and "elements (push_back v q) = elements q @ [v]"
proof -
  note d = deque_inv_D [OF inv]
  show inv': "deque_inv (push_back v q)"
    using d ring_arith(1) [OF inv d(5)] by (auto simp: deque_inv_def push_back_def)
  have size: "deque_size (push_back v q) = Suc (deque_size q)"
    using ring_arith(3) [OF inv'] ring_arith(3) [OF inv] ring_arith(1) [OF inv d(5)] room d by (auto simp: push_back_def deque_full_def split: if_splits)
  show "elements (push_back v q) = elements q @ [v]"
  proof (rule nth_equalityI)
    fix k assume "k < length (elements (push_back v q))"
    then have k: "k < Suc (deque_size q)" by (simp add: size)
    have "elements (push_back v q) ! k = (buffer q)[tail q := v] ! ((head q + k) mod slots q)"
      using k by (simp add: nth_elements size) (simp add: push_back_def)
    moreover have "(head q + k) mod slots q \<noteq> tail q" if "k \<noteq> deque_size q" using slot_index(1) [OF inv] k that by simp
    ultimately show "elements (push_back v q) ! k = (elements q @ [v]) ! k"
      using k slot_index(2) [OF inv] d(1,5) by (cases "k = deque_size q") (simp_all add: nth_append nth_elements)
  qed (simp add: size)
qed

lemma pop_front_spec:
  assumes inv: "deque_inv q" and ne: "\<not> deque_empty q"
  shows "deque_inv (snd (pop_front q))" and "elements q = fst (pop_front q) # elements (snd (pop_front q))"
proof -
  note d = deque_inv_D [OF inv]
  let ?q = "snd (pop_front q)"
  show inv': "deque_inv ?q" using d ring_arith(1) [OF inv d(4)] by (auto simp: deque_inv_def pop_front_def)
  have size: "deque_size q = Suc (deque_size ?q)"
    using ring_arith(3) [OF inv'] ring_arith(3) [OF inv] ring_arith(1) [OF inv d(4)] ne d by (auto simp: pop_front_def deque_empty_def split: if_splits)
  have shift: "(head ?q + k) mod slots q = (head q + Suc k) mod slots q" for k
  proof (cases "head q + 1 = slots q")
    case True
    then have "head q + Suc k = slots q + k" by simp
    then show ?thesis using ring_arith(1) [OF inv d(4)] True by (simp only: mod_add_self1) (simp add: pop_front_def)
  next
    case False
    then show ?thesis using ring_arith(1) [OF inv d(4)] by (simp add: pop_front_def)
  qed
  show "elements q = fst (pop_front q) # elements ?q"
  proof (rule nth_equalityI)
    fix k assume "k < length (elements q)"
    then have k: "k < Suc (deque_size ?q)" by (simp add: size)
    have "buffer ?q = buffer q" "slots ?q = slots q" by (simp_all add: pop_front_def)
    then show "elements q ! k = (fst (pop_front q) # elements ?q) ! k"
      using k size shift d(4) by (cases k) (simp_all add: nth_elements, simp add: pop_front_def)
  qed (simp add: size)
qed

lemma push_front_spec:
  assumes inv: "deque_inv q" and room: "\<not> deque_full q"
  shows "deque_inv (push_front v q)" and "elements (push_front v q) = v # elements q"
proof -
  note d = deque_inv_D [OF inv]
  let ?h = "prev_slot q (head q)" and ?q = "push_front v q"
  have h: "?h < slots q" using ring_arith(2) [OF inv d(4)] d by auto
  have q: "head ?q = ?h" "tail ?q = tail q" "slots ?q = slots q" "buffer ?q = (buffer q)[?h := v]" by (simp_all add: push_front_def Let_def)
  show inv': "deque_inv ?q" using d h by (simp add: deque_inv_def q)
  have size: "deque_size ?q = Suc (deque_size q)"
    using ring_arith(3) [OF inv'] ring_arith(3) [OF inv] ring_arith(1) [OF inv d(5)] ring_arith(2) [OF inv d(4)] room d
    by (auto simp: q deque_full_def split: if_splits)
  have shift: "(?h + Suc k) mod slots q = (head q + k) mod slots q" for k
    using ring_arith(2) [OF inv d(4)] d(2) by auto
  have other: "(head q + k) mod slots q \<noteq> ?h" if "k < deque_size q" for k
    using that size ring_arith(2) [OF inv d(4)] slot_mod [OF d(4), of k] deque_size_less [OF inv] deque_size_less [OF inv'] d q
    by (auto split: if_splits)
  show "elements ?q = v # elements q"
  proof (rule nth_equalityI)
    fix k assume k: "k < length (elements ?q)"
    show "elements ?q ! k = (v # elements q) ! k"
    proof (cases k)
      case (Suc j)
      then have "j < deque_size q" using k size by simp
      then show ?thesis using Suc size q shift other [of j] by (simp add: nth_elements)
    qed (use size q h d(1) in \<open>simp add: nth_elements\<close>)
  qed (simp add: size)
qed

lemma pop_back_spec:
  assumes inv: "deque_inv q" and ne: "\<not> deque_empty q"
  shows "deque_inv (snd (pop_back q))" and "elements q = elements (snd (pop_back q)) @ [fst (pop_back q)]"
proof -
  note d = deque_inv_D [OF inv]
  let ?t = "prev_slot q (tail q)" and ?q = "snd (pop_back q)"
  have t: "?t < slots q" using ring_arith(2) [OF inv d(5)] d by auto
  have q: "head ?q = head q" "tail ?q = ?t" "slots ?q = slots q" "buffer ?q = buffer q" "fst (pop_back q) = buffer q ! ?t"
    by (simp_all add: pop_back_def Let_def)
  show inv': "deque_inv ?q" using d t by (simp add: deque_inv_def q)
  have size: "deque_size q = Suc (deque_size ?q)"
    using ring_arith(3) [OF inv'] ring_arith(3) [OF inv] ring_arith(2) [OF inv d(5)] ne d
    by (auto simp: q deque_empty_def split: if_splits)
  show "elements q = elements ?q @ [fst (pop_back q)]"
  proof (rule nth_equalityI)
    fix k assume "k < length (elements q)"
    then show "elements q ! k = (elements ?q @ [fst (pop_back q)]) ! k"
      using size q slot_index(2) [OF inv'] by (cases "k = deque_size ?q") (simp_all add: nth_append nth_elements)
  qed (simp add: size)
qed

lemma front_back_spec:
  assumes "deque_inv q" "\<not> deque_empty q"
  shows "deque_front q = hd (elements q)" "deque_back q = last (elements q)"
proof -
  show "deque_front q = hd (elements q)" using arg_cong [OF pop_front_spec(2) [OF assms], of hd] by (simp add: deque_front_def pop_front_def)
  show "deque_back q = last (elements q)" using arg_cong [OF pop_back_spec(2) [OF assms], of last] by (simp add: deque_back_def pop_back_def Let_def)
qed

lemma clear_resize_spec:
  "c < 2 ^ 63 \<Longrightarrow> deque_inv (clear_resize d c q) \<and> elements (clear_resize d c q) = [] \<and> deque_capacity (clear_resize d c q) = c"
proof -
  assume "c < 2 ^ 63"
  then have inv: "deque_inv (clear_resize d c q)" by (simp add: deque_inv_def clear_resize_def)
  then have "deque_size (clear_resize d c q) = 0" by (simp add: ring_arith(3)) (simp add: clear_resize_def)
  then show ?thesis using inv by (simp add: elements_def) (simp add: deque_capacity_def clear_resize_def)
qed

lemma capacity_same [simp]:
  "deque_capacity (push_back v q) = deque_capacity q" "deque_capacity (snd (pop_front q)) = deque_capacity q"
  "deque_capacity (push_front v q) = deque_capacity q" "deque_capacity (snd (pop_back q)) = deque_capacity q"
  by (simp_all add: deque_capacity_def push_back_def pop_front_def push_front_def pop_back_def Let_def)


section \<open>Interface\<close>

text \<open>What clients that use the deque as a queue rely on.\<close>

locale bounded_queue =
  fixes inv :: "'q \<Rightarrow> bool" and elems :: "'q \<Rightarrow> 'a list" and cap :: "'q \<Rightarrow> nat"
    and is_empty :: "'q \<Rightarrow> bool" and push :: "'a \<Rightarrow> 'q \<Rightarrow> 'q" and pop :: "'q \<Rightarrow> 'a \<times> 'q"
  assumes empty: "inv q \<Longrightarrow> is_empty q \<longleftrightarrow> elems q = []"
    and push_inv: "inv q \<Longrightarrow> length (elems q) < cap q \<Longrightarrow> inv (push v q)"
    and push_elems: "inv q \<Longrightarrow> length (elems q) < cap q \<Longrightarrow> elems (push v q) = elems q @ [v]"
    and push_cap: "cap (push v q) = cap q"
    and pop_inv: "inv q \<Longrightarrow> elems q \<noteq> [] \<Longrightarrow> inv (snd (pop q))"
    and pop_elems: "inv q \<Longrightarrow> elems q \<noteq> [] \<Longrightarrow> elems q = fst (pop q) # elems (snd (pop q))"
    and pop_cap: "cap (snd (pop q)) = cap q"
begin

lemma fill:
  "inv q \<Longrightarrow> length (elems q) + length vs \<le> cap q \<Longrightarrow>
   inv (fold push vs q) \<and> elems (fold push vs q) = elems q @ vs \<and> cap (fold push vs q) = cap q"
proof (induction vs arbitrary: q)
  case (Cons v vs)
  then have "inv (push v q)" "elems (push v q) = elems q @ [v]" using push_inv push_elems by simp_all
  then show ?case using Cons.IH [of "push v q"] Cons.prems push_cap by simp
qed simp

lemma pop_hd: "inv q \<Longrightarrow> elems q \<noteq> [] \<Longrightarrow> fst (pop q) = hd (elems q) \<and> elems (snd (pop q)) = tl (elems q)"
  using pop_elems by (metis list.sel(1,3))

end

lemma full_length: "deque_inv q \<Longrightarrow> length (elements q) < deque_capacity q \<Longrightarrow> \<not> deque_full q"
  using full_iff [of q] by simp

interpretation cd: bounded_queue deque_inv elements deque_capacity deque_empty push_back pop_front
proof unfold_locales
  fix q :: "'a circular_deque" and v
  assume inv: "deque_inv q"
  show "deque_empty q \<longleftrightarrow> elements q = []" using empty_iff [OF inv] .
  show "deque_inv (push_back v q)" "elements (push_back v q) = elements q @ [v]" if "length (elements q) < deque_capacity q"
    using push_back_spec [OF inv] full_length [OF inv that] by blast+
  show "deque_inv (snd (pop_front q))" "elements q = fst (pop_front q) # elements (snd (pop_front q))" if "elements q \<noteq> []"
    using pop_front_spec [OF inv] empty_iff [OF inv] that by blast+
qed simp_all

section \<open>Property\<close>

text \<open>
  C24. The ring refines a bounded sequence: its size, emptiness and fullness are those of the
  sequence it represents; when it is not full, pushing adds at the back or the front; when it is
  not empty, popping removes at the front or the back and returns that element; clearing gives the
  empty sequence. No index computation is spoilt by 64-bit wrap-around.
\<close>

theorem circular_deque_refines:
  assumes "deque_inv q"
  shows "deque_size q = length (elements q) \<and> (deque_empty q \<longleftrightarrow> elements q = []) \<and> (deque_full q \<longleftrightarrow> length (elements q) = deque_capacity q)
    \<and> (\<not> deque_full q \<longrightarrow> deque_inv (push_back v q) \<and> elements (push_back v q) = elements q @ [v]
         \<and> deque_inv (push_front v q) \<and> elements (push_front v q) = v # elements q)
    \<and> (\<not> deque_empty q \<longrightarrow> deque_front q = hd (elements q) \<and> deque_back q = last (elements q)
         \<and> deque_inv (snd (pop_front q)) \<and> elements q = fst (pop_front q) # elements (snd (pop_front q))
         \<and> deque_inv (snd (pop_back q)) \<and> elements q = elements (snd (pop_back q)) @ [fst (pop_back q)])
    \<and> (c < 2 ^ 63 \<longrightarrow> deque_inv (clear_resize d c q) \<and> elements (clear_resize d c q) = [] \<and> deque_capacity (clear_resize d c q) = c)"
  using length_elements [of q, symmetric] empty_iff [OF assms] full_iff [OF assms, folded length_elements] push_back_spec [OF assms] push_front_spec [OF assms] front_back_spec [OF assms]
    pop_front_spec [OF assms] pop_back_spec [OF assms] clear_resize_spec [of c d q] by blast

theorem circular_deque_refines_witness:
  "deque_inv \<lparr>buffer = [7, 8, 9 :: nat], slots = 3, head = 2, tail = 1\<rparr>
   \<and> elements \<lparr>buffer = [7, 8, 9 :: nat], slots = 3, head = 2, tail = 1\<rparr> = [9, 7]
   \<and> deque_full \<lparr>buffer = [7, 8, 9 :: nat], slots = 3, head = 2, tail = 1\<rparr>
   \<and> pop_back \<lparr>buffer = [7, 8, 9 :: nat], slots = 3, head = 2, tail = 1\<rparr> = (7, \<lparr>buffer = [7, 8, 9], slots = 3, head = 2, tail = 0\<rparr>)"
proof -
  let ?q = "\<lparr>buffer = [7, 8, 9 :: nat], slots = 3, head = 2, tail = 1\<rparr>"
  have inv: "deque_inv ?q" by (simp add: deque_inv_def)
  have "elements ?q = [9, 7]" by (simp add: elements_def deque_size_def size_t_max_def upt_rec)
  moreover have "pop_back ?q = (7, \<lparr>buffer = [7, 8, 9], slots = 3, head = 2, tail = 0\<rparr>)"
    by (simp add: pop_back_def prev_slot_def size_t_max_def Let_def)
  moreover have "deque_capacity ?q = 2" by (simp add: deque_capacity_def)
  ultimately show ?thesis using circular_deque_refines [OF inv, of 0 0 0] inv by simp
qed

end
