(* ===== verification/Worker_Pool.thy ===== *)
theory Worker_Pool
  imports Circular_Deque
begin

text \<open>
  The pool of branch-and-bound workers, \<open>worker_pool_t\<close> of \<open>branch_and_bound/worker_pool.hpp\<close>.
  The worker class is a template parameter: its constructor \<open>construct\<close>, its \<open>set_inactive\<close> and
  its member \<open>worker_id\<close> are arguments. A worker pointer is the position of the worker in the
  pool. Each operation on the idle queue holds the mutex, so calls of concurrent threads are
  interleaved as whole steps.
\<close>

section \<open>Operations\<close>

record 'w worker_pool =
  workers :: "'w list"
  is_initialized :: bool
  idle_workers :: "nat circular_deque"
  num_idle_workers :: int

definition worker_pool_t :: "'w worker_pool" where
  "worker_pool_t = \<lparr>workers = [], is_initialized = False, idle_workers = deque_default 0, num_idle_workers = 0\<rparr>"

definition pool_init :: "(nat \<Rightarrow> 'w) \<Rightarrow> nat \<Rightarrow> 'w worker_pool \<Rightarrow> 'w worker_pool" where
  "pool_init construct num_workers p =
     p\<lparr>workers := map construct [0..<num_workers], num_idle_workers := int num_workers,
       idle_workers := fold push_back [0..<num_workers] (clear_resize 0 num_workers (idle_workers p)), is_initialized := True\<rparr>"

definition pop_idle_worker :: "'w worker_pool \<Rightarrow> nat option \<times> 'w worker_pool" where
  "pop_idle_worker p =
     (if deque_empty (idle_workers p) then (None, p)
      else let idx = deque_front (idle_workers p)
           in (Some idx, p\<lparr>idle_workers := snd (pop_front (idle_workers p)), num_idle_workers := num_idle_workers p - 1\<rparr>))"

definition return_worker_to_pool :: "('w \<Rightarrow> 'w) \<Rightarrow> ('w \<Rightarrow> nat) \<Rightarrow> nat \<Rightarrow> 'w worker_pool \<Rightarrow> 'w worker_pool" where
  "return_worker_to_pool set_inactive worker_id worker p =
     (let p = p\<lparr>workers := (workers p)[worker := set_inactive (workers p ! worker)]\<rparr>
      in if \<not> is_initialized p then p
         else p\<lparr>idle_workers := push_back (worker_id (workers p ! worker)) (idle_workers p), num_idle_workers := num_idle_workers p + 1\<rparr>)"

definition pool_at :: "'w worker_pool \<Rightarrow> nat \<Rightarrow> 'w" where "pool_at p i = workers p ! i"
definition num_idle :: "'w worker_pool \<Rightarrow> int" where "num_idle p = num_idle_workers p"
definition pool_size :: "'w worker_pool \<Rightarrow> nat" where "pool_size p = length (workers p)"

section \<open>Use of the pool\<close>

text \<open>
  The pool together with the workers its clients hold: it is initialised once, a client may take
  an idle worker, and only a worker that is held is returned.
\<close>

inductive pool_run :: "(nat \<Rightarrow> 'w) \<Rightarrow> ('w \<Rightarrow> 'w) \<Rightarrow> ('w \<Rightarrow> nat) \<Rightarrow> 'w worker_pool \<Rightarrow> nat set \<Rightarrow> bool"
  for construct set_inactive worker_id where
  start: "pool_run construct set_inactive worker_id worker_pool_t {}"
| init: "pool_run construct set_inactive worker_id p H \<Longrightarrow> \<not> is_initialized p \<Longrightarrow> 0 < n \<Longrightarrow> n < 2 ^ 63 \<Longrightarrow>
     pool_run construct set_inactive worker_id (pool_init construct n p) H"
| none: "pool_run construct set_inactive worker_id p H \<Longrightarrow> pop_idle_worker p = (None, p') \<Longrightarrow>
     pool_run construct set_inactive worker_id p' H"
| take: "pool_run construct set_inactive worker_id p H \<Longrightarrow> pop_idle_worker p = (Some i, p') \<Longrightarrow>
     pool_run construct set_inactive worker_id p' (insert i H)"
| give: "pool_run construct set_inactive worker_id p H \<Longrightarrow> i \<in> H \<Longrightarrow>
     pool_run construct set_inactive worker_id (return_worker_to_pool set_inactive worker_id i p) (H - {i})"

inductive_cases pool_runE: "pool_run construct set_inactive worker_id p H"

definition pool_inv :: "('w \<Rightarrow> nat) \<Rightarrow> 'w worker_pool \<Rightarrow> nat set \<Rightarrow> bool" where
  "pool_inv worker_id p H \<longleftrightarrow> deque_inv (idle_workers p) \<and> distinct (elements (idle_workers p))
     \<and> set (elements (idle_workers p)) \<inter> H = {} \<and> set (elements (idle_workers p)) \<union> H = {..<pool_size p}
     \<and> num_idle p = int (length (elements (idle_workers p)))
     \<and> (is_initialized p \<longrightarrow> deque_capacity (idle_workers p) = pool_size p)
     \<and> (\<forall>i < pool_size p. worker_id (workers p ! i) = i)"

lemma pool_inv_D:
  assumes "pool_inv worker_id p H"
  shows "deque_inv (idle_workers p)" "distinct (elements (idle_workers p))" "set (elements (idle_workers p)) \<inter> H = {}"
    "set (elements (idle_workers p)) \<union> H = {..<pool_size p}" "num_idle p = int (length (elements (idle_workers p)))"
    "is_initialized p \<Longrightarrow> deque_capacity (idle_workers p) = pool_size p" "\<And>i. i < pool_size p \<Longrightarrow> worker_id (workers p ! i) = i"
  using assms unfolding pool_inv_def by blast+

lemma idle_count:
  assumes "pool_inv worker_id p H"
  shows "finite H" "length (elements (idle_workers p)) + card H = pool_size p"
proof -
  note d = pool_inv_D [OF assms]
  show fin: "finite H" using d(4) by (metis finite_Un finite_lessThan)
  have "card (set (elements (idle_workers p)) \<union> H) = length (elements (idle_workers p)) + card H"
    using card_Un_disjoint [OF finite_set fin d(3)] distinct_card [OF d(2)] by simp
  then show "length (elements (idle_workers p)) + card H = pool_size p" using d(4) by simp
qed

lemma pop_idle_worker_cases:
  assumes "pool_inv worker_id p H"
  shows "elements (idle_workers p) = [] \<Longrightarrow> pop_idle_worker p = (None, p)"
    and "elements (idle_workers p) = i # rest \<Longrightarrow> \<exists>p'. pop_idle_worker p = (Some i, p') \<and> pool_inv worker_id p' (insert i H)
       \<and> elements (idle_workers p') = rest"
proof -
  note d = pool_inv_D [OF assms]
  show "elements (idle_workers p) = [] \<Longrightarrow> pop_idle_worker p = (None, p)" using cd.empty [OF d(1)] by (simp add: pop_idle_worker_def)
  assume e: "elements (idle_workers p) = i # rest"
  then have ne: "elements (idle_workers p) \<noteq> []" by simp
  let ?q = "snd (pop_front (idle_workers p))"
  let ?p = "p\<lparr>idle_workers := ?q, num_idle_workers := num_idle_workers p - 1\<rparr>"
  have q: "deque_inv ?q" "elements ?q = rest" "deque_front (idle_workers p) = i"
    using cd.pop_inv [OF d(1) ne] cd.pop_hd [OF d(1) ne] front_back_spec(1) [OF d(1)] cd.empty [OF d(1)] e by simp_all
  have "pop_idle_worker p = (Some i, ?p)" using cd.empty [OF d(1)] ne q(3) by (simp add: pop_idle_worker_def Let_def)
  moreover have "pool_inv worker_id ?p (insert i H)"
    using d q e unfolding pool_inv_def by (auto simp: num_idle_def pool_size_def)
  ultimately show "\<exists>p'. pop_idle_worker p = (Some i, p') \<and> pool_inv worker_id p' (insert i H) \<and> elements (idle_workers p') = rest"
    using q(2) by (intro exI [of _ ?p]) simp
qed

lemma return_worker_inv:
  assumes inv: "pool_inv worker_id p H" and i: "i \<in> H" and init: "is_initialized p" and same: "\<And>w. worker_id (set_inactive w) = worker_id w"
  shows "pool_inv worker_id (return_worker_to_pool set_inactive worker_id i p) (H - {i})"
    and "elements (idle_workers (return_worker_to_pool set_inactive worker_id i p)) = elements (idle_workers p) @ [i]"
proof -
  note d = pool_inv_D [OF inv] and c = idle_count [OF inv]
  let ?p = "return_worker_to_pool set_inactive worker_id i p"
  have il: "i < pool_size p" using d(4) i by auto
  have room: "length (elements (idle_workers p)) < deque_capacity (idle_workers p)"
    using c i d(6) [OF init] card_gt_0_iff [of H] by auto
  have wid: "worker_id ((workers p)[i := set_inactive (workers p ! i)] ! k) = k" if "k < pool_size p" for k
    using that d(7) same il by (cases "k = i") (simp_all add: pool_size_def)
  have p: "idle_workers ?p = push_back i (idle_workers p)" "num_idle_workers ?p = num_idle_workers p + 1"
    "workers ?p = (workers p)[i := set_inactive (workers p ! i)]" "is_initialized ?p"
    using init wid [OF il] il by (simp_all add: return_worker_to_pool_def Let_def pool_size_def)
  show e: "elements (idle_workers ?p) = elements (idle_workers p) @ [i]" using cd.push_elems [OF d(1) room] p(1) by simp
  have "deque_inv (idle_workers ?p)" using cd.push_inv [OF d(1) room] p(1) by simp
  moreover have "i \<notin> set (elements (idle_workers p))" using d(3) i by blast
  ultimately show "pool_inv worker_id ?p (H - {i})"
    unfolding pool_inv_def e using d(1-5) d(6) [OF init] i wid p by (intro conjI) (auto simp: num_idle_def pool_size_def)
qed

lemma pool_init_inv:
  assumes "n < 2 ^ 63" "\<And>i. worker_id (construct i) = i"
  shows "pool_inv worker_id (pool_init construct n p) {}" and "elements (idle_workers (pool_init construct n p)) = [0..<n]"
proof -
  let ?c = "clear_resize 0 n (idle_workers p)"
  have c: "deque_inv ?c" "elements ?c = []" "deque_capacity ?c = n" using clear_resize_spec [OF assms(1), of 0 "idle_workers p"] by simp_all
  then have f: "deque_inv (fold push_back [0..<n] ?c) \<and> elements (fold push_back [0..<n] ?c) = [0..<n] \<and> deque_capacity (fold push_back [0..<n] ?c) = n"
    using cd.fill [OF c(1), of "[0..<n]"] by simp
  then show e: "elements (idle_workers (pool_init construct n p)) = [0..<n]" by (simp add: pool_init_def)
  show "pool_inv worker_id (pool_init construct n p) {}"
    using f assms(2) unfolding pool_inv_def by (simp add: pool_init_def num_idle_def pool_size_def lessThan_atLeast0 del: length_elements)
qed

lemma pool_run_inv:
  assumes "pool_run construct set_inactive worker_id p H" "\<And>i. worker_id (construct i) = i" "\<And>w. worker_id (set_inactive w) = worker_id w"
  shows "pool_inv worker_id p H \<and> (\<not> is_initialized p \<longrightarrow> H = {} \<and> elements (idle_workers p) = [])"
  using assms(1)
proof (induction rule: pool_run.induct)
  case start
  show ?case by (simp add: pool_inv_def worker_pool_t_def deque_default_def deque_inv_def elements_def deque_size_def num_idle_def pool_size_def)
next
  case (init p H n)
  then show ?case using pool_init_inv(1) [where construct = construct, OF init.hyps(4) assms(2)] by (simp add: pool_init_def)
next
  case (none p H p')
  then show ?case by (auto simp: pop_idle_worker_def Let_def split: if_splits)
next
  case (take p H i p')
  then obtain rest where "elements (idle_workers p) = i # rest"
    using pop_idle_worker_cases [of worker_id p H] by (cases "elements (idle_workers p)") auto
  then show ?case using pop_idle_worker_cases(2) [of worker_id p H i rest] take.IH take.hyps(2)
    by (auto simp: pop_idle_worker_def Let_def split: if_splits)
next
  case (give p H i)
  then have "is_initialized p" by blast
  then show ?case using return_worker_inv(1) [of worker_id p H i set_inactive, OF _ give.hyps(2) _ assms(3)] give.IH
    by (simp add: return_worker_to_pool_def Let_def)
qed

section \<open>Property\<close>

text \<open>
  C23. The pool never hands a worker out twice: in every state that initialising the pool, taking
  idle workers and returning held ones can reach, the idle workers and the held ones are exactly
  the workers of the pool and have none in common, the idle counter is their number, taking one
  gives a worker that is not held, and it fails only when all are held. So returning a held worker
  never overruns the idle queue.
\<close>

theorem worker_pool_exclusive:
  assumes "pool_run construct set_inactive worker_id p H" "is_initialized p"
    and "\<forall>i. worker_id (construct i) = i" "\<forall>w. worker_id (set_inactive w) = worker_id w"
  shows "distinct (elements (idle_workers p)) \<and> set (elements (idle_workers p)) \<inter> H = {}
    \<and> set (elements (idle_workers p)) \<union> H = {..<pool_size p} \<and> num_idle p = int (pool_size p) - int (card H)
    \<and> (H \<noteq> {} \<longrightarrow> \<not> deque_full (idle_workers p))
    \<and> (case pop_idle_worker p of (None, _) \<Rightarrow> H = {..<pool_size p} | (Some i, _) \<Rightarrow> i < pool_size p \<and> i \<notin> H)"
proof -
  have inv: "pool_inv worker_id p H" using pool_run_inv [OF assms(1)] assms(3,4) by blast
  note d = pool_inv_D [OF inv] and c = idle_count [OF inv]
  have "\<not> deque_full (idle_workers p)" if "H \<noteq> {}"
    using full_iff [OF d(1)] d(6) [OF assms(2)] c that card_gt_0_iff [of H] by auto
  moreover have "case pop_idle_worker p of (None, _) \<Rightarrow> H = {..<pool_size p} | (Some i, _) \<Rightarrow> i < pool_size p \<and> i \<notin> H"
  proof (cases "elements (idle_workers p)")
    case Nil
    then show ?thesis using pop_idle_worker_cases(1) [OF inv] d(4) by simp
  next
    case (Cons i rest)
    then have "i < pool_size p" "i \<notin> H" using d(3,4) by (auto simp: lessThan_def)
    then show ?thesis using pop_idle_worker_cases(2) [OF inv Cons] by auto
  qed
  ultimately show ?thesis using d c by auto
qed

theorem worker_pool_exclusive_witness:
  "\<exists>p. pool_run id id id p {0} \<and> is_initialized p \<and> elements (idle_workers p) = [1] \<and> num_idle p = 1"
proof -
  have run0: "pool_run id id id (pool_init id 2 worker_pool_t) {}"
    by (rule pool_run.init [OF pool_run.start]) (simp_all add: worker_pool_t_def)
  have "elements (idle_workers (pool_init id 2 worker_pool_t)) = [0, 1]" "pool_inv id (pool_init id 2 worker_pool_t) {}"
    using pool_init_inv [of 2 id id worker_pool_t] by (simp_all add: upt_rec)
  then obtain p where p: "pop_idle_worker (pool_init id 2 worker_pool_t) = (Some 0, p)" "elements (idle_workers p) = [1]"
    using pop_idle_worker_cases(2) by blast
  from pool_run.take [OF run0 p(1)] have run: "pool_run id id id p {0}" by simp
  have e: "is_initialized p" "pool_size p = 2"
    using p(1) by (auto simp: pop_idle_worker_def pool_init_def pool_size_def Let_def split: if_splits)
  show ?thesis using worker_pool_exclusive [OF run e(1)] run e p(2) by (intro exI [of _ p]) simp
qed

end
