(* ===== verification/Std_Heap.thy ===== *)
theory Std_Heap
  imports Prelude
begin

text \<open>
  The binary heap of \<open>branch_and_bound/node_queue.hpp\<close>: \<open>heap_t\<close> over \<open>std::push_heap\<close> and
  \<open>std::pop_heap\<close>. The two algorithms are those of the GNU library: a push moves the hole at the end
  towards the root, a pop moves the hole at the root down to a leaf along the greater children and
  then pushes the last element up from there. The comparison is an argument; it is a strict weak
  order on the elements that occur. A member that is called on an empty heap where the library
  leaves the behaviour undefined gives \<open>None\<close>.
\<close>

section \<open>Operations\<close>

definition heap_parent :: "nat \<Rightarrow> nat" where "heap_parent i = (i - 1) div 2"

lemma heap_parent_less [simp]: "0 < i \<Longrightarrow> heap_parent i < i"
  by (auto simp: heap_parent_def)

lemma heap_parent_bound [simp]: "0 < i \<Longrightarrow> i < n \<Longrightarrow> heap_parent i < n"
  using heap_parent_less order.strict_trans by blast

lemma heap_parent_neq [simp]: "0 < i \<Longrightarrow> heap_parent i \<noteq> i" "0 < i \<Longrightarrow> i \<noteq> heap_parent i"
  by (metis heap_parent_less less_irrefl)+

lemma heap_parent_iff: "0 < i \<Longrightarrow> heap_parent i = p \<longleftrightarrow> i = 2 * p + 1 \<or> i = 2 * p + 2"
  by (auto simp: heap_parent_def)

lemma heap_parent_child [simp]: "heap_parent (Suc (2 * p)) = p" "heap_parent (Suc (Suc (2 * p))) = p"
  by (auto simp: heap_parent_def)

function push_heap_at :: "('a \<Rightarrow> 'a \<Rightarrow> bool) \<Rightarrow> 'a list \<Rightarrow> nat \<Rightarrow> 'a \<Rightarrow> 'a list" where
  "push_heap_at cmp xs hole v =
     (if 0 < hole \<and> cmp (xs ! heap_parent hole) v
      then push_heap_at cmp (xs[hole := xs ! heap_parent hole]) (heap_parent hole) v
      else xs[hole := v])"
  by auto
termination by (relation "measure (\<lambda>(_, _, hole, _). hole)") auto

declare push_heap_at.simps [simp del]

definition push_heap :: "('a \<Rightarrow> 'a \<Rightarrow> bool) \<Rightarrow> 'a list \<Rightarrow> 'a list" where
  "push_heap cmp xs = (if xs = [] then xs else push_heap_at cmp xs (length xs - 1) (last xs))"

definition greater_child :: "('a \<Rightarrow> 'a \<Rightarrow> bool) \<Rightarrow> 'a list \<Rightarrow> nat \<Rightarrow> nat" where
  "greater_child cmp xs hole = (if cmp (xs ! (2 * hole + 2)) (xs ! (2 * hole + 1)) then 2 * hole + 1 else 2 * hole + 2)"

lemma greater_child_cases: "greater_child cmp xs h = 2 * h + 1 \<or> greater_child cmp xs h = 2 * h + 2"
  by (simp add: greater_child_def)

function sift_hole :: "('a \<Rightarrow> 'a \<Rightarrow> bool) \<Rightarrow> 'a list \<Rightarrow> nat \<Rightarrow> 'a list \<times> nat" where
  "sift_hole cmp xs hole =
     (if hole < (length xs - 1) div 2
      then sift_hole cmp (xs[hole := xs ! greater_child cmp xs hole]) (greater_child cmp xs hole)
      else if even (length xs) \<and> 0 < length xs \<and> hole = (length xs - 2) div 2
      then (xs[hole := xs ! (2 * hole + 1)], 2 * hole + 1)
      else (xs, hole))"
  by auto
termination
proof (relation "measure (\<lambda>(_, xs, hole). length xs - hole)")
  fix cmp :: "'a \<Rightarrow> 'a \<Rightarrow> bool" and xs :: "'a list" and hole
  assume "hole < (length xs - 1) div 2"
  then show "((cmp, xs[hole := xs ! greater_child cmp xs hole], greater_child cmp xs hole), (cmp, xs, hole)) \<in> measure (\<lambda>(_, xs, hole). length xs - hole)"
    using greater_child_cases [of cmp xs hole] by auto
qed simp

declare sift_hole.simps [simp del]

lemma sift_hole_inner:
  "hole < (length xs - 1) div 2 \<Longrightarrow> sift_hole cmp xs hole = sift_hole cmp (xs[hole := xs ! greater_child cmp xs hole]) (greater_child cmp xs hole)"
  by (subst sift_hole.simps) (simp del: One_nat_def)

lemma sift_hole_last: "length xs = 2 * hole + 2 \<Longrightarrow> sift_hole cmp xs hole = (xs[hole := xs ! (2 * hole + 1)], 2 * hole + 1)"
  by (subst sift_hole.simps) (auto simp del: One_nat_def)

lemma sift_hole_leaf:
  assumes "length xs < 2 * hole + 2"
  shows "sift_hole cmp xs hole = (xs, hole)"
proof -
  have "\<not> hole < (length xs - 1) div 2" "\<not> (even (length xs) \<and> 0 < length xs \<and> hole = (length xs - 2) div 2)"
    using assms by presburger+
  then show ?thesis by (subst sift_hole.simps) (simp only: if_False)
qed

lemma sift_hole_cases:
  obtains "hole < (length xs - 1) div 2" | "length xs = 2 * hole + 2" | "length xs < 2 * hole + 2"
  by linarith

definition adjust_heap :: "('a \<Rightarrow> 'a \<Rightarrow> bool) \<Rightarrow> 'a list \<Rightarrow> nat \<Rightarrow> 'a \<Rightarrow> 'a list" where
  "adjust_heap cmp xs hole v = (case sift_hole cmp xs hole of (ys, h) \<Rightarrow> push_heap_at cmp ys h v)"

definition pop_heap :: "('a \<Rightarrow> 'a \<Rightarrow> bool) \<Rightarrow> 'a list \<Rightarrow> 'a list" where
  "pop_heap cmp xs = (if length xs \<le> 1 then xs else adjust_heap cmp (butlast xs) 0 (last xs) @ [xs ! 0])"

record 'a heap =
  buffer :: "'a list"
  num_entries :: nat

definition heap_t :: "'a heap" where "heap_t = \<lparr>buffer = [], num_entries = 0\<rparr>"

definition heap_push :: "('a \<Rightarrow> 'a \<Rightarrow> bool) \<Rightarrow> 'a \<Rightarrow> 'a heap \<Rightarrow> 'a heap" where
  "heap_push cmp x h = h\<lparr>buffer := push_heap cmp (buffer h @ [x]), num_entries := num_entries h + 1\<rparr>"

definition heap_pop :: "('a \<Rightarrow> 'a \<Rightarrow> bool) \<Rightarrow> 'a heap \<Rightarrow> ('a \<times> 'a heap) option" where
  "heap_pop cmp h =
     (if buffer h = [] then None
      else let b = pop_heap cmp (buffer h) in Some (last b, h\<lparr>buffer := butlast b, num_entries := num_entries h - 1\<rparr>))"

definition heap_size :: "'a heap \<Rightarrow> nat" where "heap_size h = num_entries h"
definition heap_empty :: "'a heap \<Rightarrow> bool" where "heap_empty h \<longleftrightarrow> num_entries h = 0"
definition heap_clear :: "'a heap \<Rightarrow> 'a heap" where "heap_clear h = h\<lparr>buffer := [], num_entries := 0\<rparr>"

definition heap_top :: "'a heap \<Rightarrow> 'a option" where
  "heap_top h = (if buffer h = [] then None else Some (hd (buffer h)))"

section \<open>The permutation of the elements\<close>

lemma length_push_heap_at [simp]: "length (push_heap_at cmp xs h v) = length xs"
  by (induction cmp xs h v rule: push_heap_at.induct) (subst push_heap_at.simps, simp)

lemma mset_move:
  assumes "h < length xs" "p < length xs" "h \<noteq> p"
  shows "mset (xs[h := xs ! p, p := v]) = mset (xs[h := v])"
proof -
  have "xs[h := v, p := v, h := xs ! p] = xs[h := xs ! p, p := v]"
    using assms by (intro nth_equalityI) (auto simp: nth_list_update)
  then show ?thesis using mset_swap [of h "xs[h := v]" p] assms by simp
qed

lemma mset_push_heap_at: "h < length xs \<Longrightarrow> mset (push_heap_at cmp xs h v) = mset (xs[h := v])"
proof (induction cmp xs h v rule: push_heap_at.induct)
  case (1 cmp xs h v)
  then show ?case
    by (subst push_heap_at.simps) (auto simp: mset_move)
qed

lemma mset_sift_hole:
  "h < length xs \<Longrightarrow> sift_hole cmp xs h = (ys, k) \<Longrightarrow> length ys = length xs \<and> k < length xs \<and> mset (ys[k := v]) = mset (xs[h := v])"
proof (induction cmp xs h arbitrary: ys k rule: sift_hole.induct)
  case (1 cmp xs h)
  show ?case
  proof (cases h xs rule: sift_hole_cases)
    case 1
    let ?c = "greater_child cmp xs h"
    have c: "?c < length xs" "?c \<noteq> h" using 1 greater_child_cases [of cmp xs h] by auto
    from "1.IH" [OF 1, of ys k] c "1.prems" show ?thesis by (simp add: mset_move sift_hole_inner [OF 1])
  next
    case 2
    then show ?thesis using "1.prems" by (auto simp: sift_hole_last mset_move)
  next
    case 3
    then show ?thesis using "1.prems" by (simp add: sift_hole_leaf)
  qed
qed

lemma mset_push_heap [simp]: "mset (push_heap cmp xs) = mset xs"
proof (cases "xs = []")
  case False
  then have "xs[length xs - 1 := last xs] = xs" by (metis last_conv_nth list_update_id)
  with False show ?thesis by (simp add: push_heap_def mset_push_heap_at)
qed (simp add: push_heap_def)

lemma mset_adjust_heap: "h < length xs \<Longrightarrow> mset (adjust_heap cmp xs h v) = mset (xs[h := v])"
proof -
  assume h: "h < length xs"
  obtain ys k where s: "sift_hole cmp xs h = (ys, k)" by fastforce
  show ?thesis using mset_sift_hole [OF h s, of v] by (simp add: adjust_heap_def s mset_push_heap_at)
qed

section \<open>The order of the heap\<close>

definition is_heap :: "('a \<Rightarrow> 'a \<Rightarrow> bool) \<Rightarrow> 'a list \<Rightarrow> bool" where
  "is_heap cmp xs \<longleftrightarrow> (\<forall>i < length xs. 0 < i \<longrightarrow> \<not> cmp (xs ! heap_parent i) (xs ! i))"

text \<open>A heap with a hole: the order holds around the hole, also from its parent to its children.\<close>

definition hole_heap :: "('a \<Rightarrow> 'a \<Rightarrow> bool) \<Rightarrow> 'a list \<Rightarrow> nat \<Rightarrow> bool" where
  "hole_heap cmp xs h \<longleftrightarrow>
     (\<forall>i < length xs. 0 < i \<and> i \<noteq> h \<and> heap_parent i \<noteq> h \<longrightarrow> \<not> cmp (xs ! heap_parent i) (xs ! i))
     \<and> (\<forall>i < length xs. 0 < i \<and> 0 < h \<and> heap_parent i = h \<longrightarrow> \<not> cmp (xs ! heap_parent h) (xs ! i))"

lemma hole_heap_order:
  "hole_heap cmp xs h \<Longrightarrow> i < length xs \<Longrightarrow> 0 < i \<Longrightarrow> i \<noteq> h \<Longrightarrow> heap_parent i \<noteq> h \<Longrightarrow> \<not> cmp (xs ! heap_parent i) (xs ! i)"
  "hole_heap cmp xs h \<Longrightarrow> i < length xs \<Longrightarrow> 0 < i \<Longrightarrow> 0 < h \<Longrightarrow> heap_parent i = h \<Longrightarrow> \<not> cmp (xs ! heap_parent h) (xs ! i)"
  by (simp_all add: hole_heap_def)

definition above_children :: "('a \<Rightarrow> 'a \<Rightarrow> bool) \<Rightarrow> 'a list \<Rightarrow> nat \<Rightarrow> 'a \<Rightarrow> bool" where
  "above_children cmp xs h v \<longleftrightarrow> (\<forall>i < length xs. 0 < i \<and> heap_parent i = h \<longrightarrow> \<not> cmp v (xs ! i))"

definition heap_inv :: "('a \<Rightarrow> 'a \<Rightarrow> bool) \<Rightarrow> ('a \<Rightarrow> bool) \<Rightarrow> 'a heap \<Rightarrow> bool" where
  "heap_inv cmp good h \<longleftrightarrow> is_heap cmp (buffer h) \<and> num_entries h = length (buffer h) \<and> (\<forall>x \<in> set (buffer h). good x)"

lemma heap_inv_cong:
  assumes "heap_inv cmp good h" "\<And>x y. x \<in> set (buffer h) \<Longrightarrow> y \<in> set (buffer h) \<Longrightarrow> cmp' x y = cmp x y"
    "\<And>x. x \<in> set (buffer h) \<Longrightarrow> good x \<Longrightarrow> good' x"
  shows "heap_inv cmp' good' h"
  using assms by (simp add: heap_inv_def is_heap_def)

lemma heap_size_pop: "heap_pop cmp h = Some (x, h') \<Longrightarrow> num_entries h' = num_entries h - 1"
  by (auto simp: heap_pop_def Let_def split: if_splits)

text \<open>The contract of a comparison: a strict weak order on the elements of a set.\<close>

locale weak_order =
  fixes cmp :: "'a \<Rightarrow> 'a \<Rightarrow> bool" and good :: "'a \<Rightarrow> bool"
  assumes asym: "good a \<Longrightarrow> good b \<Longrightarrow> cmp a b \<Longrightarrow> \<not> cmp b a"
    and negtrans: "good a \<Longrightarrow> good b \<Longrightarrow> good c \<Longrightarrow> \<not> cmp a b \<Longrightarrow> \<not> cmp b c \<Longrightarrow> \<not> cmp a c"
begin

lemma irrefl: "good a \<Longrightarrow> \<not> cmp a a"
  using asym by blast

lemma push_heap_at_heap:
  assumes "hole_heap cmp xs h" "above_children cmp xs h v" "h < length xs" "\<forall>x \<in> set xs. good x" "good v"
  shows "is_heap cmp (push_heap_at cmp xs h v)"
  using assms
proof (induction h arbitrary: xs rule: less_induct)
  case (less h)
  show ?case
  proof (cases "0 < h \<and> cmp (xs ! heap_parent h) v")
    case True
    let ?p = "heap_parent h" and ?ys = "xs[h := xs ! heap_parent h]"
    have p: "?p < h" "?p < length xs" using True less.prems(3) by auto
    have g: "good (xs ! ?p)" "\<And>i. i < length xs \<Longrightarrow> good (xs ! i)" using less.prems(4) p(2) by auto
    have nv: "\<not> cmp v (xs ! ?p)" using asym [OF g(1) less.prems(5)] True by blast
    have sib: "\<not> cmp (xs ! ?p) (xs ! i)" if "i < length xs" "0 < i" "heap_parent i = ?p" "i \<noteq> h" for i
      using hole_heap_order(1) [OF less.prems(1) that(1,2,4)] that(3) p(1) by simp
    have up: "\<not> cmp (xs ! heap_parent ?p) (xs ! ?p)" if "0 < ?p"
      using hole_heap_order(1) [OF less.prems(1) p(2) that] p(1) heap_parent_less [OF that] by linarith
    have "hole_heap cmp ?ys ?p"
      unfolding hole_heap_def
    proof (intro conjI allI impI)
      fix i assume i: "i < length ?ys" "0 < i \<and> i \<noteq> ?p \<and> heap_parent i \<noteq> ?p"
      show "\<not> cmp (?ys ! heap_parent i) (?ys ! i)"
      proof (cases "heap_parent i = h")
        case eq: True
        then have "i \<noteq> h" using i by auto
        then show ?thesis using hole_heap_order(2) [OF less.prems(1), of i] eq i True less.prems(3) by simp
      next
        case False
        then show ?thesis using hole_heap_order(1) [OF less.prems(1), of i] i by (cases "i = h") auto
      qed
    next
      fix i assume i: "i < length ?ys" "0 < i \<and> 0 < ?p \<and> heap_parent i = ?p"
      have pp: "heap_parent ?p < ?p" using i by simp
      have "\<not> cmp (xs ! heap_parent ?p) (xs ! i)" if "i \<noteq> h"
        using negtrans [OF g(2) g(1) g(2) up sib] that i pp p by simp
      then show "\<not> cmp (?ys ! heap_parent ?p) (?ys ! i)" using up i pp p by (cases "i = h") auto
    qed
    moreover have "above_children cmp ?ys ?p v"
      unfolding above_children_def
    proof (intro allI impI)
      fix i assume i: "i < length ?ys" "0 < i \<and> heap_parent i = ?p"
      show "\<not> cmp v (?ys ! i)"
      proof (cases "i = h")
        case True
        then show ?thesis using nv i by simp
      next
        case False
        then have "\<not> cmp (xs ! ?p) (xs ! i)" "good (xs ! i)" using sib [of i] g(2) i by simp_all
        then show ?thesis using negtrans [OF less.prems(5) g(1) _ nv, of "xs ! i"] i False by simp
      qed
    qed
    moreover have "\<forall>x \<in> set ?ys. good x" using less.prems(4) g(1) set_update_subset_insert [of xs h "xs ! ?p"] by blast
    ultimately have "is_heap cmp (push_heap_at cmp ?ys ?p v)" using less.IH [OF p(1), of ?ys] less.prems(5) p(2) by simp
    then show ?thesis using True by (simp add: push_heap_at.simps [of cmp xs h])
  next
    case False
    have "is_heap cmp (xs[h := v])"
      unfolding is_heap_def
    proof (intro allI impI)
      fix i assume i: "i < length (xs[h := v])" "0 < i"
      then have "heap_parent i \<noteq> i" by simp
      then show "\<not> cmp (xs[h := v] ! heap_parent i) (xs[h := v] ! i)"
        using hole_heap_order(1) [OF less.prems(1), of i] less.prems(2,3) False i
        unfolding above_children_def by (cases "i = h"; cases "heap_parent i = h") auto
    qed
    then show ?thesis using False by (auto simp: push_heap_at.simps [of cmp xs h])
  qed
qed

lemma push_heap_heap:
  assumes "is_heap cmp (butlast xs)" "\<forall>x \<in> set xs. good x"
  shows "is_heap cmp (push_heap cmp xs)"
proof (cases "xs = []")
  case False
  have "hole_heap cmp xs (length xs - 1)"
    unfolding hole_heap_def
  proof (intro conjI allI impI)
    fix i assume i: "i < length xs" "0 < i \<and> i \<noteq> length xs - 1 \<and> heap_parent i \<noteq> length xs - 1"
    then have "i < length (butlast xs)" "heap_parent i < length (butlast xs)" by auto
    then show "\<not> cmp (xs ! heap_parent i) (xs ! i)" using assms(1) i by (auto simp: is_heap_def nth_butlast)
  next
    fix i assume "i < length xs" "0 < i \<and> 0 < length xs - 1 \<and> heap_parent i = length xs - 1"
    then show "\<not> cmp (xs ! heap_parent (length xs - 1)) (xs ! i)" using heap_parent_less [of i] by linarith
  qed
  moreover have "above_children cmp xs (length xs - 1) (last xs)"
    unfolding above_children_def
  proof (intro allI impI)
    fix i assume "i < length xs" "0 < i \<and> heap_parent i = length xs - 1"
    then show "\<not> cmp (last xs) (xs ! i)" using heap_parent_less [of i] by linarith
  qed
  ultimately show ?thesis using push_heap_at_heap assms(2) False by (simp add: push_heap_def)
qed (simp add: push_heap_def is_heap_def)

lemma sift_hole_heap:
  assumes "hole_heap cmp xs h" "h < length xs" "\<forall>x \<in> set xs. good x" "sift_hole cmp xs h = (ys, k)"
  shows "hole_heap cmp ys k \<and> above_children cmp ys k v \<and> (\<forall>x \<in> set ys. good x)"
  using assms
proof (induction "length xs - h" arbitrary: xs h rule: less_induct)
  case less
  have moved: "hole_heap cmp (xs[h := xs ! c]) c \<and> (\<forall>x \<in> set (xs[h := xs ! c]). good x)"
    if c: "c < length xs" "heap_parent c = h" "0 < c" and top: "\<And>i. i < length xs \<Longrightarrow> 0 < i \<Longrightarrow> heap_parent i = h \<Longrightarrow> \<not> cmp (xs ! c) (xs ! i)" for c
  proof
    let ?ys = "xs[h := xs ! c]"
    have hc: "h < c" using c by auto
    show "hole_heap cmp ?ys c"
      unfolding hole_heap_def
    proof (intro conjI allI impI)
      fix i assume i: "i < length ?ys" "0 < i \<and> i \<noteq> c \<and> heap_parent i \<noteq> c"
      consider "i = h" | "heap_parent i = h" "i \<noteq> h" | "i \<noteq> h" "heap_parent i \<noteq> h" by blast
      then show "\<not> cmp (?ys ! heap_parent i) (?ys ! i)"
      proof cases
        case 1
        then show ?thesis using hole_heap_order(2) [OF less.prems(1) c(1,3)] i c less.prems(2) by (simp add: nth_list_update_neq)
      next
        case 2
        then show ?thesis using top [of i] i less.prems(2) by simp
      next
        case 3
        then show ?thesis using hole_heap_order(1) [OF less.prems(1)] i by simp
      qed
    next
      fix i assume i: "i < length ?ys" "0 < i \<and> 0 < c \<and> heap_parent i = c"
      have ih: "i \<noteq> h" "heap_parent i \<noteq> h" using i hc heap_parent_less [of i] by auto
      have "\<not> cmp (xs ! heap_parent i) (xs ! i)" using hole_heap_order(1) [OF less.prems(1) _ _ ih] i by simp
      then show "\<not> cmp (?ys ! heap_parent c) (?ys ! i)" using i ih(1) c(2) less.prems(2) by simp
    qed
    show "\<forall>x \<in> set ?ys. good x"
      using less.prems(3) nth_mem [OF c(1)] set_update_subset_insert [of xs h "xs ! c"] by blast
  qed
  show ?case
  proof (cases h xs rule: sift_hole_cases)
    case 1
    let ?c = "greater_child cmp xs h"
    have c: "?c < length xs" "heap_parent ?c = h" "0 < ?c" "h < ?c" using 1 greater_child_cases [of cmp xs h] by auto
    have g: "good (xs ! (2 * h + 1))" "good (xs ! (2 * h + 2))" using less.prems(3) 1 by auto
    have "\<not> cmp (xs ! ?c) (xs ! (2 * h + 1))" "\<not> cmp (xs ! ?c) (xs ! (2 * h + 2))"
      using asym [OF g(2,1)] irrefl [OF g(1)] irrefl [OF g(2)] by (simp_all add: greater_child_def)
    then have "\<not> cmp (xs ! ?c) (xs ! i)" if "i < length xs" "0 < i" "heap_parent i = h" for i
      using that(3) heap_parent_iff [OF that(2), of h] by metis
    note m = moved [OF c(1-3) this]
    have l: "length (xs[h := xs ! ?c]) - ?c < length xs - h" "?c < length (xs[h := xs ! ?c])" using c(1,4) by simp_all
    have "sift_hole cmp (xs[h := xs ! ?c]) ?c = (ys, k)" using less.prems(4) sift_hole_inner [OF 1] by metis
    from less.hyps [OF l(1) conjunct1 [OF m] l(2) conjunct2 [OF m] this] show ?thesis .
  next
    case 2
    let ?c = "2 * h + 1"
    have ys: "ys = xs[h := xs ! ?c]" "k = ?c" using less.prems(4) by (auto simp: sift_hole_last [OF 2])
    have "\<not> cmp (xs ! ?c) (xs ! i)" if "i < length xs" "0 < i" "heap_parent i = h" for i
      using that 2 heap_parent_iff [OF that(2)] irrefl less.prems(3) by auto
    moreover have "above_children cmp ys k v" using 2 heap_parent_iff ys by (auto simp: above_children_def)
    ultimately show ?thesis using moved [of ?c] ys 2 by simp
  next
    case 3
    then have "ys = xs" "k = h" using less.prems(4) by (simp_all add: sift_hole_leaf)
    moreover have "above_children cmp xs h v" unfolding above_children_def
    proof (intro allI impI)
      fix i assume "i < length xs" "0 < i \<and> heap_parent i = h"
      then show "\<not> cmp v (xs ! i)" using 3 heap_parent_iff [of i h] by auto
    qed
    ultimately show ?thesis using less.prems(1,3) by simp
  qed
qed

lemma adjust_heap_heap:
  assumes "hole_heap cmp xs h" "h < length xs" "\<forall>x \<in> set xs. good x" "good v"
  shows "is_heap cmp (adjust_heap cmp xs h v)"
proof -
  obtain ys k where s: "sift_hole cmp xs h = (ys, k)" by fastforce
  show ?thesis
    using sift_hole_heap [OF assms(1-3) s, of v] mset_sift_hole [OF assms(2) s] push_heap_at_heap [of ys k v] assms(4)
    by (simp add: adjust_heap_def s)
qed

lemma heap_front_greatest:
  assumes "is_heap cmp xs" "\<forall>x \<in> set xs. good x" "x \<in> set xs"
  shows "\<not> cmp (hd xs) x"
proof -
  have "\<not> cmp (xs ! 0) (xs ! i)" if "i < length xs" for i
    using that
  proof (induction i rule: less_induct)
    case (less i)
    show ?case
    proof (cases "i = 0")
      case True
      then show ?thesis using irrefl assms(2) less.prems by simp
    next
      case False
      then have "heap_parent i < i" by auto
      then have "\<not> cmp (xs ! 0) (xs ! heap_parent i)" "\<not> cmp (xs ! heap_parent i) (xs ! i)"
        using less assms(1) False by (auto simp: is_heap_def)
      then show ?thesis
        using negtrans [of "xs ! 0" "xs ! heap_parent i" "xs ! i"] assms(2) less.prems False nth_mem [of 0 xs] by fastforce
    qed
  qed
  then show ?thesis using assms(3) by (metis hd_conv_nth in_set_conv_nth list.size(3) less_nat_zero_code)
qed

text \<open>The class.\<close>

lemma heap_t_inv [simp]: "heap_inv cmp good heap_t" "heap_inv cmp good (heap_clear h)"
  by (simp_all add: heap_inv_def heap_t_def heap_clear_def is_heap_def)

lemma heap_empty_iff: "heap_inv cmp good h \<Longrightarrow> heap_empty h \<longleftrightarrow> buffer h = []"
  by (simp add: heap_inv_def heap_empty_def)

lemma heap_push_spec:
  assumes "heap_inv cmp good h" "good x"
  shows "heap_inv cmp good (heap_push cmp x h) \<and> mset (buffer (heap_push cmp x h)) = add_mset x (mset (buffer h))"
proof -
  have m: "mset (push_heap cmp (buffer h @ [x])) = add_mset x (mset (buffer h))" by simp
  have "length (push_heap cmp (buffer h @ [x])) = Suc (length (buffer h))" using mset_eq_length [of _ "x # buffer h"] m by simp
  moreover have "set (push_heap cmp (buffer h @ [x])) = insert x (set (buffer h))" using mset_eq_setD [of _ "x # buffer h"] m by simp
  ultimately show ?thesis
    using assms m push_heap_heap [of "buffer h @ [x]"] by (simp add: heap_inv_def heap_push_def del: mset_push_heap)
qed

lemma heap_top_spec: "heap_inv cmp good h \<Longrightarrow> buffer h \<noteq> [] \<Longrightarrow> \<exists>x. heap_top h = Some x \<and> x \<in> set (buffer h) \<and> (\<forall>y \<in> set (buffer h). \<not> cmp x y)"
  using heap_front_greatest by (auto simp: heap_inv_def heap_top_def)

lemma heap_pop_spec:
  assumes "heap_inv cmp good h" "buffer h \<noteq> []"
  shows "\<exists>x h'. heap_pop cmp h = Some (x, h') \<and> heap_top h = Some x \<and> heap_inv cmp good h' \<and> mset (buffer h) = add_mset x (mset (buffer h'))
    \<and> (\<forall>y \<in> set (buffer h). \<not> cmp x y)"
proof (cases "length (buffer h) \<le> 1")
  case True
  then obtain x where "buffer h = [x]" using assms(2) by (cases "buffer h") auto
  then show ?thesis using assms(1) irrefl by (auto simp: heap_pop_def pop_heap_def heap_top_def heap_inv_def is_heap_def Let_def)
next
  case False
  then obtain x mid l where b: "buffer h = x # mid @ [l]"
    by (cases "buffer h"; cases "tl (buffer h)" rule: rev_cases) auto
  let ?a = "adjust_heap cmp (x # mid) 0 l"
  have good: "\<forall>y \<in> set (x # mid). good y" "good l" using assms(1) b by (auto simp: heap_inv_def)
  have order: "\<not> cmp ((x # mid) ! heap_parent i) ((x # mid) ! i)" if "i < length (x # mid)" "0 < i" for i
  proof -
    have "\<not> cmp (((x # mid) @ [l]) ! heap_parent i) (((x # mid) @ [l]) ! i)" using assms(1) that b by (auto simp: heap_inv_def is_heap_def)
    then show ?thesis using that heap_parent_bound [OF that(2,1)] by (simp only: nth_append if_True not_False_eq_True)
  qed
  then have "hole_heap cmp (x # mid) 0" unfolding hole_heap_def by blast
  from adjust_heap_heap [OF this _ good] have h: "is_heap cmp ?a" by simp
  have m: "mset ?a = mset (l # mid)" by (simp add: mset_adjust_heap)
  have "set ?a = insert l (set mid)" "length ?a = Suc (length mid)" using mset_eq_setD [OF m] mset_eq_length [OF m] by simp_all
  moreover have "heap_pop cmp h = Some (x, h\<lparr>buffer := ?a, num_entries := num_entries h - 1\<rparr>)"
    using b by (simp add: heap_pop_def pop_heap_def butlast_append Let_def)
  ultimately show ?thesis
    using assms h m b good heap_front_greatest [of "buffer h"] by (auto simp: heap_inv_def heap_top_def)
qed

end

end
