(* ===== verification/Basis_Packing.thy ===== *)
theory Basis_Packing
  imports Prelude "HOL-Library.Word"
begin

text \<open>
  The packed basis of a branch-and-bound node, \<open>compress_vstatus\<close> and \<open>decompress_vstatus\<close> of
  \<open>dual_simplex/initial_basis.cpp\<close>: two bits for the status of a variable, four variables in a byte.
\<close>

unbundle bit_operations_syntax

section \<open>Operations\<close>

datatype variable_status = BASIC | NONBASIC_LOWER | NONBASIC_UPPER | NONBASIC_FREE | NONBASIC_FIXED | SUPERBASIC

fun encode :: "variable_status \<Rightarrow> 8 word" where
  "encode BASIC = 0"
| "encode NONBASIC_LOWER = 1"
| "encode NONBASIC_UPPER = 2"
| "encode NONBASIC_FIXED = 1"
| "encode _ = 3"

definition decode :: "8 word \<Rightarrow> variable_status" where
  "decode w = (let val = w AND 3 in
     if val = 0 then BASIC else if val = 1 then NONBASIC_LOWER else if val = 2 then NONBASIC_UPPER else NONBASIC_FREE)"

definition full_byte :: "variable_status list \<Rightarrow> nat \<Rightarrow> 8 word" where
  "full_byte vstatus j = 0 OR encode (vstatus ! j) OR push_bit 2 (encode (vstatus ! (j + 1)))
     OR push_bit 4 (encode (vstatus ! (j + 2))) OR push_bit 6 (encode (vstatus ! (j + 3)))"

definition tail_byte :: "variable_status list \<Rightarrow> nat \<Rightarrow> 8 word" where
  "tail_byte vstatus j =
     (let n = length vstatus; b = 0 OR encode (vstatus ! j);
          b = (if j + 1 < n then b OR push_bit 2 (encode (vstatus ! (j + 1))) else b);
          b = (if j + 2 < n then b OR push_bit 4 (encode (vstatus ! (j + 2))) else b)
      in if j + 3 < n then b OR push_bit 6 (encode (vstatus ! (j + 3))) else b)"

definition compress_vstatus :: "variable_status list \<Rightarrow> 8 word list" where
  "compress_vstatus vstatus =
     (let compressed_size = length vstatus div 4; has_tail = (if length vstatus mod 4 > 0 then 1 else 0);
          packed = for_range 0 compressed_size (\<lambda>i p. p[i := full_byte vstatus (i * 4)]) (replicate (compressed_size + has_tail) 0)
      in if has_tail = 1 then packed[compressed_size := tail_byte vstatus (compressed_size * 4)] else packed)"

definition unpack_full :: "8 word list \<Rightarrow> nat \<Rightarrow> variable_status list \<Rightarrow> variable_status list" where
  "unpack_full packed i vstatus =
     (let j = i * 4 in vstatus[j := decode (packed ! i), j + 1 := decode (drop_bit 2 (packed ! i)),
        j + 2 := decode (drop_bit 4 (packed ! i)), j + 3 := decode (drop_bit 6 (packed ! i))])"

definition unpack_tail :: "8 word list \<Rightarrow> nat \<Rightarrow> variable_status list \<Rightarrow> variable_status list" where
  "unpack_tail packed i vstatus =
     (let j = i * 4; n = length vstatus; v = vstatus[j := decode (packed ! i)];
          v = (if j + 1 < n then v[j + 1 := decode (drop_bit 2 (packed ! i))] else v);
          v = (if j + 2 < n then v[j + 2 := decode (drop_bit 4 (packed ! i))] else v)
      in if j + 3 < n then v[j + 3 := decode (drop_bit 6 (packed ! i))] else v)"

definition decompress_vstatus :: "8 word list \<Rightarrow> nat \<Rightarrow> variable_status list \<Rightarrow> variable_status list" where
  "decompress_vstatus packed vstatus_size vstatus =
     (let compressed_size = vstatus_size div 4;
          v = for_range 0 compressed_size (unpack_full packed) (vresize vstatus_size BASIC vstatus)
      in if vstatus_size mod 4 > 0 then unpack_tail packed compressed_size v else v)"

section \<open>Bytes\<close>

text \<open>The statuses that a basis can hold after a round trip: a fixed variable comes back at its lower bound.\<close>

fun unpacked_status :: "variable_status \<Rightarrow> variable_status" where
  "unpacked_status NONBASIC_FIXED = NONBASIC_LOWER"
| "unpacked_status SUPERBASIC = NONBASIC_FREE"
| "unpacked_status s = s"

lemma bits_of_small:
  "bit (3 :: 8 word) n \<longleftrightarrow> n < 2" "bit (2 :: 8 word) n \<longleftrightarrow> n = 1" "bit (1 :: 8 word) n \<longleftrightarrow> n = 0"
proof -
  have "bit (3 :: 8 word) n = bit (mask 2 :: 8 word) n" by (simp add: mask_eq_exp_minus_1)
  also have "\<dots> \<longleftrightarrow> n < 2" unfolding bit_mask_iff by auto
  finally show "bit (3 :: 8 word) n \<longleftrightarrow> n < 2" .
qed (auto simp: bit_2_iff bit_1_iff)

lemma decode_bits:
  "decode w = (if bit w 0 then if bit w 1 then NONBASIC_FREE else NONBASIC_LOWER else if bit w 1 then NONBASIC_UPPER else BASIC)"
proof -
  have "w AND 3 = (if bit w 0 then if bit w 1 then 3 else 1 else if bit w 1 then 2 else 0)"
  proof (rule bit_word_eqI)
    fix n :: nat
    have "n < 2 \<longleftrightarrow> n = 0 \<or> n = 1" by auto
    then show "bit (w AND 3) n = bit (if bit w 0 then if bit w 1 then 3 else 1 else if bit w 1 then 2 else 0 :: 8 word) n"
      using bits_of_small by (auto simp: bit_and_iff)
  qed
  then show ?thesis by (simp add: decode_def)
qed

lemma bit_encode:
  "bit (encode a) 0 \<longleftrightarrow> unpacked_status a \<in> {NONBASIC_LOWER, NONBASIC_FREE}" "bit (encode a) 1 \<longleftrightarrow> unpacked_status a \<in> {NONBASIC_UPPER, NONBASIC_FREE}"
  "bit (encode a) (Suc (Suc n)) \<longleftrightarrow> False"
  by (cases a; simp add: bits_of_small)+

text \<open>A byte as the four statuses it holds; the status of a missing variable is \<open>BASIC\<close>.\<close>

definition packed_byte :: "variable_status \<Rightarrow> variable_status \<Rightarrow> variable_status \<Rightarrow> variable_status \<Rightarrow> 8 word" where
  "packed_byte a b c d = encode a OR push_bit 2 (encode b) OR push_bit 4 (encode c) OR push_bit 6 (encode d)"

lemma decode_packed_byte [simp]:
  "decode (packed_byte a b c d) = unpacked_status a" "decode (drop_bit 2 (packed_byte a b c d)) = unpacked_status b"
  "decode (drop_bit 4 (packed_byte a b c d)) = unpacked_status c" "decode (drop_bit 6 (packed_byte a b c d)) = unpacked_status d"
proof -
  have status: "(if bit (encode s) 0 then if bit (encode s) 1 then NONBASIC_FREE else NONBASIC_LOWER
      else if bit (encode s) 1 then NONBASIC_UPPER else BASIC) = unpacked_status s" for s
    by (cases s) (simp_all add: bit_encode)
  have high: "\<not> bit (encode s) n" if "2 \<le> n" for s n
    using that bit_encode(3) [of s "n - 2"] by (simp add: numeral_2_eq_2 Suc_diff_Suc)
  show "decode (packed_byte a b c d) = unpacked_status a" "decode (drop_bit 2 (packed_byte a b c d)) = unpacked_status b"
    "decode (drop_bit 4 (packed_byte a b c d)) = unpacked_status c" "decode (drop_bit 6 (packed_byte a b c d)) = unpacked_status d"
    by (simp_all add: decode_bits packed_byte_def bit_drop_bit_eq bit_or_iff bit_push_bit_iff high flip: status)
qed

section \<open>Round trip\<close>

text \<open>The status at an index, \<open>BASIC\<close> beyond the end.\<close>

definition status_at :: "variable_status list \<Rightarrow> nat \<Rightarrow> variable_status" where
  "status_at v j = (if j < length v then v ! j else BASIC)"

lemma full_byte_packed:
  "j + 3 < length v \<Longrightarrow> full_byte v j = packed_byte (status_at v j) (status_at v (j + 1)) (status_at v (j + 2)) (status_at v (j + 3))"
  by (simp add: full_byte_def packed_byte_def status_at_def)

lemma tail_byte_packed:
  "j < length v \<Longrightarrow> tail_byte v j = packed_byte (status_at v j) (status_at v (j + 1)) (status_at v (j + 2)) (status_at v (j + 3))"
  by (simp add: tail_byte_def packed_byte_def status_at_def Let_def or.assoc)

lemma fold_writes:
  "n \<le> length p \<Longrightarrow> for_range 0 n (\<lambda>i p. p[i := f i]) p = map f [0..<n] @ drop n p"
proof (induction n)
  case (Suc n)
  then have "drop n p = p ! n # drop (Suc n) p" by (simp add: Cons_nth_drop_Suc)
  with Suc show ?case by (simp add: list_update_append)
qed simp

lemma compress_vstatus_nth:
  shows "length (compress_vstatus v) = (length v + 3) div 4"
    and "i < (length v + 3) div 4 \<Longrightarrow>
      compress_vstatus v ! i = packed_byte (status_at v (i * 4)) (status_at v (i * 4 + 1)) (status_at v (i * 4 + 2)) (status_at v (i * 4 + 3))"
proof -
  let ?c = "length v div 4"
  have p: "compress_vstatus v = map (\<lambda>i. full_byte v (i * 4)) [0..<?c] @ (if length v mod 4 > 0 then [tail_byte v (?c * 4)] else [])"
    by (simp add: compress_vstatus_def Let_def fold_writes list_update_append)
  show "length (compress_vstatus v) = (length v + 3) div 4" unfolding p by simp presburger
  assume i: "i < (length v + 3) div 4"
  show "compress_vstatus v ! i = packed_byte (status_at v (i * 4)) (status_at v (i * 4 + 1)) (status_at v (i * 4 + 2)) (status_at v (i * 4 + 3))"
  proof (cases "i < ?c")
    case True
    then show ?thesis unfolding p by (simp add: nth_append full_byte_packed)
  next
    case False
    have "length v = 4 * ?c + length v mod 4" "length v mod 4 < 4" by simp_all
    then have "i = ?c" "length v mod 4 > 0" "?c * 4 < length v" using i False by linarith+
    then show ?thesis unfolding p by (simp add: nth_append tail_byte_packed)
  qed
qed

lemma unpack_full_nth:
  assumes "i * 4 + 3 < length v" "j < length v"
  shows "unpack_full packed i v ! j = (if j div 4 = i then decode (drop_bit (2 * (j mod 4)) (packed ! i)) else v ! j)"
proof -
  consider "j < i * 4" | "j = i * 4" | "j = i * 4 + 1" | "j = i * 4 + 2" | "j = i * 4 + 3" | "i * 4 + 4 \<le> j" by linarith
  then show ?thesis using assms by cases (auto simp: unpack_full_def Let_def nth_list_update mod_Suc)
qed

lemma unpack_tail_nth:
  assumes "i * 4 < length v" "length v \<le> i * 4 + 3" "j < length v"
  shows "unpack_tail packed i v ! j = (if j div 4 = i then decode (drop_bit (2 * (j mod 4)) (packed ! i)) else v ! j)"
proof -
  consider "j < i * 4" | "j = i * 4" | "j = i * 4 + 1" | "j = i * 4 + 2" using assms by linarith
  then show ?thesis using assms by cases (auto simp: unpack_tail_def Let_def nth_list_update mod_Suc)
qed

lemma length_unpack [simp]: "length (unpack_full packed i v) = length v" "length (unpack_tail packed i v) = length v"
  by (simp_all add: unpack_full_def unpack_tail_def Let_def)

lemma unpack_loop:
  assumes "4 * c \<le> length v"
  shows "length (for_range 0 c (unpack_full packed) v) = length v
    \<and> (\<forall>j < length v. for_range 0 c (unpack_full packed) v ! j
         = (if j < 4 * c then decode (drop_bit (2 * (j mod 4)) (packed ! (j div 4))) else v ! j))"
  using assms
proof (induction c)
  case (Suc c)
  let ?w = "for_range 0 c (unpack_full packed) v"
  have "unpack_full packed c ?w ! j = (if j < 4 * Suc c then decode (drop_bit (2 * (j mod 4)) (packed ! (j div 4))) else v ! j)"
    if "j < length v" for j
  proof -
    have "j < 4 * Suc c \<longleftrightarrow> j < 4 * c \<or> j div 4 = c" by (simp add: div_less_iff_less_mult less_Suc_eq mult.commute) linarith
    then show ?thesis using unpack_full_nth [of c ?w j packed] Suc that by auto
  qed
  then show ?case using Suc by simp
qed simp

lemma decompress_vstatus_nth:
  shows "length (decompress_vstatus packed n v) = n"
    and "j < n \<Longrightarrow> decompress_vstatus packed n v ! j = decode (drop_bit (2 * (j mod 4)) (packed ! (j div 4)))"
proof -
  let ?c = "n div 4" and ?r = "vresize n BASIC v"
  let ?w = "for_range 0 ?c (unpack_full packed) ?r"
  have d: "n = 4 * ?c + n mod 4" "n mod 4 < 4" by simp_all
  note w = unpack_loop [of ?c ?r packed]
  show "length (decompress_vstatus packed n v) = n" using w by (simp add: decompress_vstatus_def Let_def)
  assume j: "j < n"
  show "decompress_vstatus packed n v ! j = decode (drop_bit (2 * (j mod 4)) (packed ! (j div 4)))"
  proof (cases "n mod 4 > 0")
    case True
    have "j < 4 * ?c \<or> j div 4 = ?c" using j d by linarith
    moreover have "unpack_tail packed ?c ?w ! j = (if j div 4 = ?c then decode (drop_bit (2 * (j mod 4)) (packed ! ?c)) else ?w ! j)"
    proof (rule unpack_tail_nth)
      have "length ?w = n" using w by simp
      then show "?c * 4 < length ?w" "length ?w \<le> ?c * 4 + 3" "j < length ?w" using True j d by linarith+
    qed
    ultimately show ?thesis using True w j by (auto simp: decompress_vstatus_def Let_def)
  next
    case False
    then show ?thesis using w j d by (simp add: decompress_vstatus_def Let_def)
  qed
qed

text \<open>
  C40. The packed basis loses nothing that a node needs: it takes a quarter of a byte per variable,
  rounded up, and unpacking it for the same number of variables gives every status back, where a
  fixed variable counts as one at its lower bound and a superbasic one, which the code excludes
  with an assertion, as free; what the target vector held before does not matter.
\<close>

theorem basis_packing_roundtrip:
  "length (compress_vstatus vstatus) = (length vstatus + 3) div 4
   \<and> decompress_vstatus (compress_vstatus vstatus) (length vstatus) old = map unpacked_status vstatus"
proof
  show "length (compress_vstatus vstatus) = (length vstatus + 3) div 4" by (rule compress_vstatus_nth)
  show "decompress_vstatus (compress_vstatus vstatus) (length vstatus) old = map unpacked_status vstatus"
  proof (rule nth_equalityI)
    fix j assume "j < length (decompress_vstatus (compress_vstatus vstatus) (length vstatus) old)"
    then have j: "j < length vstatus" by (simp add: decompress_vstatus_nth)
    then have b: "j div 4 < (length vstatus + 3) div 4" by linarith
    have e: "j div 4 * 4 + j mod 4 = j" by simp
    have "j mod 4 < 4" by simp
    then consider "j mod 4 = 0" | "j mod 4 = 1" | "j mod 4 = 2" | "j mod 4 = 3" by linarith
    then have "decode (drop_bit (2 * (j mod 4)) (compress_vstatus vstatus ! (j div 4))) = unpacked_status (status_at vstatus j)"
      unfolding compress_vstatus_nth(2) [OF b] by cases (use e in simp_all)
    then show "decompress_vstatus (compress_vstatus vstatus) (length vstatus) old ! j = map unpacked_status vstatus ! j"
      using j by (simp add: decompress_vstatus_nth status_at_def)
  qed (simp add: decompress_vstatus_nth)
qed

end
