(* ===== verification/Extended_Values.thy ===== *)
theory Extended_Values
  imports Complex_Main
begin

text \<open>
  Values of the bounds and activities of the host solvers: finite numbers, the two infinities and
  NaN, with the rules of IEEE 754 for them. Finite numbers are exact rationals, so roundings are
  not part of the model; comparisons with NaN are false.
\<close>

datatype xval = fin rat | pinf | ninf | nan

instantiation xval :: "{plus, minus, uminus, ord}"
begin

fun plus_xval :: "xval \<Rightarrow> xval \<Rightarrow> xval" where
  "fin a + fin b = fin (a + b)"
| "nan + _ = nan"
| "_ + nan = nan"
| "pinf + ninf = nan"
| "ninf + pinf = nan"
| "pinf + _ = pinf"
| "_ + pinf = pinf"
| "ninf + _ = ninf"
| "_ + ninf = ninf"

fun uminus_xval :: "xval \<Rightarrow> xval" where
  "- fin a = fin (- a)"
| "- pinf = ninf"
| "- ninf = pinf"
| "- nan = nan"

definition minus_xval :: "xval \<Rightarrow> xval \<Rightarrow> xval" where
  "a - b = a + (- b :: xval)"

fun less_xval :: "xval \<Rightarrow> xval \<Rightarrow> bool" where
  "fin a < fin b \<longleftrightarrow> a < b"
| "nan < _ \<longleftrightarrow> False"
| "_ < nan \<longleftrightarrow> False"
| "ninf < ninf \<longleftrightarrow> False"
| "ninf < _ \<longleftrightarrow> True"
| "_ < ninf \<longleftrightarrow> False"
| "pinf < _ \<longleftrightarrow> False"
| "_ < pinf \<longleftrightarrow> True"

definition less_eq_xval :: "xval \<Rightarrow> xval \<Rightarrow> bool" where
  "a \<le> b \<longleftrightarrow> a < b \<or> (a = b \<and> a \<noteq> (nan :: xval))"

instance ..

end

text \<open>A finite factor times a value, a value divided by a finite one; a zero divisor is positive zero.\<close>

fun xmul :: "rat \<Rightarrow> xval \<Rightarrow> xval" where
  "xmul a (fin b) = fin (a * b)"
| "xmul a pinf = (if a > 0 then pinf else if a < 0 then ninf else nan)"
| "xmul a ninf = (if a > 0 then ninf else if a < 0 then pinf else nan)"
| "xmul a nan = nan"

fun xdiv :: "xval \<Rightarrow> rat \<Rightarrow> xval" where
  "xdiv (fin b) a = (if a \<noteq> 0 then fin (b / a) else if b > 0 then pinf else if b < 0 then ninf else nan)"
| "xdiv pinf a = (if a < 0 then ninf else pinf)"
| "xdiv ninf a = (if a < 0 then pinf else ninf)"
| "xdiv nan a = nan"

text \<open>\<open>std::max\<close>, \<open>std::min\<close>, \<open>std::ceil\<close>, \<open>std::floor\<close>, \<open>std::abs\<close> and \<open>!=\<close>.\<close>

definition std_max :: "xval \<Rightarrow> xval \<Rightarrow> xval" where "std_max a b = (if a < b then b else a)"
definition std_min :: "xval \<Rightarrow> xval \<Rightarrow> xval" where "std_min a b = (if b < a then b else a)"

fun std_ceil :: "xval \<Rightarrow> xval" where
  "std_ceil (fin a) = fin (of_int \<lceil>a\<rceil>)"
| "std_ceil v = v"

fun std_floor :: "xval \<Rightarrow> xval" where
  "std_floor (fin a) = fin (of_int \<lfloor>a\<rfloor>)"
| "std_floor v = v"

fun std_abs :: "xval \<Rightarrow> xval" where
  "std_abs (fin a) = fin \<bar>a\<bar>"
| "std_abs ninf = pinf"
| "std_abs v = v"

definition xneq :: "xval \<Rightarrow> xval \<Rightarrow> bool" where "xneq a b \<longleftrightarrow> a = nan \<or> b = nan \<or> a \<noteq> b"

section \<open>Bounds of a number\<close>

definition lb_ok :: "xval \<Rightarrow> rat \<Rightarrow> bool" where
  "lb_ok v x \<longleftrightarrow> (case v of fin l \<Rightarrow> l \<le> x | ninf \<Rightarrow> True | _ \<Rightarrow> False)"

definition ub_ok :: "xval \<Rightarrow> rat \<Rightarrow> bool" where
  "ub_ok v x \<longleftrightarrow> (case v of fin u \<Rightarrow> x \<le> u | pinf \<Rightarrow> True | _ \<Rightarrow> False)"

named_theorems bound_simps \<open>evaluation of bounds\<close>

lemma lb_ok_simps [simp, bound_simps]: "lb_ok (fin l) x \<longleftrightarrow> l \<le> x" "lb_ok ninf x" "\<not> lb_ok pinf x" "\<not> lb_ok nan x"
  by (simp_all add: lb_ok_def)

lemma ub_ok_simps [simp, bound_simps]: "ub_ok (fin u) x \<longleftrightarrow> x \<le> u" "ub_ok pinf x" "\<not> ub_ok ninf x" "\<not> ub_ok nan x"
  by (simp_all add: ub_ok_def)

lemma lb_okE: assumes "lb_ok v x" obtains l where "v = fin l" "l \<le> x" | "v = ninf"
  using assms by (cases v) auto

lemma ub_okE: assumes "ub_ok v x" obtains u where "v = fin u" "x \<le> u" | "v = pinf"
  using assms by (cases v) auto

text \<open>A candidate that is NaN never replaces a bound; one that is a bound does so safely.\<close>

lemma std_max_lb: "lb_ok a x \<Longrightarrow> lb_ok b x \<or> b = nan \<Longrightarrow> lb_ok (std_max a b) x"
  by (cases a; cases b) (auto simp: std_max_def)

lemma std_min_ub: "ub_ok a x \<Longrightarrow> ub_ok b x \<or> b = nan \<Longrightarrow> ub_ok (std_min a b) x"
  by (cases a; cases b) (auto simp: std_min_def)

lemma bounds_cross: "lb_ok l x \<Longrightarrow> ub_ok u x \<Longrightarrow> \<not> u < l"
  by (cases l; cases u) auto

lemma bounds_cross_tol: "lb_ok l x \<Longrightarrow> ub_ok u x \<Longrightarrow> 0 \<le> t \<Longrightarrow> \<not> u + fin t < l"
  by (cases l; cases u) auto

lemma std_ceil_lb: "lb_ok v x \<Longrightarrow> 0 \<le> t \<Longrightarrow> x \<in> \<int> \<Longrightarrow> lb_ok (std_ceil (v - fin t)) x"
proof (cases v)
  case (fin l)
  assume a: "lb_ok v x" "0 \<le> t" "x \<in> \<int>"
  obtain k where "x = of_int k" using a(3) by (auto elim: Ints_cases)
  then show ?thesis using a fin by (simp add: minus_xval_def ceiling_le_iff)
qed (auto simp: minus_xval_def)

lemma std_floor_ub: "ub_ok v x \<Longrightarrow> 0 \<le> t \<Longrightarrow> x \<in> \<int> \<Longrightarrow> ub_ok (std_floor (v + fin t)) x"
proof (cases v)
  case (fin u)
  assume a: "ub_ok v x" "0 \<le> t" "x \<in> \<int>"
  obtain k where "x = of_int k" using a(3) by (auto elim: Ints_cases)
  then show ?thesis using a fin by (simp add: le_floor_iff)
qed auto

lemma std_min_same: "lb_ok l x \<Longrightarrow> ub_ok u x \<Longrightarrow> std_min l u = l" "lb_ok l x \<Longrightarrow> ub_ok u x \<Longrightarrow> std_max l u = u \<or> std_max l u = l \<and> l = u"
  using bounds_cross by (auto simp: std_min_def std_max_def) (cases l; cases u; auto)

end
