(* ===== verification/Mip_Node.thy ===== *)
theory Mip_Node
  imports Basis_Packing Extended_Values
begin

text \<open>
  The search tree of the branch and bound, \<open>mip_node_t\<close> and \<open>search_tree_t\<close> of
  \<open>branch_and_bound/mip_node.hpp\<close>. Nodes are linked by pointers in both directions and are freed while
  the search runs, so they live in an explicit memory: a pointer is an address, a dangling one has
  no node, and an operation that follows a dangling pointer, or that never ends, has no result. The
  root is at address 0. The addresses that \<open>std::make_unique\<close> returns are arguments. Node numbers and
  depths stay below \<open>2 ^ 31\<close> and are integers; a member that a constructor leaves uninitialised keeps
  what the memory held before.
\<close>

section \<open>Nodes\<close>

datatype node_status = PENDING | INTEGER_FEASIBLE | INFEASIBLE | FATHOMED | HAS_CHILDREN | NUMERICAL

definition inactive_status :: "node_status \<Rightarrow> bool" where
  "inactive_status st \<longleftrightarrow> st = FATHOMED \<or> st = INTEGER_FEASIBLE \<or> st = INFEASIBLE \<or> st = NUMERICAL"

datatype branch_direction = NONE | DOWN | UP

record mip_node =
  status :: node_status
  lower_bound :: xval
  objective_estimate :: xval
  depth :: int
  node_id :: int
  branch_var :: int
  branch_dir :: branch_direction
  branch_var_lower :: xval
  branch_var_upper :: xval
  fractional_val :: xval
  integer_infeasible :: int
  parent :: "nat option"
  down_child :: "nat option"
  up_child :: "nat option"
  num_children :: int
  packed_vstatus :: "8 word list"
  can_dive :: bool
  orbital_fix_zero :: "int list"
  orbital_fix_one :: "int list"
  origin_worker_id :: "32 word"
  creation_seq :: "32 word"

type_synonym node_memory = "nat \<rightharpoonup> mip_node"
type_synonym bounds = "xval list \<times> xval list \<times> bool list"

text \<open>The members with a default initialiser, common to the three constructors.\<close>

definition default_members :: "mip_node \<Rightarrow> mip_node" where
  "default_members raw = raw\<lparr>can_dive := True, orbital_fix_zero := [], orbital_fix_one := [],
     origin_worker_id := - 1, creation_seq := - 1, down_child := None, up_child := None, num_children := 0\<rparr>"

definition mip_node_default :: "mip_node \<Rightarrow> mip_node" where
  "mip_node_default raw = (default_members raw)\<lparr>status := PENDING, lower_bound := ninf, depth := 0, parent := None, node_id := 0,
     branch_var := - 1, branch_dir := NONE, branch_var_lower := ninf, branch_var_upper := pinf, fractional_val := pinf,
     objective_estimate := pinf, packed_vstatus := []\<rparr>"

definition mip_node_root :: "xval \<Rightarrow> variable_status list \<Rightarrow> mip_node \<Rightarrow> mip_node" where
  "mip_node_root root_lower_bound basis raw =
     (default_members raw)\<lparr>status := PENDING, lower_bound := root_lower_bound, depth := 0, parent := None, node_id := 0,
       branch_var := - 1, branch_dir := NONE, integer_infeasible := - 1, objective_estimate := pinf,
       packed_vstatus := compress_vstatus basis\<rparr>"

definition mip_node_child ::
    "xval list \<Rightarrow> xval list \<Rightarrow> nat \<Rightarrow> mip_node \<Rightarrow> int \<Rightarrow> nat \<Rightarrow> branch_direction \<Rightarrow> xval \<Rightarrow> int \<Rightarrow> variable_status list \<Rightarrow> mip_node" where
  "mip_node_child lower upper parent_ptr parent_node node_num branch_variable branch_direction branch_var_value integer_inf basis =
     \<lparr>status = PENDING, lower_bound = lower_bound parent_node, objective_estimate = objective_estimate parent_node,
      depth = depth parent_node + 1, node_id = node_num, branch_var = int branch_variable, branch_dir = branch_direction,
      branch_var_lower = (if branch_direction = DOWN then lower ! branch_variable else std_ceil branch_var_value),
      branch_var_upper = (if branch_direction = DOWN then std_floor branch_var_value else upper ! branch_variable),
      fractional_val = branch_var_value, integer_infeasible = integer_inf, parent = Some parent_ptr, down_child = None,
      up_child = None, num_children = 0, packed_vstatus = compress_vstatus basis, can_dive = True, orbital_fix_zero = [],
      orbital_fix_one = [], origin_worker_id = - 1, creation_seq = - 1\<rparr>"

definition detach_copy :: "mip_node \<Rightarrow> mip_node \<Rightarrow> mip_node" where
  "detach_copy n raw =
     (mip_node_default raw)\<lparr>lower_bound := lower_bound n, objective_estimate := objective_estimate n, depth := depth n,
       node_id := node_id n, integer_infeasible := integer_infeasible n, packed_vstatus := packed_vstatus n,
       branch_var := branch_var n, branch_dir := branch_dir n, branch_var_lower := branch_var_lower n,
       branch_var_upper := branch_var_upper n, fractional_val := fractional_val n, parent := None, down_child := None,
       up_child := None, status := PENDING, orbital_fix_zero := orbital_fix_zero n, orbital_fix_one := orbital_fix_one n,
       origin_worker_id := origin_worker_id n, creation_seq := creation_seq n\<rparr>"

section \<open>Bounds of a node\<close>

definition update_branched_variable_bounds :: "mip_node \<Rightarrow> bounds \<Rightarrow> bounds" where
  "update_branched_variable_bounds n b =
     (case b of (lower, upper, bounds_changed) \<Rightarrow>
        let v = nat (branch_var n)
        in if parent n = None \<or> bounds_changed ! v then b
           else (lower[v := branch_var_lower n], upper[v := branch_var_upper n], bounds_changed[v := True]))"

partial_function (option) climb_bounds :: "node_memory \<Rightarrow> nat option \<Rightarrow> bounds \<Rightarrow> bounds option" where
  "climb_bounds mem parent_ptr b =
     (case parent_ptr of None \<Rightarrow> Some b
      | Some p \<Rightarrow> (case mem p of None \<Rightarrow> None
          | Some n \<Rightarrow> if node_id n = 0 then Some b else climb_bounds mem (parent n) (update_branched_variable_bounds n b)))"

declare climb_bounds.simps [code]

definition get_variable_bounds :: "node_memory \<Rightarrow> mip_node \<Rightarrow> bounds \<Rightarrow> bounds option" where
  "get_variable_bounds mem n b = climb_bounds mem (parent n) (update_branched_variable_bounds n b)"

section \<open>Freeing nodes\<close>

text \<open>
  The destructor rotates a subtree into a chain to the right while it deletes the nodes without a
  left child; \<open>reset\<close> of a child pointer deletes the child.
\<close>

partial_function (option) destroy_chain :: "node_memory \<Rightarrow> nat option \<Rightarrow> node_memory option" where
  "destroy_chain mem node =
     (case node of None \<Rightarrow> Some mem
      | Some a \<Rightarrow> (case mem a of None \<Rightarrow> None
          | Some n \<Rightarrow> (case down_child n of
              Some left \<Rightarrow> (case mem left of None \<Rightarrow> None
                | Some l \<Rightarrow> destroy_chain (mem(a \<mapsto> n\<lparr>down_child := up_child l\<rparr>, left \<mapsto> l\<lparr>up_child := Some a\<rparr>)) (Some left))
            | None \<Rightarrow> destroy_chain (mem(a := None)) (up_child n))))"

declare destroy_chain.simps [code]

definition delete_node :: "node_memory \<Rightarrow> nat option \<Rightarrow> node_memory option" where
  "delete_node mem node =
     (case node of None \<Rightarrow> Some mem
      | Some a \<Rightarrow> (case mem a of None \<Rightarrow> None
          | Some n \<Rightarrow> Option.bind (destroy_chain mem (down_child n)) (\<lambda>mem.
                       Option.bind (destroy_chain mem (up_child n)) (\<lambda>mem. Some (mem(a := None))))))"

section \<open>Status of a node\<close>

partial_function (option) retire :: "node_memory \<Rightarrow> nat option \<Rightarrow> node_memory option" where
  "retire mem parent_ptr =
     (case parent_ptr of None \<Rightarrow> Some mem
      | Some p \<Rightarrow> (case mem p of None \<Rightarrow> None
          | Some n \<Rightarrow> if num_children n \<noteq> 1 then Some (mem(p \<mapsto> n\<lparr>num_children := num_children n - 1\<rparr>))
              else (case (Option.bind (down_child n) mem, Option.bind (up_child n) mem) of
                  (Some d, Some u) \<Rightarrow>
                    Option.bind (delete_node (mem(p \<mapsto> n\<lparr>num_children := 0, status := FATHOMED,
                        lower_bound := std_min (lower_bound d) (lower_bound u), down_child := None, up_child := None\<rparr>)) (down_child n)) (\<lambda>mem.
                    Option.bind (delete_node mem (up_child n)) (\<lambda>mem. retire mem (parent n)))
                | _ \<Rightarrow> None)))"

declare retire.simps [code]

definition set_node_status :: "node_memory \<Rightarrow> nat \<Rightarrow> node_status \<Rightarrow> node_memory option" where
  "set_node_status mem a st =
     (case mem a of None \<Rightarrow> None
      | Some n \<Rightarrow> let mem = mem(a \<mapsto> n\<lparr>status := st\<rparr>) in if inactive_status st then retire mem (parent n) else Some mem)"

section \<open>The tree\<close>

record search_tree =
  nodes :: node_memory
  num_nodes :: int

definition search_tree_t :: "mip_node \<Rightarrow> search_tree" where
  "search_tree_t root_node = \<lparr>nodes = [0 \<mapsto> root_node], num_nodes = 0\<rparr>"

definition add_children :: "node_memory \<Rightarrow> nat \<Rightarrow> mip_node \<Rightarrow> nat \<Rightarrow> nat \<Rightarrow> node_memory" where
  "add_children mem a n down up = mem(a \<mapsto> n\<lparr>down_child := Some down, up_child := Some up, packed_vstatus := [], num_children := 2\<rparr>)"

definition branch ::
    "nat \<Rightarrow> nat \<Rightarrow> nat \<Rightarrow> nat \<Rightarrow> xval \<Rightarrow> int \<Rightarrow> variable_status list \<Rightarrow> xval list \<Rightarrow> xval list \<Rightarrow> search_tree \<Rightarrow> search_tree option" where
  "branch parent_node down up branch_variable frac_val integer_inf parent_vstatus lower upper t =
     (case nodes t parent_node of None \<Rightarrow> None
      | Some n \<Rightarrow>
        let id = num_nodes t;
            mem = (nodes t)(down \<mapsto> mip_node_child lower upper parent_node n (id + 1) branch_variable DOWN frac_val integer_inf parent_vstatus,
                            up \<mapsto> mip_node_child lower upper parent_node n (id + 2) branch_variable UP frac_val integer_inf parent_vstatus)
        in Some (t\<lparr>nodes := add_children mem parent_node n down up, num_nodes := id + 2\<rparr>))"

section \<open>Identification\<close>

definition get_id_packed :: "mip_node \<Rightarrow> 64 word" where
  "get_id_packed n = push_bit 32 (scast (origin_worker_id n + 1)) OR ucast (creation_seq n)"

text \<open>The FNV-1a hash of \<open>utilities/hashing.hpp\<close> over the bytes of the values, lowest byte first.\<close>

definition little_endian :: "64 word \<Rightarrow> 8 word list" where
  "little_endian w = map (\<lambda>k. ucast (drop_bit (8 * k) w)) [0..<8]"

definition compute_hash :: "64 word list \<Rightarrow> 32 word" where
  "compute_hash h_contents =
     fold (\<lambda>byte hash. (hash XOR ucast byte) * 16777619) (concat (map little_endian h_contents)) 2166136261"

definition path_step :: "mip_node \<Rightarrow> 64 word" where
  "path_step n = push_bit 1 (word_of_int (branch_var n)) OR (if branch_dir n = UP then 1 else 0)"

partial_function (option) path_steps :: "node_memory \<Rightarrow> nat option \<Rightarrow> 64 word list \<Rightarrow> 64 word list option" where
  "path_steps mem node acc =
     (case node of None \<Rightarrow> Some acc
      | Some a \<Rightarrow> (case mem a of None \<Rightarrow> None
          | Some n \<Rightarrow> if branch_var n < 0 then Some acc else path_steps mem (parent n) (acc @ [path_step n])))"

definition compute_path_hash :: "node_memory \<Rightarrow> nat \<Rightarrow> 32 word option" where
  "compute_path_hash mem a = map_option compute_hash (path_steps mem (Some a) [])"

end
