(* ===== verification/Mip_Tree.thy ===== *)
theory Mip_Tree
  imports Mip_Node "HOL-Library.Tree"
begin

text \<open>
  The search tree keeps its shape: parent and child pointers agree, the counter of a node is the
  number of its active children, and a node with children is active. Branching and changing a
  status keep this, free only nodes whose whole subtree is finished, and leave the bounds of
  every other node as they were.
\<close>

section \<open>Shape\<close>

definition node_links :: "node_memory \<Rightarrow> nat \<Rightarrow> mip_node \<Rightarrow> bool" where
  "node_links mem a n \<longleftrightarrow>
     (case parent n of None \<Rightarrow> a = 0 \<and> node_id n = 0
      | Some p \<Rightarrow> node_id n \<noteq> 0 \<and> a \<noteq> 0 \<and> (\<exists>m. mem p = Some m \<and> depth n = depth m + 1 \<and> (down_child m = Some a \<or> up_child m = Some a)))"

definition node_children :: "node_memory \<Rightarrow> nat \<Rightarrow> mip_node \<Rightarrow> int \<Rightarrow> bool" where
  "node_children mem a n k \<longleftrightarrow>
     (case (down_child n, up_child n) of
        (None, None) \<Rightarrow> k = 0
      | (Some d, Some u) \<Rightarrow> d \<noteq> u \<and> \<not> inactive_status (status n) \<and> (\<exists>dn un. mem d = Some dn \<and> mem u = Some un
          \<and> parent dn = Some a \<and> parent un = Some a
          \<and> k = of_bool (\<not> inactive_status (status dn)) + of_bool (\<not> inactive_status (status un)))
      | _ \<Rightarrow> False)"

text \<open>
  The shape, with a node whose counter is still to be decremented: \<open>due\<close> is the parent of the node
  that has just finished.
\<close>

definition tree_due :: "nat option \<Rightarrow> node_memory \<Rightarrow> bool" where
  "tree_due due mem \<longleftrightarrow> finite (dom mem) \<and> (\<exists>r. mem 0 = Some r)
     \<and> (\<forall>a n. mem a = Some n \<longrightarrow> 0 \<le> depth n \<and> node_links mem a n
          \<and> node_children mem a n (num_children n - of_bool (due = Some a))
          \<and> (down_child n \<noteq> None \<longrightarrow> 0 < num_children n))
     \<and> (\<forall>p. due = Some p \<longrightarrow> (\<exists>n. mem p = Some n \<and> down_child n \<noteq> None))"

abbreviation tree_ok :: "node_memory \<Rightarrow> bool" where "tree_ok \<equiv> tree_due None"

lemma tree_due_D:
  assumes "tree_due due mem" "mem a = Some n"
  shows "0 \<le> depth n" "node_links mem a n" "node_children mem a n (num_children n - of_bool (due = Some a))"
    "down_child n \<noteq> None \<Longrightarrow> 0 < num_children n"
  using assms unfolding tree_due_def by blast+

lemma tree_due_root:
  assumes "tree_due due mem"
  obtains r where "mem 0 = Some r" "parent r = None" "node_id r = 0"
proof -
  obtain r where r: "mem 0 = Some r" using assms unfolding tree_due_def by blast
  then have "parent r = None \<and> node_id r = 0" using tree_due_D(2) [OF assms r] by (auto simp: node_links_def split: option.splits)
  then show thesis using that r by blast
qed

lemma tree_due_parent:
  assumes "tree_due due mem" "mem a = Some n" "parent n = Some p"
  obtains m where "mem p = Some m" "depth n = depth m + 1" "down_child m = Some a \<or> up_child m = Some a" "node_id n \<noteq> 0" "a \<noteq> 0"
  using tree_due_D(2) [OF assms(1,2)] assms(3) that by (auto simp: node_links_def)

lemma node_children_cases:
  assumes "node_children mem a n k"
  obtains (leaf) "down_child n = None" "up_child n = None" "k = 0"
  | (inner) d u dn un where "down_child n = Some d" "up_child n = Some u" "d \<noteq> u" "\<not> inactive_status (status n)"
      "mem d = Some dn" "mem u = Some un" "parent dn = Some a" "parent un = Some a"
      "k = of_bool (\<not> inactive_status (status dn)) + of_bool (\<not> inactive_status (status un))"
  using assms by (auto simp: node_children_def split: option.splits)

text \<open>Induction along the parents.\<close>

lemma parent_induct [consumes 2, case_names node]:
  assumes "tree_due due mem" "mem a = Some n"
    and step: "\<And>a n. mem a = Some n \<Longrightarrow> (\<And>p m. parent n = Some p \<Longrightarrow> mem p = Some m \<Longrightarrow> P p m) \<Longrightarrow> P a n"
  shows "P a n"
  using assms(2)
proof (induction "nat (depth n)" arbitrary: a n rule: less_induct)
  case less
  show ?case
  proof (rule step [OF less.prems])
    fix p m assume p: "parent n = Some p" "mem p = Some m"
    from tree_due_parent [OF assms(1) less.prems p(1)] p(2) have "depth n = depth m + 1" by auto
    then show "P p m" using less.hyps [OF _ p(2)] tree_due_D(1) [OF assms(1) p(2)] by simp
  qed
qed

text \<open>A node is the parent of its children only.\<close>

lemma child_parent:
  assumes "tree_due due mem" "mem p = Some m" "down_child m = Some a \<or> up_child m = Some a"
  obtains n where "mem a = Some n" "parent n = Some p"
  using tree_due_D(3) [OF assms(1,2)] assms(3) that by (cases rule: node_children_cases) auto

lemma node_not_own_child:
  assumes "tree_due due mem" "mem p = Some m"
  shows "down_child m \<noteq> Some p" "up_child m \<noteq> Some p"
proof -
  have "parent m \<noteq> Some p" using tree_due_parent [OF assms] assms(2) by fastforce
  then show "down_child m \<noteq> Some p" "up_child m \<noteq> Some p" using child_parent [OF assms] assms(2) by (metis option.inject)+
qed

section \<open>Open leaves\<close>

text \<open>What is left to do: the active nodes without children.\<close>

definition open_leaf :: "node_memory \<Rightarrow> nat \<Rightarrow> bool" where
  "open_leaf mem a \<longleftrightarrow> (\<exists>n. mem a = Some n \<and> \<not> inactive_status (status n) \<and> down_child n = None)"

lemma root_finished_iff:
  assumes t: "tree_ok mem" and r: "mem 0 = Some r"
  shows "inactive_status (status r) \<longleftrightarrow> (\<forall>a. \<not> open_leaf mem a)"
proof
  assume i: "inactive_status (status r)"
  have nochild: "down_child r = None" "up_child r = None"
    using tree_due_D(3) [OF t r] i by (cases rule: node_children_cases; simp)+
  have "a = 0" if "mem a = Some n" for a n
    using t that
  proof (induction rule: parent_induct)
    case (node a n)
    show ?case
    proof (cases "parent n")
      case None
      then show ?thesis using tree_due_D(2) [OF t node.hyps] by (simp add: node_links_def)
    next
      case (Some p)
      from tree_due_parent [OF t node.hyps Some] obtain m where m: "mem p = Some m" "down_child m = Some a \<or> up_child m = Some a" by blast
      then show ?thesis using node.IH [OF Some m(1)] r nochild by auto
    qed
  qed
  then show "\<forall>a. \<not> open_leaf mem a" using i r by (fastforce simp: open_leaf_def)
next
  assume none: "\<forall>a. \<not> open_leaf mem a"
  show "inactive_status (status r)"
  proof (rule ccontr)
    assume act: "\<not> inactive_status (status r)"
    define S where "S = {a. \<exists>n. mem a = Some n \<and> \<not> inactive_status (status n)}"
    have "finite (dom mem)" using t unfolding tree_due_def by blast
    then have fin: "finite S" by (rule finite_subset [rotated]) (auto simp: S_def)
    have "0 \<in> S" using act r by (simp add: S_def)
    let ?D = "(\<lambda>a. depth (the (mem a))) ` S"
    have "Max ?D \<in> ?D" using \<open>0 \<in> S\<close> fin by (intro Max_in) auto
    then obtain a where "a \<in> S" "depth (the (mem a)) = Max ?D" by auto
    then have a: "a \<in> S" "\<And>b. b \<in> S \<Longrightarrow> depth (the (mem b)) \<le> depth (the (mem a))" using fin by (auto intro: Max_ge)
    then obtain n where n: "mem a = Some n" "\<not> inactive_status (status n)" by (auto simp: S_def)
    then have "down_child n \<noteq> None" using none by (auto simp: open_leaf_def)
    from tree_due_D(3) [OF t n(1)] tree_due_D(4) [OF t n(1) this] this
    obtain c cn where c: "mem c = Some cn" "parent cn = Some a" "\<not> inactive_status (status cn)"
      by (cases rule: node_children_cases) (auto simp: of_bool_def split: if_splits)
    from tree_due_parent [OF t c(1,2)] n have "depth cn = depth n + 1" by auto
    then show False using a(2) [of c] c n by (simp add: S_def)
  qed
qed

section \<open>The destructor\<close>

text \<open>A pointer to a finite tree of distinct nodes, given by their addresses.\<close>

primrec subtree :: "node_memory \<Rightarrow> nat tree \<Rightarrow> nat option \<Rightarrow> bool" where
  "subtree mem Leaf p \<longleftrightarrow> p = None"
| "subtree mem (Node l a r) p \<longleftrightarrow> p = Some a \<and> (\<exists>n. mem a = Some n \<and> subtree mem l (down_child n) \<and> subtree mem r (up_child n))"

lemma subtree_cong: "(\<And>a. a \<in> set_tree t \<Longrightarrow> mem a = mem' a) \<Longrightarrow> subtree mem t p = subtree mem' t p"
  by (induction t arbitrary: p) auto

lemma subtree_upd [simp]: "a \<notin> set_tree t \<Longrightarrow> subtree (mem(a := v)) t p = subtree mem t p"
  by (rule subtree_cong) auto

lemma left_le: "size (left t) \<le> size t"
  by (cases t) auto

lemma destroy_chain_subtree:
  assumes "subtree mem t p" "distinct (inorder t)"
  shows "destroy_chain mem p = Some (mem |` (- set_tree t))"
  using assms
proof (induction "size t * size t + size (left t)" arbitrary: t mem p rule: less_induct)
  case less
  show ?case
  proof (cases t)
    case Leaf
    then show ?thesis using less.prems by (simp add: destroy_chain.simps restrict_map_def)
  next
    case (Node l a r)
    then obtain n where n: "p = Some a" "mem a = Some n" "subtree mem l (down_child n)" "subtree mem r (up_child n)"
      using less.prems(1) by auto
    show ?thesis
    proof (cases l)
      case Leaf
      have "destroy_chain (mem(a := None)) (up_child n) = Some ((mem(a := None)) |` (- set_tree r))"
        using less.prems(2) n(4) Node Leaf left_le [of r] by (intro less.hyps) (auto simp: algebra_simps)
      moreover have "(mem(a := None)) |` (- set_tree r) = mem |` (- set_tree t)" using Node Leaf by (auto simp: restrict_map_def fun_eq_iff)
      ultimately show ?thesis using n Leaf by (subst destroy_chain.simps) simp
    next
      case l: (Node A b B)
      then obtain m where m: "down_child n = Some b" "mem b = Some m" "subtree mem A (down_child m)" "subtree mem B (up_child m)"
        using n(3) by auto
      let ?t = "Node A b (Node B a r)" and ?mem = "mem(a \<mapsto> n\<lparr>down_child := up_child m\<rparr>, b \<mapsto> m\<lparr>up_child := Some a\<rparr>)"
      have d: "distinct (inorder ?t)" "a \<noteq> b" "a \<notin> set_tree A" "b \<notin> set_tree A" "a \<notin> set_tree B" "b \<notin> set_tree B" "a \<notin> set_tree r" "b \<notin> set_tree r"
        using less.prems(2) Node l by auto
      have "subtree ?mem ?t (Some b)" using n m d by auto
      from less.hyps [OF _ this d(1)] have "destroy_chain ?mem (Some b) = Some (?mem |` (- set_tree ?t))" using Node l by (simp add: add.assoc)
      moreover have "?mem |` (- set_tree ?t) = mem |` (- set_tree t)" using Node l by (auto simp: restrict_map_def fun_eq_iff)
      ultimately show ?thesis using n m by (subst destroy_chain.simps) simp
    qed
  qed
qed

lemma delete_node_subtree:
  assumes "subtree mem t p" "distinct (inorder t)"
  shows "delete_node mem p = Some (mem |` (- set_tree t))"
proof (cases t)
  case Leaf
  then show ?thesis using assms by (simp add: delete_node_def restrict_map_def)
next
  case (Node l a r)
  then obtain n where n: "p = Some a" "mem a = Some n" "subtree mem l (down_child n)" "subtree mem r (up_child n)" using assms(1) by auto
  have dis: "distinct (inorder l)" "distinct (inorder r)" "set_tree l \<inter> set_tree r = {}" using assms(2) Node by auto
  have "subtree (mem |` (- set_tree l)) r (up_child n)"
    using n(4) dis(3) by (subst subtree_cong [of r _ mem]) (auto simp: restrict_map_def)
  then show ?thesis
    using n Node destroy_chain_subtree [OF n(3) dis(1)] destroy_chain_subtree [OF _ dis(2)]
    by (auto simp: delete_node_def restrict_map_def fun_eq_iff)
qed

lemma delete_leaf: "mem a = Some n \<Longrightarrow> down_child n = None \<Longrightarrow> up_child n = None \<Longrightarrow> delete_node mem (Some a) = Some (mem(a := None))"
  using delete_node_subtree [of mem "Node Leaf a Leaf" "Some a"] by (auto simp: restrict_map_def fun_eq_iff)

section \<open>Finishing a node\<close>

text \<open>Where a node stands: what its own bounds and those of its descendants depend on.\<close>

definition node_place :: "mip_node \<Rightarrow> int \<times> nat option \<times> int \<times> int \<times> xval \<times> xval" where
  "node_place n = (node_id n, parent n, depth n, branch_var n, branch_var_lower n, branch_var_upper n)"

definition same_places :: "node_memory \<Rightarrow> node_memory \<Rightarrow> bool" where
  "same_places mem' mem \<longleftrightarrow> (\<forall>a n'. mem' a = Some n' \<longrightarrow> (\<exists>n. mem a = Some n \<and> node_place n = node_place n'))"

definition leaves_kept :: "node_memory \<Rightarrow> node_memory \<Rightarrow> bool" where
  "leaves_kept mem mem' \<longleftrightarrow> same_places mem' mem
     \<and> (\<forall>a. open_leaf mem' a = open_leaf mem a) \<and> (\<forall>a. open_leaf mem a \<longrightarrow> mem' a = mem a)"

lemma leaves_kept_trans: "leaves_kept mem1 mem2 \<Longrightarrow> leaves_kept mem2 mem3 \<Longrightarrow> leaves_kept mem1 mem3"
  unfolding leaves_kept_def same_places_def by metis

lemma retire_count:
  assumes t: "tree_due (Some p) mem" and n: "mem p = Some n" and k: "num_children n \<noteq> 1"
  shows "tree_ok (mem(p \<mapsto> n\<lparr>num_children := num_children n - 1\<rparr>)) \<and> leaves_kept mem (mem(p \<mapsto> n\<lparr>num_children := num_children n - 1\<rparr>))"
proof
  let ?mem = "mem(p \<mapsto> n\<lparr>num_children := num_children n - 1\<rparr>)"
  have links: "node_links ?mem a m" if "node_links mem a m'" "parent m = parent m'" "node_id m = node_id m'" "depth m = depth m'" for a m m'
    using that n by (auto simp: node_links_def split: option.splits)
  have children: "node_children ?mem a m k" if "node_children mem a m' k" "down_child m = down_child m'" "up_child m = up_child m'" "status m = status m'" for a m m' k
    using that(1)
  proof (cases rule: node_children_cases)
    case leaf
    then show ?thesis using that by (simp add: node_children_def)
  next
    case (inner d u dn un)
    then show ?thesis using that(2-4) n by (auto simp: node_children_def)
  qed
  obtain c where c: "down_child n = Some c" using t n unfolding tree_due_def by auto
  show "tree_ok ?mem"
    unfolding tree_due_def
  proof (intro conjI allI impI)
    show "finite (dom ?mem)" "\<exists>r. ?mem 0 = Some r" using t n by (auto simp: tree_due_def)
    fix a m assume m: "?mem a = Some m"
    then obtain m' where m': "mem a = Some m'" "m = (if a = p then n\<lparr>num_children := num_children n - 1\<rparr> else m')"
      using n by (auto split: if_splits)
    note d = tree_due_D [OF t m'(1)]
    show "0 \<le> depth m" using d(1) m' n by (auto split: if_splits)
    show "node_links ?mem a m" using links [OF d(2)] m' n by (auto split: if_splits)
    show "node_children ?mem a m (num_children m - of_bool (None = Some a))"
      using children [OF d(3), of m] m' n by (auto split: if_splits)
    assume "down_child m \<noteq> None"
    then show "0 < num_children m" using d(4) k m' n by (auto split: if_splits)
  qed simp
  show "leaves_kept mem ?mem"
    using n c by (auto simp: leaves_kept_def same_places_def node_place_def open_leaf_def)
qed

lemma inactive_no_children:
  assumes "tree_due due mem" "mem a = Some n" "inactive_status (status n)"
  shows "down_child n = None" "up_child n = None"
  using tree_due_D(3) [OF assms(1,2)] assms(3) by (cases rule: node_children_cases; simp)+

lemma retire_fathom:
  assumes t: "tree_due (Some p) mem" and n: "mem p = Some n" and k: "num_children n = 1"
  obtains d u dn un where "down_child n = Some d" "up_child n = Some u" "mem d = Some dn" "mem u = Some un"
    "\<And>n'. node_place n' = node_place n \<Longrightarrow> inactive_status (status n') \<Longrightarrow> down_child n' = None \<Longrightarrow> up_child n' = None \<Longrightarrow> num_children n' = 0 \<Longrightarrow>
       \<exists>mem1. delete_node (mem(p \<mapsto> n')) (Some d) = Some mem1 \<and> delete_node mem1 (Some u) = Some (mem(p \<mapsto> n', d := None, u := None))
       \<and> tree_due (parent n) (mem(p \<mapsto> n', d := None, u := None)) \<and> leaves_kept mem (mem(p \<mapsto> n', d := None, u := None))"
proof -
  obtain c where c: "down_child n = Some c" using t n unfolding tree_due_def by auto
  from tree_due_D(3) [OF t n] c k
  obtain d u dn un where du: "down_child n = Some d" "up_child n = Some u" "d \<noteq> u" "\<not> inactive_status (status n)"
    "mem d = Some dn" "mem u = Some un" "parent dn = Some p" "parent un = Some p" "inactive_status (status dn)" "inactive_status (status un)"
    by (cases rule: node_children_cases) (auto simp: of_bool_def split: if_splits)
  have leaf: "down_child dn = None" "up_child dn = None" "down_child un = None" "up_child un = None"
    using inactive_no_children [OF t du(5,9)] inactive_no_children [OF t du(6,10)] by auto
  have ne: "d \<noteq> p" "u \<noteq> p" "d \<noteq> 0" "u \<noteq> 0"
    using node_not_own_child [OF t n] du tree_due_parent [OF t du(5,7)] tree_due_parent [OF t du(6,8)] by auto
  show thesis
  proof (rule that [OF du(1,2,5,6)])
    fix n' assume n': "node_place n' = node_place n" "inactive_status (status n')" "down_child n' = None" "up_child n' = None" "num_children n' = 0"
    let ?mem = "mem(p \<mapsto> n', d := None, u := None)"
    have pl: "parent n' = parent n" "depth n' = depth n" "node_id n' = node_id n" using n'(1) by (auto simp: node_place_def)
    have del: "delete_node (mem(p \<mapsto> n')) (Some d) = Some (mem(p \<mapsto> n', d := None))"
      "delete_node (mem(p \<mapsto> n', d := None)) (Some u) = Some ?mem"
      using du leaf ne by (auto intro!: delete_leaf)
    have parent_stays: "?mem q = mem q" if "mem a = Some m" "parent m = Some q" "a \<noteq> d" "a \<noteq> u" for a m q
    proof -
      from tree_due_parent [OF t that(1,2)] obtain qn where qn: "mem q = Some qn" "down_child qn = Some a \<or> up_child qn = Some a" by blast
      then have "q \<noteq> p" "q \<noteq> d" "q \<noteq> u" using du leaf n that(3,4) by auto
      then show ?thesis by simp
    qed
    have others: "mem a = Some m \<Longrightarrow> ?mem a = Some m" if "a \<noteq> p" "a \<noteq> d" "a \<noteq> u" for a m using that by simp
    have "tree_due (parent n) ?mem"
      unfolding tree_due_def
    proof (intro conjI allI impI)
      show "finite (dom ?mem)" using t by (simp add: tree_due_def)
      show "\<exists>r. ?mem 0 = Some r" using t ne by (cases "p = 0") (auto simp: tree_due_def)
      {
        fix q assume q: "parent n = Some q"
        from tree_due_parent [OF t n q] obtain m where m: "mem q = Some m" "down_child m = Some p \<or> up_child m = Some p" by blast
        have "down_child m \<noteq> None" using tree_due_D(3) [OF t m(1)] m(2) by (cases rule: node_children_cases) auto
        then show "\<exists>m. ?mem q = Some m \<and> down_child m \<noteq> None" using parent_stays [OF n q] ne m by auto
      }
      fix a m assume "?mem a = Some m"
      then have a: "a \<noteq> d" "a \<noteq> u" "a = p \<and> m = n' \<or> a \<noteq> p \<and> mem a = Some m" by (auto split: if_splits)
      then obtain m' where m': "mem a = Some m'" "parent m = parent m'" "depth m = depth m'" "node_id m = node_id m'" using n pl by auto
      note dd = tree_due_D [OF t m'(1)]
      show "0 \<le> depth m" using dd(1) m' by simp
      show "node_links ?mem a m"
        using dd(2) m' parent_stays [OF m'(1) _ a(1,2)] unfolding node_links_def by (auto split: option.splits)
      show "node_children ?mem a m (num_children m - of_bool (parent n = Some a))"
      proof (cases "a = p")
        case True
        moreover have "parent n \<noteq> Some p" using tree_due_parent [OF t n] n by fastforce
        ultimately show ?thesis using a n' by (auto simp: node_children_def)
      next
        case False
        then have ma: "mem a = Some m" using a by blast
        have "node_children mem a m (num_children m)" using tree_due_D(3) [OF t ma] False by simp
        then show ?thesis
        proof (cases rule: node_children_cases)
          case leaf
          then have "parent n \<noteq> Some a" using tree_due_parent [OF t n] ma by fastforce
          then show ?thesis using leaf by (auto simp: node_children_def)
        next
          case (inner d' u' dn' un')
          then have nd: "d' \<noteq> d" "d' \<noteq> u" "u' \<noteq> d" "u' \<noteq> u" using du False by auto
          have "parent n = Some a \<longleftrightarrow> d' = p \<or> u' = p"
            using inner n tree_due_parent [OF t n, of a] ma by (auto; fastforce)
          then show ?thesis using inner nd n n' du(4) pl by (auto simp: node_children_def)
        qed
      qed
      assume "down_child m \<noteq> None"
      then show "0 < num_children m" using a n' tree_due_D(4) [OF t, of a m] by auto
    qed
    moreover have "leaves_kept mem ?mem"
      using n n' du ne by (auto simp: leaves_kept_def same_places_def open_leaf_def split: if_splits)
    ultimately show "\<exists>mem1. delete_node (mem(p \<mapsto> n')) (Some d) = Some mem1 \<and> delete_node mem1 (Some u) = Some ?mem \<and> tree_due (parent n) ?mem \<and> leaves_kept mem ?mem"
      using del by blast
  qed
qed

lemma retire_ok:
  assumes "tree_due p mem"
  shows "\<exists>mem'. retire mem p = Some mem' \<and> tree_ok mem' \<and> leaves_kept mem mem'"
proof (cases p)
  case None
  then show ?thesis using assms by (auto simp: retire.simps leaves_kept_def same_places_def)
next
  case (Some a)
  then obtain n where n: "mem a = Some n" using assms unfolding tree_due_def by blast
  show ?thesis using assms n unfolding Some
  proof (induction "nat (depth n)" arbitrary: a n mem rule: less_induct)
    case less
    show ?case
    proof (cases "num_children n = 1")
      case False
      then show ?thesis using retire_count [OF less.prems False] less.prems(2) by (subst retire.simps) auto
    next
      case True
      obtain d u dn un where f: "down_child n = Some d" "up_child n = Some u" "mem d = Some dn" "mem u = Some un"
        and step: "\<And>n'. node_place n' = node_place n \<Longrightarrow> inactive_status (status n') \<Longrightarrow> down_child n' = None \<Longrightarrow> up_child n' = None \<Longrightarrow> num_children n' = 0 \<Longrightarrow>
         \<exists>mem1. delete_node (mem(a \<mapsto> n')) (Some d) = Some mem1 \<and> delete_node mem1 (Some u) = Some (mem(a \<mapsto> n', d := None, u := None))
         \<and> tree_due (parent n) (mem(a \<mapsto> n', d := None, u := None)) \<and> leaves_kept mem (mem(a \<mapsto> n', d := None, u := None))"
        using retire_fathom [OF less.prems True] by blast
      define n' where "n' = n\<lparr>num_children := 0, status := FATHOMED, lower_bound := std_min (lower_bound dn) (lower_bound un), down_child := None, up_child := None\<rparr>"
      let ?mem = "mem(a \<mapsto> n', d := None, u := None)"
      obtain mem1 where m1: "delete_node (mem(a \<mapsto> n')) (Some d) = Some mem1" "delete_node mem1 (Some u) = Some ?mem"
        "tree_due (parent n) ?mem" "leaves_kept mem ?mem"
        using step [of n'] by (auto simp: n'_def node_place_def inactive_status_def)
      have r: "retire mem (Some a) = retire ?mem (parent n)"
        using less.prems(2) True f m1(1,2) by (subst retire.simps) (simp add: n'_def)
      show ?thesis
      proof (cases "parent n")
        case None
        then show ?thesis using r m1(3,4) by (auto simp: retire.simps)
      next
        case (Some q)
        then obtain m where m: "?mem q = Some m" using m1(3) unfolding tree_due_def by blast
        from tree_due_parent [OF less.prems Some] obtain m' where m': "mem q = Some m'" "depth n = depth m' + 1" by blast
        have "depth m = depth m'" using m1(4) m m' unfolding leaves_kept_def same_places_def by (force simp: node_place_def)
        then have "nat (depth m) < nat (depth n)" using m'(2) tree_due_D(1) [OF less.prems(1) m'(1)] by simp
        from less.hyps [OF this, of q ?mem] m1(3) m obtain mem' where "retire ?mem (Some q) = Some mem'" "tree_ok mem'" "leaves_kept ?mem mem'"
          unfolding Some by blast
        then show ?thesis using r Some leaves_kept_trans [OF m1(4)] by auto
      qed
    qed
  qed
qed

text \<open>A node may change its data, not its place, its children and whether it is active.\<close>

lemma tree_update_ok:
  assumes t: "tree_ok mem" and n: "mem a = Some n" and e: "node_place n' = node_place n" "down_child n' = down_child n" "up_child n' = up_child n"
    "num_children n' = num_children n" "inactive_status (status n') = inactive_status (status n)"
  shows "tree_ok (mem(a \<mapsto> n'))" "open_leaf (mem(a \<mapsto> n')) b = open_leaf mem b"
proof -
  let ?mem = "mem(a \<mapsto> n')"
  have pl: "parent n' = parent n" "node_id n' = node_id n" "depth n' = depth n" using e(1) by (auto simp: node_place_def)
  show "open_leaf ?mem b = open_leaf mem b" using n e by (auto simp: open_leaf_def)
  show "tree_ok ?mem"
    unfolding tree_due_def
  proof (intro conjI allI impI)
    show "finite (dom ?mem)" "\<exists>r. ?mem 0 = Some r" using t n by (auto simp: tree_due_def)
    fix b m assume "?mem b = Some m"
    then obtain m' where m': "mem b = Some m'" "m = (if b = a then n' else m')" using n by (auto split: if_splits)
    note d = tree_due_D [OF t m'(1)]
    have same: "parent m = parent m'" "node_id m = node_id m'" "depth m = depth m'" "down_child m = down_child m'" "up_child m = up_child m'"
      "num_children m = num_children m'" "inactive_status (status m) = inactive_status (status m')"
      using m' n pl e by auto
    show "0 \<le> depth m" "down_child m \<noteq> None \<Longrightarrow> 0 < num_children m" using d(1,4) same by auto
    show "node_links ?mem b m" using d(2) same n pl e by (auto simp: node_links_def split: option.splits)
    show "node_children ?mem b m (num_children m - of_bool (None = Some b))"
      using d(3)
    proof (cases rule: node_children_cases)
      case leaf
      then show ?thesis using same by (simp add: node_children_def)
    next
      case (inner du uu dn un)
      then show ?thesis using same n pl e by (auto simp: node_children_def)
    qed
  qed simp
qed

text \<open>The effect of finishing an open leaf: it is no longer open, and no other one is touched.\<close>

definition leaf_finished :: "nat \<Rightarrow> node_memory \<Rightarrow> node_memory \<Rightarrow> bool" where
  "leaf_finished a mem mem' \<longleftrightarrow> same_places mem' mem
     \<and> (\<forall>b. open_leaf mem' b \<longleftrightarrow> open_leaf mem b \<and> b \<noteq> a) \<and> (\<forall>b. open_leaf mem b \<and> b \<noteq> a \<longrightarrow> mem' b = mem b)"

lemma close_leaf_due:
  assumes t: "tree_ok mem" and n: "mem a = Some n" "\<not> inactive_status (status n)" "down_child n = None"
    and n': "node_place n' = node_place n" "inactive_status (status n')" "down_child n' = down_child n" "up_child n' = up_child n" "num_children n' = num_children n"
  shows "tree_due (parent n) (mem(a \<mapsto> n'))" "leaf_finished a mem (mem(a \<mapsto> n'))"
proof -
  let ?mem = "mem(a \<mapsto> n')"
  have pl: "parent n' = parent n" "node_id n' = node_id n" "depth n' = depth n" using n'(1) by (auto simp: node_place_def)
  have lf: "down_child n = None" "up_child n = None" "num_children n = 0" "parent n \<noteq> Some a"
  proof -
    show "down_child n = None" "up_child n = None" "num_children n = 0"
      using tree_due_D(3) [OF t n(1)] n(3) by (cases rule: node_children_cases; simp)+
    show "parent n \<noteq> Some a" using tree_due_parent [OF t n(1)] n(1) by fastforce
  qed
  show "leaf_finished a mem ?mem" using n n' by (auto simp: leaf_finished_def same_places_def open_leaf_def)
  show "tree_due (parent n) ?mem"
    unfolding tree_due_def
  proof (intro conjI allI impI)
    show "finite (dom ?mem)" "\<exists>r. ?mem 0 = Some r" using t n by (auto simp: tree_due_def)
    {
      fix q assume q: "parent n = Some q"
      from tree_due_parent [OF t n(1) q] obtain m where m: "mem q = Some m" "down_child m = Some a \<or> up_child m = Some a" by blast
      have "down_child m \<noteq> None" using tree_due_D(3) [OF t m(1)] m(2) by (cases rule: node_children_cases) auto
      then show "\<exists>m. ?mem q = Some m \<and> down_child m \<noteq> None" using m q lf(4) by auto
    }
    fix b m assume "?mem b = Some m"
    then obtain m' where m': "mem b = Some m'" "m = (if b = a then n' else m')" using n by (auto split: if_splits)
    note d = tree_due_D [OF t m'(1)]
    have same: "parent m = parent m'" "node_id m = node_id m'" "depth m = depth m'" "down_child m = down_child m'" "up_child m = up_child m'"
      "num_children m = num_children m'" using m' n pl n' by auto
    show "0 \<le> depth m" "down_child m \<noteq> None \<Longrightarrow> 0 < num_children m" using d(1,4) same by auto
    show "node_links ?mem b m" using d(2) same n pl n' by (auto simp: node_links_def split: option.splits)
    show "node_children ?mem b m (num_children m - of_bool (parent n = Some b))"
    proof (cases "b = a")
      case True
      then show ?thesis using m' n' lf by (auto simp: node_children_def)
    next
      case False
      then have mb: "mem b = Some m" "m' = m" using m' by auto
      from d(3) have "node_children mem b m (num_children m)" using mb by simp
      then show ?thesis
      proof (cases rule: node_children_cases)
        case leaf
        then have "parent n \<noteq> Some b" using tree_due_parent [OF t n(1)] mb by fastforce
        then show ?thesis using leaf by (simp add: node_children_def)
      next
        case (inner d' u' dn' un')
        have "parent n = Some b \<longleftrightarrow> d' = a \<or> u' = a"
          using inner n(1) tree_due_parent [OF t n(1), of b] mb by (auto; fastforce)
        then show ?thesis using inner n n' pl by (auto simp: node_children_def)
      qed
    qed
  qed
qed

lemma set_status_finish:
  assumes t: "tree_ok mem" and a: "open_leaf mem a" and st: "inactive_status st"
  shows "\<exists>mem'. set_node_status mem a st = Some mem' \<and> tree_ok mem' \<and> leaf_finished a mem mem'"
proof -
  obtain n where n: "mem a = Some n" "\<not> inactive_status (status n)" "down_child n = None" using a by (auto simp: open_leaf_def)
  let ?m = "mem(a \<mapsto> n\<lparr>status := st\<rparr>)"
  have c: "tree_due (parent n) ?m" "leaf_finished a mem ?m"
    using close_leaf_due [OF t n, of "n\<lparr>status := st\<rparr>"] st by (auto simp: node_place_def)
  obtain mem' where m': "retire ?m (parent n) = Some mem'" "tree_ok mem'" "leaves_kept ?m mem'" using retire_ok [OF c(1)] by blast
  have "leaf_finished a mem mem'" using c(2) m'(3) unfolding leaf_finished_def leaves_kept_def same_places_def by metis
  then show ?thesis using m' n st by (auto simp: set_node_status_def)
qed

section \<open>Branching\<close>

lemma branch_ok:
  assumes t: "tree_ok (nodes t)" and a: "open_leaf (nodes t) a" and new: "nodes t d = None" "nodes t u = None" "d \<noteq> u" and id: "0 \<le> num_nodes t"
  shows "\<exists>t' n dn un. branch a d u v f k vs lower upper t = Some t' \<and> tree_ok (nodes t') \<and> num_nodes t' = num_nodes t + 2
    \<and> nodes t a = Some n \<and> nodes t' d = Some dn \<and> dn = mip_node_child lower upper a n (num_nodes t + 1) v DOWN f k vs
    \<and> nodes t' u = Some un \<and> un = mip_node_child lower upper a n (num_nodes t + 2) v UP f k vs
    \<and> nodes t' a = Some (n\<lparr>down_child := Some d, up_child := Some u, packed_vstatus := [], num_children := 2\<rparr>)
    \<and> (\<forall>b. b \<notin> {a, d, u} \<longrightarrow> nodes t' b = nodes t b)"
proof -
  let ?mem = "nodes t"
  obtain n where n: "?mem a = Some n" "\<not> inactive_status (status n)" "down_child n = None" using a by (auto simp: open_leaf_def)
  let ?n = "n\<lparr>down_child := Some d, up_child := Some u, packed_vstatus := [], num_children := 2\<rparr>"
  let ?dn = "mip_node_child lower upper a n (num_nodes t + 1) v DOWN f k vs"
  let ?un = "mip_node_child lower upper a n (num_nodes t + 2) v UP f k vs"
  let ?m = "?mem(d \<mapsto> ?dn, u \<mapsto> ?un, a \<mapsto> ?n)"
  have ne: "a \<noteq> d" "a \<noteq> u" using n(1) new by auto
  obtain r where "?mem 0 = Some r" using t by (rule tree_due_root)
  then have zero: "d \<noteq> 0" "u \<noteq> 0" using new by (metis option.distinct(1))+
  have fields: "status ?dn = PENDING" "status ?un = PENDING" "parent ?dn = Some a" "parent ?un = Some a" "depth ?dn = depth n + 1" "depth ?un = depth n + 1"
    "node_id ?dn = num_nodes t + 1" "node_id ?un = num_nodes t + 2" "down_child ?dn = None" "up_child ?dn = None" "down_child ?un = None" "up_child ?un = None"
    "num_children ?dn = 0" "num_children ?un = 0"
    by (simp_all add: mip_node_child_def)
  have old: "\<exists>m'. ?m b = Some m' \<and> parent m' = parent m \<and> depth m' = depth m \<and> status m' = status m \<and> (m' = m \<or> b = a)" if "?mem b = Some m" for b m
    using that n new ne by auto
  have tree: "tree_ok ?m"
    unfolding tree_due_def
  proof (intro conjI allI impI)
    show "finite (dom ?m)" using t by (simp add: tree_due_def)
    show "\<exists>r. ?m 0 = Some r" using t by (auto simp: tree_due_def)
    fix b m assume m: "?m b = Some m"
    consider "b = a" "m = ?n" | "b = d" "m = ?dn" | "b = u" "m = ?un" | "b \<notin> {a, d, u}" "?mem b = Some m" using m ne new by (auto split: if_splits)
    then have "0 \<le> depth m \<and> node_links ?m b m \<and> node_children ?m b m (num_children m) \<and> (down_child m \<noteq> None \<longrightarrow> 0 < num_children m)"
    proof cases
      case 1
      have "node_links ?m a ?n"
      proof (cases "parent n")
        case None
        then show ?thesis using tree_due_D(2) [OF t n(1)] by (simp add: node_links_def)
      next
        case (Some q)
        from tree_due_parent [OF t n(1) Some] obtain m where m: "?mem q = Some m" "depth n = depth m + 1"
          "down_child m = Some a \<or> up_child m = Some a" "node_id n \<noteq> 0" "a \<noteq> 0" by blast
        have "q \<noteq> a" "q \<noteq> d" "q \<noteq> u" using m n(1) new by auto
        then have "?m q = Some m" using m(1) by simp
        then show ?thesis using Some m(2-5) by (simp add: node_links_def del: fun_upd_apply)
      qed
      moreover have "node_children ?m a ?n 2" using fields ne new n(2) by (simp add: node_children_def inactive_status_def)
      ultimately show ?thesis using 1 tree_due_D(1) [OF t n(1)] by simp
    next
      case 2
      then show ?thesis using tree_due_D(1) [OF t n(1)] fields ne id zero by (simp add: node_links_def node_children_def)
    next
      case 3
      then show ?thesis using tree_due_D(1) [OF t n(1)] fields ne id zero by (simp add: node_links_def node_children_def)
    next
      case 4
      note dd = tree_due_D [OF t 4(2)]
      have "node_links ?m b m"
      proof (cases "parent m")
        case None
        then show ?thesis using dd(2) by (simp add: node_links_def)
      next
        case (Some q)
        from tree_due_parent [OF t 4(2) Some] obtain qn where q: "?mem q = Some qn" "depth m = depth qn + 1"
          "down_child qn = Some b \<or> up_child qn = Some b" "node_id m \<noteq> 0" "b \<noteq> 0" by blast
        have "q \<noteq> a"
        proof
          assume "q = a"
          with q n have "qn = n" by simp
          then show False using q(3) n(3) tree_due_D(3) [OF t n(1)] by (auto elim!: node_children_cases)
        qed
        then show ?thesis using q Some new by (auto simp: node_links_def)
      qed
      moreover have "node_children ?m b m (num_children m)"
        using dd(3)
      proof (cases rule: node_children_cases)
        case leaf
        then show ?thesis by (simp add: node_children_def)
      next
        case (inner d' u' dn' un')
        obtain dm um where "?m d' = Some dm" "parent dm = Some b" "status dm = status dn'" "?m u' = Some um" "parent um = Some b" "status um = status un'"
          using old [OF inner(5)] old [OF inner(6)] inner(7,8) by auto
        then show ?thesis using inner by (simp add: node_children_def del: fun_upd_apply)
      qed
      ultimately show ?thesis using dd(1,4) by blast
    qed
    then show "0 \<le> depth m" "node_links ?m b m" "node_children ?m b m (num_children m - of_bool (None = Some b))" "down_child m \<noteq> None \<Longrightarrow> 0 < num_children m" by auto
  qed simp
  show ?thesis
    using n(1) tree ne new(3)
    by (intro exI [of _ "t\<lparr>nodes := ?m, num_nodes := num_nodes t + 2\<rparr>"] exI [of _ n] exI [of _ ?dn] exI [of _ ?un])
      (simp add: branch_def add_children_def Let_def)
qed

section \<open>Bounds of the nodes\<close>

lemma update_branched_place: "node_place n = node_place m \<Longrightarrow> update_branched_variable_bounds n b = update_branched_variable_bounds m b"
  by (auto simp: node_place_def update_branched_variable_bounds_def Let_def split: prod.splits)

lemma get_variable_bounds_climb:
  assumes "tree_due due mem" "mem a = Some n"
  shows "get_variable_bounds mem n b = climb_bounds mem (Some a) b"
proof (cases "parent n")
  case None
  then have "node_id n = 0" using tree_due_D(2) [OF assms] by (simp add: node_links_def)
  then show ?thesis using None assms(2) by (simp add: get_variable_bounds_def climb_bounds.simps update_branched_variable_bounds_def split: prod.splits)
next
  case (Some p)
  then have "node_id n \<noteq> 0" using tree_due_D(2) [OF assms] by (simp add: node_links_def)
  then show ?thesis using assms(2) by (simp add: get_variable_bounds_def climb_bounds.simps [of mem "Some a"])
qed

lemma climb_step:
  assumes "tree_due due mem" "mem a = Some n" "parent n = Some p"
  shows "climb_bounds mem (Some a) b = climb_bounds mem (Some p) (update_branched_variable_bounds n b)"
  using tree_due_parent [OF assms] assms by (subst climb_bounds.simps) auto

lemma climb_root: "tree_due due mem \<Longrightarrow> mem a = Some n \<Longrightarrow> parent n = None \<Longrightarrow> climb_bounds mem (Some a) b = Some b"
  using tree_due_D(2) [of due mem a n] by (subst climb_bounds.simps) (auto simp: node_links_def)

lemma length_update_branched:
  "update_branched_variable_bounds n (L, U, C) = (L', U', C') \<Longrightarrow> length L' = length L \<and> length U' = length U \<and> length C' = length C"
  by (auto simp: update_branched_variable_bounds_def Let_def split: if_splits)

lemma climb_total:
  assumes t: "tree_due due mem" and "mem a = Some n"
  shows "\<exists>L' U' C'. climb_bounds mem (Some a) (L, U, C) = Some (L', U', C') \<and> length L' = length L \<and> length U' = length U \<and> length C' = length C"
  using assms
proof (induction arbitrary: L U C rule: parent_induct)
  case (node a n)
  show ?case
  proof (cases "parent n")
    case None
    then show ?thesis using climb_root [OF t node.hyps] by simp
  next
    case (Some p)
    obtain m where m: "mem p = Some m" using tree_due_parent [OF t node.hyps Some] by blast
    obtain L1 U1 C1 where u: "update_branched_variable_bounds n (L, U, C) = (L1, U1, C1)" by (metis prod_cases3)
    show ?thesis using node.IH [OF Some m, of L1 U1 C1] climb_step [OF t node.hyps Some] u length_update_branched [OF u] by auto
  qed
qed

text \<open>A bound that is set first is not changed further up.\<close>

definition override :: "nat \<Rightarrow> xval \<Rightarrow> xval \<Rightarrow> bounds \<Rightarrow> bounds" where
  "override v x y b = (case b of (L, U, C) \<Rightarrow> (L[v := x], U[v := y], C[v := True]))"

lemma update_override:
  assumes "v < length C"
  shows "update_branched_variable_bounds n (override v x y (L, U, C)) = override v x y (update_branched_variable_bounds n (L, U, C))"
  using assms
  by (cases "nat (branch_var n) = v") (auto simp: override_def update_branched_variable_bounds_def Let_def list_update_swap)

lemma climb_override:
  assumes t: "tree_due due mem" and "mem a = Some n" and "v < length C"
  shows "climb_bounds mem (Some a) (override v x y (L, U, C)) = map_option (override v x y) (climb_bounds mem (Some a) (L, U, C))"
  using assms
proof (induction arbitrary: L U C rule: parent_induct)
  case (node a n)
  show ?case
  proof (cases "parent n")
    case None
    then show ?thesis using climb_root [OF t node.hyps] by simp
  next
    case (Some p)
    obtain m where m: "mem p = Some m" using tree_due_parent [OF t node.hyps Some] by blast
    obtain L1 U1 C1 where u: "update_branched_variable_bounds n (L, U, C) = (L1, U1, C1)" by (metis prod_cases3)
    show ?thesis
      using node.IH [OF Some m, of C1 L1 U1] climb_step [OF t node.hyps Some] u length_update_branched [OF u] update_override [OF node.prems] node.prems
      by simp
  qed
qed

definition node_box :: "node_memory \<Rightarrow> xval list \<Rightarrow> xval list \<Rightarrow> nat \<Rightarrow> (xval list \<times> xval list) option" where
  "node_box mem lower upper a =
     (case mem a of None \<Rightarrow> None
      | Some n \<Rightarrow> map_option (\<lambda>(l, u, _). (l, u)) (get_variable_bounds mem n (lower, upper, replicate (length lower) False)))"

lemma node_box_total:
  assumes "tree_due due mem" "mem a = Some n"
  obtains l u where "node_box mem lower upper a = Some (l, u)" "length l = length lower" "length u = length upper"
  using climb_total [OF assms, of lower upper "replicate (length lower) False"] assms that
  by (auto simp: node_box_def get_variable_bounds_climb)

lemma node_box_root: "tree_due due mem \<Longrightarrow> node_box mem lower upper 0 = Some (lower, upper)"
  by (erule tree_due_root) (simp add: node_box_def get_variable_bounds_def update_branched_variable_bounds_def climb_bounds.simps)

lemma node_box_child:
  assumes t: "tree_due due mem" and c: "mem c = Some n" "parent n = Some p" and v: "nat (branch_var n) < length lower"
  shows "node_box mem lower upper c
    = map_option (\<lambda>(l, u). (l[nat (branch_var n) := branch_var_lower n], u[nat (branch_var n) := branch_var_upper n])) (node_box mem lower upper p)"
proof -
  obtain m where m: "mem p = Some m" using tree_due_parent [OF t c] by blast
  let ?F = "replicate (length lower) False"
  have "update_branched_variable_bounds n (lower, upper, ?F) = override (nat (branch_var n)) (branch_var_lower n) (branch_var_upper n) (lower, upper, ?F)"
    using c(2) v by (simp add: update_branched_variable_bounds_def override_def Let_def)
  then have "climb_bounds mem (Some c) (lower, upper, ?F)
      = map_option (override (nat (branch_var n)) (branch_var_lower n) (branch_var_upper n)) (climb_bounds mem (Some p) (lower, upper, ?F))"
    using climb_step [OF t c] climb_override [OF t m, of "nat (branch_var n)" ?F] v by simp
  then show ?thesis
    by (auto simp: node_box_def c(1) m get_variable_bounds_climb [OF t c(1)] get_variable_bounds_climb [OF t m] override_def option.map_comp
        intro!: option.map_cong)
qed

lemma node_box_same:
  assumes t: "tree_due due mem'" "tree_due due' mem" and p: "same_places mem' mem" and a: "mem' a = Some n'"
  shows "node_box mem' lower upper a = node_box mem lower upper a"
proof -
  have "climb_bounds mem' (Some a) b = climb_bounds mem (Some a) b" for b
    using t(1) a
  proof (induction arbitrary: b rule: parent_induct)
    case (node a n')
    obtain n where n: "mem a = Some n" "node_place n = node_place n'" using p node.hyps unfolding same_places_def by blast
    then have pn: "parent n = parent n'" by (simp add: node_place_def)
    show ?case
    proof (cases "parent n'")
      case None
      then show ?thesis using climb_root [OF t(1) node.hyps] climb_root [OF t(2) n(1)] pn by simp
    next
      case (Some q)
      obtain m where "mem' q = Some m" using tree_due_parent [OF t(1) node.hyps Some] by blast
      then show ?thesis
        using node.IH [OF Some] climb_step [OF t(1) node.hyps Some] climb_step [OF t(2) n(1)] pn Some update_branched_place [OF n(2)] by simp
    qed
  qed
  moreover obtain n where "mem a = Some n" using p a unfolding same_places_def by blast
  ultimately show ?thesis using a by (simp add: node_box_def get_variable_bounds_climb [OF t(1) a] get_variable_bounds_climb [OF t(2)])
qed

lemma root_tree_ok:
  assumes "parent n = None" "node_id n = 0" "depth n = 0" "down_child n = None" "up_child n = None" "num_children n = 0" "\<not> inactive_status (status n)"
  shows "tree_ok [0 \<mapsto> n]" "open_leaf [0 \<mapsto> n] a \<longleftrightarrow> a = 0"
  using assms by (auto simp: tree_due_def node_links_def node_children_def open_leaf_def split: if_splits)

section \<open>Properties\<close>

text \<open>
  C16. Deleting a node frees it and all its descendants, each once, and nothing else: the destructor, which rotates the
  tree into a chain instead of recursing, ends for every tree of distinct nodes and touches no node outside.
\<close>

theorem destructor_frees_subtree:
  assumes "subtree mem t p" "distinct (inorder t)"
  shows "delete_node mem p = Some (mem |` (- set_tree t))"
  using assms by (rule delete_node_subtree)

text \<open>
  C15. Giving an open leaf a final status keeps the tree: the parents without an active child are finished and their
  children freed, up to the first ancestor that still has one; every other open leaf keeps its node
  unchanged, the nodes that stay keep their place and bounds, and the root is finished exactly when no
  open leaf is left.
\<close>

theorem closing_leaf_correct:
  assumes "tree_ok mem" "open_leaf mem a" "inactive_status st"
  shows "\<exists>mem' r. set_node_status mem a st = Some mem' \<and> tree_ok mem' \<and> same_places mem' mem
    \<and> (\<forall>b. open_leaf mem' b \<longleftrightarrow> open_leaf mem b \<and> b \<noteq> a) \<and> (\<forall>b. open_leaf mem b \<and> b \<noteq> a \<longrightarrow> mem' b = mem b)
    \<and> mem' 0 = Some r \<and> (inactive_status (status r) \<longleftrightarrow> (\<forall>b. \<not> open_leaf mem' b))"
proof -
  obtain mem' where m: "set_node_status mem a st = Some mem'" "tree_ok mem'" "leaf_finished a mem mem'" using set_status_finish [OF assms] by blast
  obtain r where r: "mem' 0 = Some r" using m(2) by (rule tree_due_root)
  show ?thesis using m r root_finished_iff [OF m(2) r] unfolding leaf_finished_def by blast
qed

text \<open>A root with two children, and the properties on it.\<close>

definition sample_node :: mip_node where
  "sample_node = \<lparr>status = PENDING, lower_bound = ninf, objective_estimate = pinf, depth = 0, node_id = 0, branch_var = - 1, branch_dir = NONE,
     branch_var_lower = ninf, branch_var_upper = pinf, fractional_val = pinf, integer_infeasible = 0, parent = None, down_child = None, up_child = None,
     num_children = 0, packed_vstatus = [], can_dive = True, orbital_fix_zero = [], orbital_fix_one = [], origin_worker_id = - 1, creation_seq = - 1\<rparr>"

definition sample_tree :: node_memory where
  "sample_tree = nodes (the (branch 0 1 2 0 (fin (1 / 2)) 1 [] [fin 0] [fin 10] (search_tree_t (mip_node_root (fin 0) [] sample_node))))"

lemma sample_tree_ok: "tree_ok sample_tree" "open_leaf sample_tree 1" "open_leaf sample_tree 2"
proof -
  let ?t = "search_tree_t (mip_node_root (fin 0) [] sample_node)"
  have f: "tree_ok (nodes ?t)" "open_leaf (nodes ?t) 0" "nodes ?t 1 = None" "nodes ?t 2 = None" "num_nodes ?t = 0"
    using root_tree_ok [of "mip_node_root (fin 0) [] sample_node"]
    by (simp_all add: search_tree_t_def mip_node_root_def default_members_def inactive_status_def)
  show "tree_ok sample_tree"
    using branch_ok [OF f(1-4), of 0 "fin (1 / 2)" 1 "[]" "[fin 0]" "[fin 10]"] f(5) by (auto simp: sample_tree_def)
  show "open_leaf sample_tree 1" "open_leaf sample_tree 2"
    by (simp_all add: sample_tree_def branch_def add_children_def search_tree_t_def open_leaf_def mip_node_child_def inactive_status_def Let_def)
qed

theorem destructor_frees_subtree_witness:
  "delete_node sample_tree (Some 0) = Some (sample_tree |` (- {0, 1, 2})) \<and> sample_tree 1 \<noteq> None"
proof -
  have "subtree sample_tree (Node (Node Leaf 1 Leaf) 0 (Node Leaf 2 Leaf)) (Some 0)"
    by (simp add: sample_tree_def branch_def add_children_def search_tree_t_def mip_node_child_def Let_def)
  then show ?thesis using destructor_frees_subtree [of sample_tree "Node (Node Leaf 1 Leaf) 0 (Node Leaf 2 Leaf)" "Some 0"] sample_tree_ok(2)
    by (auto simp: open_leaf_def insert_commute)
qed

theorem closing_leaf_correct_witness:
  "\<exists>mem'. set_node_status sample_tree 1 FATHOMED = Some mem' \<and> tree_ok mem' \<and> \<not> open_leaf mem' 1 \<and> open_leaf mem' 2"
  using closing_leaf_correct [OF sample_tree_ok(1,2), of FATHOMED] sample_tree_ok(3) by (auto simp: inactive_status_def)

end
