(* ===== verification/Node_Queue.thy ===== *)
theory Node_Queue
  imports Std_Heap Mip_Tree
begin

text \<open>
  The queue of nodes of a best-first worker, \<open>node_queue_t\<close> of \<open>branch_and_bound/node_queue.hpp\<close>. A node that
  waits is held by an entry that the heap ordered by lower bound and the heap of diving candidates,
  ordered by the estimate of the objective, share. Taking the node from the first heap clears the
  pointer in the entry, which the second heap drops later. An entry pointer is the position of the
  entry in the list of all entries the queue has made. Every operation holds the mutex of the queue,
  so it is one step; \<open>None\<close> is undefined behaviour, such as following a dangling pointer.
\<close>

section \<open>Operations\<close>

record heap_entry =
  entry_node :: "nat option"
  entry_lower_bound :: xval
  entry_score :: xval

definition heap_entry_t :: "nat \<Rightarrow> mip_node \<Rightarrow> heap_entry" where
  "heap_entry_t a n = \<lparr>entry_node = Some a, entry_lower_bound = lower_bound n, entry_score = objective_estimate n\<rparr>"

record node_queue =
  entries :: "heap_entry list"
  best_first_heap :: "nat heap"
  diving_heap :: "nat heap"
  queue_lower_bound :: xval

definition node_queue_t :: node_queue where
  "node_queue_t = \<lparr>entries = [], best_first_heap = heap_t, diving_heap = heap_t, queue_lower_bound = pinf\<rparr>"

definition lower_bound_comp :: "heap_entry list \<Rightarrow> nat \<Rightarrow> nat \<Rightarrow> bool" where
  "lower_bound_comp E a b \<longleftrightarrow> entry_lower_bound (E ! b) < entry_lower_bound (E ! a)"

definition score_comp :: "heap_entry list \<Rightarrow> nat \<Rightarrow> nat \<Rightarrow> bool" where
  "score_comp E a b \<longleftrightarrow> entry_score (E ! b) < entry_score (E ! a)"

definition top_lower_bound :: "heap_entry list \<Rightarrow> nat heap \<Rightarrow> xval" where
  "top_lower_bound E h = (case heap_top h of None \<Rightarrow> pinf | Some e \<Rightarrow> entry_lower_bound (E ! e))"

definition push_lockfree :: "node_memory \<Rightarrow> nat \<Rightarrow> node_queue \<Rightarrow> node_queue option" where
  "push_lockfree mem a q =
     (case mem a of None \<Rightarrow> None
      | Some n \<Rightarrow>
        let E = entries q @ [heap_entry_t a n]; e = length (entries q);
            best = heap_push (lower_bound_comp E) e (best_first_heap q);
            dive = (if can_dive n then heap_push (score_comp E) e (diving_heap q) else diving_heap q)
        in Some \<lparr>entries = E, best_first_heap = best, diving_heap = dive, queue_lower_bound = top_lower_bound E best\<rparr>)"

definition pop_entry :: "node_queue \<Rightarrow> (nat option \<times> node_queue) option" where
  "pop_entry q =
     (case heap_pop (lower_bound_comp (entries q)) (best_first_heap q) of None \<Rightarrow> None
      | Some (e, best) \<Rightarrow> Some (entry_node (entries q ! e), q\<lparr>entries := (entries q)[e := (entries q ! e)\<lparr>entry_node := None\<rparr>],
          best_first_heap := best,
          queue_lower_bound := (if heap_empty best then pinf else top_lower_bound (entries q) best)\<rparr>))"

definition queue_pop :: "node_queue \<Rightarrow> (nat option \<times> node_queue) option" where
  "queue_pop q = (if heap_empty (best_first_heap q) then Some (None, q) else pop_entry q)"

function pop_diving :: "node_memory \<Rightarrow> node_queue \<Rightarrow> (nat option \<times> node_memory \<times> node_queue) option" where
  "pop_diving mem q =
     (if heap_empty (diving_heap q) then Some (None, mem, q)
      else case heap_pop (score_comp (entries q)) (diving_heap q) of None \<Rightarrow> None
        | Some (e, dive) \<Rightarrow> (case entry_node (entries q ! e) of
            Some a \<Rightarrow> (case mem a of None \<Rightarrow> None
              | Some n \<Rightarrow> Some (Some a, mem(a \<mapsto> n\<lparr>can_dive := False\<rparr>), q\<lparr>diving_heap := dive\<rparr>))
          | None \<Rightarrow> pop_diving mem (q\<lparr>diving_heap := dive\<rparr>)))"
  by auto
termination
  by (relation "measure (\<lambda>(_, q). num_entries (diving_heap q))") (auto simp: heap_empty_def dest!: heap_size_pop)

declare pop_diving.simps [simp del]

definition diving_init ::
    "xval list \<Rightarrow> xval list \<Rightarrow> mip_node \<Rightarrow> bool list \<Rightarrow> node_memory \<Rightarrow> node_queue
     \<Rightarrow> ((mip_node \<times> bounds) option \<times> node_memory \<times> node_queue) option" where
  "diving_init lower upper raw bounds_changed mem q =
     (case pop_diving mem q of None \<Rightarrow> None
      | Some (None, mem, q) \<Rightarrow> Some (None, mem, q)
      | Some (Some a, mem, q) \<Rightarrow> (case mem a of None \<Rightarrow> None
          | Some n \<Rightarrow> (case get_variable_bounds mem n (lower, upper, map (\<lambda>_. False) bounds_changed) of None \<Rightarrow> None
              | Some b \<Rightarrow> Some (Some (detach_copy n raw, b), mem, q))))"

fun steal_loop :: "nat \<Rightarrow> nat \<Rightarrow> node_memory \<Rightarrow> node_queue \<Rightarrow> node_queue \<Rightarrow> bool \<Rightarrow> (bool \<times> node_queue \<times> node_queue) option" where
  "steal_loop 0 nodes_to_steal mem victim this steal = Some (steal, victim, this)"
| "steal_loop (Suc k) nodes_to_steal mem victim this steal =
     (if heap_size (best_first_heap victim) < nodes_to_steal then Some (steal, victim, this)
      else case pop_entry victim of
          Some (Some a, victim) \<Rightarrow> (case push_lockfree mem a this of None \<Rightarrow> None
            | Some this \<Rightarrow> steal_loop k nodes_to_steal mem victim this True)
        | _ \<Rightarrow> None)"

definition steal_from :: "int \<Rightarrow> node_memory \<Rightarrow> node_queue \<Rightarrow> node_queue \<Rightarrow> (bool \<times> node_queue \<times> node_queue) option" where
  "steal_from nodes_to_steal mem victim this = steal_loop (nat nodes_to_steal) (nat nodes_to_steal) mem victim this False"

definition diving_queue_size :: "node_queue \<Rightarrow> nat" where "diving_queue_size q = heap_size (diving_heap q)"
definition best_first_queue_size :: "node_queue \<Rightarrow> nat" where "best_first_queue_size q = heap_size (best_first_heap q)"

definition get_lower_bound :: "node_queue \<Rightarrow> xval" where
  "get_lower_bound q = (if heap_empty (best_first_heap q) then pinf else queue_lower_bound q)"

section \<open>The two orders\<close>

lemma xless_asym: "(a :: xval) < b \<Longrightarrow> \<not> b < a"
  by (cases a; cases b) auto

lemma xless_negtrans: "a \<noteq> nan \<Longrightarrow> b \<noteq> nan \<Longrightarrow> c \<noteq> nan \<Longrightarrow> \<not> b < a \<Longrightarrow> \<not> c < b \<Longrightarrow> \<not> c < (a :: xval)"
  by (cases a; cases b; cases c) auto

lemma xnot_less: "a \<noteq> nan \<Longrightarrow> b \<noteq> nan \<Longrightarrow> \<not> b < a \<longleftrightarrow> a \<le> (b :: xval)"
  by (cases a; cases b) (auto simp: less_eq_xval_def)

definition keyed :: "heap_entry list \<Rightarrow> nat \<Rightarrow> bool" where
  "keyed E e \<longleftrightarrow> e < length E \<and> entry_lower_bound (E ! e) \<noteq> nan \<and> entry_score (E ! e) \<noteq> nan"

interpretation best: weak_order "lower_bound_comp E" "keyed E" for E
proof unfold_locales
  fix a b assume "lower_bound_comp E a b"
  then show "\<not> lower_bound_comp E b a" by (simp add: lower_bound_comp_def xless_asym)
next
  fix a b c assume "keyed E a" "keyed E b" "keyed E c" "\<not> lower_bound_comp E a b" "\<not> lower_bound_comp E b c"
  then show "\<not> lower_bound_comp E a c"
    using xless_negtrans [of "entry_lower_bound (E ! a)" "entry_lower_bound (E ! b)" "entry_lower_bound (E ! c)"] by (simp add: lower_bound_comp_def keyed_def)
qed

interpretation dive: weak_order "score_comp E" "keyed E" for E
proof unfold_locales
  fix a b assume "score_comp E a b"
  then show "\<not> score_comp E b a" by (simp add: score_comp_def xless_asym)
next
  fix a b c assume "keyed E a" "keyed E b" "keyed E c" "\<not> score_comp E a b" "\<not> score_comp E b c"
  then show "\<not> score_comp E a c"
    using xless_negtrans [of "entry_score (E ! a)" "entry_score (E ! b)" "entry_score (E ! c)"] by (simp add: score_comp_def keyed_def)
qed

text \<open>Entries with the same keys: appending entries and clearing a pointer keep the orders.\<close>

definition same_keys :: "heap_entry list \<Rightarrow> heap_entry list \<Rightarrow> bool" where
  "same_keys E E' \<longleftrightarrow> length E \<le> length E' \<and> (\<forall>e < length E. entry_lower_bound (E' ! e) = entry_lower_bound (E ! e) \<and> entry_score (E' ! e) = entry_score (E ! e))"

lemma same_keys_append [simp]: "same_keys E (E @ F)"
  by (simp add: same_keys_def nth_append)

lemma same_keys_clear [simp]: "same_keys E (E[e := (E ! e)\<lparr>entry_node := None\<rparr>])"
proof -
  have "entry_lower_bound (E[e := (E ! e)\<lparr>entry_node := None\<rparr>] ! i) = entry_lower_bound (E ! i)
      \<and> entry_score (E[e := (E ! e)\<lparr>entry_node := None\<rparr>] ! i) = entry_score (E ! i)" if "i < length E" for i
    using that by (cases "i = e") auto
  then show ?thesis unfolding same_keys_def by simp
qed

lemma same_keys_keyed: "same_keys E E' \<Longrightarrow> keyed E e \<Longrightarrow> keyed E' e"
  by (auto simp: same_keys_def keyed_def)

lemma same_keys_heaps:
  assumes "same_keys E E'"
  shows "heap_inv (lower_bound_comp E) (keyed E) h \<Longrightarrow> heap_inv (lower_bound_comp E') (keyed E') h"
    and "heap_inv (score_comp E) (keyed E) h \<Longrightarrow> heap_inv (score_comp E') (keyed E') h"
proof -
  have k: "e < length E" if "e \<in> set (buffer h)" "heap_inv c (keyed E) h" for c e using that by (auto simp: heap_inv_def keyed_def)
  show "heap_inv (lower_bound_comp E') (keyed E') h" if "heap_inv (lower_bound_comp E) (keyed E) h"
    using heap_inv_cong [OF that] k [OF _ that] assms same_keys_keyed [OF assms] by (auto simp: lower_bound_comp_def same_keys_def)
  show "heap_inv (score_comp E') (keyed E') h" if "heap_inv (score_comp E) (keyed E) h"
    using heap_inv_cong [OF that] k [OF _ that] assms same_keys_keyed [OF assms] by (auto simp: score_comp_def same_keys_def)
qed

section \<open>The invariant\<close>

definition queue_ok :: "node_queue \<Rightarrow> bool" where
  "queue_ok q \<longleftrightarrow>
     heap_inv (lower_bound_comp (entries q)) (keyed (entries q)) (best_first_heap q)
     \<and> heap_inv (score_comp (entries q)) (keyed (entries q)) (diving_heap q)
     \<and> distinct (buffer (best_first_heap q)) \<and> distinct (buffer (diving_heap q))
     \<and> (\<forall>e < length (entries q). entry_node (entries q ! e) \<noteq> None \<longleftrightarrow> e \<in> set (buffer (best_first_heap q)))
     \<and> (buffer (best_first_heap q) \<noteq> [] \<longrightarrow> queue_lower_bound q = top_lower_bound (entries q) (best_first_heap q))"

text \<open>The nodes that wait in a queue.\<close>

definition queued :: "node_queue \<Rightarrow> nat multiset" where
  "queued q = image_mset (\<lambda>e. the (entry_node (entries q ! e))) (mset (buffer (best_first_heap q)))"

lemma queue_okD:
  assumes "queue_ok q"
  shows "heap_inv (lower_bound_comp (entries q)) (keyed (entries q)) (best_first_heap q)"
    "heap_inv (score_comp (entries q)) (keyed (entries q)) (diving_heap q)"
    "distinct (buffer (best_first_heap q))" "distinct (buffer (diving_heap q))"
    "\<And>e. e < length (entries q) \<Longrightarrow> entry_node (entries q ! e) \<noteq> None \<longleftrightarrow> e \<in> set (buffer (best_first_heap q))"
    "buffer (best_first_heap q) \<noteq> [] \<Longrightarrow> queue_lower_bound q = top_lower_bound (entries q) (best_first_heap q)"
  using assms unfolding queue_ok_def by auto

lemma queue_t_ok [simp]: "queue_ok node_queue_t" "queued node_queue_t = {#}"
  by (simp_all add: queue_ok_def queued_def node_queue_t_def) (simp add: heap_t_def)+

lemma heap_member: "queue_ok q \<Longrightarrow> e \<in> set (buffer (best_first_heap q)) \<Longrightarrow> e < length (entries q)"
  "queue_ok q \<Longrightarrow> e \<in> set (buffer (diving_heap q)) \<Longrightarrow> e < length (entries q)"
  using queue_okD(1,2) [of q] by (auto simp: heap_inv_def keyed_def)

lemma best_empty_iff: "queue_ok q \<Longrightarrow> heap_empty (best_first_heap q) \<longleftrightarrow> queued q = {#}"
  using queue_okD(1) [of q] by (simp add: heap_inv_def heap_empty_def queued_def)

lemma queue_size_queued: "queue_ok q \<Longrightarrow> best_first_queue_size q = size (queued q)"
  using queue_okD(1) [of q] by (simp add: heap_inv_def heap_size_def best_first_queue_size_def queued_def)

text \<open>Pushing a node whose keys are numbers.\<close>

lemma push_lockfree_ok:
  assumes q: "queue_ok q" and n: "mem a = Some n" "lower_bound n \<noteq> nan" "objective_estimate n \<noteq> nan"
  obtains q' where "push_lockfree mem a q = Some q'" "queue_ok q'" "queued q' = add_mset a (queued q)"
    "entries q' = entries q @ [heap_entry_t a n]" "set (buffer (best_first_heap q')) = insert (length (entries q)) (set (buffer (best_first_heap q)))"
    "set (buffer (diving_heap q')) = set (buffer (diving_heap q)) \<union> (if can_dive n then {length (entries q)} else {})"
proof -
  let ?E = "entries q @ [heap_entry_t a n]" and ?e = "length (entries q)"
  let ?b = "heap_push (lower_bound_comp ?E) ?e (best_first_heap q)"
  let ?d = "if can_dive n then heap_push (score_comp ?E) ?e (diving_heap q) else diving_heap q"
  note d = queue_okD [OF q]
  have k: "keyed ?E ?e" using n by (simp add: keyed_def heap_entry_t_def)
  have b: "heap_inv (lower_bound_comp ?E) (keyed ?E) ?b" "mset (buffer ?b) = add_mset ?e (mset (buffer (best_first_heap q)))"
    using best.heap_push_spec [OF same_keys_heaps(1) [OF same_keys_append d(1)] k] by auto
  have dv: "heap_inv (score_comp ?E) (keyed ?E) ?d" "mset (buffer ?d) = (if can_dive n then add_mset ?e (mset (buffer (diving_heap q))) else mset (buffer (diving_heap q)))"
    using dive.heap_push_spec [OF same_keys_heaps(2) [OF same_keys_append d(2)] k] same_keys_heaps(2) [OF same_keys_append d(2)] by auto
  have sb: "set (buffer ?b) = insert ?e (set (buffer (best_first_heap q)))" using mset_eq_setD [of "buffer ?b" "?e # buffer (best_first_heap q)"] b(2) by simp
  have sd: "set (buffer ?d) = set (buffer (diving_heap q)) \<union> (if can_dive n then {?e} else {})"
    using mset_eq_setD [of "buffer ?d" "?e # buffer (diving_heap q)"] dv(2) by (auto split: if_splits)
  have new: "?e \<notin> set (buffer (best_first_heap q))" "?e \<notin> set (buffer (diving_heap q))" using heap_member [OF q] by auto
  have db: "distinct (buffer ?b)" using b(2) d(3) new by (metis distinct.simps(2) mset.simps(2) mset_eq_imp_distinct_iff)
  have dd: "distinct (buffer ?d)" using dv(2) d(4) new by (metis distinct.simps(2) mset.simps(2) mset_eq_imp_distinct_iff)
  let ?q = "\<lparr>entries = ?E, best_first_heap = ?b, diving_heap = ?d, queue_lower_bound = top_lower_bound ?E ?b\<rparr>"
  have live: "entry_node (?E ! e) \<noteq> None \<longleftrightarrow> e \<in> set (buffer ?b)" if "e < length ?E" for e
    using that d(5) [of e] sb by (cases "e = ?e") (auto simp: nth_append heap_entry_t_def)
  have "queue_ok ?q" unfolding queue_ok_def using b(1) dv(1) db dd live by simp
  moreover have "queued ?q = add_mset a (queued q)"
    using b(2) heap_member(1) [OF q]
    by (auto simp: queued_def heap_entry_t_def nth_append intro!: image_mset_cong)
  moreover have "push_lockfree mem a q = Some ?q" using n(1) by (simp add: push_lockfree_def Let_def)
  ultimately show thesis using sb sd by (intro that [of ?q]) simp_all
qed

text \<open>Taking a node gives one with the least lower bound.\<close>

lemma pop_entry_ok:
  assumes q: "queue_ok q" and ne: "queued q \<noteq> {#}"
  obtains a q' e where "pop_entry q = Some (Some a, q')" "queue_ok q'" "queued q = add_mset a (queued q')"
    "e \<in> set (buffer (best_first_heap q))" "entry_node (entries q ! e) = Some a" "queue_lower_bound q = entry_lower_bound (entries q ! e)"
    "\<forall>f \<in> set (buffer (best_first_heap q)). entry_lower_bound (entries q ! e) \<le> entry_lower_bound (entries q ! f)"
    "entries q' = (entries q)[e := (entries q ! e)\<lparr>entry_node := None\<rparr>]" "diving_heap q' = diving_heap q"
    "set (buffer (best_first_heap q')) = set (buffer (best_first_heap q)) - {e}"
proof -
  note d = queue_okD [OF q]
  have ne': "buffer (best_first_heap q) \<noteq> []" using ne by (auto simp: queued_def)
  obtain e h where p: "heap_pop (lower_bound_comp (entries q)) (best_first_heap q) = Some (e, h)" "heap_top (best_first_heap q) = Some e"
    "heap_inv (lower_bound_comp (entries q)) (keyed (entries q)) h" "mset (buffer (best_first_heap q)) = add_mset e (mset (buffer h))"
    "\<forall>f \<in> set (buffer (best_first_heap q)). \<not> lower_bound_comp (entries q) e f"
    using best.heap_pop_spec [OF d(1) ne'] by blast
  have s: "set (buffer (best_first_heap q)) = insert e (set (buffer h))" using mset_eq_setD [of _ "e # buffer h"] p(4) by simp
  have dis: "e \<notin> set (buffer h)" "distinct (buffer h)" using d(3) p(4) by (metis distinct.simps(2) mset.simps(2) mset_eq_imp_distinct_iff)+
  have el: "e < length (entries q)" using heap_member(1) [OF q] s by simp
  obtain a where a: "entry_node (entries q ! e) = Some a" using d(5) [OF el] s by auto
  let ?E = "(entries q)[e := (entries q ! e)\<lparr>entry_node := None\<rparr>]"
  let ?q = "q\<lparr>entries := ?E, best_first_heap := h, queue_lower_bound := (if heap_empty h then pinf else top_lower_bound (entries q) h)\<rparr>"
  have keys: "\<forall>f \<in> set (buffer (best_first_heap q)). entry_lower_bound (entries q ! e) \<le> entry_lower_bound (entries q ! f)"
  proof
    fix f assume f: "f \<in> set (buffer (best_first_heap q))"
    then have "keyed (entries q) e" "keyed (entries q) f" using d(1) s by (auto simp: heap_inv_def)
    then show "entry_lower_bound (entries q ! e) \<le> entry_lower_bound (entries q ! f)"
      using p(5) f xnot_less by (auto simp: lower_bound_comp_def keyed_def)
  qed
  have live: "entry_node (?E ! f) \<noteq> None \<longleftrightarrow> f \<in> set (buffer h)" if "f < length ?E" for f
    using that d(5) [of f] s dis(1) by (cases "f = e") auto
  have top: "top_lower_bound ?E h = top_lower_bound (entries q) h"
  proof (cases "heap_top h")
    case (Some f)
    then have "f \<in> set (buffer h)" by (auto simp: heap_top_def split: if_splits)
    then have "f \<noteq> e" using dis by auto
    then show ?thesis using Some by (simp add: top_lower_bound_def)
  qed (simp add: top_lower_bound_def)
  have "queue_ok ?q"
    unfolding queue_ok_def using same_keys_heaps(1) [OF same_keys_clear p(3)] same_keys_heaps(2) [OF same_keys_clear d(2)] dis(2) d(4) live top
      best.heap_empty_iff [OF p(3)] by simp
  moreover have "queued q = add_mset a (queued ?q)"
  proof -
    have "image_mset (\<lambda>f. the (entry_node (entries q ! f))) (mset (buffer h)) = image_mset (\<lambda>f. the (entry_node (?E ! f))) (mset (buffer h))"
    proof (rule image_mset_cong)
      fix f assume "f \<in># mset (buffer h)"
      then have "e \<noteq> f" using dis(1) by auto
      then show "the (entry_node (entries q ! f)) = the (entry_node (?E ! f))" by simp
    qed
    then show ?thesis unfolding queued_def p(4) using a by simp
  qed
  moreover have "pop_entry q = Some (Some a, ?q)" using p(1) a by (simp add: pop_entry_def)
  moreover have "queue_lower_bound q = entry_lower_bound (entries q ! e)" using d(6) [OF ne'] p(2) by (simp add: top_lower_bound_def)
  ultimately show thesis using s dis(1) a keys by (intro that [of a ?q e]) auto
qed

lemma queued_member: "queue_ok q \<Longrightarrow> e < length (entries q) \<Longrightarrow> entry_node (entries q ! e) = Some a \<Longrightarrow> a \<in># queued q"
  using queue_okD(5) [of q e] by (force simp: queued_def)

text \<open>The candidate that a dive takes: a waiting node with the least score, if there is one.\<close>

definition dive_result :: "heap_entry list \<Rightarrow> nat list \<Rightarrow> nat list \<Rightarrow> node_memory \<Rightarrow> nat option \<Rightarrow> node_memory \<Rightarrow> bool" where
  "dive_result E D D' mem r mem' \<longleftrightarrow>
     (case r of None \<Rightarrow> mem' = mem \<and> (\<forall>e \<in> set D. entry_node (E ! e) = None)
      | Some a \<Rightarrow> \<exists>e \<in> set D. e \<notin> set D' \<and> entry_node (E ! e) = Some a \<and> mem' = mem(a \<mapsto> (the (mem a))\<lparr>can_dive := False\<rparr>)
          \<and> (\<forall>f \<in> set D. entry_node (E ! f) \<noteq> None \<longrightarrow> entry_score (E ! e) \<le> entry_score (E ! f)))"

lemma pop_diving_ok:
  assumes "queue_ok q" "\<And>a. a \<in># queued q \<Longrightarrow> mem a \<noteq> None"
  obtains r mem' h where "pop_diving mem q = Some (r, mem', q\<lparr>diving_heap := h\<rparr>)" "queue_ok (q\<lparr>diving_heap := h\<rparr>)"
    "set (buffer h) \<subseteq> set (buffer (diving_heap q))"
    "dive_result (entries q) (buffer (diving_heap q)) (buffer h) mem r mem'"
proof -
  have "\<exists>r mem' h. pop_diving mem q = Some (r, mem', q\<lparr>diving_heap := h\<rparr>) \<and> queue_ok (q\<lparr>diving_heap := h\<rparr>)
      \<and> set (buffer h) \<subseteq> set (buffer (diving_heap q))
      \<and> dive_result (entries q) (buffer (diving_heap q)) (buffer h) mem r mem'"
    using assms
  proof (induction "num_entries (diving_heap q)" arbitrary: q rule: less_induct)
    case less
    note d = queue_okD [OF less.prems(1)]
    show ?case
    proof (cases "buffer (diving_heap q) = []")
      case True
      then show ?thesis using dive.heap_empty_iff [OF d(2)] less.prems(1) by (subst pop_diving.simps) (auto simp: dive_result_def intro!: exI [of _ "diving_heap q"])
    next
      case False
      then obtain e h where p: "heap_pop (score_comp (entries q)) (diving_heap q) = Some (e, h)"
        "heap_inv (score_comp (entries q)) (keyed (entries q)) h" "mset (buffer (diving_heap q)) = add_mset e (mset (buffer h))"
        "\<forall>f \<in> set (buffer (diving_heap q)). \<not> score_comp (entries q) e f"
        using dive.heap_pop_spec [OF d(2)] by blast
      have s: "set (buffer (diving_heap q)) = insert e (set (buffer h))" using mset_eq_setD [of _ "e # buffer h"] p(3) by simp
      have dis: "e \<notin> set (buffer h)" "distinct (buffer h)" using d(4) p(3) by (metis distinct.simps(2) mset.simps(2) mset_eq_imp_distinct_iff)+
      have el: "e < length (entries q)" using heap_member(2) [OF less.prems(1)] s by simp
      have ok: "queue_ok (q\<lparr>diving_heap := h\<rparr>)" using less.prems(1) p(2) dis(2) by (simp add: queue_ok_def)
      have ne: "\<not> heap_empty (diving_heap q)" using False dive.heap_empty_iff [OF d(2)] by simp
      show ?thesis
      proof (cases "entry_node (entries q ! e)")
        case None
        have lt: "num_entries (diving_heap (q\<lparr>diving_heap := h\<rparr>)) < num_entries (diving_heap q)"
          using heap_size_pop [OF p(1)] ne by (simp add: heap_empty_def)
        have "queued (q\<lparr>diving_heap := h\<rparr>) = queued q" by (simp add: queued_def)
        from less.hyps [OF lt ok] less.prems(2) this obtain r mem' h' where
          r: "pop_diving mem (q\<lparr>diving_heap := h\<rparr>) = Some (r, mem', q\<lparr>diving_heap := h'\<rparr>)" "queue_ok (q\<lparr>diving_heap := h'\<rparr>)"
          "set (buffer h') \<subseteq> set (buffer h)"
          "dive_result (entries q) (buffer h) (buffer h') mem r mem'"
          by auto
        have "pop_diving mem q = Some (r, mem', q\<lparr>diving_heap := h'\<rparr>)" using r(1) p(1) ne None by (subst pop_diving.simps) simp
        moreover have "dive_result (entries q) (buffer (diving_heap q)) (buffer h') mem r mem'"
          using r(4) s None by (auto simp: dive_result_def split: option.splits)
        ultimately show ?thesis using r(2,3) s by blast
      next
        case (Some a)
        then have "a \<in># queued q" using queued_member [OF less.prems(1) el] by simp
        then obtain n where n: "mem a = Some n" using less.prems(2) by blast
        have "\<forall>f \<in> set (buffer (diving_heap q)). entry_score (entries q ! e) \<le> entry_score (entries q ! f)"
        proof
          fix f assume f: "f \<in> set (buffer (diving_heap q))"
          then have "keyed (entries q) e" "keyed (entries q) f" using d(2) s by (auto simp: heap_inv_def)
          then show "entry_score (entries q ! e) \<le> entry_score (entries q ! f)" using p(4) f xnot_less by (auto simp: score_comp_def keyed_def)
        qed
        then have "dive_result (entries q) (buffer (diving_heap q)) (buffer h) mem (Some a) (mem(a \<mapsto> n\<lparr>can_dive := False\<rparr>))"
          using s dis(1) Some n by (auto simp: dive_result_def intro!: bexI [of _ e])
        moreover have "pop_diving mem q = Some (Some a, mem(a \<mapsto> n\<lparr>can_dive := False\<rparr>), q\<lparr>diving_heap := h\<rparr>)"
          using p(1) ne Some n by (subst pop_diving.simps) simp
        ultimately show ?thesis using ok s by blast
      qed
    qed
  qed
  then show thesis using that by blast
qed

text \<open>A node with the keys of a heap entry.\<close>

definition keyed_node :: "node_memory \<Rightarrow> nat \<Rightarrow> bool" where
  "keyed_node mem a \<longleftrightarrow> (\<exists>n. mem a = Some n \<and> lower_bound n \<noteq> nan \<and> objective_estimate n \<noteq> nan)"

lemma push_lockfree_ex:
  assumes q: "queue_ok q" and a: "keyed_node mem a"
  shows "\<exists>q'. push_lockfree mem a q = Some q' \<and> queue_ok q' \<and> queued q' = add_mset a (queued q)"
proof -
  obtain n where n: "mem a = Some n" "lower_bound n \<noteq> nan" "objective_estimate n \<noteq> nan" using a by (auto simp: keyed_node_def)
  show ?thesis
  proof (rule push_lockfree_ok [where q = q and mem = mem and a = a and n = n])
    fix q' assume "push_lockfree mem a q = Some q'" "queue_ok q'" "queued q' = add_mset a (queued q)"
    then show ?thesis by blast
  qed (use q n in auto)
qed

lemma steal_loop_ok:
  assumes "queue_ok v" "queue_ok t" "\<And>a. a \<in># queued v \<Longrightarrow> keyed_node mem a" "0 < n"
  shows "\<exists>s v' t' S. steal_loop k n mem v t f = Some (s, v', t') \<and> queue_ok v' \<and> queue_ok t' \<and> queued v = queued v' + S \<and> queued t' = queued t + S
    \<and> s = (f \<or> S \<noteq> {#}) \<and> size S = min k (size (queued v) + 1 - n)"
  using assms
proof (induction k arbitrary: v t f)
  case (Suc k)
  have sz: "heap_size (best_first_heap v) = size (queued v)" using queue_size_queued [OF Suc.prems(1)] by (simp add: best_first_queue_size_def)
  show ?case
  proof (cases "size (queued v) < n")
    case True
    then show ?thesis using Suc.prems(1,2) sz by (intro exI [of _ f] exI [of _ v] exI [of _ t] exI [of _ "{#}"]) simp
  next
    case False
    then have "queued v \<noteq> {#}" using Suc.prems(4) by auto
    then obtain a v1 e where p: "pop_entry v = Some (Some a, v1)" "queue_ok v1" "queued v = add_mset a (queued v1)" by (rule pop_entry_ok [OF Suc.prems(1)])
    then have m: "keyed_node mem a" using Suc.prems(3) [of a] by simp
    obtain t1 where t1: "push_lockfree mem a t = Some t1" "queue_ok t1" "queued t1 = add_mset a (queued t)" using push_lockfree_ex [OF Suc.prems(2) m] by blast
    from Suc.IH [OF p(2) t1(2) _ Suc.prems(4), of True] Suc.prems(3) p(3)
    obtain s v' t' S where r: "steal_loop k n mem v1 t1 True = Some (s, v', t')" "queue_ok v'" "queue_ok t'" "queued v1 = queued v' + S" "queued t' = queued t1 + S"
      "s" "size S = min k (size (queued v1) + 1 - n)" by auto
    have "steal_loop (Suc k) n mem v t f = Some (s, v', t')" using False sz p(1) t1(1) r(1) by simp
    then show ?thesis using r(2-7) p(3) t1(3) False by (intro exI [of _ s] exI [of _ v'] exI [of _ t'] exI [of _ "add_mset a S"]) auto
  qed
qed auto

section \<open>Properties\<close>

text \<open>
  C13. The node queue is a priority queue of live nodes. Pushing a node adds it; taking one from a
  non-empty queue removes a node with the least recorded lower bound, and that bound is what
  \<open>get_lower_bound\<close> reports, infinity for an empty queue. A dive candidate is always a node that
  still waits in the queue, never one whose entry was cleared, and has the least score of these;
  finding it removes no node. Every operation is defined and keeps the two heaps, the entries they
  share and the cached bound consistent.
\<close>

theorem node_queue_correct:
  assumes q: "queue_ok q" and live: "\<forall>a \<in># queued q. mem a \<noteq> None" and b: "keyed_node mem b"
  shows "(\<exists>q'. push_lockfree mem b q = Some q' \<and> queue_ok q' \<and> queued q' = add_mset b (queued q))
    \<and> (queued q = {#} \<longrightarrow> queue_pop q = Some (None, q) \<and> get_lower_bound q = pinf)
    \<and> (queued q \<noteq> {#} \<longrightarrow> (\<exists>a q' e. queue_pop q = Some (Some a, q') \<and> queue_ok q' \<and> queued q = add_mset a (queued q')
         \<and> entry_node (entries q ! e) = Some a \<and> get_lower_bound q = entry_lower_bound (entries q ! e)
         \<and> (\<forall>f < length (entries q). entry_node (entries q ! f) \<noteq> None \<longrightarrow> get_lower_bound q \<le> entry_lower_bound (entries q ! f))))
    \<and> (\<exists>r mem' q'. pop_diving mem q = Some (r, mem', q') \<and> queue_ok q' \<and> queued q' = queued q
         \<and> (case r of None \<Rightarrow> mem' = mem | Some a \<Rightarrow> a \<in># queued q \<and> mem' = mem(a \<mapsto> (the (mem a))\<lparr>can_dive := False\<rparr>)))"
proof (intro conjI impI)
  show "\<exists>q'. push_lockfree mem b q = Some q' \<and> queue_ok q' \<and> queued q' = add_mset b (queued q)"
    using push_lockfree_ex [OF q b] .
  {
    assume "queued q = {#}"
    then show "queue_pop q = Some (None, q)" "get_lower_bound q = pinf"
      using best_empty_iff [OF q] by (simp_all add: queue_pop_def get_lower_bound_def)
  next
    assume ne: "queued q \<noteq> {#}"
    obtain a q' e where p: "pop_entry q = Some (Some a, q')" "queue_ok q'" "queued q = add_mset a (queued q')"
      "entry_node (entries q ! e) = Some a" "queue_lower_bound q = entry_lower_bound (entries q ! e)"
      "\<forall>f \<in> set (buffer (best_first_heap q)). entry_lower_bound (entries q ! e) \<le> entry_lower_bound (entries q ! f)"
      by (rule pop_entry_ok [OF q ne])
    have "queue_pop q = Some (Some a, q')" "get_lower_bound q = entry_lower_bound (entries q ! e)"
      using best_empty_iff [OF q] ne p(1,5) by (simp_all add: queue_pop_def get_lower_bound_def)
    then show "\<exists>a q' e. queue_pop q = Some (Some a, q') \<and> queue_ok q' \<and> queued q = add_mset a (queued q')
         \<and> entry_node (entries q ! e) = Some a \<and> get_lower_bound q = entry_lower_bound (entries q ! e)
         \<and> (\<forall>f < length (entries q). entry_node (entries q ! f) \<noteq> None \<longrightarrow> get_lower_bound q \<le> entry_lower_bound (entries q ! f))"
      using p(2-4,6) queue_okD(5) [OF q] by (intro exI [of _ a] exI [of _ q'] exI [of _ e]) simp
  }
  obtain r mem' h where r: "pop_diving mem q = Some (r, mem', q\<lparr>diving_heap := h\<rparr>)" "queue_ok (q\<lparr>diving_heap := h\<rparr>)"
    "dive_result (entries q) (buffer (diving_heap q)) (buffer h) mem r mem'"
  proof (rule pop_diving_ok [OF q, of mem])
    fix a assume "a \<in># queued q"
    then show "mem a \<noteq> None" using live by blast
  qed
  have "case r of None \<Rightarrow> mem' = mem | Some a \<Rightarrow> a \<in># queued q \<and> mem' = mem(a \<mapsto> (the (mem a))\<lparr>can_dive := False\<rparr>)"
    using r(3) heap_member(2) [OF q] queued_member [OF q] by (auto simp: dive_result_def split: option.splits)
  then show "\<exists>r mem' q'. pop_diving mem q = Some (r, mem', q') \<and> queue_ok q' \<and> queued q' = queued q
         \<and> (case r of None \<Rightarrow> mem' = mem | Some a \<Rightarrow> a \<in># queued q \<and> mem' = mem(a \<mapsto> (the (mem a))\<lparr>can_dive := False\<rparr>))"
    using r(1,2) by (intro exI [of _ r] exI [of _ mem'] exI [of _ "q\<lparr>diving_heap := h\<rparr>"]) (simp add: queued_def)
qed

text \<open>A queue with one of the two leaves of the sample tree, to which the other one is pushed.\<close>

theorem node_queue_correct_witness:
  "\<exists>q. push_lockfree sample_tree 1 node_queue_t = Some q \<and> (\<exists>q'. push_lockfree sample_tree 2 q = Some q' \<and> queued q' = {#1, 2#})
     \<and> (\<exists>q'. queue_pop q = Some (Some 1, q')) \<and> get_lower_bound q = fin 0"
proof -
  have k: "keyed_node sample_tree 1" "keyed_node sample_tree 2"
    by (auto simp: keyed_node_def sample_tree_def branch_def add_children_def search_tree_t_def mip_node_child_def mip_node_root_def default_members_def Let_def)
  obtain q where q: "push_lockfree sample_tree 1 node_queue_t = Some q" "queue_ok q" "queued q = {#1#}" using push_lockfree_ex [OF queue_t_ok(1) k(1)] by auto
  have "sample_tree 1 \<noteq> None" using k(1) by (auto simp: keyed_node_def)
  then have live: "\<forall>a \<in># queued q. sample_tree a \<noteq> None" using q(3) by simp
  have "map_option get_lower_bound (push_lockfree sample_tree 1 node_queue_t) = Some (fin 0)" by code_simp
  then show ?thesis using node_queue_correct [OF q(2) live k(2)] q by auto
qed

end
