(* ===== verification/Bounds_Strengthening.thy ===== *)
theory Bounds_Strengthening
  imports Prelude Sparse_Matrix Extended_Values
begin

text \<open>
  Bound propagation over the rows of a linear program, \<open>bounds_strengthening_t\<close> of
  \<open>dual_simplex/bounds_strengthening.cpp\<close>: activities of the rows from the current bounds, new
  bounds of the variables from the activities, rounding for integer variables, at most ten rounds.
  Coefficients and tolerances are finite; bounds and activities are extended values.
\<close>

section \<open>State and operations\<close>

datatype variable_type = CONTINUOUS | BINARY | INTEGER

record bounds_strengthening_data =
  A :: "rat csc_matrix"
  Arow :: "rat csr_matrix"
  var_types :: "variable_type list"
  constraint_lb :: "xval list"
  constraint_ub :: "xval list"

record tolerances =
  primal_tol :: rat
  integer_tol :: rat

record work =
  lower :: "xval list"
  upper :: "xval list"
  delta_min_activity :: "xval list"
  delta_max_activity :: "xval list"
  constraint_changed :: "bool list"
  variable_changed :: "bool list"
  constraint_changed_next :: "bool list"
  nnz_processed :: nat
  num_bounds_changed :: nat

definition update_lb :: "xval \<Rightarrow> rat \<Rightarrow> xval \<Rightarrow> xval \<Rightarrow> xval" where
  "update_lb curr_lb coeff delta_min_act delta_max_act =
     std_max curr_lb (if coeff < 0 then xdiv delta_min_act coeff else xdiv delta_max_act coeff)"

definition update_ub :: "xval \<Rightarrow> rat \<Rightarrow> xval \<Rightarrow> xval \<Rightarrow> xval" where
  "update_ub curr_ub coeff delta_min_act delta_max_act =
     std_min curr_ub (if coeff < 0 then xdiv delta_max_act coeff else xdiv delta_min_act coeff)"

definition check_infeasibility :: "xval \<Rightarrow> xval \<Rightarrow> xval \<Rightarrow> xval \<Rightarrow> rat \<Rightarrow> bool" where
  "check_infeasibility min_a max_a cnst_lb cnst_ub eps \<longleftrightarrow> cnst_ub + fin eps < min_a \<or> max_a < cnst_lb - fin eps"

text \<open>The constructor: row bounds from the right-hand sides and the senses of the rows.\<close>

definition constraint_bounds :: "rat list \<Rightarrow> char list \<Rightarrow> nat \<Rightarrow> xval \<times> xval" where
  "constraint_bounds rhs row_sense i =
     (if row_sense = [] \<or> row_sense ! i = CHR ''E'' then (fin (rhs ! i), fin (rhs ! i))
      else if row_sense ! i = CHR ''L'' then (ninf, fin (rhs ! i)) else (fin (rhs ! i), pinf))"

definition bounds_strengthening_t ::
    "rat csc_matrix \<Rightarrow> rat list \<Rightarrow> rat csr_matrix \<Rightarrow> char list \<Rightarrow> variable_type list \<Rightarrow> bounds_strengthening_data" where
  "bounds_strengthening_t PA rhs PArow row_sense types =
     \<lparr>A = PA, Arow = PArow, var_types = types,
      constraint_lb = map (\<lambda>i. fst (constraint_bounds rhs row_sense i)) [0..<csc_m PA],
      constraint_ub = map (\<lambda>i. snd (constraint_bounds rhs row_sense i)) [0..<csc_m PA]\<rparr>"

text \<open>One entry of a row in the computation of its activity bounds.\<close>

definition activity_step :: "work \<Rightarrow> nat \<Rightarrow> rat \<Rightarrow> xval \<times> xval \<Rightarrow> xval \<times> xval" where
  "activity_step s j a = (\<lambda>(min_a, max_a).
     let (min_a, max_a) =
           (if a > 0 then (min_a + xmul a (lower s ! j), max_a + xmul a (upper s ! j))
            else if a < 0 then (min_a + xmul a (upper s ! j), max_a + xmul a (lower s ! j))
            else (min_a, max_a));
         max_a = (if upper s ! j = pinf \<and> a > 0 then pinf else max_a);
         max_a = (if lower s ! j = ninf \<and> a < 0 then pinf else max_a);
         min_a = (if lower s ! j = ninf \<and> a > 0 then ninf else min_a);
         min_a = (if upper s ! j = pinf \<and> a < 0 then ninf else min_a)
     in (min_a, max_a))"

definition row_positions :: "bounds_strengthening_data \<Rightarrow> nat \<Rightarrow> nat list" where
  "row_positions B i = [row_start (Arow B) ! i..<row_start (Arow B) ! (i + 1)]"

definition row_activity :: "bounds_strengthening_data \<Rightarrow> nat \<Rightarrow> work \<Rightarrow> xval \<times> xval" where
  "row_activity B i s =
     fold (\<lambda>p. activity_step s (csr_j (Arow B) ! p) (csr_x (Arow B) ! p)) (row_positions B i) (fin 0, fin 0)"

text \<open>The loop over the rows; \<open>Inl\<close> carries the work counter of an infeasible end.\<close>

definition scan_constraint :: "bounds_strengthening_data \<Rightarrow> tolerances \<Rightarrow> nat \<Rightarrow> work \<Rightarrow> nat + work" where
  "scan_constraint B settings i s =
     (if \<not> constraint_changed s ! i then Inr s
      else let processed = nnz_processed s + length (row_positions B i);
               (min_a, max_a) = row_activity B i s;
               cnst_lb = constraint_lb B ! i; cnst_ub = constraint_ub B ! i
           in if check_infeasibility min_a max_a cnst_lb cnst_ub (primal_tol settings) then Inl processed
              else Inr (s\<lparr>nnz_processed := processed,
                          variable_changed := fold (\<lambda>p v. v[csr_j (Arow B) ! p := True]) (row_positions B i) (variable_changed s),
                          delta_min_activity := (delta_min_activity s)[i := cnst_ub - min_a],
                          delta_max_activity := (delta_max_activity s)[i := cnst_lb - max_a]\<rparr>))"

fun constraint_loop :: "bounds_strengthening_data \<Rightarrow> tolerances \<Rightarrow> nat list \<Rightarrow> work \<Rightarrow> nat + work" where
  "constraint_loop B settings [] s = Inr s"
| "constraint_loop B settings (i # is) s =
     (case scan_constraint B settings i s of Inl processed \<Rightarrow> Inl processed | Inr s \<Rightarrow> constraint_loop B settings is s)"

definition col_positions :: "bounds_strengthening_data \<Rightarrow> nat \<Rightarrow> nat list" where
  "col_positions B k = [col_start (A B) ! k..<col_start (A B) ! (k + 1)]"

text \<open>One entry of a column in the computation of the new bounds of its variable.\<close>

definition bound_step :: "bounds_strengthening_data \<Rightarrow> work \<Rightarrow> xval \<Rightarrow> xval \<Rightarrow> nat \<Rightarrow> xval \<times> xval \<Rightarrow> xval \<times> xval" where
  "bound_step B s old_lb old_ub p = (\<lambda>(new_lb, new_ub).
     let i = csc_i (A B) ! p
     in if \<not> constraint_changed s ! i then (new_lb, new_ub)
        else let a_ik = csc_x (A B) ! p;
                 delta_min_act = delta_min_activity s ! i + (if a_ik < 0 then xmul a_ik old_ub else xmul a_ik old_lb);
                 delta_max_act = delta_max_activity s ! i + (if a_ik > 0 then xmul a_ik old_ub else xmul a_ik old_lb)
             in (std_max new_lb (update_lb old_lb a_ik delta_min_act delta_max_act),
                 std_min new_ub (update_ub old_ub a_ik delta_min_act delta_max_act)))"

definition round_bounds :: "bounds_strengthening_data \<Rightarrow> tolerances \<Rightarrow> nat \<Rightarrow> xval \<times> xval \<Rightarrow> xval \<times> xval" where
  "round_bounds B settings k = (\<lambda>(new_lb, new_ub).
     if var_types B \<noteq> [] \<and> (var_types B ! k = INTEGER \<or> var_types B ! k = BINARY)
     then (std_ceil (new_lb - fin (integer_tol settings)), std_floor (new_ub + fin (integer_tol settings)))
     else (new_lb, new_ub))"

definition strengthen_variable ::
    "bounds_strengthening_data \<Rightarrow> tolerances \<Rightarrow> xval list \<Rightarrow> xval list \<Rightarrow> nat \<Rightarrow> work \<Rightarrow> nat + work" where
  "strengthen_variable B settings lower_bounds upper_bounds k s =
     (if \<not> variable_changed s ! k then Inr s
      else let old_lb = lower s ! k; old_ub = upper s ! k;
               processed = nnz_processed s + length (col_positions B k);
               (new_lb, new_ub) = round_bounds B settings k (fold (bound_step B s old_lb old_ub) (col_positions B k) (old_lb, old_ub));
               lb_updated = fin (1000 * primal_tol settings) < std_abs (new_lb - old_lb);
               ub_updated = fin (1000 * primal_tol settings) < std_abs (new_ub - old_ub);
               new_lb = std_max new_lb (lower_bounds ! k);
               new_ub = std_min new_ub (upper_bounds ! k)
           in if new_ub + fin (primal_tol settings) < new_lb then Inl processed
              else Inr (s\<lparr>nnz_processed := processed,
                          constraint_changed_next :=
                            (if xneq new_lb old_lb \<or> xneq new_ub old_ub
                             then fold (\<lambda>p c. c[csc_i (A B) ! p := True]) (col_positions B k) (constraint_changed_next s)
                             else constraint_changed_next s),
                          lower := (lower s)[k := std_min new_lb new_ub],
                          upper := (upper s)[k := std_max new_lb new_ub],
                          num_bounds_changed := num_bounds_changed s + (if lb_updated \<or> ub_updated then 1 else 0)\<rparr>))"

fun variable_loop :: "bounds_strengthening_data \<Rightarrow> tolerances \<Rightarrow> xval list \<Rightarrow> xval list \<Rightarrow> nat list \<Rightarrow> work \<Rightarrow> nat + work" where
  "variable_loop B settings lower_bounds upper_bounds [] s = Inr s"
| "variable_loop B settings lower_bounds upper_bounds (k # ks) s =
     (case strengthen_variable B settings lower_bounds upper_bounds k s of
        Inl processed \<Rightarrow> Inl processed
      | Inr s \<Rightarrow> variable_loop B settings lower_bounds upper_bounds ks s)"

definition iter_limit :: nat where "iter_limit = 10"

text \<open>The rounds; the counter is the number of rounds left.\<close>

fun iterations :: "nat \<Rightarrow> bounds_strengthening_data \<Rightarrow> tolerances \<Rightarrow> xval list \<Rightarrow> xval list \<Rightarrow> work \<Rightarrow> nat + work" where
  "iterations 0 B settings lower_bounds upper_bounds s = Inr s"
| "iterations (Suc left) B settings lower_bounds upper_bounds s =
     (case constraint_loop B settings [0..<csc_m (A B)] s of
        Inl processed \<Rightarrow> Inl processed
      | Inr s \<Rightarrow>
          (case variable_loop B settings lower_bounds upper_bounds [0..<csc_n (A B)] (s\<lparr>num_bounds_changed := 0\<rparr>) of
             Inl processed \<Rightarrow> Inl processed
           | Inr s \<Rightarrow>
               if num_bounds_changed s = 0 then Inr s
               else iterations left B settings lower_bounds upper_bounds
                      (s\<lparr>constraint_changed := constraint_changed_next s,
                         constraint_changed_next := replicate (csc_m (A B)) False,
                         variable_changed := replicate (csc_n (A B)) False\<rparr>)))"

definition initially_changed :: "bounds_strengthening_data \<Rightarrow> bool list \<Rightarrow> bool list" where
  "initially_changed B bounds_changed =
     (if bounds_changed = [] then replicate (csc_m (A B)) True
      else fold (\<lambda>j c. if bounds_changed ! j then fold (\<lambda>p c. c[csc_i (A B) ! p := True]) (col_positions B j) c else c)
             [0..<csc_n (A B)] (replicate (csc_m (A B)) False))"

text \<open>The call: the answer, the bounds handed back and the entries processed.\<close>

definition bounds_strengthening ::
    "bounds_strengthening_data \<Rightarrow> tolerances \<Rightarrow> bool list \<Rightarrow> xval list \<Rightarrow> xval list \<Rightarrow> bool \<times> xval list \<times> xval list \<times> nat" where
  "bounds_strengthening B settings bounds_changed lower_bounds upper_bounds =
     (let s = \<lparr>lower = lower_bounds, upper = upper_bounds,
               delta_min_activity = replicate (csc_m (A B)) (fin 0), delta_max_activity = replicate (csc_m (A B)) (fin 0),
               constraint_changed = initially_changed B bounds_changed, variable_changed = replicate (csc_n (A B)) False,
               constraint_changed_next = replicate (csc_m (A B)) False, nnz_processed = 0, num_bounds_changed = 0\<rparr>
      in case iterations iter_limit B settings lower_bounds upper_bounds s of
           Inl processed \<Rightarrow> (False, lower_bounds, upper_bounds, processed)
         | Inr s \<Rightarrow> (True, lower s, upper s, nnz_processed s))"


section \<open>Solutions\<close>

definition lp_row :: "bounds_strengthening_data \<Rightarrow> nat \<Rightarrow> (nat \<times> rat) list" where
  "lp_row B i = map (\<lambda>p. (csr_j (Arow B) ! p, csr_x (Arow B) ! p)) (row_positions B i)"

definition row_value :: "bounds_strengthening_data \<Rightarrow> nat \<Rightarrow> (nat \<Rightarrow> rat) \<Rightarrow> rat" where
  "row_value B i x = sum_list (map (\<lambda>(j, a). a * x j) (lp_row B i))"

definition in_bounds :: "(nat \<Rightarrow> rat) \<Rightarrow> nat \<Rightarrow> xval list \<Rightarrow> xval list \<Rightarrow> bool" where
  "in_bounds x n L U \<longleftrightarrow> length L = n \<and> length U = n \<and> (\<forall>k < n. lb_ok (L ! k) (x k) \<and> ub_ok (U ! k) (x k))"

definition satisfies_rows :: "bounds_strengthening_data \<Rightarrow> (nat \<Rightarrow> rat) \<Rightarrow> bool" where
  "satisfies_rows B x \<longleftrightarrow> (\<forall>i < csc_m (A B). lb_ok (constraint_lb B ! i) (row_value B i x) \<and> ub_ok (constraint_ub B ! i) (row_value B i x))"

definition integral :: "bounds_strengthening_data \<Rightarrow> (nat \<Rightarrow> rat) \<Rightarrow> bool" where
  "integral B x \<longleftrightarrow> (\<forall>k < csc_n (A B). var_types B \<noteq> [] \<and> (var_types B ! k = INTEGER \<or> var_types B ! k = BINARY) \<longrightarrow> x k \<in> \<int>)"

text \<open>The two copies of the matrix agree, entries are not zero and indices are in range.\<close>

definition matrices_ok :: "bounds_strengthening_data \<Rightarrow> bool" where
  "matrices_ok B \<longleftrightarrow> (\<forall>k < csc_n (A B). \<forall>p \<in> set (col_positions B k). csc_i (A B) ! p < csc_m (A B) \<and> csc_x (A B) ! p \<noteq> 0
       \<and> (k, csc_x (A B) ! p) \<in> set (lp_row B (csc_i (A B) ! p)))
     \<and> (\<forall>i < csc_m (A B). \<forall>(j, a) \<in> set (lp_row B i). j < csc_n (A B))"

lemma matrices_ok_D:
  assumes "matrices_ok B"
  shows "k < csc_n (A B) \<Longrightarrow> p \<in> set (col_positions B k) \<Longrightarrow> csc_i (A B) ! p < csc_m (A B)"
    "k < csc_n (A B) \<Longrightarrow> p \<in> set (col_positions B k) \<Longrightarrow> csc_x (A B) ! p \<noteq> 0"
    "k < csc_n (A B) \<Longrightarrow> p \<in> set (col_positions B k) \<Longrightarrow> (k, csc_x (A B) ! p) \<in> set (lp_row B (csc_i (A B) ! p))"
    "i < csc_m (A B) \<Longrightarrow> (j, a) \<in> set (lp_row B i) \<Longrightarrow> j < csc_n (A B)"
  using assms unfolding matrices_ok_def by blast+

section \<open>Activities\<close>

text \<open>The smallest and the largest contribution of an entry.\<close>

definition cmin :: "xval list \<Rightarrow> xval list \<Rightarrow> nat \<times> rat \<Rightarrow> xval" where
  "cmin L U = (\<lambda>(j, a). if a > 0 then xmul a (L ! j) else if a < 0 then xmul a (U ! j) else fin 0)"

definition cmax :: "xval list \<Rightarrow> xval list \<Rightarrow> nat \<times> rat \<Rightarrow> xval" where
  "cmax L U = (\<lambda>(j, a). if a > 0 then xmul a (U ! j) else if a < 0 then xmul a (L ! j) else fin 0)"

fun num :: "xval \<Rightarrow> rat" where
  "num (fin c) = c"
| "num _ = 0"

lemma contribution:
  assumes "lb_ok (L ! j) (x j)" "ub_ok (U ! j) (x j)"
  shows "cmin L U (j, a) = ninf \<or> (\<exists>c. cmin L U (j, a) = fin c \<and> c \<le> a * x j)"
    and "cmax L U (j, a) = pinf \<or> (\<exists>c. cmax L U (j, a) = fin c \<and> a * x j \<le> c)"
  using assms by (auto elim!: lb_okE ub_okE simp: cmin_def cmax_def mult_left_mono mult_left_mono_neg)

definition min_sum :: "xval list \<Rightarrow> xval list \<Rightarrow> (nat \<times> rat) list \<Rightarrow> xval \<Rightarrow> bool" where
  "min_sum L U es m \<longleftrightarrow> m = ninf \<or> (\<forall>e \<in> set es. cmin L U e = fin (num (cmin L U e))) \<and> m = fin (sum_list (map (\<lambda>e. num (cmin L U e)) es))"

definition max_sum :: "xval list \<Rightarrow> xval list \<Rightarrow> (nat \<times> rat) list \<Rightarrow> xval \<Rightarrow> bool" where
  "max_sum L U es m \<longleftrightarrow> m = pinf \<or> (\<forall>e \<in> set es. cmax L U e = fin (num (cmax L U e))) \<and> m = fin (sum_list (map (\<lambda>e. num (cmax L U e)) es))"

lemma activity_step_eq:
  assumes "lb_ok (lower s ! j) y" "ub_ok (upper s ! j) y" "min_a \<noteq> pinf" "min_a \<noteq> nan" "max_a \<noteq> ninf" "max_a \<noteq> nan"
  shows "activity_step s j a (min_a, max_a) = (min_a + cmin (lower s) (upper s) (j, a), max_a + cmax (lower s) (upper s) (j, a))"
proof -
  from assms(3,4) consider (f) q where "min_a = fin q" | (i) "min_a = ninf" by (cases min_a) auto
  note mn = this
  from assms(5,6) consider (f) q where "max_a = fin q" | (i) "max_a = pinf" by (cases max_a) auto
  note mx = this
  show ?thesis
    using assms(1,2) by (cases rule: mn; cases rule: mx)
      (auto elim!: lb_okE ub_okE simp: activity_step_def cmin_def cmax_def Let_def)
qed

lemma row_activity_sums:
  assumes win: "in_bounds x n (lower s) (upper s)" and idx: "\<And>j a. (j, a) \<in> set (lp_row B i) \<Longrightarrow> j < n"
  shows "case row_activity B i s of (m, M) \<Rightarrow> min_sum (lower s) (upper s) (lp_row B i) m \<and> max_sum (lower s) (upper s) (lp_row B i) M"
proof -
  let ?L = "lower s" and ?U = "upper s" and ?es = "lp_row B i"
  let ?P = "\<lambda>es (m, M). min_sum ?L ?U es m \<and> max_sum ?L ?U es M"
  have eq: "row_activity B i s = fold (\<lambda>e. activity_step s (fst e) (snd e)) ?es (fin 0, fin 0)"
    by (simp add: row_activity_def lp_row_def fold_map comp_def)
  have "?P ?es (fold (\<lambda>e. activity_step s (fst e) (snd e)) ?es (fin 0, fin 0))"
  proof (rule fold_invariant_prefix [where P = ?P])
    show "?P [] (fin 0, fin 0)" by (simp add: min_sum_def max_sum_def)
    fix ys e zs acc assume es: "?es = ys @ e # zs" and P: "?P ys acc"
    obtain j a where e: "e = (j, a)" by fastforce
    obtain m M where acc: "acc = (m, M)" by fastforce
    have "j < n" using idx [of j a] es e by simp
    then have b: "lb_ok (?L ! j) (x j)" "ub_ok (?U ! j) (x j)" using win by (simp_all add: in_bounds_def)
    have mM: "min_sum ?L ?U ys m" "max_sum ?L ?U ys M" using P acc by simp_all
    have "activity_step s j a (m, M) = (m + cmin ?L ?U (j, a), M + cmax ?L ?U (j, a))"
      by (rule activity_step_eq [OF b]) (use mM in \<open>auto simp: min_sum_def max_sum_def\<close>)
    moreover have "min_sum ?L ?U (ys @ [e]) (m + cmin ?L ?U (j, a))"
      using mM(1) contribution(1) [where L = ?L and U = ?U and j = j and a = a and x = x, OF b] by (auto simp: min_sum_def e)
    moreover have "max_sum ?L ?U (ys @ [e]) (M + cmax ?L ?U (j, a))"
      using mM(2) contribution(2) [where L = ?L and U = ?U and j = j and a = a and x = x, OF b] by (auto simp: max_sum_def e)
    ultimately show "?P (ys @ [e]) (activity_step s (fst e) (snd e) acc)" by (simp add: e acc)
  qed
  then show ?thesis by (simp add: eq)
qed


text \<open>What is left of a row for one entry, given the bounds of the others.\<close>

lemma member_slack:
  fixes f g :: "'e \<Rightarrow> rat"
  assumes "e \<in> set es" "\<And>d. d \<in> set es \<Longrightarrow> f d \<le> g d"
  shows "g e - f e \<le> sum_list (map g es) - sum_list (map f es)"
  using assms
proof (induction es)
  case (Cons d es)
  have "sum_list (map f es) \<le> sum_list (map g es)" using Cons.prems(2) by (intro sum_list_mono) simp
  then show ?case using Cons by fastforce
qed simp

lemma delta_min_ok:
  assumes b: "\<And>j a. (j, a) \<in> set es \<Longrightarrow> lb_ok (L ! j) (x j) \<and> ub_ok (U ! j) (x j)" and e: "(k, a) \<in> set es"
    and m: "min_sum L U es m" and ub: "ub_ok ub (sum_list (map (\<lambda>(j, a). a * x j) es))"
  shows "\<not> ub + fin t < m \<or> t < 0"
    and "case (ub - m) + cmin L U (k, a) of fin q \<Rightarrow> a * x k \<le> q | ninf \<Rightarrow> False | _ \<Rightarrow> True"
proof -
  let ?g = "\<lambda>(j, a). a * x j" and ?f = "\<lambda>e. num (cmin L U e)"
  have le: "?f d \<le> ?g d" if "d \<in> set es" "cmin L U d = fin (?f d)" for d
    using contribution(1) [of L "fst d" x U "snd d"] b [of "fst d" "snd d"] that by (cases d) auto
  have slack: "?g (k, a) - ?f (k, a) \<le> sum_list (map ?g es) - sum_list (map ?f es)" if "\<forall>d \<in> set es. cmin L U d = fin (?f d)"
    using member_slack [OF e, of ?f ?g] le that by blast
  have c: "cmin L U (k, a) = ninf \<or> (\<exists>c. cmin L U (k, a) = fin c)" using contribution(1) [of L k x U a] b [OF e] by auto
  have sums: "sum_list (map ?f es) \<le> sum_list (map ?g es)" if "\<forall>d \<in> set es. cmin L U d = fin (?f d)"
    using le that by (intro sum_list_mono) auto
  show "\<not> ub + fin t < m \<or> t < 0"
    using m ub sums by (cases ub) (auto simp: min_sum_def)
  show "case (ub - m) + cmin L U (k, a) of fin q \<Rightarrow> a * x k \<le> q | ninf \<Rightarrow> False | _ \<Rightarrow> True"
  proof (cases "m = ninf")
    case True
    then show ?thesis using ub c by (cases ub) (auto simp: minus_xval_def)
  next
    case False
    then have fin: "\<forall>d \<in> set es. cmin L U d = fin (?f d)" "m = fin (sum_list (map ?f es))" using m by (auto simp: min_sum_def)
    obtain c where c: "cmin L U (k, a) = fin c" using bspec [OF fin(1) e] by blast
    show ?thesis using ub slack [OF fin(1)] by (cases ub) (auto simp: minus_xval_def fin(2) c)
  qed
qed

lemma delta_max_ok:
  assumes b: "\<And>j a. (j, a) \<in> set es \<Longrightarrow> lb_ok (L ! j) (x j) \<and> ub_ok (U ! j) (x j)" and e: "(k, a) \<in> set es"
    and m: "max_sum L U es m" and lb: "lb_ok lb (sum_list (map (\<lambda>(j, a). a * x j) es))"
  shows "\<not> m < lb - fin t \<or> t < 0"
    and "case (lb - m) + cmax L U (k, a) of fin q \<Rightarrow> q \<le> a * x k | pinf \<Rightarrow> False | _ \<Rightarrow> True"
proof -
  let ?f = "\<lambda>(j, a). a * x j" and ?g = "\<lambda>e. num (cmax L U e)"
  have le: "?f d \<le> ?g d" if "d \<in> set es" "cmax L U d = fin (?g d)" for d
    using contribution(2) [of L "fst d" x U "snd d"] b [of "fst d" "snd d"] that by (cases d) auto
  have slack: "?g (k, a) - ?f (k, a) \<le> sum_list (map ?g es) - sum_list (map ?f es)" if "\<forall>d \<in> set es. cmax L U d = fin (?g d)"
    using member_slack [OF e, of ?f ?g] le that by blast
  have c: "cmax L U (k, a) = pinf \<or> (\<exists>c. cmax L U (k, a) = fin c)" using contribution(2) [of L k x U a] b [OF e] by auto
  have sums: "sum_list (map ?f es) \<le> sum_list (map ?g es)" if "\<forall>d \<in> set es. cmax L U d = fin (?g d)"
    using le that by (intro sum_list_mono) auto
  show "\<not> m < lb - fin t \<or> t < 0"
    using m lb sums by (cases lb) (auto simp: max_sum_def minus_xval_def)
  show "case (lb - m) + cmax L U (k, a) of fin q \<Rightarrow> q \<le> a * x k | pinf \<Rightarrow> False | _ \<Rightarrow> True"
  proof (cases "m = pinf")
    case True
    then show ?thesis using lb c by (cases lb) (auto simp: minus_xval_def)
  next
    case False
    then have fin: "\<forall>d \<in> set es. cmax L U d = fin (?g d)" "m = fin (sum_list (map ?g es))" using m by (auto simp: max_sum_def)
    obtain c where c: "cmax L U (k, a) = fin c" using bspec [OF fin(1) e] by blast
    show ?thesis using lb slack [OF fin(1)] by (cases lb) (auto simp: minus_xval_def fin(2) c)
  qed
qed

text \<open>A bound of the product with a coefficient gives a bound of the variable.\<close>

lemma update_ok:
  assumes "a \<noteq> 0" "lb_ok old_lb y" "ub_ok old_ub y"
    and "case dmin of fin q \<Rightarrow> a * y \<le> q | ninf \<Rightarrow> False | _ \<Rightarrow> True" "case dmax of fin q \<Rightarrow> q \<le> a * y | pinf \<Rightarrow> False | _ \<Rightarrow> True"
  shows "lb_ok (update_lb old_lb a dmin dmax) y" "ub_ok (update_ub old_ub a dmin dmax) y"
  unfolding update_lb_def update_ub_def
  using assms by (auto intro!: std_max_lb std_min_ub split: xval.splits simp: field_simps)


section \<open>The loop over the rows\<close>

text \<open>The stored deltas of row \<open>i\<close> are those of the bounds \<open>L\<close> and \<open>U\<close>.\<close>

definition deltas_ok :: "bounds_strengthening_data \<Rightarrow> xval list \<Rightarrow> xval list \<Rightarrow> work \<Rightarrow> nat \<Rightarrow> bool" where
  "deltas_ok B L U s i \<longleftrightarrow> (\<exists>m M. min_sum L U (lp_row B i) m \<and> max_sum L U (lp_row B i) M
      \<and> delta_min_activity s ! i = constraint_ub B ! i - m \<and> delta_max_activity s ! i = constraint_lb B ! i - M)"

text \<open>What the loop over the rows leaves alone.\<close>

definition same_bounds :: "work \<Rightarrow> work \<Rightarrow> bool" where
  "same_bounds s s' \<longleftrightarrow> lower s' = lower s \<and> upper s' = upper s \<and> constraint_changed s' = constraint_changed s
      \<and> length (delta_min_activity s') = length (delta_min_activity s) \<and> length (delta_max_activity s') = length (delta_max_activity s)"

text \<open>A point that satisfies the rows and the bounds, and the matrices it is a point of.\<close>

definition feasible :: "bounds_strengthening_data \<Rightarrow> tolerances \<Rightarrow> (nat \<Rightarrow> rat) \<Rightarrow> bool" where
  "feasible B settings x \<longleftrightarrow> matrices_ok B \<and> satisfies_rows B x \<and> integral B x \<and> 0 \<le> primal_tol settings \<and> 0 \<le> integer_tol settings"

lemma feasible_row:
  assumes "feasible B settings x" "in_bounds x (csc_n (A B)) L U" "i < csc_m (A B)"
  shows "(j, a) \<in> set (lp_row B i) \<Longrightarrow> lb_ok (L ! j) (x j) \<and> ub_ok (U ! j) (x j)"
    and "lb_ok (constraint_lb B ! i) (sum_list (map (\<lambda>(j, a). a * x j) (lp_row B i)))"
    and "ub_ok (constraint_ub B ! i) (sum_list (map (\<lambda>(j, a). a * x j) (lp_row B i)))"
  using assms matrices_ok_D(4) by (auto simp: feasible_def in_bounds_def satisfies_rows_def row_value_def)

lemma activity_bounds:
  assumes b: "\<And>j a. (j, a) \<in> set es \<Longrightarrow> lb_ok (L ! j) (x j) \<and> ub_ok (U ! j) (x j)"
  shows "min_sum L U es m \<Longrightarrow> ub_ok ub (sum_list (map (\<lambda>(j, a). a * x j) es)) \<Longrightarrow> 0 \<le> t \<Longrightarrow> \<not> ub + fin t < m"
    and "max_sum L U es M \<Longrightarrow> lb_ok lb (sum_list (map (\<lambda>(j, a). a * x j) es)) \<Longrightarrow> 0 \<le> t \<Longrightarrow> \<not> M < lb - fin t"
  subgoal using delta_min_ok(1) [where es = es and L = L and U = U and x = x and m = m and ub = ub and t = t] b
    by (cases es) (auto simp: min_sum_def elim!: ub_okE)
  subgoal using delta_max_ok(1) [where es = es and L = L and U = U and x = x and m = M and lb = lb and t = t] b
    by (cases es) (auto simp: max_sum_def minus_xval_def elim!: lb_okE)
  done

lemma scan_constraint_ok:
  assumes f: "feasible B settings x" and b: "in_bounds x (csc_n (A B)) (lower s) (upper s)" and i: "i < csc_m (A B)"
    and len: "length (delta_min_activity s) = csc_m (A B)" "length (delta_max_activity s) = csc_m (A B)"
  shows "\<exists>s'. scan_constraint B settings i s = Inr s' \<and> same_bounds s s'
     \<and> (constraint_changed s ! i \<longrightarrow> deltas_ok B (lower s) (upper s) s' i)
     \<and> (\<forall>k. deltas_ok B (lower s) (upper s) s k \<longrightarrow> deltas_ok B (lower s) (upper s) s' k)"
proof -
  obtain m M where a: "row_activity B i s = (m, M)" by fastforce
  have "j < csc_n (A B)" if "(j, a) \<in> set (lp_row B i)" for j a using matrices_ok_D(4) that i f by (auto simp: feasible_def)
  then have sums: "min_sum (lower s) (upper s) (lp_row B i) m" "max_sum (lower s) (upper s) (lp_row B i) M"
    using row_activity_sums [OF b, of B i] a by auto
  note r = feasible_row [OF f b i]
  have "\<not> check_infeasibility m M (constraint_lb B ! i) (constraint_ub B ! i) (primal_tol settings)"
    using activity_bounds [where es = "lp_row B i" and L = "lower s" and U = "upper s" and x = x] r sums f
    by (simp add: check_infeasibility_def feasible_def)
  then show ?thesis
    using sums len i by (auto simp: scan_constraint_def a Let_def same_bounds_def deltas_ok_def nth_list_update)
qed

lemma constraint_loop_ok:
  assumes "feasible B settings x" "in_bounds x (csc_n (A B)) (lower s) (upper s)" "set is \<subseteq> {..<csc_m (A B)}"
    "length (delta_min_activity s) = csc_m (A B)" "length (delta_max_activity s) = csc_m (A B)"
  shows "\<exists>s'. constraint_loop B settings is s = Inr s' \<and> same_bounds s s'
     \<and> (\<forall>i \<in> set is. constraint_changed s ! i \<longrightarrow> deltas_ok B (lower s) (upper s) s' i)
     \<and> (\<forall>k. deltas_ok B (lower s) (upper s) s k \<longrightarrow> deltas_ok B (lower s) (upper s) s' k)"
  using assms
proof (induction "is" arbitrary: s)
  case (Cons i "is")
  obtain s1 where s1: "scan_constraint B settings i s = Inr s1" "same_bounds s s1"
    "constraint_changed s ! i \<longrightarrow> deltas_ok B (lower s) (upper s) s1 i"
    "\<forall>k. deltas_ok B (lower s) (upper s) s k \<longrightarrow> deltas_ok B (lower s) (upper s) s1 k"
    using scan_constraint_ok [OF Cons.prems(1,2) _ Cons.prems(4,5), of i] Cons.prems(3) by auto
  obtain s2 where "constraint_loop B settings is s1 = Inr s2" "same_bounds s1 s2"
    "\<forall>i \<in> set is. constraint_changed s1 ! i \<longrightarrow> deltas_ok B (lower s1) (upper s1) s2 i"
    "\<forall>k. deltas_ok B (lower s1) (upper s1) s1 k \<longrightarrow> deltas_ok B (lower s1) (upper s1) s2 k"
    using Cons.IH [of s1] Cons.prems s1(2) by (auto simp: same_bounds_def)
  then show ?case using s1 by (auto simp: same_bounds_def)
qed (simp add: same_bounds_def)

section \<open>The loop over the variables\<close>

definition tightened :: "xval list \<Rightarrow> xval list \<Rightarrow> xval list \<Rightarrow> xval list \<Rightarrow> bool" where
  "tightened lower_bounds upper_bounds L U \<longleftrightarrow> (\<forall>k < length L. lower_bounds ! k \<le> L ! k \<and> U ! k \<le> upper_bounds ! k)"

lemma bound_steps_ok:
  assumes f: "feasible B settings x" and b: "in_bounds x (csc_n (A B)) L U" and k: "k < csc_n (A B)"
    and d: "\<And>i. i < csc_m (A B) \<Longrightarrow> constraint_changed s ! i \<Longrightarrow> deltas_ok B L U s i"
  shows "case fold (bound_step B s (L ! k) (U ! k)) (col_positions B k) (L ! k, U ! k) of (l, u) \<Rightarrow> lb_ok l (x k) \<and> ub_ok u (x k)"
proof (rule fold_invariant [where P = "\<lambda>(l, u). lb_ok l (x k) \<and> ub_ok u (x k)"])
  have kb: "lb_ok (L ! k) (x k)" "ub_ok (U ! k) (x k)" using b k by (simp_all add: in_bounds_def)
  then show "case (L ! k, U ! k) of (l, u) \<Rightarrow> lb_ok l (x k) \<and> ub_ok u (x k)" by simp
  fix p acc assume p: "p \<in> set (col_positions B k)" and acc: "case acc of (l, u) \<Rightarrow> lb_ok l (x k) \<and> ub_ok u (x k)"
  let ?i = "csc_i (A B) ! p" and ?a = "csc_x (A B) ! p"
  have M: "matrices_ok B" using f by (simp add: feasible_def)
  note ia = matrices_ok_D(1-3) [OF M k p]
  show "case bound_step B s (L ! k) (U ! k) p acc of (l, u) \<Rightarrow> lb_ok l (x k) \<and> ub_ok u (x k)"
  proof (cases "constraint_changed s ! ?i")
    case True
    then obtain m M' where mM: "min_sum L U (lp_row B ?i) m" "max_sum L U (lp_row B ?i) M'"
      "delta_min_activity s ! ?i = constraint_ub B ! ?i - m" "delta_max_activity s ! ?i = constraint_lb B ! ?i - M'"
      using d [OF ia(1)] by (auto simp: deltas_ok_def)
    note r = feasible_row [OF f b ia(1)]
    have c: "cmin L U (k, ?a) = (if ?a < 0 then xmul ?a (U ! k) else xmul ?a (L ! k))"
      "cmax L U (k, ?a) = (if ?a > 0 then xmul ?a (U ! k) else xmul ?a (L ! k))" using ia(2) by (auto simp: cmin_def cmax_def)
    note dmin = delta_min_ok(2) [OF r(1) ia(3) mM(1) r(3)] and dmax = delta_max_ok(2) [OF r(1) ia(3) mM(2) r(2)]
    note u = update_ok [OF ia(2) kb dmin dmax]
    show ?thesis using True acc u
      by (auto simp: bound_step_def Let_def mM(3,4) c split: prod.splits intro: std_max_lb std_min_ub)
  qed (use acc in \<open>simp add: bound_step_def split: prod.splits\<close>)
qed

lemma round_bounds_ok:
  assumes "feasible B settings x" "k < csc_n (A B)" "lb_ok l (x k)" "ub_ok u (x k)"
  shows "case round_bounds B settings k (l, u) of (l, u) \<Rightarrow> lb_ok l (x k) \<and> ub_ok u (x k)"
  using assms by (auto simp: round_bounds_def feasible_def integral_def intro: std_ceil_lb std_floor_ub)


lemma std_max_above: "lb_ok a y \<Longrightarrow> lb_ok b y \<Longrightarrow> b \<le> std_max a b"
  by (cases a; cases b) (auto simp: std_max_def less_eq_xval_def)

lemma std_min_below: "ub_ok a y \<Longrightarrow> ub_ok b y \<Longrightarrow> std_min a b \<le> b"
  by (cases a; cases b) (auto simp: std_min_def less_eq_xval_def)

lemma strengthen_variable_ok:
  assumes f: "feasible B settings x" and b0: "in_bounds x (csc_n (A B)) lower_bounds upper_bounds"
    and b: "in_bounds x (csc_n (A B)) (lower s) (upper s)" and t: "tightened lower_bounds upper_bounds (lower s) (upper s)"
    and LU: "in_bounds x (csc_n (A B)) L U" and k: "k < csc_n (A B)" "lower s ! k = L ! k" "upper s ! k = U ! k"
    and d: "\<And>i. i < csc_m (A B) \<Longrightarrow> constraint_changed s ! i \<Longrightarrow> deltas_ok B L U s i"
  shows "\<exists>s'. strengthen_variable B settings lower_bounds upper_bounds k s = Inr s'
     \<and> in_bounds x (csc_n (A B)) (lower s') (upper s') \<and> tightened lower_bounds upper_bounds (lower s') (upper s')
     \<and> constraint_changed s' = constraint_changed s \<and> delta_min_activity s' = delta_min_activity s
     \<and> delta_max_activity s' = delta_max_activity s
     \<and> (\<forall>j. j \<noteq> k \<longrightarrow> lower s' ! j = lower s ! j \<and> upper s' ! j = upper s ! j)"
proof (cases "variable_changed s ! k")
  case True
  define bs where "bs = fold (bound_step B s (L ! k) (U ! k)) (col_positions B k) (L ! k, U ! k)"
  obtain l u where lu: "round_bounds B settings k bs = (l, u)" by fastforce
  have ok: "lb_ok l (x k)" "ub_ok u (x k)"
    using round_bounds_ok [OF f k(1), of "fst bs" "snd bs"] bound_steps_ok [OF f LU k(1) d] lu
    by (auto simp: bs_def split: prod.splits)
  have ok0: "lb_ok (lower_bounds ! k) (x k)" "ub_ok (upper_bounds ! k) (x k)" using b0 k(1) by (simp_all add: in_bounds_def)
  define l' u' where "l' = std_max l (lower_bounds ! k)" and "u' = std_min u (upper_bounds ! k)"
  have ok': "lb_ok l' (x k)" "ub_ok u' (x k)" using ok ok0 by (simp_all add: l'_def u'_def std_max_lb std_min_ub)
  have tight: "lower_bounds ! k \<le> l'" "u' \<le> upper_bounds ! k"
    using ok ok0 std_max_above std_min_below by (auto simp: l'_def u'_def)
  have "\<not> u' + fin (primal_tol settings) < l'" by (rule bounds_cross_tol [OF ok']) (use f in \<open>simp add: feasible_def\<close>)
  moreover have "std_min l' u' = l'" "std_max l' u' = u'" using std_min_same [OF ok'] by auto
  ultimately show ?thesis
    using True b t ok' tight k(1) lu
    by (auto simp: strengthen_variable_def Let_def k(2,3) bs_def [symmetric] l'_def [symmetric] u'_def [symmetric]
        in_bounds_def tightened_def nth_list_update)
qed (use b t in \<open>auto simp: strengthen_variable_def\<close>)

lemma variable_loop_ok:
  assumes "feasible B settings x" "in_bounds x (csc_n (A B)) lower_bounds upper_bounds"
    "in_bounds x (csc_n (A B)) L U" "set ks \<subseteq> {..<csc_n (A B)}" "distinct ks"
    "in_bounds x (csc_n (A B)) (lower s) (upper s)" "tightened lower_bounds upper_bounds (lower s) (upper s)"
    "\<forall>k \<in> set ks. lower s ! k = L ! k \<and> upper s ! k = U ! k"
    "\<forall>i < csc_m (A B). constraint_changed s ! i \<longrightarrow> deltas_ok B L U s i"
  shows "\<exists>s'. variable_loop B settings lower_bounds upper_bounds ks s = Inr s'
     \<and> in_bounds x (csc_n (A B)) (lower s') (upper s') \<and> tightened lower_bounds upper_bounds (lower s') (upper s')
     \<and> length (delta_min_activity s') = length (delta_min_activity s) \<and> length (delta_max_activity s') = length (delta_max_activity s)"
  using assms(4-)
proof (induction ks arbitrary: s)
  case (Cons k ks)
  obtain s1 where s1: "strengthen_variable B settings lower_bounds upper_bounds k s = Inr s1"
    "in_bounds x (csc_n (A B)) (lower s1) (upper s1)" "tightened lower_bounds upper_bounds (lower s1) (upper s1)"
    "constraint_changed s1 = constraint_changed s" "delta_min_activity s1 = delta_min_activity s"
    "delta_max_activity s1 = delta_max_activity s"
    "\<forall>j. j \<noteq> k \<longrightarrow> lower s1 ! j = lower s ! j \<and> upper s1 ! j = upper s ! j"
    using strengthen_variable_ok [OF assms(1,2) Cons.prems(3,4) assms(3), of k] Cons.prems by auto
  have "\<exists>s'. variable_loop B settings lower_bounds upper_bounds ks s1 = Inr s'
     \<and> in_bounds x (csc_n (A B)) (lower s') (upper s') \<and> tightened lower_bounds upper_bounds (lower s') (upper s')
     \<and> length (delta_min_activity s') = length (delta_min_activity s1) \<and> length (delta_max_activity s') = length (delta_max_activity s1)"
    using Cons.prems s1 by (intro Cons.IH) (auto simp: deltas_ok_def)
  then show ?case using s1 by simp
qed simp

section \<open>The rounds\<close>

lemma iterations_ok:
  assumes "feasible B settings x" "in_bounds x (csc_n (A B)) lower_bounds upper_bounds"
    "in_bounds x (csc_n (A B)) (lower s) (upper s)" "tightened lower_bounds upper_bounds (lower s) (upper s)"
    "length (delta_min_activity s) = csc_m (A B)" "length (delta_max_activity s) = csc_m (A B)"
  shows "\<exists>s'. iterations left B settings lower_bounds upper_bounds s = Inr s'
     \<and> in_bounds x (csc_n (A B)) (lower s') (upper s') \<and> tightened lower_bounds upper_bounds (lower s') (upper s')"
  using assms(3-)
proof (induction left arbitrary: s)
  case (Suc left)
  obtain s1 where s1: "constraint_loop B settings [0..<csc_m (A B)] s = Inr s1" "same_bounds s s1"
    "\<forall>i < csc_m (A B). constraint_changed s ! i \<longrightarrow> deltas_ok B (lower s) (upper s) s1 i"
    using constraint_loop_ok [OF assms(1) Suc.prems(1) _ Suc.prems(3,4), of "[0..<csc_m (A B)]"] by (auto simp: atLeast0LessThan)
  let ?s1 = "s1\<lparr>num_bounds_changed := 0\<rparr>"
  have "\<exists>s'. variable_loop B settings lower_bounds upper_bounds [0..<csc_n (A B)] ?s1 = Inr s'
     \<and> in_bounds x (csc_n (A B)) (lower s') (upper s') \<and> tightened lower_bounds upper_bounds (lower s') (upper s')
     \<and> length (delta_min_activity s') = length (delta_min_activity ?s1) \<and> length (delta_max_activity s') = length (delta_max_activity ?s1)"
    by (rule variable_loop_ok [OF assms(1,2) Suc.prems(1)]) (use s1 Suc.prems in \<open>auto simp: same_bounds_def deltas_ok_def\<close>)
  then obtain s2 where s2: "variable_loop B settings lower_bounds upper_bounds [0..<csc_n (A B)] ?s1 = Inr s2"
    "in_bounds x (csc_n (A B)) (lower s2) (upper s2)" "tightened lower_bounds upper_bounds (lower s2) (upper s2)"
    "length (delta_min_activity s2) = csc_m (A B)" "length (delta_max_activity s2) = csc_m (A B)"
    using s1(2) Suc.prems(3,4) by (auto simp: same_bounds_def)
  show ?case using Suc.IH s1(1) s2 by auto
qed simp

lemma strengthening_keeps:
  assumes "matrices_ok B" "satisfies_rows B x" "integral B x" "0 \<le> primal_tol settings" "0 \<le> integer_tol settings"
    and "in_bounds x (csc_n (A B)) lower_bounds upper_bounds"
    and "bounds_strengthening B settings bounds_changed lower_bounds upper_bounds = (feasible_bounds, L, U, processed)"
  shows "feasible_bounds \<and> in_bounds x (csc_n (A B)) L U \<and> tightened lower_bounds upper_bounds L U"
proof -
  have f: "feasible B settings x" using assms(1-5) by (simp add: feasible_def)
  have t: "tightened lower_bounds upper_bounds lower_bounds upper_bounds"
    using assms(6) by (auto simp: tightened_def in_bounds_def less_eq_xval_def)
  from iterations_ok [OF f assms(6), of "\<lparr>lower = lower_bounds, upper = upper_bounds,
       delta_min_activity = replicate (csc_m (A B)) (fin 0), delta_max_activity = replicate (csc_m (A B)) (fin 0),
       constraint_changed = initially_changed B bounds_changed, variable_changed = replicate (csc_n (A B)) False,
       constraint_changed_next = replicate (csc_m (A B)) False, nnz_processed = 0, num_bounds_changed = 0\<rparr>" iter_limit]
    assms(6,7) t
  show ?thesis
    by (auto simp: bounds_strengthening_def)
qed



text \<open>Two integer variables with \<open>2 x + 3 y \<le> 7\<close>: \<open>y\<close> has no upper bound at first.\<close>

definition small_data :: bounds_strengthening_data where
  "small_data = bounds_strengthening_t
     \<lparr>csc_m = 1, csc_n = 2, csc_nz_max = 2, col_start = [0, 1, 2], csc_i = [0, 0], csc_x = [2, 3]\<rparr> [7]
     \<lparr>csr_nz_max = 2, csr_m = 1, csr_n = 2, row_start = [0, 2], csr_j = [0, 1], csr_x = [2, 3]\<rparr> [CHR ''L''] [INTEGER, INTEGER]"

definition small_tolerances :: tolerances where
  "small_tolerances = \<lparr>primal_tol = 1 / 1000000, integer_tol = 1 / 100000\<rparr>"

lemma small_run:
  "bounds_strengthening small_data small_tolerances [] [fin 0, fin 0] [fin 10, pinf] = (True, [fin 0, fin 0], [fin 3, fin 2], 8)"
  by code_simp


end
