(* ===== verification/Tree_Search.thy ===== *)
theory Tree_Search
  imports Node_Queue Bounds_Strengthening
begin

text \<open>
  The best-first search of the branch and bound, \<open>branch_and_bound/branch_and_bound.cpp\<close> and \<open>worker.hpp\<close>:
  bounds of a node, acceptance of incumbents, rounding of objective bounds to the lattice of
  objective values, the update of the tree after a node relaxation, and the loop of a worker with its
  stack and its queue. The answers of the LP solver, of the branching rule and of the estimate are
  arguments. Symmetry reductions are off, as by default. Numbers are exact.
\<close>

section \<open>Bounds of a relaxation\<close>

definition std_round :: "rat \<Rightarrow> int" where
  "std_round x = (if x < 0 then - \<lfloor>- x + 1 / 2\<rfloor> else \<lfloor>x + 1 / 2\<rfloor>)"

definition is_fractional :: "rat \<Rightarrow> variable_type \<Rightarrow> rat \<Rightarrow> bool" where
  "is_fractional x var_type tol \<longleftrightarrow> (if var_type = CONTINUOUS then False else \<bar>of_int (std_round x) - x\<bar> > tol)"

definition fractional_variables :: "rat \<Rightarrow> rat list \<Rightarrow> variable_type list \<Rightarrow> nat list" where
  "fractional_variables tol x types =
     for_range 0 (length x) (\<lambda>j fractional. if is_fractional (x ! j) (types ! j) tol then fractional @ [j] else fractional) []"

definition compute_objective :: "rat list \<Rightarrow> rat list \<Rightarrow> rat" where
  "compute_objective objective x = for_range 0 (length objective) (\<lambda>j obj. obj + objective ! j * x ! j) 0"

record objective_step =
  step_size :: rat
  bias :: rat

definition has_step :: "objective_step \<Rightarrow> bool" where "has_step l \<longleftrightarrow> step_size l > 0"

record mip_settings = tolerances +
  dual_tol :: rat
  absolute_mip_gap_tol :: rat

record mip_problem =
  presolver :: bounds_strengthening_data
  objective :: "rat list"
  objective_lattice :: objective_step
  objective_is_integral :: bool
  lp_lower :: "xval list"
  lp_upper :: "xval list"

definition snap_to_lattice :: "mip_settings \<Rightarrow> mip_problem \<Rightarrow> rat \<Rightarrow> xval \<Rightarrow> xval" where
  "snap_to_lattice S P leaf_obj lb =
     (if has_step (objective_lattice P)
      then let step = step_size (objective_lattice P); b = bias (objective_lattice P); k = \<lceil>(leaf_obj - b) / step - integer_tol S\<rceil>
           in fin (of_int k * step + b)
      else if objective_is_integral P then fin (of_int \<lceil>leaf_obj - integer_tol S\<rceil>) else lb)"

definition compute_node_cutoff :: "mip_settings \<Rightarrow> mip_problem \<Rightarrow> xval \<Rightarrow> xval" where
  "compute_node_cutoff S P upper_bound =
     (if has_step (objective_lattice P)
      then let step = step_size (objective_lattice P); b = bias (objective_lattice P);
               k = std_ceil (xdiv (upper_bound - fin b) step - fin (integer_tol S))
           in xmul step (k - fin 1) + fin b + fin (dual_tol S)
      else if objective_is_integral P then std_ceil (upper_bound - fin (integer_tol S)) - fin 1 + fin (dual_tol S)
      else upper_bound + fin (dual_tol S))"

section \<open>The shared state\<close>

record bnb =
  bnb_tree :: search_tree
  upper_bound :: xval
  incumbent :: "(rat \<times> rat list) option"
  lower_bound_numerical :: xval

definition accept_new_incumbent :: "mip_settings \<Rightarrow> mip_problem \<Rightarrow> (rat \<times> rat list) option \<Rightarrow> rat \<Rightarrow> bool" where
  "accept_new_incumbent S P inc obj =
     (case inc of None \<Rightarrow> True
      | Some (inc_obj, _) \<Rightarrow>
        let threshold = fin (inc_obj - primal_tol S);
            step = (if has_step (objective_lattice P) then step_size (objective_lattice P) else if objective_is_integral P then 1 else 0);
            threshold = (if step > 0 then std_min threshold (compute_node_cutoff S P (fin inc_obj) - fin (dual_tol S) + fin (1 / 2 * step)) else threshold)
        in fin obj < threshold)"

definition add_feasible_solution :: "mip_settings \<Rightarrow> mip_problem \<Rightarrow> rat \<Rightarrow> rat list \<Rightarrow> bnb \<Rightarrow> bnb" where
  "add_feasible_solution S P leaf_objective leaf_solution s =
     (if accept_new_incumbent S P (incumbent s) leaf_objective
      then s\<lparr>incumbent := Some (leaf_objective, leaf_solution),
             upper_bound := (if fin leaf_objective < upper_bound s then fin leaf_objective else upper_bound s)\<rparr>
      else s)"

datatype dual_status = LP_OPTIMAL | LP_DUAL_UNBOUNDED | LP_NUMERICAL | LP_CUTOFF | LP_TIME_LIMIT | LP_ITERATION_LIMIT
  | LP_CONCURRENT_LIMIT | LP_WORK_LIMIT | LP_UNSET

text \<open>What the solver of a relaxation hands back, and the answers of the branching rule and the estimate.\<close>

record relaxation =
  lp_status :: dual_status
  lp_x :: "rat list"
  lp_vstatus :: "variable_status list"
  choice :: "nat \<times> branch_direction"
  estimate :: xval

definition put_node :: "nat \<Rightarrow> mip_node \<Rightarrow> bnb \<Rightarrow> bnb" where
  "put_node a n s = s\<lparr>bnb_tree := (bnb_tree s)\<lparr>nodes := (nodes (bnb_tree s))(a \<mapsto> n)\<rparr>\<rparr>"

definition put_status :: "nat \<Rightarrow> node_status \<Rightarrow> bnb \<Rightarrow> bnb option" where
  "put_status a st s = map_option (\<lambda>mem. s\<lparr>bnb_tree := (bnb_tree s)\<lparr>nodes := mem\<rparr>\<rparr>) (set_node_status (nodes (bnb_tree s)) a st)"

text \<open>The case of an optimal relaxation: an integer solution, two children, or a node that cannot improve.\<close>

definition update_optimal ::
    "mip_settings \<Rightarrow> mip_problem \<Rightarrow> xval list \<Rightarrow> xval list \<Rightarrow> relaxation \<Rightarrow> nat \<Rightarrow> nat \<Rightarrow> nat \<Rightarrow> mip_node \<Rightarrow> bnb \<Rightarrow> (node_status \<times> bnb) option" where
  "update_optimal S P leaf_lower leaf_upper r down up a n s =
     (let ub = upper_bound s;
          fractional = fractional_variables (integer_tol S) (lp_x r) (var_types (presolver P));
          leaf_obj = compute_objective (objective P) (lp_x r);
          n = n\<lparr>lower_bound := snap_to_lattice S P leaf_obj (fin leaf_obj)\<rparr>;
          s = put_node a n s
      in if fractional = [] then Some (INTEGER_FEASIBLE, add_feasible_solution S P leaf_obj (lp_x r) s)
         else if lower_bound n \<le> ub + fin (absolute_mip_gap_tol S / 10)
         then let s = put_node a (n\<lparr>objective_estimate := estimate r\<rparr>) s
              in case branch a down up (fst (choice r)) (fin (lp_x r ! fst (choice r))) (int (length fractional)) (lp_vstatus r)
                        leaf_lower leaf_upper (bnb_tree s) of None \<Rightarrow> None
                 | Some t \<Rightarrow> map_option (\<lambda>s. (HAS_CHILDREN, s)) (put_status a HAS_CHILDREN (s\<lparr>bnb_tree := t\<rparr>))
         else Some (FATHOMED, s))"

definition update_tree ::
    "mip_settings \<Rightarrow> mip_problem \<Rightarrow> xval list \<Rightarrow> xval list \<Rightarrow> relaxation \<Rightarrow> nat \<Rightarrow> nat \<Rightarrow> nat \<Rightarrow> bnb \<Rightarrow> (node_status \<times> bnb) option" where
  "update_tree S P leaf_lower leaf_upper r down up a s =
     (case nodes (bnb_tree s) a of None \<Rightarrow> None
      | Some n \<Rightarrow>
        Option.bind
          (case lp_status r of
             LP_DUAL_UNBOUNDED \<Rightarrow> Some (INFEASIBLE, put_node a (n\<lparr>lower_bound := pinf\<rparr>) s)
           | LP_CUTOFF \<Rightarrow> Some (FATHOMED, put_node a (n\<lparr>lower_bound := upper_bound s\<rparr>) s)
           | LP_OPTIMAL \<Rightarrow> update_optimal S P leaf_lower leaf_upper r down up a n s
           | LP_TIME_LIMIT \<Rightarrow> Some (PENDING, s)
           | LP_WORK_LIMIT \<Rightarrow> Some (PENDING, s)
           | _ \<Rightarrow> Some (NUMERICAL, s\<lparr>lower_bound_numerical := (if lower_bound n < lower_bound_numerical s then lower_bound n else lower_bound_numerical s)\<rparr>))
          (\<lambda>(st, s). if inactive_status st then map_option (\<lambda>s. (st, s)) (put_status a st s) else Some (st, s)))"

section \<open>Workers\<close>

record bfs_worker =
  queue :: node_queue
  stack :: "nat list"
  current :: "nat option"
  recompute_bounds :: bool
  leaf_lower :: "xval list"
  leaf_upper :: "xval list"

record bnb_search =
  shared :: bnb
  workers :: "bfs_worker list"

abbreviation memory :: "bnb_search \<Rightarrow> node_memory" where "memory s \<equiv> nodes (bnb_tree (shared s))"

definition set_lp_variable_bounds :: "mip_settings \<Rightarrow> mip_problem \<Rightarrow> node_memory \<Rightarrow> mip_node \<Rightarrow> bfs_worker \<Rightarrow> (bool \<times> bfs_worker) option" where
  "set_lp_variable_bounds S P mem n w =
     (let bounds_changed = replicate (length (lp_lower P)) False
      in case (if recompute_bounds w then get_variable_bounds mem n (lp_lower P, lp_upper P, bounds_changed)
               else Some (update_branched_variable_bounds n (leaf_lower w, leaf_upper w, bounds_changed))) of None \<Rightarrow> None
         | Some (lo, hi, bounds_changed) \<Rightarrow>
             (case bounds_strengthening (presolver P) (tolerances.truncate S) bounds_changed lo hi of
                (feasible_bounds, lo, hi, _) \<Rightarrow> Some (feasible_bounds, w\<lparr>leaf_lower := lo, leaf_upper := hi\<rparr>)))"

definition set_worker :: "nat \<Rightarrow> bfs_worker \<Rightarrow> bnb_search \<Rightarrow> bnb_search" where
  "set_worker i w s = s\<lparr>workers := (workers s)[i := w]\<rparr>"

definition push_atomic :: "nat \<Rightarrow> node_memory \<Rightarrow> bfs_worker \<Rightarrow> bfs_worker option" where
  "push_atomic a mem w = map_option (\<lambda>q. w\<lparr>queue := q\<rparr>) (push_lockfree mem a (queue w))"

text \<open>Giving up a node that can no longer improve the incumbent.\<close>

definition fathom :: "nat \<Rightarrow> nat \<Rightarrow> bfs_worker \<Rightarrow> bnb_search \<Rightarrow> bnb_search option" where
  "fathom i a w s = map_option (\<lambda>b. set_worker i w (s\<lparr>shared := b\<rparr>)) (put_status a FATHOMED (shared s))"

text \<open>\<open>best_first_search_with\<close>: the next start node of worker \<open>i\<close>.\<close>

definition start_plunge :: "nat \<Rightarrow> bnb_search \<Rightarrow> bnb_search option" where
  "start_plunge i s =
     (let w = workers s ! i
      in case queue_pop (queue w) of None \<Rightarrow> None
         | Some (None, q) \<Rightarrow> Some s
         | Some (Some a, q) \<Rightarrow> (case memory s a of None \<Rightarrow> None
             | Some n \<Rightarrow> if upper_bound (shared s) < lower_bound n then fathom i a (w\<lparr>queue := q\<rparr>) s
                         else Some (set_worker i (w\<lparr>queue := q, stack := [a], recompute_bounds := True\<rparr>) s)))"

text \<open>\<open>plunge_with\<close>: the next node of the stack, and a node that goes back when a limit is hit.\<close>

definition take_node :: "nat \<Rightarrow> bnb_search \<Rightarrow> bnb_search option" where
  "take_node i s =
     (let w = workers s ! i
      in case stack w of [] \<Rightarrow> Some s
         | a # rest \<Rightarrow> (case memory s a of None \<Rightarrow> None
             | Some n \<Rightarrow> if upper_bound (shared s) < lower_bound n then fathom i a (w\<lparr>stack := rest, recompute_bounds := True\<rparr>) s
                         else Some (set_worker i (w\<lparr>stack := rest, current := Some a\<rparr>) s)))"

definition put_back :: "nat \<Rightarrow> bnb_search \<Rightarrow> bnb_search" where
  "put_back i s =
     (let w = workers s ! i
      in case current w of None \<Rightarrow> s | Some a \<Rightarrow> set_worker i (w\<lparr>stack := a # stack w, current := None\<rparr>) s)"

text \<open>Where the two children go: the sibling that waits and one child may move to the queue.\<close>

definition evict_sibling :: "node_memory \<Rightarrow> bfs_worker \<Rightarrow> bfs_worker option" where
  "evict_sibling mem w =
     (if stack w = [] then Some w else push_atomic (last (stack w)) mem (w\<lparr>stack := butlast (stack w)\<rparr>))"

definition route_children :: "nat \<Rightarrow> node_memory \<Rightarrow> branch_direction \<Rightarrow> mip_node \<Rightarrow> bfs_worker \<Rightarrow> bfs_worker option" where
  "route_children min_node_queue_size mem round_dir n w =
     (case (if round_dir = UP then (down_child n, up_child n) else (up_child n, down_child n)) of
        (Some other, Some preferred) \<Rightarrow>
          Option.bind (evict_sibling mem w) (\<lambda>w.
          Option.bind (if best_first_queue_size (queue w) < min_node_queue_size then push_atomic other mem w
                       else Some (w\<lparr>stack := other # stack w\<rparr>)) (\<lambda>w.
          Some (w\<lparr>stack := preferred # stack w\<rparr>)))
      | _ \<Rightarrow> None)"

text \<open>The relaxation of the current node and the update that follows; the fresh addresses are \<open>down\<close> and \<open>up\<close>.\<close>

definition relaxation_status :: "bool \<Rightarrow> relaxation \<Rightarrow> relaxation" where
  "relaxation_status feasible_bounds r = (if feasible_bounds then r else r\<lparr>lp_status := LP_DUAL_UNBOUNDED\<rparr>)"

text \<open>A relaxation that was interrupted puts the node back on the stack and ends the plunge.\<close>

definition stops_plunge :: "dual_status \<Rightarrow> bool" where
  "stops_plunge st \<longleftrightarrow> st = LP_TIME_LIMIT \<or> st = LP_CONCURRENT_LIMIT \<or> st = LP_ITERATION_LIMIT"

definition finish_node :: "nat \<Rightarrow> relaxation \<Rightarrow> nat \<Rightarrow> nat \<Rightarrow> bfs_worker \<Rightarrow> bnb_search \<Rightarrow> node_status \<Rightarrow> bnb \<Rightarrow> bnb_search option" where
  "finish_node min_node_queue_size r i a w s st b =
     (let s = s\<lparr>shared := b\<rparr>; w = w\<lparr>current := None, recompute_bounds := (st \<noteq> HAS_CHILDREN)\<rparr>
      in if st = HAS_CHILDREN
         then (case memory s a of None \<Rightarrow> None
               | Some n \<Rightarrow> map_option (\<lambda>w. set_worker i w s) (route_children min_node_queue_size (memory s) (snd (choice r)) n w))
         else Some (set_worker i w s))"

definition explore :: "mip_settings \<Rightarrow> mip_problem \<Rightarrow> nat \<Rightarrow> relaxation \<Rightarrow> nat \<Rightarrow> nat \<Rightarrow> nat \<Rightarrow> bnb_search \<Rightarrow> bnb_search option" where
  "explore S P min_node_queue_size r down up i s =
     (let w = workers s ! i
      in case current w of None \<Rightarrow> Some s
         | Some a \<Rightarrow> (case memory s a of None \<Rightarrow> None
           | Some n \<Rightarrow> (case set_lp_variable_bounds S P (memory s) n w of None \<Rightarrow> None
             | Some (feasible_bounds, w) \<Rightarrow>
                 let r = relaxation_status feasible_bounds r
                 in if stops_plunge (lp_status r) then Some (set_worker i (w\<lparr>stack := a # stack w, current := None\<rparr>) s)
                    else Option.bind (update_tree S P (leaf_lower w) (leaf_upper w) r down up a (shared s)) (\<lambda>(st, b).
                           finish_node min_node_queue_size r i a w s st b))))"

text \<open>The end of a plunge puts the nodes of the stack back into the queue.\<close>

fun drain :: "node_memory \<Rightarrow> nat list \<Rightarrow> bfs_worker \<Rightarrow> bfs_worker option" where
  "drain mem [] w = Some w"
| "drain mem (a # as) w = Option.bind (push_atomic a mem w) (drain mem as)"

definition end_plunge :: "nat \<Rightarrow> bnb_search \<Rightarrow> bnb_search option" where
  "end_plunge i s = map_option (\<lambda>w. set_worker i w s) (drain (memory s) (stack (workers s ! i)) ((workers s ! i)\<lparr>stack := []\<rparr>))"

text \<open>Work stealing between two workers; the victims of \<open>work_stealing\<close> are drawn at random and may be idle.\<close>

definition steal :: "int \<Rightarrow> nat \<Rightarrow> nat \<Rightarrow> bnb_search \<Rightarrow> (bool \<times> bnb_search) option" where
  "steal nodes_to_steal i j s =
     (case steal_from nodes_to_steal (memory s) (queue (workers s ! j)) (queue (workers s ! i)) of None \<Rightarrow> None
      | Some (stolen, victim, this) \<Rightarrow>
          Some (stolen, set_worker i ((workers s ! i)\<lparr>queue := this\<rparr>) (set_worker j ((workers s ! j)\<lparr>queue := victim\<rparr>) s)))"

definition worker_steal_from :: "int \<Rightarrow> bool \<Rightarrow> nat \<Rightarrow> nat \<Rightarrow> bnb_search \<Rightarrow> (bool \<times> bnb_search) option" where
  "worker_steal_from nodes_to_steal victim_active i j s =
     (if nodes_to_steal < 1 \<or> i = j \<or> \<not> victim_active \<or> int (best_first_queue_size (queue (workers s ! j))) < 2 * nodes_to_steal then Some (False, s)
      else steal nodes_to_steal i j s)"

fun work_stealing :: "int \<Rightarrow> nat \<Rightarrow> (nat \<times> bool) list \<Rightarrow> bnb_search \<Rightarrow> bnb_search option" where
  "work_stealing nodes_to_steal i [] s = Some s"
| "work_stealing nodes_to_steal i ((j, active) # victims) s =
     (case worker_steal_from nodes_to_steal active i j s of None \<Rightarrow> None
      | Some (stolen, s) \<Rightarrow> if stolen then Some s else work_stealing nodes_to_steal i victims s)"

definition launch_bfs_worker :: "nat \<Rightarrow> nat \<Rightarrow> bnb_search \<Rightarrow> (bool \<times> bnb_search) option" where
  "launch_bfs_worker idle i s = steal 1 idle i s"

text \<open>The start of a dive.\<close>

definition launch_dive :: "mip_problem \<Rightarrow> mip_node \<Rightarrow> bool list \<Rightarrow> nat \<Rightarrow> bnb_search \<Rightarrow> ((mip_node \<times> bounds) option \<times> bnb_search) option" where
  "launch_dive P raw bounds_changed i s =
     (case diving_init (lp_lower P) (lp_upper P) raw bounds_changed (memory s) (queue (workers s ! i)) of None \<Rightarrow> None
      | Some (r, mem, q) \<Rightarrow> Some (r, set_worker i ((workers s ! i)\<lparr>queue := q\<rparr>)
          (s\<lparr>shared := (shared s)\<lparr>bnb_tree := (bnb_tree (shared s))\<lparr>nodes := mem\<rparr>\<rparr>\<rparr>)))"

section \<open>The start and the end of the search\<close>

definition bfs_worker_t :: "mip_problem \<Rightarrow> bfs_worker" where
  "bfs_worker_t P = \<lparr>queue = node_queue_t, stack = [], current = None, recompute_bounds = True, leaf_lower = lp_lower P, leaf_upper = lp_upper P\<rparr>"

text \<open>The root is branched on with the solution of its relaxation, and its children go to the first worker.\<close>

definition root_tree :: "mip_problem \<Rightarrow> rat \<Rightarrow> variable_status list \<Rightarrow> nat \<Rightarrow> rat \<Rightarrow> int \<Rightarrow> mip_node \<Rightarrow> search_tree option" where
  "root_tree P root_objective root_vstatus var branch_val num_fractional raw =
     branch 0 1 2 var (fin branch_val) num_fractional root_vstatus (lp_lower P) (lp_upper P)
       (search_tree_t (mip_node_root (fin root_objective) root_vstatus raw))"

definition start_search ::
    "mip_problem \<Rightarrow> nat \<Rightarrow> rat \<Rightarrow> variable_status list \<Rightarrow> nat \<Rightarrow> rat \<Rightarrow> int \<Rightarrow> mip_node \<Rightarrow> xval \<Rightarrow> (rat \<times> rat list) option \<Rightarrow> bnb_search option" where
  "start_search P num_bfs_workers root_objective root_vstatus var branch_val num_fractional raw ub inc =
     (case root_tree P root_objective root_vstatus var branch_val num_fractional raw of None \<Rightarrow> None
      | Some t \<Rightarrow> (case nodes t 0 of None \<Rightarrow> None
        | Some root_node \<Rightarrow> (case (down_child root_node, up_child root_node) of
            (Some d, Some u) \<Rightarrow>
              Option.bind (push_lockfree (nodes t) d (queue (bfs_worker_t P))) (\<lambda>q.
              Option.bind (push_lockfree (nodes t) u q) (\<lambda>q.
              Some \<lparr>shared = \<lparr>bnb_tree = t, upper_bound = ub, incumbent = inc, lower_bound_numerical = pinf\<rparr>,
                    workers = (replicate num_bfs_workers (bfs_worker_t P))[0 := (bfs_worker_t P)\<lparr>queue := q\<rparr>]\<rparr>))
          | _ \<Rightarrow> None)))"

definition std_isfinite :: "xval \<Rightarrow> bool" where "std_isfinite v \<longleftrightarrow> v \<noteq> pinf \<and> v \<noteq> ninf \<and> v \<noteq> nan"

text \<open>The final bound: nodes that cannot improve the incumbent are dropped from the queues first.\<close>

partial_function (option) clear_queue :: "nat \<Rightarrow> bnb_search \<Rightarrow> bnb_search option" where
  "clear_queue i s =
     (if 0 < best_first_queue_size (queue (workers s ! i)) \<and> upper_bound (shared s) < get_lower_bound (queue (workers s ! i))
      then (case queue_pop (queue (workers s ! i)) of
          Some (Some a, q) \<Rightarrow> Option.bind (fathom i a ((workers s ! i)\<lparr>queue := q\<rparr>) s) (clear_queue i)
        | _ \<Rightarrow> None)
      else Some s)"

declare clear_queue.simps [code]

fun queues_lower_bound :: "nat list \<Rightarrow> xval \<Rightarrow> bnb_search \<Rightarrow> (xval \<times> bnb_search) option" where
  "queues_lower_bound [] lb s = Some (lb, s)"
| "queues_lower_bound (i # is) lb s =
     Option.bind (clear_queue i s) (\<lambda>s. queues_lower_bound is (std_min lb (get_lower_bound (queue (workers s ! i)))) s)"

definition final_lower_bound :: "bnb_search \<Rightarrow> (xval \<times> bnb_search) option" where
  "final_lower_bound s =
     (case queues_lower_bound [0..<length (workers s)] (lower_bound_numerical (shared s)) s of None \<Rightarrow> None
      | Some (lb, s) \<Rightarrow> if std_isfinite lb then Some (lb, s) else map_option (\<lambda>n. (lower_bound n, s)) (memory s 0))"

end
