(* ===== verification/Search_Bounds.thy ===== *)
theory Search_Bounds
  imports Tree_Search
begin

text \<open>
  What the bounds of the search mean for the feasible points of the problem: the rounding of bounds to
  the lattice of objective values, the acceptance of incumbents and the boxes of the nodes.
\<close>

section \<open>The problem\<close>

abbreviation num_cols :: "mip_problem \<Rightarrow> nat" where "num_cols P \<equiv> csc_n (A (presolver P))"

definition feas :: "mip_problem \<Rightarrow> (nat \<Rightarrow> rat) \<Rightarrow> bool" where
  "feas P x \<longleftrightarrow> satisfies_rows (presolver P) x \<and> integral (presolver P) x \<and> in_bounds x (num_cols P) (lp_lower P) (lp_upper P)"

definition obj :: "mip_problem \<Rightarrow> (nat \<Rightarrow> rat) \<Rightarrow> rat" where
  "obj P x = (\<Sum>j < length (objective P). objective P ! j * x j)"

definition lattice_step :: "mip_problem \<Rightarrow> rat" where
  "lattice_step P = (if has_step (objective_lattice P) then step_size (objective_lattice P) else if objective_is_integral P then 1 else 0)"

definition lattice_bias :: "mip_problem \<Rightarrow> rat" where
  "lattice_bias P = (if has_step (objective_lattice P) then bias (objective_lattice P) else 0)"

text \<open>The matrix copies agree, tolerances are not negative, and the objective has the announced lattice.\<close>

definition problem_ok :: "mip_settings \<Rightarrow> mip_problem \<Rightarrow> bool" where
  "problem_ok S P \<longleftrightarrow> matrices_ok (presolver P) \<and> length (var_types (presolver P)) = num_cols P
     \<and> length (lp_lower P) = num_cols P \<and> length (lp_upper P) = num_cols P
     \<and> 0 \<le> primal_tol S \<and> 0 \<le> integer_tol S \<and> 0 < dual_tol S \<and> 0 \<le> absolute_mip_gap_tol S
     \<and> (0 < lattice_step P \<longrightarrow> (\<forall>x. feas P x \<longrightarrow> (\<exists>k :: int. obj P x = of_int k * lattice_step P + lattice_bias P)))"

definition slack :: "mip_settings \<Rightarrow> mip_problem \<Rightarrow> rat" where
  "slack S P = max (primal_tol S) (integer_tol S * lattice_step P)"

lemma lattice_step_pos: "0 < lattice_step P \<longleftrightarrow> has_step (objective_lattice P) \<or> objective_is_integral P"
  by (auto simp: lattice_step_def has_step_def)

lemma slack_nonneg: "problem_ok S P \<Longrightarrow> 0 \<le> slack S P"
  by (simp add: slack_def problem_ok_def le_max_iff_disj)

section \<open>The lattice of objective values\<close>

text \<open>The next lattice value not below a bound, less the tolerance.\<close>

definition lattice_ceil :: "mip_settings \<Rightarrow> mip_problem \<Rightarrow> rat \<Rightarrow> int" where
  "lattice_ceil S P v = \<lceil>(v - lattice_bias P) / lattice_step P - integer_tol S\<rceil>"

lemma snap_to_lattice_lattice:
  "snap_to_lattice S P v lb = (if 0 < lattice_step P then fin (of_int (lattice_ceil S P v) * lattice_step P + lattice_bias P) else lb)"
  by (auto simp: snap_to_lattice_def lattice_ceil_def lattice_step_def lattice_bias_def has_step_def Let_def)

lemma compute_node_cutoff_lattice:
  "compute_node_cutoff S P (fin v) = (if 0 < lattice_step P then fin ((of_int (lattice_ceil S P v) - 1) * lattice_step P + lattice_bias P + dual_tol S) else fin (v + dual_tol S))"
  by (auto simp: compute_node_cutoff_def lattice_ceil_def lattice_step_def lattice_bias_def has_step_def Let_def minus_xval_def algebra_simps)

lemma compute_node_cutoff_inf: "compute_node_cutoff S P pinf = pinf"
  by (auto simp: compute_node_cutoff_def has_step_def Let_def minus_xval_def)

lemma lattice_value:
  assumes "problem_ok S P" "0 < lattice_step P" "feas P x"
  obtains k :: int where "obj P x = of_int k * lattice_step P + lattice_bias P"
  using assms by (auto simp: problem_ok_def)

lemma lattice_ceil_below:
  assumes ok: "problem_ok S P" and st: "0 < lattice_step P" and x: "feas P x" and v: "v \<le> obj P x"
  shows "of_int (lattice_ceil S P v) * lattice_step P + lattice_bias P \<le> obj P x"
proof -
  obtain k :: int where k: "obj P x = of_int k * lattice_step P + lattice_bias P" using lattice_value [OF ok st x] .
  have "(v - lattice_bias P) / lattice_step P \<le> of_int k" using v k st by (simp add: pos_divide_le_eq)
  moreover have "0 \<le> integer_tol S" using ok by (simp add: problem_ok_def)
  ultimately have "(v - lattice_bias P) / lattice_step P - integer_tol S \<le> of_int k" by linarith
  then have "lattice_ceil S P v \<le> k" by (simp add: lattice_ceil_def ceiling_le_iff)
  then have "of_int (lattice_ceil S P v) * lattice_step P \<le> of_int k * lattice_step P" using st by (simp add: mult_right_mono)
  then show ?thesis using k by simp
qed

lemma lattice_ceil_above:
  assumes ok: "problem_ok S P" and st: "0 < lattice_step P" and x: "feas P x"
    and above: "(of_int (lattice_ceil S P v) - 1) * lattice_step P + lattice_bias P < obj P x"
  shows "v \<le> obj P x + slack S P"
proof -
  obtain k :: int where k: "obj P x = of_int k * lattice_step P + lattice_bias P" using lattice_value [OF ok st x] .
  have "(of_int (lattice_ceil S P v) - 1) * lattice_step P < of_int k * lattice_step P" using above k by simp
  then have "(of_int (lattice_ceil S P v - 1) :: rat) < of_int k" using st by (simp add: mult_less_cancel_right)
  then have "lattice_ceil S P v \<le> k" by linarith
  then have "(v - lattice_bias P) / lattice_step P - integer_tol S \<le> of_int k" by (simp add: lattice_ceil_def ceiling_le_iff)
  then have "(v - lattice_bias P) / lattice_step P \<le> of_int k + integer_tol S" by linarith
  then have "v - lattice_bias P \<le> (of_int k + integer_tol S) * lattice_step P" using st by (simp add: pos_divide_le_eq)
  then have "v \<le> obj P x + integer_tol S * lattice_step P" using k by (simp add: algebra_simps)
  then show ?thesis by (simp add: slack_def)
qed

lemma snap_to_lattice_below:
  "problem_ok S P \<Longrightarrow> feas P x \<Longrightarrow> v \<le> obj P x \<Longrightarrow> snap_to_lattice S P v (fin v) \<le> fin (obj P x)"
  using lattice_ceil_below by (auto simp: snap_to_lattice_lattice less_eq_xval_def order_le_less)

lemma cutoff_improves:
  assumes "problem_ok S P" "feas P x" "compute_node_cutoff S P ub \<le> fin (obj P x)" "ub \<noteq> nan"
  shows "ub \<le> fin (obj P x + slack S P)"
proof (cases ub)
  case (fin v)
  show ?thesis
  proof (cases "0 < lattice_step P")
    case True
    have "(of_int (lattice_ceil S P v) - 1) * lattice_step P + lattice_bias P < obj P x"
      using assms(1,3) True fin by (auto simp: compute_node_cutoff_lattice problem_ok_def less_eq_xval_def)
    then have "v \<le> obj P x + slack S P" by (rule lattice_ceil_above [OF assms(1) True assms(2)])
    then show ?thesis using fin by (auto simp: less_eq_xval_def)
  next
    case False
    then have "v \<le> obj P x" using assms(1,3) fin by (auto simp: compute_node_cutoff_lattice problem_ok_def less_eq_xval_def)
    then have "v \<le> obj P x + slack S P" using slack_nonneg [OF assms(1)] by linarith
    then show ?thesis using fin by (auto simp: less_eq_xval_def)
  qed
qed (use assms in \<open>auto simp: compute_node_cutoff_inf less_eq_xval_def\<close>)

lemma rejected_incumbent:
  assumes ok: "problem_ok S P" and x: "feas P x" and v: "v \<le> obj P x" and rej: "\<not> accept_new_incumbent S P (Some (i, y)) v"
  shows "i \<le> obj P x + slack S P"
proof (cases "i - primal_tol S \<le> v")
  case True
  then have "i \<le> obj P x + primal_tol S" using v by linarith
  then show ?thesis by (simp add: slack_def)
next
  case False
  then have st: "0 < lattice_step P" using rej by (auto simp: accept_new_incumbent_def lattice_step_def Let_def split: if_splits)
  have "(of_int (lattice_ceil S P i) - 1) * lattice_step P + lattice_bias P + 1 / 2 * lattice_step P \<le> v"
    using rej st False
    by (auto simp: accept_new_incumbent_def Let_def compute_node_cutoff_lattice lattice_step_def [symmetric] std_min_def minus_xval_def split: if_splits)
  then have "(of_int (lattice_ceil S P i) - 1) * lattice_step P + lattice_bias P < obj P x" using v st by simp
  then show ?thesis by (rule lattice_ceil_above [OF ok st x])
qed

section \<open>The points below a node\<close>

text \<open>A point that satisfies every branching on the path from the root to a node.\<close>

inductive on_path :: "node_memory \<Rightarrow> (nat \<Rightarrow> rat) \<Rightarrow> nat \<Rightarrow> bool" for mem x where
  root: "mem a = Some n \<Longrightarrow> parent n = None \<Longrightarrow> on_path mem x a"
| child: "mem a = Some n \<Longrightarrow> parent n = Some p \<Longrightarrow> on_path mem x p \<Longrightarrow> lb_ok (branch_var_lower n) (x (nat (branch_var n)))
    \<Longrightarrow> ub_ok (branch_var_upper n) (x (nat (branch_var n))) \<Longrightarrow> on_path mem x a"

inductive_cases on_pathE: "on_path mem x a"

lemma on_path_child_iff:
  assumes "mem a = Some n" "parent n = Some p"
  shows "on_path mem x a \<longleftrightarrow> on_path mem x p \<and> lb_ok (branch_var_lower n) (x (nat (branch_var n))) \<and> ub_ok (branch_var_upper n) (x (nat (branch_var n)))"
  using assms by (auto intro: on_path.child elim: on_pathE)

lemma on_path_same:
  assumes t: "tree_due due mem'" and p: "same_places mem' mem" and a: "mem' a = Some n'"
  shows "on_path mem' x a \<longleftrightarrow> on_path mem x a"
  using t a
proof (induction rule: parent_induct)
  case (node a n')
  obtain n where n: "mem a = Some n" "node_place n = node_place n'" using p node.hyps unfolding same_places_def by blast
  then have e: "parent n = parent n'" "branch_var n = branch_var n'" "branch_var_lower n = branch_var_lower n'" "branch_var_upper n = branch_var_upper n'"
    by (auto simp: node_place_def)
  show ?case
  proof (cases "parent n'")
    case None
    then show ?thesis using n e node.hyps by (auto intro: on_path.root)
  next
    case (Some q)
    obtain m where "mem' q = Some m" using tree_due_parent [OF t node.hyps Some] by blast
    then show ?thesis using node.IH [OF Some] on_path_child_iff [of mem' a n' q x] on_path_child_iff [of mem a n q x] n(1) node.hyps e Some by simp
  qed
qed

text \<open>Such a point lies in the box of the node, for a tree that branches on existing variables.\<close>

definition vars_ok :: "nat \<Rightarrow> node_memory \<Rightarrow> bool" where
  "vars_ok N mem \<longleftrightarrow> (\<forall>a n. mem a = Some n \<and> parent n \<noteq> None \<longrightarrow> nat (branch_var n) < N)"

lemma in_bounds_update:
  "in_bounds x N l u \<Longrightarrow> lb_ok lo (x v) \<Longrightarrow> ub_ok hi (x v) \<Longrightarrow> in_bounds x N (l[v := lo]) (u[v := hi])"
  unfolding in_bounds_def
proof (intro conjI allI impI)
  fix k assume a: "length l = N \<and> length u = N \<and> (\<forall>k < N. lb_ok (l ! k) (x k) \<and> ub_ok (u ! k) (x k))" "lb_ok lo (x v)" "ub_ok hi (x v)" "k < N"
  then show "lb_ok (l[v := lo] ! k) (x k)" "ub_ok (u[v := hi] ! k) (x k)" by (cases "k = v"; simp)+
qed auto

lemma on_path_box:
  assumes t: "tree_due due mem" and v: "vars_ok N mem" and a: "mem a = Some n" and x: "on_path mem x a" "in_bounds x N L0 U0"
  shows "\<exists>l u. node_box mem L0 U0 a = Some (l, u) \<and> in_bounds x N l u"
  using t a x(1)
proof (induction rule: parent_induct)
  case (node a n)
  show ?case
  proof (cases "parent n")
    case None
    then have "a = 0" using tree_due_D(2) [OF t node.hyps] by (simp add: node_links_def)
    then show ?thesis using node_box_root [OF t] x(2) by simp
  next
    case (Some p)
    obtain m where m: "mem p = Some m" using tree_due_parent [OF t node.hyps Some] by blast
    have "nat (branch_var n) < length L0" using v node.hyps Some x(2) unfolding vars_ok_def in_bounds_def by auto
    moreover have "on_path mem x p" "lb_ok (branch_var_lower n) (x (nat (branch_var n)))" "ub_ok (branch_var_upper n) (x (nat (branch_var n)))"
      using node.prems on_path_child_iff [of mem a n p x] node.hyps Some by auto
    ultimately show ?thesis
      using node.IH [OF Some m] node_box_child [OF t node.hyps Some] in_bounds_update by fastforce
  qed
qed

end
