(* ===== verification/Search_Invariants.thy ===== *)
theory Search_Invariants
  imports Search_Bounds
begin

text \<open>
  The update of the tree after a relaxation keeps the search complete: every feasible point stays
  below an open leaf, or one of the bounds that the search reports accounts for it.
\<close>

section \<open>The invariant of the shared state\<close>

abbreviation bmem :: "bnb \<Rightarrow> node_memory" where "bmem b \<equiv> nodes (bnb_tree b)"

text \<open>The incumbent or a node given up for numerical reasons bounds the objective of the point.\<close>

definition accounted :: "mip_settings \<Rightarrow> mip_problem \<Rightarrow> bnb \<Rightarrow> (nat \<Rightarrow> rat) \<Rightarrow> bool" where
  "accounted S P b x \<longleftrightarrow> upper_bound b \<le> fin (obj P x + slack S P) \<or> lower_bound_numerical b \<le> fin (obj P x + slack S P)"

text \<open>Bounds are numbers or infinity, so that their least one is finite unless all are infinite.\<close>

definition bound_ok :: "xval \<Rightarrow> bool" where "bound_ok v \<longleftrightarrow> v \<noteq> nan \<and> v \<noteq> ninf"

definition bounded_node :: "node_memory \<Rightarrow> nat \<Rightarrow> bool" where
  "bounded_node mem a \<longleftrightarrow> (\<exists>n. mem a = Some n \<and> bound_ok (lower_bound n) \<and> objective_estimate n \<noteq> nan)"

lemma bounded_keyed: "bounded_node mem a \<Longrightarrow> keyed_node mem a"
  by (auto simp: bounded_node_def keyed_node_def bound_ok_def)

text \<open>The nodes of \<open>X\<close> are about to be closed; their bound is not one of the objective any more.\<close>

definition bnb_inv :: "mip_settings \<Rightarrow> mip_problem \<Rightarrow> nat set \<Rightarrow> bnb \<Rightarrow> bool" where
  "bnb_inv S P X b \<longleftrightarrow> tree_ok (bmem b) \<and> 0 \<le> num_nodes (bnb_tree b) \<and> vars_ok (num_cols P) (bmem b)
     \<and> (\<forall>a. open_leaf (bmem b) a \<longrightarrow> bounded_node (bmem b) a)
     \<and> (\<forall>a n x. open_leaf (bmem b) a \<and> a \<notin> X \<and> bmem b a = Some n \<and> feas P x \<and> on_path (bmem b) x a \<longrightarrow> lower_bound n \<le> fin (obj P x))
     \<and> (\<forall>x. feas P x \<longrightarrow> (\<exists>a. open_leaf (bmem b) a \<and> on_path (bmem b) x a) \<or> accounted S P b x)
     \<and> bound_ok (upper_bound b) \<and> bound_ok (lower_bound_numerical b)
     \<and> (\<forall>i y. incumbent b = Some (i, y) \<longrightarrow> upper_bound b \<le> fin i)"

lemma bnb_inv_D:
  assumes "bnb_inv S P X b"
  shows "tree_ok (bmem b)" "0 \<le> num_nodes (bnb_tree b)" "vars_ok (num_cols P) (bmem b)" "\<And>a. open_leaf (bmem b) a \<Longrightarrow> keyed_node (bmem b) a"
    "\<And>a n x. open_leaf (bmem b) a \<Longrightarrow> a \<notin> X \<Longrightarrow> bmem b a = Some n \<Longrightarrow> feas P x \<Longrightarrow> on_path (bmem b) x a \<Longrightarrow> lower_bound n \<le> fin (obj P x)"
    "\<And>x. feas P x \<Longrightarrow> (\<exists>a. open_leaf (bmem b) a \<and> on_path (bmem b) x a) \<or> accounted S P b x"
    "upper_bound b \<noteq> nan" "lower_bound_numerical b \<noteq> nan" "\<And>i y. incumbent b = Some (i, y) \<Longrightarrow> upper_bound b \<le> fin i"
    "\<And>a. open_leaf (bmem b) a \<Longrightarrow> bounded_node (bmem b) a" "bound_ok (upper_bound b)" "bound_ok (lower_bound_numerical b)"
  using assms bounded_keyed unfolding bnb_inv_def bound_ok_def by blast+

lemma xle_trans: "(a :: xval) \<le> b \<Longrightarrow> b \<le> c \<Longrightarrow> a \<le> c"
  by (cases a; cases b; cases c) (auto simp: less_eq_xval_def)

lemma xle_fin: "a \<le> fin v \<Longrightarrow> v \<le> w \<Longrightarrow> a \<le> fin w"
  by (cases a) (auto simp: less_eq_xval_def)

lemma open_leafD: "open_leaf mem a \<Longrightarrow> \<exists>n. mem a = Some n"
  by (auto simp: open_leaf_def)

section \<open>Closing a node\<close>

lemma put_status_close:
  assumes inv: "bnb_inv S P X b" and X: "X \<subseteq> {a}" and a: "open_leaf (bmem b) a" and st: "inactive_status st"
    and reason: "\<And>x. feas P x \<Longrightarrow> on_path (bmem b) x a \<Longrightarrow> accounted S P b x"
  shows "\<exists>b'. put_status a st b = Some b' \<and> bnb_inv S P {} b' \<and> leaf_finished a (bmem b) (bmem b')"
proof -
  note d = bnb_inv_D [OF inv]
  obtain mem' where m: "set_node_status (bmem b) a st = Some mem'" "tree_ok mem'" "leaf_finished a (bmem b) mem'" using set_status_finish [OF d(1) a st] by blast
  let ?b = "b\<lparr>bnb_tree := (bnb_tree b)\<lparr>nodes := mem'\<rparr>\<rparr>"
  have node_place: "same_places mem' (bmem b)"
    and op: "\<And>c. open_leaf mem' c \<longleftrightarrow> open_leaf (bmem b) c \<and> c \<noteq> a"
    and same: "\<And>c. open_leaf (bmem b) c \<Longrightarrow> c \<noteq> a \<Longrightarrow> mem' c = bmem b c" using m(3) unfolding leaf_finished_def by blast+
  have path: "on_path mem' x c = on_path (bmem b) x c" if "open_leaf mem' c" for x c
    using open_leafD [OF that] on_path_same [OF m(2) node_place] by blast
  have "bnb_inv S P {} ?b"
    unfolding bnb_inv_def
  proof (intro conjI allI impI)
    show "tree_ok (bmem ?b)" "0 \<le> num_nodes (bnb_tree ?b)" "bound_ok (upper_bound ?b)" "bound_ok (lower_bound_numerical ?b)" using d m(2) by simp_all
    show "vars_ok (num_cols P) (bmem ?b)" using d(3) node_place unfolding vars_ok_def same_places_def by (force simp: node_place_def)
    show "bounded_node (bmem ?b) c" if "open_leaf (bmem ?b) c" for c using that op same d(10) by (auto simp: bounded_node_def)
    show "lower_bound n \<le> fin (obj P x)" if "open_leaf (bmem ?b) c \<and> c \<notin> {} \<and> bmem ?b c = Some n \<and> feas P x \<and> on_path (bmem ?b) x c" for c n x
    proof -
      have "open_leaf (bmem b) c" "c \<noteq> a" "c \<notin> X" using that op X by auto
      then show ?thesis using that path [of c x] same [of c] d(5) [of c n x] by simp
    qed
    show "(\<exists>c. open_leaf (bmem ?b) c \<and> on_path (bmem ?b) x c) \<or> accounted S P ?b x" if "feas P x" for x
    proof -
      have "accounted S P ?b x = accounted S P b x" by (simp add: accounted_def)
      then show ?thesis using d(6) [OF that] reason [OF that] op path by auto
    qed
    show "upper_bound ?b \<le> fin i" if "incumbent ?b = Some (i, y)" for i y using that d(9) by simp
  qed
  then show ?thesis using m by (auto simp: put_status_def)
qed

lemma put_node_inv:
  assumes inv: "bnb_inv S P X b" and a: "bmem b a = Some n" and n': "node_place n' = node_place n" "down_child n' = down_child n"
    "up_child n' = up_child n" "num_children n' = num_children n" "inactive_status (status n') = inactive_status (status n)"
    and key: "open_leaf (bmem b) a \<Longrightarrow> bound_ok (lower_bound n') \<and> objective_estimate n' \<noteq> nan"
    and lb: "a \<notin> Y \<Longrightarrow> open_leaf (bmem b) a \<Longrightarrow> (\<And>x. feas P x \<Longrightarrow> on_path (bmem b) x a \<Longrightarrow> lower_bound n' \<le> fin (obj P x))" and XY: "X - {a} \<subseteq> Y"
  shows "bnb_inv S P Y (put_node a n' b)" "\<And>c. open_leaf (bmem (put_node a n' b)) c = open_leaf (bmem b) c"
    "\<And>c x. bmem b c \<noteq> None \<Longrightarrow> on_path (bmem (put_node a n' b)) x c = on_path (bmem b) x c" "bmem (put_node a n' b) = (bmem b)(a \<mapsto> n')"
proof -
  note d = bnb_inv_D [OF inv]
  let ?b = "put_node a n' b"
  show mem: "bmem ?b = (bmem b)(a \<mapsto> n')" by (simp add: put_node_def)
  have t: "tree_ok (bmem ?b)" "\<And>c. open_leaf (bmem ?b) c = open_leaf (bmem b) c"
    using tree_update_ok [OF d(1) a n'(1-4)] n'(5) by (simp_all add: mem)
  then show "\<And>c. open_leaf (bmem ?b) c = open_leaf (bmem b) c" by blast
  have node_place: "same_places (bmem ?b) (bmem b)" using a n'(1) by (auto simp: same_places_def mem split: if_splits)
  show path: "on_path (bmem ?b) x c = on_path (bmem b) x c" if c: "bmem b c \<noteq> None" for c x
  proof -
    obtain m where "bmem ?b c = Some m" using c a by (cases "c = a") (auto simp: mem)
    then show ?thesis by (rule on_path_same [OF t(1) node_place])
  qed
  have same: "upper_bound ?b = upper_bound b" "lower_bound_numerical ?b = lower_bound_numerical b" "incumbent ?b = incumbent b" "num_nodes (bnb_tree ?b) = num_nodes (bnb_tree b)"
    by (simp_all add: put_node_def)
  show "bnb_inv S P Y ?b"
    unfolding bnb_inv_def
  proof (intro conjI allI impI)
    show "tree_ok (bmem ?b)" "0 \<le> num_nodes (bnb_tree ?b)" "bound_ok (upper_bound ?b)" "bound_ok (lower_bound_numerical ?b)" using d t(1) same by simp_all
    show "vars_ok (num_cols P) (bmem ?b)" using d(3) node_place unfolding vars_ok_def same_places_def by (force simp: node_place_def)
    show "bounded_node (bmem ?b) c" if "open_leaf (bmem ?b) c" for c using that t(2) d(10) [of c] key by (auto simp: bounded_node_def mem)
    show "lower_bound m \<le> fin (obj P x)" if c: "open_leaf (bmem ?b) c \<and> c \<notin> Y \<and> bmem ?b c = Some m \<and> feas P x \<and> on_path (bmem ?b) x c" for c m x
    proof (cases "c = a")
      case True
      then have "on_path (bmem b) x a" "m = n'" using c path [of a x] a by (simp_all add: mem [symmetric]) (simp add: mem)
      then show ?thesis using c lb [of x] True t(2) by simp
    next
      case False
      then show ?thesis using c d(5) [of c m x] t(2) path [of c x] XY by (auto simp: mem)
    qed
    show "(\<exists>c. open_leaf (bmem ?b) c \<and> on_path (bmem ?b) x c) \<or> accounted S P ?b x" if "feas P x" for x
      using d(6) [OF that] t(2) path open_leafD by (fastforce simp: accounted_def same)
    show "upper_bound ?b \<le> fin i" if "incumbent ?b = Some (i, y)" for i y using that d(9) same by simp
  qed
qed

section \<open>Branching\<close>

text \<open>An integral value is below the floor or above the ceiling of the value branched on.\<close>

lemma branch_covers:
  assumes "x v \<in> \<int>" "lb_ok lo (x v)" "ub_ok hi (x v)"
  shows "(lb_ok lo (x v) \<and> ub_ok (std_floor (fin f)) (x v)) \<or> (lb_ok (std_ceil (fin f)) (x v) \<and> ub_ok hi (x v))"
proof -
  obtain k where k: "x v = of_int k" using assms(1) by (auto elim: Ints_cases)
  show ?thesis
  proof (cases "x v \<le> f")
    case True
    then show ?thesis using assms k by (simp add: le_floor_iff)
  next
    case False
    then show ?thesis using assms k by (simp add: ceiling_le_iff)
  qed
qed

lemma branch_inv:
  assumes inv: "bnb_inv S P {} b" and a: "open_leaf (bmem b) a" "bmem b a = Some n" and new: "bmem b d = None" "bmem b u = None" "d \<noteq> u"
    and v: "v < num_cols P" "var_types (presolver P) \<noteq> []" "var_types (presolver P) ! v \<noteq> CONTINUOUS"
    and box: "\<And>x. feas P x \<Longrightarrow> on_path (bmem b) x a \<Longrightarrow> in_bounds x (num_cols P) L U"
  shows "\<exists>t n'. branch a d u v (fin f) k vs L U (bnb_tree b) = Some t
    \<and> nodes t a = Some n' \<and> down_child n' = Some d \<and> up_child n' = Some u \<and> \<not> inactive_status (status n')
    \<and> bnb_inv S P {} (b\<lparr>bnb_tree := t\<rparr>)
    \<and> (\<forall>c. open_leaf (nodes t) c \<longleftrightarrow> (open_leaf (bmem b) c \<and> c \<noteq> a) \<or> c = d \<or> c = u)
    \<and> (\<forall>c. c \<notin> {a, d, u} \<longrightarrow> nodes t c = bmem b c) \<and> (\<forall>c m. bmem b c = Some m \<longrightarrow> (\<exists>m'. nodes t c = Some m' \<and> node_place m = node_place m'))
    \<and> (\<forall>x. on_path (nodes t) x d \<or> on_path (nodes t) x u \<longrightarrow> on_path (bmem b) x a)"
proof -
  note db = bnb_inv_D [OF inv]
  obtain t n0 dn un where br: "branch a d u v (fin f) k vs L U (bnb_tree b) = Some t" "tree_ok (nodes t)" "num_nodes t = num_nodes (bnb_tree b) + 2"
    "bmem b a = Some n0" "nodes t d = Some dn" "dn = mip_node_child L U a n0 (num_nodes (bnb_tree b) + 1) v DOWN (fin f) k vs"
    "nodes t u = Some un" "un = mip_node_child L U a n0 (num_nodes (bnb_tree b) + 2) v UP (fin f) k vs"
    "nodes t a = Some (n0\<lparr>down_child := Some d, up_child := Some u, packed_vstatus := [], num_children := 2\<rparr>)"
    "\<forall>c. c \<notin> {a, d, u} \<longrightarrow> nodes t c = bmem b c"
    using branch_ok [OF db(1) a(1) new db(2), of v "fin f" k vs L U] by blast
  have n0: "n0 = n" using br(4) a(2) by simp
  have ne: "a \<noteq> d" "a \<noteq> u" using a(2) new by auto
  let ?n = "n\<lparr>down_child := Some d, up_child := Some u, packed_vstatus := [], num_children := 2\<rparr>"
  have act: "\<not> inactive_status (status n)" "down_child n = None" using a by (auto simp: open_leaf_def)
  have node_place: "\<exists>m'. nodes t c = Some m' \<and> node_place m' = node_place m" if "bmem b c = Some m" for c m
    using that br(9,10) new n0 a(2) by (cases "c = a") (auto simp: node_place_def)
  have path: "on_path (nodes t) x c = on_path (bmem b) x c" if "bmem b c = Some m" for x c m
    using on_path_same [OF db(1), of "nodes t" c m x] node_place that unfolding same_places_def by blast
  have dpath: "on_path (nodes t) x d \<longleftrightarrow> on_path (bmem b) x a \<and> lb_ok (L ! v) (x v) \<and> ub_ok (std_floor (fin f)) (x v)"
    "on_path (nodes t) x u \<longleftrightarrow> on_path (bmem b) x a \<and> lb_ok (std_ceil (fin f)) (x v) \<and> ub_ok (U ! v) (x v)" for x
    using on_path_child_iff [of "nodes t" d dn a x] on_path_child_iff [of "nodes t" u un a x] br(5-8) path [OF a(2)] by (auto simp: mip_node_child_def)
  have op: "open_leaf (nodes t) c \<longleftrightarrow> (open_leaf (bmem b) c \<and> c \<noteq> a) \<or> c = d \<or> c = u" for c
  proof -
    consider "c = a" | "c = d" | "c = u" | "c \<notin> {a, d, u}" by blast
    then show ?thesis
    proof cases
      case 1
      then show ?thesis using br(9) ne by (simp add: open_leaf_def)
    next
      case 2
      then show ?thesis using br(5,6) by (simp add: open_leaf_def mip_node_child_def inactive_status_def)
    next
      case 3
      then show ?thesis using br(7,8) by (simp add: open_leaf_def mip_node_child_def inactive_status_def)
    next
      case 4
      then show ?thesis using br(10) by (simp add: open_leaf_def)
    qed
  qed
  have lbn: "lower_bound dn = lower_bound n" "lower_bound un = lower_bound n" "objective_estimate dn = objective_estimate n" "objective_estimate un = objective_estimate n"
    using br(6,8) n0 by (simp_all add: mip_node_child_def)
  have kn: "bound_ok (lower_bound n)" "objective_estimate n \<noteq> nan" using db(10) [OF a(1)] a(2) by (auto simp: bounded_node_def)
  let ?b = "b\<lparr>bnb_tree := t\<rparr>"
  have "bnb_inv S P {} ?b"
    unfolding bnb_inv_def
  proof (intro conjI allI impI)
    show "tree_ok (bmem ?b)" "0 \<le> num_nodes (bnb_tree ?b)" "bound_ok (upper_bound ?b)" "bound_ok (lower_bound_numerical ?b)" using db br(2,3) by simp_all
    show "vars_ok (num_cols P) (bmem ?b)"
      unfolding vars_ok_def
    proof (intro allI impI)
      fix c m assume m: "bmem ?b c = Some m \<and> parent m \<noteq> None"
      show "nat (branch_var m) < num_cols P"
      proof (cases "c = d \<or> c = u")
        case True
        then show ?thesis using m br(5-8) v(1) by (auto simp: mip_node_child_def)
      next
        case False
        then obtain m0 where m0: "bmem b c = Some m0" using m br(9,10) a(2) by (cases "c = a") auto
        then have "node_place m = node_place m0" using node_place [OF m0] m by auto
        then show ?thesis using db(3) m m0 unfolding vars_ok_def node_place_def by auto
      qed
    qed
    show "bounded_node (bmem ?b) c" if "open_leaf (bmem ?b) c" for c
      using that op [of c] db(10) [of c] br(5,7,10) lbn kn new by (cases "c = d"; cases "c = u") (auto simp: bounded_node_def)
    show "lower_bound m \<le> fin (obj P x)" if m: "open_leaf (bmem ?b) c \<and> c \<notin> {} \<and> bmem ?b c = Some m \<and> feas P x \<and> on_path (bmem ?b) x c" for c m x
    proof (cases "c = d \<or> c = u")
      case True
      then have "lower_bound m = lower_bound n" "on_path (bmem b) x a" using m br(5,7) lbn dpath by auto
      then show ?thesis using db(5) [OF a(1) _ a(2)] m by simp
    next
      case False
      then have "open_leaf (bmem b) c" "bmem b c = Some m" using m op [of c] br(10) by auto
      then show ?thesis using db(5) [of c m x] m path [of c m x] by simp
    qed
    show "(\<exists>c. open_leaf (bmem ?b) c \<and> on_path (bmem ?b) x c) \<or> accounted S P ?b x" if x: "feas P x" for x
    proof (cases "accounted S P b x")
      case True
      then show ?thesis by (simp add: accounted_def)
    next
      case False
      then obtain c where c: "open_leaf (bmem b) c" "on_path (bmem b) x c" using db(6) [OF x] by blast
      show ?thesis
      proof (cases "c = a")
        case True
        have "x v \<in> \<int>" using x v unfolding feas_def integral_def by (metis variable_type.exhaust)
        moreover have "lb_ok (L ! v) (x v)" "ub_ok (U ! v) (x v)" using box [OF x] c True v(1) by (auto simp: in_bounds_def)
        ultimately have "on_path (nodes t) x d \<or> on_path (nodes t) x u" using branch_covers [of x v] dpath c True by auto
        then show ?thesis using op by auto
      next
        case False
        then show ?thesis using c op [of c] open_leafD [OF c(1)] path by auto
      qed
    qed
    show "upper_bound ?b \<le> fin i" if "incumbent ?b = Some (i, y)" for i y using that db(9) by simp
  qed
  moreover have "\<forall>c m. bmem b c = Some m \<longrightarrow> (\<exists>m'. nodes t c = Some m' \<and> node_place m = node_place m')" using node_place by metis
  ultimately show ?thesis using br(1,9,10) op dpath act(1) n0 by (intro exI [of _ t] exI [of _ ?n]) auto
qed

section \<open>Updating the tree\<close>

text \<open>
  What the solver of the relaxation and the branching rule promise for the points of a region \<open>R\<close>: an
  infeasible relaxation has none, the bounds they report are bounds of the objective, and the variable to
  branch on is fractional. The cutoff was computed from the upper bound \<open>ub\<close>.
\<close>

definition relaxation_ok :: "mip_settings \<Rightarrow> mip_problem \<Rightarrow> xval \<Rightarrow> ((nat \<Rightarrow> rat) \<Rightarrow> bool) \<Rightarrow> relaxation \<Rightarrow> bool" where
  "relaxation_ok S P ub R r \<longleftrightarrow>
     (\<forall>x. feas P x \<and> R x \<longrightarrow> lp_status r \<noteq> LP_DUAL_UNBOUNDED
        \<and> (lp_status r = LP_CUTOFF \<longrightarrow> compute_node_cutoff S P ub \<le> fin (obj P x))
        \<and> (lp_status r = LP_OPTIMAL \<longrightarrow> compute_objective (objective P) (lp_x r) \<le> obj P x))
     \<and> (lp_status r = LP_OPTIMAL \<longrightarrow> length (lp_x r) = num_cols P \<and> estimate r \<noteq> nan
        \<and> (fractional_variables (integer_tol S) (lp_x r) (var_types (presolver P)) \<noteq> []
           \<longrightarrow> fst (choice r) \<in> set (fractional_variables (integer_tol S) (lp_x r) (var_types (presolver P)))))
     \<and> lp_status r \<noteq> LP_WORK_LIMIT"

lemma set_fractional_variables:
  "set (fractional_variables tol x types) = {j. j < length x \<and> is_fractional (x ! j) (types ! j) tol}"
proof -
  have "set (for_range 0 n (\<lambda>j fractional. if is_fractional (x ! j) (types ! j) tol then fractional @ [j] else fractional) [])
      = {j. j < n \<and> is_fractional (x ! j) (types ! j) tol}" for n
    by (induction n) (auto simp: less_Suc_eq)
  then show ?thesis by (simp add: fractional_variables_def)
qed

lemma add_feasible_inv:
  assumes ok: "problem_ok S P" and inv: "bnb_inv S P X b"
  shows "bnb_inv S P X (add_feasible_solution S P v y b)" "bnb_tree (add_feasible_solution S P v y b) = bnb_tree b"
    "\<And>x. feas P x \<Longrightarrow> v \<le> obj P x \<Longrightarrow> accounted S P (add_feasible_solution S P v y b) x"
    "upper_bound (add_feasible_solution S P v y b) \<le> upper_bound b"
proof -
  note d = bnb_inv_D [OF inv]
  let ?b = "add_feasible_solution S P v y b"
  show tree: "bnb_tree ?b = bnb_tree b" by (simp add: add_feasible_solution_def)
  show ub: "upper_bound ?b \<le> upper_bound b" using d(7) by (auto simp: add_feasible_solution_def less_eq_xval_def)
  have num: "lower_bound_numerical ?b = lower_bound_numerical b" by (simp add: add_feasible_solution_def)
  have acc: "upper_bound ?b \<le> fin v" if "accept_new_incumbent S P (incumbent b) v"
    using that d(7) by (cases "upper_bound b") (auto simp: add_feasible_solution_def less_eq_xval_def)
  show "accounted S P ?b x" if x: "feas P x" "v \<le> obj P x" for x
  proof (cases "accept_new_incumbent S P (incumbent b) v")
    case True
    then have "upper_bound ?b \<le> fin (obj P x + slack S P)" using xle_fin [OF acc] x slack_nonneg [OF ok] by simp
    then show ?thesis by (simp add: accounted_def)
  next
    case False
    then obtain i z where i: "incumbent b = Some (i, z)" by (cases "incumbent b") (auto simp: accept_new_incumbent_def)
    then have "i \<le> obj P x + slack S P" using rejected_incumbent [OF ok x] False by simp
    then show ?thesis using xle_fin [OF d(9) [OF i]] False by (simp add: accounted_def add_feasible_solution_def)
  qed
  have mono: "accounted S P ?b x" if "accounted S P b x" for x using that xle_trans [OF ub] num by (auto simp: accounted_def)
  have "bound_ok (upper_bound ?b)" using d(11) by (simp add: add_feasible_solution_def bound_ok_def)
  moreover have "upper_bound ?b \<le> fin i" if "incumbent ?b = Some (i, z)" for i z
    using that acc d(9) by (auto simp: add_feasible_solution_def split: if_splits)
  ultimately show "bnb_inv S P X ?b" using inv mono unfolding bnb_inv_def tree num by blast
qed

text \<open>The effect of an update on the open leaves.\<close>

definition updated :: "nat \<Rightarrow> nat \<Rightarrow> nat \<Rightarrow> node_status \<Rightarrow> node_memory \<Rightarrow> node_memory \<Rightarrow> bool" where
  "updated a d u st mem mem' \<longleftrightarrow>
     (if st = HAS_CHILDREN
      then (\<exists>n'. mem' a = Some n' \<and> down_child n' = Some d \<and> up_child n' = Some u) \<and> (\<forall>c. open_leaf mem' c \<longleftrightarrow> (open_leaf mem c \<and> c \<noteq> a) \<or> c = d \<or> c = u)
        \<and> (\<forall>x. on_path mem' x d \<or> on_path mem' x u \<longrightarrow> on_path mem x a)
      else \<forall>c. open_leaf mem' c \<longleftrightarrow> open_leaf mem c \<and> c \<noteq> a)
     \<and> (\<forall>c. open_leaf mem c \<and> c \<noteq> a \<longrightarrow> mem' c = mem c \<and> (\<forall>x. on_path mem' x c = on_path mem x c))"

lemma leaf_finished_updated:
  assumes "tree_ok mem'" "leaf_finished a mem mem'" "st \<noteq> HAS_CHILDREN"
  shows "updated a d u st mem mem'"
proof -
  have "on_path mem' x c = on_path mem x c" if "open_leaf mem c" "c \<noteq> a" for x c
    using assms(2) that on_path_same [OF assms(1), of mem c] open_leafD [OF that(1)] unfolding leaf_finished_def by metis
  then show ?thesis using assms(2,3) unfolding updated_def leaf_finished_def by simp
qed

lemma close_updated:
  assumes inv: "bnb_inv S P {} b" and a: "open_leaf (bmem b) a" "bmem b a = Some n" and n': "node_place n' = node_place n" "down_child n' = down_child n"
    "up_child n' = up_child n" "num_children n' = num_children n" "status n' = status n" "bound_ok (lower_bound n')" "objective_estimate n' = objective_estimate n"
    and st: "inactive_status st" and b': "bnb_inv S P {a} b'" "bmem b' = (bmem b)(a \<mapsto> n')"
    and reason: "\<And>x. feas P x \<Longrightarrow> on_path (bmem b) x a \<Longrightarrow> accounted S P b' x"
  shows "\<exists>b''. put_status a st b' = Some b'' \<and> bnb_inv S P {} b'' \<and> updated a d u st (bmem b) (bmem b'') \<and> upper_bound b'' = upper_bound b'"
proof -
  note d = bnb_inv_D [OF inv]
  have t: "\<And>c. open_leaf (bmem b') c = open_leaf (bmem b) c"
    using tree_update_ok(2) [OF d(1) a(2) n'(1-4)] n'(5) by (simp add: b'(2))
  have sp: "same_places (bmem b') (bmem b)" "same_places (bmem b) (bmem b')" using a(2) n'(1) by (auto simp: same_places_def b'(2))
  have path: "on_path (bmem b') x c = on_path (bmem b) x c" if "bmem b' c = Some m" for x c m
    using on_path_same [OF bnb_inv_D(1) [OF b'(1)] sp(1) that] .
  obtain b'' where c: "put_status a st b' = Some b''" "bnb_inv S P {} b''" "leaf_finished a (bmem b') (bmem b'')"
    using put_status_close [OF b'(1) _ _ st] a(1) t reason path [of a n'] b'(2) by auto
  have "leaf_finished a (bmem b) (bmem b'')"
  proof -
    have "bmem b' c = bmem b c" if "c \<noteq> a" for c using that by (simp add: b'(2))
    moreover have "same_places (bmem b'') (bmem b)" using c(3) sp(1) unfolding leaf_finished_def same_places_def by metis
    ultimately show ?thesis using c(3) t unfolding leaf_finished_def by metis
  qed
  moreover have "st \<noteq> HAS_CHILDREN" using st by (auto simp: inactive_status_def)
  ultimately have "updated a d u st (bmem b) (bmem b'')" using leaf_finished_updated [OF bnb_inv_D(1) [OF c(2)]] by blast
  moreover have "upper_bound b'' = upper_bound b'" using c(1) by (auto simp: put_status_def)
  ultimately show ?thesis using c by blast
qed

lemma xle_add_pos: "ub \<noteq> nan \<Longrightarrow> 0 \<le> t \<Longrightarrow> bound_ok v \<Longrightarrow> \<not> v \<le> ub + fin t \<Longrightarrow> ub \<le> v"
  by (cases ub; cases v) (auto simp: less_eq_xval_def bound_ok_def)

lemma snap_number: "bound_ok (snap_to_lattice S P v (fin v))"
  by (simp add: snap_to_lattice_lattice bound_ok_def)

lemma update_optimal_ok:
  assumes ok: "problem_ok S P" and inv: "bnb_inv S P {} b" and a: "open_leaf (bmem b) a" "bmem b a = Some n"
    and new: "bmem b d = None" "bmem b u = None" "d \<noteq> u"
    and box: "\<And>x. feas P x \<Longrightarrow> on_path (bmem b) x a \<Longrightarrow> in_bounds x (num_cols P) L U"
    and r: "relaxation_ok S P ub0 (\<lambda>x. on_path (bmem b) x a) r" "lp_status r = LP_OPTIMAL"
  shows "\<exists>st b'. Option.bind (update_optimal S P L U r d u a n b) (\<lambda>(st, s). if inactive_status st then map_option (\<lambda>s. (st, s)) (put_status a st s) else Some (st, s)) = Some (st, b')
    \<and> bnb_inv S P {} b' \<and> updated a d u st (bmem b) (bmem b') \<and> (st = HAS_CHILDREN \<or> inactive_status st) \<and> upper_bound b' \<le> upper_bound b"
proof -
  note db = bnb_inv_D [OF inv]
  define frs where "frs = fractional_variables (integer_tol S) (lp_x r) (var_types (presolver P))"
  define v where "v = compute_objective (objective P) (lp_x r)"
  define n1 where "n1 = n\<lparr>lower_bound := snap_to_lattice S P v (fin v)\<rparr>"
  define b1 where "b1 = put_node a n1 b"
  have key: "objective_estimate n \<noteq> nan" using db(4) [OF a(1)] a(2) by (auto simp: keyed_node_def)
  have below: "v \<le> obj P x" if "feas P x" "on_path (bmem b) x a" for x using r that unfolding relaxation_ok_def v_def by blast
  have lb: "lower_bound n1 \<le> fin (obj P x)" if "feas P x" "on_path (bmem b) x a" for x
    using snap_to_lattice_below [OF ok that(1) below [OF that]] by (simp add: n1_def)
  have same: "node_place n1 = node_place n" "down_child n1 = down_child n" "up_child n1 = up_child n" "num_children n1 = num_children n" "status n1 = status n"
    "bound_ok (lower_bound n1)" "objective_estimate n1 = objective_estimate n" by (simp_all add: n1_def node_place_def snap_number)
  have b1: "bnb_inv S P Y b1" "bmem b1 = (bmem b)(a \<mapsto> n1)" "upper_bound b1 = upper_bound b" for Y
    using put_node_inv [OF inv a(2) same(1-4), of Y] same(5-7) key lb by (auto simp: b1_def put_node_def)
  have ubr: "upper_bound b \<le> upper_bound b" using db(7) by (auto simp: less_eq_xval_def)
  consider "frs = []" | "frs \<noteq> []" "lower_bound n1 \<le> upper_bound b + fin (absolute_mip_gap_tol S / 10)"
    | "frs \<noteq> []" "\<not> lower_bound n1 \<le> upper_bound b + fin (absolute_mip_gap_tol S / 10)" by blast
  then show ?thesis
  proof cases
    case 1
    define b2 where "b2 = add_feasible_solution S P v (lp_x r) b1"
    have e: "update_optimal S P L U r d u a n b = Some (INTEGER_FEASIBLE, b2)"
      using 1 by (simp add: update_optimal_def Let_def frs_def v_def n1_def b1_def b2_def)
    note f = add_feasible_inv [OF ok b1(1) [of "{a}"], where v = v and y = "lp_x r"]
    have st: "inactive_status INTEGER_FEASIBLE" by (simp add: inactive_status_def)
    have "\<exists>b''. put_status a INTEGER_FEASIBLE b2 = Some b'' \<and> bnb_inv S P {} b'' \<and> updated a d u INTEGER_FEASIBLE (bmem b) (bmem b'') \<and> upper_bound b'' = upper_bound b2"
      using close_updated [OF inv a same st, of b2] f below b1(2) by (simp add: b2_def)
    then show ?thesis using e st f(4) b1(3) by (auto simp: b2_def)
  next
    case 2
    define n2 where "n2 = n1\<lparr>objective_estimate := estimate r\<rparr>"
    define b2 where "b2 = put_node a n2 b1"
    have s2: "node_place n2 = node_place n1" "down_child n2 = down_child n1" "up_child n2 = up_child n1" "num_children n2 = num_children n1" "status n2 = status n1"
      "lower_bound n2 = lower_bound n1" "objective_estimate n2 \<noteq> nan" using r by (simp_all add: n2_def node_place_def relaxation_ok_def)
    have b1a: "bmem b1 a = Some n1" by (simp add: b1(2))
    have op1: "open_leaf (bmem b1) c = open_leaf (bmem b) c" and path1: "bmem b c \<noteq> None \<Longrightarrow> on_path (bmem b1) x c = on_path (bmem b) x c" for c x
      using put_node_inv(2,3) [OF inv a(2) same(1-4), of "{a}"] same(5-7) key by (auto simp: b1_def)
    have p2: "bnb_inv S P {} b2" "open_leaf (bmem b2) c = open_leaf (bmem b1) c" "bmem b1 c \<noteq> None \<Longrightarrow> on_path (bmem b2) x c = on_path (bmem b1) x c"
      "bmem b2 = (bmem b1)(a \<mapsto> n2)" for c x
      using put_node_inv [OF b1(1) [of "{}"] b1a s2(1-4), of "{}"] s2(5-7) same(6) lb path1 a(2) by (auto simp: b2_def)
    have op: "open_leaf (bmem b2) c = open_leaf (bmem b) c" and path: "bmem b c \<noteq> None \<Longrightarrow> on_path (bmem b2) x c = on_path (bmem b) x c" for c x
      using p2(2,3) op1 path1 b1(2) by auto
    have a2: "open_leaf (bmem b2) a" "bmem b2 a = Some n2" using op a(1) p2(4) by auto
    have new2: "bmem b2 d = None" "bmem b2 u = None" using new a(2) p2(4) b1(2) by auto
    define w where "w = fst (choice r)"
    have "w \<in> set frs" using r 2(1) unfolding relaxation_ok_def frs_def w_def by blast
    then have w: "w < num_cols P" "var_types (presolver P) ! w \<noteq> CONTINUOUS"
      using r unfolding frs_def set_fractional_variables relaxation_ok_def by (auto simp: is_fractional_def split: if_splits)
    moreover have "var_types (presolver P) \<noteq> []" using ok w(1) by (auto simp: problem_ok_def)
    ultimately obtain t n' where br: "branch a d u w (fin (lp_x r ! w)) (int (length frs)) (lp_vstatus r) L U (bnb_tree b2) = Some t"
      "nodes t a = Some n' \<and> down_child n' = Some d \<and> up_child n' = Some u \<and> \<not> inactive_status (status n')"
      "bnb_inv S P {} (b2\<lparr>bnb_tree := t\<rparr>)" "\<forall>c. open_leaf (nodes t) c \<longleftrightarrow> (open_leaf (bmem b2) c \<and> c \<noteq> a) \<or> c = d \<or> c = u"
      "\<forall>c. c \<notin> {a, d, u} \<longrightarrow> nodes t c = bmem b2 c" "\<forall>c m. bmem b2 c = Some m \<longrightarrow> (\<exists>m'. nodes t c = Some m' \<and> node_place m = node_place m')"
      "\<forall>x. on_path (nodes t) x d \<or> on_path (nodes t) x u \<longrightarrow> on_path (bmem b2) x a"
      using branch_inv [OF p2(1) a2 new2 new(3), of w L U "lp_x r ! w" "int (length frs)" "lp_vstatus r"] box path a(2) by blast
    let ?b3 = "b2\<lparr>bnb_tree := t\<rparr>"
    have n': "bmem ?b3 a = Some n'" "down_child n' = Some d" "up_child n' = Some u" "\<not> inactive_status (status n')" using br(2) by auto
    define b4 where "b4 = put_node a (n'\<lparr>status := HAS_CHILDREN\<rparr>) ?b3"
    have no: "\<not> open_leaf (bmem ?b3) a" using n' by (simp add: open_leaf_def)
    have pre: "node_place (n'\<lparr>status := HAS_CHILDREN\<rparr>) = node_place n'" "down_child (n'\<lparr>status := HAS_CHILDREN\<rparr>) = down_child n'"
      "up_child (n'\<lparr>status := HAS_CHILDREN\<rparr>) = up_child n'" "num_children (n'\<lparr>status := HAS_CHILDREN\<rparr>) = num_children n'"
      "inactive_status (status (n'\<lparr>status := HAS_CHILDREN\<rparr>)) = inactive_status (status n')"
      using n'(4) by (simp_all add: node_place_def inactive_status_def)
    have tree3: "bmem ?b3 = nodes t" by simp
    note q = put_node_inv [OF br(3) n'(1) pre, where Y = "{}", folded b4_def, unfolded tree3]
    have p4: "bnb_inv S P {} b4" "open_leaf (bmem b4) c = open_leaf (nodes t) c" "nodes t c \<noteq> None \<Longrightarrow> on_path (bmem b4) x c = on_path (nodes t) x c"
      "bmem b4 = (nodes t)(a \<mapsto> n'\<lparr>status := HAS_CHILDREN\<rparr>)" for c x
      using q no by simp_all
    have st: "put_status a HAS_CHILDREN ?b3 = Some b4" using n'(1) by (simp add: put_status_def set_node_status_def inactive_status_def b4_def put_node_def)
    have e: "update_optimal S P L U r d u a n b = Some (HAS_CHILDREN, b4)"
      using 2 br(1) st by (simp add: update_optimal_def Let_def frs_def v_def n1_def b1_def n2_def b2_def w_def del: fun_upd_apply)
    have others: "bmem b4 c = bmem b c \<and> (\<forall>x. on_path (bmem b4) x c = on_path (bmem b) x c)" if c: "open_leaf (bmem b) c" "c \<noteq> a" for c
    proof -
      obtain m where m: "bmem b c = Some m" using open_leafD [OF c(1)] by blast
      then have "c \<notin> {a, d, u}" using c(2) new by auto
      then have tc: "nodes t c = bmem b c" using br(5) p2(4) b1(2) by auto
      have "same_places (bmem b2) (nodes t)" using br(6) unfolding same_places_def by metis
      moreover have "bmem b2 c = Some m" using m c(2) p2(4) b1(2) by simp
      ultimately have "on_path (nodes t) x c = on_path (bmem b2) x c" for x
        using on_path_same [OF bnb_inv_D(1) [OF p2(1)]] by metis
      then show ?thesis using p4(3,4) tc path m c(2) by auto
    qed
    have t0: "nodes t d \<noteq> None" "nodes t u \<noteq> None" using br(4) open_leafD by (metis option.distinct(1))+
    have "updated a d u HAS_CHILDREN (bmem b) (bmem b4)"
      unfolding updated_def using p4 n' br(4,7) op path a(2) others t0 by auto
    moreover have "\<not> inactive_status HAS_CHILDREN" "upper_bound b4 = upper_bound b" by (simp_all add: inactive_status_def b4_def b2_def b1_def put_node_def)
    ultimately show ?thesis using e p4(1) ubr by auto
  next
    case 3
    have e: "update_optimal S P L U r d u a n b = Some (FATHOMED, b1)"
      using 3 by (simp add: update_optimal_def Let_def frs_def v_def n1_def b1_def)
    have st: "inactive_status FATHOMED" by (simp add: inactive_status_def)
    have tol: "0 \<le> absolute_mip_gap_tol S / 10" using ok by (simp add: problem_ok_def)
    have "accounted S P b1 x" if "feas P x" "on_path (bmem b) x a" for x
    proof -
      have "upper_bound b \<le> lower_bound n1" using xle_add_pos [OF db(7) tol same(6) 3(2)] .
      then have "upper_bound b \<le> fin (obj P x + slack S P)" using xle_trans lb [OF that] xle_fin slack_nonneg [OF ok] by (metis add_increasing2 order_refl)
      then show ?thesis by (simp add: accounted_def b1(3))
    qed
    then have "\<exists>b''. put_status a FATHOMED b1 = Some b'' \<and> bnb_inv S P {} b'' \<and> updated a d u FATHOMED (bmem b) (bmem b'') \<and> upper_bound b'' = upper_bound b1"
      using close_updated [OF inv a same st b1(1,2)] by blast
    then show ?thesis using e st b1(3) ubr by auto
  qed
qed

lemma update_tree_ok:
  assumes ok: "problem_ok S P" and inv: "bnb_inv S P {} b" and a: "open_leaf (bmem b) a"
    and new: "bmem b d = None" "bmem b u = None" "d \<noteq> u"
    and box: "\<And>x. feas P x \<Longrightarrow> on_path (bmem b) x a \<Longrightarrow> in_bounds x (num_cols P) L U"
    and r: "relaxation_ok S P ub0 (\<lambda>x. on_path (bmem b) x a) r" "lp_status r \<noteq> LP_TIME_LIMIT" and ub: "upper_bound b \<le> ub0"
  shows "\<exists>st b'. update_tree S P L U r d u a b = Some (st, b') \<and> bnb_inv S P {} b' \<and> updated a d u st (bmem b) (bmem b')
    \<and> (st = HAS_CHILDREN \<or> inactive_status st) \<and> upper_bound b' \<le> upper_bound b"
proof -
  note db = bnb_inv_D [OF inv]
  obtain n where n: "bmem b a = Some n" using open_leafD [OF a] by blast
  have key: "bound_ok (lower_bound n)" "objective_estimate n \<noteq> nan" using db(10) [OF a] n by (auto simp: bounded_node_def)
  have ubr: "upper_bound b \<le> upper_bound b" using db(7) by (auto simp: less_eq_xval_def)
  have close: ?thesis
    if e: "update_tree S P L U r d u a b = map_option (\<lambda>s. (st, s)) (put_status a st b1)" and st: "inactive_status st"
      and b1: "bnb_inv S P {a} b1" "bmem b1 = (bmem b)(a \<mapsto> n1)" "upper_bound b1 = upper_bound b"
      and n1: "n1 = n \<or> n1 = n\<lparr>lower_bound := v\<rparr> \<and> bound_ok v"
      and reason: "\<And>x. feas P x \<Longrightarrow> on_path (bmem b) x a \<Longrightarrow> accounted S P b1 x" for st b1 n1 v
  proof -
    have same: "node_place n1 = node_place n" "down_child n1 = down_child n" "up_child n1 = up_child n" "num_children n1 = num_children n" "status n1 = status n"
      "bound_ok (lower_bound n1)" "objective_estimate n1 = objective_estimate n" using n1 key by (auto simp: node_place_def)
    obtain b'' where "put_status a st b1 = Some b''" "bnb_inv S P {} b''" "updated a d u st (bmem b) (bmem b'')" "upper_bound b'' = upper_bound b1"
      using close_updated [OF inv a n same st b1(1,2) reason] by blast
    then show ?thesis using e st b1(3) ubr by simp
  qed
  have put: "bnb_inv S P {a} (put_node a (n\<lparr>lower_bound := v\<rparr>) b)" if "bound_ok v" for v
    by (rule put_node_inv(1) [OF inv n]) (use that key in \<open>auto simp: node_place_def\<close>)
  have put': "bmem (put_node a m b) = (bmem b)(a \<mapsto> m)" "upper_bound (put_node a m b) = upper_bound b" for m by (simp_all add: put_node_def)
  consider (optimal) "lp_status r = LP_OPTIMAL" | (unbounded) "lp_status r = LP_DUAL_UNBOUNDED" | (cutoff) "lp_status r = LP_CUTOFF"
    | (numerical) "lp_status r \<in> {LP_NUMERICAL, LP_ITERATION_LIMIT, LP_CONCURRENT_LIMIT, LP_UNSET}"
    using r by (cases "lp_status r") (auto simp: relaxation_ok_def)
  then show ?thesis
  proof cases
    case optimal
    then show ?thesis using update_optimal_ok [OF ok inv a n new box r(1) optimal] n by (simp add: update_tree_def)
  next
    case unbounded
    show ?thesis
    proof (rule close [where st = INFEASIBLE and v = pinf and ?b1.0 = "put_node a (n\<lparr>lower_bound := pinf\<rparr>) b"])
      show "update_tree S P L U r d u a b = map_option (\<lambda>s. (INFEASIBLE, s)) (put_status a INFEASIBLE (put_node a (n\<lparr>lower_bound := pinf\<rparr>) b))"
        using unbounded n by (simp add: update_tree_def inactive_status_def)
      fix x assume "feas P x" "on_path (bmem b) x a"
      then show "accounted S P (put_node a (n\<lparr>lower_bound := pinf\<rparr>) b) x" using r unbounded by (auto simp: relaxation_ok_def)
    qed (use put [of pinf] put' in \<open>auto simp: inactive_status_def bound_ok_def\<close>)
  next
    case cutoff
    show ?thesis
    proof (rule close [where st = FATHOMED and v = "upper_bound b" and ?b1.0 = "put_node a (n\<lparr>lower_bound := upper_bound b\<rparr>) b"])
      show "update_tree S P L U r d u a b = map_option (\<lambda>s. (FATHOMED, s)) (put_status a FATHOMED (put_node a (n\<lparr>lower_bound := upper_bound b\<rparr>) b))"
        using cutoff n by (simp add: update_tree_def inactive_status_def)
      fix x assume x: "feas P x" "on_path (bmem b) x a"
      then have "compute_node_cutoff S P ub0 \<le> fin (obj P x)" using r cutoff by (simp add: relaxation_ok_def)
      moreover have "ub0 \<noteq> nan" using ub by (cases "upper_bound b") (auto simp: less_eq_xval_def)
      ultimately have "ub0 \<le> fin (obj P x + slack S P)" by (rule cutoff_improves [OF ok x(1)])
      then show "accounted S P (put_node a (n\<lparr>lower_bound := upper_bound b\<rparr>) b) x" using xle_trans [OF ub] put' by (simp add: accounted_def)
    qed (use put [of "upper_bound b"] put' db(11) in \<open>auto simp: inactive_status_def\<close>)
  next
    case numerical
    let ?b = "b\<lparr>lower_bound_numerical := (if lower_bound n < lower_bound_numerical b then lower_bound n else lower_bound_numerical b)\<rparr>"
    have num: "lower_bound_numerical ?b \<le> lower_bound_numerical b" "lower_bound_numerical ?b \<le> lower_bound n" "bound_ok (lower_bound_numerical ?b)"
      using key(1) db(12) by (cases "lower_bound n"; cases "lower_bound_numerical b"; auto simp: less_eq_xval_def bound_ok_def)+
    show ?thesis
    proof (rule close [where st = NUMERICAL and ?b1.0 = ?b and ?n1.0 = n])
      show "update_tree S P L U r d u a b = map_option (\<lambda>s. (NUMERICAL, s)) (put_status a NUMERICAL ?b)"
        using numerical n by (auto simp: update_tree_def inactive_status_def)
      have mono: "accounted S P ?b x" if "accounted S P b x" for x using that xle_trans [OF num(1)] by (auto simp: accounted_def)
      then show "bnb_inv S P {a} ?b" using inv num(3) unfolding bnb_inv_def by (auto simp del: if_split)
      fix x assume x: "feas P x" "on_path (bmem b) x a"
      have "lower_bound_numerical ?b \<le> fin (obj P x)" using xle_trans [OF num(2)] db(5) [OF a _ n x] by simp
      then show "accounted S P ?b x" using xle_fin slack_nonneg [OF ok] by (auto simp: accounted_def)
    qed (use n in \<open>auto simp: inactive_status_def\<close>)
  qed
qed

end
