(* ===== verification/Best_First_Search.thy ===== *)
theory Best_First_Search
  imports Search_Invariants
begin

text \<open>
  The workers of the best-first search together: every open leaf of the tree is held by exactly one
  worker, in its queue, on its stack or as its current node, whatever the order of their steps.
  A step is what a worker does under one lock or on nodes that only it holds.
\<close>

section \<open>What a worker holds\<close>

definition held :: "bfs_worker \<Rightarrow> nat multiset" where
  "held w = queued (queue w) + mset (stack w) + (case current w of None \<Rightarrow> {#} | Some a \<Rightarrow> {#a#})"

definition all_held :: "bnb_search \<Rightarrow> nat multiset" where
  "all_held s = sum_list (map held (workers s))"

definition rest :: "nat \<Rightarrow> bnb_search \<Rightarrow> nat multiset" where
  "rest i s = sum_list (map held (take i (workers s) @ drop (Suc i) (workers s)))"

lemma all_held_split: "i < length (workers s) \<Longrightarrow> all_held s = held (workers s ! i) + rest i s"
proof -
  assume "i < length (workers s)"
  then have "map held (workers s) = map held (take i (workers s)) @ held (workers s ! i) # map held (drop (Suc i) (workers s))"
    by (metis id_take_nth_drop list.simps(9) map_append)
  then show ?thesis by (simp add: all_held_def rest_def union_ac)
qed

lemma all_held_set_worker: "i < length (workers s) \<Longrightarrow> all_held (set_worker i w s) = held w + rest i s"
  by (simp add: all_held_def rest_def set_worker_def upd_conv_take_nth_drop union_ac)

lemma member_sum_list: "M \<in> set Ms \<Longrightarrow> M \<subseteq># sum_list (Ms :: 'a multiset list)"
  by (induction Ms) (auto intro: subset_mset.order_trans)

lemma held_rest:
  assumes "j < length (workers s)" "j \<noteq> i"
  shows "held (workers s ! j) \<subseteq># rest i s"
proof -
  have "workers s ! j \<in> set (take i (workers s) @ drop (Suc i) (workers s))"
  proof (cases "j < i")
    case True
    then have "workers s ! j = take i (workers s) ! j" "j < length (take i (workers s))" using assms(1) by simp_all
    then show ?thesis by (metis UnCI nth_mem set_append)
  next
    case False
    then have "workers s ! j = drop (Suc i) (workers s) ! (j - Suc i)" "j - Suc i < length (drop (Suc i) (workers s))" using assms by simp_all
    then show ?thesis by (metis UnCI nth_mem set_append)
  qed
  then show ?thesis unfolding rest_def by (metis imageI list.set_map member_sum_list)
qed

section \<open>The invariant\<close>

text \<open>An entry records the lower bound of its node.\<close>

definition entries_ok :: "node_memory \<Rightarrow> node_queue \<Rightarrow> bool" where
  "entries_ok mem q \<longleftrightarrow> (\<forall>e < length (entries q). \<forall>a. entry_node (entries q ! e) = Some a \<longrightarrow>
     (\<exists>n. mem a = Some n \<and> entry_lower_bound (entries q ! e) = lower_bound n))"

text \<open>The node whose relaxation is solved next.\<close>

definition next_node :: "bfs_worker \<Rightarrow> nat option" where
  "next_node w = (case current w of Some a \<Rightarrow> Some a | None \<Rightarrow> (case stack w of [] \<Rightarrow> None | a # _ \<Rightarrow> Some a))"

definition worker_ok :: "mip_problem \<Rightarrow> node_memory \<Rightarrow> bfs_worker \<Rightarrow> bool" where
  "worker_ok P mem w \<longleftrightarrow> queue_ok (queue w) \<and> entries_ok mem (queue w)
     \<and> length (stack w) + (case current w of None \<Rightarrow> 0 | Some _ \<Rightarrow> 1) \<le> 2
     \<and> (\<not> recompute_bounds w \<longrightarrow> (\<forall>a x. next_node w = Some a \<and> feas P x \<and> on_path mem x a \<longrightarrow> in_bounds x (num_cols P) (leaf_lower w) (leaf_upper w)))"

definition search_ok :: "mip_settings \<Rightarrow> mip_problem \<Rightarrow> bnb_search \<Rightarrow> bool" where
  "search_ok S P s \<longleftrightarrow> bnb_inv S P {} (shared s) \<and> (\<forall>w \<in> set (workers s). worker_ok P (memory s) w)
     \<and> all_held s = mset_set {a. open_leaf (memory s) a}"

lemma finite_open: "tree_ok mem \<Longrightarrow> finite {a. open_leaf mem a}"
  by (rule finite_subset [of _ "dom mem"]) (auto simp: open_leaf_def tree_due_def)

lemma next_node_held: "next_node w = Some a \<Longrightarrow> a \<in># held w"
  by (auto simp: next_node_def held_def split: option.splits list.splits)

lemma queued_entry:
  "queue_ok q \<Longrightarrow> e < length (entries q) \<Longrightarrow> entry_node (entries q ! e) = Some a \<Longrightarrow> a \<in># queued q"
  by (rule queued_member)

text \<open>A worker does not notice a change to nodes it does not hold.\<close>

lemma worker_ok_cong:
  assumes w: "worker_ok P mem w" and same: "\<And>c. c \<in># held w \<Longrightarrow> \<exists>n n'. mem c = Some n \<and> mem' c = Some n' \<and> lower_bound n' = lower_bound n"
    and path: "\<And>c x. c \<in># held w \<Longrightarrow> on_path mem' x c = on_path mem x c"
  shows "worker_ok P mem' w"
proof -
  have q: "queue_ok (queue w)" "entries_ok mem (queue w)" using w by (simp_all add: worker_ok_def)
  have "entries_ok mem' (queue w)"
    unfolding entries_ok_def
  proof (intro allI impI)
    fix e a assume e: "e < length (entries (queue w))" "entry_node (entries (queue w) ! e) = Some a"
    then have "a \<in># held w" using queued_entry [OF q(1)] by (simp add: held_def)
    then show "\<exists>n. mem' a = Some n \<and> entry_lower_bound (entries (queue w) ! e) = lower_bound n"
      using same [of a] q(2) e unfolding entries_ok_def by fastforce
  qed
  then show ?thesis using w path next_node_held unfolding worker_ok_def by blast
qed

lemma next_node_queue [simp]: "next_node (w\<lparr>queue := q\<rparr>) = next_node w"
  by (cases "current w") (simp_all add: next_node_def)

lemma worker_queue_ok: "worker_ok P mem w \<Longrightarrow> queue_ok q \<Longrightarrow> entries_ok mem q \<Longrightarrow> worker_ok P mem (w\<lparr>queue := q\<rparr>)"
  by (auto simp: worker_ok_def)

lemma search_okD:
  assumes "search_ok S P s"
  shows "bnb_inv S P {} (shared s)" "\<And>w. w \<in> set (workers s) \<Longrightarrow> worker_ok P (memory s) w" "all_held s = mset_set {a. open_leaf (memory s) a}"
    "tree_ok (memory s)" "finite {a. open_leaf (memory s) a}"
  using assms bnb_inv_D(1) finite_open unfolding search_ok_def by blast+

lemma held_open:
  assumes "search_ok S P s" "i < length (workers s)" "a \<in># held (workers s ! i)"
  shows "open_leaf (memory s) a"
proof -
  have "a \<in># all_held s" using all_held_split [OF assms(2)] assms(3) by simp
  then show ?thesis using search_okD(3,5) [OF assms(1)] by simp
qed

text \<open>A held node is held once.\<close>

lemma held_once:
  assumes s: "search_ok S P s" and i: "i < length (workers s)" and a: "held (workers s ! i) = add_mset a H"
  shows "a \<notin># H" "a \<notin># rest i s" "mset_set ({c. open_leaf (memory s) c} - {a}) = H + rest i s"
proof -
  note d = search_okD [OF s]
  have e: "mset_set {c. open_leaf (memory s) c} = add_mset a (H + rest i s)" using d(3) all_held_split [OF i] a by simp
  moreover have "count (mset_set {c. open_leaf (memory s) c}) a \<le> 1" using d(5) by (simp add: count_mset_set')
  ultimately have "count (H + rest i s) a = 0" by simp
  then have "a \<notin># H + rest i s" by (simp add: not_in_iff)
  then show "a \<notin># H" "a \<notin># rest i s" by simp_all
  have "mset_set ({c. open_leaf (memory s) c} - {a}) = mset_set {c. open_leaf (memory s) c} - {#a#}"
    using d(5) held_open [OF s i, of a] a mset_set_Diff [of "{c. open_leaf (memory s) c}" "{a}"] by simp
  then show "mset_set ({c. open_leaf (memory s) c} - {a}) = H + rest i s" using e by simp
qed

text \<open>A step of worker \<open>i\<close> on the shared state and its own data.\<close>

lemma worker_step:
  assumes s: "search_ok S P s" and i: "i < length (workers s)" and b: "bnb_inv S P {} b" and w: "worker_ok P (bmem b) w"
    and h: "held w + rest i s = mset_set {a. open_leaf (bmem b) a}"
    and same: "\<And>c. c \<in># rest i s \<Longrightarrow> \<exists>n n'. memory s c = Some n \<and> bmem b c = Some n' \<and> lower_bound n' = lower_bound n"
    and path: "\<And>c x. c \<in># rest i s \<Longrightarrow> on_path (bmem b) x c = on_path (memory s) x c"
  shows "search_ok S P (set_worker i w (s\<lparr>shared := b\<rparr>))"
proof -
  have "worker_ok P (bmem b) v" if v: "v \<in> set ((workers s)[i := w])" for v
  proof -
    obtain j where j: "j < length (workers s)" "v = (workers s)[i := w] ! j" using v by (auto simp: in_set_conv_nth)
    show ?thesis
    proof (cases "j = i")
      case True
      then show ?thesis using j w by simp
    next
      case False
      then have vj: "v = workers s ! j" using j by simp
      then have "worker_ok P (memory s) v" using search_okD(2) [OF s] j(1) by simp
      moreover have "c \<in># rest i s" if "c \<in># held v" for c using held_rest [OF j(1) False] that vj by (metis mset_subset_eqD)
      ultimately show ?thesis using worker_ok_cong same path by blast
    qed
  qed
  moreover have "all_held (set_worker i w (s\<lparr>shared := b\<rparr>)) = held w + rest i s"
    using all_held_set_worker [of i "s\<lparr>shared := b\<rparr>" w] i by (simp add: rest_def)
  ultimately show ?thesis using b h by (simp add: search_ok_def set_worker_def)
qed

lemma open_number:
  assumes "search_ok S P s" "open_leaf (memory s) a"
  obtains n where "memory s a = Some n" "lower_bound n \<noteq> nan" "objective_estimate n \<noteq> nan" "keyed_node (memory s) a"
  using bnb_inv_D(4) [OF search_okD(1) [OF assms(1)] assms(2)] that by (auto simp: keyed_node_def)

text \<open>A step that leaves the shared state alone.\<close>

lemma local_step:
  assumes s: "search_ok S P s" and i: "i < length (workers s)" and w: "worker_ok P (memory s) w" and h: "held w = held (workers s ! i)"
  shows "search_ok S P (set_worker i w s)"
proof -
  have "s\<lparr>shared := shared s\<rparr> = s" by simp
  moreover have "\<exists>n n'. memory s c = Some n \<and> memory s c = Some n' \<and> lower_bound n' = lower_bound n" if "c \<in># rest i s" for c
  proof -
    have "c \<in># all_held s" using all_held_split [OF i] that by simp
    then have "open_leaf (memory s) c" using search_okD(3,5) [OF s] by simp
    then show ?thesis using open_leafD by blast
  qed
  ultimately show ?thesis
    using worker_step [OF s i search_okD(1) [OF s] w] h search_okD(3) [OF s] all_held_split [OF i] by metis
qed

section \<open>Steps\<close>

lemma entries_ok_clear: "entries_ok mem q \<Longrightarrow> entries q' = (entries q)[e := (entries q ! e)\<lparr>entry_node := None\<rparr>] \<Longrightarrow> entries_ok mem q'"
  unfolding entries_ok_def
proof (intro allI impI)
  fix f a assume ok: "\<forall>e < length (entries q). \<forall>a. entry_node (entries q ! e) = Some a \<longrightarrow> (\<exists>n. mem a = Some n \<and> entry_lower_bound (entries q ! e) = lower_bound n)"
    and eq: "entries q' = (entries q)[e := (entries q ! e)\<lparr>entry_node := None\<rparr>]" and f: "f < length (entries q')" "entry_node (entries q' ! f) = Some a"
  then have "f \<noteq> e" by auto
  then show "\<exists>n. mem a = Some n \<and> entry_lower_bound (entries q' ! f) = lower_bound n" using ok eq f by simp
qed

lemma entries_ok_append:
  "entries_ok mem q \<Longrightarrow> mem a = Some n \<Longrightarrow> entries q' = entries q @ [heap_entry_t a n] \<Longrightarrow> entries_ok mem q'"
  by (auto simp: entries_ok_def nth_append heap_entry_t_def less_Suc_eq)

text \<open>Closing a node that the worker held.\<close>

lemma close_step:
  assumes s: "search_ok S P s" and i: "i < length (workers s)" and b: "bnb_inv S P {} b" "updated a d u st (memory s) (bmem b)" "st \<noteq> HAS_CHILDREN"
    and w: "worker_ok P (memory s) w" and h: "held (workers s ! i) = add_mset a (held w)"
  shows "search_ok S P (set_worker i w (s\<lparr>shared := b\<rparr>))"
proof -
  note o = held_once [OF s i h]
  have op: "{c. open_leaf (bmem b) c} = {c. open_leaf (memory s) c} - {a}" using b(2,3) by (auto simp: updated_def)
  have keep: "bmem b c = memory s c \<and> (\<forall>x. on_path (bmem b) x c = on_path (memory s) x c) \<and> (\<exists>n. memory s c = Some n)" if "c \<in># held w + rest i s" for c
  proof -
    have "c \<in> {c. open_leaf (memory s) c} - {a}" using that o(3) search_okD(5) [OF s] by (metis finite_Diff elem_mset_set)
    then show ?thesis using b(2) open_leafD unfolding updated_def by blast
  qed
  have "worker_ok P (bmem b) w" by (rule worker_ok_cong [OF w]) (use keep in fastforce)+
  then show ?thesis using worker_step [OF s i b(1)] o(3) op keep by (metis union_iff)
qed

lemma fathom_ok:
  assumes s: "search_ok S P s" and ok: "problem_ok S P" and i: "i < length (workers s)" and w: "worker_ok P (memory s) w" and h: "held (workers s ! i) = add_mset a (held w)"
    and n: "memory s a = Some n" "upper_bound (shared s) < lower_bound n"
  shows "\<exists>s'. fathom i a w s = Some s' \<and> search_ok S P s'"
proof -
  note d = search_okD [OF s] and db = bnb_inv_D [OF search_okD(1) [OF s]]
  have a: "open_leaf (memory s) a" using held_open [OF s i] h by simp
  have "accounted S P (shared s) x" if "feas P x" "on_path (memory s) x a" for x
  proof -
    have "lower_bound n \<le> fin (obj P x)" using db(5) [OF a _ n(1) that] by simp
    moreover have "upper_bound (shared s) \<le> lower_bound n" using n(2) by (simp add: less_eq_xval_def)
    ultimately have "upper_bound (shared s) \<le> fin (obj P x)" by (blast intro: xle_trans)
    then show ?thesis using xle_fin slack_nonneg [OF ok] by (auto simp: accounted_def)
  qed
  then obtain b where b: "put_status a FATHOMED (shared s) = Some b" "bnb_inv S P {} b" "leaf_finished a (memory s) (bmem b)"
    using put_status_close [OF d(1) _ a, of FATHOMED] by (auto simp: inactive_status_def)
  then show ?thesis
    using close_step [OF s i b(2) leaf_finished_updated [OF bnb_inv_D(1) [OF b(2)] b(3)] _ w h, of FATHOMED] by (simp add: fathom_def)
qed

lemma start_plunge_ok:
  assumes s: "search_ok S P s" and ok: "problem_ok S P" and i: "i < length (workers s)" and idle: "stack (workers s ! i) = []" "current (workers s ! i) = None"
  shows "\<exists>s'. start_plunge i s = Some s' \<and> search_ok S P s'"
proof -
  let ?w = "workers s ! i"
  have w: "worker_ok P (memory s) ?w" using search_okD(2) [OF s] i by simp
  then have q: "queue_ok (queue ?w)" "entries_ok (memory s) (queue ?w)" by (simp_all add: worker_ok_def)
  show ?thesis
  proof (cases "queued (queue ?w) = {#}")
    case True
    then show ?thesis using best_empty_iff [OF q(1)] s by (simp add: start_plunge_def queue_pop_def Let_def)
  next
    case False
    obtain a q' e where p: "pop_entry (queue ?w) = Some (Some a, q')" "queue_ok q'" "queued (queue ?w) = add_mset a (queued q')"
      "entries q' = (entries (queue ?w))[e := (entries (queue ?w) ! e)\<lparr>entry_node := None\<rparr>]"
      by (rule pop_entry_ok [OF q(1) False])
    have pop: "queue_pop (queue ?w) = Some (Some a, q')" using False best_empty_iff [OF q(1)] p(1) by (simp add: queue_pop_def)
    have e': "entries_ok (memory s) q'" using entries_ok_clear [OF q(2) p(4)] .
    have h: "held ?w = add_mset a (held (?w\<lparr>queue := q'\<rparr>))" using p(3) by (simp add: held_def)
    have a: "open_leaf (memory s) a" using held_open [OF s i] h by simp
    obtain n where n: "memory s a = Some n" using open_leafD [OF a] by blast
    have w1: "worker_ok P (memory s) (?w\<lparr>queue := q'\<rparr>)" using worker_queue_ok [OF w p(2) e'] .
    have w2: "worker_ok P (memory s) (?w\<lparr>queue := q', stack := [a], recompute_bounds := True\<rparr>)" using p(2) e' idle by (simp add: worker_ok_def)
    have h2: "held (?w\<lparr>queue := q', stack := [a], recompute_bounds := True\<rparr>) = held ?w" using p(3) idle by (simp add: held_def)
    show ?thesis
      using pop n fathom_ok [OF s ok i w1 h n] local_step [OF s i w2 h2] by (simp add: start_plunge_def Let_def)
  qed
qed

lemma take_node_ok:
  assumes s: "search_ok S P s" and ok: "problem_ok S P" and i: "i < length (workers s)" and idle: "current (workers s ! i) = None"
  shows "\<exists>s'. take_node i s = Some s' \<and> search_ok S P s'"
proof -
  let ?w = "workers s ! i"
  have w: "worker_ok P (memory s) ?w" using search_okD(2) [OF s] i by simp
  show ?thesis
  proof (cases "stack ?w")
    case Nil
    then show ?thesis using s by (simp add: take_node_def Let_def)
  next
    case (Cons a as)
    have h: "held ?w = add_mset a (held (?w\<lparr>stack := as, recompute_bounds := True\<rparr>))" using Cons by (simp add: held_def)
    have a: "open_leaf (memory s) a" using held_open [OF s i] h by simp
    obtain n where n: "memory s a = Some n" using open_leafD [OF a] by blast
    have w1: "worker_ok P (memory s) (?w\<lparr>stack := as, recompute_bounds := True\<rparr>)" using w idle Cons by (simp add: worker_ok_def)
    have w2: "worker_ok P (memory s) (?w\<lparr>stack := as, current := Some a\<rparr>)" using w idle Cons by (simp add: worker_ok_def next_node_def)
    have h2: "held (?w\<lparr>stack := as, current := Some a\<rparr>) = held ?w" using Cons idle by (simp add: held_def)
    show ?thesis using Cons n fathom_ok [OF s ok i w1 h n] local_step [OF s i w2 h2] by (simp add: take_node_def Let_def)
  qed
qed

lemma put_back_ok:
  assumes s: "search_ok S P s" and i: "i < length (workers s)"
  shows "search_ok S P (put_back i s)"
proof (cases "current (workers s ! i)")
  case None
  then show ?thesis using s by (simp add: put_back_def Let_def)
next
  case (Some a)
  let ?w = "workers s ! i"
  have "worker_ok P (memory s) ?w" using search_okD(2) [OF s] i by simp
  then have "worker_ok P (memory s) (?w\<lparr>stack := a # stack ?w, current := None\<rparr>)" using Some by (simp add: worker_ok_def next_node_def)
  moreover have "held (?w\<lparr>stack := a # stack ?w, current := None\<rparr>) = held ?w" using Some by (simp add: held_def)
  ultimately show ?thesis using local_step [OF s i] Some by (simp add: put_back_def Let_def)
qed

section \<open>Exploring a node\<close>

lemma set_lp_bounds_ok:
  assumes s: "search_ok S P s" and ok: "problem_ok S P" and w: "worker_ok P (memory s) w" and a: "current w = Some a" "memory s a = Some n"
  obtains fb L U where "set_lp_variable_bounds S P (memory s) n w = Some (fb, w\<lparr>leaf_lower := L, leaf_upper := U\<rparr>)"
    "\<And>x. feas P x \<Longrightarrow> on_path (memory s) x a \<Longrightarrow> fb \<and> in_bounds x (num_cols P) L U"
proof -
  note t = search_okD(4) [OF s] and v = bnb_inv_D(3) [OF search_okD(1) [OF s]]
  let ?N = "num_cols P" and ?F = "replicate (length (lp_lower P)) False"
  have "\<exists>l u c. (if recompute_bounds w then get_variable_bounds (memory s) n (lp_lower P, lp_upper P, ?F)
        else Some (update_branched_variable_bounds n (leaf_lower w, leaf_upper w, ?F))) = Some (l, u, c)
      \<and> (\<forall>x. feas P x \<and> on_path (memory s) x a \<longrightarrow> in_bounds x ?N l u)"
  proof (cases "recompute_bounds w")
    case True
    obtain l u c where g: "get_variable_bounds (memory s) n (lp_lower P, lp_upper P, ?F) = Some (l, u, c)"
      using climb_total [OF t a(2), of "lp_lower P" "lp_upper P" ?F] get_variable_bounds_climb [OF t a(2)] by auto
    then have "node_box (memory s) (lp_lower P) (lp_upper P) a = Some (l, u)" by (simp add: node_box_def a(2))
    then have "in_bounds x ?N l u" if "feas P x" "on_path (memory s) x a" for x
      using on_path_box [OF t v a(2) that(2), of "lp_lower P" "lp_upper P"] that(1) by (auto simp: feas_def)
    then show ?thesis using True g by auto
  next
    case False
    obtain l u c where g: "update_branched_variable_bounds n (leaf_lower w, leaf_upper w, ?F) = (l, u, c)" by (metis prod_cases3)
    have "in_bounds x ?N l u" if x: "feas P x" "on_path (memory s) x a" for x
    proof -
      have b: "in_bounds x ?N (leaf_lower w) (leaf_upper w)" using w False x a(1) unfolding worker_ok_def by (simp add: next_node_def)
      show ?thesis
      proof (cases "parent n")
        case None
        then show ?thesis using g b by (simp add: update_branched_variable_bounds_def Let_def)
      next
        case (Some p)
        then have "lb_ok (branch_var_lower n) (x (nat (branch_var n)))" "ub_ok (branch_var_upper n) (x (nat (branch_var n)))"
          using x(2) on_path_child_iff [of "memory s" a n p x] a(2) by auto
        moreover have "nat (branch_var n) < ?N" using v a(2) Some unfolding vars_ok_def by auto
        ultimately show ?thesis
          using g b Some ok in_bounds_update [OF b] by (auto simp: update_branched_variable_bounds_def Let_def problem_ok_def)
      qed
    qed
    then show ?thesis using False g by auto
  qed
  then obtain l u c where lu: "(if recompute_bounds w then get_variable_bounds (memory s) n (lp_lower P, lp_upper P, ?F)
        else Some (update_branched_variable_bounds n (leaf_lower w, leaf_upper w, ?F))) = Some (l, u, c)"
      "\<forall>x. feas P x \<and> on_path (memory s) x a \<longrightarrow> in_bounds x ?N l u" by blast
  obtain fb L U k where bs: "bounds_strengthening (presolver P) (tolerances.truncate S) c l u = (fb, L, U, k)" by (metis prod_cases4)
  have "fb \<and> in_bounds x ?N L U" if x: "feas P x" "on_path (memory s) x a" for x
  proof -
    have "in_bounds x ?N l u" using lu(2) x by blast
    then show ?thesis
      using strengthening_keeps [OF _ _ _ _ _ _ bs, of x] x(1) ok by (auto simp: problem_ok_def feas_def tolerances.truncate_def)
  qed
  then show thesis using that lu(1) bs by (simp add: set_lp_variable_bounds_def Let_def)
qed

lemma push_atomic_ok:
  assumes "queue_ok (queue w)" "entries_ok mem (queue w)" "keyed_node mem c"
  shows "\<exists>q. push_atomic c mem w = Some (w\<lparr>queue := q\<rparr>) \<and> queue_ok q \<and> entries_ok mem q \<and> queued q = add_mset c (queued (queue w))"
proof -
  obtain n where n: "mem c = Some n" "lower_bound n \<noteq> nan" "objective_estimate n \<noteq> nan" using assms(3) by (auto simp: keyed_node_def)
  show ?thesis
  proof (rule push_lockfree_ok [where q = "queue w" and mem = mem and a = c and n = n])
    fix q assume q: "push_lockfree mem c (queue w) = Some q" "queue_ok q" "queued q = add_mset c (queued (queue w))" "entries q = entries (queue w) @ [heap_entry_t c n]"
    then show ?thesis using entries_ok_append [OF assms(2) n(1) q(4)] by (intro exI [of _ q]) (simp add: push_atomic_def)
  qed (use assms n in auto)
qed

lemma route_children_ok:
  assumes q: "queue_ok (queue w)" "entries_ok mem (queue w)" and st: "length (stack w) \<le> 1" and cur: "current w = None" and rec: "\<not> recompute_bounds w"
    and n: "down_child n = Some d" "up_child n = Some u" and key: "\<And>c. c \<in> set (stack w) \<or> c = d \<or> c = u \<Longrightarrow> keyed_node mem c"
    and box: "\<And>x. feas P x \<Longrightarrow> on_path mem x d \<or> on_path mem x u \<Longrightarrow> in_bounds x (num_cols P) (leaf_lower w) (leaf_upper w)"
  shows "\<exists>w'. route_children m mem dir n w = Some w' \<and> worker_ok P mem w' \<and> held w' = held w + {#d, u#}"
proof -
  define other preferred where "other = (if dir = UP then d else u)" and "preferred = (if dir = UP then u else d)"
  have e1: "\<exists>w1. evict_sibling mem w = Some w1 \<and> queue_ok (queue w1) \<and> entries_ok mem (queue w1) \<and> stack w1 = [] \<and> current w1 = None \<and> \<not> recompute_bounds w1
      \<and> leaf_lower w1 = leaf_lower w \<and> leaf_upper w1 = leaf_upper w \<and> held w1 = held w"
  proof (cases "stack w = []")
    case True
    then show ?thesis using q cur rec by (simp add: evict_sibling_def)
  next
    case False
    then obtain c where c: "stack w = [c]" using st by (cases "stack w") auto
    then obtain q1 where "push_atomic c mem (w\<lparr>stack := []\<rparr>) = Some (w\<lparr>stack := [], queue := q1\<rparr>)" "queue_ok q1" "entries_ok mem q1" "queued q1 = add_mset c (queued (queue w))"
      using push_atomic_ok [of "w\<lparr>stack := []\<rparr>" mem c] q key by auto
    then show ?thesis using c cur rec by (simp add: evict_sibling_def held_def)
  qed
  then obtain w1 where w1: "evict_sibling mem w = Some w1" "queue_ok (queue w1)" "entries_ok mem (queue w1)" "stack w1 = []" "current w1 = None" "\<not> recompute_bounds w1"
      "leaf_lower w1 = leaf_lower w" "leaf_upper w1 = leaf_upper w" "held w1 = held w" by blast
  have ko: "keyed_node mem other" using key by (simp add: other_def)
  have "\<exists>w2. (if best_first_queue_size (queue w1) < m then push_atomic other mem w1 else Some (w1\<lparr>stack := other # stack w1\<rparr>)) = Some w2
      \<and> queue_ok (queue w2) \<and> entries_ok mem (queue w2) \<and> length (stack w2) \<le> 1 \<and> current w2 = None \<and> \<not> recompute_bounds w2
      \<and> leaf_lower w2 = leaf_lower w \<and> leaf_upper w2 = leaf_upper w \<and> held w2 = add_mset other (held w)"
    using push_atomic_ok [OF w1(2,3) ko] w1 by (auto simp: held_def)
  then obtain w2 where w2: "(if best_first_queue_size (queue w1) < m then push_atomic other mem w1 else Some (w1\<lparr>stack := other # stack w1\<rparr>)) = Some w2"
      "queue_ok (queue w2)" "entries_ok mem (queue w2)" "length (stack w2) \<le> 1" "current w2 = None" "\<not> recompute_bounds w2"
      "leaf_lower w2 = leaf_lower w" "leaf_upper w2 = leaf_upper w" "held w2 = add_mset other (held w)" by blast
  let ?w = "w2\<lparr>stack := preferred # stack w2\<rparr>"
  have "route_children m mem dir n w = Some ?w" using n w1(1) w2(1) by (auto simp: route_children_def other_def preferred_def)
  moreover have "worker_ok P mem ?w" using w2 box by (auto simp: worker_ok_def next_node_def preferred_def)
  moreover have "held ?w = held w + {#d, u#}" using w2(5,9) by (auto simp: held_def other_def preferred_def)
  ultimately show ?thesis by blast
qed

text \<open>What the LP solver promises for the bounds that it is given, when it is called at all.\<close>

definition solver_answer_ok :: "mip_settings \<Rightarrow> mip_problem \<Rightarrow> xval \<Rightarrow> nat \<Rightarrow> bnb_search \<Rightarrow> relaxation \<Rightarrow> bool" where
  "solver_answer_ok S P ub i s r \<longleftrightarrow> upper_bound (shared s) \<le> ub
     \<and> (\<forall>a n w. current (workers s ! i) = Some a \<and> memory s a = Some n \<and> set_lp_variable_bounds S P (memory s) n (workers s ! i) = Some (True, w)
          \<longrightarrow> relaxation_ok S P ub (\<lambda>x. in_bounds x (num_cols P) (leaf_lower w) (leaf_upper w)) r)"

lemma relaxation_ok_smaller:
  "relaxation_ok S P ub R r \<Longrightarrow> (\<And>x. feas P x \<Longrightarrow> R' x \<Longrightarrow> R x) \<Longrightarrow> relaxation_ok S P ub R' r"
  unfolding relaxation_ok_def by blast

lemma relaxation_ok_infeasible: "(\<And>x. feas P x \<Longrightarrow> \<not> R x) \<Longrightarrow> relaxation_ok S P ub R (r\<lparr>lp_status := LP_DUAL_UNBOUNDED\<rparr>)"
  by (auto simp: relaxation_ok_def)

lemma finish_node_ok:
  assumes s: "search_ok S P s" and i: "i < length (workers s)" and Some: "current (workers s ! i) = Some a"
    and t: "bnb_inv S P {} b'" "updated a d u st (memory s) (bmem b')" and new: "memory s d = None" "memory s u = None" "d \<noteq> u"
    and box: "\<And>x. feas P x \<Longrightarrow> on_path (memory s) x a \<Longrightarrow> in_bounds x (num_cols P) L U"
  shows "\<exists>s'. finish_node m r i a ((workers s ! i)\<lparr>leaf_lower := L, leaf_upper := U\<rparr>) s st b' = Some s' \<and> search_ok S P s'"
proof -
  let ?w = "workers s ! i"
  have w: "worker_ok P (memory s) ?w" using search_okD(2) [OF s] i by simp
  let ?v = "?w\<lparr>leaf_lower := L, leaf_upper := U, current := None, recompute_bounds := True\<rparr>"
  have w0: "worker_ok P (memory s) ?v" using w Some by (simp add: worker_ok_def)
  have h0: "held ?w = add_mset a (held ?v)" using Some by (simp add: held_def)
  note o = held_once [OF s i h0]
  show ?thesis
  proof (cases "st = HAS_CHILDREN")
    case False
    then have "finish_node m r i a (?w\<lparr>leaf_lower := L, leaf_upper := U\<rparr>) s st b' = Some (set_worker i ?v (s\<lparr>shared := b'\<rparr>))"
      by (simp add: finish_node_def Let_def)
    then show ?thesis using close_step [OF s i t False w0 h0] by simp
  next
    case True
    let ?z = "?v\<lparr>recompute_bounds := False\<rparr>"
    obtain n' where n': "bmem b' a = Some n'" "down_child n' = Some d" "up_child n' = Some u" using t(2) True by (auto simp: updated_def)
    have op: "{c. open_leaf (bmem b') c} = insert d (insert u ({c. open_leaf (memory s) c} - {a}))" using t(2) True by (auto simp: updated_def)
    have keep: "bmem b' c = memory s c \<and> (\<forall>x. on_path (bmem b') x c = on_path (memory s) x c) \<and> open_leaf (memory s) c \<and> c \<noteq> a" if "c \<in># held ?v + rest i s" for c
    proof -
      have "c \<in> {c. open_leaf (memory s) c} - {a}" using that o(3) search_okD(5) [OF s] by (metis finite_Diff elem_mset_set)
      then show ?thesis using t(2) unfolding updated_def by blast
    qed
    have "worker_ok P (bmem b') ?v"
      by (rule worker_ok_cong [OF w0]) (use keep open_leafD in fastforce)+
    then have q: "queue_ok (queue ?z)" "entries_ok (bmem b') (queue ?z)" "length (stack ?z) \<le> 1" using w Some by (simp_all add: worker_ok_def)
    have key: "keyed_node (bmem b') c" if "c \<in> set (stack ?z) \<or> c = d \<or> c = u" for c
    proof -
      have "c \<in># held ?v \<or> c = d \<or> c = u" using that by (auto simp: held_def)
      then have "c \<in> {c. open_leaf (bmem b') c}" unfolding op using keep [of c] by auto
      then show ?thesis using bnb_inv_D(4) [OF t(1)] by blast
    qed
    have bz: "in_bounds x (num_cols P) (leaf_lower ?z) (leaf_upper ?z)" if "feas P x" "on_path (bmem b') x d \<or> on_path (bmem b') x u" for x
      using that t(2) True box by (auto simp: updated_def)
    have z: "current ?z = None" "\<not> recompute_bounds ?z" by simp_all
    obtain w' where w': "route_children m (bmem b') (snd (choice r)) n' ?z = Some w'" "worker_ok P (bmem b') w'" "held w' = held ?z + {#d, u#}"
      using route_children_ok [OF q z n'(2,3) key bz] by blast
    have "finish_node m r i a (?w\<lparr>leaf_lower := L, leaf_upper := U\<rparr>) s st b' = Some (set_worker i w' (s\<lparr>shared := b'\<rparr>))"
      using True n'(1) w'(1) by (simp add: finish_node_def Let_def)
    moreover have "held w' + rest i s = mset_set {c. open_leaf (bmem b') c}"
    proof -
      have "d \<notin> {c. open_leaf (memory s) c}" "u \<notin> {c. open_leaf (memory s) c}" using new by (auto simp: open_leaf_def)
      moreover have "held ?z = held ?v" by (simp add: held_def)
      ultimately show ?thesis using w'(3) o(3) new(3) search_okD(5) [OF s] by (simp add: op)
    qed
    moreover have "\<exists>n n'. memory s c = Some n \<and> bmem b' c = Some n' \<and> lower_bound n' = lower_bound n" if "c \<in># rest i s" for c
      using keep [of c] that open_leafD by fastforce
    ultimately show ?thesis using worker_step [OF s i t(1) w'(2)] keep by auto
  qed
qed

lemma explore_ok:
  assumes s: "search_ok S P s" and ok: "problem_ok S P" and i: "i < length (workers s)" and r: "solver_answer_ok S P ub i s r"
    and new: "memory s d = None" "memory s u = None" "d \<noteq> u"
  shows "\<exists>s'. explore S P m r d u i s = Some s' \<and> search_ok S P s'"
proof (cases "current (workers s ! i)")
  case None
  then show ?thesis using s by (simp add: explore_def Let_def)
next
  case (Some a)
  let ?w = "workers s ! i"
  have w: "worker_ok P (memory s) ?w" using search_okD(2) [OF s] i by simp
  have a: "open_leaf (memory s) a" using held_open [OF s i] Some by (simp add: held_def)
  obtain n where n: "memory s a = Some n" using open_leafD [OF a] by blast
  obtain fb L U where b: "set_lp_variable_bounds S P (memory s) n ?w = Some (fb, ?w\<lparr>leaf_lower := L, leaf_upper := U\<rparr>)"
    "\<And>x. feas P x \<Longrightarrow> on_path (memory s) x a \<Longrightarrow> fb \<and> in_bounds x (num_cols P) L U" by (rule set_lp_bounds_ok [OF s ok w Some n]) blast
  have box: "in_bounds x (num_cols P) L U" if "feas P x" "on_path (memory s) x a" for x using b(2) that by blast
  have rel: "relaxation_ok S P ub (\<lambda>x. on_path (memory s) x a) (relaxation_status fb r)"
  proof (cases fb)
    case True
    then have "relaxation_ok S P ub (\<lambda>x. in_bounds x (num_cols P) L U) r" using r Some n b(1) by (fastforce simp: solver_answer_ok_def)
    then show ?thesis using True box by (auto simp: relaxation_status_def intro: relaxation_ok_smaller)
  next
    case False
    then show ?thesis using b(2) by (auto simp: relaxation_status_def intro!: relaxation_ok_infeasible)
  qed
  let ?r = "relaxation_status fb r"
  show ?thesis
  proof (cases "stops_plunge (lp_status ?r)")
    case True
    let ?z = "?w\<lparr>leaf_lower := L, leaf_upper := U, stack := a # stack ?w, current := None\<rparr>"
    have "worker_ok P (memory s) ?z" using w Some box by (auto simp: worker_ok_def next_node_def)
    moreover have "held ?z = held ?w" using Some by (simp add: held_def)
    ultimately show ?thesis using local_step [OF s i, of ?z] Some n b(1) True by (simp add: explore_def Let_def)
  next
    case False
    then have go: "lp_status ?r \<noteq> LP_TIME_LIMIT" by (auto simp: stops_plunge_def)
    obtain st b' where t: "update_tree S P L U ?r d u a (shared s) = Some (st, b')" "bnb_inv S P {} b'" "updated a d u st (memory s) (bmem b')"
      using update_tree_ok [OF ok search_okD(1) [OF s] a new box rel go] r by (auto simp: solver_answer_ok_def)
    have e: "explore S P m r d u i s = finish_node m ?r i a (?w\<lparr>leaf_lower := L, leaf_upper := U\<rparr>) s st b'"
      using Some n b(1) t(1) False by (simp add: explore_def Let_def)
    show ?thesis unfolding e using finish_node_ok [OF s i Some t(2,3) new box] .
  qed
qed

section \<open>The end of a plunge, stealing and dives\<close>

lemma drain_ok:
  assumes "queue_ok (queue w)" "entries_ok mem (queue w)" "\<And>c. c \<in> set as \<Longrightarrow> keyed_node mem c"
  shows "\<exists>q. drain mem as w = Some (w\<lparr>queue := q\<rparr>) \<and> queue_ok q \<and> entries_ok mem q \<and> queued q = queued (queue w) + mset as"
  using assms
proof (induction as arbitrary: w)
  case Nil
  then show ?case by (intro exI [of _ "queue w"]) simp
next
  case (Cons a as)
  obtain q where q: "push_atomic a mem w = Some (w\<lparr>queue := q\<rparr>)" "queue_ok q" "entries_ok mem q" "queued q = add_mset a (queued (queue w))"
    using push_atomic_ok [OF Cons.prems(1,2)] Cons.prems(3) by force
  then show ?case using Cons.IH [of "w\<lparr>queue := q\<rparr>"] Cons.prems(3) by force
qed

lemma end_plunge_ok:
  assumes s: "search_ok S P s" and i: "i < length (workers s)" and idle: "current (workers s ! i) = None"
  shows "\<exists>s'. end_plunge i s = Some s' \<and> search_ok S P s' \<and> stack (workers s' ! i) = [] \<and> current (workers s' ! i) = None"
proof -
  let ?w = "workers s ! i"
  have w: "worker_ok P (memory s) ?w" using search_okD(2) [OF s] i by simp
  have "keyed_node (memory s) c" if "c \<in> set (stack ?w)" for c
  proof -
    have "c \<in># held ?w" using that by (simp add: held_def)
    then show ?thesis using held_open [OF s i] open_number [OF s] by blast
  qed
  then obtain q where q: "drain (memory s) (stack ?w) (?w\<lparr>stack := []\<rparr>) = Some (?w\<lparr>stack := [], queue := q\<rparr>)" "queue_ok q" "entries_ok (memory s) q"
      "queued q = queued (queue ?w) + mset (stack ?w)"
    using drain_ok [of "?w\<lparr>stack := []\<rparr>" "memory s" "stack ?w"] w by (auto simp: worker_ok_def)
  let ?v = "?w\<lparr>stack := [], queue := q\<rparr>"
  have "worker_ok P (memory s) ?v" using q idle by (simp add: worker_ok_def next_node_def)
  moreover have "held ?v = held ?w" using q(4) by (simp add: held_def)
  ultimately have "search_ok S P (set_worker i ?v s)" using local_step [OF s i] by blast
  then show ?thesis using q(1) i idle by (simp add: end_plunge_def set_worker_def)
qed

lemma steal_loop_entries:
  assumes "queue_ok v" "queue_ok t" "entries_ok mem v" "entries_ok mem t" "\<And>a. a \<in># queued v \<Longrightarrow> keyed_node mem a" "0 < n"
    "steal_loop k n mem v t f = Some (st, v', t')"
  shows "entries_ok mem v' \<and> entries_ok mem t'"
  using assms
proof (induction k arbitrary: v t f)
  case (Suc k)
  have sz: "heap_size (best_first_heap v) = size (queued v)" using queue_size_queued [OF Suc.prems(1)] by (simp add: best_first_queue_size_def)
  show ?case
  proof (cases "size (queued v) < n")
    case True
    then show ?thesis using Suc.prems(3,4,7) sz by simp
  next
    case False
    then have "queued v \<noteq> {#}" using Suc.prems(6) by auto
    then obtain a v1 e where p: "pop_entry v = Some (Some a, v1)" "queue_ok v1" "queued v = add_mset a (queued v1)"
        "entries v1 = (entries v)[e := (entries v ! e)\<lparr>entry_node := None\<rparr>]" by (rule pop_entry_ok [OF Suc.prems(1)])
    obtain m where m: "mem a = Some m" "lower_bound m \<noteq> nan" "objective_estimate m \<noteq> nan" using Suc.prems(5) [of a] p(3) by (auto simp: keyed_node_def)
    obtain t1 where t1: "push_lockfree mem a t = Some t1" "queue_ok t1" "entries t1 = entries t @ [heap_entry_t a m]"
      by (rule push_lockfree_ok [where q = t and mem = mem and a = a and n = m, OF Suc.prems(2) m]) blast
    have "steal_loop k n mem v1 t1 True = Some (st, v', t')" using Suc.prems(7) False sz p(1) t1(1) by simp
    then show ?thesis
      using Suc.IH [OF p(2) t1(2) entries_ok_clear [OF Suc.prems(3) p(4)] entries_ok_append [OF Suc.prems(4) m(1) t1(3)] _ Suc.prems(6)] Suc.prems(5) p(3) by simp
  qed
qed auto

lemma steal_ok:
  assumes s: "search_ok S P s" and ij: "i < length (workers s)" "j < length (workers s)" "i \<noteq> j" and k: "0 < nat k"
  shows "\<exists>f s'. steal k i j s = Some (f, s') \<and> search_ok S P s' \<and> length (workers s') = length (workers s)"
proof -
  let ?v = "queue (workers s ! j)" and ?t = "queue (workers s ! i)"
  have w: "worker_ok P (memory s) (workers s ! i)" "worker_ok P (memory s) (workers s ! j)" using search_okD(2) [OF s] ij by simp_all
  then have q: "queue_ok ?v" "queue_ok ?t" "entries_ok (memory s) ?v" "entries_ok (memory s) ?t" by (simp_all add: worker_ok_def)
  have key: "keyed_node (memory s) a" if "a \<in># queued ?v" for a
  proof -
    have "a \<in># held (workers s ! j)" using that by (simp add: held_def)
    then show ?thesis using held_open [OF s ij(2)] open_number [OF s] by blast
  qed
  obtain f v t T where st: "steal_loop (nat k) (nat k) (memory s) ?v ?t False = Some (f, v, t)" "queue_ok v" "queue_ok t"
      "queued ?v = queued v + T" "queued t = queued ?t + T"
    using steal_loop_ok [OF q(1,2) key k] by blast
  have en: "entries_ok (memory s) v \<and> entries_ok (memory s) t" using steal_loop_entries [OF q key k st(1)] .
  let ?wi = "(workers s ! i)\<lparr>queue := t\<rparr>" and ?wj = "(workers s ! j)\<lparr>queue := v\<rparr>"
  let ?s = "set_worker j ?wj s"
  have e: "steal k i j s = Some (f, set_worker i ?wi ?s)" using st(1) by (simp add: steal_def steal_from_def)
  have i: "i < length (workers ?s)" "workers ?s ! i = workers s ! i" using ij by (simp_all add: set_worker_def)
  have hi: "held ?wi = held (workers s ! i) + T" and hj: "held (workers s ! j) = held ?wj + T" using st(4,5) by (simp_all add: held_def)
  have "all_held (set_worker i ?wi ?s) + held (workers s ! i) = held ?wi + all_held ?s"
    using all_held_set_worker [OF i(1), of ?wi] all_held_split [OF i(1)] i(2) by simp
  also have "\<dots> = held (workers s ! i) + all_held s"
    using all_held_set_worker [OF ij(2), of ?wj] all_held_split [OF ij(2)] hi hj by simp
  finally have "all_held (set_worker i ?wi ?s) = all_held s" by simp
  moreover have "worker_ok P (memory s) w" if "w \<in> set (workers (set_worker i ?wi ?s))" for w
  proof -
    have "w = ?wi \<or> w = ?wj \<or> w \<in> set (workers s)" using that set_update_subset_insert [of "(workers s)[j := ?wj]" i ?wi] set_update_subset_insert [of "workers s" j ?wj]
      by (auto simp: set_worker_def)
    then show ?thesis using worker_queue_ok [OF w(1) st(3)] worker_queue_ok [OF w(2) st(2)] en search_okD(2) [OF s] by auto
  qed
  ultimately have "search_ok S P (set_worker i ?wi ?s)" using s by (simp add: search_ok_def set_worker_def)
  then show ?thesis using e by (simp add: set_worker_def)
qed

lemma worker_steal_ok:
  assumes s: "search_ok S P s" and ij: "i < length (workers s)" "j < length (workers s)"
  shows "\<exists>f s'. worker_steal_from k active i j s = Some (f, s') \<and> search_ok S P s' \<and> length (workers s') = length (workers s)"
  using steal_ok [OF s ij, of k] s by (auto simp: worker_steal_from_def)

lemma work_stealing_ok:
  assumes "search_ok S P s" "i < length (workers s)" "\<forall>(j, _) \<in> set victims. j < length (workers s)"
  shows "\<exists>s'. work_stealing k i victims s = Some s' \<and> search_ok S P s'"
  using assms
proof (induction victims arbitrary: s)
  case (Cons v victims)
  obtain j active where v: "v = (j, active)" by (cases v)
  then obtain f s' where s': "worker_steal_from k active i j s = Some (f, s')" "search_ok S P s'" "length (workers s') = length (workers s)"
    using worker_steal_ok [OF Cons.prems(1,2), of j k active] Cons.prems(3) by auto
  then show ?case using Cons.IH [OF s'(2)] Cons.prems(2,3) v by simp
qed auto

lemma launch_dive_ok:
  assumes s: "search_ok S P s" and i: "i < length (workers s)"
  shows "\<exists>r s'. launch_dive P raw bc i s = Some (r, s') \<and> search_ok S P s'"
proof -
  let ?w = "workers s ! i"
  note d = search_okD [OF s]
  have w: "worker_ok P (memory s) ?w" using d(2) i by simp
  have op: "open_leaf (memory s) a" if "a \<in># queued (queue ?w)" for a using held_open [OF s i] that by (simp add: held_def)
  then have live: "memory s a \<noteq> None" if "a \<in># queued (queue ?w)" for a using open_leafD that by blast
  have q: "queue_ok (queue ?w)" "entries_ok (memory s) (queue ?w)" using w by (simp_all add: worker_ok_def)
  obtain r mem' h where p: "pop_diving (memory s) (queue ?w) = Some (r, mem', (queue ?w)\<lparr>diving_heap := h\<rparr>)" "queue_ok ((queue ?w)\<lparr>diving_heap := h\<rparr>)"
      "dive_result (entries (queue ?w)) (buffer (diving_heap (queue ?w))) (buffer h) (memory s) r mem'"
    by (rule pop_diving_ok [OF q(1) live])
  let ?v = "?w\<lparr>queue := (queue ?w)\<lparr>diving_heap := h\<rparr>\<rparr>"
  have e: "entries_ok (memory s) ((queue ?w)\<lparr>diving_heap := h\<rparr>)" using q(2) by (simp add: entries_ok_def)
  have v: "worker_ok P (memory s) ?v" using worker_queue_ok [OF w p(2) e] .
  have hv: "held ?v = held ?w" by (simp add: held_def queued_def)
  show ?thesis
  proof (cases r)
    case None
    then have "mem' = memory s" using p(3) by (simp add: dive_result_def)
    then show ?thesis using None p(1) local_step [OF s i v hv] by (simp add: launch_dive_def diving_init_def)
  next
    case (Some a)
    then obtain f where f: "f \<in> set (buffer (diving_heap (queue ?w)))" "entry_node (entries (queue ?w) ! f) = Some a"
        "mem' = (memory s)(a \<mapsto> (the (memory s a))\<lparr>can_dive := False\<rparr>)" using p(3) by (auto simp: dive_result_def)
    have "f < length (entries (queue ?w))" using heap_member(2) [OF q(1) f(1)] .
    then have a: "a \<in># queued (queue ?w)" using queued_member [OF q(1) _ f(2)] by blast
    obtain n where n: "memory s a = Some n" using live [OF a] by blast
    let ?n = "n\<lparr>can_dive := False\<rparr>" and ?b = "put_node a (n\<lparr>can_dive := False\<rparr>) (shared s)"
    have key: "bound_ok (lower_bound ?n) \<and> objective_estimate ?n \<noteq> nan" using bnb_inv_D(10) [OF d(1) op [OF a]] n by (auto simp: bounded_node_def)
    have lb: "lower_bound ?n \<le> fin (obj P x)" if "feas P x" "on_path (memory s) x a" for x
      using bnb_inv_D(5) [OF d(1) op [OF a] _ n that] by simp
    have b: "bnb_inv S P {} ?b" "\<And>c. open_leaf (bmem ?b) c = open_leaf (memory s) c" "\<And>c x. memory s c \<noteq> None \<Longrightarrow> on_path (bmem ?b) x c = on_path (memory s) x c"
      "bmem ?b = (memory s)(a \<mapsto> ?n)"
      using put_node_inv [OF d(1) n, of ?n "{}"] key lb by (auto simp: node_place_def)
    have same: "\<exists>m m'. memory s c = Some m \<and> bmem ?b c = Some m' \<and> lower_bound m' = lower_bound m" if "open_leaf (memory s) c" for c
      using open_leafD [OF that] n by (auto simp: b(4))
    have opn: "open_leaf (memory s) c" if "c \<in># held ?w \<or> c \<in># rest i s" for c
    proof -
      have "c \<in># all_held s" using all_held_split [OF i] that by auto
      then show ?thesis using d(3,5) by simp
    qed
    have pth: "on_path (bmem ?b) x c = on_path (memory s) x c" if "open_leaf (memory s) c" for c x using b(3) open_leafD [OF that] by blast
    have "worker_ok P (bmem ?b) ?v" by (rule worker_ok_cong [OF v]) (use same pth opn hv in auto)
    then have "search_ok S P (set_worker i ?v (s\<lparr>shared := ?b\<rparr>))"
      by (rule worker_step [OF s i b(1)]) (use same pth opn hv b(2) d(3) all_held_split [OF i] in auto)
    moreover have mem: "mem' = bmem ?b" using f(3) n b(4) by simp
    moreover obtain l u c where "get_variable_bounds mem' ?n (lp_lower P, lp_upper P, map (\<lambda>_. False) bc) = Some (l, u, c)"
    proof -
      have t: "tree_ok mem'" "mem' a = Some ?n" using bnb_inv_D(1) [OF b(1)] mem b(4) by auto
      then show thesis using that climb_total [OF t] get_variable_bounds_climb [OF t] by metis
    qed
    ultimately show ?thesis using Some p(1) b(4) by (simp add: launch_dive_def diving_init_def put_node_def)
  qed
qed

lemma improve_ok:
  assumes s: "search_ok S P s" and ok: "problem_ok S P"
  shows "search_ok S P (s\<lparr>shared := add_feasible_solution S P v y (shared s)\<rparr>)"
  using add_feasible_inv(1,2) [OF ok search_okD(1) [OF s], of v y] s by (simp add: search_ok_def all_held_def)

end
