(* ===== verification/Search_Run.thy ===== *)
theory Search_Run
  imports Best_First_Search
begin

text \<open>
  Runs of the best-first search: from the branched root, the steps of the workers, of the dives and of the
  threads that find incumbents interleave in any order. No open leaf is lost or held twice, every feasible
  point is accounted for, and the bound reported at the end is one.
\<close>

section \<open>The start\<close>

definition start_ok :: "mip_settings \<Rightarrow> mip_problem \<Rightarrow> nat \<Rightarrow> rat \<Rightarrow> nat \<Rightarrow> xval \<Rightarrow> (rat \<times> rat list) option \<Rightarrow> bool" where
  "start_ok S P num_bfs_workers root_objective v ub inc \<longleftrightarrow> problem_ok S P \<and> 0 < num_bfs_workers
     \<and> v < num_cols P \<and> var_types (presolver P) \<noteq> [] \<and> var_types (presolver P) ! v \<noteq> CONTINUOUS
     \<and> (\<forall>x. feas P x \<longrightarrow> root_objective \<le> obj P x) \<and> bound_ok ub \<and> (\<forall>i y. inc = Some (i, y) \<longrightarrow> ub \<le> fin i)"

lemma sum_list_empty: "sum_list (replicate k {#}) = {#}"
  by (induction k) auto

lemma start_search_ok:
  assumes st: "start_ok S P nw r v ub inc"
  shows "\<exists>s. start_search P nw r vs v f nf raw ub inc = Some s \<and> search_ok S P s"
proof -
  let ?n = "mip_node_root (fin r) vs raw" and ?t = "search_tree_t (mip_node_root (fin r) vs raw)"
  let ?b = "\<lparr>bnb_tree = ?t, upper_bound = ub, incumbent = inc, lower_bound_numerical = pinf\<rparr>"
  have f: "parent ?n = None" "node_id ?n = 0" "depth ?n = 0" "down_child ?n = None" "up_child ?n = None" "num_children ?n = 0" "\<not> inactive_status (status ?n)"
    "lower_bound ?n = fin r" "objective_estimate ?n = pinf" by (simp_all add: mip_node_root_def default_members_def inactive_status_def)
  have root: "tree_ok [0 \<mapsto> ?n]" "open_leaf [0 \<mapsto> ?n] a \<longleftrightarrow> a = 0" "on_path [0 \<mapsto> ?n] x 0" for a x
    using root_tree_ok [OF f(1-7)] f(1) by (auto intro: on_path.root)
  have mem: "bmem ?b = [0 \<mapsto> ?n]" by (simp add: search_tree_t_def)
  have inv: "bnb_inv S P {} ?b"
    unfolding bnb_inv_def mem root(2) using root(1,3) f(1,8,9) st
    by (auto simp: vars_ok_def bounded_node_def bound_ok_def start_ok_def search_tree_t_def less_eq_xval_def order_le_less split: if_splits)
  have a: "open_leaf (bmem ?b) 0" "bmem ?b 0 = Some ?n" using root(2) mem by auto
  obtain t n' where t: "branch 0 1 2 v (fin f) nf vs (lp_lower P) (lp_upper P) ?t = Some t"
      "nodes t 0 = Some n'" "down_child n' = Some 1" "up_child n' = Some 2" "bnb_inv S P {} (?b\<lparr>bnb_tree := t\<rparr>)"
      "\<forall>c. open_leaf (nodes t) c \<longleftrightarrow> (open_leaf (bmem ?b) c \<and> c \<noteq> 0) \<or> c = 1 \<or> c = 2"
    using branch_inv [OF inv a, of 1 2 v "lp_lower P" "lp_upper P" f nf vs] st mem by (auto simp: start_ok_def feas_def)
  have op: "{c. open_leaf (nodes t) c} = {1, 2}" using t(6) root(2) mem by auto
  have key: "keyed_node (nodes t) 1" "keyed_node (nodes t) 2" using bnb_inv_D(4) [OF t(5)] t(6) by simp_all
  let ?w = "bfs_worker_t P"
  have w: "queue_ok (queue ?w)" "entries_ok (nodes t) (queue ?w)" "queued (queue ?w) = {#}" by (simp_all add: bfs_worker_t_def entries_ok_def) (simp add: node_queue_t_def)
  obtain q where q: "push_atomic 1 (nodes t) ?w = Some (?w\<lparr>queue := q\<rparr>)" "queue_ok q" "entries_ok (nodes t) q" "queued q = {#1#}"
    using push_atomic_ok [OF w(1,2) key(1)] w(3) by auto
  then obtain q' where q': "push_atomic 2 (nodes t) (?w\<lparr>queue := q\<rparr>) = Some (?w\<lparr>queue := q'\<rparr>)" "queue_ok q'" "entries_ok (nodes t) q'" "queued q' = {#1, 2#}"
    using push_atomic_ok [of "?w\<lparr>queue := q\<rparr>" "nodes t" 2] key(2) by auto
  have p: "push_lockfree (nodes t) 1 (queue ?w) = Some q" "push_lockfree (nodes t) 2 q = Some q'"
    using q(1) q'(1) by (auto simp: push_atomic_def bfs_worker_t_def)
  let ?s = "\<lparr>shared = ?b\<lparr>bnb_tree := t\<rparr>, workers = (replicate nw ?w)[0 := ?w\<lparr>queue := q'\<rparr>]\<rparr>"
  have e: "start_search P nw r vs v f nf raw ub inc = Some ?s" using t(1-4) p by (simp add: start_search_def root_tree_def)
  obtain k where k: "nw = Suc k" using st by (cases nw) (auto simp: start_ok_def)
  have h: "held ?w = {#}" "held (?w\<lparr>queue := q'\<rparr>) = {#1, 2#}" using w(3) q'(4) by (simp_all add: held_def bfs_worker_t_def)
  have "all_held ?s = mset_set {c. open_leaf (nodes t) c}" unfolding op by (simp add: all_held_def k h sum_list_empty)
  moreover have "worker_ok P (nodes t) ?w" "worker_ok P (nodes t) (?w\<lparr>queue := q'\<rparr>)"
    using w q'(2,3) by (simp_all add: worker_ok_def bfs_worker_t_def)
  ultimately have "search_ok S P ?s" using t(5) k by (auto simp: search_ok_def)
  then show ?thesis using e by blast
qed

section \<open>Runs\<close>

definition between_plunges :: "bfs_worker \<Rightarrow> bool" where
  "between_plunges w \<longleftrightarrow> stack w = [] \<and> current w = None"

inductive search_run :: "mip_settings \<Rightarrow> mip_problem \<Rightarrow> nat \<Rightarrow> bnb_search \<Rightarrow> bnb_search \<Rightarrow> bool" for S P m s0 where
  init: "search_run S P m s0 s0"
| start: "search_run S P m s0 s \<Longrightarrow> i < length (workers s) \<Longrightarrow> between_plunges (workers s ! i) \<Longrightarrow> start_plunge i s = Some s' \<Longrightarrow> search_run S P m s0 s'"
| take: "search_run S P m s0 s \<Longrightarrow> i < length (workers s) \<Longrightarrow> current (workers s ! i) = None \<Longrightarrow> take_node i s = Some s' \<Longrightarrow> search_run S P m s0 s'"
| explore: "search_run S P m s0 s \<Longrightarrow> i < length (workers s) \<Longrightarrow> solver_answer_ok S P ub i s r \<Longrightarrow> memory s d = None \<Longrightarrow> memory s u = None \<Longrightarrow> d \<noteq> u
    \<Longrightarrow> explore S P m r d u i s = Some s' \<Longrightarrow> search_run S P m s0 s'"
| halt: "search_run S P m s0 s \<Longrightarrow> i < length (workers s) \<Longrightarrow> search_run S P m s0 (put_back i s)"
| finish: "search_run S P m s0 s \<Longrightarrow> i < length (workers s) \<Longrightarrow> current (workers s ! i) = None \<Longrightarrow> end_plunge i s = Some s' \<Longrightarrow> search_run S P m s0 s'"
| stealing: "search_run S P m s0 s \<Longrightarrow> i < length (workers s) \<Longrightarrow> \<forall>(j, _) \<in> set victims. j < length (workers s)
    \<Longrightarrow> work_stealing k i victims s = Some s' \<Longrightarrow> search_run S P m s0 s'"
| launch: "search_run S P m s0 s \<Longrightarrow> i < length (workers s) \<Longrightarrow> j < length (workers s) \<Longrightarrow> i \<noteq> j \<Longrightarrow> launch_bfs_worker i j s = Some (f, s') \<Longrightarrow> search_run S P m s0 s'"
| dive: "search_run S P m s0 s \<Longrightarrow> i < length (workers s) \<Longrightarrow> launch_dive P raw bc i s = Some (c, s') \<Longrightarrow> search_run S P m s0 s'"
| improve: "search_run S P m s0 s \<Longrightarrow> search_run S P m s0 (s\<lparr>shared := add_feasible_solution S P v y (shared s)\<rparr>)"

lemma search_run_ok:
  assumes "search_run S P m s0 s" and ok: "problem_ok S P" and "search_ok S P s0"
  shows "search_ok S P s"
  using assms(1)
proof induction
  case init
  then show ?case using assms(3) .
next
  case (start s i s')
  then show ?case using start_plunge_ok [OF _ ok, of s i] by (auto simp: between_plunges_def)
next
  case (take s i s')
  then show ?case using take_node_ok [OF _ ok, of s i] by auto
next
  case (explore s i ub r d u s')
  then show ?case using explore_ok [OF _ ok, of s i ub r d u m] by auto
next
  case (halt s i)
  then show ?case using put_back_ok by blast
next
  case (finish s i s')
  then show ?case using end_plunge_ok [of S P s i] by auto
next
  case (stealing s i victims k s')
  then show ?case using work_stealing_ok [of S P s i victims k] by auto
next
  case (launch s i j f s')
  then show ?case using steal_ok [of S P s i j 1] by (auto simp: launch_bfs_worker_def)
next
  case (dive s i raw bc c s')
  then show ?case using launch_dive_ok [of S P s i raw bc] by auto
next
  case (improve s v y)
  then show ?case using improve_ok [OF _ ok] by blast
qed

lemma started_run_ok:
  assumes "start_ok S P nw r v ub inc" "start_search P nw r vs v f nf raw ub inc = Some s0" "search_run S P m s0 s"
  shows "search_ok S P s" "problem_ok S P"
proof -
  show ok: "problem_ok S P" using assms(1) by (simp add: start_ok_def)
  obtain s' where "start_search P nw r vs v f nf raw ub inc = Some s'" "search_ok S P s'" using start_search_ok [OF assms(1)] by blast
  then show "search_ok S P s" using search_run_ok [OF assms(3) ok] assms(2) by simp
qed

section \<open>The final bound\<close>

text \<open>The bound of a queue, as the least one of the nodes in it.\<close>

lemma queue_bound:
  assumes q: "queue_ok q" "entries_ok mem q" and a: "a \<in># queued q"
  shows "\<exists>n. mem a = Some n \<and> get_lower_bound q \<le> lower_bound n"
proof -
  obtain b q' e where e: "queue_lower_bound q = entry_lower_bound (entries q ! e)"
      "\<forall>f \<in> set (buffer (best_first_heap q)). entry_lower_bound (entries q ! e) \<le> entry_lower_bound (entries q ! f)"
    using a by (rule_tac pop_entry_ok [OF q(1)]) auto
  obtain f where f: "f \<in> set (buffer (best_first_heap q))" "entry_node (entries q ! f) = Some a"
    using a queue_okD(5) [OF q(1)] heap_member(1) [OF q(1)] by (force simp: queued_def)
  have "f < length (entries q)" using heap_member(1) [OF q(1) f(1)] .
  then obtain n where "mem a = Some n" "entry_lower_bound (entries q ! f) = lower_bound n" using q(2) f(2) unfolding entries_ok_def by blast
  moreover have "\<not> heap_empty (best_first_heap q)" using a best_empty_iff [OF q(1)] by auto
  ultimately show ?thesis using e f(1) by (auto simp: get_lower_bound_def)
qed

lemma clear_queue_ok:
  assumes "search_ok S P s" and ok: "problem_ok S P" and "i < length (workers s)"
  shows "\<exists>s'. clear_queue i s = Some s' \<and> search_ok S P s' \<and> (\<exists>q. workers s' = (workers s)[i := (workers s ! i)\<lparr>queue := q\<rparr>])
    \<and> lower_bound_numerical (shared s') = lower_bound_numerical (shared s) \<and> upper_bound (shared s') = upper_bound (shared s)
    \<and> (queued (queue (workers s' ! i)) = {#} \<or> \<not> upper_bound (shared s') < get_lower_bound (queue (workers s' ! i)))"
  using assms(1,3)
proof (induction "size (queued (queue (workers s ! i)))" arbitrary: s)
  case 0
  let ?w = "workers s ! i"
  have "queue_ok (queue ?w)" using search_okD(2) [OF 0(2)] 0(3) by (simp add: worker_ok_def)
  then have "best_first_queue_size (queue ?w) = 0" using queue_size_queued 0(1) by simp
  then show ?case using 0 by (subst clear_queue.simps) (auto intro: exI [of _ "queue ?w"])
next
  case (Suc k)
  let ?w = "workers s ! i"
  have w: "worker_ok P (memory s) ?w" using search_okD(2) [OF Suc(3)] Suc(4) by simp
  then have q: "queue_ok (queue ?w)" "entries_ok (memory s) (queue ?w)" by (simp_all add: worker_ok_def)
  show ?case
  proof (cases "upper_bound (shared s) < get_lower_bound (queue ?w)")
    case False
    then show ?thesis using Suc(3,4) by (subst clear_queue.simps) (auto intro: exI [of _ "queue ?w"])
  next
    case True
    have ne: "queued (queue ?w) \<noteq> {#}" using Suc(2) by auto
    obtain a q' e where p: "pop_entry (queue ?w) = Some (Some a, q')" "queue_ok q'" "queued (queue ?w) = add_mset a (queued q')"
      "entries q' = (entries (queue ?w))[e := (entries (queue ?w) ! e)\<lparr>entry_node := None\<rparr>]"
      by (rule pop_entry_ok [OF q(1) ne])
    have pop: "queue_pop (queue ?w) = Some (Some a, q')" using ne best_empty_iff [OF q(1)] p(1) by (simp add: queue_pop_def)
    have h: "held ?w = add_mset a (held (?w\<lparr>queue := q'\<rparr>))" using p(3) by (simp add: held_def)
    have w1: "worker_ok P (memory s) (?w\<lparr>queue := q'\<rparr>)" using worker_queue_ok [OF w p(2) entries_ok_clear [OF q(2) p(4)]] .
    obtain n where n: "memory s a = Some n" "get_lower_bound (queue ?w) \<le> lower_bound n" using queue_bound [OF q, of a] p(3) by auto
    have ub: "upper_bound (shared s) < lower_bound n"
      using True n(2) by (cases "upper_bound (shared s)"; cases "get_lower_bound (queue ?w)"; cases "lower_bound n") (auto simp: less_eq_xval_def)
    obtain s1 where s1: "fathom i a (?w\<lparr>queue := q'\<rparr>) s = Some s1" "search_ok S P s1" using fathom_ok [OF Suc(3) ok Suc(4) w1 h n(1) ub] by blast
    then have e1: "workers s1 = (workers s)[i := ?w\<lparr>queue := q'\<rparr>]" "lower_bound_numerical (shared s1) = lower_bound_numerical (shared s)"
        "upper_bound (shared s1) = upper_bound (shared s)"
      by (auto simp: fathom_def set_worker_def put_status_def)
    have "k = size (queued (queue (workers s1 ! i)))" "i < length (workers s1)" using Suc(2,4) e1 p(3) by simp_all
    from Suc(1) [OF this(1) s1(2) this(2)] obtain s' q2 where s': "clear_queue i s1 = Some s'" "search_ok S P s'" "workers s' = (workers s)[i := ?w\<lparr>queue := q2\<rparr>]"
      "lower_bound_numerical (shared s') = lower_bound_numerical (shared s)" "upper_bound (shared s') = upper_bound (shared s)"
      "queued (queue (workers s' ! i)) = {#} \<or> \<not> upper_bound (shared s') < get_lower_bound (queue (workers s' ! i))"
      using e1 Suc(4) by auto
    have "0 < best_first_queue_size (queue ?w)" using queue_size_queued [OF q(1)] ne by (simp add: nonempty_has_size)
    then have "clear_queue i s = clear_queue i s1" using True pop s1(1) by (subst clear_queue.simps) simp
    then show ?thesis using s' by auto
  qed
qed

lemma queue_bound_ok:
  assumes s: "search_ok S P s" and i: "i < length (workers s)"
  shows "bound_ok (get_lower_bound (queue (workers s ! i)))"
proof -
  let ?q = "queue (workers s ! i)"
  have q: "queue_ok ?q" "entries_ok (memory s) ?q" using search_okD(2) [OF s] i by (simp_all add: worker_ok_def)
  show ?thesis
  proof (cases "queued ?q = {#}")
    case True
    then show ?thesis using best_empty_iff [OF q(1)] by (simp add: get_lower_bound_def bound_ok_def)
  next
    case False
    then obtain a e where e: "e \<in> set (buffer (best_first_heap ?q))" "entry_node (entries ?q ! e) = Some a" "queue_lower_bound ?q = entry_lower_bound (entries ?q ! e)"
      by (rule pop_entry_ok [OF q(1)])
    have l: "e < length (entries ?q)" using heap_member(1) [OF q(1) e(1)] .
    then have "a \<in># held (workers s ! i)" using queued_member [OF q(1) _ e(2)] by (simp add: held_def)
    then have "bounded_node (memory s) a" using held_open [OF s i] bnb_inv_D(10) [OF search_okD(1) [OF s]] by blast
    then show ?thesis using q(2) l e(2,3) False best_empty_iff [OF q(1)] by (fastforce simp: entries_ok_def bounded_node_def get_lower_bound_def)
  qed
qed

lemma std_min_bound: "bound_ok a \<Longrightarrow> bound_ok b \<Longrightarrow> bound_ok (std_min a b) \<and> std_min a b \<le> a \<and> std_min a b \<le> b"
  by (cases a; cases b) (auto simp: std_min_def bound_ok_def less_eq_xval_def)

lemma queues_lower_bound_ok:
  assumes "search_ok S P s" and ok: "problem_ok S P" and "distinct is" "\<forall>i \<in> set is. i < length (workers s)" "bound_ok lb"
  shows "\<exists>lb' s'. queues_lower_bound is lb s = Some (lb', s') \<and> search_ok S P s' \<and> length (workers s') = length (workers s) \<and> bound_ok lb' \<and> lb' \<le> lb
    \<and> (\<forall>j. j \<notin> set is \<longrightarrow> workers s' ! j = workers s ! j) \<and> (\<forall>j < length (workers s). between_plunges (workers s' ! j) = between_plunges (workers s ! j))
    \<and> lower_bound_numerical (shared s') = lower_bound_numerical (shared s) \<and> upper_bound (shared s') = upper_bound (shared s)
    \<and> (\<forall>j \<in> set is. lb' \<le> get_lower_bound (queue (workers s' ! j))
         \<and> (queued (queue (workers s' ! j)) = {#} \<or> \<not> upper_bound (shared s') < get_lower_bound (queue (workers s' ! j))))"
  using assms(1,3-)
proof (induction "is" arbitrary: s lb)
  case Nil
  then have "lb \<le> lb" by (simp add: bound_ok_def less_eq_xval_def)
  then show ?case using Nil by simp
next
  case (Cons i "is")
  have i: "i < length (workers s)" "i \<notin> set is" using Cons.prems(2,3) by simp_all
  obtain s1 q where c: "clear_queue i s = Some s1" "search_ok S P s1" "workers s1 = (workers s)[i := (workers s ! i)\<lparr>queue := q\<rparr>]"
      "lower_bound_numerical (shared s1) = lower_bound_numerical (shared s)" "upper_bound (shared s1) = upper_bound (shared s)"
      "queued (queue (workers s1 ! i)) = {#} \<or> \<not> upper_bound (shared s1) < get_lower_bound (queue (workers s1 ! i))"
    using clear_queue_ok [OF Cons.prems(1) ok i(1)] by blast
  let ?lb = "std_min lb (get_lower_bound (queue (workers s1 ! i)))"
  have len: "length (workers s1) = length (workers s)" using c(3) by simp
  have m: "bound_ok ?lb" "?lb \<le> lb" "?lb \<le> get_lower_bound (queue (workers s1 ! i))"
    using std_min_bound [OF Cons.prems(4) queue_bound_ok [OF c(2), of i]] i(1) len by simp_all
  from Cons.IH [OF c(2) _ _ m(1)] Cons.prems(2,3) len
  obtain lb' s' where r: "queues_lower_bound is ?lb s1 = Some (lb', s')" "search_ok S P s'" "length (workers s') = length (workers s)" "bound_ok lb'" "lb' \<le> ?lb"
      "\<forall>j. j \<notin> set is \<longrightarrow> workers s' ! j = workers s1 ! j" "\<forall>j < length (workers s). between_plunges (workers s' ! j) = between_plunges (workers s1 ! j)"
      "lower_bound_numerical (shared s') = lower_bound_numerical (shared s1)" "upper_bound (shared s') = upper_bound (shared s1)"
      "\<forall>j \<in> set is. lb' \<le> get_lower_bound (queue (workers s' ! j))
         \<and> (queued (queue (workers s' ! j)) = {#} \<or> \<not> upper_bound (shared s') < get_lower_bound (queue (workers s' ! j)))" by auto
  have w: "workers s' ! i = workers s1 ! i" using r(6) i(2) by blast
  have b: "between_plunges (workers s1 ! j) = between_plunges (workers s ! j)" for j
    using c(3) i(1) by (cases "j = i") (simp_all add: between_plunges_def)
  have o: "workers s' ! j = workers s ! j" if "j \<notin> set (i # is)" for j using r(6) c(3) that by simp
  have le: "lb' \<le> lb" "lb' \<le> get_lower_bound (queue (workers s' ! i))" using xle_trans [OF r(5)] m(2,3) w by simp_all
  show ?case
    by (rule exI [of _ lb'], rule exI [of _ s']) (use r c le b o w in auto)
qed

lemma in_sum_list: "a \<in># sum_list Ms \<longleftrightarrow> (\<exists>M \<in> set Ms. a \<in># M)"
  by (induction Ms) auto

lemma open_held:
  assumes s: "search_ok S P s" and a: "open_leaf (memory s) a"
  obtains i where "i < length (workers s)" "a \<in># held (workers s ! i)"
proof -
  have "a \<in># all_held s" using search_okD(3,5) [OF s] a by simp
  then obtain w where "w \<in> set (workers s)" "a \<in># held w" by (auto simp: all_held_def in_sum_list)
  then show thesis using that by (metis in_set_conv_nth)
qed

text \<open>The bound is valid for the points of the leaves that are still open, and the bounds of the incumbent and of the given up nodes cover the others.\<close>

lemma final_bound_ok:
  assumes s: "search_ok S P s" and ok: "problem_ok S P" and idle: "\<forall>w \<in> set (workers s). between_plunges w"
  shows "\<exists>lb s'. final_lower_bound s = Some (lb, s') \<and> upper_bound (shared s') = upper_bound (shared s)
    \<and> (\<forall>x. feas P x \<longrightarrow> lb \<le> fin (obj P x + slack S P) \<or> upper_bound (shared s') \<le> fin (obj P x + slack S P))
    \<and> ((\<exists>a n. open_leaf (memory s') a \<and> memory s' a = Some n \<and> lower_bound n \<noteq> pinf) \<longrightarrow> lb \<le> upper_bound (shared s'))"
proof -
  obtain lb s' where r: "queues_lower_bound [0..<length (workers s)] (lower_bound_numerical (shared s)) s = Some (lb, s')" "search_ok S P s'"
      "length (workers s') = length (workers s)" "bound_ok lb" "lb \<le> lower_bound_numerical (shared s)"
      "\<forall>j < length (workers s). between_plunges (workers s' ! j) = between_plunges (workers s ! j)"
      "lower_bound_numerical (shared s') = lower_bound_numerical (shared s)" "upper_bound (shared s') = upper_bound (shared s)"
      "\<forall>j < length (workers s). lb \<le> get_lower_bound (queue (workers s' ! j))
         \<and> (queued (queue (workers s' ! j)) = {#} \<or> \<not> upper_bound (shared s') < get_lower_bound (queue (workers s' ! j)))"
    using queues_lower_bound_ok [OF s ok, of "[0..<length (workers s)]" "lower_bound_numerical (shared s)"] bnb_inv_D(12) [OF search_okD(1) [OF s]] by auto
  note db = bnb_inv_D [OF search_okD(1) [OF r(2)]]
  obtain rt where rt: "memory s' 0 = Some rt" using db(1) by (rule tree_due_root)
  define L where "L = (if std_isfinite lb then lb else lower_bound rt)"
  have e: "final_lower_bound s = Some (L, s')" using r(1) rt by (simp add: final_lower_bound_def L_def)
  have fin: "L = lb" if "lb \<le> fin v" for v using that r(4) by (cases lb) (auto simp: L_def std_isfinite_def bound_ok_def less_eq_xval_def)
  have leaf: "\<exists>n. memory s' a = Some n \<and> lb \<le> lower_bound n \<and> lb \<le> upper_bound (shared s')" if a: "open_leaf (memory s') a" for a
  proof -
    obtain i where i: "i < length (workers s')" "a \<in># held (workers s' ! i)" by (rule open_held [OF r(2) a])
    then have "between_plunges (workers s' ! i)" using r(3,6) idle by simp
    then have q: "a \<in># queued (queue (workers s' ! i))" using i(2) by (simp add: held_def between_plunges_def)
    have w: "queue_ok (queue (workers s' ! i))" "entries_ok (memory s') (queue (workers s' ! i))" using search_okD(2) [OF r(2)] i(1) by (simp_all add: worker_ok_def)
    obtain n where n: "memory s' a = Some n" "get_lower_bound (queue (workers s' ! i)) \<le> lower_bound n" using queue_bound [OF w q] by blast
    have "\<not> upper_bound (shared s') < get_lower_bound (queue (workers s' ! i))" "lb \<le> get_lower_bound (queue (workers s' ! i))" using r(3,9) i(1) q by auto
    moreover have "get_lower_bound (queue (workers s' ! i)) \<noteq> nan" using queue_bound_ok [OF r(2) i(1)] by (simp add: bound_ok_def)
    ultimately show ?thesis using n xle_trans xnot_less db(7) by blast
  qed
  have main: "L \<le> fin (obj P x + slack S P) \<or> upper_bound (shared s') \<le> fin (obj P x + slack S P)" if x: "feas P x" for x
  proof (cases "accounted S P (shared s') x")
    case True
    then have "upper_bound (shared s') \<le> fin (obj P x + slack S P) \<or> lb \<le> fin (obj P x + slack S P)"
      using xle_trans [OF r(5)] r(7) by (auto simp: accounted_def)
    then show ?thesis using fin by metis
  next
    case False
    then obtain a where a: "open_leaf (memory s') a" "on_path (memory s') x a" using db(6) [OF x] by blast
    obtain n where n: "memory s' a = Some n" "lb \<le> lower_bound n" using leaf [OF a(1)] by blast
    then have "lb \<le> fin (obj P x)" using xle_trans db(5) [OF a(1) _ n(1) x a(2)] by blast
    then have "lb \<le> fin (obj P x + slack S P)" using xle_fin slack_nonneg [OF ok] by simp
    then show ?thesis using fin by metis
  qed
  have below: "L \<le> upper_bound (shared s')" if a: "open_leaf (memory s') a" "memory s' a = Some n" "lower_bound n \<noteq> pinf" for a n
  proof -
    have l: "lb \<le> lower_bound n" "lb \<le> upper_bound (shared s')" using leaf [OF a(1)] a(2) by auto
    then have "lb \<noteq> pinf" using a(3) by (cases "lower_bound n") (auto simp: less_eq_xval_def)
    then show ?thesis using l(2) r(4) by (simp add: L_def std_isfinite_def bound_ok_def)
  qed
  show ?thesis using e r(8) main below by blast
qed

section \<open>Properties\<close>

text \<open>
  C6. The search can always start and never gets stuck or loses a node: in every reachable state each open
  leaf of the tree is held by exactly one worker, exactly once (in its queue, on its stack or as its current
  node), and nothing else is held; a plunge holds at most two nodes of its stack; and every operation a worker
  may perform is defined.
\<close>

theorem search_holds_every_leaf:
  assumes "start_ok S P nw r v ub inc"
  shows "\<exists>s0. start_search P nw r vs v f nf raw ub inc = Some s0 \<and> (\<forall>s. search_run S P m s0 s \<longrightarrow>
      all_held s = mset_set {a. open_leaf (memory s) a} \<and> (\<forall>w \<in> set (workers s). length (stack w) \<le> 2)
    \<and> (\<forall>i < length (workers s).
        (between_plunges (workers s ! i) \<longrightarrow> start_plunge i s \<noteq> None)
      \<and> (current (workers s ! i) = None \<longrightarrow> take_node i s \<noteq> None \<and> end_plunge i s \<noteq> None)
      \<and> (\<forall>ub r d u. solver_answer_ok S P ub i s r \<and> memory s d = None \<and> memory s u = None \<and> d \<noteq> u \<longrightarrow> explore S P m r d u i s \<noteq> None)
      \<and> (\<forall>k victims. (\<forall>(j, _) \<in> set victims. j < length (workers s)) \<longrightarrow> work_stealing k i victims s \<noteq> None)
      \<and> (\<forall>raw bc. launch_dive P raw bc i s \<noteq> None)))"
proof -
  have ok: "problem_ok S P" using assms by (simp add: start_ok_def)
  obtain s0 where s0: "start_search P nw r vs v f nf raw ub inc = Some s0" "search_ok S P s0" using start_search_ok [OF assms] by blast
  show ?thesis
  proof (intro exI [of _ s0] conjI allI impI ballI)
    fix s assume "search_run S P m s0 s"
    then have s: "search_ok S P s" using search_run_ok ok s0(2) by blast
    show "all_held s = mset_set {a. open_leaf (memory s) a}" using search_okD(3) [OF s] .
    show "length (stack w) \<le> 2" if "w \<in> set (workers s)" for w using search_okD(2) [OF s that] by (simp add: worker_ok_def)
    fix i assume i: "i < length (workers s)"
    show "start_plunge i s \<noteq> None" if "between_plunges (workers s ! i)" using start_plunge_ok [OF s ok i] that by (auto simp: between_plunges_def)
    show "take_node i s \<noteq> None" "end_plunge i s \<noteq> None" if "current (workers s ! i) = None" using take_node_ok [OF s ok i that] end_plunge_ok [OF s i that] by auto
    show "explore S P m r d u i s \<noteq> None" if "solver_answer_ok S P ub i s r \<and> memory s d = None \<and> memory s u = None \<and> d \<noteq> u" for ub r d u
      using explore_ok [OF s ok i, of ub r d u m] that by auto
    show "work_stealing k i victims s \<noteq> None" if "\<forall>(j, _) \<in> set victims. j < length (workers s)" for k victims using work_stealing_ok [OF s i that, of k] by auto
    show "launch_dive P raw bc i s \<noteq> None" for raw bc using launch_dive_ok [OF s i, of raw bc] by auto
  qed (rule s0(1))
qed


text \<open>
  C12. The bound reported when the search stops is valid. When every worker has ended its plunge, dropping the
  queued nodes above the incumbent ends, and the least bound of the queues and of the nodes given up
  for numerical reasons, or the bound of the root when that is infinite, is at most the objective of
  every feasible point up to the tolerance, unless the upper bound already is. While a leaf with a finite
  bound is open, it does not exceed the upper bound.
\<close>

theorem final_lower_bound_valid:
  assumes "start_ok S P nw r v ub inc" "start_search P nw r vs v f nf raw ub inc = Some s0" "search_run S P m s0 s" "\<forall>w \<in> set (workers s). between_plunges w"
  shows "\<exists>lb s'. final_lower_bound s = Some (lb, s') \<and> upper_bound (shared s') = upper_bound (shared s)
    \<and> (\<forall>x. feas P x \<longrightarrow> lb \<le> fin (obj P x + slack S P) \<or> upper_bound (shared s') \<le> fin (obj P x + slack S P))
    \<and> ((\<exists>a n. open_leaf (memory s') a \<and> memory s' a = Some n \<and> lower_bound n \<noteq> pinf) \<longrightarrow> lb \<le> upper_bound (shared s'))"
  by (rule final_bound_ok [OF started_run_ok [OF assms(1-3)] assms(4)])

section \<open>A small run\<close>

text \<open>
  Minimise \<open>x + y\<close> for non-negative integers with \<open>2 x + 3 y \<le> 7\<close>, branching on \<open>x\<close> at one half: the first child gives
  the incumbent, the second one nothing better.
\<close>

definition small_problem :: mip_problem where
  "small_problem = \<lparr>presolver = small_data, objective = [1, 1], objective_lattice = \<lparr>step_size = 0, bias = 0\<rparr>, objective_is_integral = False,
     lp_lower = [fin 0, fin 0], lp_upper = [fin 10, pinf]\<rparr>"

definition small_settings :: mip_settings where
  "small_settings = tolerances.extend small_tolerances (mip_settings.fields (1 / 1000000) (1 / 10000000000))"

definition small_start :: "bnb_search option" where
  "small_start = start_search small_problem 2 0 [] 0 (1 / 2) 1 sample_node pinf None"

definition small_answer :: "rat \<Rightarrow> relaxation" where
  "small_answer v = \<lparr>lp_status = LP_OPTIMAL, lp_x = [v, 0], lp_vstatus = [], choice = (0, DOWN), estimate = pinf\<rparr>"

definition small_half :: "bnb_search option" where
  "small_half = Option.bind small_start (\<lambda>s. Option.bind (start_plunge 0 s) (take_node 0))"

definition small_full :: "bnb_search option" where
  "small_full = Option.bind small_half (\<lambda>s. Option.bind (explore small_settings small_problem 20 (small_answer 0) 3 4 0 s) (\<lambda>s. Option.bind (start_plunge 0 s) (take_node 0)))"

definition small_end :: "bnb_search option" where
  "small_end = Option.bind small_full (explore small_settings small_problem 20 (small_answer 1) 3 4 0)"

text \<open>What is observed of a state: the node worked on, the bounds of its relaxation and the upper bound.\<close>

definition small_view :: "bnb_search \<Rightarrow> nat option \<times> (bool \<times> xval list \<times> xval list) option \<times> xval \<times> nat \<times> bool" where
  "small_view s = (let w = workers s ! 0; c = current w
     in (c, Option.bind c (\<lambda>a. Option.bind (memory s a) (\<lambda>n. map_option (\<lambda>(f, w). (f, leaf_lower w, leaf_upper w)) (set_lp_variable_bounds small_settings small_problem (memory s) n w))),
         upper_bound (shared s), length (workers s), memory s 3 = None \<and> memory s 4 = None))"

lemma small_views:
  "map_option small_view small_start = Some (None, None, pinf, 2, True)"
  "map_option small_view small_half = Some (Some 1, Some (True, [fin 0, fin 0], [fin 0, fin 2]), pinf, 2, True)"
  "map_option small_view small_full = Some (Some 2, Some (True, [fin 1, fin 0], [fin 3, fin 1]), fin 0, 2, True)"
  by code_simp+

lemma small_ends:
  "map_option (\<lambda>s. (upper_bound (shared s), map (\<lambda>w. (buffer (best_first_heap (queue w)), stack w, current w)) (workers s))) small_end
     = Some (fin 0, [([], [], None), ([], [], None)])"
  by code_simp

lemma small_plunges:
  "map_option (\<lambda>s. (stack (workers s ! 0), current (workers s ! 0), length (workers s))) small_start = Some ([], None, 2)"
  "map_option (\<lambda>s. (stack (workers s ! 0), current (workers s ! 0), length (workers s))) (Option.bind small_start (start_plunge 0)) = Some ([1], None, 2)"
  "map_option (\<lambda>s. (stack (workers s ! 0), current (workers s ! 0), length (workers s)))
     (Option.bind small_half (explore small_settings small_problem 20 (small_answer 0) 3 4 0)) = Some ([], None, 2)"
  "map_option (\<lambda>s. (stack (workers s ! 0), current (workers s ! 0), length (workers s)))
     (Option.bind (Option.bind small_half (explore small_settings small_problem 20 (small_answer 0) 3 4 0)) (start_plunge 0)) = Some ([2], None, 2)"
  by code_simp+

lemma small_feas: "feas small_problem x \<Longrightarrow> 0 \<le> x 0 \<and> 0 \<le> x 1" "num_cols small_problem = 2" "obj small_problem x = x 0 + x 1"
  by (auto simp: feas_def small_problem_def in_bounds_def small_data_def bounds_strengthening_t_def obj_def lessThan_Suc less_Suc_eq numeral_2_eq_2)

lemma small_problem_ok: "problem_ok small_settings small_problem"
  by (auto simp: problem_ok_def small_problem_def small_settings_def small_data_def small_tolerances_def bounds_strengthening_t_def matrices_ok_def lp_row_def lattice_step_def
      has_step_def tolerances.defs mip_settings.defs col_positions_def row_positions_def nth_Cons' upt_conv_Cons less_Suc_eq numeral_2_eq_2)

lemma small_start_ok: "start_ok small_settings small_problem 2 0 0 pinf None"
  using small_problem_ok small_feas
  by (auto simp: start_ok_def bound_ok_def) (auto simp: small_problem_def small_data_def bounds_strengthening_t_def)

lemma small_answer_ok:
  assumes v: "small_view s = (Some c, Some (True, L, U), ub, 2, True)" "ub \<noteq> nan" and b: "a = 0 \<or> a = 1" and low: "\<And>x. in_bounds x 2 L U \<Longrightarrow> 0 \<le> x 1 \<Longrightarrow> a \<le> x 0 + x 1"
  shows "solver_answer_ok small_settings small_problem pinf 0 s (small_answer a)"
proof -
  have cols: "length (var_types (presolver small_problem)) = 2" "var_types (presolver small_problem) = [INTEGER, INTEGER]"
    by (simp_all add: small_problem_def small_data_def bounds_strengthening_t_def)
  have f: "fractional_variables (integer_tol small_settings) [a, 0] [INTEGER, INTEGER] = []" using b by (elim disjE; simp only:; code_simp)
  have o: "compute_objective (objective small_problem) [a, 0] = a" by (simp add: compute_objective_def small_problem_def)
  have "relaxation_ok small_settings small_problem pinf (\<lambda>x. in_bounds x 2 L U) (small_answer a)"
    using low small_feas by (auto simp: relaxation_ok_def small_answer_def o f cols(2))
  moreover have "upper_bound (shared s) \<le> pinf" using v by (cases ub) (auto simp: small_view_def Let_def less_eq_xval_def)
  ultimately show ?thesis using v(1) small_feas(2) by (auto simp: solver_answer_ok_def small_view_def Let_def)
qed

lemma in_bounds_first: "in_bounds x 2 (fin l # L) U \<Longrightarrow> l \<le> x 0"
  by (auto simp: in_bounds_def dest: spec [of _ 0])

lemma small_search_run:
  obtains s0 s where "small_start = Some s0" "small_end = Some s" "search_run small_settings small_problem 20 s0 s"
    "all_held s = {#}" "\<forall>w \<in> set (workers s). between_plunges w" "upper_bound (shared s) = fin 0"
proof -
  let ?run = "search_run small_settings small_problem 20" and ?ex = "\<lambda>a. explore small_settings small_problem 20 (small_answer a) 3 4 0"
  obtain s0 where s0: "small_start = Some s0" using small_views(1) by (cases small_start) auto
  obtain s1 where s1: "start_plunge 0 s0 = Some s1" using small_plunges(2) by (cases "start_plunge 0 s0") (simp_all add: s0)
  obtain s2 where s2: "small_half = Some s2" using small_views(2) by (cases small_half) auto
  then have t2: "take_node 0 s1 = Some s2" by (simp add: small_half_def s0 s1)
  obtain s3 where s3: "?ex 0 s2 = Some s3" using small_plunges(3) by (cases "?ex 0 s2") (simp_all add: s2)
  obtain s4 where s4: "start_plunge 0 s3 = Some s4" using small_plunges(4) by (cases "start_plunge 0 s3") (simp_all add: s2 s3)
  obtain s5 where s5: "small_full = Some s5" using small_views(3) by (cases small_full) auto
  then have t5: "take_node 0 s4 = Some s5" by (simp add: small_full_def s2 s3 s4)
  obtain s6 where s6: "small_end = Some s6" using small_ends by (cases small_end) auto
  then have e6: "?ex 1 s5 = Some s6" by (simp add: small_end_def s5)
  note v = small_views [unfolded s0 s2 s5 option.map(2) option.inject] and p = small_plunges [unfolded s0 s1 s2 s3 s4 bind.bind_lunit option.map(2) option.inject prod.inject]
  have n: "length (workers s2) = 2" "length (workers s5) = 2" "memory s2 3 = None" "memory s2 4 = None" "memory s5 3 = None" "memory s5 4 = None"
    using v(2,3) by (simp_all add: small_view_def Let_def)
  have a2: "solver_answer_ok small_settings small_problem pinf 0 s2 (small_answer 0)" by (rule small_answer_ok [OF v(2)]) (auto dest: in_bounds_first)
  have a5: "solver_answer_ok small_settings small_problem pinf 0 s5 (small_answer 1)" by (rule small_answer_ok [OF v(3)]) (auto dest: in_bounds_first)
  have "?run s0 s1" using search_run.start [OF search_run.init _ _ s1] p(1) by (simp add: between_plunges_def)
  then have "?run s0 s2" using search_run.take [OF _ _ _ t2] p(2) by simp
  then have "?run s0 s3" using search_run.explore [OF _ _ a2 n(3,4) _ s3] n(1) by simp
  then have "?run s0 s4" using search_run.start [OF _ _ _ s4] p(3) by (simp add: between_plunges_def)
  then have "?run s0 s5" using search_run.take [OF _ _ _ t5] p(4) by simp
  then have "?run s0 s6" using search_run.explore [OF _ _ a5 n(5,6) _ e6] n(2) by simp
  moreover have e: "upper_bound (shared s6) = fin 0" "map (\<lambda>w. (buffer (best_first_heap (queue w)), stack w, current w)) (workers s6) = [([], [], None), ([], [], None)]"
    using small_ends by (simp_all add: s6)
  moreover obtain w w' where "workers s6 = [w, w']" "buffer (best_first_heap (queue w)) = []" "buffer (best_first_heap (queue w')) = []"
      "stack w = []" "stack w' = []" "current w = None" "current w' = None" using e(2) by (auto simp: map_eq_Cons_conv)
  ultimately show thesis using that s0 s6 by (simp add: all_held_def held_def queued_def between_plunges_def)
qed

text \<open>The three properties on this run.\<close>

theorem search_holds_every_leaf_witness:
  "\<exists>s0 s. small_start = Some s0 \<and> search_run small_settings small_problem 20 s0 s \<and> all_held s = {#} \<and> {a. open_leaf (memory s) a} = {}"
proof -
  obtain s0 s where s: "small_start = Some s0" "search_run small_settings small_problem 20 s0 s" "all_held s = {#}" by (rule small_search_run)
  then have m: "mset_set {a. open_leaf (memory s) a} = {#}"
    using search_holds_every_leaf [OF small_start_ok, where vs = "[]" and f = "1 / 2" and nf = 1 and raw = sample_node and m = 20] by (auto simp: small_start_def)
  moreover have "search_ok small_settings small_problem s" using started_run_ok [OF small_start_ok _ s(2)] s(1) by (simp add: small_start_def)
  ultimately have "{a. open_leaf (memory s) a} = {}" using search_okD(5) mset_set_empty_iff by metis
  then show ?thesis using s by blast
qed


theorem final_lower_bound_valid_witness:
  "\<exists>s0 s lb s'. small_start = Some s0 \<and> search_run small_settings small_problem 20 s0 s \<and> final_lower_bound s = Some (lb, s') \<and> upper_bound (shared s') = fin 0"
proof -
  obtain s0 s where s: "small_start = Some s0" "search_run small_settings small_problem 20 s0 s" "\<forall>w \<in> set (workers s). between_plunges w" "upper_bound (shared s) = fin 0"
    by (rule small_search_run)
  from final_lower_bound_valid [OF small_start_ok _ s(2,3)] s(1) obtain lb s' where "final_lower_bound s = Some (lb, s')" "upper_bound (shared s') = upper_bound (shared s)"
    unfolding small_start_def by metis
  then show ?thesis using s by metis
qed

end
