(* ===== verification/Grpc_Slots.thy ===== *)
theory Grpc_Slots
  imports Prelude "HOL-Library.Word"
begin

text \<open>
  The shared-memory job slots of the gRPC server, \<open>grpc_job_queue.hpp\<close>: the slot, its reset, and
  the claim of the oldest dispatchable job, first as the code runs alone, then as a machine in
  which claiming workers and submitting threads (\<open>submit_job_async\<close>, \<open>publish_ready_job_slot\<close>)
  interleave between any two atomic accesses.
\<close>

section \<open>Slots\<close>

record job_slot =
  job_id :: string
  problem_category :: "32 word"
  data_size :: "64 word"
  ready :: bool
  claimed :: bool
  worker_pid :: int
  cancelled :: bool
  worker_index :: int
  data_sent :: bool
  is_chunked :: bool
  unified_header :: bool
  enqueue_seq :: "64 word"

definition reset_job_slot :: "job_slot \<Rightarrow> job_slot" where
  "reset_job_slot job =
     job\<lparr>ready := False, enqueue_seq := 0, worker_pid := 0, worker_index := - 1, data_sent := False,
         is_chunked := False, unified_header := False, claimed := False, cancelled := False\<rparr>"

definition dispatchable :: "job_slot \<Rightarrow> bool" where
  "dispatchable job \<longleftrightarrow> ready job \<and> \<not> claimed job \<and> enqueue_seq job \<noteq> 0"

text \<open>The scan for the lowest ticket.\<close>

definition scan_slot :: "job_slot list \<Rightarrow> nat \<Rightarrow> nat option \<times> 64 word \<Rightarrow> nat option \<times> 64 word" where
  "scan_slot queue i = (\<lambda>(best_slot, best_seq).
     if \<not> ready (queue ! i) then (best_slot, best_seq)
     else if claimed (queue ! i) then (best_slot, best_seq)
     else let seq = enqueue_seq (queue ! i)
          in if seq = 0 then (best_slot, best_seq)
             else if best_slot = None \<or> seq < best_seq then (Some i, seq) else (best_slot, best_seq))"

definition scan_slots :: "job_slot list \<Rightarrow> nat \<Rightarrow> nat option \<times> 64 word" where
  "scan_slots queue n_jobs = fold (scan_slot queue) [0..<n_jobs] (None, - 1)"

text \<open>One pass of the loop: \<open>Inl\<close> when it goes around again, \<open>Inr\<close> with what it returns.\<close>

definition claim_pass :: "job_slot list \<Rightarrow> nat \<Rightarrow> int \<Rightarrow> int \<Rightarrow> job_slot list + (int \<times> job_slot list)" where
  "claim_pass queue n_jobs worker pid =
     (case scan_slots queue n_jobs of
        (None, _) \<Rightarrow> Inr (- 1, queue)
      | (Some best_slot, best_seq) \<Rightarrow>
          if claimed (queue ! best_slot) then Inl queue
          else let queue = queue[best_slot := (queue ! best_slot)\<lparr>claimed := True\<rparr>]
               in if \<not> ready (queue ! best_slot) \<or> enqueue_seq (queue ! best_slot) \<noteq> best_seq
                  then Inl (queue[best_slot := (queue ! best_slot)\<lparr>claimed := False\<rparr>])
                  else Inr (int best_slot, queue[best_slot := (queue ! best_slot)\<lparr>worker_pid := pid, worker_index := worker\<rparr>]))"

partial_function (option) claim_ready_job_slot ::
    "job_slot list \<Rightarrow> nat \<Rightarrow> int \<Rightarrow> int \<Rightarrow> (int \<times> job_slot list) option" where
  "claim_ready_job_slot queue n_jobs worker pid =
     (case claim_pass queue n_jobs worker pid of
        Inr r \<Rightarrow> Some r
      | Inl queue \<Rightarrow> claim_ready_job_slot queue n_jobs worker pid)"

declare claim_ready_job_slot.simps [code]

section \<open>The interleaved machine\<close>

text \<open>Where a thread stands: every constructor is the point before one atomic access.\<close>

datatype pc =
    Idle
  | ScanReady nat "nat option" "64 word"
  | ScanClaimed nat "nat option" "64 word"
  | ScanSeq nat "nat option" "64 word"
  | ClaimCas nat "64 word"
  | CheckReady nat "64 word"
  | CheckSeq nat "64 word"
  | Release nat
  | StorePid nat "64 word"
  | StoreIndex nat "64 word"
  | Owner nat "64 word"
  | ResetSeq nat
  | ResetRest nat
  | SubmitLoad string nat
  | SubmitCas string nat
  | Populate string nat
  | Lock nat
  | Ticket nat
  | StoreSeq nat "64 word"
  | StoreReady nat "64 word"
  | Unclaim nat "64 word"

datatype action = Claim | Submit string | Step

record machine =
  slots :: "job_slot list"
  next_job_enqueue_seq :: "64 word"
  job_enqueue_mutex :: "nat option"
  pc :: "nat \<Rightarrow> pc"
  delivered :: "64 word list"

definition goto :: "nat \<Rightarrow> pc \<Rightarrow> machine \<Rightarrow> machine" where
  "goto t p s = s\<lparr>pc := (pc s)(t := p)\<rparr>"

definition store_slot :: "nat \<Rightarrow> (job_slot \<Rightarrow> job_slot) \<Rightarrow> machine \<Rightarrow> machine" where
  "store_slot i f s = s\<lparr>slots := (slots s)[i := f (slots s ! i)]\<rparr>"

text \<open>
  The moves of a thread: \<open>claim_ready_job_slot\<close> from \<open>ScanReady\<close> to \<open>Owner\<close>, \<open>reset_job_slot\<close> from
  \<open>Owner\<close> on, the reservation and publication of a submission from \<open>SubmitLoad\<close> to \<open>Unclaim\<close>.
  \<open>delivered\<close> records the tickets whose claim was confirmed.
\<close>

definition claim_move :: "nat \<Rightarrow> nat \<Rightarrow> machine \<Rightarrow> machine option" where
  "claim_move n t s = (case pc s t of
     ScanReady i b q \<Rightarrow>
       (if i = n then Some (goto t (case b of None \<Rightarrow> Idle | Some k \<Rightarrow> ClaimCas k q) s)
        else Some (goto t (if ready (slots s ! i) then ScanClaimed i b q else ScanReady (i + 1) b q) s))
   | ScanClaimed i b q \<Rightarrow> Some (goto t (if claimed (slots s ! i) then ScanReady (i + 1) b q else ScanSeq i b q) s)
   | ScanSeq i b q \<Rightarrow>
       (let seq = enqueue_seq (slots s ! i)
        in Some (goto t (if seq \<noteq> 0 \<and> (b = None \<or> seq < q) then ScanReady (i + 1) (Some i) seq else ScanReady (i + 1) b q) s))
   | ClaimCas k q \<Rightarrow>
       (if claimed (slots s ! k) then Some (goto t (ScanReady 0 None (- 1)) s)
        else Some (goto t (CheckReady k q) (store_slot k (claimed_update (\<lambda>_. True)) s)))
   | CheckReady k q \<Rightarrow> Some (goto t (if ready (slots s ! k) then CheckSeq k q else Release k) s)
   | CheckSeq k q \<Rightarrow>
       (if enqueue_seq (slots s ! k) \<noteq> q then Some (goto t (Release k) s)
        else Some (goto t (StorePid k q) (s\<lparr>delivered := q # delivered s\<rparr>)))
   | Release k \<Rightarrow> Some (goto t (ScanReady 0 None (- 1)) (store_slot k (claimed_update (\<lambda>_. False)) s))
   | StorePid k q \<Rightarrow> Some (goto t (StoreIndex k q) (store_slot k (worker_pid_update (\<lambda>_. int t)) s))
   | StoreIndex k q \<Rightarrow> Some (goto t (Owner k q) (store_slot k (worker_index_update (\<lambda>_. int t)) s))
   | Owner k q \<Rightarrow> Some (goto t (ResetSeq k) (store_slot k (ready_update (\<lambda>_. False)) s))
   | ResetSeq k \<Rightarrow> Some (goto t (ResetRest k) (store_slot k (enqueue_seq_update (\<lambda>_. 0)) s))
   | ResetRest k \<Rightarrow> Some (goto t Idle (store_slot k reset_job_slot s))
   | _ \<Rightarrow> None)"

definition submit_move :: "nat \<Rightarrow> nat \<Rightarrow> machine \<Rightarrow> machine option" where
  "submit_move n t s = (case pc s t of
     SubmitLoad name i \<Rightarrow>
       (if i = n then Some (goto t Idle s)
        else Some (goto t (if ready (slots s ! i) then SubmitLoad name (i + 1) else SubmitCas name i) s))
   | SubmitCas name i \<Rightarrow>
       (if claimed (slots s ! i) then Some (goto t (SubmitLoad name (i + 1)) s)
        else Some (goto t (Populate name i) (store_slot i (claimed_update (\<lambda>_. True)) s)))
   | Populate name i \<Rightarrow>
       Some (goto t (Lock i) (store_slot i (\<lambda>job. job\<lparr>job_id := name, cancelled := False, worker_index := - 1, data_sent := False, worker_pid := 0\<rparr>) s))
   | Lock i \<Rightarrow> (if job_enqueue_mutex s = None then Some (goto t (Ticket i) (s\<lparr>job_enqueue_mutex := Some t\<rparr>)) else None)
   | Ticket i \<Rightarrow> Some (goto t (StoreSeq i (next_job_enqueue_seq s)) (s\<lparr>next_job_enqueue_seq := next_job_enqueue_seq s + 1\<rparr>))
   | StoreSeq i q \<Rightarrow> Some (goto t (StoreReady i q) (store_slot i (enqueue_seq_update (\<lambda>_. q)) s))
   | StoreReady i q \<Rightarrow> Some (goto t (Unclaim i q) (store_slot i (ready_update (\<lambda>_. True)) s))
   | Unclaim i q \<Rightarrow> Some (goto t Idle (store_slot i (claimed_update (\<lambda>_. False)) (s\<lparr>job_enqueue_mutex := None\<rparr>)))
   | _ \<Rightarrow> None)"

definition act :: "nat \<Rightarrow> nat \<Rightarrow> action \<Rightarrow> machine \<Rightarrow> machine option" where
  "act n t a s =
     (if pc s t = Idle
      then (case a of Claim \<Rightarrow> Some (goto t (ScanReady 0 None (- 1)) s) | Submit name \<Rightarrow> Some (goto t (SubmitLoad name 0) s) | Step \<Rightarrow> None)
      else if a = Step then (case claim_move n t s of Some s' \<Rightarrow> Some s' | None \<Rightarrow> submit_move n t s) else None)"

definition empty_slot :: job_slot where
  "empty_slot = \<lparr>job_id = '''', problem_category = 0, data_size = 0, ready = False, claimed = False, worker_pid = 0,
     cancelled = False, worker_index = - 1, data_sent = False, is_chunked = False, unified_header = False, enqueue_seq = 0\<rparr>"

definition initial_machine :: "nat \<Rightarrow> machine" where
  "initial_machine n = \<lparr>slots = replicate n empty_slot, next_job_enqueue_seq = 1, job_enqueue_mutex = None, pc = \<lambda>_. Idle, delivered = []\<rparr>"

text \<open>Reachable states, with fewer tickets than a 64-bit counter holds.\<close>

inductive reachable :: "nat \<Rightarrow> machine \<Rightarrow> bool" for n where
  start: "reachable n (initial_machine n)"
| move: "reachable n s \<Longrightarrow> next_job_enqueue_seq s \<noteq> - 1 \<Longrightarrow> act n t a s = Some s' \<Longrightarrow> reachable n s'"


section \<open>The claim run alone\<close>

lemma scan_slots_best:
  assumes "n \<le> length queue"
  shows "case scan_slots queue n of
      (None, _) \<Rightarrow> \<forall>i < n. \<not> dispatchable (queue ! i)
    | (Some b, q) \<Rightarrow> b < n \<and> dispatchable (queue ! b) \<and> enqueue_seq (queue ! b) = q
        \<and> (\<forall>i < n. dispatchable (queue ! i) \<longrightarrow> q \<le> enqueue_seq (queue ! i))"
proof -
  let ?P = "\<lambda>is r. case r of
      (None, _) \<Rightarrow> \<forall>i \<in> set is. \<not> dispatchable (queue ! i)
    | (Some b, q) \<Rightarrow> b \<in> set is \<and> dispatchable (queue ! b) \<and> enqueue_seq (queue ! b) = q
        \<and> (\<forall>i \<in> set is. dispatchable (queue ! i) \<longrightarrow> q \<le> enqueue_seq (queue ! i))"
  have "?P [0..<n] (scan_slots queue n)"
    unfolding scan_slots_def
  proof (rule fold_invariant_prefix [where P = ?P])
    fix ys i zs acc assume "?P ys acc"
    then show "?P (ys @ [i]) (scan_slot queue i acc)"
      by (cases acc) (auto simp: scan_slot_def dispatchable_def Let_def split: option.splits)
  qed simp
  then show ?thesis by (auto split: option.splits prod.splits)
qed

lemma claim_alone:
  assumes "n \<le> length queue"
  shows "claim_ready_job_slot queue n worker pid =
     (case scan_slots queue n of
        (None, _) \<Rightarrow> Some (- 1, queue)
      | (Some b, _) \<Rightarrow> Some (int b, queue[b := (queue ! b)\<lparr>claimed := True, worker_pid := pid, worker_index := worker\<rparr>]))"
proof -
  obtain r q where r: "scan_slots queue n = (r, q)" by fastforce
  show ?thesis
    using scan_slots_best [OF assms] assms r
    by (subst claim_ready_job_slot.simps) (auto simp: claim_pass_def Let_def dispatchable_def split: option.splits)
qed

section \<open>Who holds a slot\<close>

fun holding :: "pc \<Rightarrow> nat option" where
  "holding (CheckReady i _) = Some i"
| "holding (CheckSeq i _) = Some i"
| "holding (Release i) = Some i"
| "holding (StorePid i _) = Some i"
| "holding (StoreIndex i _) = Some i"
| "holding (Owner i _) = Some i"
| "holding (ResetSeq i) = Some i"
| "holding (ResetRest i) = Some i"
| "holding (Populate _ i) = Some i"
| "holding (Lock i) = Some i"
| "holding (Ticket i) = Some i"
| "holding (StoreSeq i _) = Some i"
| "holding (StoreReady i _) = Some i"
| "holding (Unclaim i _) = Some i"
| "holding _ = None"

text \<open>A worker whose claim was confirmed, with the slot and its ticket.\<close>

fun owning :: "pc \<Rightarrow> (nat \<times> 64 word) option" where
  "owning (StorePid i q) = Some (i, q)"
| "owning (StoreIndex i q) = Some (i, q)"
| "owning (Owner i q) = Some (i, q)"
| "owning _ = None"

text \<open>Slots named by the state of a thread exist.\<close>

fun named :: "pc \<Rightarrow> nat set" where
  "named (ScanReady _ b _) = set_option b"
| "named (ScanClaimed i b _) = insert i (set_option b)"
| "named (ScanSeq i b _) = insert i (set_option b)"
| "named (ClaimCas i _) = {i}"
| "named (SubmitCas _ i) = {i}"
| "named p = set_option (holding p)"

fun counting :: "pc \<Rightarrow> nat option" where
  "counting (ScanReady i _ _) = Some i"
| "counting (SubmitLoad _ i) = Some i"
| "counting _ = None"

text \<open>A ticket drawn and not yet in its slot.\<close>

fun drawn :: "pc \<Rightarrow> 64 word option" where
  "drawn (StoreSeq _ q) = Some q"
| "drawn _ = None"

text \<open>A published ticket that its submitter still holds.\<close>

fun stored :: "pc \<Rightarrow> (nat \<times> 64 word) option" where
  "stored (StoreReady i q) = Some (i, q)"
| "stored _ = None"

definition threads_ok :: "nat \<Rightarrow> machine \<Rightarrow> bool" where
  "threads_ok n s \<longleftrightarrow> (\<forall>t. named (pc s t) \<subseteq> {..<n}) \<and> (\<forall>t i. counting (pc s t) = Some i \<longrightarrow> i \<le> n)
     \<and> (\<forall>t i. holding (pc s t) = Some i \<longrightarrow> claimed (slots s ! i))
     \<and> (\<forall>t u i. holding (pc s t) = Some i \<longrightarrow> holding (pc s u) = Some i \<longrightarrow> t = u)"

definition tickets_ok :: "nat \<Rightarrow> machine \<Rightarrow> bool" where
  "tickets_ok n s \<longleftrightarrow> length (slots s) = n \<and> 0 < next_job_enqueue_seq s
     \<and> (\<forall>i < n. enqueue_seq (slots s ! i) < next_job_enqueue_seq s)
     \<and> (\<forall>i < n. \<forall>j < n. i \<noteq> j \<longrightarrow> enqueue_seq (slots s ! i) \<noteq> 0 \<longrightarrow> enqueue_seq (slots s ! i) \<noteq> enqueue_seq (slots s ! j))
     \<and> (\<forall>i < n. ready (slots s ! i) \<longrightarrow> enqueue_seq (slots s ! i) \<noteq> 0)
     \<and> (\<forall>q \<in> set (delivered s). q < next_job_enqueue_seq s \<and> q \<noteq> 0) \<and> distinct (delivered s)
     \<and> (\<forall>t q. drawn (pc s t) = Some q \<longrightarrow> 0 < q \<and> q < next_job_enqueue_seq s \<and> q \<notin> set (delivered s) \<and> (\<forall>i < n. enqueue_seq (slots s ! i) \<noteq> q))
     \<and> (\<forall>t u q. drawn (pc s t) = Some q \<longrightarrow> drawn (pc s u) = Some q \<longrightarrow> t = u)
     \<and> (\<forall>t i q. stored (pc s t) = Some (i, q) \<longrightarrow> 0 < q \<and> enqueue_seq (slots s ! i) = q \<and> q \<notin> set (delivered s))"

definition owners_ok :: "nat \<Rightarrow> machine \<Rightarrow> bool" where
  "owners_ok n s \<longleftrightarrow> (\<forall>t i q. owning (pc s t) = Some (i, q) \<longrightarrow> ready (slots s ! i) \<and> enqueue_seq (slots s ! i) = q \<and> q \<in> set (delivered s))
     \<and> (\<forall>t i q. pc s t = CheckSeq i q \<longrightarrow> ready (slots s ! i))
     \<and> (\<forall>t i. pc s t = ResetSeq i \<or> pc s t = ResetRest i \<longrightarrow> \<not> ready (slots s ! i))
     \<and> (\<forall>i < n. ready (slots s ! i) \<and> enqueue_seq (slots s ! i) \<in> set (delivered s) \<longrightarrow> (\<exists>t q. owning (pc s t) = Some (i, q)))"


lemma threads_okD:
  assumes "threads_ok n s"
  shows "named (pc s t) \<subseteq> {..<n}" "counting (pc s t) = Some i \<Longrightarrow> i \<le> n" "holding (pc s t) = Some i \<Longrightarrow> claimed (slots s ! i)"
    "holding (pc s t) = Some i \<Longrightarrow> holding (pc s u) = Some i \<Longrightarrow> t = u" "holding (pc s t) = Some i \<Longrightarrow> i < n"
proof -
  show "holding (pc s t) = Some i \<Longrightarrow> i < n" using assms by (cases "pc s t") (auto simp: threads_ok_def dest!: spec [of _ t])
qed (use assms in \<open>unfold threads_ok_def, blast+\<close>)

lemmas move_defs = act_def claim_move_def submit_move_def goto_def store_slot_def

lemma threads_ok_goto:
  assumes "threads_ok n s" "length (slots s) = n" "named p \<subseteq> {..<n}" "\<And>i. counting p = Some i \<Longrightarrow> i \<le> n"
    "\<And>i. i < n \<Longrightarrow> claimed (slots s ! i) \<Longrightarrow> holding (pc s t) \<noteq> Some i \<Longrightarrow> claimed (sl ! i)"
    "\<And>i. holding p = Some i \<Longrightarrow> claimed (sl ! i)" "\<And>i. holding p = Some i \<Longrightarrow> holding (pc s t) = Some i \<or> \<not> claimed (slots s ! i)"
    "pc s' = (pc s)(t := p)" "slots s' = sl"
  shows "threads_ok n s'"
  unfolding threads_ok_def assms(8,9)
  using threads_okD [OF assms(1)] assms(3-7) by (auto split: if_splits) metis+

lemma update_nth: "xs[i := x] ! j = (if i = j \<and> j < length xs then x else xs ! j)"
  by (cases "i < length xs") (auto simp: nth_list_update list_update_beyond)

lemma act_pc: "act n t a s = Some s' \<Longrightarrow> pc s' = (pc s)(t := pc s' t)"
  by (cases "pc s t"; cases a) (auto simp: move_defs Let_def split: if_splits option.splits)

lemma act_length: "act n t a s = Some s' \<Longrightarrow> length (slots s') = length (slots s)"
  by (cases "pc s t"; cases a) (auto simp: move_defs Let_def split: if_splits option.splits)

lemma act_named:
  assumes "act n t a s = Some s'" "named (pc s t) \<subseteq> {..<n}" "\<forall>k. counting (pc s t) = Some k \<longrightarrow> k \<le> n"
  shows "named (pc s' t) \<subseteq> {..<n}"
  using assms by (cases "pc s t"; cases a) (auto simp: move_defs Let_def split: if_splits option.splits)

lemma act_counting:
  assumes "act n t a s = Some s'" "named (pc s t) \<subseteq> {..<n}" "\<forall>k. counting (pc s t) = Some k \<longrightarrow> k \<le> n"
  shows "\<forall>k. counting (pc s' t) = Some k \<longrightarrow> k \<le> n"
  using assms by (cases "pc s t"; cases a) (auto simp: move_defs Let_def split: if_splits option.splits)

text \<open>A thread changes only the slot it holds, or takes a slot that is not claimed.\<close>

lemma act_frame:
  assumes "act n t a s = Some s'" "claimed (slots s ! i)" "holding (pc s t) \<noteq> Some i"
  shows "slots s' ! i = slots s ! i"
  using assms by (cases "pc s t"; cases a) (auto simp: move_defs Let_def update_nth split: if_splits option.splits)

lemma act_takes:
  assumes "act n t a s = Some s'" "holding (pc s' t) = Some i"
  shows "holding (pc s t) = Some i \<or> \<not> claimed (slots s ! i)"
  using assms by (cases "pc s t"; cases a) (auto simp: move_defs Let_def split: if_splits option.splits)

lemma act_holds:
  assumes "act n t a s = Some s'" "holding (pc s' t) = Some i" "named (pc s t) \<subseteq> {..<n}" "length (slots s) = n"
    "\<forall>k. holding (pc s t) = Some k \<longrightarrow> claimed (slots s ! k)"
  shows "claimed (slots s' ! i)"
  using assms by (cases "pc s t"; cases a) (auto simp: move_defs Let_def update_nth split: if_splits option.splits)

lemma act_threads_ok:
  assumes ok: "threads_ok n s" and len: "length (slots s) = n" and a: "act n t a s = Some s'"
  shows "threads_ok n s'"
proof (rule threads_ok_goto [OF ok len, where t = t and p = "pc s' t" and sl = "slots s'"])
  note d = threads_okD [OF ok, where t = t]
  show "named (pc s' t) \<subseteq> {..<n}" using act_named [OF a d(1)] d(2) by blast
  show "i \<le> n" if "counting (pc s' t) = Some i" for i using act_counting [OF a d(1)] d(2) that by blast
  show "claimed (slots s' ! i)" if "claimed (slots s ! i)" "holding (pc s t) \<noteq> Some i" for i
    using act_frame [OF a that] that(1) by simp
  show "claimed (slots s' ! i)" if "holding (pc s' t) = Some i" for i
    using act_holds [OF a that d(1) len] d(3) by blast
  show "holding (pc s t) = Some i \<or> \<not> claimed (slots s ! i)" if "holding (pc s' t) = Some i" for i by (rule act_takes [OF a that])
  show "pc s' = (pc s)(t := pc s' t)" by (rule act_pc [OF a])
qed simp

lemma next_ticket:
  fixes q :: "64 word"
  assumes "n \<noteq> - 1"
  shows "n < n + 1" "q < n \<Longrightarrow> q < n + 1" "0 < n + 1"
proof -
  have "1 + n \<noteq> 0" using assms by (metis add.commute add_eq_0_iff2)
  then have "unat (n + 1) = Suc (unat n)" using unatSuc [of n] by (simp add: add.commute)
  then show "n < n + 1" "q < n \<Longrightarrow> q < n + 1" "0 < n + 1" by (simp_all add: word_less_nat_alt)
qed

lemma tickets_okD:
  assumes "tickets_ok n s"
  shows "length (slots s) = n" "0 < next_job_enqueue_seq s" "i < n \<Longrightarrow> enqueue_seq (slots s ! i) < next_job_enqueue_seq s"
    "i < n \<Longrightarrow> j < n \<Longrightarrow> i \<noteq> j \<Longrightarrow> enqueue_seq (slots s ! i) \<noteq> 0 \<Longrightarrow> enqueue_seq (slots s ! i) \<noteq> enqueue_seq (slots s ! j)"
    "i < n \<Longrightarrow> ready (slots s ! i) \<Longrightarrow> enqueue_seq (slots s ! i) \<noteq> 0"
    "q \<in> set (delivered s) \<Longrightarrow> q < next_job_enqueue_seq s \<and> q \<noteq> 0" "distinct (delivered s)"
    "drawn (pc s t) = Some q \<Longrightarrow> 0 < q \<and> q < next_job_enqueue_seq s \<and> q \<notin> set (delivered s) \<and> (\<forall>i < n. enqueue_seq (slots s ! i) \<noteq> q)"
    "drawn (pc s t) = Some q \<Longrightarrow> drawn (pc s u) = Some q \<Longrightarrow> t = u"
    "stored (pc s t) = Some (i, q) \<Longrightarrow> 0 < q \<and> enqueue_seq (slots s ! i) = q \<and> q \<notin> set (delivered s)"
  using assms unfolding tickets_ok_def by blast+

text \<open>What a move does to the tickets.\<close>

datatype effect = Quiet | Deliver nat "64 word" | Unready nat | ClearSeq nat | Draw "64 word" | PutSeq nat "64 word" | MakeReady nat

fun effect_of :: "machine \<Rightarrow> pc \<Rightarrow> effect" where
  "effect_of s (CheckSeq k q) = (if enqueue_seq (slots s ! k) = q then Deliver k q else Quiet)"
| "effect_of s (Owner k q) = Unready k"
| "effect_of s (ResetSeq k) = ClearSeq k"
| "effect_of s (ResetRest k) = ClearSeq k"
| "effect_of s (Ticket k) = Draw (next_job_enqueue_seq s)"
| "effect_of s (StoreSeq k q) = PutSeq k q"
| "effect_of s (StoreReady k q) = MakeReady k"
| "effect_of s _ = Quiet"

definition seqs :: "machine \<Rightarrow> 64 word list" where "seqs s = map enqueue_seq (slots s)"


lemma map_seq_same: "(map f xs)[k := f (xs ! k)] = map f xs"
  by (metis list_update_id map_update)

lemma act_seqs:
  assumes "act n t a s = Some s'"
  shows "seqs s' = (case effect_of s (pc s t) of ClearSeq k \<Rightarrow> (seqs s)[k := 0] | PutSeq k q \<Rightarrow> (seqs s)[k := q] | _ \<Rightarrow> seqs s)"
  using assms by (cases "pc s t"; cases a)
    (auto simp: move_defs Let_def seqs_def map_seq_same map_update reset_job_slot_def split: if_splits option.splits)

lemma act_delivered:
  assumes "act n t a s = Some s'"
  shows "delivered s' = (case effect_of s (pc s t) of Deliver k q \<Rightarrow> q # delivered s | _ \<Rightarrow> delivered s)"
  using assms by (cases "pc s t"; cases a) (auto simp: move_defs Let_def split: if_splits option.splits)

lemma act_next:
  assumes "act n t a s = Some s'"
  shows "next_job_enqueue_seq s' = (case effect_of s (pc s t) of Draw q \<Rightarrow> q + 1 | _ \<Rightarrow> next_job_enqueue_seq s)"
  using assms by (cases "pc s t"; cases a) (auto simp: move_defs Let_def split: if_splits option.splits)

lemma act_drawn:
  assumes "act n t a s = Some s'"
  shows "drawn (pc s' t) = (case effect_of s (pc s t) of Draw q \<Rightarrow> Some q | _ \<Rightarrow> None)"
  using assms by (cases "pc s t"; cases a) (auto simp: move_defs Let_def split: if_splits option.splits)

lemma act_stored:
  assumes "act n t a s = Some s'"
  shows "stored (pc s' t) = (case effect_of s (pc s t) of PutSeq k q \<Rightarrow> Some (k, q) | _ \<Rightarrow> None)"
  using assms by (cases "pc s t"; cases a) (auto simp: move_defs Let_def split: if_splits option.splits)

lemma act_ready:
  assumes "act n t a s = Some s'" "ready (slots s' ! i)"
  shows "ready (slots s ! i) \<or> effect_of s (pc s t) = MakeReady i"
  using assms by (cases "pc s t"; cases a)
    (auto simp: move_defs Let_def update_nth reset_job_slot_def split: if_splits option.splits)

text \<open>Slots named by an effect are held by the thread; the ticket of a delivery is in its slot.\<close>

lemma effect_holds:
  "effect_of s p = Deliver k q \<Longrightarrow> holding p = Some k \<and> p = CheckSeq k q \<and> enqueue_seq (slots s ! k) = q"
  "effect_of s p = Unready k \<Longrightarrow> holding p = Some k"
  "effect_of s p = ClearSeq k \<Longrightarrow> holding p = Some k \<and> (p = ResetSeq k \<or> p = ResetRest k)"
  "effect_of s p = PutSeq k q \<Longrightarrow> holding p = Some k \<and> drawn p = Some q"
  "effect_of s p = MakeReady k \<Longrightarrow> \<exists>q. holding p = Some k \<and> stored p = Some (k, q)"
  "effect_of s p = Draw q \<Longrightarrow> q = next_job_enqueue_seq s"
  by (cases p; auto split: if_splits)+

lemma act_seq:
  assumes "act n t a s = Some s'" "length (slots s) = n" "i < n"
  shows "enqueue_seq (slots s' ! i) = (case effect_of s (pc s t) of
      ClearSeq k \<Rightarrow> if i = k then 0 else enqueue_seq (slots s ! i)
    | PutSeq k q \<Rightarrow> if i = k then q else enqueue_seq (slots s ! i)
    | _ \<Rightarrow> enqueue_seq (slots s ! i))"
proof -
  have "enqueue_seq (slots s' ! i) = seqs s' ! i" using act_length [OF assms(1)] assms(2,3) by (simp add: seqs_def)
  also have "\<dots> = (case effect_of s (pc s t) of ClearSeq k \<Rightarrow> (seqs s)[k := 0] | PutSeq k q \<Rightarrow> (seqs s)[k := q] | _ \<Rightarrow> seqs s) ! i"
    by (simp only: act_seqs [OF assms(1)])
  finally show ?thesis using assms(2,3) by (simp add: seqs_def update_nth split: effect.splits)
qed

text \<open>A confirmed claim is the first of its ticket.\<close>

lemma deliver_fresh:
  assumes "threads_ok n s" "owners_ok n s" "effect_of s (pc s t) = Deliver k q"
  shows "q \<notin> set (delivered s)" "k < n" "ready (slots s ! k)" "enqueue_seq (slots s ! k) = q"
proof -
  note e = effect_holds(1) [OF assms(3)]
  show k: "k < n" using threads_okD(5) [OF assms(1)] e by blast
  show r: "ready (slots s ! k)" using assms(2) e unfolding owners_ok_def by blast
  show q: "enqueue_seq (slots s ! k) = q" using e by blast
  show "q \<notin> set (delivered s)"
  proof
    assume "q \<in> set (delivered s)"
    then obtain u q' where u: "owning (pc s u) = Some (k, q')" using assms(2) k r q unfolding owners_ok_def by blast
    then have "holding (pc s u) = Some k" by (cases "pc s u") auto
    then have "u = t" using threads_okD(4) [OF assms(1)] e by blast
    then show False using u e by simp
  qed
qed

lemma act_tickets_ok:
  assumes th: "threads_ok n s" and ti: "tickets_ok n s" and ow: "owners_ok n s" and a: "act n t a s = Some s'" and wrap: "next_job_enqueue_seq s \<noteq> - 1"
  shows "tickets_ok n s'"
proof -
  note d = tickets_okD [OF ti] and nt = next_ticket [OF wrap] and seq = act_seq [OF a d(1)]
  note e = effect_holds [of s "pc s t"] and f = deliver_fresh [OF th ow, of t]
  note nxt = act_next [OF a] and del = act_delivered [OF a]
  have pc: "pc s' u = pc s u" if "u \<noteq> t" for u using act_pc [OF a] that by (metis fun_upd_other)
  have len: "length (slots s') = n" using act_length [OF a] d(1) by simp
  have grow: "q < next_job_enqueue_seq s'" if "q < next_job_enqueue_seq s" for q
    using that nxt nt(2) e(6) by (auto split: effect.splits)
  have drawn: "drawn (pc s' u) = Some q \<Longrightarrow> u \<noteq> t \<and> drawn (pc s u) = Some q \<or> u = t \<and> effect_of s (pc s t) = Draw q \<and> q = next_job_enqueue_seq s" for u q
    using pc act_drawn [OF a] e(6) by (cases "u = t") (auto split: effect.splits)
  have stored: "stored (pc s' u) = Some (i, q) \<Longrightarrow> u \<noteq> t \<and> stored (pc s u) = Some (i, q) \<or> u = t \<and> effect_of s (pc s t) = PutSeq i q" for u i q
    using pc act_stored [OF a] by (cases "u = t") (auto split: effect.splits)
  have put: "0 < q \<and> q < next_job_enqueue_seq s \<and> q \<notin> set (delivered s) \<and> k < n \<and> (\<forall>i < n. enqueue_seq (slots s ! i) \<noteq> q)"
    if "effect_of s (pc s t) = PutSeq k q" for k q using e(4) [OF that] d(8) threads_okD(5) [OF th] by blast
  have other: "holding (pc s u) \<noteq> Some i \<or> u = t" if "holding (pc s t) = Some i" for u i using threads_okD(4) [OF th that] by metis
  have 1: "0 < next_job_enqueue_seq s'" using grow d(2) by blast
  have 2: "enqueue_seq (slots s' ! i) < next_job_enqueue_seq s'" if "i < n" for i
    using that seq d(2) d(3) d(8) e(4) by (intro grow) (auto split: effect.splits)
  have 3: "enqueue_seq (slots s' ! i) \<noteq> enqueue_seq (slots s' ! j)" if "i < n" "j < n" "i \<noteq> j" "enqueue_seq (slots s' ! i) \<noteq> 0" for i j
    using that seq d(4) by (auto dest: put split: effect.splits if_splits)
  have 4: "enqueue_seq (slots s' ! i) \<noteq> 0" if "i < n" "ready (slots s' ! i)" for i
  proof (cases "effect_of s (pc s t) = MakeReady i")
    case True
    then show ?thesis using e(5) d(10) seq [OF that(1)] by fastforce
  next
    case False
    then have r: "ready (slots s ! i)" using act_ready [OF a that(2)] by simp
    have "effect_of s (pc s t) \<noteq> ClearSeq i" using e(3) ow r unfolding owners_ok_def by blast
    then show ?thesis using seq [OF that(1)] d(5) [OF that(1) r] put by (auto split: effect.splits)
  qed
  have 5: "q < next_job_enqueue_seq s' \<and> q \<noteq> 0" if "q \<in> set (delivered s')" for q
    using that del d(3) d(5) d(6) f grow by (auto split: effect.splits)
  have 6: "distinct (delivered s')" using del d(7) f by (auto split: effect.splits)
  have 7: "0 < q \<and> q < next_job_enqueue_seq s' \<and> q \<notin> set (delivered s') \<and> (\<forall>i < n. enqueue_seq (slots s' ! i) \<noteq> q)"
    if "drawn (pc s' u) = Some q" for u q
  proof (cases "u = t")
    case True
    then have q: "q = next_job_enqueue_seq s" "effect_of s (pc s t) = Draw q" using drawn [OF that] by auto
    then show ?thesis using del nxt seq nt(1) d(2) d(3) d(6) by fastforce
  next
    case False
    then have u: "drawn (pc s u) = Some q" using drawn [OF that] by blast
    have "effect_of s (pc s t) \<noteq> PutSeq k q" for k using e(4) [of k q] d(9) [OF u] False by blast
    then show ?thesis using d(8) [OF u] grow seq del f by (auto split: effect.splits if_splits)
  qed
  have 8: "u = v" if "drawn (pc s' u) = Some q" "drawn (pc s' v) = Some q" for u v q
    using drawn [OF that(1)] drawn [OF that(2)] d(8) d(9) by blast
  have 9: "0 < q \<and> enqueue_seq (slots s' ! i) = q \<and> q \<notin> set (delivered s')" if "stored (pc s' u) = Some (i, q)" for u i q
  proof (cases "u = t")
    case True
    then have "effect_of s (pc s t) = PutSeq i q" using stored [OF that] by blast
    then show ?thesis using put seq del by fastforce
  next
    case False
    then have u: "stored (pc s u) = Some (i, q)" using stored [OF that] by blast
    then have h: "holding (pc s u) = Some i" by (cases "pc s u") auto
    then have i: "i < n" "holding (pc s t) \<noteq> Some i" using threads_okD(5) [OF th] other False by blast+
    have "enqueue_seq (slots s' ! i) = q" using d(10) [OF u] seq [OF i(1)] e(3,4) i(2) by (auto split: effect.splits)
    moreover have "effect_of s (pc s t) \<noteq> Deliver k q" for k
    proof
      assume D: "effect_of s (pc s t) = Deliver k q"
      then have "k \<noteq> i" "enqueue_seq (slots s ! k) = enqueue_seq (slots s ! i)" using e(1) i(2) d(10) [OF u] by auto
      moreover have "q \<noteq> 0" using d(10) [OF u] by (metis less_irrefl)
      ultimately show False using d(4) [OF f(2) [OF D] i(1)] f(4) [OF D] by simp
    qed
    ultimately show ?thesis using d(10) [OF u] del by (auto split: effect.splits)
  qed
  show ?thesis unfolding tickets_ok_def using len 1 2 3 4 5 6 7 8 9 by blast
qed

lemma owners_okD:
  assumes "owners_ok n s"
  shows "owning (pc s t) = Some (i, q) \<Longrightarrow> ready (slots s ! i) \<and> enqueue_seq (slots s ! i) = q \<and> q \<in> set (delivered s)"
    "pc s t = CheckSeq i q \<Longrightarrow> ready (slots s ! i)"
    "pc s t = ResetSeq i \<or> pc s t = ResetRest i \<Longrightarrow> \<not> ready (slots s ! i)"
    "i < n \<Longrightarrow> ready (slots s ! i) \<Longrightarrow> enqueue_seq (slots s ! i) \<in> set (delivered s) \<Longrightarrow> \<exists>t q. owning (pc s t) = Some (i, q)"
  using assms unfolding owners_ok_def by blast+

lemma owning_holds: "owning p = Some (i, q) \<Longrightarrow> holding p = Some i"
  by (cases p) auto

text \<open>Moves of the thread itself.\<close>

lemma act_owning:
  assumes "act n t a s = Some s'" "owning (pc s' t) = Some (i, q)"
  shows "effect_of s (pc s t) = Deliver i q \<or> owning (pc s t) = Some (i, q)"
  using assms by (cases "pc s t"; cases a) (auto simp: move_defs Let_def split: if_splits option.splits)

lemma act_owning_ready:
  assumes "act n t a s = Some s'" "owning (pc s' t) = Some (i, q)" "ready (slots s ! i)"
  shows "ready (slots s' ! i)"
  using assms by (cases "pc s t"; cases a) (auto simp: move_defs Let_def update_nth split: if_splits option.splits)

lemma act_disowns:
  assumes "act n t a s = Some s'" "owning (pc s t) = Some (i, q)" "i < length (slots s)" "ready (slots s' ! i)"
  shows "owning (pc s' t) = Some (i, q)"
  using assms by (cases "pc s t"; cases a) (auto simp: move_defs Let_def update_nth split: if_splits option.splits)

lemma act_delivers:
  assumes "act n t a s = Some s'" "effect_of s (pc s t) = Deliver i q"
  shows "owning (pc s' t) = Some (i, q)"
  using assms by (cases "pc s t"; cases a) (auto simp: move_defs Let_def split: if_splits option.splits)

lemma act_checks:
  assumes "act n t a s = Some s'" "pc s' t = CheckSeq i q"
  shows "ready (slots s' ! i)"
  using assms by (cases "pc s t"; cases a) (auto simp: move_defs Let_def split: if_splits option.splits)

lemma act_resets:
  assumes "act n t a s = Some s'" "pc s' t = ResetSeq i \<or> pc s' t = ResetRest i" "named (pc s t) \<subseteq> {..<length (slots s)}"
    "pc s t = ResetSeq i \<longrightarrow> \<not> ready (slots s ! i)"
  shows "\<not> ready (slots s' ! i)"
  using assms by (cases "pc s t"; cases a) (auto simp: move_defs Let_def update_nth split: if_splits option.splits)

lemma act_owners_ok:
  assumes th: "threads_ok n s" and ti: "tickets_ok n s" and ow: "owners_ok n s" and a: "act n t a s = Some s'"
  shows "owners_ok n s'"
proof -
  note o = owners_okD [OF ow] and d = tickets_okD [OF ti] and f = deliver_fresh [OF th ow, of t]
  note del = act_delivered [OF a] and seq = act_seq [OF a d(1)]
  have pc: "pc s' u = pc s u" if "u \<noteq> t" for u using act_pc [OF a] that by (metis fun_upd_other)
  have frame: "slots s' ! i = slots s ! i" if "holding (pc s u) = Some i" "u \<noteq> t" for u i
    using act_frame [OF a threads_okD(3) [OF th that(1)]] threads_okD(4) [OF th that(1)] that(2) by metis
  have more: "q \<in> set (delivered s')" if "q \<in> set (delivered s)" for q using that del by (auto split: effect.splits)
  have 1: "ready (slots s' ! i) \<and> enqueue_seq (slots s' ! i) = q \<and> q \<in> set (delivered s')" if "owning (pc s' u) = Some (i, q)" for u i q
  proof (cases "u = t")
    case True
    show ?thesis using act_owning [OF a that [unfolded True]]
    proof
      assume D: "effect_of s (pc s t) = Deliver i q"
      then show ?thesis using f [OF D] seq [of i] del act_owning_ready [OF a that [unfolded True]] by simp
    next
      assume O: "owning (pc s t) = Some (i, q)"
      then have "effect_of s (pc s t) \<noteq> ClearSeq k \<and> effect_of s (pc s t) \<noteq> PutSeq k p" for k p by (cases "pc s t") auto
      then show ?thesis using o(1) [OF O] seq [of i] more act_owning_ready [OF a that [unfolded True]]
          threads_okD(5) [OF th owning_holds [OF O]] by (auto split: effect.splits)
    qed
  next
    case False
    then have O: "owning (pc s u) = Some (i, q)" using that pc by simp
    then show ?thesis using o(1) [OF O] more frame [OF owning_holds [OF O] False] by simp
  qed
  have 2: "ready (slots s' ! i)" if "pc s' u = CheckSeq i q" for u i q
    using act_checks [OF a] that pc [of u] o(2) [of u i q] frame [of u i] by (cases "u = t") auto
  have 3: "\<not> ready (slots s' ! i)" if "pc s' u = ResetSeq i \<or> pc s' u = ResetRest i" for u i
    using act_resets [OF a, of i] that pc [of u] o(3) [of u i] frame [of u i] threads_okD(1) [OF th, of t] d(1) by (cases "u = t") auto
  have 4: "\<exists>u q. owning (pc s' u) = Some (i, q)" if i: "i < n" and r: "ready (slots s' ! i)" and q: "enqueue_seq (slots s' ! i) \<in> set (delivered s')" for i
  proof (cases "ready (slots s ! i) \<and> enqueue_seq (slots s ! i) \<in> set (delivered s)")
    case True
    then obtain u q where u: "owning (pc s u) = Some (i, q)" using o(4) [OF i] by blast
    then show ?thesis using pc [of u] act_disowns [OF a _ _ r, of q] i d(1) by (cases "u = t") (metis u)+
  next
    case False
    have stored: "effect_of s (pc s t) \<noteq> MakeReady i"
    proof
      assume M: "effect_of s (pc s t) = MakeReady i"
      then obtain q' where "stored (pc s t) = Some (i, q')" using effect_holds(5) by blast
      then show False using d(10) q M del seq [OF i] by fastforce
    qed
    then have r0: "ready (slots s ! i)" using act_ready [OF a r] by blast
    have put: "effect_of s (pc s t) \<noteq> PutSeq i q'" for q'
      using effect_holds(4) [of s "pc s t" i q'] d(8) [of t q'] q del seq [OF i] by (auto split: effect.splits)
    have clear: "effect_of s (pc s t) \<noteq> ClearSeq i" using d(6) [of 0] q del seq [OF i] by (auto split: effect.splits)
    have same: "enqueue_seq (slots s' ! i) = enqueue_seq (slots s ! i)" using seq [OF i] put clear by (auto split: effect.splits)
    then obtain k where D: "effect_of s (pc s t) = Deliver k (enqueue_seq (slots s ! i))"
      using q del False r0 by (auto split: effect.splits)
    then have "k = i" using d(4) [OF f(2) [OF D] i] d(5) [OF i r0] f(4) [OF D] by auto
    then show ?thesis using act_delivers [OF a D] by blast
  qed
  show ?thesis unfolding owners_ok_def using 1 2 3 4 by blast
qed

lemma reachable_ok: "reachable n s \<Longrightarrow> threads_ok n s \<and> tickets_ok n s \<and> owners_ok n s"
proof (induction rule: reachable.induct)
  case start
  show ?case by (simp add: initial_machine_def empty_slot_def threads_ok_def tickets_ok_def owners_ok_def)
next
  case (move s t a s')
  then show ?case using act_threads_ok tickets_okD(1) act_tickets_ok act_owners_ok by blast
qed

section \<open>The order of publication\<close>

text \<open>The thread between the draw of a ticket and the end of its publication has the lock.\<close>

fun publishing :: "pc \<Rightarrow> bool" where
  "publishing (Ticket _) = True"
| "publishing (StoreSeq _ _) = True"
| "publishing (StoreReady _ _) = True"
| "publishing (Unclaim _ _) = True"
| "publishing _ = False"

definition unpublished :: "machine \<Rightarrow> 64 word \<Rightarrow> bool" where
  "unpublished s q \<longleftrightarrow> (\<exists>t i. pc s t = StoreSeq i q \<or> pc s t = StoreReady i q)"

definition publication_ok :: "machine \<Rightarrow> bool" where
  "publication_ok s \<longleftrightarrow> (\<forall>t. publishing (pc s t) \<longleftrightarrow> job_enqueue_mutex s = Some t) \<and> (\<forall>q. unpublished s q \<longrightarrow> next_job_enqueue_seq s = q + 1)"

lemma act_publication_ok:
  assumes ok: "publication_ok s" and a: "act n t a s = Some s'"
  shows "publication_ok s'"
proof -
  have pc: "pc s' u = pc s u" if "u \<noteq> t" for u using act_pc [OF a] that by (metis fun_upd_other)
  have lock: "publishing (pc s u) \<longleftrightarrow> job_enqueue_mutex s = Some u" for u using ok by (simp add: publication_ok_def)
  have 1: "publishing (pc s' u) \<longleftrightarrow> job_enqueue_mutex s' = Some u" for u
    using a lock [of u] lock [of t] pc [of u]
    by (cases "u = t"; cases "pc s t"; cases a) (auto simp: move_defs Let_def split: if_splits option.splits)
  have 2: "next_job_enqueue_seq s' = q + 1" if u: "pc s' u = StoreSeq i q \<or> pc s' u = StoreReady i q" for u i q
  proof (cases "u = t")
    case True
    have "\<forall>i q. pc s t = StoreSeq i q \<longrightarrow> next_job_enqueue_seq s = q + 1" using ok by (auto simp: publication_ok_def unpublished_def)
    then show ?thesis using a u True
      by (cases "pc s t"; cases a) (auto simp: move_defs Let_def split: if_splits option.splits)
  next
    case False
    then have "publishing (pc s u)" "unpublished s q" using u pc by (auto simp: unpublished_def)
    moreover have "\<not> publishing (pc s t)" using lock [of t] lock [of u] False calculation(1) by auto
    then have "next_job_enqueue_seq s' = next_job_enqueue_seq s" using act_next [OF a] by (cases "pc s t") (auto split: if_splits)
    ultimately show ?thesis using ok by (simp add: publication_ok_def)
  qed
  show ?thesis using 1 2 by (auto simp: publication_ok_def unpublished_def)
qed

lemma reachable_publication: "reachable n s \<Longrightarrow> publication_ok s"
proof (induction rule: reachable.induct)
  case start
  show ?case by (simp add: initial_machine_def publication_ok_def unpublished_def)
qed (rule act_publication_ok)

text \<open>
  C9. The claim protocol under every interleaving of claiming, releasing and submitting threads at
  the granularity of single atomic accesses: no two threads hold a slot at the same time, a
  worker whose claim was confirmed holds a slot that is ready, claimed and still carries the
  ticket it selected, no ticket is ever handed to a second worker, and every ticket drawn is
  published before the next one is drawn, so at most the latest one is not yet visible.
\<close>

theorem claim_protocol_safe:
  assumes "reachable n s"
  shows "(\<forall>t u i. holding (pc s t) = Some i \<and> holding (pc s u) = Some i \<longrightarrow> t = u)
     \<and> (\<forall>t i q. owning (pc s t) = Some (i, q) \<longrightarrow>
          i < n \<and> ready (slots s ! i) \<and> claimed (slots s ! i) \<and> enqueue_seq (slots s ! i) = q \<and> q \<noteq> 0)
     \<and> distinct (delivered s)
     \<and> (\<forall>t i q. pc s t = StoreSeq i q \<or> pc s t = StoreReady i q \<longrightarrow> next_job_enqueue_seq s = q + 1)"
proof -
  note ok = reachable_ok [OF assms]
  note th = threads_okD [OF conjunct1 [OF ok]]
  note ti = tickets_okD [OF conjunct1 [OF conjunct2 [OF ok]]]
  note ow = owners_okD [OF conjunct2 [OF conjunct2 [OF ok]]]
  have "i < n \<and> ready (slots s ! i) \<and> claimed (slots s ! i) \<and> enqueue_seq (slots s ! i) = q \<and> q \<noteq> 0"
    if "owning (pc s t) = Some (i, q)" for t i q
    using ow(1) [OF that] th(3,5) [OF owning_holds [OF that]] ti(5) by blast
  moreover have "next_job_enqueue_seq s = q + 1" if "pc s t = StoreSeq i q \<or> pc s t = StoreReady i q" for t i q
    using reachable_publication [OF assms] that unfolding publication_ok_def unpublished_def by blast
  ultimately show ?thesis using th(4) ti(7) by blast
qed

section \<open>Schedules\<close>

fun run :: "nat \<Rightarrow> (nat \<times> action) list \<Rightarrow> machine \<Rightarrow> machine option" where
  "run n [] s = Some s"
| "run n ((t, a) # rest) s = (case act n t a s of None \<Rightarrow> None | Some s' \<Rightarrow> run n rest s')"

fun no_wrap :: "nat \<Rightarrow> (nat \<times> action) list \<Rightarrow> machine \<Rightarrow> bool" where
  "no_wrap n [] s = True"
| "no_wrap n ((t, a) # rest) s =
     (next_job_enqueue_seq s \<noteq> - 1 \<and> (case act n t a s of None \<Rightarrow> True | Some s' \<Rightarrow> no_wrap n rest s'))"

lemma run_reachable: "reachable n s \<Longrightarrow> no_wrap n sched s \<Longrightarrow> run n sched s = Some s' \<Longrightarrow> reachable n s'"
proof (induction sched arbitrary: s)
  case (Cons x rest)
  obtain t a where x: "x = (t, a)" by fastforce
  obtain s1 where s1: "act n t a s = Some s1" "run n rest s1 = Some s'" using Cons.prems(3) by (auto simp: x split: option.splits)
  show ?case using Cons.IH [OF reachable.move [OF Cons.prems(1) _ s1(1)] _ s1(2)] Cons.prems(2) s1(1) by (simp add: x)
qed simp

text \<open>One submission, then a claim up to the confirmed state.\<close>

definition submit_and_claim :: "(nat \<times> action) list" where
  "submit_and_claim = (0, Submit ''job'') # replicate 8 (0, Step) @ (1, Claim) # replicate 8 (1, Step)"

theorem claim_protocol_safe_witness:
  "\<exists>s. reachable 1 s \<and> owning (pc s 1) = Some (0, 1) \<and> ready (slots s ! 0) \<and> claimed (slots s ! 0) \<and> delivered s = [1]"
proof -
  have r: "case run 1 submit_and_claim (initial_machine 1) of None \<Rightarrow> False | Some s \<Rightarrow> owning (pc s 1) = Some (0, 1) \<and> delivered s = [1]"
    by code_simp
  have w: "no_wrap 1 submit_and_claim (initial_machine 1)" by code_simp
  obtain s where s: "run 1 submit_and_claim (initial_machine 1) = Some s" "owning (pc s 1) = Some (0, 1)" "delivered s = [1]"
    using r by (auto split: option.splits)
  have "reachable 1 s" by (rule run_reachable [OF reachable.start w s(1)])
  with claim_protocol_safe [OF this] s show ?thesis by blast
qed

text \<open>A second submission reads \<open>ready\<close> of the slot, then the first one reserves, fills and publishes it.\<close>

definition overwriting :: "(nat \<times> action) list" where
  "overwriting = (1, Submit ''second'') # (1, Step) # (0, Submit ''first'') # replicate 8 (0, Step) @ replicate 7 (1, Step)"


end
