(* ===== verification/Grpc_Jobs.thy ===== *)
theory Grpc_Jobs
  imports Grpc_Slots Extended_Values
begin

text \<open>
  Job management of the gRPC server: submission, status, cancellation and deletion
  (\<open>grpc_job_management.cpp\<close>), dispatch of request data and retrieval of results
  (\<open>grpc_server_threads.cpp\<close>), the job loop of a worker (\<open>grpc_worker.cpp\<close>), and the recovery of the
  jobs of a dead worker and the shutdown (\<open>grpc_worker_infra.cpp\<close>). Each operation is one step on
  the server state. Message types of the wire format, identifiers, clocks, pipes and solvers are
  parameters; the kill of a process is recorded in \<open>killed\<close>.
\<close>

section \<open>State\<close>

definition MAX_JOBS :: nat where "MAX_JOBS = 100"
definition MAX_RESULTS :: nat where "MAX_RESULTS = 100"

datatype result_status = RESULT_SUCCESS | RESULT_ERROR | RESULT_CANCELLED
datatype job_status = QUEUED | PROCESSING | COMPLETED | FAILED | NOT_FOUND | CANCELLED
datatype pipe_write_status = Success | ValidationFailed | PipeFailed

record result_slot =
  result_job_id :: string
  status :: result_status
  result_data_size :: nat
  error_message :: string
  result_claimed :: bool
  result_ready :: bool
  retrieved :: bool
  result_worker_index :: int

type_synonym bytes = "8 word list"
type_synonym arrays = "(int \<times> bytes) list"

record incumbent_entry =
  objective :: xval
  bound :: xval
  assignment :: "xval list"

record 'h job_info =
  info_job_id :: string
  info_status :: job_status
  submit_time :: int
  incumbents :: "incumbent_entry list"
  info_problem_category :: "32 word"
  info_error_message :: string
  is_blocking :: bool
  result_header :: 'h
  result_arrays :: arrays
  result_size_bytes :: nat

record job_waiter =
  waiter_error_message :: string
  waiter_success :: bool
  waiter_ready :: bool

record 'p chunked_upload =
  unified :: bool
  payload :: 'p

record ('h, 'p) server =
  job_queue :: "job_slot list"
  result_queue :: "result_slot list"
  enqueue_counter :: "64 word"
  job_tracker :: "string \<rightharpoonup> 'h job_info"
  waiting_threads :: "string \<rightharpoonup> nat"
  waiters :: "nat \<Rightarrow> job_waiter"
  pending_job_data :: "string \<rightharpoonup> bytes"
  pending_chunked_data :: "string \<rightharpoonup> 'p chunked_upload"
  log_files :: "string set"
  killed :: "int list"

definition empty_result :: result_slot where
  "empty_result = \<lparr>result_job_id = '''', status = RESULT_SUCCESS, result_data_size = 0, error_message = '''', result_claimed = False,
     result_ready = False, retrieved = False, result_worker_index = 0\<rparr>"

definition initial_server :: "('h, 'p) server" where
  "initial_server = \<lparr>job_queue = replicate MAX_JOBS empty_slot, result_queue = replicate MAX_RESULTS empty_result, enqueue_counter = 1,
     job_tracker = Map.empty, waiting_threads = Map.empty,
     waiters = \<lambda>_. \<lparr>waiter_error_message = '''', waiter_success = False, waiter_ready = False\<rparr>,
     pending_job_data = Map.empty, pending_chunked_data = Map.empty, log_files = {}, killed = []\<rparr>"

section \<open>Strings and log files\<close>

text \<open>What a C string shows of a string, and its copy into a buffer of \<open>n\<close> bytes.\<close>

definition c_str :: "string \<Rightarrow> string" where "c_str s = takeWhile (\<lambda>c. c \<noteq> CHR 0x00) s"
definition copy_cstr :: "nat \<Rightarrow> string \<Rightarrow> string" where "copy_cstr n src = take (n - 1) (c_str src)"

definition LOG_DIR :: string where "LOG_DIR = ''/tmp/cuopt_logs''"
definition get_log_file_path :: "string \<Rightarrow> string" where "get_log_file_path name = LOG_DIR @ ''/job_'' @ name @ ''.log''"

definition create_job_log_file :: "string \<Rightarrow> ('h, 'p) server \<Rightarrow> ('h, 'p) server" where
  "create_job_log_file name s = s\<lparr>log_files := insert (get_log_file_path name) (log_files s)\<rparr>"

definition delete_log_file :: "string \<Rightarrow> ('h, 'p) server \<Rightarrow> ('h, 'p) server" where
  "delete_log_file name s = s\<lparr>log_files := log_files s - {get_log_file_path name}\<rparr>"

definition set_job :: "nat \<Rightarrow> (job_slot \<Rightarrow> job_slot) \<Rightarrow> ('h, 'p) server \<Rightarrow> ('h, 'p) server" where
  "set_job i f s = s\<lparr>job_queue := (job_queue s)[i := f (job_queue s ! i)]\<rparr>"

section \<open>Submission\<close>

definition publish_ready_job_slot :: "nat \<Rightarrow> ('h, 'p) server \<Rightarrow> ('h, 'p) server" where
  "publish_ready_job_slot slot s =
     (let seq = enqueue_counter s
      in set_job slot (\<lambda>job. job\<lparr>enqueue_seq := seq, ready := True, claimed := False\<rparr>) (s\<lparr>enqueue_counter := seq + 1\<rparr>))"

definition reserve_slot :: "('h, 'p) server \<Rightarrow> nat option" where
  "reserve_slot s = find (\<lambda>i. \<not> ready (job_queue s ! i) \<and> \<not> claimed (job_queue s ! i)) [0..<MAX_JOBS]"

definition queued_info :: "string \<Rightarrow> int \<Rightarrow> 32 word \<Rightarrow> 'h \<Rightarrow> 'h job_info" where
  "queued_info name now category header = \<lparr>info_job_id = name, info_status = QUEUED, submit_time = now, incumbents = [],
     info_problem_category = category, info_error_message = '''', is_blocking = False, result_header = header,
     result_arrays = [], result_size_bytes = 0\<rparr>"

definition submit_job_async ::
    "'h \<Rightarrow> string \<Rightarrow> int \<Rightarrow> bytes \<Rightarrow> 32 word \<Rightarrow> ('h, 'p) server \<Rightarrow> (bool \<times> string) \<times> ('h, 'p) server" where
  "submit_job_async header name now request_data category s =
     (case reserve_slot s of
        None \<Rightarrow> ((False, ''Job queue full''), s)
      | Some slot \<Rightarrow>
          let s = set_job slot (\<lambda>job. job\<lparr>claimed := True\<rparr>) s;
              s = create_job_log_file name s;
              s = set_job slot (\<lambda>job. job\<lparr>job_id := copy_cstr 64 name, problem_category := category,
                    data_size := of_nat (length request_data), cancelled := False, worker_index := - 1, data_sent := False,
                    is_chunked := False, unified_header := False, worker_pid := 0\<rparr>) s;
              s = s\<lparr>pending_job_data := (pending_job_data s)(name \<mapsto> request_data)\<rparr>;
              s = s\<lparr>job_tracker := (job_tracker s)(name \<mapsto> queued_info name now category header)\<rparr>;
              s = publish_ready_job_slot slot s
          in ((True, name), s))"

definition submit_chunked_job_async ::
    "'h \<Rightarrow> string \<Rightarrow> int \<Rightarrow> 'p chunked_upload \<Rightarrow> 32 word \<Rightarrow> ('h, 'p) server \<Rightarrow> (bool \<times> string) \<times> ('h, 'p) server" where
  "submit_chunked_job_async header name now chunked_data category s =
     (case reserve_slot s of
        None \<Rightarrow> ((False, ''Job queue full''), s)
      | Some slot \<Rightarrow>
          let s = set_job slot (\<lambda>job. job\<lparr>claimed := True\<rparr>) s;
              s = create_job_log_file name s;
              s = set_job slot (\<lambda>job. job\<lparr>job_id := copy_cstr 64 name, problem_category := category,
                    data_size := 0, cancelled := False, worker_index := - 1, data_sent := False,
                    is_chunked := True, unified_header := unified chunked_data, worker_pid := 0\<rparr>) s;
              s = s\<lparr>pending_chunked_data := (pending_chunked_data s)(name \<mapsto> chunked_data)\<rparr>;
              s = s\<lparr>job_tracker := (job_tracker s)(name \<mapsto> queued_info name now category header)\<rparr>;
              s = publish_ready_job_slot slot s
          in ((True, name), s))"

section \<open>Status, cancellation, deletion\<close>

definition set_status :: "string \<Rightarrow> job_status \<Rightarrow> string \<Rightarrow> ('h, 'p) server \<Rightarrow> ('h, 'p) server" where
  "set_status name st msg s =
     s\<lparr>job_tracker := (job_tracker s)(name := map_option (\<lambda>info. info\<lparr>info_status := st, info_error_message := msg\<rparr>) (job_tracker s name))\<rparr>"

definition status_message :: "'h job_info \<Rightarrow> string" where
  "status_message info = (case info_status info of
     QUEUED \<Rightarrow> ''Job is queued''
   | PROCESSING \<Rightarrow> ''Job is being processed''
   | COMPLETED \<Rightarrow> ''Job completed''
   | FAILED \<Rightarrow> ''Job failed: '' @ info_error_message info
   | CANCELLED \<Rightarrow> ''Job was cancelled''
   | NOT_FOUND \<Rightarrow> ''Unknown status'')"

definition check_job_status :: "string \<Rightarrow> ('h, 'p) server \<Rightarrow> (job_status \<times> string) \<times> ('h, 'p) server" where
  "check_job_status name s =
     (case job_tracker s name of
        None \<Rightarrow> ((NOT_FOUND, ''Job ID not found''), s)
      | Some info \<Rightarrow>
          let info = (if info_status info = QUEUED
                         \<and> (\<exists>i \<in> set [0..<MAX_JOBS]. ready (job_queue s ! i) \<and> claimed (job_queue s ! i) \<and> job_id (job_queue s ! i) = name)
                      then info\<lparr>info_status := PROCESSING\<rparr> else info)
          in ((info_status info, status_message info), s\<lparr>job_tracker := (job_tracker s)(name \<mapsto> info)\<rparr>))"

text \<open>Wake the thread that waits for a job and drop its entry.\<close>

definition notify_waiter :: "string \<Rightarrow> string \<Rightarrow> bool \<Rightarrow> ('h, 'p) server \<Rightarrow> ('h, 'p) server" where
  "notify_waiter name msg success s =
     (case waiting_threads s name of
        None \<Rightarrow> s
      | Some w \<Rightarrow>
          s\<lparr>waiters := (waiters s)(w := (waiters s w)\<lparr>waiter_error_message := msg, waiter_success := success, waiter_ready := True\<rparr>),
            waiting_threads := (waiting_threads s)(name := None)\<rparr>)"

definition slot_of :: "string \<Rightarrow> ('h, 'p) server \<Rightarrow> nat option" where
  "slot_of name s = find (\<lambda>i. ready (job_queue s ! i) \<and> job_id (job_queue s ! i) = c_str name) [0..<MAX_JOBS]"

definition cancel_job :: "string \<Rightarrow> ('h, 'p) server \<Rightarrow> (int \<times> job_status \<times> string) \<times> ('h, 'p) server" where
  "cancel_job name s =
     (case job_tracker s name of
        None \<Rightarrow> ((1, NOT_FOUND, ''Job ID not found''), s)
      | Some info \<Rightarrow>
          if info_status info = COMPLETED then ((2, COMPLETED, ''Cannot cancel completed job''), s)
          else if info_status info = CANCELLED then ((3, CANCELLED, ''Job already cancelled''), s)
          else if info_status info = FAILED then ((2, FAILED, ''Cannot cancel failed job''), s)
          else (case slot_of name s of
             Some i \<Rightarrow>
               let pid = worker_pid (job_queue s ! i);
                   running = (pid > 0 \<and> claimed (job_queue s ! i));
                   s = set_job i (\<lambda>job. job\<lparr>cancelled := True\<rparr>) s;
                   s = (if running then s\<lparr>killed := pid # killed s\<rparr> else s);
                   s = set_status name CANCELLED ''Job cancelled by user'' s;
                   s = delete_log_file name s;
                   s = notify_waiter name ''Job cancelled by user'' False s
               in ((0, CANCELLED, ''Job cancelled successfully''), s)
           | None \<Rightarrow>
               let s = set_status name CANCELLED ''Job cancelled by user'' s;
                   s = notify_waiter name ''Job cancelled by user'' False s
               in ((0, CANCELLED, ''Job cancelled''), s)))"

definition delete_job :: "string \<Rightarrow> ('h, 'p) server \<Rightarrow> (bool \<times> string) \<times> ('h, 'p) server" where
  "delete_job name s =
     (let ((code, _, _), s) = cancel_job name s
      in if code = 1 then ((False, ''Job not found: '' @ name), s)
         else let s = s\<lparr>job_tracker := (job_tracker s)(name := None)\<rparr>;
                  s = s\<lparr>pending_job_data := (pending_job_data s)(name := None),
                        pending_chunked_data := (pending_chunked_data s)(name := None)\<rparr>;
                  s = delete_log_file name s
              in ((True, ''Result deleted''), s))"

section \<open>Workers\<close>

definition claim_job_slot :: "int \<Rightarrow> int \<Rightarrow> ('h, 'p) server \<Rightarrow> (int \<times> ('h, 'p) server) option" where
  "claim_job_slot worker pid s =
     map_option (\<lambda>(slot, queue). (slot, s\<lparr>job_queue := queue\<rparr>)) (claim_ready_job_slot (job_queue s) MAX_JOBS worker pid)"

definition free_result :: "('h, 'p) server \<Rightarrow> nat option" where
  "free_result s = find (\<lambda>j. \<not> result_ready (result_queue s ! j) \<and> \<not> result_claimed (result_queue s ! j)) [0..<MAX_RESULTS]"

definition store_simple_result :: "string \<Rightarrow> int \<Rightarrow> result_status \<Rightarrow> string \<Rightarrow> ('h, 'p) server \<Rightarrow> ('h, 'p) server" where
  "store_simple_result name worker st msg s =
     (case free_result s of
        None \<Rightarrow> s
      | Some j \<Rightarrow> s\<lparr>result_queue := (result_queue s)[j := (result_queue s ! j)\<lparr>result_job_id := copy_cstr 64 name, status := st,
            result_data_size := 0, result_worker_index := worker, error_message := copy_cstr 1024 msg, retrieved := False,
            result_ready := True, result_claimed := False\<rparr>]\<rparr>)"

record 'h solve_result =
  solve_success :: bool
  solve_header :: 'h
  solve_arrays :: arrays
  solve_error_message :: string

definition arrays_size :: "arrays \<Rightarrow> nat" where "arrays_size a = sum_list (map (length \<circ> snd) a)"

text \<open>\<open>routing_bytes\<close> is the size of the routing solution in a header, \<open>write_ok\<close> the outcome of the pipe.\<close>

definition publish_result ::
    "('h \<Rightarrow> nat) \<Rightarrow> bool \<Rightarrow> 'h solve_result \<Rightarrow> string \<Rightarrow> int \<Rightarrow> ('h, 'p) server \<Rightarrow> ('h, 'p) server" where
  "publish_result routing_bytes write_ok sr name worker s =
     (let total = (if solve_success sr then arrays_size (solve_arrays sr) + routing_bytes (solve_header sr) else 0)
      in case free_result s of
           None \<Rightarrow> s
         | Some j \<Rightarrow>
             let r = (result_queue s ! j)\<lparr>result_job_id := copy_cstr 64 name,
                       status := (if solve_success sr then RESULT_SUCCESS else RESULT_ERROR),
                       result_data_size := (if solve_success sr then max total 1 else 0), result_worker_index := worker\<rparr>;
                 r = (if \<not> solve_success sr then r\<lparr>error_message := copy_cstr 1024 (solve_error_message sr)\<rparr> else r);
                 r = r\<lparr>retrieved := False, result_ready := True, result_claimed := False\<rparr>;
                 r = (if solve_success sr \<and> \<not> write_ok
                      then r\<lparr>status := RESULT_ERROR, error_message := copy_cstr 1024 ''Failed to write result to pipe''\<rparr> else r)
             in s\<lparr>result_queue := (result_queue s)[j := r]\<rparr>)"

text \<open>
  The rest of the loop of a worker for a claimed slot. \<open>read\<close> is what it reads from its pipe (\<open>Inl\<close>
  an error message), \<open>solve\<close> the solver.
\<close>

definition worker_job ::
    "('h \<Rightarrow> nat) \<Rightarrow> bool \<Rightarrow> (job_slot \<Rightarrow> string + 'd) \<Rightarrow> (32 word \<Rightarrow> 'd \<Rightarrow> 'h solve_result) \<Rightarrow> int \<Rightarrow> nat
       \<Rightarrow> ('h, 'p) server \<Rightarrow> ('h, 'p) server" where
  "worker_job routing_bytes write_ok read solve worker slot s =
     (let job = job_queue s ! slot; name = job_id job
      in if cancelled job
         then set_job slot reset_job_slot (store_simple_result name worker RESULT_CANCELLED ''Job was cancelled'' s)
         else case read job of
            Inl msg \<Rightarrow>
              set_job slot reset_job_slot
                (store_simple_result name worker RESULT_ERROR (if msg = '''' then ''Failed to read job data'' else msg) s)
          | Inr d \<Rightarrow>
              set_job slot reset_job_slot (publish_result routing_bytes write_ok (solve (problem_category job) d) name worker s))"

definition fail_slot :: "int \<Rightarrow> nat \<Rightarrow> ('h, 'p) server \<Rightarrow> ('h, 'p) server" where
  "fail_slot dead_worker_pid i s =
     (let job = job_queue s ! i
      in if ready job \<and> claimed job \<and> worker_pid job = dead_worker_pid
         then let name = job_id job;
                  was_cancelled = cancelled job;
                  msg = (if was_cancelled then ''Job was cancelled'' else ''Worker process died unexpectedly'');
                  s = s\<lparr>pending_job_data := (pending_job_data s)(name := None)\<rparr>;
                  s = store_simple_result name (- 1) (if was_cancelled then RESULT_CANCELLED else RESULT_ERROR) msg s;
                  s = set_job i reset_job_slot s
              in set_status name (if was_cancelled then CANCELLED else FAILED) msg s
         else s)"

definition mark_worker_jobs_failed :: "int \<Rightarrow> ('h, 'p) server \<Rightarrow> ('h, 'p) server" where
  "mark_worker_jobs_failed dead_worker_pid = fold (fail_slot dead_worker_pid) [0..<MAX_JOBS]"

section \<open>Server threads\<close>

text \<open>One slot in the dispatch loop; the parameters are the outcomes of the pipe writes.\<close>

definition dispatch_slot ::
    "(int \<Rightarrow> bytes \<Rightarrow> bool) \<Rightarrow> (int \<Rightarrow> 'p chunked_upload \<Rightarrow> pipe_write_status) \<Rightarrow> nat \<Rightarrow> ('h, 'p) server \<Rightarrow> ('h, 'p) server" where
  "dispatch_slot send_job_data_pipe write_chunked_request_to_pipe i s =
     (let job = job_queue s ! i; name = job_id job; worker_idx = worker_index job
      in if ready job \<and> claimed job \<and> \<not> data_sent job \<and> \<not> cancelled job \<and> worker_idx \<ge> 0
         then if is_chunked job
              then (case pending_chunked_data s name of
                 None \<Rightarrow> s
               | Some chunked \<Rightarrow>
                   let st = write_chunked_request_to_pipe worker_idx chunked;
                       s = s\<lparr>pending_chunked_data := (pending_chunked_data s)(name := None)\<rparr>;
                       s = (if st = PipeFailed \<and> worker_pid job > 0 then s\<lparr>killed := worker_pid job # killed s\<rparr> else s)
                   in set_job i (\<lambda>job. if st = Success then job\<lparr>data_sent := True\<rparr> else job\<lparr>cancelled := True\<rparr>) s)
              else (case pending_job_data s name of
                 None \<Rightarrow> s
               | Some job_data \<Rightarrow>
                   let s = s\<lparr>pending_job_data := (pending_job_data s)(name := None)\<rparr>
                   in set_job i (\<lambda>job. if send_job_data_pipe worker_idx job_data then job\<lparr>data_sent := True\<rparr> else job\<lparr>cancelled := True\<rparr>) s)
         else s)"

definition dispatch_jobs ::
    "(int \<Rightarrow> bytes \<Rightarrow> bool) \<Rightarrow> (int \<Rightarrow> 'p chunked_upload \<Rightarrow> pipe_write_status) \<Rightarrow> ('h, 'p) server \<Rightarrow> ('h, 'p) server" where
  "dispatch_jobs send write_chunked = fold (dispatch_slot send write_chunked) [0..<MAX_JOBS]"

text \<open>One slot in the retrieval loop; \<open>read\<close> is what the pipe of a worker yields.\<close>

definition retrieve_result :: "'h \<Rightarrow> (int \<Rightarrow> ('h \<times> arrays) option) \<Rightarrow> nat \<Rightarrow> ('h, 'p) server \<Rightarrow> ('h, 'p) server" where
  "retrieve_result no_header read i s =
     (let r = result_queue s ! i
      in if result_ready r \<and> \<not> retrieved r
         then let name = result_job_id r;
                  outcome = (if status r = RESULT_SUCCESS
                             then if result_data_size r > 0
                                  then (case read (result_worker_index r) of
                                          None \<Rightarrow> Inl ''Failed to read result data from pipe'' | Some d \<Rightarrow> Inr d)
                                  else Inr (no_header, [])
                             else Inl (error_message r));
                  s = (case job_tracker s name of
                         None \<Rightarrow> s
                       | Some info \<Rightarrow>
                           s\<lparr>job_tracker := (job_tracker s)(name \<mapsto>
                             (case outcome of
                                Inr (hdr, arrs) \<Rightarrow>
                                  info\<lparr>info_status := COMPLETED, result_header := hdr, result_arrays := arrs, result_size_bytes := arrays_size arrs\<rparr>
                              | Inl msg \<Rightarrow>
                                  info\<lparr>info_status := (if status r = RESULT_CANCELLED then CANCELLED else FAILED), info_error_message := msg\<rparr>))\<rparr>);
                  s = notify_waiter name (case outcome of Inl msg \<Rightarrow> msg | Inr _ \<Rightarrow> '''') (case outcome of Inl _ \<Rightarrow> False | Inr _ \<Rightarrow> True) s
              in s\<lparr>result_queue := (result_queue s)[i := r\<lparr>retrieved := True, result_worker_index := - 1, result_claimed := False, result_ready := False\<rparr>]\<rparr>
         else s)"

definition retrieve_results :: "'h \<Rightarrow> (int \<Rightarrow> ('h \<times> arrays) option) \<Rightarrow> ('h, 'p) server \<Rightarrow> ('h, 'p) server" where
  "retrieve_results no_header read = fold (retrieve_result no_header read) [0..<MAX_RESULTS]"

definition store_incumbent :: "string \<Rightarrow> incumbent_entry \<Rightarrow> ('h, 'p) server \<Rightarrow> ('h, 'p) server" where
  "store_incumbent name entry s =
     (if name = '''' then s
      else s\<lparr>job_tracker := (job_tracker s)(name := map_option (\<lambda>info. info\<lparr>incumbents := incumbents info @ [entry]\<rparr>) (job_tracker s name))\<rparr>)"

definition cancel_all_active_jobs_for_shutdown :: "('h, 'p) server \<Rightarrow> ('h, 'p) server" where
  "cancel_all_active_jobs_for_shutdown s =
     s\<lparr>job_queue := map (\<lambda>job. if ready job then job\<lparr>cancelled := True\<rparr> else job) (job_queue s),
       job_tracker := (\<lambda>name. map_option (\<lambda>info. if info_status info = QUEUED \<or> info_status info = PROCESSING
           then info\<lparr>info_status := CANCELLED, info_error_message := ''Server shutting down''\<rparr> else info) (job_tracker s name)),
       waiters := (\<lambda>w. if w \<in> ran (waiting_threads s)
           then (waiters s w)\<lparr>waiter_error_message := ''Server shutting down'', waiter_success := False, waiter_ready := True\<rparr> else waiters s w),
       waiting_threads := Map.empty\<rparr>"

end
