(* ===== verification/Grpc_Service.thy ===== *)
theory Grpc_Service
  imports Grpc_Jobs
begin

text \<open>
  What the job management of the server guarantees: jobs are not lost, requests are served in the
  order of submission, and the effects of cancellation and deletion.
\<close>

section \<open>Reachable states of the server\<close>

text \<open>Identifiers are lower-case UUID strings: 36 characters, none of them NUL.\<close>

definition uuid_string :: "string \<Rightarrow> bool" where "uuid_string name \<longleftrightarrow> length name = 36 \<and> CHR 0x00 \<notin> set name"

definition unused :: "string \<Rightarrow> ('h, 'p) server \<Rightarrow> bool" where
  "unused name s \<longleftrightarrow> job_tracker s name = None \<and> (\<forall>job \<in> set (job_queue s). job_id job \<noteq> name)
     \<and> (\<forall>r \<in> set (result_queue s). result_job_id r \<noteq> name)"

text \<open>
  The steps: requests of clients with fresh identifiers, a worker that claims, works on a slot it
  has claimed and stores its result in a free slot, the death of a worker, the passes of the
  server threads and the shutdown. A step that stores the result of a job has a free result slot.
\<close>

inductive server_run :: "('h, 'p) server \<Rightarrow> bool" where
  start: "server_run initial_server"
| submit: "server_run s \<Longrightarrow> uuid_string name \<Longrightarrow> unused name s \<Longrightarrow> enqueue_counter s \<noteq> - 1 \<Longrightarrow>
     server_run (snd (submit_job_async header name now data category s))"
| submit_chunked: "server_run s \<Longrightarrow> uuid_string name \<Longrightarrow> unused name s \<Longrightarrow> enqueue_counter s \<noteq> - 1 \<Longrightarrow>
     server_run (snd (submit_chunked_job_async header name now chunked category s))"
| check: "server_run s \<Longrightarrow> server_run (snd (check_job_status name s))"
| cancel: "server_run s \<Longrightarrow> server_run (snd (cancel_job name s))"
| delete: "server_run s \<Longrightarrow> server_run (snd (delete_job name s))"
| claim: "server_run s \<Longrightarrow> claim_job_slot worker pid s = Some (slot, s') \<Longrightarrow> server_run s'"
| job: "server_run s \<Longrightarrow> slot < MAX_JOBS \<Longrightarrow> ready (job_queue s ! slot) \<Longrightarrow> claimed (job_queue s ! slot) \<Longrightarrow> free_result s \<noteq> None \<Longrightarrow>
     server_run (worker_job routing_bytes write_ok (read :: job_slot \<Rightarrow> string + bytes) solve worker slot s)"
| die: "server_run s \<Longrightarrow> slot < MAX_JOBS \<Longrightarrow> server_run (fail_slot pid slot s)"
| dispatch: "server_run s \<Longrightarrow> slot < MAX_JOBS \<Longrightarrow> server_run (dispatch_slot send write_chunked slot s)"
| retrieve: "server_run s \<Longrightarrow> slot < MAX_RESULTS \<Longrightarrow> server_run (retrieve_result no_header pipe slot s)"
| incumbent: "server_run s \<Longrightarrow> server_run (store_incumbent name entry s)"
| shutdown: "server_run s \<Longrightarrow> server_run (cancel_all_active_jobs_for_shutdown s)"

definition active :: "'h job_info \<Rightarrow> bool" where
  "active info \<longleftrightarrow> info_status info = QUEUED \<or> info_status info = PROCESSING"

definition in_slot :: "string \<Rightarrow> ('h, 'p) server \<Rightarrow> bool" where
  "in_slot name s \<longleftrightarrow> (\<exists>i < MAX_JOBS. ready (job_queue s ! i) \<and> job_id (job_queue s ! i) = name)"

definition in_results :: "string \<Rightarrow> ('h, 'p) server \<Rightarrow> bool" where
  "in_results name s \<longleftrightarrow> (\<exists>j < MAX_RESULTS. result_ready (result_queue s ! j) \<and> \<not> retrieved (result_queue s ! j) \<and> result_job_id (result_queue s ! j) = name)"

definition no_job_lost :: "('h, 'p) server \<Rightarrow> bool" where
  "no_job_lost s \<longleftrightarrow> (\<forall>name info. job_tracker s name = Some info \<and> active info \<longrightarrow> in_slot name s \<or> in_results name s)"

definition slots_ok :: "('h, 'p) server \<Rightarrow> bool" where
  "slots_ok s \<longleftrightarrow> length (job_queue s) = MAX_JOBS \<and> length (result_queue s) = MAX_RESULTS \<and> 0 < enqueue_counter s
     \<and> (\<forall>i < MAX_JOBS. ready (job_queue s ! i) \<longrightarrow> uuid_string (job_id (job_queue s ! i)) \<and> enqueue_seq (job_queue s ! i) \<noteq> 0
          \<and> enqueue_seq (job_queue s ! i) < enqueue_counter s)
     \<and> (\<forall>i < MAX_JOBS. \<forall>j < MAX_JOBS. i \<noteq> j \<longrightarrow> ready (job_queue s ! i) \<longrightarrow> ready (job_queue s ! j) \<longrightarrow>
          enqueue_seq (job_queue s ! i) \<noteq> enqueue_seq (job_queue s ! j) \<and> job_id (job_queue s ! i) \<noteq> job_id (job_queue s ! j))"

lemma slots_okD:
  assumes "slots_ok s"
  shows "length (job_queue s) = MAX_JOBS" "length (result_queue s) = MAX_RESULTS" "0 < enqueue_counter s"
    "i < MAX_JOBS \<Longrightarrow> ready (job_queue s ! i) \<Longrightarrow> uuid_string (job_id (job_queue s ! i)) \<and> enqueue_seq (job_queue s ! i) \<noteq> 0
       \<and> enqueue_seq (job_queue s ! i) < enqueue_counter s"
    "i < MAX_JOBS \<Longrightarrow> j < MAX_JOBS \<Longrightarrow> i \<noteq> j \<Longrightarrow> ready (job_queue s ! i) \<Longrightarrow> ready (job_queue s ! j) \<Longrightarrow>
       enqueue_seq (job_queue s ! i) \<noteq> enqueue_seq (job_queue s ! j) \<and> job_id (job_queue s ! i) \<noteq> job_id (job_queue s ! j)"
  using assms unfolding slots_ok_def by blast+

lemma uuid_copy [simp]: "uuid_string name \<Longrightarrow> c_str name = name" "uuid_string name \<Longrightarrow> copy_cstr 64 name = name"
proof -
  show c: "c_str name = name" if "uuid_string name" using that by (auto simp: uuid_string_def c_str_def takeWhile_eq_all_conv)
  show "copy_cstr 64 name = name" if "uuid_string name" using c [OF that] that by (simp add: uuid_string_def copy_cstr_def)
qed

lemma find_upt:
  "find P [0..<n] = Some i \<Longrightarrow> i < n \<and> P i" "find P [0..<n] = None \<Longrightarrow> i < n \<Longrightarrow> \<not> P i"
  by (auto simp: find_Some_iff find_None_iff)

section \<open>Operations that keep the slots\<close>

text \<open>Tickets, names and readiness of the slots and the results stay.\<close>

definition kept :: "('h, 'p) server \<Rightarrow> ('h, 'p) server \<Rightarrow> bool" where
  "kept s s' \<longleftrightarrow> length (job_queue s') = length (job_queue s) \<and> enqueue_counter s' = enqueue_counter s \<and> result_queue s' = result_queue s
     \<and> (\<forall>i < length (job_queue s). ready (job_queue s' ! i) = ready (job_queue s ! i) \<and> job_id (job_queue s' ! i) = job_id (job_queue s ! i)
          \<and> enqueue_seq (job_queue s' ! i) = enqueue_seq (job_queue s ! i))"

text \<open>No job becomes active.\<close>

definition settles :: "('h, 'p) server \<Rightarrow> ('h, 'p) server \<Rightarrow> bool" where
  "settles s s' \<longleftrightarrow> (\<forall>name info. job_tracker s' name = Some info \<and> active info \<longrightarrow> (\<exists>info. job_tracker s name = Some info \<and> active info))"

lemma kept_ok: "kept s s' \<Longrightarrow> slots_ok s \<Longrightarrow> slots_ok s'"
  by (simp add: kept_def slots_ok_def)

lemma kept_no_job_lost: "kept s s' \<Longrightarrow> settles s s' \<Longrightarrow> slots_ok s \<Longrightarrow> no_job_lost s \<Longrightarrow> no_job_lost s'"
  unfolding no_job_lost_def settles_def kept_def in_slot_def in_results_def slots_ok_def by metis

lemma notify_waiter_simps [simp]:
  "job_queue (notify_waiter name msg b s) = job_queue s" "result_queue (notify_waiter name msg b s) = result_queue s"
  "enqueue_counter (notify_waiter name msg b s) = enqueue_counter s" "job_tracker (notify_waiter name msg b s) = job_tracker s"
  "pending_job_data (notify_waiter name msg b s) = pending_job_data s" "pending_chunked_data (notify_waiter name msg b s) = pending_chunked_data s"
  "log_files (notify_waiter name msg b s) = log_files s" "killed (notify_waiter name msg b s) = killed s"
  by (simp_all add: notify_waiter_def split: option.splits)

lemma check_kept: "kept s (snd (check_job_status name s))" "settles s (snd (check_job_status name s))"
  by (auto simp: check_job_status_def kept_def settles_def active_def Let_def split: option.splits if_splits)

lemma cancel_kept: "kept s (snd (cancel_job name s))" "settles s (snd (cancel_job name s))"
  by (auto simp: cancel_job_def kept_def settles_def active_def Let_def set_job_def set_status_def delete_log_file_def update_nth
      split: option.splits if_splits)

lemma delete_kept: "kept s (snd (delete_job name s))" "settles s (snd (delete_job name s))"
  using cancel_kept [of s name]
  by (auto simp: delete_job_def kept_def settles_def Let_def delete_log_file_def split: prod.splits if_splits)

lemma dispatch_kept: "kept s (dispatch_slot send write_chunked i s)" "settles s (dispatch_slot send write_chunked i s)"
  by (auto simp: dispatch_slot_def kept_def settles_def Let_def set_job_def update_nth split: option.splits if_splits)

lemma incumbent_kept: "kept s (store_incumbent name entry s)" "settles s (store_incumbent name entry s)"
  by (auto simp: store_incumbent_def kept_def settles_def active_def split: if_splits)

lemma shutdown_kept: "kept s (cancel_all_active_jobs_for_shutdown s)" "settles s (cancel_all_active_jobs_for_shutdown s)"
  by (auto simp: cancel_all_active_jobs_for_shutdown_def kept_def settles_def active_def split: if_splits)

text \<open>The claim, from the properties of the scan.\<close>

lemma claim_job_slot_cases:
  assumes "slots_ok s"
  obtains (none) "\<forall>i < MAX_JOBS. \<not> dispatchable (job_queue s ! i)" "claim_job_slot worker pid s = Some (- 1, s)"
  | (some) b where "b < MAX_JOBS" "dispatchable (job_queue s ! b)"
      "\<forall>i < MAX_JOBS. dispatchable (job_queue s ! i) \<longrightarrow> enqueue_seq (job_queue s ! b) \<le> enqueue_seq (job_queue s ! i)"
      "claim_job_slot worker pid s =
         Some (int b, set_job b (\<lambda>job. job\<lparr>claimed := True, worker_pid := pid, worker_index := worker\<rparr>) s)"
proof -
  have len: "MAX_JOBS \<le> length (job_queue s)" using slots_okD(1) [OF assms] by simp
  obtain r q where r: "scan_slots (job_queue s) MAX_JOBS = (r, q)" by fastforce
  show ?thesis
    using scan_slots_best [OF len] claim_alone [OF len, of worker pid] r that
    by (cases r) (auto simp: claim_job_slot_def set_job_def)
qed

lemma claim_kept:
  assumes "slots_ok s" "claim_job_slot worker pid s = Some (slot, s')"
  shows "kept s s' \<and> settles s s'"
proof (cases rule: claim_job_slot_cases [OF assms(1), of worker pid])
  case 1
  show ?thesis using assms(2) 1(2) by (simp add: kept_def settles_def)
next
  case (2 b)
  show ?thesis using assms(2) 2(4) by (auto simp: kept_def settles_def set_job_def update_nth split: if_splits)
qed

section \<open>Operations that fill or empty a slot\<close>

definition accepted :: "string \<Rightarrow> nat \<Rightarrow> ('h, 'p) server \<Rightarrow> ('h, 'p) server \<Rightarrow> bool" where
  "accepted name slot s s' \<longleftrightarrow> slot < MAX_JOBS \<and> \<not> ready (job_queue s ! slot)
     \<and> job_queue s' = (job_queue s)[slot := job_queue s' ! slot] \<and> result_queue s' = result_queue s \<and> enqueue_counter s' = enqueue_counter s + 1
     \<and> (\<forall>other. other \<noteq> name \<longrightarrow> job_tracker s' other = job_tracker s other) \<and> map_option info_status (job_tracker s' name) = Some QUEUED
     \<and> job_id (job_queue s' ! slot) = name \<and> ready (job_queue s' ! slot) \<and> \<not> claimed (job_queue s' ! slot)
     \<and> \<not> cancelled (job_queue s' ! slot) \<and> enqueue_seq (job_queue s' ! slot) = enqueue_counter s"

lemma submit_accepted:
  assumes "reserve_slot s = Some slot" "slots_ok s" "uuid_string name"
  shows "fst (submit_job_async header name now data category s) = (True, name)"
    "accepted name slot s (snd (submit_job_async header name now data category s))"
    "fst (submit_chunked_job_async header name now chunked category s) = (True, name)"
    "accepted name slot s (snd (submit_chunked_job_async header name now chunked category s))"
  using assms(1,3) slots_okD(1) [OF assms(2)] find_upt(1) [OF assms(1) [unfolded reserve_slot_def]]
  by (auto simp: accepted_def submit_job_async_def submit_chunked_job_async_def Let_def set_job_def create_job_log_file_def
      publish_ready_job_slot_def queued_info_def)

lemma submit_full:
  assumes "reserve_slot s = None"
  shows "submit_job_async header name now data category s = ((False, ''Job queue full''), s)"
    "submit_chunked_job_async header name now chunked category s = ((False, ''Job queue full''), s)"
  using assms by (simp_all add: submit_job_async_def submit_chunked_job_async_def)

lemma accepted_ok:
  assumes a: "accepted name slot s s'" and ok: "slots_ok s" and n: "uuid_string name" "unused name s" and wrap: "enqueue_counter s \<noteq> - 1"
  shows "slots_ok s'"
proof -
  note d = slots_okD [OF ok] and nt = next_ticket [OF wrap]
  have at: "job_queue s' ! i = (if i = slot then job_queue s' ! slot else job_queue s ! i)" for i
    using a unfolding accepted_def by (metis nth_list_update_neq)
  have fresh: "job_id (job_queue s ! i) \<noteq> name" if "i < MAX_JOBS" for i using n(2) d(1) that by (simp add: unused_def)
  have lt: "q < enqueue_counter s'" if "q < enqueue_counter s \<or> q = enqueue_counter s" for q
    using that nt a by (auto simp: accepted_def)
  have "length (job_queue s') = MAX_JOBS" using a d(1) unfolding accepted_def by (metis length_list_update)
  moreover have "ready (job_queue s' ! i) \<longrightarrow> uuid_string (job_id (job_queue s' ! i)) \<and> enqueue_seq (job_queue s' ! i) \<noteq> 0
       \<and> enqueue_seq (job_queue s' ! i) < enqueue_counter s'" if "i < MAX_JOBS" for i
    using at [of i] a d(3) d(4) [OF that] n(1) lt by (cases "i = slot") (auto simp: accepted_def)
  moreover have "enqueue_seq (job_queue s' ! i) \<noteq> enqueue_seq (job_queue s' ! j) \<and> job_id (job_queue s' ! i) \<noteq> job_id (job_queue s' ! j)"
    if "i < MAX_JOBS" "j < MAX_JOBS" "i \<noteq> j" "ready (job_queue s' ! i)" "ready (job_queue s' ! j)" for i j
    using at [of i] at [of j] a d(4,5) that fresh [of i] fresh [of j] unfolding accepted_def by (metis less_irrefl)
  moreover have "length (result_queue s') = MAX_RESULTS" "0 < enqueue_counter s'" using a d(2) nt(3) by (simp_all add: accepted_def)
  ultimately show ?thesis unfolding slots_ok_def by blast
qed

lemma accepted_no_job_lost:
  assumes a: "accepted name slot s s'" and "no_job_lost s"
  shows "no_job_lost s'"
proof -
  have at: "job_queue s' ! i = (if i = slot then job_queue s' ! slot else job_queue s ! i)" for i
    using a unfolding accepted_def by (metis nth_list_update_neq)
  have "in_slot other s'" if "in_slot other s" for other
    using that a at unfolding in_slot_def accepted_def by metis
  moreover have "in_results other s'" if "in_results other s" for other using that a by (simp add: in_results_def accepted_def)
  moreover have "in_slot name s'" using a by (auto simp: in_slot_def accepted_def)
  ultimately show ?thesis using assms(2) a unfolding no_job_lost_def accepted_def by metis
qed

text \<open>A result is stored for a job, or nothing happens because no slot is free.\<close>

definition result_stored :: "string \<Rightarrow> ('h, 'p) server \<Rightarrow> ('h, 'p) server \<Rightarrow> bool" where
  "result_stored name s s' \<longleftrightarrow> job_queue s' = job_queue s \<and> enqueue_counter s' = enqueue_counter s \<and> job_tracker s' = job_tracker s
     \<and> length (result_queue s') = length (result_queue s)
     \<and> (\<forall>other. in_results other s \<longrightarrow> in_results other s') \<and> (free_result s \<noteq> None \<longrightarrow> in_results name s')"

lemma result_storedI:
  assumes "length (result_queue s) = MAX_RESULTS" "free_result s = Some j" "result_ready r" "\<not> retrieved r" "result_job_id r = name"
  shows "result_stored name s (s\<lparr>result_queue := (result_queue s)[j := r]\<rparr>)"
proof -
  note f = find_upt(1) [OF assms(2) [unfolded free_result_def]]
  have "in_results other (s\<lparr>result_queue := (result_queue s)[j := r]\<rparr>)" if "in_results other s" for other
    using that f unfolding in_results_def by (simp, metis nth_list_update_neq)
  then show ?thesis using assms f by (auto simp: result_stored_def in_results_def)
qed

lemma result_stored_full: "free_result s = None \<Longrightarrow> result_stored name s s"
  by (simp add: result_stored_def)

lemma store_simple_result_stored:
  assumes "length (result_queue s) = MAX_RESULTS" "uuid_string name"
  shows "result_stored name s (store_simple_result name worker st msg s)"
  using assms by (auto simp: store_simple_result_def intro!: result_storedI result_stored_full split: option.splits)

lemma publish_result_stored:
  assumes "length (result_queue s) = MAX_RESULTS" "uuid_string name"
  shows "result_stored name s (publish_result routing_bytes write_ok sr name worker s)"
  using assms by (auto simp: publish_result_def Let_def intro!: result_storedI result_stored_full split: option.splits)

text \<open>The release of a slot after its result was stored.\<close>

definition released :: "nat \<Rightarrow> ('h, 'p) server \<Rightarrow> ('h, 'p) server \<Rightarrow> bool" where
  "released slot s s' \<longleftrightarrow> (\<exists>s1. result_stored (job_id (job_queue s ! slot)) s s1 \<and> job_queue s' = (job_queue s)[slot := reset_job_slot (job_queue s ! slot)]
     \<and> result_queue s' = result_queue s1 \<and> enqueue_counter s' = enqueue_counter s)"

lemma released_ok:
  assumes "released slot s s'" "slots_ok s"
  shows "slots_ok s'"
  using assms unfolding released_def result_stored_def slots_ok_def by (auto simp: update_nth reset_job_slot_def split: if_splits)

lemma released_holds:
  assumes "released slot s s'" "slots_ok s" "slot < MAX_JOBS" "in_slot name s \<or> in_results name s"
    "name \<noteq> job_id (job_queue s ! slot) \<or> free_result s \<noteq> None"
  shows "in_slot name s' \<or> in_results name s'"
proof -
  obtain s1 where s1: "result_stored (job_id (job_queue s ! slot)) s s1" "job_queue s' = (job_queue s)[slot := reset_job_slot (job_queue s ! slot)]"
    "result_queue s' = result_queue s1" using assms(1) by (auto simp: released_def)
  have r: "in_results other s' = in_results other s1" for other using s1(3) by (simp add: in_results_def)
  consider (slot) "in_slot name s" "name \<noteq> job_id (job_queue s ! slot)" | (own) "name = job_id (job_queue s ! slot)" "free_result s \<noteq> None"
    | (res) "in_results name s" using assms(4,5) by blast
  then show ?thesis
  proof cases
    case slot
    then have "in_slot name s'" using s1(2) unfolding in_slot_def by (metis nth_list_update_neq)
    then show ?thesis by blast
  qed (use s1(1) r in \<open>auto simp: result_stored_def\<close>)
qed

lemma reset_released:
  assumes "result_stored (job_id (job_queue s ! slot)) s s1"
  shows "released slot s (set_job slot reset_job_slot s1)" "job_tracker (set_job slot reset_job_slot s1) = job_tracker s"
proof -
  have "job_queue s1 = job_queue s" "enqueue_counter s1 = enqueue_counter s" "job_tracker s1 = job_tracker s" using assms by (auto simp: result_stored_def)
  then show "released slot s (set_job slot reset_job_slot s1)" "job_tracker (set_job slot reset_job_slot s1) = job_tracker s"
    using assms by (auto simp: released_def set_job_def)
qed

lemma worker_job_released:
  assumes "slots_ok s" "slot < MAX_JOBS" "ready (job_queue s ! slot)"
  shows "released slot s (worker_job routing_bytes write_ok read solve worker slot s)
     \<and> job_tracker (worker_job routing_bytes write_ok read solve worker slot s) = job_tracker s"
proof -
  have u: "uuid_string (job_id (job_queue s ! slot))" and len: "length (result_queue s) = MAX_RESULTS"
    using slots_okD(2,4) [OF assms(1)] assms(2,3) by blast+
  show ?thesis
    unfolding worker_job_def Let_def
    using reset_released [OF store_simple_result_stored [OF len u]] reset_released [OF publish_result_stored [OF len u]]
    by (auto split: sum.splits)
qed

lemma released_no_job_lost:
  assumes "released slot s s'" "slots_ok s" "slot < MAX_JOBS" "free_result s \<noteq> None" "job_tracker s' = job_tracker s" "no_job_lost s"
  shows "no_job_lost s'"
  using released_holds [OF assms(1-3)] assms(4-6) unfolding no_job_lost_def by metis

lemma fail_slot_ok:
  assumes ok: "slots_ok s" and slot: "slot < MAX_JOBS" and lost: "no_job_lost s"
  shows "slots_ok (fail_slot pid slot s) \<and> no_job_lost (fail_slot pid slot s)"
proof (cases "ready (job_queue s ! slot) \<and> claimed (job_queue s ! slot) \<and> worker_pid (job_queue s ! slot) = pid")
  case True
  let ?name = "job_id (job_queue s ! slot)" and ?s0 = "s\<lparr>pending_job_data := (pending_job_data s)(job_id (job_queue s ! slot) := None)\<rparr>"
  let ?c = "cancelled (job_queue s ! slot)"
  let ?msg = "if ?c then ''Job was cancelled'' else ''Worker process died unexpectedly''"
  let ?s1 = "set_job slot reset_job_slot (store_simple_result ?name (- 1) (if ?c then RESULT_CANCELLED else RESULT_ERROR) ?msg ?s0)"
  let ?s2 = "set_status ?name (if ?c then CANCELLED else FAILED) ?msg ?s1"
  have f: "fail_slot pid slot s = ?s2" using True by (simp add: fail_slot_def Let_def)
  have ok0: "slots_ok ?s0" using ok by (simp add: slots_ok_def)
  have u: "uuid_string ?name" "length (result_queue ?s0) = MAX_RESULTS" using slots_okD(2,4) [OF ok] slot True by auto
  have r: "released slot ?s0 ?s1" "job_tracker ?s1 = job_tracker s"
    using reset_released [where s = ?s0 and slot = slot] store_simple_result_stored [OF u(2,1)] by simp_all
  have ok1: "slots_ok ?s1" by (rule released_ok [OF r(1) ok0])
  have "in_slot name ?s2 \<or> in_results name ?s2" if t: "job_tracker ?s2 name = Some info" "active info" for name info
  proof -
    have ne: "name \<noteq> ?name" using t by (auto simp: set_status_def active_def split: if_splits)
    then have "job_tracker s name = Some info" using t r(2) by (simp add: set_status_def)
    then have "in_slot name ?s0 \<or> in_results name ?s0" using lost t(2) by (auto simp: no_job_lost_def in_slot_def in_results_def)
    from released_holds [OF r(1) ok0 slot this] ne show ?thesis by (simp add: in_slot_def in_results_def set_status_def)
  qed
  moreover have "slots_ok ?s2" using ok1 by (simp add: slots_ok_def set_status_def)
  ultimately show ?thesis unfolding f no_job_lost_def by blast
next
  case False
  then show ?thesis using ok lost by (auto simp: fail_slot_def Let_def)
qed

lemma retrieve_result_ok:
  assumes ok: "slots_ok s" and slot: "slot < MAX_RESULTS" and lost: "no_job_lost s"
  shows "slots_ok (retrieve_result no_header pipe slot s) \<and> no_job_lost (retrieve_result no_header pipe slot s)"
proof (cases "result_ready (result_queue s ! slot) \<and> \<not> retrieved (result_queue s ! slot)")
  case True
  let ?s = "retrieve_result no_header pipe slot s" and ?name = "result_job_id (result_queue s ! slot)"
  let ?r = "(result_queue s ! slot)\<lparr>retrieved := True, result_worker_index := - 1, result_claimed := False, result_ready := False\<rparr>"
  have r: "result_queue ?s = (result_queue s)[slot := ?r]" "job_queue ?s = job_queue s" "enqueue_counter ?s = enqueue_counter s"
    using True by (simp_all add: retrieve_result_def Let_def split: option.splits)
  have t: "job_tracker ?s other = job_tracker s other" if "other \<noteq> ?name" for other
    using True that by (simp add: retrieve_result_def Let_def split: option.splits)
  have settled: "\<not> active info" if "job_tracker ?s ?name = Some info" for info
    using True that by (auto simp: retrieve_result_def Let_def active_def split: option.splits sum.splits prod.splits if_splits)
  have "in_slot name ?s \<or> in_results name ?s" if "job_tracker ?s name = Some info" "active info" for name info
  proof -
    have ne: "name \<noteq> ?name" using settled that by blast
    then have "in_slot name s \<or> in_results name s" using lost that t unfolding no_job_lost_def by metis
    moreover have "in_results name ?s" if "in_results name s" using that ne r(1) unfolding in_results_def by (metis nth_list_update_neq)
    ultimately show ?thesis using r(2) by (auto simp: in_slot_def)
  qed
  then show ?thesis using ok r unfolding no_job_lost_def slots_ok_def by simp
next
  case False
  then show ?thesis using ok lost by (auto simp: retrieve_result_def Let_def)
qed

lemma kept_both: "kept s s' \<Longrightarrow> settles s s' \<Longrightarrow> slots_ok s \<and> no_job_lost s \<Longrightarrow> slots_ok s' \<and> no_job_lost s'"
  using kept_ok kept_no_job_lost by blast

lemma server_run_ok: "server_run s \<Longrightarrow> slots_ok s \<and> no_job_lost s"
proof (induction rule: server_run.induct)
  case start
  show ?case by (auto simp: initial_server_def slots_ok_def no_job_lost_def empty_slot_def)
next
  case (submit s name header now data category)
  show ?case
  proof (cases "reserve_slot s")
    case None
    show ?thesis using submit.IH by (simp add: submit_full(1) [OF None])
  next
    case (Some slot)
    have ok: "slots_ok s" "no_job_lost s" using submit.IH by simp_all
    note a = submit_accepted(2) [OF Some ok(1) submit.hyps(2)]
    show ?thesis using accepted_ok [OF a ok(1) submit.hyps(2-4)] accepted_no_job_lost [OF a ok(2)] by blast
  qed
next
  case (submit_chunked s name header now chunked category)
  show ?case
  proof (cases "reserve_slot s")
    case None
    show ?thesis using submit_chunked.IH by (simp add: submit_full(2) [OF None])
  next
    case (Some slot)
    have ok: "slots_ok s" "no_job_lost s" using submit_chunked.IH by simp_all
    note a = submit_accepted(4) [OF Some ok(1) submit_chunked.hyps(2)]
    show ?thesis using accepted_ok [OF a ok(1) submit_chunked.hyps(2-4)] accepted_no_job_lost [OF a ok(2)] by blast
  qed
next
  case (claim s worker pid slot s')
  then show ?case using claim_kept [of s] kept_both [of s s'] by auto
next
  case (job s slot routing_bytes write_ok read solve worker)
  have ok: "slots_ok s" "no_job_lost s" using job.IH by simp_all
  note r = worker_job_released [OF ok(1) job.hyps(2,3)]
  show ?case using released_ok [OF conjunct1 [OF r] ok(1)]
      released_no_job_lost [OF conjunct1 [OF r] ok(1) job.hyps(2,5) conjunct2 [OF r] ok(2)] by (rule conjI)
next
  case (die s slot pid)
  then show ?case by (simp add: fail_slot_ok)
next
  case (retrieve s slot no_header pipe)
  then show ?case by (simp add: retrieve_result_ok)
qed (erule kept_both [OF check_kept] kept_both [OF cancel_kept] kept_both [OF delete_kept] kept_both [OF dispatch_kept]
      kept_both [OF incumbent_kept] kept_both [OF shutdown_kept])+


text \<open>A server that has accepted one job.\<close>

definition first_job :: string where "first_job = ''01234567-89ab-4cde-8f01-23456789abcd''"

definition one_job :: "(unit, unit) server" where
  "one_job = snd (submit_job_async () first_job 0 [1, 2, 3] 1 initial_server)"

lemma first_job_uuid: "uuid_string first_job"
  by (simp add: uuid_string_def first_job_def)

lemma reserve_initial: "reserve_slot initial_server = Some 0"
  by (simp add: reserve_slot_def initial_server_def MAX_JOBS_def upt_conv_Cons empty_slot_def)

lemma one_job_run: "server_run one_job"
  unfolding one_job_def
  by (rule server_run.submit [OF server_run.start first_job_uuid])
    (simp_all add: unused_def initial_server_def empty_slot_def empty_result_def first_job_def)

lemma one_job_accepted: "accepted first_job 0 initial_server one_job"
proof -
  have "server_run (initial_server :: (unit, unit) server)" by (rule server_run.start)
  then have "slots_ok (initial_server :: (unit, unit) server)" using server_run_ok by blast
  from submit_accepted(2) [OF reserve_initial this first_job_uuid] show ?thesis by (simp add: one_job_def)
qed


text \<open>A job whose worker finds every result slot taken is in no slot and has no result, and its record stays as it was.\<close>

lemma full_result_queue_loses_job:
  assumes ok: "slots_ok s" and slot: "slot < MAX_JOBS" "ready (job_queue s ! slot)" and full: "free_result s = None"
    and none: "\<not> in_results (job_id (job_queue s ! slot)) s"
  shows "job_tracker (worker_job routing_bytes write_ok read solve worker slot s) = job_tracker s
     \<and> \<not> in_slot (job_id (job_queue s ! slot)) (worker_job routing_bytes write_ok read solve worker slot s)
     \<and> \<not> in_results (job_id (job_queue s ! slot)) (worker_job routing_bytes write_ok read solve worker slot s)"
proof -
  have w: "worker_job routing_bytes write_ok read solve worker slot s = set_job slot reset_job_slot s"
    using full by (simp add: worker_job_def store_simple_result_def publish_result_def Let_def split: sum.splits)
  have "\<not> in_slot (job_id (job_queue s ! slot)) (set_job slot reset_job_slot s)"
    using slots_okD(1) [OF ok] slots_okD(5) [OF ok] slot
    unfolding in_slot_def set_job_def by (auto simp: update_nth reset_job_slot_def split: if_splits)
  then show ?thesis using none unfolding w by (simp add: set_job_def in_results_def)
qed

section \<open>Service in the order of submission\<close>

definition waiting_tickets :: "('h, 'p) server \<Rightarrow> 64 word set" where
  "waiting_tickets s = {q. \<exists>i < MAX_JOBS. dispatchable (job_queue s ! i) \<and> enqueue_seq (job_queue s ! i) = q}"

text \<open>The abstract queue: the tickets of the jobs that wait, in order.\<close>

definition fifo :: "('h, 'p) server \<Rightarrow> 64 word list" where "fifo s = sorted_list_of_set (waiting_tickets s)"

lemma waiting_finite [simp]: "finite (waiting_tickets s)"
proof -
  have "waiting_tickets s \<subseteq> (\<lambda>i. enqueue_seq (job_queue s ! i)) ` {..<MAX_JOBS}" by (auto simp: waiting_tickets_def)
  then show ?thesis using finite_subset by blast
qed

lemma sorted_list_snoc:
  assumes "finite W" "\<forall>x \<in> W. x < (c :: 'a :: linorder)"
  shows "sorted_list_of_set (insert c W) = sorted_list_of_set W @ [c]"
  by (rule sorted_distinct_set_unique) (use assms in \<open>auto simp: sorted_append less_imp_le simp del: sorted_list_of_set_insert_remove\<close>)

lemma sorted_list_min:
  assumes "finite W" "c \<in> W" "\<forall>x \<in> W. (c :: 'a :: linorder) \<le> x"
  shows "sorted_list_of_set W = c # sorted_list_of_set (W - {c})"
  by (rule sorted_distinct_set_unique) (use assms in auto)

text \<open>The waiting tickets, one slot apart from the others.\<close>

definition waiting_others :: "nat \<Rightarrow> ('h, 'p) server \<Rightarrow> 64 word set" where
  "waiting_others slot s = {q. \<exists>i < MAX_JOBS. i \<noteq> slot \<and> dispatchable (job_queue s ! i) \<and> enqueue_seq (job_queue s ! i) = q}"

lemma waiting_split:
  assumes "slot < MAX_JOBS"
  shows "waiting_tickets s = (if dispatchable (job_queue s ! slot) then {enqueue_seq (job_queue s ! slot)} else {}) \<union> waiting_others slot s"
  using assms by (auto simp: waiting_tickets_def waiting_others_def)

lemma waiting_others_cong: "\<forall>i. i \<noteq> slot \<longrightarrow> job_queue s' ! i = job_queue s ! i \<Longrightarrow> waiting_others slot s' = waiting_others slot s"
  by (auto simp: waiting_others_def)

lemma accepted_fifo:
  assumes a: "accepted name slot s s'" and ok: "slots_ok s"
  shows "fifo s' = fifo s @ [enqueue_counter s]"
proof -
  have at: "job_queue s' ! i = (if i = slot then job_queue s' ! slot else job_queue s ! i)" for i
    using a unfolding accepted_def by (metis nth_list_update_neq)
  have d: "dispatchable (job_queue s' ! slot)" "\<not> dispatchable (job_queue s ! slot)" "slot < MAX_JOBS" "enqueue_seq (job_queue s' ! slot) = enqueue_counter s"
    using a slots_okD(3) [OF ok] by (auto simp: accepted_def dispatchable_def)
  have "waiting_others slot s' = waiting_others slot s" by (rule waiting_others_cong) (metis at)
  then have w: "waiting_tickets s' = insert (enqueue_counter s) (waiting_tickets s)" using d by (simp add: waiting_split [OF d(3)])
  have "\<forall>q \<in> waiting_tickets s. q < enqueue_counter s" using slots_okD(4) [OF ok] by (auto simp: waiting_tickets_def dispatchable_def)
  then show ?thesis using sorted_list_snoc [OF waiting_finite] by (simp add: fifo_def w)
qed

lemma claim_fifo:
  assumes ok: "slots_ok s"
  shows "case fifo s of [] \<Rightarrow> claim_job_slot worker pid s = Some (- 1, s)
     | q # rest \<Rightarrow> (\<exists>b s'. claim_job_slot worker pid s = Some (int b, s') \<and> b < MAX_JOBS \<and> enqueue_seq (job_queue s ! b) = q \<and> fifo s' = rest
          \<and> claimed (job_queue s' ! b) \<and> worker_pid (job_queue s' ! b) = pid \<and> job_id (job_queue s' ! b) = job_id (job_queue s ! b))"
proof (cases rule: claim_job_slot_cases [OF ok, of worker pid])
  case 1
  then have "waiting_tickets s = {}" by (auto simp: waiting_tickets_def)
  then show ?thesis using 1(2) by (simp add: fifo_def)
next
  case (2 b)
  let ?s = "set_job b (\<lambda>job. job\<lparr>claimed := True, worker_pid := pid, worker_index := worker\<rparr>) s" and ?q = "enqueue_seq (job_queue s ! b)"
  have at: "job_queue ?s ! i = (if i = b then (job_queue s ! b)\<lparr>claimed := True, worker_pid := pid, worker_index := worker\<rparr> else job_queue s ! i)" for i
    using 2(1) slots_okD(1) [OF ok] by (simp add: set_job_def update_nth)
  have b: "ready (job_queue s ! b)" using 2(2) by (simp add: dispatchable_def)
  have o: "waiting_others b ?s = waiting_others b s" by (rule waiting_others_cong) (simp add: at)
  have nd: "\<not> dispatchable (job_queue ?s ! b)" by (simp add: at dispatchable_def)
  have "?q \<notin> waiting_others b s" using slots_okD(5) [OF ok _ 2(1) _ _ b] by (auto simp: waiting_others_def dispatchable_def)
  then have w: "waiting_tickets ?s = waiting_tickets s - {?q}" using 2(2) nd o by (simp add: waiting_split [OF 2(1)])
  have "fifo s = ?q # fifo ?s"
    unfolding fifo_def w by (rule sorted_list_min) (use 2 in \<open>auto simp: waiting_tickets_def\<close>)
  then show ?thesis using 2(1,4) at [of b] by (auto intro!: exI [of _ b])
qed

lemma same_dispatchable:
  "\<forall>i < MAX_JOBS. dispatchable (job_queue s' ! i) = dispatchable (job_queue s ! i) \<and> enqueue_seq (job_queue s' ! i) = enqueue_seq (job_queue s ! i)
     \<Longrightarrow> fifo s' = fifo s"
  unfolding fifo_def waiting_tickets_def by metis

lemma other_fifo:
  "fifo (snd (check_job_status name s)) = fifo s" "fifo (snd (cancel_job name s)) = fifo s" "fifo (snd (delete_job name s)) = fifo s"
  "fifo (dispatch_slot send write_chunked i s) = fifo s" "fifo (retrieve_result no_header pipe i s) = fifo s"
proof -
  have c: "\<forall>i. dispatchable (job_queue (snd (cancel_job name s)) ! i) = dispatchable (job_queue s ! i)
       \<and> enqueue_seq (job_queue (snd (cancel_job name s)) ! i) = enqueue_seq (job_queue s ! i)" for name
    by (auto simp: cancel_job_def dispatchable_def Let_def set_job_def set_status_def delete_log_file_def update_nth split: option.splits if_splits)
  then show "fifo (snd (cancel_job name s)) = fifo s" by (intro same_dispatchable) blast
  have "job_queue (snd (delete_job name s)) = job_queue (snd (cancel_job name s))"
    by (auto simp: delete_job_def delete_log_file_def split: prod.splits)
  then show "fifo (snd (delete_job name s)) = fifo s" using c [of name] by (intro same_dispatchable) simp
  show "fifo (snd (check_job_status name s)) = fifo s"
    by (rule same_dispatchable) (auto simp: check_job_status_def Let_def split: option.splits)
  show "fifo (dispatch_slot send write_chunked i s) = fifo s"
    by (rule same_dispatchable) (auto simp: dispatch_slot_def dispatchable_def Let_def set_job_def update_nth split: option.splits if_splits)
  show "fifo (retrieve_result no_header pipe i s) = fifo s"
    by (rule same_dispatchable) (auto simp: retrieve_result_def Let_def split: option.splits)
qed

text \<open>The ticket that a claim takes, and the tickets of a row of claims.\<close>

definition claim_ticket :: "int \<Rightarrow> int \<Rightarrow> ('h, 'p) server \<Rightarrow> (64 word \<times> ('h, 'p) server) option" where
  "claim_ticket worker pid s =
     (case claim_job_slot worker pid s of
        Some (slot, s') \<Rightarrow> if slot < 0 then None else Some (enqueue_seq (job_queue s ! nat slot), s')
      | None \<Rightarrow> None)"

fun serve :: "('s \<Rightarrow> ('k \<times> 's) option) \<Rightarrow> nat \<Rightarrow> 's \<Rightarrow> 'k list \<times> 's" where
  "serve deq 0 s = ([], s)"
| "serve deq (Suc n) s = (case deq s of None \<Rightarrow> ([], s) | Some (k, s') \<Rightarrow> (case serve deq n s' of (ks, s'') \<Rightarrow> (k # ks, s'')))"

text \<open>
  The contract of a service queue: an entry that may be accepted goes to the end, and a request
  takes the first entry. Its clients are served in order.
\<close>

locale service_queue =
  fixes inv :: "'s \<Rightarrow> bool" and queue :: "'s \<Rightarrow> 'k list" and acceptable :: "'j \<Rightarrow> 's \<Rightarrow> bool" and ticket :: "'s \<Rightarrow> 'k"
    and enq :: "'j \<Rightarrow> 's \<Rightarrow> 's" and deq :: "'s \<Rightarrow> ('k \<times> 's) option"
  assumes enq_inv: "inv s \<Longrightarrow> acceptable j s \<Longrightarrow> inv (enq j s)"
    and enq_queue: "inv s \<Longrightarrow> acceptable j s \<Longrightarrow> queue (enq j s) = queue s @ [ticket s]"
    and deq_empty: "inv s \<Longrightarrow> queue s = [] \<Longrightarrow> deq s = None"
    and deq_first: "inv s \<Longrightarrow> queue s = k # ks \<Longrightarrow> \<exists>s'. deq s = Some (k, s') \<and> inv s' \<and> queue s' = ks"
begin

lemma served_in_order:
  assumes "inv s"
  shows "fst (serve deq n s) = take n (queue s) \<and> queue (snd (serve deq n s)) = drop n (queue s) \<and> inv (snd (serve deq n s))"
  using assms
proof (induction n arbitrary: s)
  case (Suc n)
  show ?case
  proof (cases "queue s")
    case Nil
    then show ?thesis using deq_empty [OF Suc.prems Nil] Suc.prems by simp
  next
    case (Cons k ks)
    obtain s' where s': "deq s = Some (k, s')" "inv s'" "queue s' = ks" using deq_first [OF Suc.prems Cons] by blast
    then show ?thesis using Suc.IH [OF s'(2)] Cons by (auto split: prod.splits)
  qed
qed simp

lemma accepted_served_last:
  assumes "inv s" "acceptable j s"
  shows "fst (serve deq (Suc (length (queue s))) (enq j s)) = queue s @ [ticket s]"
  using served_in_order [OF enq_inv [OF assms], of "Suc (length (queue s))"] enq_queue [OF assms] by simp

end

text \<open>The server: an entry is a name with its data, acceptable when a slot is free and the name is fresh.\<close>

definition acceptable_job :: "string \<times> bytes \<Rightarrow> ('h, 'p) server \<Rightarrow> bool" where
  "acceptable_job j s \<longleftrightarrow> uuid_string (fst j) \<and> unused (fst j) s \<and> enqueue_counter s \<noteq> - 1 \<and> reserve_slot s \<noteq> None"

interpretation sq: service_queue server_run fifo acceptable_job enqueue_counter
  "\<lambda>j s. snd (submit_job_async header (fst j) now (snd j) category s)" "claim_ticket worker pid"
  for header now category worker pid
proof unfold_locales
  fix s :: "('a, 'b) server" and j assume s: "server_run s" "acceptable_job j s"
  show "server_run (snd (submit_job_async header (fst j) now (snd j) category s))"
    using s by (auto simp: acceptable_job_def intro: server_run.submit)
  have ok: "slots_ok s" using server_run_ok [OF s(1)] by simp
  obtain slot where slot: "reserve_slot s = Some slot" "uuid_string (fst j)" using s(2) by (auto simp: acceptable_job_def)
  show "fifo (snd (submit_job_async header (fst j) now (snd j) category s)) = fifo s @ [enqueue_counter s]"
    by (rule accepted_fifo [OF submit_accepted(2) [OF slot(1) ok slot(2)] ok])
next
  fix s :: "('a, 'b) server" assume s: "server_run s" "fifo s = []"
  then show "claim_ticket worker pid s = None" using claim_fifo [of s worker pid] server_run_ok [OF s(1)] by (simp add: claim_ticket_def)
next
  fix s :: "('a, 'b) server" and k ks assume s: "server_run s" "fifo s = k # ks"
  obtain b s' where b: "claim_job_slot worker pid s = Some (int b, s')" "enqueue_seq (job_queue s ! b) = k" "fifo s' = ks"
    using claim_fifo [of s worker pid] server_run_ok [OF s(1)] s(2) by auto
  then show "\<exists>s'. claim_ticket worker pid s = Some (k, s') \<and> server_run s' \<and> fifo s' = ks"
    using server_run.claim [OF s(1) b(1)] by (simp add: claim_ticket_def)
qed

text \<open>
  C11. Jobs are served in the order of submission. The abstract queue of a reachable server is the
  list of the tickets that wait, in order. An accepted submission, plain or chunked, appends its
  ticket and places the job under it; a claim takes the first ticket and leaves the rest, and
  returns -1 exactly when the queue is empty; status, cancel and delete requests, dispatch and
  retrieval leave the queue as it is. A row of claims takes the waiting tickets in order.
\<close>

theorem jobs_served_in_order:
  assumes "server_run s" "reserve_slot s = Some slot" "uuid_string name"
  shows "fifo (snd (submit_job_async header name now data category s)) = fifo s @ [enqueue_counter s]
    \<and> job_id (job_queue (snd (submit_job_async header name now data category s)) ! slot) = name
    \<and> enqueue_seq (job_queue (snd (submit_job_async header name now data category s)) ! slot) = enqueue_counter s
    \<and> fifo (snd (submit_chunked_job_async header name now chunked category s)) = fifo s @ [enqueue_counter s]
    \<and> (case fifo s of [] \<Rightarrow> claim_job_slot worker pid s = Some (- 1, s)
       | q # rest \<Rightarrow> (\<exists>b s'. claim_job_slot worker pid s = Some (int b, s') \<and> b < MAX_JOBS \<and> enqueue_seq (job_queue s ! b) = q \<and> fifo s' = rest
            \<and> claimed (job_queue s' ! b) \<and> worker_pid (job_queue s' ! b) = pid \<and> job_id (job_queue s' ! b) = job_id (job_queue s ! b)))
    \<and> fifo (snd (check_job_status name' s)) = fifo s \<and> fifo (snd (cancel_job name' s)) = fifo s \<and> fifo (snd (delete_job name' s)) = fifo s
    \<and> fifo (dispatch_slot send write_chunked i s) = fifo s \<and> fifo (retrieve_result no_header pipe i s) = fifo s
    \<and> fst (serve (claim_ticket worker pid) n s) = take n (fifo s)"
proof -
  have ok: "slots_ok s" using server_run_ok [OF assms(1)] by simp
  note served = sq.served_in_order [OF assms(1), of worker pid n]
  note a = submit_accepted [OF assms(2) ok assms(3)]
  have "job_id (job_queue (snd (submit_job_async header name now data category s)) ! slot) = name"
    "enqueue_seq (job_queue (snd (submit_job_async header name now data category s)) ! slot) = enqueue_counter s"
    using a(2) unfolding accepted_def by blast+
  then show ?thesis
    using accepted_fifo [OF a(2) ok] accepted_fifo [OF a(4) ok] claim_fifo [OF ok] served by (simp add: other_fifo)
qed

theorem jobs_served_in_order_witness:
  "fifo (snd (submit_job_async () first_job 0 [1, 2, 3] 1 (initial_server :: (unit, unit) server))) = [1]"
proof -
  have "fifo (initial_server :: (unit, unit) server) = []"
    by (auto simp: fifo_def waiting_tickets_def initial_server_def dispatchable_def empty_slot_def)
  moreover have "enqueue_counter (initial_server :: (unit, unit) server) = 1" by (simp add: initial_server_def)
  moreover have start: "server_run (initial_server :: (unit, unit) server)" by (rule server_run.start)
  ultimately show ?thesis
    using jobs_served_in_order [OF start reserve_initial first_job_uuid, where header = "()" and now = 0 and data = "[1, 2, 3]" and category = 1]
    by simp
qed

section \<open>Cancellation and deletion\<close>

lemma slot_of_cases:
  assumes "slots_ok s" "uuid_string name"
  shows "slot_of name s = Some i \<Longrightarrow> i < MAX_JOBS \<and> ready (job_queue s ! i) \<and> job_id (job_queue s ! i) = name
      \<and> (\<forall>k < MAX_JOBS. ready (job_queue s ! k) \<and> job_id (job_queue s ! k) = name \<longrightarrow> k = i)"
    and "slot_of name s = None \<Longrightarrow> \<forall>k < MAX_JOBS. \<not> (ready (job_queue s ! k) \<and> job_id (job_queue s ! k) = name)"
proof -
  assume "slot_of name s = Some i"
  from find_upt(1) [OF this [unfolded slot_of_def]] have i: "i < MAX_JOBS" "ready (job_queue s ! i)" "job_id (job_queue s ! i) = name"
    using assms(2) by simp_all
  then show "i < MAX_JOBS \<and> ready (job_queue s ! i) \<and> job_id (job_queue s ! i) = name
      \<and> (\<forall>k < MAX_JOBS. ready (job_queue s ! k) \<and> job_id (job_queue s ! k) = name \<longrightarrow> k = i)"
    using slots_okD(5) [OF assms(1)] by metis
next
  assume "slot_of name s = None"
  then show "\<forall>k < MAX_JOBS. \<not> (ready (job_queue s ! k) \<and> job_id (job_queue s ! k) = name)"
    using assms(2) by (auto simp: slot_of_def find_None_iff)
qed

definition finished :: "'h job_info \<Rightarrow> bool" where
  "finished info \<longleftrightarrow> info_status info \<in> {COMPLETED, FAILED, CANCELLED}"

text \<open>What a successful cancellation leaves behind.\<close>

definition cancelled_state :: "string \<Rightarrow> ('h, 'p) server \<Rightarrow> ('h, 'p) server \<Rightarrow> bool" where
  "cancelled_state name s s' \<longleftrightarrow> map_option info_status (job_tracker s' name) = Some CANCELLED
     \<and> (\<forall>other. other \<noteq> name \<longrightarrow> job_tracker s' other = job_tracker s other)
     \<and> waiting_threads s' = (waiting_threads s)(name := None)
     \<and> (\<forall>w. waiting_threads s name = Some w \<longrightarrow> waiter_ready (waiters s' w) \<and> \<not> waiter_success (waiters s' w))
     \<and> (\<forall>i < MAX_JOBS. if ready (job_queue s ! i) \<and> job_id (job_queue s ! i) = name
          then job_queue s' ! i = (job_queue s ! i)\<lparr>cancelled := True\<rparr>
             \<and> (worker_pid (job_queue s ! i) > 0 \<and> claimed (job_queue s ! i) \<longrightarrow> worker_pid (job_queue s ! i) \<in> set (killed s'))
          else job_queue s' ! i = job_queue s ! i)"

lemma cancel_waiters:
  "waiting_threads (notify_waiter name msg b s) = (waiting_threads s)(name := None)"
  "waiting_threads s name = Some w \<Longrightarrow> waiter_ready (waiters (notify_waiter name msg b s) w) \<and> waiter_success (waiters (notify_waiter name msg b s) w) = b"
  by (auto simp: notify_waiter_def split: option.splits)

lemma cancel_job_cases:
  assumes ok: "slots_ok s" and u: "uuid_string name"
  shows "case job_tracker s name of
      None \<Rightarrow> cancel_job name s = ((1, NOT_FOUND, ''Job ID not found''), s)
    | Some info \<Rightarrow>
        if finished info then \<exists>code msg. cancel_job name s = ((code, info_status info, msg), s) \<and> code = (if info_status info = CANCELLED then 3 else 2)
        else \<exists>msg s'. cancel_job name s = ((0, CANCELLED, msg), s') \<and> cancelled_state name s s'"
proof (cases "job_tracker s name")
  case (Some info)
  show ?thesis
  proof (cases "finished info")
    case False
    have l: "length (job_queue s) = MAX_JOBS" using slots_okD(1) [OF ok] .
    show ?thesis
    proof (cases "slot_of name s")
      case None
      then show ?thesis using Some False slot_of_cases(2) [OF ok u None]
        by (auto simp: cancel_waiters cancel_job_def finished_def cancelled_state_def set_status_def Let_def)
    next
      case (Some i)
      note i = slot_of_cases(1) [OF ok u Some]
      show ?thesis using Some False i l \<open>job_tracker s name = Some info\<close>
        by (auto simp: cancel_waiters cancel_job_def finished_def cancelled_state_def set_status_def delete_log_file_def set_job_def update_nth Let_def)
    qed
  qed (use Some in \<open>auto simp: cancel_job_def finished_def\<close>)
qed (simp add: cancel_job_def)

text \<open>A slot flagged as cancelled is never dispatched, and its worker reports a cancelled job.\<close>

lemma cancelled_slot_inert:
  assumes "cancelled (job_queue s ! i)"
  shows "dispatch_slot send write_chunked i s = s"
    and "worker_job routing_bytes write_ok read solve worker i s
       = set_job i reset_job_slot (store_simple_result (job_id (job_queue s ! i)) worker RESULT_CANCELLED ''Job was cancelled'' s)"
  using assms by (simp_all add: dispatch_slot_def worker_job_def Let_def)

text \<open>
  C21. Cancellation. For an unknown job \<open>cancel_job\<close> answers 1, for a finished one 2 or 3 (already
  cancelled), and changes nothing. Otherwise it answers 0: the job is recorded as cancelled, the
  thread that waits for it is woken with failure and dropped, exactly the slot of the job is
  flagged, a worker that runs it is killed, and from then on the request data of the slot is
  never dispatched and a worker that reaches it stores a cancelled result instead of solving.
\<close>

theorem cancel_job_correct:
  assumes "server_run s" "uuid_string name" "cancel_job name s = ((code, st, msg), s')"
  shows "case job_tracker s name of
      None \<Rightarrow> code = 1 \<and> st = NOT_FOUND \<and> s' = s
    | Some info \<Rightarrow>
        if info_status info \<in> {COMPLETED, FAILED, CANCELLED}
        then code = (if info_status info = CANCELLED then 3 else 2) \<and> st = info_status info \<and> s' = s
        else code = 0 \<and> st = CANCELLED \<and> map_option info_status (job_tracker s' name) = Some CANCELLED
          \<and> (\<forall>other. other \<noteq> name \<longrightarrow> job_tracker s' other = job_tracker s other)
          \<and> waiting_threads s' = (waiting_threads s)(name := None)
          \<and> (\<forall>w. waiting_threads s name = Some w \<longrightarrow> waiter_ready (waiters s' w) \<and> \<not> waiter_success (waiters s' w))
          \<and> (\<forall>i < MAX_JOBS. if ready (job_queue s ! i) \<and> job_id (job_queue s ! i) = name
               then job_queue s' ! i = (job_queue s ! i)\<lparr>cancelled := True\<rparr>
                  \<and> (worker_pid (job_queue s ! i) > 0 \<and> claimed (job_queue s ! i) \<longrightarrow> worker_pid (job_queue s ! i) \<in> set (killed s'))
                  \<and> dispatch_slot send write_chunked i s' = s'
                  \<and> worker_job routing_bytes write_ok read solve worker i s'
                      = set_job i reset_job_slot (store_simple_result name worker RESULT_CANCELLED ''Job was cancelled'' s')
               else job_queue s' ! i = job_queue s ! i)"
proof (cases "job_tracker s name")
  case None
  then show ?thesis using assms(3) by (simp add: cancel_job_def)
next
  case (Some info)
  have ok: "slots_ok s" using server_run_ok [OF assms(1)] by simp
  show ?thesis
  proof (cases "finished info")
    case True
    then show ?thesis using Some assms(3) cancel_job_cases [OF ok assms(2)] by (auto simp: finished_def)
  next
    case False
    then have c: "code = 0" "st = CANCELLED" "cancelled_state name s s'"
      using Some assms(3) cancel_job_cases [OF ok assms(2)] by auto
    have "dispatch_slot send write_chunked i s' = s' \<and> worker_job routing_bytes write_ok read solve worker i s'
        = set_job i reset_job_slot (store_simple_result name worker RESULT_CANCELLED ''Job was cancelled'' s')"
      if "job_queue s' ! i = (job_queue s ! i)\<lparr>cancelled := True\<rparr>" "job_id (job_queue s ! i) = name" for i
      using cancelled_slot_inert [of s' i] that by simp
    then show ?thesis using c False Some unfolding cancelled_state_def by (auto simp: finished_def)
  qed
qed

theorem cancel_job_correct_witness:
  "\<exists>msg s'. cancel_job first_job one_job = ((0, CANCELLED, msg), s') \<and> cancelled (job_queue s' ! 0)
     \<and> dispatch_slot (\<lambda>_ _. True) (\<lambda>_ _. Success) 0 s' = s'"
proof -
  obtain code st msg s' where c: "cancel_job first_job one_job = ((code, st, msg), s')" by (metis prod.exhaust)
  have a: "map_option info_status (job_tracker one_job first_job) = Some QUEUED" "ready (job_queue one_job ! 0)" "job_id (job_queue one_job ! 0) = first_job"
    using one_job_accepted unfolding accepted_def by blast+
  then obtain info where i: "job_tracker one_job first_job = Some info" "info_status info = QUEUED" by auto
  have m: "0 < MAX_JOBS" by (simp add: MAX_JOBS_def)
  let ?solve = "\<lambda>(_ :: 32 word) (_ :: bytes). \<lparr>solve_success = True, solve_header = (), solve_arrays = [], solve_error_message = ''''\<rparr>"
  show ?thesis
    using cancel_job_correct [OF one_job_run first_job_uuid c, where send = "\<lambda>_ _. True" and write_chunked = "\<lambda>_ _. Success"
        and routing_bytes = "\<lambda>_. 0" and write_ok = True and read = "\<lambda>_. Inr [1, 2, 3]" and solve = ?solve and worker = 0] i a m c by auto
qed




text \<open>The recovery of the jobs of a dead worker drops the plain request data of a job and keeps the chunked one.\<close>

lemma dead_worker_keeps_chunked_data:
  "pending_chunked_data (fail_slot pid i s) = pending_chunked_data s"
  by (simp add: fail_slot_def set_status_def set_job_def store_simple_result_def Let_def split: option.splits)

end
