(* ===== verification/Spec2Isabelle.thy ===== *)
theory Spec2Isabelle
  imports Sparse_Matrix_Inplace Sparse_Triangle Shortest_Paths Pb_Encoding Sat_Bve Sat_Correctness Worker_Pool Search_Run Grpc_Service
begin

text \<open>
  Verification of the host-side core of cuOpt, the C++ code under \<open>src/cpp/src\<close>.

  \<^bold>\<open>The program.\<close> cuOpt solves linear, mixed-integer and vehicle-routing problems. A gRPC server
  accepts jobs, keeps them in shared-memory slots and hands them to worker processes. A worker
  runs one of the solvers: first-order and barrier methods on the device, a dual simplex and a
  branch and bound on the host, local search for routing. The host solvers share sparse linear
  algebra, bound propagation, work queues and random generators; the binary feasibility heuristic
  calls a clause-learning search; the routing front end turns a way-point graph into a cost matrix.

  \<^bold>\<open>Shared theories.\<close>
  \<^item> \<open>Prelude\<close>: generic lemmas on folds, loops, lists and sums used by the components.
  \<^item> \<open>Bucket_Placement\<close>: the counting-sort pass common to the format conversions and the sorting of
    sparse vectors.
  \<^item> \<open>Extended_Values\<close>: finite numbers, infinities and NaN with the rules of IEEE 754.

  \<^bold>\<open>Sparse linear algebra\<close> (\<open>linear_algebra\<close>, \<open>dual_simplex/triangle_solve\<close>).
  \<^item> \<open>Sparse_Matrix\<close>: \<open>coo_matrix_t\<close>, \<open>csc_matrix_t\<close>, \<open>csr_matrix_t\<close>, their conversions and the transpose
    (\<open>sparse_matrix.cpp\<close>). A matrix is its arrays; \<open>csc_elem\<close> gives the element they denote. The
    conversions keep every element and sort the other index; the round trip is stable.
  \<^item> \<open>Sparse_Matrix_Edit\<close>, \<open>Sparse_Matrix_Inplace\<close>: appending, removing and permuting rows and columns,
    the in-place versions with their read and write cursors.
  \<^item> \<open>Sparse_Arith\<close>: matrix-vector products, sparse product and sum with a workspace, norm, structural checks.
  \<^item> \<open>Sparse_Vector\<close>: sparse vectors, merges, sorting, permutations (\<open>sparse_vector.cpp\<close>, \<open>vector_math.cpp\<close>).
  \<^item> \<open>Triangle_Solve\<close>: the four triangular solves with a dense right-hand side.
  \<^item> \<open>Sparse_Reach\<close>, \<open>Sparse_Triangle\<close>: the depth-first search that marks nodes by flipping column pointers and
    keeps both its stacks in one array, and the solve with a sparse right-hand side built on it
    (\<open>triangle_solve.cpp\<close>): the search ends with the reachable nodes in topological order, the
    pointers are restored and the array solves the system.
  Numbers are elements of a ring or field, so the theorems are about the exact result and rounding
  is not modelled.

  \<^bold>\<open>Way-point matrix\<close> (\<open>routing/distance_engine/waypoint_matrix.cpp\<close>). \<open>Waypoint_Matrix\<close> has the whole class:
  argument checks, Dijkstra's search with the library heap, cost matrix, way-point sequences and
  secondary costs; \<open>Shortest_Paths\<close> shows that the search returns shortest distances, that the walk
  along the predecessors ends with a shortest path, and what the cost matrix holds.

  \<^bold>\<open>Clause-learning search\<close> (\<open>mip_heuristics/feasibility_jump/sat\<close>).
  \<^item> \<open>Sat_Literals\<close>, \<open>Pb_Encoding\<close>: literals and the encoding of 0/1 rows into clauses (\<open>encode_pb_model\<close>);
    its clauses have exactly the feasible assignments as models, up to auxiliary variables.
  \<^item> \<open>Sat_Bve\<close>: bounded variable elimination and its inverse on models (\<open>presolve\<close>, \<open>postsolve\<close>).
  \<^item> \<open>Random_Generators\<close>: \<open>splitmix64_t\<close> and \<open>pcgenerator_t\<close> over words (\<open>utilities\<close>).
  \<^item> \<open>Sat_Order\<close>, \<open>Sat_Store\<close>: the activity heap, the trail and the word array of clauses.
  \<^item> \<open>Sat_Search\<close>: \<open>sat_t\<close> with propagation over watch lists, backtracking, first-UIP analysis, clause
    database reduction, restarts, and \<open>fj_bin_sat_search\<close>. The loops of \<open>propagate\<close> and \<open>solve\<close> are
    partial functions, so that not returning is a value.
  \<^item> \<open>Sat_Invariants\<close>, \<open>Sat_Propagation\<close>, \<open>Sat_Analysis\<close>, \<open>Sat_Solve\<close>: the invariant of trail, reasons,
    arena, watches and order, and that propagation, analysis, learning, reduction and decisions keep it.
  \<^item> \<open>Sat_Correctness\<close>: an infeasible answer is right, a successful one is a model, the search on a 0/1
    model hands back a feasible assignment, and the search returns once the stop callback says so.
  Activities are exact rationals; the rounding of random draws is a parameter.

  \<^bold>\<open>Bound propagation\<close> (\<open>dual_simplex/bounds_strengthening.cpp\<close>). \<open>Bounds_Strengthening\<close> has the constructor and
  the whole call with its ten rounds; it never cuts off a point that satisfies rows, bounds and
  integrality. Finite values are exact, infinite ones follow IEEE 754.

  \<^bold>\<open>Branch and bound\<close> (\<open>branch_and_bound\<close>, \<open>dual_simplex/initial_basis.cpp\<close>).
  \<^item> \<open>Std_Heap\<close>: \<open>heap_t\<close> of \<open>node_queue.hpp\<close> with the library's \<open>push_heap\<close> and \<open>pop_heap\<close>; the locale \<open>weak_order\<close> has
    what they need of a comparison and what they then do.
  \<^item> \<open>Basis_Packing\<close>: two-bit packing of a basis into bytes and its round trip.
  \<^item> \<open>Mip_Node\<close>, \<open>Mip_Tree\<close>: \<open>mip_node_t\<close> and \<open>search_tree_t\<close> (\<open>mip_node.hpp\<close>) over a memory of addresses. The
    destructor frees exactly a subtree, closing a leaf frees exactly the finished ancestors' children,
    branching and closing keep the shape of the tree and the bounds of every node.
  \<^item> \<open>Node_Queue\<close>: \<open>node_queue_t\<close>, two heaps over shared entries; \<open>weak_order\<close> is interpreted on both orders.
  \<^item> \<open>Tree_Search\<close>: the operations of the opportunistic best-first search (\<open>branch_and_bound.cpp\<close>: \<open>update_tree\<close>,
    \<open>plunge_with\<close>, \<open>best_first_search_with\<close>, stealing, dive starts, incumbents, the start and the final bound).
  \<^item> \<open>Search_Bounds\<close>, \<open>Search_Invariants\<close>, \<open>Best_First_Search\<close>: rounding of bounds to the lattice of objective
    values, the boxes of nodes, and the invariants that every operation keeps.
  \<^item> \<open>Search_Run\<close>: runs that interleave the steps of all workers. Every open leaf is held exactly once, every
    feasible point is below an open leaf or accounted for by a bound, the final bound is valid.
  A worker's queue, stack and current node stand for \<open>bfs_worker_t\<close> and the locals of \<open>plunge_with\<close>; one step is
  what happens under a lock or on nodes only that worker holds. The node LP, the branching rule and
  the estimate are arguments with named hypotheses (\<open>relaxation_ok\<close>): infeasible means no feasible point in the
  bounds, an optimal value or a cutoff is a bound, the branching variable is fractional, and the solve of a
  node does not stop at a work limit, which this mode does not set. Numbers are exact.

  \<^bold>\<open>Work queues\<close>. \<open>Circular_Deque\<close> (\<open>utilities/circular_deque.hpp\<close>) states the contract of a bounded queue as a
  locale and interprets it on the ring buffer; \<open>Worker_Pool\<close> (\<open>branch_and_bound/worker_pool.hpp\<close>) uses the
  interpretation to show that no worker is handed out twice, whatever the order of the locked operations.

  \<^bold>\<open>gRPC server\<close> (\<open>grpc/server\<close>).
  \<^item> \<open>Grpc_Slots\<close>: the job slots, the claim of the oldest job, and a machine that interleaves claims,
    resets and submissions between single atomic accesses. No slot has two holders and no ticket is
    delivered twice. A submission can overwrite a job published between its two accesses to the slot.
  \<^item> \<open>Grpc_Jobs\<close>: the operations of job management as steps on the state of the server.
  \<^item> \<open>Grpc_Service\<close>: reachable states keep every unfinished job in a slot or with a result, the slots
    implement a queue in the order of submission (the locale \<open>service_queue\<close>), and the effects of cancel and delete.
  Atomic accesses are sequentially consistent. Identifiers are fresh 36-character strings and fewer
  than \<open>2 ^ 64 - 1\<close> tickets are drawn; both are hypotheses of the steps.

  \<^bold>\<open>Bounds and fuel.\<close> No definition uses fuel. Loops are folds over index ranges, structural or
  well-founded recursion, or \<open>partial_function (option)\<close>; for the latter the theorems say when a
  result is returned.

  \<^bold>\<open>Not modelled.\<close> CUDA kernels and the numerical solvers built on them (first-order LP, barrier, routing
  local search, most MIP heuristics), whose behaviour is floating-point arithmetic on the device;
  the simplex method, LP presolve, factorisation and cuts, which depend on tolerances throughout;
  of the branch and bound the pseudo-costs, dives, symmetry reductions, root cuts and the deterministic
  mode, which are heuristics on floating-point scores or other schedules of the same steps; file formats, transport, process supervision, logging and bindings,
  which are input and output.
\<close>

end
